(* ===== verification/Ircd_Prelude.thy ===== *)
theory Ircd_Prelude
  imports Main "HOL-Library.Word"
begin

section \<open>Prelude of the solid-ircd development\<close>

text \<open>
  Names and facts shared by every component theory.

  A C string is the list of its bytes before the terminating NUL (\<open>cstr\<close>); reading the
  byte a pointer stands on is \<open>deref\<close>, which gives 0 at the end of the list.  Flag words
  are 32-bit words and a test \<^verbatim>\<open>x & FLAG\<close> is \<open>has_flag\<close>.  Times
  (\<^verbatim>\<open>time_t\<close>) are integers.  Objects the C code reaches through pointers live in
  stores indexed by addresses (\<open>addr\<close>), and an intrusive linked list is the list of the
  addresses on it, first element first.
\<close>

unbundle bit_operations_syntax

type_synonym cstr = string
type_synonym u32 = "32 word"
type_synonym time_t = int
type_synonym addr = nat

definition deref :: "cstr \<Rightarrow> nat" where
  "deref s = (case s of [] \<Rightarrow> 0 | c # _ \<Rightarrow> of_char c)"

definition has_flag :: "u32 \<Rightarrow> u32 \<Rightarrow> bool" where
  "has_flag x m \<longleftrightarrow> x AND m \<noteq> 0"

text \<open>Fact collections: what a client of a chained table needs, and what the C-string proofs need.\<close>

named_theorems table_simps
named_theorems cstr_simps

subsection \<open>Lists as linked lists\<close>

lemma filter_neq_remove1: "distinct xs \<Longrightarrow> filter (\<lambda>y. y \<noteq> x) xs = remove1 x xs"
  by (induction xs) (auto simp: filter_id_conv)

lemma length_remove1_mem: "x \<in> set xs \<Longrightarrow> Suc (length (remove1 x xs)) = length xs"
  by (induction xs) auto

lemma find_SomeD: "find P xs = Some x \<Longrightarrow> P x \<and> x \<in> set xs"
  by (induction xs) (auto split: if_splits)

lemma find_eq_Some_unique:
  assumes "x \<in> set xs" and "P x" and "\<forall>y\<in>set xs. P y \<longrightarrow> y = x"
  shows "find P xs = Some x"
proof (cases "find P xs")
  case None
  with assms(1,2) show ?thesis by (auto simp: find_None_iff)
next
  case (Some y)
  with find_SomeD [OF Some] assms(3) show ?thesis by blast
qed

lemma find_cong_set: "(\<And>x. x \<in> set xs \<Longrightarrow> P x = Q x) \<Longrightarrow> find P xs = find Q xs"
  by (induction xs) auto

lemma find_None_filter: "find P xs = None \<longleftrightarrow> filter P xs = []"
  by (induction xs) auto

lemma sum_list_remove1:
  fixes f :: "'a \<Rightarrow> nat"
  shows "x \<in> set xs \<Longrightarrow> sum_list (map f (remove1 x xs)) + f x = sum_list (map f xs)"
  by (induction xs) auto

lemma dropWhile_neq_unique:
  "count_list s c \<le> 1 \<Longrightarrow> drop n s = c # t \<Longrightarrow> dropWhile (\<lambda>x. x \<noteq> c) s = c # t"
proof (induction s arbitrary: n)
  case (Cons a s)
  then show ?case
  proof (cases n)
    case (Suc m)
    with Cons.prems have d: "drop m s = c # t" by simp
    then have "c \<in> set s" by (metis in_set_dropD list.set_intros(1))
    then have "count_list s c \<noteq> 0" by (simp add: count_list_0_iff)
    with Cons.prems(1) have "a \<noteq> c" by auto
    moreover from this Cons.prems(1) have "count_list s c \<le> 1" by simp
    ultimately show ?thesis using Cons.IH [OF _ d] by simp
  qed simp
qed simp

lemma count_list_drop_le: "count_list (drop n s) c \<le> count_list s c"
proof -
  have "count_list s c = count_list (take n s) c + count_list (drop n s) c"
    by (metis append_take_drop_id count_list_append)
  then show ?thesis by simp
qed

lemma of_char_less [simp]: "(of_char c :: nat) < 256"
  by (metis UNIV_I imageI range_nat_of_char atLeastLessThan_iff)

end
