(* ===== verification/Match.thy ===== *)
theory Match
  imports Ircd_Prelude
begin

section \<open>Wildcard matching and case folding (src/src/match.c)\<close>

text \<open>
  The case tables, the case-insensitive comparisons \<open>mycmp\<close>, \<open>mycmp_diff\<close> and
  \<open>myncmp\<close>, the in-place pattern reduction \<open>collapse\<close> and the wildcard matcher
  \<open>match\<close> with its recursion counter \<open>calls\<close>.  \<open>glob\<close> is the reference
  meaning of a pattern: \<^verbatim>\<open>*\<close> stands for any bytes, \<^verbatim>\<open>?\<close> for one
  byte, every other byte for itself up to case.
\<close>

subsection \<open>Tables\<close>

definition tolowertab :: "nat list" where
  "tolowertab = [0..<65] @ [97..<123] @ [91..<256]"

definition touppertab :: "nat list" where
  "touppertab = [0..<97] @ [65..<91] @ [123..<256]"

definition ToLower :: "char \<Rightarrow> nat" where
  "ToLower c = tolowertab ! of_char c"

definition ToUpper :: "char \<Rightarrow> nat" where
  "ToUpper c = touppertab ! of_char c"

definition PRINT :: nat where "PRINT = 1"
definition CNTRL :: nat where "CNTRL = 2"
definition ALPHA :: nat where "ALPHA = 4"
definition DIGIT :: nat where "DIGIT = 16"
definition SPACE :: nat where "SPACE = 32"

definition char_atribs :: "nat list" where
  "char_atribs =
     replicate 9 CNTRL @ replicate 5 (CNTRL OR SPACE) @ replicate 18 CNTRL
     @ [PRINT OR SPACE] @ replicate 15 PRINT
     @ replicate 10 (PRINT OR DIGIT) @ replicate 7 PRINT
     @ replicate 30 (PRINT OR ALPHA) @ replicate 2 PRINT
     @ replicate 30 (PRINT OR ALPHA) @ [0] @ replicate 128 0"

definition IsAlpha :: "char \<Rightarrow> bool" where
  "IsAlpha c \<longleftrightarrow> char_atribs ! of_char c AND ALPHA \<noteq> 0"

definition IsDigit :: "char \<Rightarrow> bool" where
  "IsDigit c \<longleftrightarrow> char_atribs ! of_char c AND DIGIT \<noteq> 0"

definition IsSpace :: "char \<Rightarrow> bool" where
  "IsSpace c \<longleftrightarrow> char_atribs ! of_char c AND SPACE \<noteq> 0"

subsection \<open>Comparisons\<close>

text \<open>
  The loops stop at the first pair of bytes whose upper-case forms differ; the NUL that ends a
  string is different from every byte of a string.
\<close>

fun mycmp :: "cstr \<Rightarrow> cstr \<Rightarrow> int" where
  "mycmp [] [] = 0"
| "mycmp (a # as) (b # bs) = (if ToUpper a = ToUpper b then mycmp as bs else - 1)"
| "mycmp _ _ = - 1"

fun mycmp_diff :: "cstr \<Rightarrow> cstr \<Rightarrow> int" where
  "mycmp_diff [] [] = 0"
| "mycmp_diff (a # as) (b # bs) =
     (let ret = int (ToUpper a) - int (ToUpper b) in if ret = 0 then mycmp_diff as bs else ret)"
| "mycmp_diff (a # as) [] = int (ToUpper a) - int (touppertab ! 0)"
| "mycmp_diff [] (b # bs) = int (touppertab ! 0) - int (ToUpper b)"

text \<open>
  \<open>myncmp\<close> advances both pointers before it looks for the end of the strings: on two
  empty strings it reads past both NULs unless \<open>n\<close> is 1.  \<open>None\<close> is that read.
\<close>

fun myncmp :: "cstr \<Rightarrow> cstr \<Rightarrow> int \<Rightarrow> int option" where
  "myncmp (a # as) (b # bs) n =
     (if ToUpper a = ToUpper b
      then (if n - 1 = 0 \<or> as = [] \<and> bs = [] then Some 0 else myncmp as bs (n - 1))
      else Some (- 1))"
| "myncmp [] [] n = (if n - 1 = 0 then Some 0 else None)"
| "myncmp _ _ n = Some (- 1)"

subsection \<open>collapse\<close>

text \<open>
  The loop of \<open>collapse\<close> at the byte \<open>s\<close> points to; the rest of the string is
  rewritten in place and the loop goes on behind that byte.
\<close>

definition is_wild :: "char \<Rightarrow> bool" where
  "is_wild c \<longleftrightarrow> c = CHR ''*'' \<or> c = CHR ''?''"

function collapse :: "cstr \<Rightarrow> cstr" where
  "collapse [] = []"
| "collapse (c # cs) =
     (if c = CHR 0x5C then (case cs of [] \<Rightarrow> [c] | d # ds \<Rightarrow> c # d # collapse ds)
      else if c = CHR ''*'' then
        (case cs of
           [] \<Rightarrow> [c]
         | d # ds \<Rightarrow>
             if d = CHR ''*'' then c # collapse (dropWhile (\<lambda>x. x = CHR ''*'') cs)
             else if d = CHR ''?'' then
               c # collapse (d # filter (\<lambda>x. x = CHR ''?'') (takeWhile is_wild ds)
                               @ dropWhile is_wild ds)
             else c # collapse cs)
      else c # collapse cs)"
  by pat_completeness auto

lemma collapse_shrinks:
  "length (filter P (takeWhile Q ds)) + length (dropWhile Q ds) \<le> length ds"
proof -
  have "length (filter P (takeWhile Q ds)) \<le> length (takeWhile Q ds)" by simp
  moreover have "length (takeWhile Q ds) + length (dropWhile Q ds) = length ds"
    by (metis length_append takeWhile_dropWhile_id)
  ultimately show ?thesis by linarith
qed

termination collapse
  by (relation "measure length")
     (auto simp: less_Suc_eq_le collapse_shrinks length_dropWhile_le intro: le_SucI)

declare collapse.simps(2) [simp del]

subsection \<open>match\<close>

definition MAX_CALLS :: nat where "MAX_CALLS = 512"

text \<open>
  The shortcut for a pattern that starts with \<^verbatim>\<open>*\<close> and the byte \<open>c\<close>: move
  both pointers behind the first \<open>c\<close> of the string; \<open>None\<close> is the early
  \<^verbatim>\<open>return 1\<close> when the string has none.
\<close>

definition skip_star :: "char \<Rightarrow> cstr \<Rightarrow> cstr \<Rightarrow> (cstr \<times> cstr) option" where
  "skip_star c wild str =
     (case wild of
        a # b # wild' \<Rightarrow>
          if a = CHR ''*'' \<and> b = c
          then (case dropWhile (\<lambda>x. x \<noteq> c) str of [] \<Rightarrow> None | _ # str' \<Rightarrow> Some (wild', str'))
          else Some (wild, str)
      | _ \<Rightarrow> Some (wild, str))"

text \<open>The loop \<^verbatim>\<open>while(*wild=='?' && *string)\<close>.\<close>

fun skip_qmarks :: "cstr \<Rightarrow> cstr \<Rightarrow> cstr \<times> cstr" where
  "skip_qmarks (w # wild) (s # str) =
     (if w = CHR ''?'' then skip_qmarks wild str else (w # wild, s # str))"
| "skip_qmarks wild str = (wild, str)"

lemma skip_star_le:
  "skip_star c w s = Some (w', s') \<Longrightarrow> length w' \<le> length w"
  by (auto simp: skip_star_def split: list.splits if_splits)

lemma skip_qmarks_le: "length (fst (skip_qmarks w s)) \<le> length w"
  by (induction w s rule: skip_qmarks.induct) auto

text \<open>
  \<open>match_rec\<close> is the C function \<open>_match\<close> from its entry, \<open>match_loop\<close> its
  \<^verbatim>\<open>while(1)\<close> loop and \<open>match_scan\<close> the loop that looks for the byte \<open>p\<close>
  after a star.  Each returns the C result (0 is a match) and the value of \<open>calls\<close>.
\<close>

function (sequential)
  match_rec :: "cstr \<Rightarrow> cstr \<Rightarrow> nat \<Rightarrow> nat \<times> nat" and
  match_loop :: "cstr \<Rightarrow> cstr \<Rightarrow> nat \<Rightarrow> nat \<times> nat" and
  match_scan :: "char \<Rightarrow> cstr \<Rightarrow> cstr \<Rightarrow> nat \<Rightarrow> nat \<times> nat"
where
  "match_rec wild str calls =
     (if calls > MAX_CALLS then (1, calls + 1)
      else (case skip_star (CHR ''!'') wild str of
              None \<Rightarrow> (1, calls + 1)
            | Some (wild1, str1) \<Rightarrow>
                (case skip_star (CHR ''@'') wild1 str1 of
                   None \<Rightarrow> (1, calls + 1)
                 | Some (wild2, str2) \<Rightarrow> match_loop wild2 str2 (calls + 1))))"
| "match_loop [] str calls = ((if str = [] then 0 else 1), calls)"
| "match_loop (c # wild) str calls =
     (if c = CHR ''*'' then
        (case skip_qmarks (dropWhile (\<lambda>x. x = CHR ''*'') wild) str of
           ([], str1) \<Rightarrow> (0, calls)
         | (p # wild1, str1) \<Rightarrow>
             if p = CHR ''*'' then match_loop (p # wild1) str1 calls
             else match_scan p wild1 str1 calls)
      else
        (case str of
           [] \<Rightarrow> (1, calls)
         | s # str1 \<Rightarrow>
             if c \<noteq> CHR ''?'' \<and> ToUpper s \<noteq> ToUpper c then (1, calls)
             else match_loop wild str1 calls))"
| "match_scan p wild [] calls = (1, calls)"
| "match_scan p wild (s # str) calls =
     (if ToUpper s = ToUpper p
      then (case match_rec wild str calls of
              (r, calls1) \<Rightarrow> if r = 0 then (0, calls1) else match_scan p wild str calls1)
      else match_scan p wild str calls)"
  by pat_completeness auto

lemma star_tail_shorter:
  assumes "(p # w1, s1) = skip_qmarks (dropWhile (\<lambda>x. x = CHR ''*'') w) s"
  shows "length w1 < length w"
proof -
  have "length (p # w1) \<le> length (dropWhile (\<lambda>x. x = CHR ''*'') w)"
    using skip_qmarks_le [of "dropWhile (\<lambda>x. x = CHR ''*'') w" s]
    by (simp flip: assms)
  also have "\<dots> \<le> length w" by (rule length_dropWhile_le)
  finally show ?thesis by simp
qed

termination match_rec
proof (relation "measures [
    \<lambda>x. case x of Inl (w, s, k) \<Rightarrow> length w
                | Inr (Inl (w, s, k)) \<Rightarrow> length w
                | Inr (Inr (p, w, s, k)) \<Rightarrow> Suc (length w),
    \<lambda>x. case x of Inl _ \<Rightarrow> 1 | Inr _ \<Rightarrow> 0,
    \<lambda>x. case x of Inr (Inr (p, w, s, k)) \<Rightarrow> length s | _ \<Rightarrow> 0]", goal_cases)
  case (2 wild str calls a wild1 str1 b wild2 str2)
  then show ?case using skip_star_le [of _ wild str] skip_star_le [of _ wild1 str1]
    by (fastforce simp: less_le)
qed (auto dest: star_tail_shorter)

definition match :: "cstr \<Rightarrow> cstr \<Rightarrow> nat" where
  "match n m = fst (match_rec n m 0)"

text \<open>The reference meaning of a pattern.\<close>

fun glob :: "cstr \<Rightarrow> cstr \<Rightarrow> bool" where
  "glob [] s = (s = [])"
| "glob (c # w) [] = (c = CHR ''*'' \<and> glob w [])"
| "glob (c # w) (a # s) =
     (if c = CHR ''*'' then glob w (a # s) \<or> glob (c # w) s
      else (c = CHR ''?'' \<or> ToUpper a = ToUpper c) \<and> glob w s)"

subsection \<open>The tables fold ASCII case and nothing else\<close>

lemma touppertab_nth: "\<forall>n<256. touppertab ! n = (if 97 \<le> n \<and> n \<le> 122 then n - 32 else n)"
  by (auto simp: touppertab_def nth_append simp del: upt_rec_numeral)

lemma tolowertab_nth: "\<forall>n<256. tolowertab ! n = (if 65 \<le> n \<and> n \<le> 90 then n + 32 else n)"
  by (auto simp: tolowertab_def nth_append simp del: upt_rec_numeral)

lemma ToUpper_eq:
  "ToUpper c = (let n = of_char c in if 97 \<le> n \<and> n \<le> 122 then n - 32 else n)"
  using touppertab_nth by (simp add: ToUpper_def Let_def)

lemma ToLower_eq:
  "ToLower c = (let n = of_char c in if 65 \<le> n \<and> n \<le> 90 then n + 32 else n)"
  using tolowertab_nth by (simp add: ToLower_def Let_def)

lemma fold_agree_nat:
  fixes m n :: nat
  shows "((if 97 \<le> m \<and> m \<le> 122 then m - 32 else m) = (if 97 \<le> n \<and> n \<le> 122 then n - 32 else n))
    = ((if 65 \<le> m \<and> m \<le> 90 then m + 32 else m) = (if 65 \<le> n \<and> n \<le> 90 then n + 32 else n))"
  by (auto split: if_splits)

lemma fold_agree: "ToUpper a = ToUpper b \<longleftrightarrow> ToLower a = ToLower b"
  unfolding ToUpper_eq ToLower_eq Let_def by (rule fold_agree_nat)

lemma ToUpper_range: "ToUpper c < 256"
  by (simp add: ToUpper_eq Let_def less_imp_diff_less)

lemma of_char_nat_inject: "(of_char a :: nat) = of_char b \<longleftrightarrow> a = b"
  by simp

lemma ToUpper_caseless:
  assumes "\<not> (65 \<le> (of_char c :: nat) \<and> of_char c \<le> (90 :: nat))"
    and "\<not> (97 \<le> (of_char c :: nat) \<and> of_char c \<le> (122 :: nat))"
  shows "ToUpper a = ToUpper c \<longleftrightarrow> a = c"
proof
  assume "ToUpper a = ToUpper c"
  with assms have "(of_char a :: nat) = of_char c"
    by (auto simp: ToUpper_eq Let_def split: if_splits)
  then show "a = c" by simp
qed simp

lemma IsDigit_table: "\<forall>n<256. (char_atribs ! n AND DIGIT \<noteq> 0) = (48 \<le> n \<and> n \<le> (57 :: nat))"
  by code_simp

lemma IsDigit_iff: "IsDigit c \<longleftrightarrow> 48 \<le> (of_char c :: nat) \<and> of_char c \<le> (57 :: nat)"
  using IsDigit_table by (simp add: IsDigit_def)

subsection \<open>Comparisons decide equality up to case\<close>

lemma mycmp_zero_iff [cstr_simps]: "mycmp s t = 0 \<longleftrightarrow> map ToUpper s = map ToUpper t"
  by (induction s t rule: mycmp.induct) auto

lemma mycmp_refl [simp]: "mycmp s s = 0"
  by (simp add: mycmp_zero_iff)

lemma mycmp_sym: "mycmp s t = mycmp t s"
  by (induction s t rule: mycmp.induct) auto

lemma mycmp_trans: "mycmp r s = 0 \<Longrightarrow> mycmp s t = 0 \<Longrightarrow> mycmp r t = 0"
  by (simp add: mycmp_zero_iff)

lemma mycmp_range: "mycmp s t \<in> {0, - 1}"
  by (induction s t rule: mycmp.induct) auto

lemma ToUpper_zero_iff: "ToUpper c = 0 \<longleftrightarrow> c = CHR 0x00"
  using ToUpper_caseless [of "CHR 0x00" c] by (simp add: ToUpper_eq Let_def)

lemma mycmp_diff_zero_iff:
  assumes "CHR 0x00 \<notin> set s" and "CHR 0x00 \<notin> set t"
  shows "mycmp_diff s t = 0 \<longleftrightarrow> mycmp s t = 0"
  using assms
  by (induction s t rule: mycmp_diff.induct)
     (auto simp: Let_def touppertab_nth ToUpper_zero_iff)

lemma map_ToUpper_iff_ToLower: "map ToUpper s = map ToUpper t \<longleftrightarrow> map ToLower s = map ToLower t"
proof (induction s arbitrary: t)
  case (Cons a s)
  then show ?case by (cases t) (auto simp: fold_agree)
qed auto

subsection \<open>Laws of the reference meaning\<close>

lemma glob_star_Nil [simp]: "glob [CHR ''*''] s"
  by (induction s) auto

lemma glob_star_iff: "glob (CHR ''*'' # w) s \<longleftrightarrow> (\<exists>n. glob w (drop n s))"
proof (induction s)
  case (Cons a s)
  show ?case
  proof
    assume "glob (CHR ''*'' # w) (a # s)"
    then consider "glob w (a # s)" | n where "glob w (drop n s)"
      using Cons.IH by auto
    then show "\<exists>n. glob w (drop n (a # s))"
      by cases (metis drop_0, metis drop_Suc_Cons)
  next
    assume "\<exists>n. glob w (drop n (a # s))"
    then obtain n where n: "glob w (drop n (a # s))" ..
    then show "glob (CHR ''*'' # w) (a # s)"
      using Cons.IH by (cases n) auto
  qed
qed simp

lemma glob_star_star [simp]: "glob (CHR ''*'' # CHR ''*'' # w) s = glob (CHR ''*'' # w) s"
  by (simp add: glob_star_iff [of "CHR ''*'' # w"]) (metis drop_drop drop_0 glob_star_iff)

lemma glob_star_dropStars: "glob (CHR ''*'' # dropWhile (\<lambda>x. x = CHR ''*'') w) s = glob (CHR ''*'' # w) s"
  by (induction w) auto

lemma glob_star_qmark_Cons: "glob (CHR ''*'' # CHR ''?'' # w) (a # s) = glob (CHR ''*'' # w) s"
proof (induction s arbitrary: a)
  case (Cons b s)
  show ?case using Cons.IH [of b] by auto
qed auto

lemma glob_star_qmark_Nil [simp]: "\<not> glob (CHR ''*'' # CHR ''?'' # w) []"
  by simp

lemma glob_qmark_star: "glob (CHR ''?'' # CHR ''*'' # w) s = glob (CHR ''*'' # CHR ''?'' # w) s"
  by (cases s) (auto simp: glob_star_qmark_Cons simp del: glob.simps(3), auto)

lemma glob_skip_qmarks:
  "skip_qmarks w s = (w', s') \<Longrightarrow> glob (CHR ''*'' # w) s = glob (CHR ''*'' # w') s'"
  by (induction w s rule: skip_qmarks.induct)
     (auto simp: glob_star_qmark_Cons simp del: glob.simps(3) split: if_splits)

lemma skip_qmarks_stuck:
  "skip_qmarks w s = (CHR ''?'' # w', s') \<Longrightarrow> s' = []"
  by (induction w s rule: skip_qmarks.induct) (auto split: if_splits)

lemma glob_star_literal:
  assumes "p \<noteq> CHR ''*''" and "p \<noteq> CHR ''?'' \<or> s = []"
  shows "glob (CHR ''*'' # p # w) s \<longleftrightarrow>
    (\<exists>n a t. drop n s = a # t \<and> ToUpper a = ToUpper p \<and> glob w t)"
proof -
  have "glob (p # w) u \<longleftrightarrow> (\<exists>a t. u = a # t \<and> ToUpper a = ToUpper p \<and> glob w t)"
    if "p \<noteq> CHR ''?'' \<or> u = []" for u
    using that assms(1) by (cases u) auto
  moreover have "p \<noteq> CHR ''?'' \<or> drop n s = []" for n using assms(2) by auto
  ultimately show ?thesis by (simp add: glob_star_iff)
qed

subsection \<open>Soundness of the matcher\<close>

text \<open>The shortcuts only ever take one of the ways in which the star can be read.\<close>

lemma skip_star_sound:
  assumes "skip_star c w s = Some (w', s')" and "glob w' s'"
  shows "glob w s"
proof (cases "\<exists>v. w = CHR ''*'' # c # v")
  case True
  then obtain v where w: "w = CHR ''*'' # c # v" ..
  with assms(1) have d: "dropWhile (\<lambda>x. x \<noteq> c) s = c # s'" and "w' = v"
    by (auto simp: skip_star_def dropWhile_eq_Cons_conv split: list.splits)
  define n where "n = length (takeWhile (\<lambda>x. x \<noteq> c) s)"
  have "drop n s = c # s'" unfolding n_def by (metis d dropWhile_eq_drop)
  moreover have "glob (c # v) (c # s')"
  proof (cases "c = CHR ''*''")
    case True
    have "glob v (drop 1 (c # s'))" using assms(2) \<open>w' = v\<close> by simp
    then show ?thesis unfolding True glob_star_iff by blast
  qed (use assms(2) \<open>w' = v\<close> in simp)
  ultimately show ?thesis unfolding w glob_star_iff by metis
next
  case False
  with assms show ?thesis by (auto simp: skip_star_def split: list.splits if_splits)
qed

lemma match_sound_mutual:
  "fst (match_rec w s k) = 0 \<Longrightarrow> glob w s"
  "fst (match_loop w s k) = 0 \<Longrightarrow> glob w s"
  "p \<noteq> CHR ''*'' \<Longrightarrow> fst (match_scan p w s k) = 0 \<Longrightarrow> glob (CHR ''*'' # p # w) s"
proof (induction w s k and w s k and p w s k rule: match_rec_match_loop_match_scan.induct)
  case (1 w s k)
  then obtain w1 s1 w2 s2 where
    k: "\<not> MAX_CALLS < k" and
    s1: "skip_star (CHR ''!'') w s = Some (w1, s1)" and
    s2: "skip_star (CHR ''@'') w1 s1 = Some (w2, s2)" and
    m: "fst (match_loop w2 s2 (k + 1)) = 0"
    by (auto simp del: match_loop.simps split: if_splits option.splits)
  have "glob w2 s2" by (rule "1.IH" [OF k s1 refl s2 refl m])
  then show ?case by (rule skip_star_sound [OF s1 skip_star_sound [OF s2]])
next
  case (3 c w s k)
  show ?case
  proof (cases "c = CHR ''*''")
    case True
    obtain w1 s1 where q: "skip_qmarks (dropWhile (\<lambda>x. x = CHR ''*'') w) s = (w1, s1)"
      by (cases "skip_qmarks (dropWhile (\<lambda>x. x = CHR ''*'') w) s")
    have eq: "glob (c # w) s = glob (CHR ''*'' # w1) s1"
      using glob_skip_qmarks [OF q] by (simp add: True glob_star_dropStars)
    show ?thesis
    proof (cases w1)
      case Nil
      then show ?thesis by (simp add: eq)
    next
      case (Cons p w2)
      show ?thesis
      proof (cases "p = CHR ''*''")
        case p: True
        have "fst (match_loop (p # w2) s1 k) = 0"
          using "3.prems" True q Cons p by simp
        then have "glob (p # w2) s1"
          by (rule "3.IH"(1) [OF True q [symmetric, unfolded Cons] refl p])
        then show ?thesis using p Cons by (simp add: eq)
      next
        case False
        then have "fst (match_scan p w2 s1 k) = 0"
          using "3.prems" True q Cons by simp
        then have "glob (CHR ''*'' # p # w2) s1"
          by (rule "3.IH"(2) [OF True q [symmetric, unfolded Cons] refl False False])
        then show ?thesis using Cons by (simp add: eq)
      qed
    qed
  next
    case False
    with "3.prems" "3.IH"(3) show ?thesis by (auto split: list.splits if_splits)
  qed
next
  case (5 p w s str k)
  show ?case
  proof (cases "ToUpper s = ToUpper p \<and> fst (match_rec w str k) = 0")
    case True
    then have "glob w str" using "5.IH"(1) by blast
    with True have "glob (p # w) (s # str)" using "5.prems"(1) by simp
    then show ?thesis using "5.prems"(1) by simp
  next
    case False
    obtain r k1 where r: "match_rec w str k = (r, k1)" by (cases "match_rec w str k")
    have "glob (CHR ''*'' # p # w) str"
    proof (cases "ToUpper s = ToUpper p")
      case up: True
      with False r have "r \<noteq> 0" by simp
      with up r "5.prems"(2) have "fst (match_scan p w str k1) = 0" by simp
      with "5.IH"(2) [OF up r [symmetric] \<open>r \<noteq> 0\<close> "5.prems"(1)] show ?thesis by simp
    next
      case up: False
      with "5.prems"(2) have "fst (match_scan p w str k) = 0" by simp
      with "5.IH"(3) [OF up "5.prems"(1)] show ?thesis by simp
    qed
    then show ?thesis by simp
  qed
qed (auto split: if_splits)

subsection \<open>Completeness of the matcher\<close>

text \<open>
  The shortcut for \<^verbatim>\<open>*!\<close> (and \<^verbatim>\<open>*@\<close>) tries the first
  \<^verbatim>\<open>!\<close> only, so the matcher is complete on the strings it is meant for:
  those with at most one \<^verbatim>\<open>!\<close> and at most one \<^verbatim>\<open>@\<close>.
\<close>

definition one_bang_at :: "cstr \<Rightarrow> bool" where
  "one_bang_at s \<longleftrightarrow> count_list s (CHR ''!'') \<le> 1 \<and> count_list s (CHR ''@'') \<le> 1"

lemma one_bang_at_drop: "one_bang_at s \<Longrightarrow> one_bang_at (drop n s)"
  by (meson one_bang_at_def count_list_drop_le order.trans)

lemma one_bang_at_Cons: "one_bang_at (a # s) \<Longrightarrow> one_bang_at s"
  using one_bang_at_drop [of "a # s" 1] by simp

lemma skip_star_complete:
  assumes c: "c = CHR ''!'' \<or> c = CHR ''@''" and one: "count_list s c \<le> 1" and g: "glob w s"
  shows "\<exists>w' n. skip_star c w s = Some (w', drop n s) \<and> glob w' (drop n s)"
proof (cases "\<exists>v. w = CHR ''*'' # c # v")
  case True
  then obtain v where w: "w = CHR ''*'' # c # v" ..
  have "c \<noteq> CHR ''*''" "c \<noteq> CHR ''?''" using c by auto
  moreover have "ToUpper a = ToUpper c \<longleftrightarrow> a = c" for a
    by (rule ToUpper_caseless) (use c in auto)
  ultimately obtain n t where d: "drop n s = c # t" and t: "glob v t"
    using g unfolding w by (auto simp: glob_star_literal)
  have "drop (Suc n) s = t" using d by (metis drop_Suc list.sel(3) tl_drop)
  moreover have "skip_star c w s = Some (v, t)"
    using dropWhile_neq_unique [OF one d] by (simp add: skip_star_def w)
  ultimately show ?thesis using t by blast
next
  case False
  then have "skip_star c w s = Some (w, drop 0 s)"
    by (auto simp: skip_star_def split: list.splits if_splits)
  then show ?thesis using g by (metis drop_0)
qed

lemma skip_qmarks_suffix: "\<exists>n. snd (skip_qmarks w s) = drop n s"
proof (induction w s rule: skip_qmarks.induct)
  case (1 w wild s str)
  then show ?case by (auto intro: exI [of _ 0]) (metis drop_Suc_Cons)
qed (auto intro: exI [of _ 0])

lemma calls_mono:
  "k \<le> snd (match_rec w s k)"
  "k \<le> snd (match_loop w s k)"
  "k \<le> snd (match_scan p w s k)"
proof (induction w s k and w s k and p w s k rule: match_rec_match_loop_match_scan.induct)
  case (1 w s k)
  then show ?case
    by (auto simp del: match_loop.simps split: option.splits) (metis Suc_leD)
next
  case (5 p w s str k)
  obtain r k1 where r: "match_rec w str k = (r, k1)" by (cases "match_rec w str k")
  show ?case
  proof (cases "ToUpper s = ToUpper p")
    case True
    have "k \<le> k1" using "5.IH"(1) [OF True] r by simp
    moreover have "r \<noteq> 0 \<Longrightarrow> k1 \<le> snd (match_scan p w str k1)"
      by (rule "5.IH"(2) [OF True r [symmetric]])
    ultimately show ?thesis using True r by (cases "r = 0") auto
  next
    case False
    with "5.IH"(3) show ?thesis by simp
  qed
next
  case (3 c w s k)
  obtain w1 s1 where q: "skip_qmarks (dropWhile (\<lambda>x. x = CHR ''*'') w) s = (w1, s1)"
    by (cases "skip_qmarks (dropWhile (\<lambda>x. x = CHR ''*'') w) s")
  show ?case
  proof (cases "c = CHR ''*''")
    case True
    show ?thesis
    proof (cases w1)
      case (Cons p w2)
      note IH = "3.IH"(1,2) [OF True q [symmetric, unfolded Cons] refl]
      show ?thesis using IH True q Cons by (cases "p = CHR ''*''") auto
    qed (use True q in simp)
  next
    case False
    with "3.IH"(3) show ?thesis by (cases s) auto
  qed
qed auto

lemma match_complete_mutual:
  "snd (match_rec w s k) \<le> Suc MAX_CALLS \<Longrightarrow> one_bang_at s \<Longrightarrow> glob w s \<Longrightarrow>
     fst (match_rec w s k) = 0"
  "snd (match_loop w s k) \<le> Suc MAX_CALLS \<Longrightarrow> one_bang_at s \<Longrightarrow> glob w s \<Longrightarrow>
     fst (match_loop w s k) = 0"
  "p \<noteq> CHR ''*'' \<Longrightarrow> p \<noteq> CHR ''?'' \<or> s = [] \<Longrightarrow>
   snd (match_scan p w s k) \<le> Suc MAX_CALLS \<Longrightarrow> one_bang_at s \<Longrightarrow> glob (CHR ''*'' # p # w) s \<Longrightarrow>
     fst (match_scan p w s k) = 0"
proof (induction w s k and w s k and p w s k rule: match_rec_match_loop_match_scan.induct)
  case (1 w s k)
  then have k: "\<not> MAX_CALLS < k" by (auto split: if_splits)
  obtain w1 m where s1: "skip_star (CHR ''!'') w s = Some (w1, drop m s)" and g1: "glob w1 (drop m s)"
    using skip_star_complete [of "CHR ''!''" s w] "1.prems" by (auto simp: one_bang_at_def)
  have o1: "one_bang_at (drop m s)" using "1.prems"(2) by (rule one_bang_at_drop)
  obtain w2 n where s2: "skip_star (CHR ''@'') w1 (drop m s) = Some (w2, drop n (drop m s))"
      and g2: "glob w2 (drop n (drop m s))"
    using skip_star_complete [of "CHR ''@''" "drop m s" w1] g1 o1 by (auto simp: one_bang_at_def)
  show ?case
    using "1.IH" [OF k s1 refl s2 refl _ one_bang_at_drop [OF o1] g2] "1.prems"(1) k s1 s2
    by (simp del: match_loop.simps)
next
  case (3 c w s k)
  show ?case
  proof (cases "c = CHR ''*''")
    case True
    obtain w1 s1 where q: "skip_qmarks (dropWhile (\<lambda>x. x = CHR ''*'') w) s = (w1, s1)"
      by (cases "skip_qmarks (dropWhile (\<lambda>x. x = CHR ''*'') w) s")
    have g: "glob (CHR ''*'' # w1) s1"
      using glob_skip_qmarks [OF q] "3.prems"(3) by (simp add: True glob_star_dropStars)
    have o: "one_bang_at s1"
      using skip_qmarks_suffix [of "dropWhile (\<lambda>x. x = CHR ''*'') w" s] q "3.prems"(2)
      by (auto dest: one_bang_at_drop)
    show ?thesis
    proof (cases w1)
      case Nil
      then show ?thesis using True q by simp
    next
      case (Cons p w2)
      show ?thesis
      proof (cases "p = CHR ''*''")
        case p: True
        then have "glob (p # w2) s1" using g Cons by simp
        with "3.IH"(1) [OF True q [symmetric, unfolded Cons] refl p _ o] "3.prems"(1) True q Cons p
        show ?thesis by simp
      next
        case False
        then have st: "p \<noteq> CHR ''?'' \<or> s1 = []" using skip_qmarks_stuck q Cons by blast
        from "3.IH"(2) [OF True q [symmetric, unfolded Cons] refl False False st _ o] g "3.prems"(1)
          True q Cons False
        show ?thesis by simp
      qed
    qed
  next
    case False
    then show ?thesis using "3.prems" "3.IH"(3)
      by (cases s) (auto dest: one_bang_at_Cons)
  qed
next
  case (5 p w s str k)
  have o: "one_bang_at str" using "5.prems"(4) by (rule one_bang_at_Cons)
  have q: "p \<noteq> CHR ''?''" using "5.prems"(2) by simp
  obtain r k1 where r: "match_rec w str k = (r, k1)" by (cases "match_rec w str k")
  have g: "glob (p # w) (s # str) \<or> glob (CHR ''*'' # p # w) str"
    using "5.prems"(5) by simp
  show ?case
  proof (cases "ToUpper s = ToUpper p")
    case up: True
    show ?thesis
    proof (cases "r = 0")
      case False
      have b: "snd (match_scan p w str k1) \<le> Suc MAX_CALLS"
        using "5.prems"(3) up r False by simp
      with calls_mono(3) [of k1 p w str] have "k1 \<le> Suc MAX_CALLS" by simp
      with "5.IH"(1) [OF up _ o] r False have "\<not> glob w str" by auto
      with g "5.prems"(1) have "glob (CHR ''*'' # p # w) str" by simp
      with "5.IH"(2) [OF up r [symmetric] False "5.prems"(1) _ b o] q up r False
      show ?thesis by simp
    qed (use up r in simp)
  next
    case up: False
    with g q "5.prems"(1) have "glob (CHR ''*'' # p # w) str" by auto
    with "5.IH"(3) [OF up "5.prems"(1) _ _ o] q up "5.prems"(3) show ?thesis by simp
  qed
qed (auto simp: glob_star_literal)

subsection \<open>How many calls a pattern needs\<close>

lemma calls_starfree:
  "CHR ''*'' \<notin> set w \<Longrightarrow> snd (match_loop w s k) = k"
proof (induction w arbitrary: s)
  case (Cons c w)
  then show ?case by (cases s) auto
qed simp

lemma skip_star_starfree: "CHR ''*'' \<notin> set w \<Longrightarrow> skip_star c w s = Some (w, s)"
  by (auto simp: skip_star_def split: list.splits)

lemma calls_rec_starfree:
  "CHR ''*'' \<notin> set w \<Longrightarrow> snd (match_rec w s k) = Suc k"
  by (simp add: skip_star_starfree calls_starfree del: match_loop.simps)

lemma calls_scan_starfree:
  "CHR ''*'' \<notin> set w \<Longrightarrow> snd (match_scan p w s k) \<le> k + length s"
proof (induction s arbitrary: k)
  case (Cons a s)
  obtain r k1 where r: "match_rec w s k = (r, k1)" by (cases "match_rec w s k")
  with calls_rec_starfree [OF Cons.prems, of s k] have "k1 = Suc k" by simp
  then show ?case using Cons.IH [OF Cons.prems, of k1] Cons.IH [OF Cons.prems, of k] r
    by (simp del: match_rec.simps)
qed simp

lemma skip_qmarks_set: "set (fst (skip_qmarks w s)) \<subseteq> set w"
  by (induction w s rule: skip_qmarks.induct) auto

lemma skip_qmarks_length: "length (snd (skip_qmarks w s)) \<le> length s"
  by (induction w s rule: skip_qmarks.induct) auto

lemma calls_one_star:
  "count_list w (CHR ''*'') \<le> 1 \<Longrightarrow> snd (match_loop w s k) \<le> k + length s"
proof (induction w arbitrary: s)
  case (Cons c w)
  show ?case
  proof (cases "c = CHR ''*''")
    case True
    with Cons.prems have free: "CHR ''*'' \<notin> set w" by (auto simp: count_list_0_iff)
    obtain w1 s1 where q: "skip_qmarks (dropWhile (\<lambda>x. x = CHR ''*'') w) s = (w1, s1)"
      by (cases "skip_qmarks (dropWhile (\<lambda>x. x = CHR ''*'') w) s")
    have "CHR ''*'' \<notin> set w1"
      using skip_qmarks_set [of "dropWhile (\<lambda>x. x = CHR ''*'') w" s] q free
      by (auto dest: set_dropWhileD)
    moreover have "length s1 \<le> length s"
      using skip_qmarks_length [of "dropWhile (\<lambda>x. x = CHR ''*'') w" s] q by simp
    ultimately show ?thesis using True q calls_scan_starfree [of "tl w1" "hd w1" s1 k]
      by (cases w1) auto
  next
    case False
    show ?thesis
    proof (cases s)
      case (Cons a t)
      then show ?thesis using False Cons.IH [of t] \<open>count_list (c # w) _ \<le> 1\<close> by auto
    qed (use False in simp)
  qed
qed simp

lemma skip_star_length: "skip_star c w s = Some (w', s') \<Longrightarrow> length s' \<le> length s"
  using length_dropWhile_le [of "\<lambda>x. x \<noteq> c" s]
  by (auto simp: skip_star_def split: list.splits if_splits)

lemma skip_star_count: "skip_star c w s = Some (w', s') \<Longrightarrow> count_list w' d \<le> count_list w d"
  by (auto simp: skip_star_def split: list.splits if_splits)

lemma calls_rec_one_star:
  assumes "count_list w (CHR ''*'') \<le> 1" and "k \<le> MAX_CALLS"
  shows "snd (match_rec w s k) \<le> k + 1 + length s"
proof (cases "skip_star (CHR ''!'') w s")
  case (Some ws1)
  obtain w1 s1 where s1: "ws1 = (w1, s1)" by (cases ws1)
  show ?thesis
  proof (cases "skip_star (CHR ''@'') w1 s1")
    case (Some ws2)
    obtain w2 s2 where s2: "ws2 = (w2, s2)" by (cases ws2)
    have "count_list w2 (CHR ''*'') \<le> 1"
      using skip_star_count \<open>skip_star (CHR ''!'') w s = Some ws1\<close> Some s1 s2 assms(1)
      by (meson order.trans)
    moreover have "length s2 \<le> length s"
      using skip_star_length \<open>skip_star (CHR ''!'') w s = Some ws1\<close> Some s1 s2 by (meson order.trans)
    ultimately show ?thesis
      using calls_one_star [of w2 s2 "Suc k"] assms(2) Some \<open>skip_star (CHR ''!'') w s = Some ws1\<close> s1 s2
      by (simp del: match_loop.simps)
  qed (use Some s1 assms(2) in simp)
qed (use assms(2) in simp)

subsection \<open>collapse keeps the meaning of a pattern\<close>

lemma glob_star_wild_run:
  "\<forall>x\<in>set run. is_wild x \<Longrightarrow>
   glob (CHR ''*'' # filter (\<lambda>x. x = CHR ''?'') run @ rest) s = glob (CHR ''*'' # run @ rest) s"
proof (induction run arbitrary: s)
  case (Cons a run)
  show ?case
  proof (cases "a = CHR ''?''")
    case True
    have "glob (CHR ''?'' # CHR ''*'' # filter (\<lambda>x. x = CHR ''?'') run @ rest) s
        = glob (CHR ''?'' # CHR ''*'' # run @ rest) s"
      using Cons by (cases s) auto
    then show ?thesis using True by (simp add: glob_qmark_star)
  next
    case False
    then have "a = CHR ''*''" using Cons.prems by (simp add: is_wild_def)
    then show ?thesis using Cons by simp
  qed
qed simp

lemma glob_cong_Cons: "(\<And>t. glob v t = glob w t) \<Longrightarrow> glob (c # v) s = glob (c # w) s"
  by (induction s) auto

lemma collapse_simps [simp]:
  "collapse [c] = [c]"
  "collapse (CHR 0x5C # d # ds) = CHR 0x5C # d # collapse ds"
  "collapse (CHR ''*'' # CHR ''*'' # ds) = CHR ''*'' # collapse (dropWhile (\<lambda>x. x = CHR ''*'') ds)"
  "collapse (CHR ''*'' # CHR ''?'' # ds) =
     CHR ''*'' # collapse (CHR ''?'' # filter (\<lambda>x. x = CHR ''?'') (takeWhile is_wild ds)
                             @ dropWhile is_wild ds)"
  "d \<noteq> CHR ''*'' \<Longrightarrow> d \<noteq> CHR ''?'' \<Longrightarrow> collapse (CHR ''*'' # d # ds) = CHR ''*'' # collapse (d # ds)"
  "c \<noteq> CHR 0x5C \<Longrightarrow> c \<noteq> CHR ''*'' \<Longrightarrow> collapse (c # cs) = c # collapse cs"
  by (simp_all add: collapse.simps(2))

lemma glob_collapse: "glob (collapse w) s = glob w s"
proof (induction w arbitrary: s rule: collapse.induct)
  case (2 c cs)
  let ?run = "\<lambda>ds. filter (\<lambda>x. x = CHR ''?'') (takeWhile is_wild ds) @ dropWhile is_wild ds"
  have run: "glob (CHR ''*'' # CHR ''?'' # ?run ds) s = glob (CHR ''*'' # CHR ''?'' # ds) s" for ds
  proof -
    have q: "is_wild (CHR ''?'')" by (simp add: is_wild_def)
    have "\<forall>x\<in>set (CHR ''?'' # takeWhile is_wild ds). is_wild x"
      by (auto simp: q dest: set_takeWhileD)
    from glob_star_wild_run [OF this, of "dropWhile is_wild ds" s] show ?thesis by simp
  qed
  show ?case
  proof (cases cs)
    case Nil
    then show ?thesis by simp
  next
    case (Cons d ds)
    consider "c = CHR 0x5C" | "c = CHR ''*''" "d = CHR ''*''" | "c = CHR ''*''" "d = CHR ''?''"
      | "c = CHR ''*''" "d \<noteq> CHR ''*''" "d \<noteq> CHR ''?''" | "c \<noteq> CHR 0x5C" "c \<noteq> CHR ''*''" by blast
    then show ?thesis
    proof cases
      case 1
      have "glob (c # d # collapse ds) s = glob (c # d # ds) s"
        by (intro glob_cong_Cons) (rule "2.IH"(1) [OF 1 Cons])
      then show ?thesis using 1 Cons by simp
    next
      case 2
      have "glob (c # collapse (dropWhile (\<lambda>x. x = CHR ''*'') cs)) s
          = glob (c # dropWhile (\<lambda>x. x = CHR ''*'') cs) s"
        by (rule glob_cong_Cons) (use "2.IH"(2) 2 Cons in auto)
      then show ?thesis using 2 Cons glob_star_dropStars [of cs s] by simp
    next
      case 3
      have "glob (c # collapse (d # ?run ds)) s = glob (c # d # ?run ds) s"
        by (rule glob_cong_Cons) (use "2.IH"(3) 3 Cons in auto)
      then show ?thesis using 3 Cons run [of ds] by simp
    next
      case 4
      have "glob (c # collapse cs) s = glob (c # cs) s"
        by (rule glob_cong_Cons) (use "2.IH"(4) 4 Cons in auto)
      then show ?thesis using 4 Cons by simp
    next
      case 5
      have "glob (c # collapse cs) s = glob (c # cs) s"
        by (rule glob_cong_Cons) (use "2.IH"(5) 5 in auto)
      then show ?thesis using 5 by simp
    qed
  qed
qed simp

lemma length_collapse: "length (collapse w) \<le> length w"
proof (induction w rule: collapse.induct)
  case (2 c cs)
  show ?case
  proof (cases cs)
    case (Cons d ds)
    note b = length_dropWhile_le [of "\<lambda>x. x = CHR ''*''" cs]
      collapse_shrinks [of "\<lambda>x. x = CHR ''?''" is_wild ds]
    consider "c = CHR 0x5C" | "c = CHR ''*''" "d = CHR ''*''" | "c = CHR ''*''" "d = CHR ''?''"
      | "c = CHR ''*''" "d \<noteq> CHR ''*''" "d \<noteq> CHR ''?''" | "c \<noteq> CHR 0x5C" "c \<noteq> CHR ''*''" by blast
    then show ?thesis
      using "2.IH" b Cons by cases auto
  qed simp
qed simp

lemma take_nat_Cons: "1 \<le> n \<Longrightarrow> take (nat n) (x # xs) = x # take (nat (n - 1)) xs"
  by (simp add: take_Cons' nat_diff_distrib)

subsection \<open>Properties\<close>

text \<open>
  C19: a pattern that \<open>match\<close> accepts (result 0) really matches: whatever the shortcuts and
  the call counter do, an accepted string has the reference meaning of the pattern.
\<close>

theorem match_sound: "match n m = 0 \<Longrightarrow> glob n m"
  by (simp add: match_def match_sound_mutual(1) del: match_rec.simps)

theorem match_sound_witness:
  "match ''*!*@*.net'' ''nick!user@host.NET'' = 0 \<and> glob ''*!*@*.net'' ''nick!user@host.NET''"
proof -
  have "match ''*!*@*.net'' ''nick!user@host.NET'' = 0" by code_simp
  with match_sound [of "''*!*@*.net''" "''nick!user@host.NET''"] show ?thesis by blast
qed

text \<open>
  C21: on strings with at most one \<^verbatim>\<open>!\<close> and one \<^verbatim>\<open>@\<close> (every
  nick!user@host string), \<open>match\<close> decides the reference meaning exactly as long as the
  call counter was not exhausted, that is as long as no more than \<open>MAX_CALLS + 1\<close>
  activations of \<open>_match\<close> were counted.
\<close>

theorem match_iff_glob:
  assumes "one_bang_at m" and "snd (match_rec n m 0) \<le> Suc MAX_CALLS"
  shows "match n m = 0 \<longleftrightarrow> glob n m"
  using match_sound_mutual(1) [of n m 0] match_complete_mutual(1) [of n m 0] assms
  unfolding match_def by blast

theorem match_iff_glob_witness:
  "one_bang_at ''a!b@c.d'' \<and> snd (match_rec ''*a*!*b*@c.?'' ''a!b@c.d'' 0) \<le> Suc MAX_CALLS
   \<and> (match ''*a*!*b*@c.?'' ''a!b@c.d'' = 0 \<longleftrightarrow> glob ''*a*!*b*@c.?'' ''a!b@c.d'')"
proof -
  have a: "one_bang_at ''a!b@c.d''" by code_simp
  have b: "snd (match_rec ''*a*!*b*@c.?'' ''a!b@c.d'' 0) \<le> Suc MAX_CALLS" by code_simp
  show ?thesis using a b match_iff_glob [OF a b] by blast
qed

text \<open>
  C23: the call counter never gets in the way of a pattern with at most one star: on a string of
  at most \<open>MAX_CALLS\<close> bytes with at most one \<^verbatim>\<open>!\<close> and one \<^verbatim>\<open>@\<close>
  the matcher is then exact without any side condition on the counter.  (The condition on the string
  cannot be dropped: \<open>match_two_bangs_rejected\<close>.)
\<close>

theorem match_one_star_exact:
  assumes "count_list n (CHR ''*'') \<le> 1" and "length m \<le> MAX_CALLS" and "one_bang_at m"
  shows "match n m = 0 \<longleftrightarrow> glob n m"
proof -
  have "snd (match_rec n m 0) \<le> Suc MAX_CALLS"
    using calls_rec_one_star [OF assms(1), of 0 m] assms(2) by (simp del: match_rec.simps)
  with assms(3) show ?thesis
    using match_sound_mutual(1) [of n m 0] match_complete_mutual(1) [of n m 0]
    unfolding match_def by blast
qed

theorem match_one_star_exact_witness:
  "count_list ''ni*k'' (CHR ''*'') \<le> 1 \<and> length ''nick'' \<le> MAX_CALLS \<and> one_bang_at ''nick''
   \<and> (match ''ni*k'' ''nick'' = 0 \<longleftrightarrow> glob ''ni*k'' ''nick'')"
proof -
  have a: "count_list ''ni*k'' (CHR ''*'') \<le> 1" by code_simp
  have b: "length ''nick'' \<le> MAX_CALLS" by code_simp
  have c: "one_bang_at ''nick''" by code_simp
  show ?thesis using a b c match_one_star_exact [OF a b c] by blast
qed

text \<open>
  The first \<^verbatim>\<open>!\<close> only: with two of them the matcher rejects a string that has the
  meaning of the pattern.
\<close>

lemma match_two_bangs_rejected:
  "glob ''*!x'' ''a!b!x'' \<and> match ''*!x'' ''a!b!x'' = 1"
  by code_simp

text \<open>
  \<open>collapse\<close> does not change which strings a pattern means and never makes the pattern
  longer, so rewriting it in place stays inside its buffer.
\<close>

lemma collapse_correct: "(\<forall>s. glob (collapse w) s = glob w s) \<and> length (collapse w) \<le> length w"
  by (simp add: glob_collapse length_collapse)

text \<open>
  \<open>myncmp\<close> with a positive bound compares the first \<open>n\<close> bytes up to case and
  never reads behind the strings, provided they are not both empty.
\<close>

lemma myncmp_prefix:
  assumes "1 \<le> n" and "s \<noteq> [] \<or> t \<noteq> []"
  shows "myncmp s t n =
    Some (if map ToUpper (take (nat n) s) = map ToUpper (take (nat n) t) then 0 else - 1)"
  using assms
proof (induction s t n rule: myncmp.induct)
  case (1 a as b bs n)
  have n: "nat n = Suc (nat (n - 1))" using "1.prems" by simp
  show ?case
  proof (cases "ToUpper a = ToUpper b \<and> n - 1 \<noteq> 0 \<and> \<not> (as = [] \<and> bs = [])")
    case True
    then show ?thesis using "1.IH" "1.prems" n by simp
  next
    case False
    then show ?thesis using n by auto
  qed
qed (auto simp: take_nat_Cons)

end
