(* ===== verification/Client_Types.thy ===== *)
theory Client_Types
  imports Match
begin

section \<open>Clients (src/include/struct.h)\<close>

text \<open>
  The parts of \<^verbatim>\<open>struct Client\<close>, \<^verbatim>\<open>struct User\<close> and
  \<^verbatim>\<open>struct Conf_Class\<close> that the modelled components read or write, the status
  values and the status macros.  Clients are reached by their address in a store; the intrusive
  links of a client (watch list, whowas list, channels, invitations) are the lists of what is linked.
  \<open>c_buffer\<close> is the part of \<^verbatim>\<open>buffer\<close> that holds data, so \<^verbatim>\<open>count\<close> is its length.
\<close>

definition NICKLEN :: nat where "NICKLEN = 30"
definition USERLEN :: nat where "USERLEN = 10"
definition REALLEN :: nat where "REALLEN = 50"
definition HOSTLEN :: nat where "HOSTLEN = 63"
definition HOSTIPLEN :: nat where "HOSTIPLEN = 46"

text \<open>\<^verbatim>\<open>strncpyzt(x, y, N)\<close> is \<^verbatim>\<open>snprintf(x, N, "%s", y)\<close>: at most
  \<open>N - 1\<close> bytes and a NUL.\<close>

definition strncpyzt :: "cstr \<Rightarrow> nat \<Rightarrow> cstr" where
  "strncpyzt y n = take (n - 1) y"

record aClass =
  cl_name :: cstr
  cl_connfreq :: int
  cl_ip24clones :: int

record anUser =
  u_channel :: "addr list"
  u_invited :: "addr list"
  u_last :: time_t
  u_joined :: int
  u_username :: cstr
  u_host :: cstr
  u_realhost :: cstr
  u_maskhost :: cstr
  u_server :: cstr
  u_class :: aClass
  u_away :: "cstr option"
  u_special_mode :: int

record aClient =
  c_user :: "anUser option"
  c_whowas :: "nat list"
  c_lasttime :: time_t
  c_since :: time_t
  c_tsinfo :: int
  c_flags :: u32
  c_umode :: u32
  c_from :: addr
  c_uplink :: addr
  c_fd :: int
  c_sockerr :: int
  c_status :: int
  c_name :: cstr
  c_info :: cstr
  c_ip :: u32
  c_hostip :: cstr
  c_watch :: "addr list"
  c_watches :: int
  c_buffer :: cstr
  c_receiveM :: int
  c_receiveK :: int
  c_receiveB :: "16 word"
  c_lstn :: "addr option"
  c_sockhost :: cstr
  c_last_join_time :: time_t
  c_last_leave_time :: time_t
  c_join_leave_count :: int
  c_oper_warn_count_down :: int

type_synonym clients = "addr \<Rightarrow> aClient"

definition BUFSIZE :: nat where "BUFSIZE = 512"

definition STAT_LOG :: int where "STAT_LOG = - 6"
definition STAT_CONNECTING :: int where "STAT_CONNECTING = - 4"
definition STAT_HANDSHAKE :: int where "STAT_HANDSHAKE = - 3"
definition STAT_ME :: int where "STAT_ME = - 2"
definition STAT_UNKNOWN :: int where "STAT_UNKNOWN = - 1"
definition STAT_SERVER :: int where "STAT_SERVER = 0"
definition STAT_CLIENT :: int where "STAT_CLIENT = 1"

definition IsConnecting :: "aClient \<Rightarrow> bool" where
  "IsConnecting x \<longleftrightarrow> c_status x = STAT_CONNECTING"

definition IsHandshake :: "aClient \<Rightarrow> bool" where
  "IsHandshake x \<longleftrightarrow> c_status x = STAT_HANDSHAKE"

definition IsMe :: "aClient \<Rightarrow> bool" where
  "IsMe x \<longleftrightarrow> c_status x = STAT_ME"

definition IsServer :: "aClient \<Rightarrow> bool" where
  "IsServer x \<longleftrightarrow> c_status x = STAT_SERVER"

definition IsClient :: "aClient \<Rightarrow> bool" where
  "IsClient x \<longleftrightarrow> c_status x = STAT_CLIENT"

definition IsLog :: "aClient \<Rightarrow> bool" where
  "IsLog x \<longleftrightarrow> c_status x = STAT_LOG"

definition IsRegisteredUser :: "aClient \<Rightarrow> bool" where
  "IsRegisteredUser x \<longleftrightarrow> c_status x = STAT_CLIENT"

definition IsRegistered :: "aClient \<Rightarrow> bool" where
  "IsRegistered x \<longleftrightarrow> c_status x \<ge> STAT_SERVER"

definition IsPerson :: "aClient \<Rightarrow> bool" where
  "IsPerson x \<longleftrightarrow> c_user x \<noteq> None \<and> IsClient x"

definition MyConnect :: "aClient \<Rightarrow> bool" where
  "MyConnect x \<longleftrightarrow> 0 \<le> c_fd x"

definition MyClient :: "aClient \<Rightarrow> bool" where
  "MyClient x \<longleftrightarrow> MyConnect x \<and> IsClient x"

definition UMODE_o :: u32 where "UMODE_o = 0x00000008"
definition UMODE_O :: u32 where "UMODE_O = 0x00001000"
definition UMODE_W :: u32 where "UMODE_W = 0x08000000"

definition UMODE_F :: u32 where "UMODE_F = 0x00000200"
definition FLAGS_PINGSENT :: u32 where "FLAGS_PINGSENT = 0x000001"
definition FLAGS_DEADSOCKET :: u32 where "FLAGS_DEADSOCKET = 0x000002"
definition FLAGS_KILLED :: u32 where "FLAGS_KILLED = 0x000004"
definition FLAGS_HAVERECVQ :: u32 where "FLAGS_HAVERECVQ = 0x000040"
definition FLAGS_NONL :: u32 where "FLAGS_NONL = 0x002000"
definition FLAGS_SENDQEX :: u32 where "FLAGS_SENDQEX = 0x008000"
definition FLAGS_SERV_NEGO :: u32 where "FLAGS_SERV_NEGO = 0x800000"
definition FLAGS_ZIPPED_IN :: u32 where "FLAGS_ZIPPED_IN = 0x4000000"
definition FLAGS_ULINE :: u32 where "FLAGS_ULINE = 0x020000"
definition TS_DOESTS :: int where "TS_DOESTS = 0x20000000"

definition NoMsgThrottle :: "aClient \<Rightarrow> bool" where
  "NoMsgThrottle x \<longleftrightarrow> has_flag (c_umode x) UMODE_F"

definition IsDead :: "aClient \<Rightarrow> bool" where
  "IsDead x \<longleftrightarrow> has_flag (c_flags x) FLAGS_DEADSOCKET"

definition NoNewLine :: "aClient \<Rightarrow> bool" where
  "NoNewLine x \<longleftrightarrow> has_flag (c_flags x) FLAGS_NONL"

definition IsNegoServer :: "aClient \<Rightarrow> bool" where
  "IsNegoServer x \<longleftrightarrow> has_flag (c_flags x) FLAGS_SERV_NEGO"

definition ZipIn :: "aClient \<Rightarrow> bool" where
  "ZipIn x \<longleftrightarrow> has_flag (c_flags x) FLAGS_ZIPPED_IN"

definition IsULine :: "aClient \<Rightarrow> bool" where
  "IsULine x \<longleftrightarrow> has_flag (c_flags x) FLAGS_ULINE"

definition DoesTS :: "aClient \<Rightarrow> bool" where
  "DoesTS x \<longleftrightarrow> c_tsinfo x = TS_DOESTS"

definition IsAnOper :: "aClient \<Rightarrow> bool" where
  "IsAnOper x \<longleftrightarrow> has_flag (c_umode x) (UMODE_o OR UMODE_O)"

lemmas status_defs = IsMe_def IsServer_def IsClient_def IsLog_def IsPerson_def MyConnect_def
  MyClient_def STAT_LOG_def STAT_ME_def STAT_UNKNOWN_def STAT_SERVER_def STAT_CLIENT_def

text \<open>A client and a user for the examples of the component theories.\<close>

definition example_client :: "cstr \<Rightarrow> aClient" where
  "example_client n = \<lparr>c_user = None, c_whowas = [], c_lasttime = 0, c_since = 0, c_tsinfo = 0, c_flags = 0, c_umode = 0, c_from = 0, c_uplink = 0,
     c_fd = - 1, c_sockerr = 0, c_status = 1, c_name = n, c_info = [], c_ip = 0, c_hostip = ''10.0.0.1'',
     c_watch = [], c_watches = 0, c_buffer = [], c_receiveM = 0, c_receiveK = 0, c_receiveB = 0, c_lstn = None, c_sockhost = [],
     c_last_join_time = 0, c_last_leave_time = 0, c_join_leave_count = 0, c_oper_warn_count_down = 0\<rparr>"

definition example_user :: anUser where
  "example_user = \<lparr>u_channel = [], u_invited = [], u_last = 0, u_joined = 0, u_username = ''u'', u_host = ''h'', u_realhost = ''r'',
     u_maskhost = ''m'', u_server = ''irc'', u_class = \<lparr>cl_name = [], cl_connfreq = 0, cl_ip24clones = 0\<rparr>, u_away = None, u_special_mode = 0\<rparr>"

lemma length_strncpyzt: "length (strncpyzt y n) \<le> n - 1"
  by (simp add: strncpyzt_def)

lemma strncpyzt_id: "length y < n \<Longrightarrow> strncpyzt y n = y"
  by (simp add: strncpyzt_def)

end
