(* ===== verification/Chain_Table.thy ===== *)
theory Chain_Table
  imports Ircd_Prelude
begin

section \<open>Chained hash tables: the contract shared by the tables of the ircd\<close>

text \<open>
  The ircd keeps clients, channels, WATCH headers, whowas entries, cached server names, user
  bans and throttles in arrays of singly or doubly linked chains.  What makes all of these work
  is the same contract between the hash function and the comparison used while walking a chain,
  stated here as the locale \<open>chain_hash\<close>: keys that compare equal have equal hash values,
  and the hash value is inside the array.  A table is the function that gives the chain of a
  bucket, \<open>key\<close> reads the key of an entry.  The component theories interpret the locale on
  their own hash functions and comparisons.
\<close>

definition entries :: "(nat \<Rightarrow> 'a list) \<Rightarrow> 'a set" where
  "entries tab = (\<Union>h. set (tab h))"

lemma entries_iff: "e \<in> entries tab \<longleftrightarrow> (\<exists>h. e \<in> set (tab h))"
  by (simp add: entries_def)

lemma entries_push [table_simps]: "entries (tab(h := e # tab h)) = insert e (entries tab)"
  by (auto simp: entries_def split: if_splits)

lemma entries_push_mem [table_simps]: "e \<in> entries (tab(h := e # xs))"
  by (auto simp: entries_def)

lemma entries_subset: "(\<And>h. set (tab' h) \<subseteq> set (tab h)) \<Longrightarrow> entries tab' \<subseteq> entries tab"
  by (auto simp: entries_def)

lemma set_upd_remove1: "set ((tab(h := remove1 e (tab h))) g) \<subseteq> set (tab g)"
  by (simp add: set_remove1_subset)

locale chain_hash =
  fixes hash :: "'k \<Rightarrow> nat"
    and same :: "'k \<Rightarrow> 'k \<Rightarrow> bool"
    and size :: nat
  assumes same_refl: "same k k"
    and same_sym: "same j k \<Longrightarrow> same k j"
    and same_trans: "same i j \<Longrightarrow> same j k \<Longrightarrow> same i k"
    and hash_same: "same j k \<Longrightarrow> hash j = hash k"
    and hash_bound: "hash k < size"
begin

text \<open>Every entry sits in the bucket of its key; no two entries have the same key.\<close>

definition placed :: "('a \<Rightarrow> 'k) \<Rightarrow> (nat \<Rightarrow> 'a list) \<Rightarrow> bool" where
  "placed key tab \<longleftrightarrow> (\<forall>h. \<forall>e\<in>set (tab h). hash (key e) = h)"

definition uniq :: "('a \<Rightarrow> 'k) \<Rightarrow> (nat \<Rightarrow> 'a list) \<Rightarrow> bool" where
  "uniq key tab \<longleftrightarrow> (\<forall>e\<in>entries tab. \<forall>f\<in>entries tab. same (key e) (key f) \<longrightarrow> e = f)"

definition lookup :: "('a \<Rightarrow> 'k) \<Rightarrow> (nat \<Rightarrow> 'a list) \<Rightarrow> 'k \<Rightarrow> 'a option" where
  "lookup key tab k = find (\<lambda>e. same k (key e)) (tab (hash k))"

lemma placedD: "placed key tab \<Longrightarrow> e \<in> set (tab h) \<Longrightarrow> hash (key e) = h"
  by (simp add: placed_def)

lemma placed_entry: "placed key tab \<Longrightarrow> e \<in> entries tab \<Longrightarrow> e \<in> set (tab (hash (key e)))"
  by (auto simp: placed_def entries_def)

lemma placed_empty: "placed key (\<lambda>_. [])"
  by (simp add: placed_def)

lemma placed_bucket_bound: "placed key tab \<Longrightarrow> tab h \<noteq> [] \<Longrightarrow> h < size"
  by (metis placedD hash_bound hd_in_set)

lemma placed_push: "placed key tab \<Longrightarrow> h = hash (key e) \<Longrightarrow> placed key (tab(h := e # tab h))"
  by (auto simp: placed_def)

lemma placed_shrink: "placed key tab \<Longrightarrow> (\<And>h. set (tab' h) \<subseteq> set (tab h)) \<Longrightarrow> placed key tab'"
  unfolding placed_def by blast

lemma uniq_shrink: "uniq key tab \<Longrightarrow> (\<And>h. set (tab' h) \<subseteq> set (tab h)) \<Longrightarrow> uniq key tab'"
  unfolding uniq_def by (meson entries_subset subsetD)

lemma placed_remove1: "placed key tab \<Longrightarrow> placed key (tab(h := remove1 e (tab h)))"
  by (erule placed_shrink) (rule set_upd_remove1)

lemma lookup_SomeD: "lookup key tab k = Some e \<Longrightarrow> e \<in> entries tab \<and> same k (key e)"
  unfolding lookup_def by (auto dest: find_SomeD simp: entries_iff)

lemma same_placed_bucket:
  "placed key tab \<Longrightarrow> e \<in> entries tab \<Longrightarrow> same k (key e) \<Longrightarrow> e \<in> set (tab (hash k))"
  by (metis hash_same placed_entry)

lemma lookup_None_iff:
  assumes "placed key tab"
  shows "lookup key tab k = None \<longleftrightarrow> (\<forall>e\<in>entries tab. \<not> same k (key e))"
proof -
  have "lookup key tab k = None \<longleftrightarrow> (\<forall>e\<in>set (tab (hash k)). \<not> same k (key e))"
    by (auto simp: lookup_def find_None_iff)
  also have "\<dots> \<longleftrightarrow> (\<forall>e\<in>entries tab. \<not> same k (key e))"
    using same_placed_bucket [OF assms] by (auto simp: entries_iff)
  finally show ?thesis .
qed

lemma lookup_exact:
  assumes "placed key tab" and "uniq key tab"
  shows "lookup key tab k = Some e \<longleftrightarrow> e \<in> entries tab \<and> same k (key e)"
proof
  assume "e \<in> entries tab \<and> same k (key e)"
  then have e: "e \<in> entries tab" "same k (key e)" by blast+
  then have "lookup key tab k \<noteq> None" using lookup_None_iff [OF assms(1)] by blast
  then obtain f where f: "lookup key tab k = Some f" by blast
  with lookup_SomeD [OF f] have "f \<in> entries tab" "same k (key f)" by blast+
  with e assms(2) have "f = e" unfolding uniq_def by (meson same_sym same_trans)
  with f show "lookup key tab k = Some e" by simp
qed (rule lookup_SomeD)

lemma lookup_push:
  assumes "h = hash (key e)"
  shows "lookup key (tab(h := e # tab h)) k = (if same k (key e) then Some e else lookup key tab k)"
  using assms hash_same by (auto simp: lookup_def)

lemma uniq_push:
  assumes "placed key tab" and "uniq key tab" and "lookup key tab (key e) = None"
  shows "uniq key (tab(h := e # tab h))"
  using assms(2,3) lookup_None_iff [OF assms(1)] same_sym
  unfolding uniq_def entries_push by blast

lemma entries_remove1:
  assumes "placed key tab" and "distinct (tab (hash (key e)))"
  shows "entries (tab(hash (key e) := remove1 e (tab (hash (key e))))) = entries tab - {e}"
proof -
  have "e \<notin> set (tab h)" if "h \<noteq> hash (key e)" for h using that assms(1) placedD by metis
  then have "x \<in> entries (tab(hash (key e) := remove1 e (tab (hash (key e))))) \<longleftrightarrow> x \<in> entries tab \<and> x \<noteq> e"
    for x using assms(2) unfolding entries_iff by (auto simp: set_remove1_eq) metis+
  then show ?thesis by blast
qed

lemma lookup_remove1:
  assumes "placed key tab" and "uniq key tab" and "distinct (tab (hash (key e)))" and "e \<in> entries tab"
  shows "lookup key (tab(hash (key e) := remove1 e (tab (hash (key e))))) k =
    (if same k (key e) then None else lookup key tab k)"
proof -
  let ?tab = "tab(hash (key e) := remove1 e (tab (hash (key e))))"
  have pl: "placed key ?tab" using assms(1) by (rule placed_remove1)
  have un: "uniq key ?tab" by (rule uniq_shrink [OF assms(2)]) (rule set_upd_remove1)
  have en: "entries ?tab = entries tab - {e}" by (rule entries_remove1 [OF assms(1,3)])
  show ?thesis
  proof (cases "same k (key e)")
    case True
    have "\<not> same k (key f)" if "f \<in> entries ?tab" for f
      using that True assms(2,4) en unfolding uniq_def by (metis Diff_iff insertCI same_sym same_trans)
    with True show ?thesis using lookup_None_iff [OF pl] by simp
  next
    case False
    have "lookup key ?tab k = Some f \<longleftrightarrow> lookup key tab k = Some f" for f
      using lookup_exact [OF pl un] lookup_exact [OF assms(1,2)] en False by auto
    with False show ?thesis by (metis not_None_eq)
  qed
qed

text \<open>Changing the keys of entries that are not in the table changes nothing.\<close>

lemma placed_key_cong:
  "(\<And>e. e \<in> entries tab \<Longrightarrow> key e = key' e) \<Longrightarrow> placed key tab = placed key' tab"
  unfolding placed_def by (metis entries_iff)

lemma uniq_key_cong:
  "(\<And>e. e \<in> entries tab \<Longrightarrow> key e = key' e) \<Longrightarrow> uniq key tab = uniq key' tab"
  unfolding uniq_def by simp

lemma lookup_key_cong:
  "(\<And>e. e \<in> entries tab \<Longrightarrow> key e = key' e) \<Longrightarrow> lookup key tab k = lookup key' tab k"
  unfolding lookup_def by (rule find_cong_set) (metis entries_iff)

end

end
