(* ===== verification/Client_Hash.thy ===== *)
theory Client_Hash
  imports Client_Types Chain_Table
begin

section \<open>The client and channel hash tables (src/src/hash.c)\<close>

text \<open>
  The three name hashes with their 32-bit arithmetic, the client table \<open>clientTable\<close> and the
  channel table \<open>channelTable\<close> with insertion, deletion and the find functions.  A bucket
  is an \<open>aHashEntry\<close>: its chain (the addresses linked through \<open>hnext\<close>) and its two
  counters.  A table is a function on the bucket index; theorem \<open>name_hash_bounds\<close> shows that
  the code only ever uses indices inside the C arrays.  \<^verbatim>\<open>char\<close> is signed, as on
  the platforms the daemon is built on.
\<close>

definition BITS_PER_COL :: nat where "BITS_PER_COL = 3"
definition BITS_PER_COL_MASK :: u32 where "BITS_PER_COL_MASK = 0x7"
definition U_MAX_INITIAL :: nat where "U_MAX_INITIAL = 8192"
definition U_MAX_INITIAL_MASK :: u32 where "U_MAX_INITIAL_MASK = 8191"
definition U_MAX :: nat where "U_MAX = U_MAX_INITIAL * 2 ^ BITS_PER_COL"
definition CH_MAX_INITIAL :: nat where "CH_MAX_INITIAL = 2048"
definition CH_MAX_INITIAL_MASK :: u32 where "CH_MAX_INITIAL_MASK = 2047"
definition CH_MAX :: nat where "CH_MAX = CH_MAX_INITIAL * 2 ^ BITS_PER_COL"
definition WW_MAX_INITIAL :: nat where "WW_MAX_INITIAL = 16"
definition WW_MAX_INITIAL_MASK :: u32 where "WW_MAX_INITIAL_MASK = 15"
definition WW_MAX :: nat where "WW_MAX = WW_MAX_INITIAL * 2 ^ BITS_PER_COL"

text \<open>\<^verbatim>\<open>char lower = ToLower(c)\<close>, promoted to 32 bits.\<close>

definition lower_char :: "char \<Rightarrow> u32" where
  "lower_char c = scast (word_of_nat (ToLower c) :: 8 word)"

text \<open>The loop shared by the three hash functions; \<open>hash2\<close> is a signed int.\<close>

fun hash_loop :: "cstr \<Rightarrow> u32 \<Rightarrow> u32 \<Rightarrow> u32 \<times> u32" where
  "hash_loop [] hash hash2 = (hash, hash2)"
| "hash_loop (c # cs) hash hash2 =
     hash_loop cs (push_bit 1 hash + lower_char c) (signed_drop_bit 1 hash2 + lower_char c)"

definition hash_nick_name :: "cstr \<Rightarrow> nat" where
  "hash_nick_name nname =
     (case hash_loop nname 0 0 of (hash, hash2) \<Rightarrow>
        unat (push_bit BITS_PER_COL (hash AND U_MAX_INITIAL_MASK) + (hash2 AND BITS_PER_COL_MASK)))"

text \<open>\<^verbatim>\<open>while (*hname && --i)\<close>: the counter is decremented before it is tested.\<close>

fun hash_channel_loop :: "cstr \<Rightarrow> nat \<Rightarrow> u32 \<Rightarrow> u32 \<Rightarrow> u32 \<times> u32" where
  "hash_channel_loop [] i hash hash2 = (hash, hash2)"
| "hash_channel_loop (c # cs) i hash hash2 =
     (let i1 = i - 1 in
      if i1 = 0 then (hash, hash2)
      else hash_channel_loop cs i1
             (push_bit 1 hash + lower_char c) (signed_drop_bit 1 hash2 + lower_char c))"

definition hash_channel_name :: "cstr \<Rightarrow> nat" where
  "hash_channel_name cname =
     (case hash_channel_loop cname 30 0 0 of (hash, hash2) \<Rightarrow>
        unat (push_bit BITS_PER_COL (hash AND CH_MAX_INITIAL_MASK) + (hash2 AND BITS_PER_COL_MASK)))"

definition hash_whowas_name :: "cstr \<Rightarrow> nat" where
  "hash_whowas_name nname =
     (case hash_loop nname 0 0 of (hash, hash2) \<Rightarrow>
        unat (push_bit BITS_PER_COL (hash AND WW_MAX_INITIAL_MASK) + (hash2 AND BITS_PER_COL_MASK)))"

subsection \<open>Tables\<close>

record aHashEntry =
  hits :: int
  links :: int
  chain :: "addr list"

type_synonym hash_tab = "nat \<Rightarrow> aHashEntry"

definition clear_hash_table :: hash_tab where
  "clear_hash_table = (\<lambda>_. \<lparr>hits = 0, links = 0, chain = []\<rparr>)"

definition push_entry :: "nat \<Rightarrow> addr \<Rightarrow> hash_tab \<Rightarrow> hash_tab" where
  "push_entry hashv p tab =
     tab(hashv := (tab hashv)\<lparr>hits := hits (tab hashv) + 1, links := links (tab hashv) + 1,
                             chain := p # chain (tab hashv)\<rparr>)"

text \<open>
  The loop of the two delete functions over one chain: unlink the entry, then decrement
  \<open>links\<close> (result 1), or report an inconsistent count (result -1); 0 when it is not there.
\<close>

definition unlink_entry :: "nat \<Rightarrow> addr \<Rightarrow> hash_tab \<Rightarrow> int \<times> hash_tab" where
  "unlink_entry hashv p tab =
     (if p \<in> set (chain (tab hashv)) then
        (let e = (tab hashv)\<lparr>chain := remove1 p (chain (tab hashv))\<rparr> in
         if links e > 0 then (1, tab(hashv := e\<lparr>links := links e - 1\<rparr>))
         else (- 1, tab(hashv := e)))
      else (0, tab))"

definition add_to_client_hash_table :: "cstr \<Rightarrow> addr \<Rightarrow> hash_tab \<Rightarrow> hash_tab" where
  "add_to_client_hash_table cname cptr tab = push_entry (hash_nick_name cname) cptr tab"

definition add_to_channel_hash_table :: "cstr \<Rightarrow> addr \<Rightarrow> hash_tab \<Rightarrow> hash_tab" where
  "add_to_channel_hash_table cname chptr tab = push_entry (hash_channel_name cname) chptr tab"

definition del_from_client_hash_table :: "cstr \<Rightarrow> addr \<Rightarrow> hash_tab \<Rightarrow> int \<times> hash_tab" where
  "del_from_client_hash_table cname cptr tab = unlink_entry (hash_nick_name cname) cptr tab"

definition del_from_channel_hash_table :: "cstr \<Rightarrow> addr \<Rightarrow> hash_tab \<Rightarrow> int \<times> hash_tab" where
  "del_from_channel_hash_table cname chptr tab = unlink_entry (hash_channel_name cname) chptr tab"

text \<open>The find functions walk the chain and return \<open>dflt\<close> (the caller's pointer) at its end.\<close>

definition hash_find_client :: "clients \<Rightarrow> hash_tab \<Rightarrow> cstr \<Rightarrow> addr option \<Rightarrow> addr option" where
  "hash_find_client cs tab cname dflt =
     (case find (\<lambda>tmp. mycmp cname (c_name (cs tmp)) = 0) (chain (tab (hash_nick_name cname))) of
        Some tmp \<Rightarrow> Some tmp | None \<Rightarrow> dflt)"

definition hash_find_server :: "clients \<Rightarrow> hash_tab \<Rightarrow> cstr \<Rightarrow> addr option \<Rightarrow> addr option" where
  "hash_find_server cs tab server dflt =
     (case find (\<lambda>tmp. (IsServer (cs tmp) \<or> IsMe (cs tmp)) \<and> mycmp server (c_name (cs tmp)) = 0)
            (chain (tab (hash_nick_name server))) of
        Some tmp \<Rightarrow> Some tmp | None \<Rightarrow> dflt)"

text \<open>
  \<open>hash_find_nickserver\<close> cuts \<open>name\<close> at its \<^verbatim>\<open>@\<close> and writes a NUL,
  not the \<^verbatim>\<open>@\<close>, back before it returns, so the caller's string stays cut; the new
  contents of \<open>name\<close> are the second result.  \<open>None\<close> is the write through the null
  pointer when \<open>name\<close> has no \<^verbatim>\<open>@\<close>.
\<close>

definition hash_find_nickserver ::
  "clients \<Rightarrow> hash_tab \<Rightarrow> cstr \<Rightarrow> addr option \<Rightarrow> (addr option \<times> cstr) option" where
  "hash_find_nickserver cs tab cname dflt =
     (case dropWhile (\<lambda>x. x \<noteq> CHR ''@'') cname of
        [] \<Rightarrow> None
      | _ # serv \<Rightarrow>
          (let nick = takeWhile (\<lambda>x. x \<noteq> CHR ''@'') cname;
               hit = find (\<lambda>tmp. mycmp nick (c_name (cs tmp)) = 0 \<and>
                             (case c_user (cs tmp) of
                                None \<Rightarrow> False | Some u \<Rightarrow> mycmp serv (u_server u) = 0))
                       (chain (tab (hash_nick_name nick)))
           in Some (case hit of Some tmp \<Rightarrow> Some tmp | None \<Rightarrow> dflt, nick)))"

definition hash_find_channel ::
  "(addr \<Rightarrow> cstr) \<Rightarrow> hash_tab \<Rightarrow> cstr \<Rightarrow> addr option \<Rightarrow> addr option" where
  "hash_find_channel chname tab cname dflt =
     (case find (\<lambda>tmp. mycmp cname (chname tmp) = 0) (chain (tab (hash_channel_name cname))) of
        Some tmp \<Rightarrow> Some tmp | None \<Rightarrow> dflt)"

text \<open>
  \<open>hash_get_chan_bucket\<close> refuses indices above \<open>CH_MAX\<close>; the index \<open>CH_MAX\<close>
  itself, and a negative one, reads outside the array (\<open>None\<close>).
\<close>

definition hash_get_chan_bucket :: "hash_tab \<Rightarrow> int \<Rightarrow> addr option option" where
  "hash_get_chan_bucket tab hashv =
     (if hashv > int CH_MAX then Some None
      else if 0 \<le> hashv \<and> hashv < int CH_MAX
      then Some (case chain (tab (nat hashv)) of [] \<Rightarrow> None | p # _ \<Rightarrow> Some p)
      else None)"

subsection \<open>The hashes respect the comparison and stay in range\<close>

lemma hash_loop_lower:
  "map ToLower s = map ToLower t \<Longrightarrow> hash_loop s h h2 = hash_loop t h h2"
proof (induction s arbitrary: t h h2)
  case (Cons c s)
  then obtain d u where t: "t = d # u" and d: "ToLower c = ToLower d" and u: "map ToLower s = map ToLower u"
    by (cases t) auto
  from Cons.IH [OF u] d show ?case by (simp add: t lower_char_def)
qed simp

lemma hash_channel_loop_take:
  "i > 0 \<Longrightarrow> hash_channel_loop s i h h2 = hash_loop (take (i - 1) s) h h2"
proof (induction s arbitrary: i h h2)
  case (Cons c s)
  then show ?case by (cases "i - 1") (auto simp: Let_def)
qed simp

lemma mycmp_hash_loop: "mycmp s t = 0 \<Longrightarrow> hash_loop s h h2 = hash_loop t h h2"
  by (rule hash_loop_lower) (simp add: mycmp_zero_iff map_ToUpper_iff_ToLower)

lemma mycmp_hash_nick_name: "mycmp s t = 0 \<Longrightarrow> hash_nick_name s = hash_nick_name t"
  by (simp add: hash_nick_name_def mycmp_hash_loop)

lemma mycmp_hash_whowas_name: "mycmp s t = 0 \<Longrightarrow> hash_whowas_name s = hash_whowas_name t"
  by (simp add: hash_whowas_name_def mycmp_hash_loop)

lemma mycmp_take: "mycmp s t = 0 \<Longrightarrow> mycmp (take n s) (take n t) = 0"
  by (simp add: mycmp_zero_iff take_map [symmetric])

lemma mycmp_hash_channel_name: "mycmp s t = 0 \<Longrightarrow> hash_channel_name s = hash_channel_name t"
  using mycmp_hash_loop [OF mycmp_take]
  by (simp add: hash_channel_name_def hash_channel_loop_take)

lemma row_col_bound:
  fixes h h2 m :: u32
  assumes m: "unat m < n" and n: "n \<le> 2 ^ 28"
  shows "unat (push_bit 3 (h AND m) + (h2 AND 7)) < n * 8"
proof -
  have a: "unat (h AND m) < n"
    using word_and_le1 [of h m] m by (metis le_less_trans unat_mono word_le_nat_alt)
  have b: "unat (h2 AND (7 :: u32)) \<le> 7"
    using word_and_le1 [of h2 7] by (simp add: word_le_nat_alt)
  have c: "unat (push_bit 3 (h AND m)) = unat (h AND m) * 8"
    using a n by (simp add: push_bit_eq_mult unat_word_ariths mult.commute)
  have "unat (push_bit 3 (h AND m)) + unat (h2 AND 7) < n * 8"
    using a b c by simp
  moreover have "n * 8 \<le> 2 ^ 32" using n by simp
  ultimately show ?thesis by (simp add: unat_word_ariths)
qed

lemma hash_nick_name_bound: "hash_nick_name s < U_MAX"
  using row_col_bound [of U_MAX_INITIAL_MASK U_MAX_INITIAL]
  by (simp add: hash_nick_name_def U_MAX_def U_MAX_INITIAL_def U_MAX_INITIAL_MASK_def
      BITS_PER_COL_def BITS_PER_COL_MASK_def split: prod.split)

lemma hash_channel_name_bound: "hash_channel_name s < CH_MAX"
  using row_col_bound [of CH_MAX_INITIAL_MASK CH_MAX_INITIAL]
  by (simp add: hash_channel_name_def CH_MAX_def CH_MAX_INITIAL_def CH_MAX_INITIAL_MASK_def
      BITS_PER_COL_def BITS_PER_COL_MASK_def split: prod.split)

lemma hash_whowas_name_bound: "hash_whowas_name s < WW_MAX"
  using row_col_bound [of WW_MAX_INITIAL_MASK WW_MAX_INITIAL]
  by (simp add: hash_whowas_name_def WW_MAX_def WW_MAX_INITIAL_def WW_MAX_INITIAL_MASK_def
      BITS_PER_COL_def BITS_PER_COL_MASK_def split: prod.split)

interpretation nickh: chain_hash hash_nick_name "\<lambda>s t. mycmp s t = 0" U_MAX
  by unfold_locales
     (auto simp: mycmp_hash_nick_name hash_nick_name_bound mycmp_sym intro: mycmp_trans)

interpretation chanh: chain_hash hash_channel_name "\<lambda>s t. mycmp s t = 0" CH_MAX
  by unfold_locales
     (auto simp: mycmp_hash_channel_name hash_channel_name_bound mycmp_sym intro: mycmp_trans)

interpretation whowash: chain_hash hash_whowas_name "\<lambda>s t. mycmp s t = 0" WW_MAX
  by unfold_locales
     (auto simp: mycmp_hash_whowas_name hash_whowas_name_bound mycmp_sym intro: mycmp_trans)

subsection \<open>Tables of buckets with counters\<close>

context chain_hash
begin

definition table_ok :: "(addr \<Rightarrow> 'k) \<Rightarrow> hash_tab \<Rightarrow> bool" where
  "table_ok key tab \<longleftrightarrow>
     placed key (\<lambda>h. chain (tab h)) \<and> uniq key (\<lambda>h. chain (tab h)) \<and>
     (\<forall>h. distinct (chain (tab h)) \<and> links (tab h) = int (length (chain (tab h))))"

lemma chain_push: "(\<lambda>g. chain (push_entry h p tab g)) = (\<lambda>g. chain (tab g))(h := p # chain (tab h))"
  by (auto simp: push_entry_def)

lemma chain_unlink:
  "(\<lambda>g. chain (snd (unlink_entry h p tab) g)) = (\<lambda>g. chain (tab g))(h := remove1 p (chain (tab h)))"
  by (auto simp: unlink_entry_def Let_def remove1_idem)

lemma table_ok_clear: "table_ok key clear_hash_table"
  by (simp add: table_ok_def clear_hash_table_def placed_def uniq_def entries_def)

lemma table_ok_push:
  assumes ok: "table_ok key tab" and new: "lookup key (\<lambda>h. chain (tab h)) (key p) = None"
  shows "table_ok key (push_entry (hash (key p)) p tab)"
proof -
  have pl: "placed key (\<lambda>h. chain (tab h))" using ok by (simp add: table_ok_def)
  have "p \<notin> entries (\<lambda>h. chain (tab h))"
    using new lookup_None_iff [OF pl] same_refl by blast
  then have "p \<notin> set (chain (tab h))" for h by (auto simp: entries_iff)
  moreover have "uniq key ((\<lambda>g. chain (tab g))(hash (key p) := p # chain (tab (hash (key p)))))"
    using uniq_push [OF pl _ new] ok by (simp add: table_ok_def)
  moreover have "placed key ((\<lambda>g. chain (tab g))(hash (key p) := p # chain (tab (hash (key p)))))"
    using placed_push [OF pl] by simp
  moreover have "distinct (chain (push_entry (hash (key p)) p tab g)) \<and>
      links (push_entry (hash (key p)) p tab g) = int (length (chain (push_entry (hash (key p)) p tab g)))" for g
    using ok calculation(1) by (auto simp: table_ok_def push_entry_def)
  ultimately show ?thesis unfolding table_ok_def chain_push by blast
qed

lemma unlink_result:
  assumes "table_ok key tab" and "p \<in> entries (\<lambda>h. chain (tab h))"
  shows "fst (unlink_entry (hash (key p)) p tab) = 1"
proof -
  have "p \<in> set (chain (tab (hash (key p))))"
    using assms placed_entry [of key "\<lambda>h. chain (tab h)"] by (simp add: table_ok_def)
  moreover from this have "links (tab (hash (key p))) > 0"
    using assms(1) by (auto simp: table_ok_def)
  ultimately show ?thesis by (simp add: unlink_entry_def Let_def)
qed

lemma table_ok_unlink:
  assumes "table_ok key tab"
  shows "table_ok key (snd (unlink_entry h p tab))"
proof -
  have "placed key (\<lambda>g. chain (snd (unlink_entry h p tab) g))"
    unfolding chain_unlink by (rule placed_remove1) (use assms in \<open>simp add: table_ok_def\<close>)
  moreover have "uniq key (\<lambda>g. chain (snd (unlink_entry h p tab) g))"
    unfolding chain_unlink by (rule uniq_shrink [OF _ set_upd_remove1]) (use assms in \<open>simp add: table_ok_def\<close>)
  moreover have "distinct (chain (snd (unlink_entry h p tab) g)) \<and>
      links (snd (unlink_entry h p tab) g) = int (length (chain (snd (unlink_entry h p tab) g)))" for g
    using assms length_remove1_mem [of p "chain (tab h)"] length_pos_if_in_set [of p "chain (tab h)"]
    by (auto simp: table_ok_def unlink_entry_def Let_def distinct_remove1)
  ultimately show ?thesis by (simp add: table_ok_def)
qed

lemma lookup_unlink:
  assumes "table_ok key tab" and "p \<in> entries (\<lambda>h. chain (tab h))"
  shows "lookup key (\<lambda>g. chain (snd (unlink_entry (hash (key p)) p tab) g)) k =
    (if same k (key p) then None else lookup key (\<lambda>g. chain (tab g)) k)"
  unfolding chain_unlink
  by (rule lookup_remove1) (use assms in \<open>auto simp: table_ok_def\<close>)

lemma table_ok_key_cong:
  assumes "\<And>e. e \<in> entries (\<lambda>h. chain (tab h)) \<Longrightarrow> key e = key' e"
  shows "table_ok key tab = table_ok key' tab"
  using placed_key_cong [where key = key and key' = key', OF assms]
    uniq_key_cong [where key = key and key' = key', OF assms] by (simp add: table_ok_def)

end

definition client_table_ok :: "clients \<Rightarrow> hash_tab \<Rightarrow> bool" where
  "client_table_ok cs tab \<longleftrightarrow>
     (\<forall>h. \<forall>p\<in>set (chain (tab h)). hash_nick_name (c_name (cs p)) = h) \<and>
     (\<forall>p\<in>entries (\<lambda>h. chain (tab h)). \<forall>q\<in>entries (\<lambda>h. chain (tab h)).
        mycmp (c_name (cs p)) (c_name (cs q)) = 0 \<longrightarrow> p = q) \<and>
     (\<forall>h. distinct (chain (tab h)) \<and> links (tab h) = int (length (chain (tab h))))"

definition channel_table_ok :: "(addr \<Rightarrow> cstr) \<Rightarrow> hash_tab \<Rightarrow> bool" where
  "channel_table_ok chname tab \<longleftrightarrow>
     (\<forall>h. \<forall>p\<in>set (chain (tab h)). hash_channel_name (chname p) = h) \<and>
     (\<forall>p\<in>entries (\<lambda>h. chain (tab h)). \<forall>q\<in>entries (\<lambda>h. chain (tab h)).
        mycmp (chname p) (chname q) = 0 \<longrightarrow> p = q) \<and>
     (\<forall>h. distinct (chain (tab h)) \<and> links (tab h) = int (length (chain (tab h))))"

lemma client_table_ok_iff: "client_table_ok cs tab = nickh.table_ok (\<lambda>p. c_name (cs p)) tab"
  by (simp add: client_table_ok_def nickh.table_ok_def nickh.placed_def nickh.uniq_def)

lemma channel_table_ok_iff: "channel_table_ok chname tab = chanh.table_ok chname tab"
  by (simp add: channel_table_ok_def chanh.table_ok_def chanh.placed_def chanh.uniq_def)

lemma hash_find_client_lookup:
  "hash_find_client cs tab n None = nickh.lookup (\<lambda>p. c_name (cs p)) (\<lambda>h. chain (tab h)) n"
  by (simp add: hash_find_client_def nickh.lookup_def split: option.split)

lemma hash_find_channel_lookup:
  "hash_find_channel chname tab n None = chanh.lookup chname (\<lambda>h. chain (tab h)) n"
  by (simp add: hash_find_channel_def chanh.lookup_def split: option.split)

lemmas client_table_simps = client_table_ok_iff hash_find_client_lookup add_to_client_hash_table_def
  del_from_client_hash_table_def

lemmas channel_table_simps = channel_table_ok_iff hash_find_channel_lookup
  add_to_channel_hash_table_def del_from_channel_hash_table_def

lemma client_table_clear: "client_table_ok cs clear_hash_table"
  by (simp add: client_table_ok_iff nickh.table_ok_clear)

lemma channel_table_clear: "channel_table_ok chname clear_hash_table"
  by (simp add: channel_table_ok_iff chanh.table_ok_clear)

subsection \<open>Properties\<close>

text \<open>
  The three name hashes always give an index inside their arrays (\<open>U_MAX\<close>,
  \<open>CH_MAX\<close>, \<open>WW_MAX\<close> buckets), whatever bytes the name has and whatever wraps around,
  and names that \<open>mycmp\<close> takes for equal get the same bucket.
\<close>

lemma name_hash_bounds:
  "hash_nick_name s < U_MAX \<and> hash_channel_name s < CH_MAX \<and> hash_whowas_name s < WW_MAX \<and>
   (mycmp s t = 0 \<longrightarrow> hash_nick_name s = hash_nick_name t \<and>
      hash_channel_name s = hash_channel_name t \<and> hash_whowas_name s = hash_whowas_name t)"
  by (simp add: hash_nick_name_bound hash_channel_name_bound hash_whowas_name_bound
      mycmp_hash_nick_name mycmp_hash_channel_name mycmp_hash_whowas_name)

text \<open>
  A channel name is hashed on its first 29 bytes, one fewer than the comment on
  \<open>hash_channel_name\<close> says.
\<close>

lemma hash_channel_name_prefix: "hash_channel_name s = hash_channel_name (take 29 s)"
  by (simp add: hash_channel_name_def hash_channel_loop_take)

text \<open>
  The client table implements a finite map from nicknames up to case: in a consistent
  table, adding a client whose name is not in use keeps the table consistent, makes exactly
  the names equal to it up to case find it, and changes no other lookup.
\<close>

lemma client_add_find:
  assumes "client_table_ok cs tab" and "hash_find_client cs tab (c_name (cs p)) None = None"
  shows "client_table_ok cs (add_to_client_hash_table (c_name (cs p)) p tab) \<and>
    (\<forall>n. hash_find_client cs (add_to_client_hash_table (c_name (cs p)) p tab) n None =
       (if mycmp n (c_name (cs p)) = 0 then Some p else hash_find_client cs tab n None))"
  using assms nickh.table_ok_push [of "\<lambda>p. c_name (cs p)" tab p]
    nickh.lookup_push [of _ "\<lambda>p. c_name (cs p)" p "\<lambda>h. chain (tab h)"]
  by (simp add: client_table_simps nickh.chain_push)

text \<open>
  Deleting a client from a consistent table succeeds (result 1, never the inconsistency
  code -1), keeps the table consistent and forgets exactly the names equal to it up to case.
\<close>

lemma client_del_find:
  assumes "client_table_ok cs tab" and "p \<in> entries (\<lambda>h. chain (tab h))"
  shows "fst (del_from_client_hash_table (c_name (cs p)) p tab) = 1 \<and>
    client_table_ok cs (snd (del_from_client_hash_table (c_name (cs p)) p tab)) \<and>
    (\<forall>n. hash_find_client cs (snd (del_from_client_hash_table (c_name (cs p)) p tab)) n None =
       (if mycmp n (c_name (cs p)) = 0 then None else hash_find_client cs tab n None))"
  using assms nickh.unlink_result [of "\<lambda>p. c_name (cs p)" tab p]
    nickh.table_ok_unlink [of "\<lambda>p. c_name (cs p)" tab] nickh.lookup_unlink [of "\<lambda>p. c_name (cs p)" tab p]
  by (simp add: client_table_simps)

text \<open>
  In a consistent table \<open>hash_find_client\<close> is exact: it returns the one linked client
  whose name is equal up to case, and the caller's default if and only if there is none.
\<close>

lemma hash_find_client_exact:
  assumes "client_table_ok cs tab"
  shows "hash_find_client cs tab n None = Some p \<longleftrightarrow>
      p \<in> entries (\<lambda>h. chain (tab h)) \<and> mycmp n (c_name (cs p)) = 0"
  using nickh.lookup_exact [of "\<lambda>p. c_name (cs p)" "\<lambda>h. chain (tab h)"] assms
  by (simp add: client_table_simps nickh.table_ok_def)

text \<open>
  The channel table is a map from channel names up to case in the same sense: adding a
  channel with an unused name, then removing it, gives result 1 and leaves every lookup as it
  was before.
\<close>

lemma channel_add_del_roundtrip:
  assumes "channel_table_ok chname tab" and "hash_find_channel chname tab (chname p) None = None"
  shows "let tab' = add_to_channel_hash_table (chname p) p tab;
             (r, tab'') = del_from_channel_hash_table (chname p) p tab'
         in channel_table_ok chname tab' \<and> hash_find_channel chname tab' (chname p) None = Some p \<and>
            r = 1 \<and> channel_table_ok chname tab'' \<and>
            (\<forall>n. hash_find_channel chname tab'' n None = hash_find_channel chname tab n None)"
proof -
  let ?tab = "push_entry (hash_channel_name (chname p)) p tab"
  have ok: "chanh.table_ok chname ?tab"
    using assms by (simp add: channel_table_simps chanh.table_ok_push)
  have m: "p \<in> entries (\<lambda>h. chain (?tab h))" by (simp add: chanh.chain_push entries_push_mem)
  have old: "hash_find_channel chname tab n None = None" if "mycmp n (chname p) = 0" for n
    using assms(2) that chanh.lookup_None_iff [of chname "\<lambda>h. chain (tab h)"] assms(1)
    by (simp add: channel_table_simps chanh.table_ok_def) (metis mycmp_sym mycmp_trans)
  obtain r tab'' where d: "unlink_entry (hash_channel_name (chname p)) p ?tab = (r, tab'')"
    by (cases "unlink_entry (hash_channel_name (chname p)) p ?tab")
  have "chanh.lookup chname (\<lambda>g. chain (tab'' g)) n = hash_find_channel chname tab n None" for n
    using chanh.lookup_unlink [OF ok m, of n] d old [of n]
      chanh.lookup_push [of _ chname p "\<lambda>h. chain (tab h)" n]
    by (simp add: hash_find_channel_lookup chanh.chain_push)
  moreover have "chanh.lookup chname (\<lambda>g. chain (?tab g)) (chname p) = Some p"
    using chanh.lookup_push [of _ chname p "\<lambda>h. chain (tab h)" "chname p"] by (simp add: chanh.chain_push)
  moreover have "r = 1" using chanh.unlink_result [OF ok m] d by simp
  moreover have "chanh.table_ok chname tab''"
    using chanh.table_ok_unlink [OF ok, of "hash_channel_name (chname p)" p] d by simp
  ultimately show ?thesis using ok d by (simp add: channel_table_simps Let_def)
qed

text \<open>
  \<open>hash_get_chan_bucket\<close> reads the bucket for every index of the array and refuses
  every larger index but one: the index \<open>CH_MAX\<close> passes its guard and is outside the array.
\<close>

lemma chan_bucket_guard:
  "(\<forall>h<CH_MAX. hash_get_chan_bucket tab (int h) =
       Some (case chain (tab h) of [] \<Rightarrow> None | p # _ \<Rightarrow> Some p)) \<and>
   (\<forall>h>int CH_MAX. hash_get_chan_bucket tab h = Some None) \<and>
   hash_get_chan_bucket tab (int CH_MAX) = None"
  by (auto simp: hash_get_chan_bucket_def)

end
