(* ===== verification/Watch.thy ===== *)
theory Watch
  imports Client_Hash
begin

section \<open>WATCH lists (src/src/hash.c, second half)\<close>

text \<open>
  A WATCH header (\<open>aWatch\<close>) exists for every watched nickname and holds the clients that
  watch it; every client holds the headers it watches and their number.  The state is the
  bucket array \<open>watchTable\<close>, the store of headers, the store of clients and the next
  address the allocator hands out.  The abstract view is the relation \<open>watch_rel\<close> between
  clients and nicknames up to case.
\<close>

definition WATCHHASHSIZE :: nat where "WATCHHASHSIZE = 10007"

record aWatch =
  w_lasttime :: time_t
  w_watch :: "addr list"
  w_nick :: cstr

record watch_state =
  watchTable :: "nat \<Rightarrow> addr list"
  w_hdr :: "addr \<Rightarrow> aWatch"
  w_clients :: clients
  w_next :: addr

definition clear_watch_hash_table :: "watch_state \<Rightarrow> watch_state" where
  "clear_watch_hash_table st = st\<lparr>watchTable := (\<lambda>_. [])\<rparr>"

definition watch_hash :: "cstr \<Rightarrow> nat" where
  "watch_hash nick = hash_nick_name nick mod WATCHHASHSIZE"

text \<open>The header search at the start of every function.\<close>

definition hash_get_watch :: "watch_state \<Rightarrow> cstr \<Rightarrow> addr option" where
  "hash_get_watch st nick =
     find (\<lambda>anptr. mycmp (w_nick (w_hdr st anptr)) nick = 0) (watchTable st (watch_hash nick))"

definition watch_new :: "time_t \<Rightarrow> cstr \<Rightarrow> watch_state \<Rightarrow> watch_state" where
  "watch_new timeofday nick st =
     st\<lparr>w_hdr := (w_hdr st)(w_next st := \<lparr>w_lasttime = timeofday, w_watch = [], w_nick = nick\<rparr>),
        watchTable := (watchTable st)(watch_hash nick := w_next st # watchTable st (watch_hash nick)),
        w_next := Suc (w_next st)\<rparr>"

definition watch_link :: "addr \<Rightarrow> addr \<Rightarrow> watch_state \<Rightarrow> watch_state" where
  "watch_link anptr cptr st =
     st\<lparr>w_hdr := (w_hdr st)(anptr := (w_hdr st anptr)\<lparr>w_watch := cptr # w_watch (w_hdr st anptr)\<rparr>),
        w_clients := (w_clients st)(cptr := (w_clients st cptr)
          \<lparr>c_watch := anptr # c_watch (w_clients st cptr),
           c_watches := c_watches (w_clients st cptr) + 1\<rparr>)\<rparr>"

definition add_to_watch_hash_table :: "time_t \<Rightarrow> cstr \<Rightarrow> addr \<Rightarrow> watch_state \<Rightarrow> watch_state" where
  "add_to_watch_hash_table timeofday nick cptr st =
     (let (anptr, st1) = (case hash_get_watch st nick of
                            Some anptr \<Rightarrow> (anptr, st)
                          | None \<Rightarrow> (w_next st, watch_new timeofday nick st))
      in if cptr \<in> set (w_watch (w_hdr st1 anptr)) then st1 else watch_link anptr cptr st1)"

text \<open>
  \<open>hash_check_watch\<close> stamps the header and sends the numeric \<open>reply\<close> to every client
  on it; a notification is its receiver, the numeric, the watched client's name, user name,
  host, the new time stamp and the info field.
\<close>

type_synonym watch_note = "addr \<times> int \<times> cstr \<times> cstr \<times> cstr \<times> time_t \<times> cstr"

definition hash_check_watch :: "time_t \<Rightarrow> addr \<Rightarrow> int \<Rightarrow> watch_state \<Rightarrow> watch_state \<times> watch_note list" where
  "hash_check_watch NOW cptr reply st =
     (let c = w_clients st cptr in
      case hash_get_watch st (c_name c) of
        None \<Rightarrow> (st, [])
      | Some anptr \<Rightarrow>
          (let na = (case c_user c of
                       Some u \<Rightarrow> if IsPerson c then (u_username u, u_host u) else (''<N/A>'', ''<N/A>'')
                     | None \<Rightarrow> (''<N/A>'', ''<N/A>''))
           in (st\<lparr>w_hdr := (w_hdr st)(anptr := (w_hdr st anptr)\<lparr>w_lasttime := NOW\<rparr>)\<rparr>,
               map (\<lambda>lp. (lp, reply, c_name c, fst na, snd na, NOW, c_info c))
                   (w_watch (w_hdr st anptr)))))"

text \<open>Unlinking one client from a header, and dropping a header nobody watches.\<close>

definition watch_unlink_hdr :: "addr \<Rightarrow> addr \<Rightarrow> watch_state \<Rightarrow> watch_state" where
  "watch_unlink_hdr anptr cptr st =
     st\<lparr>w_hdr := (w_hdr st)(anptr := (w_hdr st anptr)\<lparr>w_watch := remove1 cptr (w_watch (w_hdr st anptr))\<rparr>)\<rparr>"

definition watch_drop :: "addr \<Rightarrow> watch_state \<Rightarrow> watch_state" where
  "watch_drop anptr st =
     (let hashv = watch_hash (w_nick (w_hdr st anptr)) in
      st\<lparr>watchTable := (watchTable st)(hashv := remove1 anptr (watchTable st hashv))\<rparr>)"

text \<open>
  The second result of \<open>del_from_watch_hash_table\<close> tells whether it sent its debug message
  (the client had no link back to the header).
\<close>

definition del_from_watch_hash_table :: "cstr \<Rightarrow> addr \<Rightarrow> watch_state \<Rightarrow> watch_state \<times> bool" where
  "del_from_watch_hash_table nick cptr st =
     (case hash_get_watch st nick of
        None \<Rightarrow> (st, False)
      | Some anptr \<Rightarrow>
          if cptr \<notin> set (w_watch (w_hdr st anptr)) then (st, False)
          else
            (let st1 = watch_unlink_hdr anptr cptr st;
                 c = w_clients st1 cptr;
                 err = (anptr \<notin> set (c_watch c));
                 st2 = st1\<lparr>w_clients := (w_clients st1)(cptr := c\<lparr>c_watch := remove1 anptr (c_watch c)\<rparr>)\<rparr>;
                 st3 = (if w_watch (w_hdr st2 anptr) = [] then watch_drop anptr st2 else st2);
                 c3 = w_clients st3 cptr
             in (st3\<lparr>w_clients := (w_clients st3)(cptr := c3\<lparr>c_watches := c_watches c3 - 1\<rparr>)\<rparr>, err)))"

text \<open>
  One round of the loop of \<open>hash_del_watch_list\<close>.  \<open>None\<close> is the walk off the end of
  the bucket chain while looking for a header that is not linked there.
\<close>

definition del_watch_round :: "addr \<Rightarrow> addr \<Rightarrow> watch_state \<Rightarrow> watch_state option" where
  "del_watch_round cptr anptr st =
     (if cptr \<notin> set (w_watch (w_hdr st anptr)) then Some st
      else
        (let st1 = watch_unlink_hdr anptr cptr st in
         if w_watch (w_hdr st1 anptr) \<noteq> [] then Some st1
         else if anptr \<in> set (watchTable st1 (watch_hash (w_nick (w_hdr st1 anptr))))
         then Some (watch_drop anptr st1)
         else None))"

fun del_watch_loop :: "addr \<Rightarrow> addr list \<Rightarrow> watch_state \<Rightarrow> watch_state option" where
  "del_watch_loop cptr [] st = Some st"
| "del_watch_loop cptr (np # nps) st =
     (case del_watch_round cptr np st of None \<Rightarrow> None | Some st1 \<Rightarrow> del_watch_loop cptr nps st1)"

definition hash_del_watch_list :: "addr \<Rightarrow> watch_state \<Rightarrow> watch_state option" where
  "hash_del_watch_list cptr st =
     (let np = c_watch (w_clients st cptr) in
      if np = [] then Some st
      else
        (let st1 = st\<lparr>w_clients := (w_clients st)(cptr := (w_clients st cptr)\<lparr>c_watch := []\<rparr>)\<rparr> in
         case del_watch_loop cptr np st1 of
           None \<Rightarrow> None
         | Some st2 \<Rightarrow>
             Some (st2\<lparr>w_clients := (w_clients st2)(cptr := (w_clients st2 cptr)\<lparr>c_watches := 0\<rparr>)\<rparr>)))"

subsection \<open>Invariant and abstract view\<close>

definition hdrs :: "watch_state \<Rightarrow> addr set" where
  "hdrs st = entries (watchTable st)"

definition watch_chains_ok :: "watch_state \<Rightarrow> bool" where
  "watch_chains_ok st \<longleftrightarrow>
     (\<forall>h. distinct (watchTable st h)) \<and>
     (\<forall>h. \<forall>a\<in>set (watchTable st h). watch_hash (w_nick (w_hdr st a)) = h) \<and>
     (\<forall>a\<in>hdrs st. \<forall>b\<in>hdrs st. mycmp (w_nick (w_hdr st a)) (w_nick (w_hdr st b)) = 0 \<longrightarrow> a = b) \<and>
     (\<forall>a\<in>hdrs st. a < w_next st)"

definition watch_links_ok :: "watch_state \<Rightarrow> bool" where
  "watch_links_ok st \<longleftrightarrow>
     (\<forall>a\<in>hdrs st. distinct (w_watch (w_hdr st a)) \<and> w_watch (w_hdr st a) \<noteq> []) \<and>
     (\<forall>c. distinct (c_watch (w_clients st c)) \<and>
          set (c_watch (w_clients st c)) = {a \<in> hdrs st. c \<in> set (w_watch (w_hdr st a))} \<and>
          c_watches (w_clients st c) = int (length (c_watch (w_clients st c))))"

definition watch_ok :: "watch_state \<Rightarrow> bool" where
  "watch_ok st \<longleftrightarrow> watch_chains_ok st \<and> watch_links_ok st"

definition watch_rel :: "watch_state \<Rightarrow> (addr \<times> nat list) set" where
  "watch_rel st = {(c, map ToUpper (w_nick (w_hdr st a))) | c a. a \<in> hdrs st \<and> c \<in> set (w_watch (w_hdr st a))}"

lemma watch_rel_iff:
  "(c, m) \<in> watch_rel st \<longleftrightarrow> (\<exists>a\<in>hdrs st. c \<in> set (w_watch (w_hdr st a)) \<and> m = map ToUpper (w_nick (w_hdr st a)))"
  by (auto simp: watch_rel_def)

lemma watch_hash_bound: "watch_hash n < WATCHHASHSIZE"
  by (simp add: watch_hash_def WATCHHASHSIZE_def)

lemma mycmp_watch_hash: "mycmp s t = 0 \<Longrightarrow> watch_hash s = watch_hash t"
  by (simp add: watch_hash_def mycmp_hash_nick_name)

interpretation watchh: chain_hash watch_hash "\<lambda>s t. mycmp s t = 0" WATCHHASHSIZE
  by unfold_locales (auto simp: mycmp_watch_hash watch_hash_bound mycmp_sym intro: mycmp_trans)

lemma hash_get_watch_lookup:
  "hash_get_watch st n = watchh.lookup (\<lambda>a. w_nick (w_hdr st a)) (watchTable st) n"
  by (simp add: hash_get_watch_def watchh.lookup_def mycmp_sym)

lemma watch_chains_iff:
  "watch_chains_ok st \<longleftrightarrow>
     (\<forall>h. distinct (watchTable st h)) \<and>
     watchh.placed (\<lambda>a. w_nick (w_hdr st a)) (watchTable st) \<and>
     watchh.uniq (\<lambda>a. w_nick (w_hdr st a)) (watchTable st) \<and> (\<forall>a\<in>hdrs st. a < w_next st)"
  by (simp add: watch_chains_ok_def watchh.placed_def watchh.uniq_def hdrs_def)

lemma hash_get_watch_exact:
  assumes "watch_chains_ok st"
  shows "hash_get_watch st n = Some a \<longleftrightarrow> a \<in> hdrs st \<and> mycmp n (w_nick (w_hdr st a)) = 0"
  using watchh.lookup_exact [of "\<lambda>a. w_nick (w_hdr st a)" "watchTable st" n a] assms
  by (simp add: watch_chains_iff hash_get_watch_lookup hdrs_def)

lemma hash_get_watch_None:
  assumes "watch_chains_ok st"
  shows "hash_get_watch st n = None \<longleftrightarrow> (\<forall>a\<in>hdrs st. mycmp n (w_nick (w_hdr st a)) \<noteq> 0)"
  using hash_get_watch_exact [OF assms, of n] by (metis not_None_eq option.distinct(1))

subsection \<open>Headers and their watchers\<close>

text \<open>
  \<open>links_view st f\<close>: the headers agree with the view \<open>f\<close> of which headers each
  client watches.  In a consistent state \<open>f\<close> reads the client records; while
  \<open>hash_del_watch_list\<close> runs, it is the part of the client's list still to be processed.
\<close>

definition links_view :: "watch_state \<Rightarrow> (addr \<Rightarrow> addr list) \<Rightarrow> bool" where
  "links_view st f \<longleftrightarrow>
     (\<forall>a\<in>hdrs st. distinct (w_watch (w_hdr st a))) \<and>
     (\<forall>c. distinct (f c) \<and> set (f c) = {a \<in> hdrs st. c \<in> set (w_watch (w_hdr st a))})"

definition client_view :: "watch_state \<Rightarrow> addr \<Rightarrow> addr list" where
  "client_view st c = c_watch (w_clients st c)"

definition all_watched :: "watch_state \<Rightarrow> bool" where
  "all_watched st \<longleftrightarrow> (\<forall>a\<in>hdrs st. w_watch (w_hdr st a) \<noteq> [])"

definition counts_ok :: "watch_state \<Rightarrow> bool" where
  "counts_ok st \<longleftrightarrow> (\<forall>c. c_watches (w_clients st c) = int (length (client_view st c)))"

lemma watch_links_iff:
  "watch_links_ok st \<longleftrightarrow> links_view st (client_view st) \<and> all_watched st \<and> counts_ok st"
  by (auto simp: watch_links_ok_def links_view_def client_view_def all_watched_def counts_ok_def)

lemma watch_new_fields [simp]:
  "w_clients (watch_new t n st) = w_clients st"
  "w_next (watch_new t n st) = Suc (w_next st)"
  "w_hdr (watch_new t n st) = (w_hdr st)(w_next st := \<lparr>w_lasttime = t, w_watch = [], w_nick = n\<rparr>)"
  by (simp_all add: watch_new_def)

lemma hdrs_new [simp]: "hdrs (watch_new t n st) = insert (w_next st) (hdrs st)"
  by (simp add: hdrs_def watch_new_def entries_push)

lemma watch_link_fields [simp]:
  "watchTable (watch_link a c st) = watchTable st" "w_next (watch_link a c st) = w_next st"
  "hdrs (watch_link a c st) = hdrs st"
  "w_hdr (watch_link a c st) = (w_hdr st)(a := (w_hdr st a)\<lparr>w_watch := c # w_watch (w_hdr st a)\<rparr>)"
  by (simp_all add: watch_link_def hdrs_def)

lemma fresh_not_hdr: "watch_chains_ok st \<Longrightarrow> w_next st \<notin> hdrs st"
  by (auto simp: watch_chains_ok_def)

lemma watch_new_chains:
  assumes ok: "watch_chains_ok st" and none: "hash_get_watch st n = None"
  shows "watch_chains_ok (watch_new t n st)"
proof -
  let ?key = "\<lambda>a. w_nick (w_hdr (watch_new t n st) a)"
  have cong: "w_nick (w_hdr st e) = ?key e" if "e \<in> entries (watchTable st)" for e
    using that fresh_not_hdr [OF ok] by (auto simp: hdrs_def)
  have pl: "watchh.placed ?key (watchTable st)" and un: "watchh.uniq ?key (watchTable st)"
    using ok watchh.placed_key_cong [of "watchTable st" "\<lambda>a. w_nick (w_hdr st a)" ?key, OF cong]
      watchh.uniq_key_cong [of "watchTable st" "\<lambda>a. w_nick (w_hdr st a)" ?key, OF cong]
    by (simp_all add: watch_chains_iff)
  have no: "watchh.lookup ?key (watchTable st) (?key (w_next st)) = None"
    using none watchh.lookup_key_cong [of "watchTable st" "\<lambda>a. w_nick (w_hdr st a)" ?key n, OF cong]
    by (simp add: hash_get_watch_lookup)
  have tab: "watchTable (watch_new t n st) =
      (watchTable st)(watch_hash n := w_next st # watchTable st (watch_hash n))"
    by (simp add: watch_new_def)
  have "watchh.placed ?key (watchTable (watch_new t n st))"
    using watchh.placed_push [OF pl, of "watch_hash n" "w_next st"] by (simp add: tab)
  moreover have "watchh.uniq ?key (watchTable (watch_new t n st))"
    using watchh.uniq_push [OF pl un no, of "watch_hash n"] by (simp add: tab)
  moreover have "distinct (watchTable (watch_new t n st) h)" for h
    using ok fresh_not_hdr [OF ok] by (auto simp: tab watch_chains_ok_def hdrs_def entries_iff)
  moreover have "\<forall>a\<in>hdrs (watch_new t n st). a < w_next (watch_new t n st)"
    using ok by (auto simp: watch_chains_ok_def)
  ultimately show ?thesis unfolding watch_chains_iff by blast
qed

lemma watch_chains_cong:
  assumes "watchTable st' = watchTable st" and "w_next st' = w_next st"
    and "\<And>a. w_nick (w_hdr st' a) = w_nick (w_hdr st a)"
  shows "watch_chains_ok st' = watch_chains_ok st"
  using assms by (simp add: watch_chains_ok_def hdrs_def)

lemma watch_link_chains: "watch_chains_ok (watch_link a c st) = watch_chains_ok st"
  by (rule watch_chains_cong) auto

lemma links_view_new:
  assumes "watch_chains_ok st" and "links_view st f"
  shows "links_view (watch_new t n st) f"
  using assms fresh_not_hdr [OF assms(1)] unfolding links_view_def by auto

lemma links_view_link:
  assumes "links_view st f" and "a \<in> hdrs st" and "c \<notin> set (w_watch (w_hdr st a))"
  shows "links_view (watch_link a c st) (f(c := a # f c))"
  using assms unfolding links_view_def by auto

lemma client_view_link: "client_view (watch_link a c st) = (client_view st)(c := a # client_view st c)"
  by (auto simp: client_view_def watch_link_def)

lemma counts_ok_link: "counts_ok st \<Longrightarrow> counts_ok (watch_link a c st)"
  by (auto simp: counts_ok_def client_view_def watch_link_def)

lemma add_watch_ok:
  assumes ok: "watch_ok st"
  shows "watch_ok (add_to_watch_hash_table t n c st)"
proof (cases "hash_get_watch st n")
  case None
  let ?st = "watch_new t n st"
  have ch: "watch_chains_ok ?st" using ok None by (simp add: watch_ok_def watch_new_chains)
  have vw: "client_view ?st = client_view st" by (auto simp: client_view_def)
  have "links_view ?st (client_view ?st)"
    unfolding vw using ok by (simp add: watch_ok_def watch_links_iff links_view_new)
  then have "links_view (watch_link (w_next st) c ?st) (client_view (watch_link (w_next st) c ?st))"
    unfolding client_view_link by (rule links_view_link) auto
  moreover have "all_watched (watch_link (w_next st) c ?st)"
    using ok by (auto simp: watch_ok_def watch_links_iff all_watched_def)
  moreover have "counts_ok ?st" using ok by (simp add: watch_ok_def watch_links_iff counts_ok_def vw)
  ultimately show ?thesis using None ch
    by (simp add: add_to_watch_hash_table_def watch_ok_def watch_links_iff watch_link_chains counts_ok_link)
next
  case (Some a)
  have a: "a \<in> hdrs st" using Some ok hash_get_watch_exact [of st n a] by (simp add: watch_ok_def)
  show ?thesis
  proof (cases "c \<in> set (w_watch (w_hdr st a))")
    case False
    have "links_view (watch_link a c st) (client_view (watch_link a c st))"
      unfolding client_view_link
      by (rule links_view_link) (use ok a False in \<open>auto simp: watch_ok_def watch_links_iff\<close>)
    moreover have "all_watched (watch_link a c st)"
      using ok by (auto simp: watch_ok_def watch_links_iff all_watched_def)
    ultimately show ?thesis using Some False ok
      by (simp add: add_to_watch_hash_table_def watch_ok_def watch_links_iff watch_link_chains counts_ok_link)
  qed (use ok Some in \<open>simp add: add_to_watch_hash_table_def\<close>)
qed

subsection \<open>Cutting one link\<close>

definition cut_hdr :: "addr \<Rightarrow> addr \<Rightarrow> watch_state \<Rightarrow> watch_state" where
  "cut_hdr a c st =
     (let st1 = watch_unlink_hdr a c st in if w_watch (w_hdr st1 a) = [] then watch_drop a st1 else st1)"

lemma watch_unlink_fields [simp]:
  "watchTable (watch_unlink_hdr a c st) = watchTable st" "w_next (watch_unlink_hdr a c st) = w_next st"
  "hdrs (watch_unlink_hdr a c st) = hdrs st" "w_clients (watch_unlink_hdr a c st) = w_clients st"
  "w_hdr (watch_unlink_hdr a c st) =
     (w_hdr st)(a := (w_hdr st a)\<lparr>w_watch := remove1 c (w_watch (w_hdr st a))\<rparr>)"
  by (simp_all add: watch_unlink_hdr_def hdrs_def)

lemma watch_drop_fields [simp]:
  "w_hdr (watch_drop a st) = w_hdr st" "w_clients (watch_drop a st) = w_clients st"
  "w_next (watch_drop a st) = w_next st"
  by (simp_all add: watch_drop_def Let_def)

lemma hdrs_drop: "watch_chains_ok st \<Longrightarrow> hdrs (watch_drop a st) = hdrs st - {a}"
  using watchh.entries_remove1 [of "\<lambda>a. w_nick (w_hdr st a)" "watchTable st" a]
  by (simp add: watch_chains_iff hdrs_def watch_drop_def Let_def)

lemma watch_drop_chains:
  assumes "watch_chains_ok st"
  shows "watch_chains_ok (watch_drop a st)"
proof -
  let ?h = "watch_hash (w_nick (w_hdr st a))"
  have tab: "watchTable (watch_drop a st) = (watchTable st)(?h := remove1 a (watchTable st ?h))"
    by (simp add: watch_drop_def Let_def)
  have "watchh.placed (\<lambda>a. w_nick (w_hdr st a)) (watchTable (watch_drop a st))"
    unfolding tab by (rule watchh.placed_remove1) (use assms in \<open>simp add: watch_chains_iff\<close>)
  moreover have "watchh.uniq (\<lambda>a. w_nick (w_hdr st a)) (watchTable (watch_drop a st))"
    unfolding tab by (rule watchh.uniq_shrink [OF _ set_upd_remove1]) (use assms in \<open>simp add: watch_chains_iff\<close>)
  moreover have "distinct (watchTable (watch_drop a st) h)" for h
    using assms by (simp add: tab watch_chains_ok_def distinct_remove1)
  ultimately show ?thesis using assms hdrs_drop [OF assms, of a]
    by (simp add: watch_chains_iff)
qed

lemma watch_unlink_chains: "watch_chains_ok (watch_unlink_hdr a c st) = watch_chains_ok st"
  by (rule watch_chains_cong) auto

lemma cut_hdr_clients [simp]: "w_clients (cut_hdr a c st) = w_clients st"
  by (simp add: cut_hdr_def Let_def)

lemma cut_hdr_chains: "watch_chains_ok st \<Longrightarrow> watch_chains_ok (cut_hdr a c st)"
  by (simp add: cut_hdr_def Let_def watch_unlink_chains watch_drop_chains del: watch_unlink_fields(5))

lemma cut_hdr_hdrs:
  "watch_chains_ok st \<Longrightarrow> hdrs (cut_hdr a c st) =
     (if remove1 c (w_watch (w_hdr st a)) = [] then hdrs st - {a} else hdrs st)"
  by (simp add: cut_hdr_def Let_def hdrs_drop watch_unlink_chains)

lemma cut_hdr_hdr:
  "w_hdr (cut_hdr a c st) = (w_hdr st)(a := (w_hdr st a)\<lparr>w_watch := remove1 c (w_watch (w_hdr st a))\<rparr>)"
  by (simp add: cut_hdr_def Let_def)

lemma cut_hdr_all_watched: "watch_chains_ok st \<Longrightarrow> all_watched st \<Longrightarrow> all_watched (cut_hdr a c st)"
  by (auto simp: all_watched_def cut_hdr_hdrs cut_hdr_hdr split: if_splits)

lemma links_view_cut:
  assumes ch: "watch_chains_ok st" and lv: "links_view st f" and a: "a \<in> hdrs st"
  shows "links_view (cut_hdr a c st) (f(c := remove1 a (f c)))"
proof -
  have d: "distinct (w_watch (w_hdr st a))" using lv a by (simp add: links_view_def)
  have "remove1 c (w_watch (w_hdr st a)) = [] \<Longrightarrow> set (w_watch (w_hdr st a)) \<subseteq> {c}"
    using d by (metis Diff_eq_empty_iff set_empty set_remove1_eq)
  then show ?thesis using assms d
    unfolding links_view_def cut_hdr_hdrs [OF ch] cut_hdr_hdr
    by (auto simp: set_remove1_eq distinct_remove1)
qed

lemma watch_rel_cut:
  assumes ch: "watch_chains_ok st" and a: "a \<in> hdrs st" and d: "distinct (w_watch (w_hdr st a))"
  shows "watch_rel (cut_hdr a c st) = watch_rel st - {(c, map ToUpper (w_nick (w_hdr st a)))}"
proof -
  have same: "b = a" if "b \<in> hdrs st" "map ToUpper (w_nick (w_hdr st b)) = map ToUpper (w_nick (w_hdr st a))" for b
    using that a ch by (simp add: watch_chains_ok_def mycmp_zero_iff)
  have e: "remove1 c (w_watch (w_hdr st a)) = [] \<Longrightarrow> set (w_watch (w_hdr st a)) \<subseteq> {c}"
    using d by (metis Diff_eq_empty_iff set_empty set_remove1_eq)
  have "x \<in> watch_rel (cut_hdr a c st) \<longleftrightarrow> x \<in> watch_rel st \<and> x \<noteq> (c, map ToUpper (w_nick (w_hdr st a)))" for x
    unfolding watch_rel_def cut_hdr_hdrs [OF ch] cut_hdr_hdr
    using a d e same by (fastforce simp: set_remove1_eq split: if_splits)
  then show ?thesis by blast
qed

subsection \<open>Deleting one watch, or all of them\<close>

lemma del_watch_eq:
  assumes ok: "watch_ok st" and get: "hash_get_watch st n = Some a" and c: "c \<in> set (w_watch (w_hdr st a))"
  shows "del_from_watch_hash_table n c st =
    ((cut_hdr a c st)\<lparr>w_clients := (w_clients st)(c := (w_clients st c)
        \<lparr>c_watch := remove1 a (c_watch (w_clients st c)),
         c_watches := c_watches (w_clients st c) - 1\<rparr>)\<rparr>, False)"
proof -
  have "a \<in> hdrs st" using hash_get_watch_exact [of st n a] ok get by (simp add: watch_ok_def)
  then have "a \<in> set (c_watch (w_clients st c))"
    using ok c by (simp add: watch_ok_def watch_links_ok_def)
  with get c show ?thesis
    by (simp add: del_from_watch_hash_table_def cut_hdr_def Let_def watch_drop_def watch_unlink_hdr_def)
qed

lemma watch_state_clients_simps [simp]:
  "hdrs (st\<lparr>w_clients := f\<rparr>) = hdrs st"
  "watch_chains_ok (st\<lparr>w_clients := f\<rparr>) = watch_chains_ok st"
  "all_watched (st\<lparr>w_clients := f\<rparr>) = all_watched st"
  "links_view (st\<lparr>w_clients := f\<rparr>) v = links_view st v"
  "watch_rel (st\<lparr>w_clients := f\<rparr>) = watch_rel st"
  "client_view (st\<lparr>w_clients := f\<rparr>) = (\<lambda>c. c_watch (f c))"
  by (auto simp: hdrs_def watch_chains_ok_def all_watched_def links_view_def watch_rel_def client_view_def)

lemma del_watch_ok:
  assumes ok: "watch_ok st"
  shows "watch_ok (fst (del_from_watch_hash_table n c st))"
proof (cases "\<exists>a. hash_get_watch st n = Some a \<and> c \<in> set (w_watch (w_hdr st a))")
  case True
  then obtain a where get: "hash_get_watch st n = Some a" and c: "c \<in> set (w_watch (w_hdr st a))" by blast
  have ch: "watch_chains_ok st" and lv: "links_view st (client_view st)" and aw: "all_watched st"
    and co: "counts_ok st" using ok by (simp_all add: watch_ok_def watch_links_iff)
  have a: "a \<in> hdrs st" using hash_get_watch_exact [OF ch] get by simp
  then have m: "a \<in> set (c_watch (w_clients st c))"
    using lv c by (simp add: links_view_def client_view_def)
  let ?f = "(w_clients st)(c := (w_clients st c)\<lparr>c_watch := remove1 a (c_watch (w_clients st c)),
         c_watches := c_watches (w_clients st c) - 1\<rparr>)"
  have "(\<lambda>d. c_watch (?f d)) = (client_view st)(c := remove1 a (client_view st c))"
    by (auto simp: client_view_def)
  then have "links_view (cut_hdr a c st) (\<lambda>d. c_watch (?f d))"
    using links_view_cut [OF ch lv a, of c] by simp
  moreover have "counts_ok ((cut_hdr a c st)\<lparr>w_clients := ?f\<rparr>)"
    using co length_remove1_mem [OF m] by (auto simp: counts_ok_def client_view_def)
  ultimately show ?thesis
    using ch aw by (simp add: del_watch_eq [OF ok get c] watch_ok_def watch_links_iff cut_hdr_chains
        cut_hdr_all_watched)
next
  case False
  then have "fst (del_from_watch_hash_table n c st) = st"
    by (auto simp: del_from_watch_hash_table_def split: option.splits)
  with ok show ?thesis by simp
qed

lemma del_watch_round_eq:
  assumes ch: "watch_chains_ok st" and a: "a \<in> hdrs st" and c: "c \<in> set (w_watch (w_hdr st a))"
  shows "del_watch_round c a st = Some (cut_hdr a c st)"
proof -
  have "a \<in> set (watchTable st (watch_hash (w_nick (w_hdr st a))))"
    using watchh.placed_entry [of "\<lambda>a. w_nick (w_hdr st a)" "watchTable st" a] ch a
    by (simp add: watch_chains_iff hdrs_def)
  with c show ?thesis by (simp add: del_watch_round_def cut_hdr_def Let_def)
qed

lemma watch_rel_view:
  assumes "links_view st f"
  shows "watch_rel st = {(c, map ToUpper (w_nick (w_hdr st a))) | c a. a \<in> set (f c)}"
  using assms by (auto simp: watch_rel_def links_view_def)

lemma del_watch_loop_ok:
  assumes "watch_chains_ok st" and "all_watched st" and "links_view st f" and "f c = nps"
  shows "\<exists>st'. del_watch_loop c nps st = Some st' \<and> watch_chains_ok st' \<and> all_watched st' \<and>
    links_view st' (f(c := [])) \<and> w_clients st' = w_clients st \<and>
    watch_rel st' = {x \<in> watch_rel st. fst x \<noteq> c}"
  using assms
proof (induction nps arbitrary: st f)
  case Nil
  then have "{x \<in> watch_rel st. fst x \<noteq> c} = watch_rel st"
    by (auto simp: watch_rel_view [OF Nil.prems(3)])
  moreover have "f(c := []) = f" using Nil.prems(4) by auto
  ultimately show ?case using Nil.prems by simp
next
  case (Cons a nps)
  have "a \<in> set (f c)" using Cons.prems(4) by simp
  then have a: "a \<in> hdrs st" and ca: "c \<in> set (w_watch (w_hdr st a))"
    using Cons.prems(3) by (auto simp: links_view_def)
  have d: "distinct (w_watch (w_hdr st a))" using Cons.prems(3) a by (simp add: links_view_def)
  let ?f = "f(c := remove1 a (f c))"
  have "?f c = nps" and upd: "?f(c := []) = f(c := [])" using Cons.prems(4) by simp_all
  from Cons.IH [OF cut_hdr_chains [OF Cons.prems(1)] cut_hdr_all_watched [OF Cons.prems(1,2)]
      links_view_cut [OF Cons.prems(1,3) a, of c] this(1), unfolded upd]
  obtain st' where "del_watch_loop c nps (cut_hdr a c st) = Some st'" "watch_chains_ok st'"
    "all_watched st'" "links_view st' (f(c := []))" "w_clients st' = w_clients (cut_hdr a c st)"
    and rel: "watch_rel st' = {x \<in> watch_rel (cut_hdr a c st). fst x \<noteq> c}" by blast
  moreover have "watch_rel st' = {x \<in> watch_rel st. fst x \<noteq> c}"
    unfolding rel watch_rel_cut [OF Cons.prems(1) a d] by auto
  ultimately show ?case using del_watch_round_eq [OF Cons.prems(1) a ca] by (auto simp: fun_upd_def)
qed

lemma hash_del_watch_list_ok:
  assumes ok: "watch_ok st"
  shows "\<exists>st'. hash_del_watch_list c st = Some st' \<and> watch_ok st' \<and>
    watch_rel st' = {x \<in> watch_rel st. fst x \<noteq> c}"
proof -
  have ch: "watch_chains_ok st" and lv: "links_view st (client_view st)" and aw: "all_watched st"
    and co: "counts_ok st" using ok by (simp_all add: watch_ok_def watch_links_iff)
  let ?np = "c_watch (w_clients st c)"
  let ?st = "st\<lparr>w_clients := (w_clients st)(c := (w_clients st c)\<lparr>c_watch := []\<rparr>)\<rparr>"
  show ?thesis
  proof (cases "?np = []")
    case True
    then have "{x \<in> watch_rel st. fst x \<noteq> c} = watch_rel st"
      by (auto simp: watch_rel_view [OF lv] client_view_def)
    with True ok show ?thesis by (simp add: hash_del_watch_list_def)
  next
    case False
    have "\<exists>st2. del_watch_loop c ?np ?st = Some st2 \<and> watch_chains_ok st2 \<and> all_watched st2 \<and>
      links_view st2 ((client_view st)(c := [])) \<and> w_clients st2 = w_clients ?st \<and>
      watch_rel st2 = {x \<in> watch_rel ?st. fst x \<noteq> c}"
      by (rule del_watch_loop_ok) (use ch aw lv in \<open>simp_all add: client_view_def\<close>)
    then obtain st2 where l: "del_watch_loop c ?np ?st = Some st2" and ch2: "watch_chains_ok st2"
      and aw2: "all_watched st2" and lv2: "links_view st2 ((client_view st)(c := []))"
      and cl2: "w_clients st2 = w_clients ?st" and rel: "watch_rel st2 = {x \<in> watch_rel st. fst x \<noteq> c}"
      by auto
    let ?st3 = "st2\<lparr>w_clients := (w_clients st2)(c := (w_clients st2 c)\<lparr>c_watches := 0\<rparr>)\<rparr>"
    have v3: "client_view ?st3 = (client_view st)(c := [])"
      using cl2 by (auto simp: client_view_def)
    have "counts_ok ?st3" using co cl2 by (auto simp: counts_ok_def client_view_def)
    then have "watch_ok ?st3" using ch2 aw2 lv2 v3
      by (simp add: watch_ok_def watch_links_iff del: watch_state_clients_simps(6))
    then show ?thesis using False l rel by (simp add: hash_del_watch_list_def Let_def)
  qed
qed

lemma watch_rel_add:
  assumes ok: "watch_ok st"
  shows "watch_rel (add_to_watch_hash_table t n c st) = insert (c, map ToUpper n) (watch_rel st)"
proof (cases "hash_get_watch st n")
  case None
  have "w_next st \<notin> hdrs st" using ok by (simp add: watch_ok_def fresh_not_hdr)
  then have "x \<in> watch_rel (watch_link (w_next st) c (watch_new t n st)) \<longleftrightarrow>
      x = (c, map ToUpper n) \<or> x \<in> watch_rel st" for x
    by (cases x) (auto simp: watch_rel_iff)
  with None show ?thesis by (auto simp: add_to_watch_hash_table_def)
next
  case (Some a)
  then have a: "a \<in> hdrs st" and n: "map ToUpper n = map ToUpper (w_nick (w_hdr st a))"
    using hash_get_watch_exact [of st n a] ok by (simp_all add: watch_ok_def mycmp_zero_iff)
  show ?thesis
  proof (cases "c \<in> set (w_watch (w_hdr st a))")
    case True
    then show ?thesis using Some a n by (auto simp: add_to_watch_hash_table_def watch_rel_def)
  next
    case False
    have "watch_rel (watch_link a c st) = insert (c, map ToUpper n) (watch_rel st)"
      unfolding watch_rel_def n using a by (fastforce split: if_splits)
    then show ?thesis using Some False by (simp add: add_to_watch_hash_table_def)
  qed
qed

lemma watch_rel_del:
  assumes ok: "watch_ok st"
  shows "watch_rel (fst (del_from_watch_hash_table n c st)) = watch_rel st - {(c, map ToUpper n)}"
proof (cases "\<exists>a. hash_get_watch st n = Some a \<and> c \<in> set (w_watch (w_hdr st a))")
  case True
  then obtain a where get: "hash_get_watch st n = Some a" and c: "c \<in> set (w_watch (w_hdr st a))" by blast
  have ch: "watch_chains_ok st" using ok by (simp add: watch_ok_def)
  have a: "a \<in> hdrs st" and n: "map ToUpper n = map ToUpper (w_nick (w_hdr st a))"
    using hash_get_watch_exact [OF ch, of n a] get by (simp_all add: mycmp_zero_iff)
  have "distinct (w_watch (w_hdr st a))" using ok a by (simp add: watch_ok_def watch_links_ok_def)
  then show ?thesis using watch_rel_cut [OF ch a] by (simp add: del_watch_eq [OF ok get c] n)
next
  case False
  then have "fst (del_from_watch_hash_table n c st) = st"
    by (auto simp: del_from_watch_hash_table_def split: option.splits)
  moreover have "(c, map ToUpper n) \<notin> watch_rel st"
  proof
    assume "(c, map ToUpper n) \<in> watch_rel st"
    then obtain a where "a \<in> hdrs st" "c \<in> set (w_watch (w_hdr st a))"
      "map ToUpper n = map ToUpper (w_nick (w_hdr st a))" by (auto simp: watch_rel_def)
    then show False using False hash_get_watch_exact [of st n a] ok
      by (auto simp: watch_ok_def mycmp_zero_iff)
  qed
  ultimately show ?thesis by simp
qed

subsection \<open>Properties\<close>

definition watch_start :: watch_state where
  "watch_start = clear_watch_hash_table
     \<lparr>watchTable = (\<lambda>_. []), w_hdr = (\<lambda>_. \<lparr>w_lasttime = 0, w_watch = [], w_nick = []\<rparr>),
      w_clients = (\<lambda>_. example_client ''Nick''), w_next = 100\<rparr>"

lemma watch_ok_start: "watch_ok watch_start"
  by (simp add: watch_start_def clear_watch_hash_table_def watch_ok_def watch_chains_ok_def
      watch_links_ok_def hdrs_def entries_def example_client_def)

text \<open>
  C28: the WATCH structure stays consistent under every operation: chains hold each header once
  in its own bucket, headers and clients point at each other both ways, every header has a
  watcher and every client's counter is the length of its list.  In particular
  \<open>hash_del_watch_list\<close> always finds the header it unlinks.
\<close>

theorem watch_ops_preserve_ok:
  assumes "watch_ok st"
  shows "watch_ok (add_to_watch_hash_table t n c st) \<and>
    watch_ok (fst (del_from_watch_hash_table n c st)) \<and>
    (\<exists>st'. hash_del_watch_list c st = Some st' \<and> watch_ok st')"
  using add_watch_ok [OF assms] del_watch_ok [OF assms] hash_del_watch_list_ok [OF assms] by blast

theorem watch_ops_preserve_ok_witness:
  "watch_ok (add_to_watch_hash_table 5 ''Bob'' 1 watch_start)"
  using watch_ops_preserve_ok [OF watch_ok_start, of 5 "''Bob''" 1] by blast

text \<open>
  C29: the WATCH operations refine operations on the relation between clients and watched
  nicknames up to case: adding inserts one pair, deleting removes one pair, deleting a client's
  list removes all its pairs, and the debug message of \<open>del_from_watch_hash_table\<close> is never
  sent.
\<close>

theorem watch_refines_relation:
  assumes "watch_ok st"
  shows "watch_rel (add_to_watch_hash_table t n c st) = insert (c, map ToUpper n) (watch_rel st) \<and>
    watch_rel (fst (del_from_watch_hash_table n c st)) = watch_rel st - {(c, map ToUpper n)} \<and>
    \<not> snd (del_from_watch_hash_table n c st) \<and>
    map_option watch_rel (hash_del_watch_list c st) = Some {x \<in> watch_rel st. fst x \<noteq> c}"
proof -
  have "\<not> snd (del_from_watch_hash_table n c st)"
    using del_watch_eq [OF assms, of n _ c]
    by (cases "\<exists>a. hash_get_watch st n = Some a \<and> c \<in> set (w_watch (w_hdr st a))")
       (auto simp: del_from_watch_hash_table_def split: option.splits)
  then show ?thesis
    using watch_rel_add [OF assms] watch_rel_del [OF assms] hash_del_watch_list_ok [OF assms, of c]
    by auto
qed

theorem watch_refines_relation_witness:
  "watch_ok watch_start \<and> watch_rel (add_to_watch_hash_table 5 ''Bob'' 1 watch_start) =
     insert (1, map ToUpper ''Bob'') (watch_rel watch_start)"
  using watch_ok_start watch_refines_relation [OF watch_ok_start, of 5 "''Bob''" 1] by blast

text \<open>
  \<open>hash_check_watch\<close> notifies exactly the clients related to the name of the client
  that signs on or off, each once, and leaves the relation and the consistency alone.
\<close>

lemma check_watch_notifies:
  assumes "watch_ok st"
  shows "set (map fst (snd (hash_check_watch NOW p r st))) =
      {c. (c, map ToUpper (c_name (w_clients st p))) \<in> watch_rel st} \<and>
    distinct (map fst (snd (hash_check_watch NOW p r st))) \<and>
    watch_rel (fst (hash_check_watch NOW p r st)) = watch_rel st \<and>
    watch_ok (fst (hash_check_watch NOW p r st))"
proof (cases "hash_get_watch st (c_name (w_clients st p))")
  case None
  then have "\<forall>a\<in>hdrs st. map ToUpper (c_name (w_clients st p)) \<noteq> map ToUpper (w_nick (w_hdr st a))"
    using hash_get_watch_None [of st] assms by (simp add: watch_ok_def mycmp_zero_iff)
  with None assms show ?thesis by (auto simp: hash_check_watch_def watch_rel_def Let_def)
next
  case (Some a)
  then have a: "a \<in> hdrs st" and
    n: "map ToUpper (c_name (w_clients st p)) = map ToUpper (w_nick (w_hdr st a))"
    using hash_get_watch_exact [of st _ a] assms by (simp_all add: watch_ok_def mycmp_zero_iff)
  have same: "b = a" if "b \<in> hdrs st" "map ToUpper (w_nick (w_hdr st b)) = map ToUpper (w_nick (w_hdr st a))" for b
    using that a assms by (simp add: watch_ok_def watch_chains_ok_def mycmp_zero_iff)
  have "(c, map ToUpper (w_nick (w_hdr st a))) \<in> watch_rel st \<longleftrightarrow> c \<in> set (w_watch (w_hdr st a))" for c
    unfolding watch_rel_iff using a same by metis
  then have rel: "{c. (c, map ToUpper (c_name (w_clients st p))) \<in> watch_rel st} = set (w_watch (w_hdr st a))"
    unfolding n by blast
  let ?st = "st\<lparr>w_hdr := (w_hdr st)(a := (w_hdr st a)\<lparr>w_lasttime := NOW\<rparr>)\<rparr>"
  have h: "w_watch (w_hdr ?st b) = w_watch (w_hdr st b)" "w_nick (w_hdr ?st b) = w_nick (w_hdr st b)"
    "hdrs ?st = hdrs st" for b by (auto simp: hdrs_def)
  have "watch_ok ?st" "watch_rel ?st = watch_rel st"
    using assms by (simp_all only: watch_ok_def watch_links_ok_def watch_rel_def watch_chains_ok_def h) auto
  moreover have "distinct (w_watch (w_hdr st a))" using assms a by (simp add: watch_ok_def watch_links_ok_def)
  ultimately show ?thesis using Some rel
    by (simp add: hash_check_watch_def Let_def comp_def)
qed

end
