(* ===== verification/Whowas.thy ===== *)
theory Whowas
  imports Client_Hash
begin

section \<open>Nickname history (src/src/whowas.c)\<close>

text \<open>
  The ring \<open>WHOWAS\<close> of the last \<open>NICKNAMEHISTORYLENGTH\<close> nicknames, threaded into the
  hash chains \<open>WHOWASHASH\<close> and, while the client is online, into the client's own list.
  Entries are named by their index in the ring.  The doubly linked removals take an entry that
  is on the list (the invariant \<open>whowas_ok\<close> shows that it is), so they are \<open>remove1\<close>.
\<close>

definition NICKNAMEHISTORYLENGTH :: nat where "NICKNAMEHISTORYLENGTH = 2048"

record aWhowas =
  ww_hashv :: int
  ww_name :: cstr
  ww_username :: cstr
  ww_hostname :: cstr
  ww_realhost :: cstr
  ww_servername :: cstr
  ww_realname :: cstr
  ww_logoff :: time_t
  ww_umode :: u32
  ww_online :: "addr option"

record whowas_state =
  WHOWAS :: "nat \<Rightarrow> aWhowas"
  WHOWASHASH :: "nat \<Rightarrow> nat list"
  whowas_next :: nat
  ww_clients :: clients

definition empty_whowas :: aWhowas where
  "empty_whowas = \<lparr>ww_hashv = - 1, ww_name = [], ww_username = [], ww_hostname = [], ww_realhost = [],
     ww_servername = [], ww_realname = [], ww_logoff = 0, ww_umode = 0, ww_online = None\<rparr>"

definition initwhowas :: "clients \<Rightarrow> whowas_state" where
  "initwhowas cs = \<lparr>WHOWAS = (\<lambda>_. empty_whowas), WHOWASHASH = (\<lambda>_. []), whowas_next = 0, ww_clients = cs\<rparr>"

definition add_whowas_to_clist :: "addr \<Rightarrow> nat \<Rightarrow> whowas_state \<Rightarrow> whowas_state" where
  "add_whowas_to_clist c i st =
     st\<lparr>ww_clients := (ww_clients st)(c := (ww_clients st c)\<lparr>c_whowas := i # c_whowas (ww_clients st c)\<rparr>)\<rparr>"

definition del_whowas_from_clist :: "addr \<Rightarrow> nat \<Rightarrow> whowas_state \<Rightarrow> whowas_state" where
  "del_whowas_from_clist c i st =
     st\<lparr>ww_clients := (ww_clients st)(c := (ww_clients st c)\<lparr>c_whowas := remove1 i (c_whowas (ww_clients st c))\<rparr>)\<rparr>"

definition add_whowas_to_list :: "nat \<Rightarrow> nat \<Rightarrow> whowas_state \<Rightarrow> whowas_state" where
  "add_whowas_to_list h i st = st\<lparr>WHOWASHASH := (WHOWASHASH st)(h := i # WHOWASHASH st h)\<rparr>"

definition del_whowas_from_list :: "nat \<Rightarrow> nat \<Rightarrow> whowas_state \<Rightarrow> whowas_state" where
  "del_whowas_from_list h i st = st\<lparr>WHOWASHASH := (WHOWASHASH st)(h := remove1 i (WHOWASHASH st h))\<rparr>"

text \<open>The first block of \<open>add_history\<close>: take the overwritten entry off its lists.\<close>

definition whowas_evict :: "nat \<Rightarrow> whowas_state \<Rightarrow> whowas_state" where
  "whowas_evict i st =
     (let e = WHOWAS st i in
      if ww_hashv e \<noteq> - 1
      then del_whowas_from_list (nat (ww_hashv e)) i
             (case ww_online e of Some c \<Rightarrow> del_whowas_from_clist c i st | None \<Rightarrow> st)
      else st)"

definition whowas_fill :: "time_t \<Rightarrow> aClient \<Rightarrow> anUser \<Rightarrow> addr option \<Rightarrow> aWhowas" where
  "whowas_fill NOW c u onl =
     \<lparr>ww_hashv = int (hash_whowas_name (c_name c)),
      ww_name = strncpyzt (c_name c) (NICKLEN + 1),
      ww_username = strncpyzt (u_username u) (USERLEN + 1),
      ww_hostname = strncpyzt (u_host u) HOSTLEN,
      ww_realhost = (if MyClient c then strncpyzt (c_sockhost c) HOSTLEN
                     else strncpyzt (u_realhost u) HOSTLEN),
      ww_servername = u_server u,
      ww_realname = strncpyzt (c_info c) REALLEN,
      ww_logoff = NOW,
      ww_umode = c_umode c,
      ww_online = onl\<rparr>"

text \<open>
  \<open>add_history\<close>; \<open>None\<close> is the access through the null \<open>cptr->user\<close>.
  (\<^verbatim>\<open>user->realhost\<close> is an array, so the test for a null \<open>realhost\<close> in the
  source is always true.)
\<close>

definition add_history :: "time_t \<Rightarrow> addr \<Rightarrow> bool \<Rightarrow> whowas_state \<Rightarrow> whowas_state option" where
  "add_history NOW cptr online st =
     (let new = whowas_next st;
          st1 = whowas_evict new st;
          c = ww_clients st1 cptr
      in case c_user c of
           None \<Rightarrow> None
         | Some u \<Rightarrow>
             (let e = whowas_fill NOW c u (if online then Some cptr else None);
                  st2 = st1\<lparr>WHOWAS := (WHOWAS st1)(new := e)\<rparr>;
                  st3 = (if online then add_whowas_to_clist cptr new st2 else st2);
                  st4 = add_whowas_to_list (nat (ww_hashv e)) new st3
              in Some (st4\<lparr>whowas_next :=
                   (if new + 1 = NICKNAMEHISTORYLENGTH then 0 else new + 1)\<rparr>)))"

fun off_history_loop :: "addr \<Rightarrow> nat list \<Rightarrow> whowas_state \<Rightarrow> whowas_state" where
  "off_history_loop c [] st = st"
| "off_history_loop c (temp # rest) st =
     off_history_loop c rest
       (del_whowas_from_clist c temp
          (st\<lparr>WHOWAS := (WHOWAS st)(temp := (WHOWAS st temp)\<lparr>ww_online := None\<rparr>)\<rparr>))"

definition off_history :: "addr \<Rightarrow> whowas_state \<Rightarrow> whowas_state" where
  "off_history cptr st = off_history_loop cptr (c_whowas (ww_clients st cptr)) st"

definition get_history :: "whowas_state \<Rightarrow> time_t \<Rightarrow> cstr \<Rightarrow> time_t \<Rightarrow> addr option" where
  "get_history st NOW nick timelimit =
     (case find (\<lambda>i. mycmp nick (ww_name (WHOWAS st i)) = 0 \<and> \<not> ww_logoff (WHOWAS st i) < NOW - timelimit)
            (WHOWASHASH st (hash_whowas_name nick)) of
        Some i \<Rightarrow> ww_online (WHOWAS st i)
      | None \<Rightarrow> None)"

text \<open>
  The search of \<open>m_whowas\<close> for one nickname: the entries reported, and the running count
  \<open>cur\<close>, which the limit \<open>max\<close> stops after any entry of the chain.
\<close>

fun whowas_search :: "whowas_state \<Rightarrow> cstr \<Rightarrow> int \<Rightarrow> nat list \<Rightarrow> int \<Rightarrow> nat list \<times> int" where
  "whowas_search st nick mx [] cur = ([], cur)"
| "whowas_search st nick mx (i # is) cur =
     (let hit = (mycmp nick (ww_name (WHOWAS st i)) = 0);
          cur1 = (if hit then cur + 1 else cur)
      in if mx > 0 \<and> cur1 \<ge> mx then (if hit then [i] else [], cur1)
         else (case whowas_search st nick mx is cur1 of
                 (found, cur2) \<Rightarrow> (if hit then i # found else found, cur2)))"

subsection \<open>Invariant\<close>

text \<open>How many entries were recorded after entry \<open>i\<close>.\<close>

definition ww_age :: "whowas_state \<Rightarrow> nat \<Rightarrow> nat" where
  "ww_age st i = (whowas_next st + (NICKNAMEHISTORYLENGTH - 1 - i)) mod NICKNAMEHISTORYLENGTH"

definition whowas_ok :: "whowas_state \<Rightarrow> bool" where
  "whowas_ok st \<longleftrightarrow>
     whowas_next st < NICKNAMEHISTORYLENGTH \<and>
     (\<forall>h. sorted_wrt (\<lambda>i j. ww_age st i < ww_age st j) (WHOWASHASH st h)) \<and>
     (\<forall>h. set (WHOWASHASH st h) =
        {i. i < NICKNAMEHISTORYLENGTH \<and> ww_hashv (WHOWAS st i) = int h}) \<and>
     (\<forall>i<NICKNAMEHISTORYLENGTH. ww_hashv (WHOWAS st i) = - 1 \<or>
        ww_hashv (WHOWAS st i) = int (hash_whowas_name (ww_name (WHOWAS st i)))) \<and>
     (\<forall>i<NICKNAMEHISTORYLENGTH. ww_hashv (WHOWAS st i) = - 1 \<longrightarrow> ww_online (WHOWAS st i) = None) \<and>
     (\<forall>c. distinct (c_whowas (ww_clients st c)) \<and> set (c_whowas (ww_clients st c)) =
        {i. i < NICKNAMEHISTORYLENGTH \<and> ww_online (WHOWAS st i) = Some c})"

lemma NHL_pos [simp]: "0 < NICKNAMEHISTORYLENGTH"
  by (simp add: NICKNAMEHISTORYLENGTH_def)

lemma whowas_ok_init:
  "(\<forall>c. c_whowas (cs c) = []) \<Longrightarrow> whowas_ok (initwhowas cs)"
  by (simp add: whowas_ok_def initwhowas_def empty_whowas_def)

lemma ww_age_eq:
  assumes "i < NICKNAMEHISTORYLENGTH" and "whowas_next st < NICKNAMEHISTORYLENGTH"
  shows "ww_age st i = (if i < whowas_next st then whowas_next st - 1 - i
                        else whowas_next st + (NICKNAMEHISTORYLENGTH - 1 - i))"
proof (cases "i < whowas_next st")
  case True
  then have "whowas_next st + (NICKNAMEHISTORYLENGTH - 1 - i) =
      (whowas_next st - 1 - i) + NICKNAMEHISTORYLENGTH"
    using assms by linarith
  moreover have "whowas_next st - 1 - i < NICKNAMEHISTORYLENGTH" using assms by linarith
  ultimately have "ww_age st i = whowas_next st - 1 - i" unfolding ww_age_def by simp
  with True show ?thesis by simp
next
  case False
  then have "whowas_next st + (NICKNAMEHISTORYLENGTH - 1 - i) < NICKNAMEHISTORYLENGTH"
    using assms by linarith
  with False show ?thesis unfolding ww_age_def by simp
qed

lemma sorted_wrt_remove1: "sorted_wrt P xs \<Longrightarrow> sorted_wrt P (remove1 x xs)"
  using set_remove1_subset by (induction xs) fastforce+

lemma sorted_age_distinct: "sorted_wrt (\<lambda>i j. (f i :: nat) < f j) xs \<Longrightarrow> distinct xs"
  by (induction xs) auto

text \<open>Fields of the states between the steps, for a well-formed ring.\<close>

lemma whowas_okD:
  assumes "whowas_ok st"
  shows whowas_next_less: "whowas_next st < NICKNAMEHISTORYLENGTH"
    and chain_sorted: "sorted_wrt (\<lambda>i j. ww_age st i < ww_age st j) (WHOWASHASH st h)"
    and chain_set: "set (WHOWASHASH st h) = {i. i < NICKNAMEHISTORYLENGTH \<and> ww_hashv (WHOWAS st i) = int h}"
    and clist_distinct: "distinct (c_whowas (ww_clients st c))"
    and clist_set: "set (c_whowas (ww_clients st c)) = {i. i < NICKNAMEHISTORYLENGTH \<and> ww_online (WHOWAS st i) = Some c}"
    and chain_distinct: "distinct (WHOWASHASH st h)"
proof -
  note ok = assms [unfolded whowas_ok_def]
  from ok show "whowas_next st < NICKNAMEHISTORYLENGTH" by simp
  from ok show s: "sorted_wrt (\<lambda>i j. ww_age st i < ww_age st j) (WHOWASHASH st h)" by simp
  from ok show "set (WHOWASHASH st h) = {i. i < NICKNAMEHISTORYLENGTH \<and> ww_hashv (WHOWAS st i) = int h}"
    by simp
  from ok show "distinct (c_whowas (ww_clients st c))" by simp
  from ok show "set (c_whowas (ww_clients st c)) =
      {i. i < NICKNAMEHISTORYLENGTH \<and> ww_online (WHOWAS st i) = Some c}" by simp
  from s show "distinct (WHOWASHASH st h)" by (rule sorted_age_distinct)
qed

lemma whowas_hashv_cases:
  assumes "whowas_ok st" and "i < NICKNAMEHISTORYLENGTH"
  obtains "ww_hashv (WHOWAS st i) = - 1" "ww_online (WHOWAS st i) = None"
    | h where "ww_hashv (WHOWAS st i) = int h" "h = hash_whowas_name (ww_name (WHOWAS st i))"
proof -
  note ok = assms(1) [unfolded whowas_ok_def]
  from ok assms(2) have "ww_hashv (WHOWAS st i) = - 1 \<or>
      ww_hashv (WHOWAS st i) = int (hash_whowas_name (ww_name (WHOWAS st i)))" by simp
  moreover from ok assms(2) have "ww_hashv (WHOWAS st i) = - 1 \<Longrightarrow> ww_online (WHOWAS st i) = None" by simp
  ultimately show thesis using that by blast
qed

lemma evict_fields:
  assumes ok: "whowas_ok st" and i: "i < NICKNAMEHISTORYLENGTH"
  shows evict_ring: "WHOWAS (whowas_evict i st) = WHOWAS st"
    and evict_next: "whowas_next (whowas_evict i st) = whowas_next st"
    and evict_chain: "WHOWASHASH (whowas_evict i st) h = remove1 i (WHOWASHASH st h)"
    and evict_client: "ww_clients (whowas_evict i st) c =
          (ww_clients st c)\<lparr>c_whowas := remove1 i (c_whowas (ww_clients st c))\<rparr>"
proof -
  show "WHOWAS (whowas_evict i st) = WHOWAS st" "whowas_next (whowas_evict i st) = whowas_next st"
    by (auto simp: whowas_evict_def Let_def del_whowas_from_list_def del_whowas_from_clist_def split: option.split)
  have off: "i \<notin> set (WHOWASHASH st h)" if "ww_hashv (WHOWAS st i) \<noteq> int h" for h
    using that chain_set [OF ok] by simp
  have offc: "i \<notin> set (c_whowas (ww_clients st c))" if "ww_online (WHOWAS st i) \<noteq> Some c" for c
    using that clist_set [OF ok] by simp
  show "WHOWASHASH (whowas_evict i st) h = remove1 i (WHOWASHASH st h)"
    using ok i by (rule whowas_hashv_cases)
      (auto simp: whowas_evict_def Let_def del_whowas_from_list_def del_whowas_from_clist_def off remove1_idem
        split: option.split)
  show "ww_clients (whowas_evict i st) c =
          (ww_clients st c)\<lparr>c_whowas := remove1 i (c_whowas (ww_clients st c))\<rparr>"
    using ok i by (rule whowas_hashv_cases)
      (auto simp: whowas_evict_def Let_def del_whowas_from_list_def del_whowas_from_clist_def offc remove1_idem
        split: option.split)
qed

text \<open>The whole of \<open>add_history\<close> on a well-formed ring, field by field.\<close>

lemma add_history_fields:
  assumes ok: "whowas_ok st" and u: "c_user (ww_clients st cptr) = Some u"
  obtains st' where "add_history NOW cptr online st = Some st'"
    and "WHOWAS st' = (WHOWAS st)(whowas_next st :=
           whowas_fill NOW (ww_clients st cptr) u (if online then Some cptr else None))"
    and "whowas_next st' = (if whowas_next st + 1 = NICKNAMEHISTORYLENGTH then 0 else whowas_next st + 1)"
    and "\<forall>h. WHOWASHASH st' h =
           (if h = hash_whowas_name (c_name (ww_clients st cptr)) then [whowas_next st] else [])
           @ remove1 (whowas_next st) (WHOWASHASH st h)"
    and "\<forall>c. ww_clients st' c = (ww_clients st c)\<lparr>c_whowas :=
           (if online \<and> c = cptr then [whowas_next st] else []) @
           remove1 (whowas_next st) (c_whowas (ww_clients st c))\<rparr>"
proof -
  let ?n = "whowas_next st" and ?st1 = "whowas_evict (whowas_next st) st"
  note ev = evict_fields [OF ok whowas_next_less [OF ok]]
  have fill: "whowas_fill NOW (c\<lparr>c_whowas := w\<rparr>) u onl = whowas_fill NOW c u onl" for c w onl
    by (simp add: whowas_fill_def status_defs)
  have hv: "ww_hashv (whowas_fill NOW c v onl) = int (hash_whowas_name (c_name c))" for c v onl
    by (simp add: whowas_fill_def)
  show thesis
    by (rule that [of "the (add_history NOW cptr online st)"])
      (auto simp: add_history_def Let_def ev u fill hv add_whowas_to_list_def add_whowas_to_clist_def)
qed

lemma ww_age_step:
  assumes "whowas_next st < NICKNAMEHISTORYLENGTH" and "i < NICKNAMEHISTORYLENGTH"
    and "whowas_next st' = (if whowas_next st + 1 = NICKNAMEHISTORYLENGTH then 0 else whowas_next st + 1)"
  shows "ww_age st' i = (if i = whowas_next st then 0 else ww_age st i + 1)"
proof -
  have "whowas_next st' < NICKNAMEHISTORYLENGTH" using assms by auto
  then show ?thesis
    using ww_age_eq [OF assms(2,1)] ww_age_eq [OF assms(2), of st'] assms by auto
qed

lemma hash_fill:
  "length (c_name c) \<le> NICKLEN \<Longrightarrow>
     ww_name (whowas_fill NOW c u onl) = c_name c \<and>
     ww_hashv (whowas_fill NOW c u onl) = int (hash_whowas_name (c_name c)) \<and>
     ww_logoff (whowas_fill NOW c u onl) = NOW \<and> ww_online (whowas_fill NOW c u onl) = onl"
  by (simp add: whowas_fill_def strncpyzt_def)

lemma add_history_ok:
  assumes ok: "whowas_ok st" and u: "c_user (ww_clients st cptr) = Some u"
    and len: "length (c_name (ww_clients st cptr)) \<le> NICKLEN"
    and st': "add_history NOW cptr online st = Some st'"
  shows "whowas_ok st'"
proof -
  let ?n = "whowas_next st" and ?c = "ww_clients st cptr"
  let ?e = "whowas_fill NOW ?c u (if online then Some cptr else None)"
  note n = whowas_next_less [OF ok]
  obtain s where s: "add_history NOW cptr online st = Some s" and ring: "WHOWAS s = (WHOWAS st)(?n := ?e)"
    and nx: "whowas_next s = (if ?n + 1 = NICKNAMEHISTORYLENGTH then 0 else ?n + 1)"
    and ch: "\<forall>h. WHOWASHASH s h = (if h = hash_whowas_name (c_name ?c) then [?n] else []) @ remove1 ?n (WHOWASHASH st h)"
    and cl: "\<forall>c. ww_clients s c = (ww_clients st c)\<lparr>c_whowas := (if online \<and> c = cptr then [?n] else []) @
           remove1 ?n (c_whowas (ww_clients st c))\<rparr>"
    by (rule add_history_fields [OF ok u, of NOW online]) (rule that)
  note e = hash_fill [OF len, of NOW u "if online then Some cptr else None"]
  note age = ww_age_step [OF n _ nx]
  have mem: "i < NICKNAMEHISTORYLENGTH \<and> i \<noteq> ?n" if "i \<in> set (remove1 ?n (WHOWASHASH st h))" for i h
    using that chain_set [OF ok] chain_distinct [OF ok, of h] by (simp add: set_remove1_eq)
  have older: "ww_age s i = ww_age st i + 1" if "i \<in> set (remove1 ?n (WHOWASHASH st h))" for i h
    using mem [OF that] age by simp
  have "sorted_wrt (\<lambda>i j. ww_age s i < ww_age s j) (WHOWASHASH s h)" for h
  proof -
    have "sorted_wrt (\<lambda>i j. ww_age s i < ww_age s j) (remove1 ?n (WHOWASHASH st h))"
      using sorted_wrt_remove1 [OF chain_sorted [OF ok, of h], of ?n]
      by (rule sorted_wrt_mono_rel [rotated]) (simp add: older)
    then show ?thesis using age [OF n] by (auto simp: ch older)
  qed
  moreover have "set (WHOWASHASH s h) = {i. i < NICKNAMEHISTORYLENGTH \<and> ww_hashv (WHOWAS s i) = int h}" for h
    using e n by (auto simp: ch ring chain_set [OF ok] chain_distinct [OF ok])
  moreover have "distinct (c_whowas (ww_clients s c))" for c
    by (auto simp: cl clist_distinct [OF ok] distinct_remove1)
  moreover have "set (c_whowas (ww_clients s c)) =
      {i. i < NICKNAMEHISTORYLENGTH \<and> ww_online (WHOWAS s i) = Some c}" for c
    using e n by (auto simp: cl ring clist_set [OF ok] clist_distinct [OF ok])
  moreover have "whowas_next s < NICKNAMEHISTORYLENGTH" using nx n by auto
  moreover have "ww_hashv (WHOWAS s i) = - 1 \<and> ww_online (WHOWAS s i) = None \<or>
      ww_hashv (WHOWAS s i) = int (hash_whowas_name (ww_name (WHOWAS s i)))"
    if "i < NICKNAMEHISTORYLENGTH" for i
    using ok that by (rule whowas_hashv_cases) (use e in \<open>auto simp: ring\<close>)
  ultimately have "whowas_ok s" unfolding whowas_ok_def by (smt (verit) of_nat_0_le_iff)
  with s st' show ?thesis by simp
qed

lemma off_loop_fields:
  "distinct xs \<Longrightarrow>
   WHOWASHASH (off_history_loop c xs st) = WHOWASHASH st \<and>
   whowas_next (off_history_loop c xs st) = whowas_next st \<and>
   WHOWAS (off_history_loop c xs st) =
     (\<lambda>i. if i \<in> set xs then (WHOWAS st i)\<lparr>ww_online := None\<rparr> else WHOWAS st i) \<and>
   ww_clients (off_history_loop c xs st) =
     (ww_clients st)(c := (ww_clients st c)\<lparr>c_whowas := foldr remove1 (rev xs) (c_whowas (ww_clients st c))\<rparr>)"
  by (induction xs arbitrary: st) (auto simp: del_whowas_from_clist_def fun_eq_iff)

lemma foldr_remove1_self: "foldr remove1 (rev xs) xs = []"
  by (induction xs) simp_all

lemma off_history_fields:
  assumes "whowas_ok st"
  shows "WHOWASHASH (off_history c st) = WHOWASHASH st \<and> whowas_next (off_history c st) = whowas_next st \<and>
   WHOWAS (off_history c st) =
     (\<lambda>i. if i \<in> set (c_whowas (ww_clients st c)) then (WHOWAS st i)\<lparr>ww_online := None\<rparr> else WHOWAS st i) \<and>
   ww_clients (off_history c st) = (ww_clients st)(c := (ww_clients st c)\<lparr>c_whowas := []\<rparr>)"
  using off_loop_fields [OF clist_distinct [OF assms]] by (simp add: off_history_def foldr_remove1_self)

lemma off_history_ok:
  assumes ok: "whowas_ok st"
  shows "whowas_ok (off_history c st)"
proof -
  note f = off_history_fields [OF ok, of c]
  have age: "ww_age (off_history c st) = ww_age st" using f by (simp add: ww_age_def fun_eq_iff)
  have hv: "ww_hashv (WHOWAS (off_history c st) i) = ww_hashv (WHOWAS st i)"
    "ww_name (WHOWAS (off_history c st) i) = ww_name (WHOWAS st i)"
    "ww_online (WHOWAS (off_history c st) i) =
       (if i \<in> set (c_whowas (ww_clients st c)) then None else ww_online (WHOWAS st i))" for i
    using f by simp_all
  have "set (c_whowas (ww_clients (off_history c st) d)) =
      {i. i < NICKNAMEHISTORYLENGTH \<and> ww_online (WHOWAS (off_history c st) i) = Some d}" for d
    using f by (auto simp: hv clist_set [OF ok])
  moreover have "distinct (c_whowas (ww_clients (off_history c st) d))" for d
    using f clist_distinct [OF ok, of d] by simp
  ultimately show ?thesis using ok f unfolding whowas_ok_def age hv by simp
qed

subsection \<open>Properties\<close>

text \<open>
  C30: the nickname history stays well formed (every ring entry on exactly the chain of its name,
  chains ordered from the latest record to the oldest, every client's list holding exactly the
  entries that point at it): from the empty history, through recording a registered client with
  a nickname of legal length (which always succeeds), also when the ring wraps around and an
  entry in use is overwritten, and through \<open>off_history\<close>.
\<close>

theorem whowas_history_invariant:
  "((\<forall>c. c_whowas (cs c) = []) \<longrightarrow> whowas_ok (initwhowas cs)) \<and>
   (whowas_ok st \<and> c_user (ww_clients st p) = Some u \<and> length (c_name (ww_clients st p)) \<le> NICKLEN \<longrightarrow>
      (\<exists>st'. add_history NOW p online st = Some st' \<and> whowas_ok st')) \<and>
   (whowas_ok st \<longrightarrow> whowas_ok (off_history p st))"
proof (intro conjI impI)
  assume a: "whowas_ok st \<and> c_user (ww_clients st p) = Some u \<and> length (c_name (ww_clients st p)) \<le> NICKLEN"
  then obtain st' where "add_history NOW p online st = Some st'"
    using add_history_fields [of st p u NOW online] by blast
  with a add_history_ok [of st p u NOW online st'] show "\<exists>st'. add_history NOW p online st = Some st' \<and> whowas_ok st'"
    by blast
qed (simp_all add: whowas_ok_init off_history_ok)

definition example_whowas :: whowas_state where
  "example_whowas = initwhowas (\<lambda>_. (example_client ''Nick'')\<lparr>c_user := Some example_user\<rparr>)"

lemma example_whowas_facts:
  "whowas_ok example_whowas" "c_user (ww_clients example_whowas p) = Some example_user"
  "c_name (ww_clients example_whowas p) = ''Nick''" "length ''Nick'' \<le> NICKLEN"
proof -
  show "whowas_ok example_whowas"
    unfolding example_whowas_def by (rule whowas_ok_init) (simp add: example_client_def)
qed (simp_all add: example_whowas_def example_client_def initwhowas_def NICKLEN_def)

theorem whowas_history_invariant_witness:
  "\<exists>st'. add_history 5 3 True example_whowas = Some st' \<and> whowas_ok st'"
  using whowas_history_invariant [of "\<lambda>_. example_client []" example_whowas 3 example_user 5 True]
    example_whowas_facts by simp

text \<open>
  After a client has been recorded as online, \<open>get_history\<close> finds that very client under
  its nickname in any case for every non-negative time limit, however many older records of the
  name exist.
\<close>

lemma get_history_latest:
  assumes ok: "whowas_ok st" and u: "c_user (ww_clients st p) = Some u"
    and len: "length (c_name (ww_clients st p)) \<le> NICKLEN"
    and st': "add_history NOW p True st = Some st'"
    and nick: "mycmp nick (c_name (ww_clients st p)) = 0" and lim: "NOW' - timelimit \<le> NOW"
  shows "get_history st' NOW' nick timelimit = Some p"
proof -
  obtain s where s: "add_history NOW p True st = Some s"
    and ring: "WHOWAS s = (WHOWAS st)(whowas_next st :=
           whowas_fill NOW (ww_clients st p) u (if True then Some p else None))"
    and ch: "\<forall>h. WHOWASHASH s h = (if h = hash_whowas_name (c_name (ww_clients st p)) then [whowas_next st] else [])
           @ remove1 (whowas_next st) (WHOWASHASH st h)"
    by (rule add_history_fields [OF ok u, of NOW True]) (erule that, assumption+)
  have "hash_whowas_name nick = hash_whowas_name (c_name (ww_clients st p))"
    using nick by (rule mycmp_hash_whowas_name)
  then show ?thesis using s st' hash_fill [OF len, of NOW u "Some p"] nick lim
    by (simp add: get_history_def ch ring)
qed

text \<open>
  No dangling pointer: once \<open>off_history\<close> has run for a client that is about to be freed,
  no entry of the ring refers to it and \<open>get_history\<close> never returns it, for any nickname and
  limit; the answers that were other clients and the chains searched by WHOWAS are unchanged.
\<close>

lemma off_history_no_dangling:
  assumes ok: "whowas_ok st"
  shows "(\<forall>i<NICKNAMEHISTORYLENGTH. ww_online (WHOWAS (off_history p st) i) \<noteq> Some p) \<and>
     get_history (off_history p st) NOW nick lim =
       (if get_history st NOW nick lim = Some p then None else get_history st NOW nick lim) \<and>
     WHOWASHASH (off_history p st) = WHOWASHASH st"
proof -
  note f = off_history_fields [OF ok, of p]
  let ?h = "hash_whowas_name nick"
  let ?P = "\<lambda>st i. mycmp nick (ww_name (WHOWAS st i)) = 0 \<and> \<not> ww_logoff (WHOWAS st i) < NOW - lim"
  have P: "?P (off_history p st) = ?P st" using f by (simp add: fun_eq_iff)
  have "get_history (off_history p st) NOW nick lim =
       (if get_history st NOW nick lim = Some p then None else get_history st NOW nick lim)"
  proof (cases "find (?P st) (WHOWASHASH st ?h)")
    case None
    then show ?thesis using f P unfolding get_history_def by simp
  next
    case (Some i)
    then have "i < NICKNAMEHISTORYLENGTH" using find_SomeD chain_set [OF ok, of ?h] by fastforce
    then have "i \<in> set (c_whowas (ww_clients st p)) \<longleftrightarrow> ww_online (WHOWAS st i) = Some p"
      using clist_set [OF ok] by simp
    then show ?thesis using f P Some unfolding get_history_def by simp
  qed
  then show ?thesis using f clist_set [OF ok, of p] by auto
qed

end
