(* ===== verification/Generic_Hash.thy ===== *)
theory Generic_Hash
  imports Chain_Table Client_Types
begin

section \<open>The generic hash table (src/src/throttle.c, first half)\<close>

text \<open>
  The table the throttles and the clone entries live in.  A table element is an address; the
  key inside the element, which the C code finds at \<open>keyoffset\<close>, is given by the accessor
  \<open>key\<close> passed to the operations.  A string key is the list of its bytes before the NUL,
  a binary key (\<open>keylen\<close> set, no \<open>HASH_FL_STRING\<close>) the list of its \<open>keylen\<close>
  bytes.  Bytes are added to the hash as \<^verbatim>\<open>char\<close>, which is signed on the platforms the
  server is built for.
\<close>

definition HASH_FL_NOCASE :: u32 where "HASH_FL_NOCASE = 0x1"
definition HASH_FL_STRING :: u32 where "HASH_FL_STRING = 0x2"

record hash_table =
  ht_size :: nat
  ht_table :: "nat \<Rightarrow> addr list"
  ht_keylen :: nat
  ht_flags :: u32
  ht_cmpfunc :: "cstr \<Rightarrow> cstr \<Rightarrow> int"

text \<open>\<^verbatim>\<open>strcmp\<close> of the C library, which promises the sign of the result only.\<close>

fun strcmp :: "cstr \<Rightarrow> cstr \<Rightarrow> int" where
  "strcmp [] [] = 0"
| "strcmp (c # s) [] = 1"
| "strcmp [] (d # t) = - 1"
| "strcmp (c # s) (d # t) =
     (if c = d then strcmp s t else if of_char c < (of_char d :: nat) then - 1 else 1)"

definition signed_char :: "char \<Rightarrow> u32" where
  "signed_char c = (if of_char c < (128::nat) then of_nat (of_char c) else of_nat (of_char c) - 256)"

definition create_hash_table :: "nat \<Rightarrow> nat \<Rightarrow> u32 \<Rightarrow> (cstr \<Rightarrow> cstr \<Rightarrow> int) \<Rightarrow> hash_table" where
  "create_hash_table elems len flags cmpfunc =
     \<lparr>ht_size = elems, ht_table = (\<lambda>_. []), ht_keylen = len, ht_flags = flags, ht_cmpfunc = cmpfunc\<rparr>"

definition key_hash_len :: "hash_table \<Rightarrow> cstr \<Rightarrow> nat" where
  "key_hash_len table rkey =
     (if ht_keylen table = 0 then length rkey
      else if has_flag (ht_flags table) HASH_FL_STRING
      then (if length rkey > ht_keylen table then ht_keylen table else length rkey)
      else ht_keylen table)"

definition hash_get_key_hash :: "hash_table \<Rightarrow> cstr \<Rightarrow> nat" where
  "hash_get_key_hash table rkey =
     (let add = (if has_flag (ht_flags table) HASH_FL_NOCASE
                 then (\<lambda>c. of_nat (ToLower c)) else signed_char);
          hash = foldl (\<lambda>h c. h * 33 + add c) (0::u32) (take (key_hash_len table rkey) rkey)
      in unat hash mod ht_size table)"

definition hash_insert :: "(addr \<Rightarrow> cstr) \<Rightarrow> hash_table \<Rightarrow> addr \<Rightarrow> int \<times> hash_table" where
  "hash_insert key table ent =
     (let h = hash_get_key_hash table (key ent) in
      (1, table\<lparr>ht_table := (ht_table table)(h := ent # ht_table table h)\<rparr>))"

definition hash_delete :: "(addr \<Rightarrow> cstr) \<Rightarrow> hash_table \<Rightarrow> addr \<Rightarrow> int \<times> hash_table" where
  "hash_delete key table ent =
     (let h = hash_get_key_hash table (key ent) in
      if ent \<notin> set (ht_table table h) then (0, table)
      else (1, table\<lparr>ht_table := (ht_table table)(h := remove1 ent (ht_table table h))\<rparr>))"

definition hash_find :: "(addr \<Rightarrow> cstr) \<Rightarrow> hash_table \<Rightarrow> cstr \<Rightarrow> addr option" where
  "hash_find key table k =
     find (\<lambda>ent. ht_cmpfunc table (key ent) k = 0) (ht_table table (hash_get_key_hash table k))"

text \<open>\<open>resize_hash_table\<close>: the old buckets are emptied one entry after the other into the new array.\<close>

fun resize_bucket :: "(addr \<Rightarrow> cstr) \<Rightarrow> addr list \<Rightarrow> hash_table \<Rightarrow> hash_table" where
  "resize_bucket key [] table = table"
| "resize_bucket key (ent # rest) table = resize_bucket key rest (snd (hash_insert key table ent))"

fun resize_loop :: "(addr \<Rightarrow> cstr) \<Rightarrow> (nat \<Rightarrow> addr list) \<Rightarrow> nat list \<Rightarrow> hash_table \<Rightarrow> hash_table" where
  "resize_loop key oldtable [] table = table"
| "resize_loop key oldtable (i # is) table = resize_loop key oldtable is (resize_bucket key (oldtable i) table)"

definition resize_hash_table :: "(addr \<Rightarrow> cstr) \<Rightarrow> hash_table \<Rightarrow> nat \<Rightarrow> hash_table" where
  "resize_hash_table key table elems =
     resize_loop key (ht_table table) [0..<ht_size table]
       (table\<lparr>ht_size := elems, ht_table := (\<lambda>_. [])\<rparr>)"

subsection \<open>The table as a chained table\<close>

text \<open>
  The tables of the server are created with \<open>HASH_FL_STRING\<close> and \<open>strcmp\<close>.  The
  hash then depends on the size, the key length and the flags only, and meets the contract of
  chained tables.
\<close>

definition string_table :: "hash_table \<Rightarrow> bool" where
  "string_table t \<longleftrightarrow> 0 < ht_size t \<and> ht_cmpfunc t = strcmp"

lemma strcmp_zero_iff [simp]: "strcmp s t = 0 \<longleftrightarrow> s = t"
  by (induction s t rule: strcmp.induct) auto

lemma chain_hash_string:
  assumes "string_table t"
  shows "chain_hash (hash_get_key_hash t) (=) (ht_size t)"
  by unfold_locales (use assms in \<open>auto simp: string_table_def hash_get_key_hash_def Let_def\<close>)

lemma hash_get_key_hash_cong:
  "ht_size t = ht_size u \<Longrightarrow> ht_keylen t = ht_keylen u \<Longrightarrow> ht_flags t = ht_flags u \<Longrightarrow>
     hash_get_key_hash t = hash_get_key_hash u"
  by (simp add: hash_get_key_hash_def key_hash_len_def fun_eq_iff)

definition ht_entries :: "hash_table \<Rightarrow> addr set" where
  "ht_entries t = entries (ht_table t)"

text \<open>Every element in the bucket of its key, no two elements with the same key, no repetition.\<close>

definition ht_ok :: "(addr \<Rightarrow> cstr) \<Rightarrow> hash_table \<Rightarrow> bool" where
  "ht_ok key t \<longleftrightarrow> string_table t \<and>
     (\<forall>h. \<forall>e\<in>set (ht_table t h). hash_get_key_hash t (key e) = h) \<and>
     (\<forall>e\<in>ht_entries t. \<forall>f\<in>ht_entries t. key e = key f \<longrightarrow> e = f) \<and>
     (\<forall>h. distinct (ht_table t h))"

lemma ht_okD:
  assumes "ht_ok key t"
  shows ht_ok_string: "string_table t"
    and ht_ok_place: "e \<in> set (ht_table t h) \<Longrightarrow> hash_get_key_hash t (key e) = h"
    and ht_ok_uniq: "e \<in> ht_entries t \<Longrightarrow> f \<in> ht_entries t \<Longrightarrow> key e = key f \<Longrightarrow> e = f"
    and ht_ok_distinct: "distinct (ht_table t h)"
  using assms unfolding ht_ok_def by blast+

lemma ht_okI:
  assumes "string_table t" and "\<And>e h. e \<in> set (ht_table t h) \<Longrightarrow> hash_get_key_hash t (key e) = h"
    and "\<And>e f. e \<in> ht_entries t \<Longrightarrow> f \<in> ht_entries t \<Longrightarrow> key e = key f \<Longrightarrow> e = f"
    and "\<And>h. distinct (ht_table t h)"
  shows "ht_ok key t"
  using assms unfolding ht_ok_def by blast

lemma ht_ok_iff:
  "ht_ok key t \<longleftrightarrow> string_table t \<and>
     chain_hash.placed (hash_get_key_hash t) key (ht_table t) \<and>
     chain_hash.uniq (=) key (ht_table t) \<and> (\<forall>h. distinct (ht_table t h))"
proof (cases "string_table t")
  case True
  show ?thesis
    by (simp add: ht_ok_def ht_entries_def chain_hash.placed_def [OF chain_hash_string [OF True]]
        chain_hash.uniq_def [OF chain_hash_string [OF True]])
qed (simp add: ht_ok_def)

lemma hash_find_lookup:
  "string_table t \<Longrightarrow> hash_find key t k =
     chain_hash.lookup (hash_get_key_hash t) (=) key (ht_table t) k"
  using chain_hash.lookup_def [OF chain_hash_string, of t key "ht_table t" k]
  by (simp add: hash_find_def string_table_def eq_commute [of k])

lemma ht_ok_create:
  "0 < n \<Longrightarrow> ht_ok key (create_hash_table n len flags strcmp)"
  by (simp add: ht_ok_def create_hash_table_def string_table_def ht_entries_def entries_def)

lemma ht_entries_create: "ht_entries (create_hash_table n len flags cmp) = {}"
  by (simp add: ht_entries_def entries_def create_hash_table_def)

lemma hash_find_exact:
  assumes "ht_ok key t"
  shows "hash_find key t k = Some e \<longleftrightarrow> e \<in> ht_entries t \<and> key e = k"
  using chain_hash.lookup_exact [OF chain_hash_string, of t key "ht_table t" k e] assms
  by (auto simp: ht_ok_iff hash_find_lookup ht_entries_def)

lemma hash_find_None:
  assumes "ht_ok key t"
  shows "hash_find key t k = None \<longleftrightarrow> (\<forall>e\<in>ht_entries t. key e \<noteq> k)"
  using hash_find_exact [OF assms, of k] by (metis not_None_eq)

lemma ht_entries_insert: "ht_entries (snd (hash_insert key t e)) = insert e (ht_entries t)"
  by (simp add: hash_insert_def Let_def ht_entries_def entries_push)

lemma hash_insert_params [simp]:
  "ht_size (snd (hash_insert key t e)) = ht_size t" "ht_keylen (snd (hash_insert key t e)) = ht_keylen t"
  "ht_flags (snd (hash_insert key t e)) = ht_flags t" "ht_cmpfunc (snd (hash_insert key t e)) = ht_cmpfunc t"
  "hash_get_key_hash (snd (hash_insert key t e)) = hash_get_key_hash t"
  by (auto simp: hash_insert_def Let_def intro!: hash_get_key_hash_cong)

lemma hash_delete_params [simp]:
  "ht_size (snd (hash_delete key t e)) = ht_size t" "ht_keylen (snd (hash_delete key t e)) = ht_keylen t"
  "ht_flags (snd (hash_delete key t e)) = ht_flags t" "ht_cmpfunc (snd (hash_delete key t e)) = ht_cmpfunc t"
  "hash_get_key_hash (snd (hash_delete key t e)) = hash_get_key_hash t"
  by (auto simp: hash_delete_def Let_def intro!: hash_get_key_hash_cong)

lemma ht_ok_insert:
  assumes ok: "ht_ok key t" and new: "\<forall>f\<in>ht_entries t. key f \<noteq> key e"
  shows "ht_ok key (snd (hash_insert key t e))"
proof -
  have e: "e \<notin> set (ht_table t h)" for h using new by (auto simp: ht_entries_def entries_iff)
  then have "distinct (ht_table (snd (hash_insert key t e)) h)" for h
    using ok by (simp add: hash_insert_def Let_def ht_ok_def)
  moreover have "hash_get_key_hash t (key f) = h" if "f \<in> set (ht_table (snd (hash_insert key t e)) h)" for f h
    using ok that by (auto simp: hash_insert_def Let_def ht_ok_def split: if_splits)
  ultimately show ?thesis
    using ok new by (auto simp: ht_ok_def ht_entries_insert string_table_def)
qed

lemma ht_entries_delete:
  assumes "ht_ok key t"
  shows "ht_entries (snd (hash_delete key t e)) = ht_entries t - {e}"
proof (cases "e \<in> set (ht_table t (hash_get_key_hash t (key e)))")
  case True
  then show ?thesis
    using chain_hash.entries_remove1 [OF chain_hash_string, of t key "ht_table t" e] assms
    by (simp add: ht_ok_iff hash_delete_def Let_def ht_entries_def)
next
  case False
  then have "e \<notin> ht_entries t" using assms by (auto simp: ht_ok_def ht_entries_def entries_iff)
  with False show ?thesis by (simp add: hash_delete_def Let_def)
qed

lemma ht_ok_delete:
  assumes ok: "ht_ok key t"
  shows "ht_ok key (snd (hash_delete key t e))"
proof -
  have sub: "set (ht_table (snd (hash_delete key t e)) h) \<subseteq> set (ht_table t h)" for h
    using set_upd_remove1 [of "ht_table t" "hash_get_key_hash t (key e)" e h] by (auto simp: hash_delete_def Let_def)
  show ?thesis
  proof (rule ht_okI)
    show "string_table (snd (hash_delete key t e))" using ht_ok_string [OF ok] by (simp add: string_table_def)
    show "distinct (ht_table (snd (hash_delete key t e)) h)" for h
      using ht_ok_distinct [OF ok] by (simp add: hash_delete_def Let_def distinct_remove1)
    show "hash_get_key_hash (snd (hash_delete key t e)) (key f) = h"
      if "f \<in> set (ht_table (snd (hash_delete key t e)) h)" for f h
      using sub [of h] that ht_ok_place [OF ok, of f h] by auto
    show "f = g" if "f \<in> ht_entries (snd (hash_delete key t e))"
      "g \<in> ht_entries (snd (hash_delete key t e))" "key f = key g" for f g
      using that ht_ok_uniq [OF ok, of f g] by (simp add: ht_entries_delete [OF ok])
  qed
qed

lemma hash_delete_result:
  "ht_ok key t \<Longrightarrow> fst (hash_delete key t e) = (if e \<in> ht_entries t then 1 else 0)"
proof -
  assume ok: "ht_ok key t"
  have "e \<in> ht_entries t \<longleftrightarrow> e \<in> set (ht_table t (hash_get_key_hash t (key e)))"
    using ht_ok_place [OF ok, of e] unfolding ht_entries_def entries_iff by metis
  then show ?thesis by (simp add: hash_delete_def Let_def)
qed

lemma ht_ok_key_cong:
  assumes "\<And>e. e \<in> ht_entries t \<Longrightarrow> key e = key' e"
  shows "ht_ok key t = ht_ok key' t"
proof -
  have "key e = key' e" if "e \<in> set (ht_table t h)" for e h
    using that assms by (auto simp: ht_entries_def entries_iff)
  then show ?thesis using assms by (simp add: ht_ok_def)
qed

subsection \<open>Resizing\<close>

lemma resize_bucket_ok:
  "ht_ok key t \<Longrightarrow> inj_on key (ht_entries t \<union> set xs) \<Longrightarrow> distinct xs \<Longrightarrow> ht_entries t \<inter> set xs = {} \<Longrightarrow>
     ht_ok key (resize_bucket key xs t) \<and>
     ht_entries (resize_bucket key xs t) = ht_entries t \<union> set xs \<and>
     ht_size (resize_bucket key xs t) = ht_size t"
proof (induction xs arbitrary: t)
  case (Cons e xs)
  have "\<forall>f\<in>ht_entries t. key f \<noteq> key e" using Cons.prems(2,4) by (auto simp: inj_on_def)
  with Cons.prems(1) have ok: "ht_ok key (snd (hash_insert key t e))" by (rule ht_ok_insert)
  have "inj_on key (ht_entries (snd (hash_insert key t e)) \<union> set xs)"
    using Cons.prems(2) by (simp add: ht_entries_insert)
  moreover have "ht_entries (snd (hash_insert key t e)) \<inter> set xs = {}"
    using Cons.prems(3,4) by (auto simp: ht_entries_insert)
  ultimately show ?case using Cons.IH [OF ok] Cons.prems(3) by (simp add: ht_entries_insert)
qed simp

lemma resize_loop_ok:
  "ht_ok key t \<Longrightarrow> inj_on key (ht_entries t \<union> (\<Union>i\<in>set is. set (old i))) \<Longrightarrow> distinct is \<Longrightarrow>
   \<forall>i\<in>set is. distinct (old i) \<and> ht_entries t \<inter> set (old i) = {} \<Longrightarrow>
   \<forall>i\<in>set is. \<forall>j\<in>set is. i \<noteq> j \<longrightarrow> set (old i) \<inter> set (old j) = {} \<Longrightarrow>
     ht_ok key (resize_loop key old is t) \<and>
     ht_entries (resize_loop key old is t) = ht_entries t \<union> (\<Union>i\<in>set is. set (old i)) \<and>
     ht_size (resize_loop key old is t) = ht_size t"
proof (induction "is" arbitrary: t)
  case (Cons i "is")
  have b: "ht_ok key (resize_bucket key (old i) t) \<and>
     ht_entries (resize_bucket key (old i) t) = ht_entries t \<union> set (old i) \<and>
     ht_size (resize_bucket key (old i) t) = ht_size t"
    by (rule resize_bucket_ok) (use Cons.prems in \<open>auto elim: inj_on_subset\<close>)
  have "inj_on key (ht_entries (resize_bucket key (old i) t) \<union> (\<Union>i\<in>set is. set (old i)))"
    using Cons.prems(2) b by (simp add: Un_assoc)
  moreover have "\<forall>j\<in>set is. distinct (old j) \<and> ht_entries (resize_bucket key (old i) t) \<inter> set (old j) = {}"
    using Cons.prems(3,4,5) b by fastforce
  ultimately show ?case using Cons.IH [of "resize_bucket key (old i) t"] Cons.prems(3,5) b by auto
qed simp

lemma resize_ok:
  assumes ok: "ht_ok key t" and n: "0 < n"
  shows "ht_ok key (resize_hash_table key t n) \<and>
    ht_entries (resize_hash_table key t n) = ht_entries t \<and> ht_size (resize_hash_table key t n) = n"
proof -
  let ?t0 = "t\<lparr>ht_size := n, ht_table := (\<lambda>_. [])\<rparr>"
  have t0: "ht_ok key ?t0" "ht_entries ?t0 = {}"
    using ok n by (auto simp: ht_ok_def string_table_def ht_entries_def entries_def)
  have place: "hash_get_key_hash t (key e) = h" if "e \<in> set (ht_table t h)" for e h
    using ok that by (simp add: ht_ok_def)
  have "h < ht_size t" if "e \<in> set (ht_table t h)" for e h
    using place [OF that] chain_hash.hash_bound [OF chain_hash_string] ok by (metis ht_ok_def)
  then have all: "(\<Union>i\<in>set [0..<ht_size t]. set (ht_table t i)) = ht_entries t"
    by (fastforce simp: ht_entries_def entries_iff)
  have inj: "inj_on key (ht_entries t)" using ok by (auto simp: ht_ok_def inj_on_def)
  have "set (ht_table t i) \<inter> set (ht_table t j) = {}" if "i \<noteq> j" for i j
    using place that by blast
  then show ?thesis
    using resize_loop_ok [OF t0(1), of "ht_table t" "[0..<ht_size t]"] t0(2) all inj ht_ok_distinct [OF ok]
    by (simp add: resize_hash_table_def)
qed

text \<open>The table both clients create: \<open>THROTTLE_HASHSIZE\<close> buckets, keys of at most \<open>HOSTIPLEN\<close> bytes.\<close>

definition THROTTLE_HASHSIZE :: nat where "THROTTLE_HASHSIZE = 25147"

definition ip_table :: hash_table where
  "ip_table = create_hash_table THROTTLE_HASHSIZE HOSTIPLEN HASH_FL_STRING strcmp"

interpretation ipt: chain_hash "hash_get_key_hash ip_table" "(=)" THROTTLE_HASHSIZE
proof -
  have "string_table ip_table" "ht_size ip_table = THROTTLE_HASHSIZE"
    by (simp_all add: string_table_def ip_table_def create_hash_table_def THROTTLE_HASHSIZE_def)
  then show "chain_hash (hash_get_key_hash ip_table) (=) THROTTLE_HASHSIZE"
    using chain_hash_string [of ip_table] by simp
qed

lemma ip_table_ok: "ht_ok key ip_table \<and> ht_entries ip_table = {}"
  by (simp add: ip_table_def ht_ok_create ht_entries_create THROTTLE_HASHSIZE_def)

subsection \<open>Properties\<close>

text \<open>
  The generic table is a finite map keyed by strings: on a consistent table \<open>hash_find\<close>
  returns exactly the element with the key asked for; inserting an element with a new key and
  deleting any element keep the table consistent and change the elements by exactly that one;
  \<open>hash_delete\<close> answers 1 if and only if the element was there.
\<close>

lemma generic_hash_map:
  assumes "ht_ok key t"
  shows "(hash_find key t k = Some e \<longleftrightarrow> e \<in> ht_entries t \<and> key e = k) \<and>
    (hash_find key t (key f) = None \<longrightarrow> ht_ok key (snd (hash_insert key t f)) \<and>
       ht_entries (snd (hash_insert key t f)) = insert f (ht_entries t)) \<and>
    ht_ok key (snd (hash_delete key t f)) \<and> ht_entries (snd (hash_delete key t f)) = ht_entries t - {f} \<and>
    fst (hash_delete key t f) = (if f \<in> ht_entries t then 1 else 0)"
  using assms
  by (simp add: hash_find_exact hash_find_None ht_ok_insert ht_entries_insert ht_ok_delete
      ht_entries_delete hash_delete_result)

text \<open>
  Resizing the table to any positive number of buckets moves every element into the bucket
  of the new size and changes the answer of no lookup.
\<close>

lemma resize_keeps_lookups:
  assumes "ht_ok key t" and "0 < n"
  shows "ht_ok key (resize_hash_table key t n) \<and> ht_size (resize_hash_table key t n) = n \<and>
    (\<forall>k. hash_find key (resize_hash_table key t n) k = hash_find key t k)"
proof -
  note r = resize_ok [OF assms]
  have "hash_find key (resize_hash_table key t n) k = Some e \<longleftrightarrow> hash_find key t k = Some e" for k e
    using r assms(1) by (simp add: hash_find_exact)
  then have "hash_find key (resize_hash_table key t n) k = hash_find key t k" for k
    by (metis not_None_eq)
  with r show ?thesis by blast
qed

end
