(* ===== verification/Throttle.thy ===== *)
theory Throttle
  imports Generic_Hash
begin

section \<open>Connection throttling (src/src/throttle.c, second half)\<close>

text \<open>
  Per-address records of recent connections, kept both in the generic hash table and on the list
  \<open>throttles\<close>.  The abstract view is the map \<open>throttle_of\<close> from addresses to records.
  Allocation returns an address that is not in use (the next one); a freed record keeps its
  bytes.  \<open>None\<close> as the result of an operation is the \<^verbatim>\<open>strcpy\<close> of an address
  longer than the field \<open>addr\<close>.
\<close>

definition THROTTLE_TRIGCOUNT :: int where "THROTTLE_TRIGCOUNT = 3"
definition THROTTLE_TRIGTIME :: int where "THROTTLE_TRIGTIME = 15"
definition THROTTLE_RECORDTIME :: int where "THROTTLE_RECORDTIME = 1800"

record throttle =
  t_addr :: cstr
  t_conns :: int
  t_first :: time_t
  t_last :: time_t
  t_zline_start :: time_t
  t_stage :: int
  t_re_zlines :: int

record throttle_state =
  throttle_hash :: hash_table
  th_store :: "addr \<Rightarrow> throttle"
  throttles :: "addr list"
  numthrottles :: int
  throttle_tcount :: int
  throttle_ttime :: int
  throttle_rtime :: int
  throttle_enable :: bool
  th_next :: addr

text \<open>The messages of \<open>throttle_check\<close>: the notice to the operators and the three lines sent to the peer.\<close>

datatype throttle_event =
    ThrottledConns cstr int int int int
  | NoticeThrottled int
  | NoticeLonger
  | ErrorThrottled

definition throttle_init :: "(addr \<Rightarrow> throttle) \<Rightarrow> throttle_state" where
  "throttle_init mem =
     \<lparr>throttle_hash = create_hash_table THROTTLE_HASHSIZE HOSTIPLEN HASH_FL_STRING strcmp,
      th_store = mem, throttles = [], numthrottles = 0, throttle_tcount = THROTTLE_TRIGCOUNT,
      throttle_ttime = THROTTLE_TRIGTIME, throttle_rtime = THROTTLE_RECORDTIME,
      throttle_enable = True, th_next = 0\<rparr>"

definition throttle_get_zline_time :: "int \<Rightarrow> int" where
  "throttle_get_zline_time stage =
     (if stage = - 1 then 0 else if stage = 0 then 120 else if stage = 1 then 300
      else if stage = 2 then 900 else if stage = 3 then 1800 else 3600)"

abbreviation th_key :: "throttle_state \<Rightarrow> addr \<Rightarrow> cstr" where
  "th_key st a \<equiv> t_addr (th_store st a)"

definition throttle_find :: "throttle_state \<Rightarrow> cstr \<Rightarrow> addr option" where
  "throttle_find st host = hash_find (th_key st) (throttle_hash st) host"

definition th_update :: "addr \<Rightarrow> throttle \<Rightarrow> throttle_state \<Rightarrow> throttle_state" where
  "th_update a t st = st\<lparr>th_store := (th_store st)(a := t)\<rparr>"

text \<open>The deletion shared by \<open>throttle_remove\<close> and \<open>throttle_timer\<close>.\<close>

definition throttle_delete :: "addr \<Rightarrow> throttle_state \<Rightarrow> throttle_state" where
  "throttle_delete tp st =
     st\<lparr>throttles := remove1 tp (throttles st),
        throttle_hash := snd (hash_delete (th_key st) (throttle_hash st) tp),
        numthrottles := numthrottles st - 1\<rparr>"

definition throttle_remove :: "cstr \<Rightarrow> throttle_state \<Rightarrow> throttle_state" where
  "throttle_remove host st =
     (case throttle_find st host of Some tp \<Rightarrow> throttle_delete tp st | None \<Rightarrow> st)"

text \<open>The creation shared by \<open>throttle_force\<close> and \<open>throttle_check\<close>.\<close>

definition throttle_new :: "cstr \<Rightarrow> time_t \<Rightarrow> throttle_state \<Rightarrow> throttle_state" where
  "throttle_new host first st =
     (let tp = th_next st;
          st1 = th_update tp ((th_store st tp)\<lparr>t_addr := host, t_stage := - 1, t_zline_start := 0,
                  t_conns := 0, t_first := first, t_re_zlines := 0\<rparr>) st
      in st1\<lparr>throttle_hash := snd (hash_insert (th_key st1) (throttle_hash st1) tp),
             throttles := tp # throttles st1, numthrottles := numthrottles st1 + 1,
             th_next := Suc tp\<rparr>)"

definition throttle_force :: "time_t \<Rightarrow> cstr \<Rightarrow> throttle_state \<Rightarrow> throttle_state option" where
  "throttle_force NOW host st =
     (let force = (\<lambda>tp st. th_update tp ((th_store st tp)\<lparr>t_conns := - 1, t_last := NOW, t_first := NOW\<rparr>) st)
      in case throttle_find st host of
           Some tp \<Rightarrow> Some (force tp st)
         | None \<Rightarrow> if length host > HOSTIPLEN then None
                   else Some (force (th_next st) (throttle_new host NOW st)))"

text \<open>
  The second half of \<open>throttle_check\<close>, from counting the connection on, as a function of the
  record it works on.
\<close>

definition throttle_count ::
  "int \<Rightarrow> int \<Rightarrow> int \<Rightarrow> time_t \<Rightarrow> throttle \<Rightarrow> int \<times> throttle \<times> throttle_event list" where
  "throttle_count tcount ttime fd sotime t =
     (let tp = t\<lparr>t_conns := (if t_conns t \<ge> 0 then t_conns t + 1 else t_conns t), t_last := sotime\<rparr> in
      if sotime - t_first tp > ttime then (1, tp\<lparr>t_conns := 1, t_first := sotime\<rparr>, [])
      else if t_conns tp = - 1 then (0, tp, [])
      else if t_conns tp \<ge> tcount then
        if fd \<noteq> - 1 then
          (let stage = t_stage tp + 1; zlength = throttle_get_zline_time stage in
           (0, tp\<lparr>t_stage := stage, t_zline_start := sotime\<rparr>,
            [ThrottledConns (t_addr tp) (t_conns tp) (sotime - t_first tp) (zlength div 60) (stage + 1),
             NoticeThrottled (zlength div 60)] @
            (if throttle_get_zline_time (stage + 1) \<noteq> zlength then [NoticeLonger] else []) @
            [ErrorThrottled]))
        else (0, tp, [])
      else (1, tp, []))"

definition throttle_count_at ::
  "int \<Rightarrow> time_t \<Rightarrow> addr \<Rightarrow> throttle \<Rightarrow> throttle_state \<Rightarrow> int \<times> throttle_state \<times> throttle_event list" where
  "throttle_count_at fd sotime tp t st =
     (case throttle_count (throttle_tcount st) (throttle_ttime st) fd sotime t of
        (r, t', ev) \<Rightarrow> (r, th_update tp t' st, ev))"

definition throttle_check ::
  "time_t \<Rightarrow> cstr \<Rightarrow> int \<Rightarrow> time_t \<Rightarrow> throttle_state \<Rightarrow> (int \<times> throttle_state \<times> throttle_event list) option" where
  "throttle_check NOW host fd sotime0 st =
     (if \<not> throttle_enable st then Some (1, st, [])
      else if fd = - 1 \<and> NOW - sotime0 > throttle_ttime st then Some (1, st, [])
      else
        (let sotime = (if sotime0 > NOW then NOW else sotime0) in
         case throttle_find st host of
           None \<Rightarrow>
             if length host > HOSTIPLEN then None
             else (let st1 = throttle_new host sotime st in
                   Some (throttle_count_at fd sotime (th_next st) (th_store st1 (th_next st)) st1))
         | Some tp \<Rightarrow>
             (let t = th_store st tp in
              if t_zline_start t \<noteq> 0 then
                if sotime - t_zline_start t < throttle_get_zline_time (t_stage t) then
                  if fd = - 1 then Some (0, st, [])
                  else Some (0, th_update tp (t\<lparr>t_re_zlines := t_re_zlines t + 1, t_zline_start := sotime\<rparr>) st, [])
                else Some (throttle_count_at fd sotime tp
                             (t\<lparr>t_conns := 0, t_first := sotime, t_zline_start := 0\<rparr>) st)
              else Some (throttle_count_at fd sotime tp t st))))"

definition throttle_expired :: "throttle_state \<Rightarrow> time_t \<Rightarrow> throttle \<Rightarrow> bool" where
  "throttle_expired st now t \<longleftrightarrow>
     now = 0 \<or>
     (t_zline_start t \<noteq> 0 \<and>
        now - t_zline_start t \<ge> throttle_get_zline_time (t_stage t) + throttle_rtime st) \<or>
     (t_zline_start t = 0 \<and> now - t_last t \<ge> throttle_rtime st)"

fun throttle_timer_loop :: "time_t \<Rightarrow> addr list \<Rightarrow> throttle_state \<Rightarrow> throttle_state" where
  "throttle_timer_loop now [] st = st"
| "throttle_timer_loop now (tp # tps) st =
     throttle_timer_loop now tps
       (if throttle_expired st now (th_store st tp) then throttle_delete tp st else st)"

definition throttle_timer :: "time_t \<Rightarrow> throttle_state \<Rightarrow> throttle_state" where
  "throttle_timer now st =
     (if \<not> throttle_enable st then st else throttle_timer_loop now (throttles st) st)"

definition throttle_rehash :: "throttle_state \<Rightarrow> throttle_state" where
  "throttle_rehash st = throttle_timer 0 st"

definition throttle_resize :: "nat \<Rightarrow> throttle_state \<Rightarrow> throttle_state" where
  "throttle_resize sz st = st\<lparr>throttle_hash := resize_hash_table (th_key st) (throttle_hash st) sz\<rparr>"

text \<open>What \<open>throttle_stats\<close> reports: the totals, and the throttled addresses with their
  stage, remaining seconds and futile retries.\<close>

definition throttle_stats ::
  "time_t \<Rightarrow> throttle_state \<Rightarrow> int \<times> nat \<times> nat \<times> nat \<times> (cstr \<times> int \<times> int \<times> int) list" where
  "throttle_stats NOW st =
     (let ts = map (th_store st) (throttles st) in
      (numthrottles st, ht_size (throttle_hash st),
       length (filter (\<lambda>t. t_zline_start t = 0) ts), length (filter (\<lambda>t. t_zline_start t \<noteq> 0) ts),
       map (\<lambda>t. (t_addr t, t_stage t, t_zline_start t + throttle_get_zline_time (t_stage t) - NOW, t_re_zlines t))
         (filter (\<lambda>t. t_zline_start t \<noteq> 0 \<and> t_zline_start t + throttle_get_zline_time (t_stage t) > NOW) ts)))"

subsection \<open>Invariant and abstract view\<close>

definition throttle_ok :: "throttle_state \<Rightarrow> bool" where
  "throttle_ok st \<longleftrightarrow>
     ht_ok (th_key st) (throttle_hash st) \<and> ht_entries (throttle_hash st) = set (throttles st) \<and>
     distinct (throttles st) \<and> numthrottles st = int (length (throttles st)) \<and>
     (\<forall>a\<in>set (throttles st). a < th_next st)"

definition throttle_of :: "throttle_state \<Rightarrow> cstr \<Rightarrow> throttle option" where
  "throttle_of st host = map_option (th_store st) (throttle_find st host)"

lemma throttle_find_exact:
  "throttle_ok st \<Longrightarrow> throttle_find st h = Some a \<longleftrightarrow> a \<in> set (throttles st) \<and> th_key st a = h"
  using hash_find_exact [of "th_key st" "throttle_hash st" h a] by (simp add: throttle_ok_def throttle_find_def)

lemma throttle_find_None:
  "throttle_ok st \<Longrightarrow> throttle_find st h = None \<longleftrightarrow> (\<forall>a\<in>set (throttles st). th_key st a \<noteq> h)"
  using hash_find_None [of "th_key st" "throttle_hash st" h] by (simp add: throttle_ok_def throttle_find_def)

lemma throttle_of_Some:
  "throttle_ok st \<Longrightarrow> throttle_of st h = Some t \<longleftrightarrow>
     (\<exists>a\<in>set (throttles st). th_store st a = t \<and> t_addr t = h)"
  by (auto simp: throttle_of_def throttle_find_exact)

text \<open>Two consistent states with the same records show the same map.\<close>

lemma throttle_of_eqI:
  assumes "throttle_ok st" and "throttle_ok st'" and
    "\<And>t. (\<exists>a\<in>set (throttles st'). th_store st' a = t) \<longleftrightarrow> (\<exists>a\<in>set (throttles st). th_store st a = t)"
  shows "throttle_of st' = throttle_of st"
proof
  fix h
  have "throttle_of st' h = Some t \<longleftrightarrow> throttle_of st h = Some t" for t
    using assms(3) [of t] by (auto simp: throttle_of_Some assms(1,2))
  then show "throttle_of st' h = throttle_of st h" by (metis not_None_eq)
qed

lemma throttle_init_ok: "throttle_ok (throttle_init mem) \<and> throttle_of (throttle_init mem) = (\<lambda>_. None)"
proof -
  have "throttle_ok (throttle_init mem)"
    using ip_table_ok [of "th_key (throttle_init mem)"]
    by (simp add: throttle_ok_def throttle_init_def ip_table_def)
  moreover have "throttles (throttle_init mem) = []" by (simp add: throttle_init_def)
  ultimately show ?thesis using throttle_of_Some by (fastforce simp: fun_eq_iff)
qed

text \<open>Updating a record without changing its address.\<close>

lemma th_update_ok:
  assumes ok: "throttle_ok st" and t: "t_addr t = th_key st a"
  shows "throttle_ok (th_update a t st)"
    and "a \<in> set (throttles st) \<Longrightarrow> throttle_of (th_update a t st) = (throttle_of st)(t_addr t \<mapsto> t)"
proof -
  have key: "th_key (th_update a t st) = th_key st" using t by (auto simp: th_update_def)
  have f: "throttle_hash (th_update a t st) = throttle_hash st" "throttles (th_update a t st) = throttles st"
    by (simp_all add: th_update_def)
  show "throttle_ok (th_update a t st)" using ok key by (simp add: throttle_ok_def th_update_def)
  have find: "throttle_find (th_update a t st) h = throttle_find st h" for h
    unfolding throttle_find_def key f ..
  have store: "th_store (th_update a t st) = (th_store st)(a := t)" by (simp add: th_update_def)
  assume a: "a \<in> set (throttles st)"
  show "throttle_of (th_update a t st) = (throttle_of st)(t_addr t \<mapsto> t)"
  proof
    fix h
    show "throttle_of (th_update a t st) h = ((throttle_of st)(t_addr t \<mapsto> t)) h"
    proof (cases "h = t_addr t")
      case True
      then have "throttle_find st h = Some a" using ok a t by (simp add: throttle_find_exact)
      with True show ?thesis by (simp add: throttle_of_def find store)
    next
      case False
      then have "throttle_find st h \<noteq> Some a" using ok t by (simp add: throttle_find_exact)
      with False show ?thesis
        by (cases "throttle_find st h") (auto simp: throttle_of_def find store)
    qed
  qed
qed

lemma throttle_new_fields:
  "throttles (throttle_new h f st) = th_next st # throttles st"
  "th_next (throttle_new h f st) = Suc (th_next st)"
  "numthrottles (throttle_new h f st) = numthrottles st + 1"
  "throttle_tcount (throttle_new h f st) = throttle_tcount st"
  "throttle_ttime (throttle_new h f st) = throttle_ttime st"
  "th_store (throttle_new h f st) = (th_store st)(th_next st :=
     (th_store st (th_next st))\<lparr>t_addr := h, t_stage := - 1, t_zline_start := 0, t_conns := 0, t_first := f, t_re_zlines := 0\<rparr>)"
  by (simp_all add: throttle_new_def Let_def th_update_def)

lemma throttle_new_ok:
  assumes ok: "throttle_ok st" and new: "throttle_find st h = None"
  shows "throttle_ok (throttle_new h f st)"
proof -
  let ?st1 = "th_update (th_next st) ((th_store st (th_next st))\<lparr>t_addr := h, t_stage := - 1, t_zline_start := 0,
                  t_conns := 0, t_first := f, t_re_zlines := 0\<rparr>) st"
  have fresh: "th_next st \<notin> set (throttles st)" using ok by (auto simp: throttle_ok_def)
  have "th_key ?st1 a = th_key st a" if "a \<in> ht_entries (throttle_hash st)" for a
    using that ok fresh by (auto simp: throttle_ok_def th_update_def)
  then have "ht_ok (th_key ?st1) (throttle_hash st)"
    using ok ht_ok_key_cong [of "throttle_hash st" "th_key ?st1" "th_key st"] unfolding throttle_ok_def by blast
  moreover have "\<forall>a\<in>ht_entries (throttle_hash st). th_key ?st1 a \<noteq> th_key ?st1 (th_next st)"
    using ok fresh new by (auto simp: throttle_find_None th_update_def) (auto simp: throttle_ok_def)
  ultimately have "ht_ok (th_key ?st1) (snd (hash_insert (th_key ?st1) (throttle_hash st) (th_next st)))"
    by (rule ht_ok_insert)
  then show ?thesis using ok fresh
    by (auto simp: throttle_ok_def throttle_new_def Let_def ht_entries_insert th_update_def)
qed

lemma throttle_delete_fields:
  "throttles (throttle_delete tp st) = remove1 tp (throttles st)"
  "th_store (throttle_delete tp st) = th_store st" "throttle_rtime (throttle_delete tp st) = throttle_rtime st"
  "throttle_enable (throttle_delete tp st) = throttle_enable st"
  by (simp_all add: throttle_delete_def)

lemma throttle_delete_ok:
  assumes ok: "throttle_ok st" and tp: "tp \<in> set (throttles st)"
  shows "throttle_ok (throttle_delete tp st)"
  using ok tp length_remove1_mem [OF tp]
  by (auto simp: throttle_ok_def throttle_delete_def ht_ok_delete ht_entries_delete distinct_remove1)

lemma throttle_delete_of:
  assumes ok: "throttle_ok st" and tp: "tp \<in> set (throttles st)"
  shows "throttle_of (throttle_delete tp st) = (throttle_of st)(th_key st tp := None)"
proof
  fix h
  have ok': "throttle_ok (throttle_delete tp st)" using assms by (rule throttle_delete_ok)
  have inj: "a = tp" if "a \<in> set (throttles st)" "th_key st a = th_key st tp" for a
    using ok tp that ht_ok_uniq [of "th_key st" "throttle_hash st" a tp] by (auto simp: throttle_ok_def)
  have rest: "set (throttles (throttle_delete tp st)) = set (throttles st) - {tp}"
    using ok by (simp add: throttle_delete_fields throttle_ok_def)
  have "throttle_of (throttle_delete tp st) h = Some t \<longleftrightarrow>
      (\<exists>a\<in>set (throttles st) - {tp}. th_store st a = t \<and> t_addr t = h)" for t
    unfolding throttle_of_Some [OF ok'] rest unfolding throttle_delete_fields ..
  then have "throttle_of (throttle_delete tp st) h = Some t \<longleftrightarrow> ((throttle_of st)(th_key st tp := None)) h = Some t" for t
    using inj by (auto simp: throttle_of_Some [OF ok])
  then show "throttle_of (throttle_delete tp st) h = ((throttle_of st)(th_key st tp := None)) h"
    by (metis not_None_eq)
qed

lemma throttle_of_new:
  assumes ok: "throttle_ok st" and new: "throttle_find st h = None"
  shows "throttle_of (throttle_new h f st) = (throttle_of st)(h \<mapsto> th_store (throttle_new h f st) (th_next st))"
proof
  fix k
  let ?st = "throttle_new h f st"
  have ok': "throttle_ok ?st" using assms by (rule throttle_new_ok)
  have fresh: "th_next st \<notin> set (throttles st)" using ok by (auto simp: throttle_ok_def)
  have none: "th_key st a \<noteq> h" if "a \<in> set (throttles st)" for a
    using that new throttle_find_None [OF ok] by blast
  have "throttle_of ?st k = Some t \<longleftrightarrow> ((throttle_of st)(h \<mapsto> th_store ?st (th_next st))) k = Some t" for t
    using fresh none unfolding throttle_of_Some [OF ok'] fun_upd_apply
    by (auto simp: throttle_of_Some [OF ok] throttle_new_fields)
  then show "throttle_of ?st k = ((throttle_of st)(h \<mapsto> th_store ?st (th_next st))) k"
    by (metis not_None_eq)
qed

subsection \<open>The throttle of one address\<close>

text \<open>
  What \<open>throttle_check\<close> does, on the abstract map: one address, its record before and after.
\<close>

definition fresh_throttle :: "cstr \<Rightarrow> time_t \<Rightarrow> throttle" where
  "fresh_throttle host first =
     \<lparr>t_addr = host, t_conns = 0, t_first = first, t_last = first, t_zline_start = 0, t_stage = - 1, t_re_zlines = 0\<rparr>"

definition check_spec ::
  "int \<Rightarrow> int \<Rightarrow> time_t \<Rightarrow> cstr \<Rightarrow> int \<Rightarrow> time_t \<Rightarrow> throttle option \<Rightarrow> int \<times> throttle option" where
  "check_spec tcount ttime NOW host fd sotime0 r =
     (if fd = - 1 \<and> NOW - sotime0 > ttime then (1, r)
      else
        (let sotime = min sotime0 NOW;
             t = (case r of None \<Rightarrow> fresh_throttle host sotime | Some t \<Rightarrow> t)
         in if t_zline_start t \<noteq> 0 \<and> sotime - t_zline_start t < throttle_get_zline_time (t_stage t)
            then (0, Some (if fd = - 1 then t
                           else t\<lparr>t_re_zlines := t_re_zlines t + 1, t_zline_start := sotime\<rparr>))
            else (let c = throttle_count tcount ttime fd sotime
                            (if t_zline_start t \<noteq> 0
                             then t\<lparr>t_conns := 0, t_first := sotime, t_zline_start := 0\<rparr> else t)
                  in (fst c, Some (fst (snd c))))))"

lemma throttle_count_addr: "t_addr (fst (snd (throttle_count tc tt fd s t))) = t_addr t"
  by (simp add: throttle_count_def Let_def)

lemma count_at_spec:
  assumes ok: "throttle_ok st" and a: "a \<in> set (throttles st)" and t: "t_addr t = th_key st a"
    and c: "throttle_count_at fd s a t st = (r, st', ev)"
  shows "throttle_ok st' \<and> r = fst (throttle_count (throttle_tcount st) (throttle_ttime st) fd s t) \<and>
    throttle_of st' = (throttle_of st)(t_addr t \<mapsto> fst (snd (throttle_count (throttle_tcount st) (throttle_ttime st) fd s t)))"
proof -
  obtain t' where t': "throttle_count (throttle_tcount st) (throttle_ttime st) fd s t = (r, t', ev)"
    and st': "st' = th_update a t' st"
    using c by (auto simp: throttle_count_at_def split: prod.splits)
  have "t_addr t' = th_key st a" using throttle_count_addr [of "throttle_tcount st" "throttle_ttime st" fd s t] t t' by simp
  then show ?thesis using th_update_ok [OF ok, of t' a] a t t' st' by simp
qed

lemma throttle_check_refines:
  assumes ok: "throttle_ok st" and en: "throttle_enable st"
    and len: "throttle_find st host = None \<Longrightarrow> length host \<le> HOSTIPLEN"
  shows "\<exists>r st' ev. throttle_check NOW host fd sotime st = Some (r, st', ev) \<and> throttle_ok st' \<and>
    r = fst (check_spec (throttle_tcount st) (throttle_ttime st) NOW host fd sotime (throttle_of st host)) \<and>
    throttle_of st' = (throttle_of st)(host :=
      snd (check_spec (throttle_tcount st) (throttle_ttime st) NOW host fd sotime (throttle_of st host)))"
proof (cases "fd = - 1 \<and> NOW - sotime > throttle_ttime st")
  case True
  then show ?thesis using ok en by (simp add: throttle_check_def check_spec_def)
next
  case nold: False
  let ?s = "min sotime NOW" and ?C = "throttle_count (throttle_tcount st) (throttle_ttime st) fd (min sotime NOW)"
  have s: "(if sotime > NOW then NOW else sotime) = ?s" by simp
  show ?thesis
  proof (cases "throttle_find st host")
    case None
    let ?st = "throttle_new host ?s st" and ?a = "th_next st"
    let ?t = "th_store ?st ?a"
    obtain r st' ev where c: "throttle_count_at fd ?s ?a ?t ?st = (r, st', ev)" by (metis prod_cases3)
    have a: "?a \<in> set (throttles ?st)" "t_addr ?t = host" by (simp_all add: throttle_new_fields)
    have cnt: "?C ?t = ?C (fresh_throttle host ?s)"
      by (simp add: throttle_new_fields fresh_throttle_def throttle_count_def Let_def)
    note sp = count_at_spec [OF throttle_new_ok [OF ok None] a(1) refl c, unfolded throttle_new_fields(4,5)]
    have of': "throttle_of st' = (throttle_of st)(host \<mapsto> fst (snd (?C ?t)))"
      using sp a(2) throttle_of_new [OF ok None, of ?s] by simp
    have "throttle_check NOW host fd sotime st = Some (r, st', ev)"
      using nold None en len c unfolding throttle_check_def Let_def s by auto
    moreover have "throttle_of st host = None" using None by (simp add: throttle_of_def)
    moreover have "check_spec (throttle_tcount st) (throttle_ttime st) NOW host fd sotime None =
        (fst (?C ?t), Some (fst (snd (?C ?t))))"
      using nold unfolding cnt check_spec_def Let_def by (auto simp: fresh_throttle_def)
    ultimately show ?thesis using sp of' by simp
  next
    case (Some a)
    let ?t = "th_store st a"
    have a: "a \<in> set (throttles st)" "t_addr ?t = host" and th: "throttle_of st host = Some ?t"
      using Some ok by (auto simp: throttle_find_exact throttle_of_def)
    show ?thesis
    proof (cases "t_zline_start ?t \<noteq> 0 \<and> ?s - t_zline_start ?t < throttle_get_zline_time (t_stage ?t)")
      case True
      let ?u = "?t\<lparr>t_re_zlines := t_re_zlines ?t + 1, t_zline_start := ?s\<rparr>"
      have "throttle_check NOW host fd sotime st = Some (0, if fd = - 1 then st else th_update a ?u st, [])"
        using nold True en Some unfolding throttle_check_def Let_def s by auto
      moreover have "(throttle_of st)(host \<mapsto> ?t) = throttle_of st" using th by (simp add: fun_upd_idem)
      ultimately show ?thesis using nold True ok th a th_update_ok [OF ok, of ?u a]
        by (simp add: check_spec_def Let_def)
    next
      case False
      let ?u = "if t_zline_start ?t \<noteq> 0 then ?t\<lparr>t_conns := 0, t_first := ?s, t_zline_start := 0\<rparr> else ?t"
      obtain r st' ev where c: "throttle_count_at fd ?s a ?u st = (r, st', ev)" by (metis prod_cases3)
      have "throttle_check NOW host fd sotime st = Some (r, st', ev)"
        using nold False en Some c unfolding throttle_check_def Let_def s by auto
      moreover have "t_addr ?u = host" using a(2) by simp
      moreover have "check_spec (throttle_tcount st) (throttle_ttime st) NOW host fd sotime (Some ?t) =
          (fst (?C ?u), Some (fst (snd (?C ?u))))"
        unfolding check_spec_def Let_def option.case by (simp only: nold False if_False)
      ultimately show ?thesis using th count_at_spec [OF ok a(1) _ c] a(2) by simp
    qed
  qed
qed

lemma throttle_check_disabled: "\<not> throttle_enable st \<Longrightarrow> throttle_check NOW host fd s st = Some (1, st, [])"
  by (simp add: throttle_check_def)

lemma throttle_force_refines:
  assumes ok: "throttle_ok st" and len: "throttle_find st host = None \<Longrightarrow> length host \<le> HOSTIPLEN"
  shows "\<exists>st'. throttle_force NOW host st = Some st' \<and> throttle_ok st' \<and>
    throttle_of st' = (throttle_of st)(host \<mapsto>
      (case throttle_of st host of None \<Rightarrow> fresh_throttle host NOW | Some t \<Rightarrow> t)
        \<lparr>t_conns := - 1, t_last := NOW, t_first := NOW\<rparr>)"
proof (cases "throttle_find st host")
  case None
  let ?st = "throttle_new host NOW st" and ?a = "th_next st"
  let ?u = "(th_store ?st ?a)\<lparr>t_conns := - 1, t_last := NOW, t_first := NOW\<rparr>"
  have "throttle_force NOW host st = Some (th_update ?a ?u ?st)" using None len by (simp add: throttle_force_def)
  moreover have "t_addr ?u = th_key ?st ?a" "t_addr ?u = host" "?a \<in> set (throttles ?st)"
    by (simp_all add: throttle_new_fields)
  moreover have "?u = (fresh_throttle host NOW)\<lparr>t_conns := - 1, t_last := NOW, t_first := NOW\<rparr>"
    by (simp add: throttle_new_fields fresh_throttle_def)
  ultimately show ?thesis
    using th_update_ok [OF throttle_new_ok [OF ok None, of NOW], of ?u ?a] throttle_of_new [OF ok None, of NOW] None
    by (simp add: throttle_of_def [of st])
next
  case (Some a)
  let ?u = "(th_store st a)\<lparr>t_conns := - 1, t_last := NOW, t_first := NOW\<rparr>"
  have a: "a \<in> set (throttles st)" "th_key st a = host" and th: "throttle_of st host = Some (th_store st a)"
    using Some ok by (auto simp: throttle_find_exact throttle_of_def)
  then show ?thesis using Some th_update_ok [OF ok, of ?u a] by (simp add: throttle_force_def)
qed

lemma throttle_remove_refines:
  assumes ok: "throttle_ok st"
  shows "throttle_ok (throttle_remove host st) \<and> throttle_of (throttle_remove host st) = (throttle_of st)(host := None)"
proof (cases "throttle_find st host")
  case None
  then have "throttle_of st host = None" by (simp add: throttle_of_def)
  then have "(throttle_of st)(host := None) = throttle_of st" by (auto simp: fun_eq_iff)
  with None ok show ?thesis by (simp add: throttle_remove_def)
next
  case (Some a)
  then have a: "a \<in> set (throttles st)" "th_key st a = host" using ok by (auto simp: throttle_find_exact)
  with Some show ?thesis
    using throttle_delete_ok [OF ok a(1)] throttle_delete_of [OF ok a(1)] by (simp add: throttle_remove_def)
qed

lemma throttle_timer_loop_ok:
  "throttle_ok st \<Longrightarrow> set tps \<subseteq> set (throttles st) \<Longrightarrow> distinct tps \<Longrightarrow>
   throttle_ok (throttle_timer_loop now tps st) \<and>
   throttle_rtime (throttle_timer_loop now tps st) = throttle_rtime st \<and>
   th_store (throttle_timer_loop now tps st) = th_store st \<and>
   set (throttles (throttle_timer_loop now tps st)) =
     {a \<in> set (throttles st). \<not> (a \<in> set tps \<and> throttle_expired st now (th_store st a))}"
proof (induction tps arbitrary: st)
  case (Cons tp tps)
  let ?st = "if throttle_expired st now (th_store st tp) then throttle_delete tp st else st"
  have ok: "throttle_ok ?st" using Cons.prems throttle_delete_ok by auto
  have d: "distinct (throttles st)" using Cons.prems(1) by (simp add: throttle_ok_def)
  have f: "throttle_rtime ?st = throttle_rtime st" "th_store ?st = th_store st"
    "set (throttles ?st) = set (throttles st) - (if throttle_expired st now (th_store st tp) then {tp} else {})"
    using d by (auto simp: throttle_delete_fields)
  have ex: "throttle_expired ?st = throttle_expired st"
    using f(1) by (auto simp: throttle_expired_def fun_eq_iff)
  have "set tps \<subseteq> set (throttles ?st)" using Cons.prems f(3) by auto
  with Cons.IH [OF ok] Cons.prems(3) f ex show ?case by auto
qed simp

lemma option_filter_eqI:
  assumes "\<And>t. x = Some t \<longleftrightarrow> y = Some t \<and> \<not> E t"
  shows "x = (case y of Some t \<Rightarrow> if E t then None else Some t | None \<Rightarrow> None)"
proof (cases x)
  case None
  with assms show ?thesis by (cases y) auto
next
  case (Some t)
  with assms [of t] show ?thesis by simp
qed

lemma throttle_timer_refines:
  assumes ok: "throttle_ok st" and en: "throttle_enable st"
  shows "throttle_ok (throttle_timer now st) \<and>
    throttle_of (throttle_timer now st) host =
      (case throttle_of st host of
         Some t \<Rightarrow> if throttle_expired st now t then None else Some t | None \<Rightarrow> None)"
proof -
  have "distinct (throttles st)" using ok by (simp add: throttle_ok_def)
  then have l: "throttle_ok (throttle_timer now st)" "th_store (throttle_timer now st) = th_store st"
    "set (throttles (throttle_timer now st)) = {a \<in> set (throttles st). \<not> throttle_expired st now (th_store st a)}"
    using throttle_timer_loop_ok [OF ok, of "throttles st" now] en by (auto simp: throttle_timer_def)
  have "throttle_of (throttle_timer now st) host = Some t \<longleftrightarrow>
      throttle_of st host = Some t \<and> \<not> throttle_expired st now t" for t
    unfolding throttle_of_Some [OF l(1)] throttle_of_Some [OF ok] l by auto
  then have "throttle_of (throttle_timer now st) host =
      (case throttle_of st host of
         Some t \<Rightarrow> if throttle_expired st now t then None else Some t | None \<Rightarrow> None)"
    by (rule option_filter_eqI)
  with l(1) show ?thesis by blast
qed

lemma throttle_resize_refines:
  assumes ok: "throttle_ok st" and n: "0 < n"
  shows "throttle_ok (throttle_resize n st) \<and> throttle_of (throttle_resize n st) = throttle_of st"
proof -
  have "throttle_ok (throttle_resize n st)"
    using ok n resize_ok [of "th_key st" "throttle_hash st" n] by (simp add: throttle_ok_def throttle_resize_def)
  then show ?thesis using throttle_of_eqI [OF ok] by (simp add: throttle_resize_def)
qed

subsection \<open>Runs of connections\<close>

text \<open>Local connections (from \<open>add_connection\<close>, with a file descriptor and sign-on time now) of one
  address at the given times, and the answers of \<open>throttle_check\<close>.\<close>

fun connect_run :: "cstr \<Rightarrow> int \<Rightarrow> time_t list \<Rightarrow> throttle_state \<Rightarrow> (int list \<times> throttle_state) option" where
  "connect_run host fd [] st = Some ([], st)"
| "connect_run host fd (t # ts) st =
     (case throttle_check t host fd t st of
        None \<Rightarrow> None
      | Some (r, st', _) \<Rightarrow>
          (case connect_run host fd ts st' of None \<Rightarrow> None | Some (rs, st'') \<Rightarrow> Some (r # rs, st'')))"

lemma check_params:
  assumes "throttle_check NOW host fd s st = Some (r, st', ev)"
  shows "throttle_tcount st' = throttle_tcount st \<and> throttle_ttime st' = throttle_ttime st \<and>
    throttle_enable st' = throttle_enable st"
proof -
  have "throttle_tcount (fst (snd x)) = throttle_tcount st \<and> throttle_ttime (fst (snd x)) = throttle_ttime st \<and>
      throttle_enable (fst (snd x)) = throttle_enable st"
    if "throttle_check NOW host fd s st = Some x" for x
    using that
    by (auto simp: throttle_check_def throttle_count_at_def throttle_new_def th_update_def Let_def
        split: if_splits option.splits prod.splits)
  from this [OF assms] show ?thesis by simp
qed

text \<open>The two phases of a burst: counting, then z-lined.\<close>

definition counting :: "time_t \<Rightarrow> int \<Rightarrow> throttle option \<Rightarrow> bool" where
  "counting t0 k r \<longleftrightarrow>
     (case r of
        None \<Rightarrow> k = 0
      | Some t \<Rightarrow> t_zline_start t = 0 \<and> t_conns t = k \<and> 0 < k \<and> t_first t = t0 \<and> t_stage t = - 1)"

definition zlined :: "time_t \<Rightarrow> throttle option \<Rightarrow> bool" where
  "zlined t0 r \<longleftrightarrow> (\<exists>t. r = Some t \<and> t_zline_start t \<noteq> 0 \<and> t0 \<le> t_zline_start t \<and> t_stage t = 0)"

lemma check_spec_counting:
  assumes "counting t0 k r" and "k = 0 \<longrightarrow> now = t0" and "0 < t0" and "t0 \<le> now" and "now \<le> t0 + ttime"
    and "0 \<le> k" and "fd \<noteq> - 1"
  shows "fst (check_spec tcount ttime now host fd now r) = (if k + 1 < tcount then 1 else 0) \<and>
    (if k + 1 < tcount then counting t0 (k + 1) (snd (check_spec tcount ttime now host fd now r))
     else zlined t0 (snd (check_spec tcount ttime now host fd now r)))"
  using assms
  by (auto simp: counting_def zlined_def check_spec_def throttle_count_def fresh_throttle_def Let_def
      split: option.splits)

lemma check_spec_zlined:
  assumes "zlined t0 r" and "0 < t0" and "t0 \<le> now" and "now \<le> t0 + ttime" and "ttime < 120" and "fd \<noteq> - 1"
  shows "fst (check_spec tcount ttime now host fd now r) = 0 \<and>
    zlined t0 (snd (check_spec tcount ttime now host fd now r))"
  using assms by (auto simp: zlined_def check_spec_def throttle_get_zline_time_def Let_def)

lemma connect_run_zlined:
  assumes "throttle_ok st" and "throttle_enable st" and "length host \<le> HOSTIPLEN" and "fd \<noteq> - 1"
    and "0 < t0" and "throttle_ttime st < 120" and "\<forall>t\<in>set ts. t0 \<le> t \<and> t \<le> t0 + throttle_ttime st"
    and "zlined t0 (throttle_of st host)"
  shows "\<exists>st'. connect_run host fd ts st = Some (replicate (length ts) 0, st')"
  using assms
proof (induction ts arbitrary: st)
  case (Cons t ts)
  obtain r st' ev where c: "throttle_check t host fd t st = Some (r, st', ev)" and ok: "throttle_ok st'"
    and r: "r = fst (check_spec (throttle_tcount st) (throttle_ttime st) t host fd t (throttle_of st host))"
    and of': "throttle_of st' = (throttle_of st)(host :=
      snd (check_spec (throttle_tcount st) (throttle_ttime st) t host fd t (throttle_of st host)))"
    using throttle_check_refines [OF Cons.prems(1,2,3)] by blast
  have z: "r = 0 \<and> zlined t0 (throttle_of st' host)"
    unfolding r of' fun_upd_same by (rule check_spec_zlined) (use Cons.prems in auto)
  show ?case using Cons.IH [OF ok] Cons.prems check_params [OF c] c z by auto
qed simp

lemma connect_run_counting:
  assumes "throttle_ok st" and "throttle_enable st" and "length host \<le> HOSTIPLEN" and "fd \<noteq> - 1"
    and "0 < t0" and "throttle_ttime st < 120" and "\<forall>t\<in>set ts. t0 \<le> t \<and> t \<le> t0 + throttle_ttime st"
    and "counting t0 (int k) (throttle_of st host)" and "k = 0 \<longrightarrow> ts = [] \<or> hd ts = t0"
  shows "\<exists>st'. connect_run host fd ts st =
    Some (map (\<lambda>i. if int (k + i) + 1 < throttle_tcount st then 1 else 0) [0..<length ts], st')"
  using assms
proof (induction ts arbitrary: st k)
  case (Cons t ts)
  let ?sp = "check_spec (throttle_tcount st) (throttle_ttime st) t host fd t (throttle_of st host)"
  obtain r st' ev where c: "throttle_check t host fd t st = Some (r, st', ev)" and ok: "throttle_ok st'"
    and r: "r = fst ?sp" and of': "throttle_of st' = (throttle_of st)(host := snd ?sp)"
    using throttle_check_refines [OF Cons.prems(1,2,3)] by blast
  note par = check_params [OF c]
  have z: "r = (if int k + 1 < throttle_tcount st then 1 else 0) \<and>
      (if int k + 1 < throttle_tcount st then counting t0 (int k + 1) (throttle_of st' host)
       else zlined t0 (throttle_of st' host))"
    using check_spec_counting [of t0 "int k" "throttle_of st host" t "throttle_ttime st" fd "throttle_tcount st" host]
      Cons.prems unfolding r of' fun_upd_same by simp
  let ?f = "\<lambda>k i. if int (k + i) + 1 < throttle_tcount st then 1 else (0::int)"
  have tail: "\<exists>st''. connect_run host fd ts st' = Some (map (?f (Suc k)) [0..<length ts], st'')"
  proof (cases "int k + 1 < throttle_tcount st")
    case True
    with Cons.IH [OF ok, of "Suc k"] Cons.prems par z show ?thesis by (auto simp: add.commute)
  next
    case False
    then have "map (?f (Suc k)) [0..<length ts] = replicate (length ts) 0" by (simp add: map_replicate_const)
    moreover have "\<exists>st''. connect_run host fd ts st' = Some (replicate (length ts) 0, st'')"
      by (rule connect_run_zlined [OF ok]) (use False Cons.prems par z in auto)
    ultimately show ?thesis by simp
  qed
  have "map (?f k) [0..<length (t # ts)] = r # map (?f (Suc k)) [0..<length ts]"
    using z by (simp add: upt_conv_Cons map_Suc_upt [symmetric] del: upt_Suc)
  with tail c show ?case by auto
qed simp

subsection \<open>Properties\<close>

lemma throttle_timer_ok: "throttle_ok st \<Longrightarrow> throttle_ok (throttle_timer now st)"
  using throttle_timer_refines [of st now] by (cases "throttle_enable st") (auto simp: throttle_timer_def)

lemma throttle_init_fields:
  "throttle_enable (throttle_init mem)" "throttle_ttime (throttle_init mem) = 15"
  "throttle_tcount (throttle_init mem) = 3" "throttle_rtime (throttle_init mem) = 1800"
  by (simp_all add: throttle_init_def THROTTLE_TRIGTIME_def THROTTLE_TRIGCOUNT_def THROTTLE_RECORDTIME_def)

definition example_throttles :: throttle_state where
  "example_throttles = throttle_init (\<lambda>_. fresh_throttle [] 0)"

lemma example_throttles_facts:
  "throttle_ok example_throttles" "throttle_of example_throttles = (\<lambda>_. None)" "throttle_enable example_throttles"
  "throttle_ttime example_throttles = 15" "throttle_tcount example_throttles = 3"
  "throttle_rtime example_throttles = 1800"
  by (simp_all add: example_throttles_def throttle_init_ok throttle_init_fields)

lemma ip_len: "length ''10.0.0.1'' \<le> HOSTIPLEN"
  by (simp add: HOSTIPLEN_def)

text \<open>
  The hash table and the list of throttles always hold the same records, one per address,
  and \<open>numthrottles\<close> is their number: true after \<open>throttle_init\<close> and kept by every
  operation that changes the throttles.
\<close>

lemma throttle_invariant:
  "throttle_ok (throttle_init mem) \<and>
   (throttle_ok st \<longrightarrow>
      throttle_ok (throttle_remove host st) \<and> throttle_ok (throttle_timer now st) \<and>
      throttle_ok (throttle_rehash st) \<and> (0 < n \<longrightarrow> throttle_ok (throttle_resize n st)) \<and>
      (\<forall>st'. throttle_force now host st = Some st' \<longrightarrow> throttle_ok st') \<and>
      (\<forall>r st' ev. throttle_check now host fd sotime st = Some (r, st', ev) \<longrightarrow> throttle_ok st'))"
proof -
  have force: "throttle_ok st'" if ok: "throttle_ok st" and f: "throttle_force now host st = Some st'" for st'
  proof -
    have "length host \<le> HOSTIPLEN" if "throttle_find st host = None"
      using f by (simp add: throttle_force_def that split: if_splits)
    from throttle_force_refines [OF ok this, where NOW = now] f show ?thesis by auto
  qed
  have check: "throttle_ok st'" if ok: "throttle_ok st" and c: "throttle_check now host fd sotime st = Some (r, st', ev)"
    for r st' ev
  proof (cases "throttle_enable st \<and> \<not> (fd = - 1 \<and> now - sotime > throttle_ttime st)")
    case True
    then have "length host \<le> HOSTIPLEN" if "throttle_find st host = None"
      using c by (auto simp: throttle_check_def Let_def that split: if_splits)
    from throttle_check_refines [OF ok conjunct1 [OF True] this, where NOW = now and fd = fd and sotime = sotime] c
    show ?thesis by auto
  next
    case False
    then show ?thesis using c ok by (auto simp: throttle_check_def split: if_splits)
  qed
  show ?thesis
    using throttle_init_ok throttle_remove_refines throttle_timer_ok throttle_resize_refines
    unfolding throttle_rehash_def by (blast intro: force check)
qed

text \<open>
  While throttling is enabled, \<open>throttle_check\<close> always answers for an address that fits
  its field, the answer and the new record of the address depend on the old record of that
  address alone (\<open>check_spec\<close>), and the records of all other addresses are untouched.
\<close>

lemma throttle_check_per_address:
  assumes "throttle_ok st" and "throttle_enable st" and "length host \<le> HOSTIPLEN"
  shows "\<exists>r st' ev. throttle_check NOW host fd sotime st = Some (r, st', ev) \<and> throttle_ok st' \<and>
    (r, throttle_of st' host) =
       check_spec (throttle_tcount st) (throttle_ttime st) NOW host fd sotime (throttle_of st host) \<and>
    (\<forall>h. h \<noteq> host \<longrightarrow> throttle_of st' h = throttle_of st h)"
  using throttle_check_refines [OF assms, of NOW fd sotime] by auto

text \<open>
  C31: a burst of local connections from one address with no record, all within
  \<open>throttle_ttime\<close> seconds of the first (a window shorter than the first z-line of two
  minutes), is accepted up to the connection number \<open>throttle_tcount - 1\<close>; that connection's
  successor and every later one of the burst is refused.
\<close>

theorem throttle_burst:
  assumes "throttle_ok st" and "throttle_enable st" and "length host \<le> HOSTIPLEN" and "fd \<noteq> - 1"
    and "throttle_of st host = None" and "0 < t0" and "throttle_ttime st < 120"
    and "\<forall>t\<in>set ts. t0 \<le> t \<and> t \<le> t0 + throttle_ttime st" and "0 \<le> throttle_ttime st"
  shows "\<exists>st'. connect_run host fd (t0 # ts) st =
    Some (map (\<lambda>i. if int i + 1 < throttle_tcount st then 1 else 0) [0..<length (t0 # ts)], st')"
proof -
  have "counting t0 (int 0) (throttle_of st host)" using assms(5) by (simp add: counting_def)
  then show ?thesis
    using connect_run_counting [of st host fd t0 "t0 # ts" 0] assms by (simp del: upt_Suc)
qed

theorem throttle_burst_witness:
  "\<exists>st'. connect_run ''10.0.0.1'' 5 [100, 101, 103, 110] example_throttles =
     Some ([1, 1, 0, 0], st')"
proof -
  have "\<exists>st'. connect_run ''10.0.0.1'' 5 (100 # [101, 103, 110]) example_throttles =
    Some (map (\<lambda>i. if int i + 1 < throttle_tcount example_throttles then 1 else 0) [0..<length (100 # [101, 103, 110 :: int])], st')"
    by (rule throttle_burst) (simp_all add: example_throttles_facts HOSTIPLEN_def)
  then show ?thesis by (simp add: example_throttles_facts upt_rec)
qed

text \<open>
  \<open>throttle_timer\<close> (called with the current time, which is not 0) forgets exactly the
  expired records; as long as the record time is not negative, no address loses a z-line that is
  still running, and throttling no address is forgotten earlier than \<open>throttle_rtime\<close> seconds
  after its last connection.
\<close>

lemma throttle_timer_exact:
  assumes "throttle_ok st" and "throttle_enable st" and "now \<noteq> 0" and "0 \<le> throttle_rtime st"
    and "throttle_of st host = Some t"
  shows "throttle_of (throttle_timer now st) host = (if throttle_expired st now t then None else Some t) \<and>
    (t_zline_start t \<noteq> 0 \<and> now - t_zline_start t < throttle_get_zline_time (t_stage t) \<longrightarrow>
       throttle_of (throttle_timer now st) host = Some t) \<and>
    (t_zline_start t = 0 \<and> now - t_last t < throttle_rtime st \<longrightarrow>
       throttle_of (throttle_timer now st) host = Some t)"
  using throttle_timer_refines [OF assms(1,2), of now host] assms(3-5) by (auto simp: throttle_expired_def)

text \<open>
  An address marked by \<open>throttle_force\<close> is refused by every local connection check within
  \<open>throttle_ttime\<close> seconds, provided its record carries no z-line or one that is still
  running; after an expired z-line that nobody has checked since, the mark is lost and the
  connection is accepted when \<open>throttle_tcount\<close> is at least 2.
\<close>

lemma throttle_force_refused:
  assumes ok: "throttle_ok st" and en: "throttle_enable st" and len: "length host \<le> HOSTIPLEN" and fd: "fd \<noteq> - 1"
    and f: "throttle_force NOW host st = Some st'" and t: "NOW \<le> now" "now \<le> NOW + throttle_ttime st"
    and z: "z = (case throttle_of st host of None \<Rightarrow> False | Some t \<Rightarrow>
        t_zline_start t \<noteq> 0 \<and> now - t_zline_start t \<ge> throttle_get_zline_time (t_stage t))"
    and tc: "2 \<le> throttle_tcount st"
  shows "\<exists>st'' ev. throttle_check now host fd now st' = Some (if z then 1 else 0, st'', ev)"
proof -
  let ?t = "(case throttle_of st host of None \<Rightarrow> fresh_throttle host NOW | Some t \<Rightarrow> t)
        \<lparr>t_conns := - 1, t_last := NOW, t_first := NOW\<rparr>"
  have f': "throttle_ok st'" "throttle_of st' host = Some ?t"
    using throttle_force_refines [OF ok len, of NOW] f by auto
  have par: "throttle_enable st'" "throttle_ttime st' = throttle_ttime st" "throttle_tcount st' = throttle_tcount st"
    using f en by (auto simp: throttle_force_def throttle_new_def th_update_def Let_def split: option.splits if_splits)
  have "fst (check_spec (throttle_tcount st) (throttle_ttime st) now host fd now (Some ?t)) = (if z then 1 else 0)"
    using fd t tc unfolding z
    by (auto simp: check_spec_def throttle_count_def fresh_throttle_def Let_def split: option.splits)
  then show ?thesis
    using throttle_check_refines [OF f'(1) par(1) len, of now fd now] f'(2) par(2,3) by auto
qed

end
