(* ===== verification/Clones.thy ===== *)
theory Clones
  imports Throttle Client_Hash
begin

section \<open>Clone detection and limits (src/src/clones.c)\<close>

text \<open>
  Entries (\<open>CloneEnt\<close>) count the clients of one IP address and of its /24 site, named
  \<open>a.b.c.*\<close>, and hold the limits set for them; they live in a generic hash table and on
  \<open>clones_list\<close>.  The clients of an address are the list \<open>ce_clients\<close>.  The store of
  clients is an argument.  \<open>None\<close> stands for the accesses the C code does not survive: an
  address without a dot (the deliberate core), one too long for the buffers, a missing entry or
  user, and an entry that was freed already.
\<close>

definition CLIM_HARD_GLOBAL :: int where "CLIM_HARD_GLOBAL = 1"
definition CLIM_SOFT_LOCAL :: int where "CLIM_SOFT_LOCAL = 2"
definition CLIM_SOFT_GLOBAL :: int where "CLIM_SOFT_GLOBAL = 3"

record CloneEnt =
  ce_clients :: "addr list"
  ce_lcount :: int
  ce_gcount :: int
  ce_limit :: int
  ce_sllimit :: int
  ce_sglimit :: int
  ce_ent :: cstr

record CloneStat =
  rlh :: nat
  rls :: nat
  rgh :: nat
  rgs :: nat

text \<open>The configured default limits.\<close>

record clone_limits =
  local_ip_limit :: int
  local_ip24_limit :: int
  global_ip_limit :: int
  global_ip24_limit :: int

record clones_state =
  clones_hashtable :: hash_table
  ce_store :: "addr \<Rightarrow> CloneEnt"
  clones_list :: "addr list"
  clones_stat :: CloneStat
  ce_next :: addr
  ce_throttles :: throttle_state

datatype clone_event = LocalClone cstr int int cstr "cstr option" | GlobalClone cstr int int cstr

definition clones_init :: "(addr \<Rightarrow> CloneEnt) \<Rightarrow> throttle_state \<Rightarrow> clones_state" where
  "clones_init mem th =
     \<lparr>clones_hashtable = create_hash_table THROTTLE_HASHSIZE HOSTIPLEN 2 strcmp, ce_store = mem,
      clones_list = [], clones_stat = \<lparr>rlh = 0, rls = 0, rgh = 0, rgs = 0\<rparr>, ce_next = 0, ce_throttles = th\<rparr>"

abbreviation ce_key :: "clones_state \<Rightarrow> addr \<Rightarrow> cstr" where
  "ce_key st a \<equiv> ce_ent (ce_store st a)"

definition clone_find :: "clones_state \<Rightarrow> cstr \<Rightarrow> addr option" where
  "clone_find st key = hash_find (ce_key st) (clones_hashtable st) key"

definition clone_new :: "cstr \<Rightarrow> clones_state \<Rightarrow> clones_state" where
  "clone_new key st =
     (let ce = ce_next st;
          st1 = st\<lparr>ce_store := (ce_store st)(ce := \<lparr>ce_clients = [], ce_lcount = 0, ce_gcount = 0,
                    ce_limit = 0, ce_sllimit = 0, ce_sglimit = 0, ce_ent = key\<rparr>)\<rparr>
      in st1\<lparr>clones_hashtable := snd (hash_insert (ce_key st1) (clones_hashtable st1) ce),
             clones_list := ce # clones_list st1, ce_next := Suc ce\<rparr>)"

definition get_clone :: "cstr \<Rightarrow> bool \<Rightarrow> clones_state \<Rightarrow> (addr option \<times> clones_state) option" where
  "get_clone key create st =
     (case clone_find st key of
        Some ce \<Rightarrow> Some (Some ce, st)
      | None \<Rightarrow>
          if \<not> create then Some (None, st)
          else if length key > HOSTIPLEN then None
          else Some (Some (ce_next st), clone_new key st))"

definition expire_clone :: "addr \<Rightarrow> clones_state \<Rightarrow> clones_state option" where
  "expire_clone ce st =
     (let e = ce_store st ce in
      if ce \<notin> set (clones_list st) then None
      else if ce_gcount e \<noteq> 0 \<or> ce_limit e \<noteq> 0 \<or> ce_sllimit e \<noteq> 0 \<or> ce_sglimit e \<noteq> 0 then Some st
      else Some (st\<lparr>clones_list := remove1 ce (clones_list st),
                    clones_hashtable := snd (hash_delete (ce_key st) (clones_hashtable st) ce)\<rparr>))"

text \<open>The site name: everything up to the last dot, and a star, in a buffer of \<open>HOSTIPLEN + 1\<close> bytes.\<close>

definition ip24_of :: "cstr \<Rightarrow> cstr option" where
  "ip24_of hostip =
     (let upto = rev (dropWhile (\<lambda>c. c \<noteq> CHR ''.'') (rev hostip)) in
      if length hostip > HOSTIPLEN \<or> upto = [] \<or> length upto + 1 > HOSTIPLEN then None
      else Some (upto @ ''*''))"

definition get_clones :: "aClient \<Rightarrow> bool \<Rightarrow> clones_state \<Rightarrow> (addr option \<times> addr option \<times> clones_state) option" where
  "get_clones cptr create st =
     (case ip24_of (c_hostip cptr) of
        None \<Rightarrow> None
      | Some ip24 \<Rightarrow>
          (case get_clone (c_hostip cptr) create st of
             None \<Rightarrow> None
           | Some (ceip, st1) \<Rightarrow>
               (case get_clone ip24 create st1 of
                  None \<Rightarrow> None
                | Some (ce24, st2) \<Rightarrow> Some (ceip, ce24, st2))))"

subsection \<open>Checking a client\<close>

text \<open>The two reports: the operator notice, the statistics, the forced throttle and the result.\<close>

definition report_lclone ::
  "time_t \<Rightarrow> aClient \<Rightarrow> CloneEnt \<Rightarrow> int \<Rightarrow> bool \<Rightarrow> cstr \<Rightarrow> cstr option \<Rightarrow> clones_state \<Rightarrow>
   (int \<times> clones_state \<times> clone_event list) option" where
  "report_lclone NOW cptr ce l is24 t n st =
     (let s = clones_stat st;
          s' = (if is24 then s\<lparr>rls := rls s + 1\<rparr> else s\<lparr>rlh := rlh s + 1\<rparr>)
      in case throttle_force NOW (c_hostip cptr) (ce_throttles st) of
           None \<Rightarrow> None
         | Some th \<Rightarrow> Some (if is24 then 2 else 1, st\<lparr>clones_stat := s', ce_throttles := th\<rparr>,
                             [LocalClone (ce_ent ce) (ce_lcount ce) l t n]))"

definition report_gclone ::
  "time_t \<Rightarrow> aClient \<Rightarrow> CloneEnt \<Rightarrow> int \<Rightarrow> bool \<Rightarrow> cstr \<Rightarrow> clones_state \<Rightarrow>
   (int \<times> clones_state \<times> clone_event list) option" where
  "report_gclone NOW cptr ce l is24 t st =
     (let s = clones_stat st;
          s' = (if is24 then s\<lparr>rgs := rgs s + 1\<rparr> else s\<lparr>rgh := rgh s + 1\<rparr>)
      in case throttle_force NOW (c_hostip cptr) (ce_throttles st) of
           None \<Rightarrow> None
         | Some th \<Rightarrow> Some (if is24 then 2 else 1, st\<lparr>clones_stat := s', ce_throttles := th\<rparr>,
                             [GlobalClone (ce_ent ce) (ce_gcount ce) l t]))"

text \<open>
  The four priority stacks: the limit that applies, what it is called and, for the address
  itself, its priority.
\<close>

definition ip_local_limit :: "clone_limits \<Rightarrow> aClass \<Rightarrow> CloneEnt \<Rightarrow> int \<times> int \<times> cstr \<times> cstr option" where
  "ip_local_limit cfg cl ce =
     (if ce_sllimit ce \<noteq> 0 then (3, ce_sllimit ce, ''soft'', None)
      else if cl_connfreq cl \<noteq> 0 then (2, cl_connfreq cl, ''class'', Some (cl_name cl))
      else (1, local_ip_limit cfg, ''default'', None))"

definition ip_global_limit :: "clone_limits \<Rightarrow> CloneEnt \<Rightarrow> int \<times> int \<times> cstr" where
  "ip_global_limit cfg ce =
     (if ce_sglimit ce \<noteq> 0 then (3, ce_sglimit ce, ''soft'')
      else if ce_limit ce \<noteq> 0 then (2, ce_limit ce, ''hard'')
      else (1, global_ip_limit cfg, ''default''))"

definition ip24_local_limit :: "clone_limits \<Rightarrow> aClass \<Rightarrow> int \<Rightarrow> CloneEnt \<Rightarrow> (int \<times> cstr \<times> cstr option) option" where
  "ip24_local_limit cfg cl lpri ce =
     (if ce_sllimit ce \<noteq> 0 then Some (ce_sllimit ce, ''soft'', None)
      else if lpri \<le> 2 \<and> cl_ip24clones cl \<noteq> 0 then Some (cl_ip24clones cl, ''class'', Some (cl_name cl))
      else if lpri \<le> 1 then Some (local_ip24_limit cfg, ''default'', None)
      else None)"

definition ip24_global_limit :: "clone_limits \<Rightarrow> int \<Rightarrow> CloneEnt \<Rightarrow> (int \<times> cstr) option" where
  "ip24_global_limit cfg gpri ce =
     (if ce_sglimit ce \<noteq> 0 then Some (ce_sglimit ce, ''soft'')
      else if ce_limit ce \<noteq> 0 then Some (ce_limit ce, ''hard'')
      else if gpri \<le> 1 then Some (global_ip24_limit cfg, ''default'')
      else None)"

definition clones_check_ip24 ::
  "time_t \<Rightarrow> clone_limits \<Rightarrow> aClient \<Rightarrow> aClass \<Rightarrow> int \<Rightarrow> int \<Rightarrow> addr option \<Rightarrow> clones_state \<Rightarrow>
   (int \<times> clones_state \<times> clone_event list) option" where
  "clones_check_ip24 NOW cfg cptr cl lpri gpri ce24 st =
     (case ce24 of
        None \<Rightarrow> Some (0, st, [])
      | Some a \<Rightarrow>
          (let ce = ce_store st a;
               glob = (case ip24_global_limit cfg gpri ce of
                         Some (l, t) \<Rightarrow> if ce_gcount ce \<ge> l then report_gclone NOW cptr ce l True t st
                                        else Some (0, st, [])
                       | None \<Rightarrow> Some (0, st, []))
           in case ip24_local_limit cfg cl lpri ce of
                Some (l, t, n) \<Rightarrow> if ce_lcount ce \<ge> l then report_lclone NOW cptr ce l True t n st else glob
              | None \<Rightarrow> glob))"

definition clones_check ::
  "time_t \<Rightarrow> clone_limits \<Rightarrow> aClient \<Rightarrow> clones_state \<Rightarrow> (int \<times> clones_state \<times> clone_event list) option" where
  "clones_check NOW cfg cptr st =
     (case (get_clones cptr False st, c_user cptr) of
        (Some (ceip, ce24, st1), Some u) \<Rightarrow>
          (let cl = u_class u in
           case ceip of
             None \<Rightarrow> clones_check_ip24 NOW cfg cptr cl 0 0 ce24 st1
           | Some a \<Rightarrow>
               (let ce = ce_store st1 a;
                    (lpri, l, t, n) = ip_local_limit cfg cl ce;
                    (gpri, gl, gt) = ip_global_limit cfg ce
                in if ce_lcount ce \<ge> l then report_lclone NOW cptr ce l False t n st1
                   else if ce_gcount ce \<ge> gl then report_gclone NOW cptr ce gl False gt st1
                   else clones_check_ip24 NOW cfg cptr cl lpri gpri ce24 st1))
      | _ \<Rightarrow> None)"

subsection \<open>Adding and removing clients\<close>

definition ce_update :: "addr \<Rightarrow> (CloneEnt \<Rightarrow> CloneEnt) \<Rightarrow> clones_state \<Rightarrow> clones_state" where
  "ce_update a f st = st\<lparr>ce_store := (ce_store st)(a := f (ce_store st a))\<rparr>"

definition ce_count :: "int \<Rightarrow> int \<Rightarrow> CloneEnt \<Rightarrow> CloneEnt" where
  "ce_count g l ce = ce\<lparr>ce_gcount := ce_gcount ce + g, ce_lcount := ce_lcount ce + l\<rparr>"

definition clones_add :: "clients \<Rightarrow> addr \<Rightarrow> clones_state \<Rightarrow> clones_state option" where
  "clones_add cs cptr st =
     (case get_clones (cs cptr) True st of
        Some (Some ceip, Some ce24, st1) \<Rightarrow>
          (let st2 = ce_update ceip (\<lambda>ce. ce\<lparr>ce_clients := cptr # ce_clients ce\<rparr>) st1;
               l = (if MyConnect (cs cptr) then 1 else 0)
           in Some (ce_update ce24 (ce_count 1 l) (ce_update ceip (ce_count 1 l) st2)))
      | _ \<Rightarrow> None)"

definition clones_remove :: "addr \<Rightarrow> clients \<Rightarrow> addr \<Rightarrow> clones_state \<Rightarrow> clones_state option" where
  "clones_remove me cs cptr st =
     (case get_clones (cs cptr) False st of
        Some (Some ceip, Some ce24, st1) \<Rightarrow>
          if cptr \<notin> set (ce_clients (ce_store st1 ceip)) then None
          else
            (let st2 = ce_update ceip (\<lambda>ce. ce\<lparr>ce_clients := remove1 cptr (ce_clients ce)\<rparr>) st1;
                 l = (if c_uplink (cs cptr) = me then - 1 else 0);
                 st3 = ce_update ce24 (ce_count (- 1) l) (ce_update ceip (ce_count (- 1) l) st2)
             in case expire_clone ceip st3 of None \<Rightarrow> None | Some st4 \<Rightarrow> expire_clone ce24 st4)
      | _ \<Rightarrow> None)"

subsection \<open>Limits\<close>

definition clones_set :: "cstr \<Rightarrow> int \<Rightarrow> int \<Rightarrow> clones_state \<Rightarrow> (int \<times> clones_state) option" where
  "clones_set ent type limit st =
     (if length ent > HOSTIPLEN then Some (- 1, st)
      else if limit < 0 then Some (- 1, st)
      else
        (case get_clone ent True st of
           Some (Some a, st1) \<Rightarrow>
             (let ce = ce_store st1 a;
                  (rval, f) =
                    (if type = CLIM_HARD_GLOBAL
                     then (ce_limit ce, (\<lambda>ce. ce\<lparr>ce_limit := limit,
                             ce_sglimit := (if limit \<noteq> 0 \<and> ce_sglimit ce > limit then 0 else ce_sglimit ce)\<rparr>))
                     else if type = CLIM_SOFT_GLOBAL then (ce_sglimit ce, (\<lambda>ce. ce\<lparr>ce_sglimit := limit\<rparr>))
                     else if type = CLIM_SOFT_LOCAL then (ce_sllimit ce, (\<lambda>ce. ce\<lparr>ce_sllimit := limit\<rparr>))
                     else (0, id))
              in case expire_clone a (ce_update a f st1) of None \<Rightarrow> None | Some st2 \<Rightarrow> Some (rval, st2))
         | _ \<Rightarrow> None))"

definition clones_get :: "cstr \<Rightarrow> clones_state \<Rightarrow> int \<times> int \<times> int" where
  "clones_get ent st =
     (case clone_find st ent of
        Some a \<Rightarrow> (ce_limit (ce_store st a), ce_sglimit (ce_store st a), ce_sllimit (ce_store st a))
      | None \<Rightarrow> (0, 0, 0))"

text \<open>\<open>clones_send\<close>: the \<^verbatim>\<open>SVSCLONE\<close> lines, entity and limit.\<close>

definition clones_send :: "clones_state \<Rightarrow> (cstr \<times> int) list" where
  "clones_send st =
     map (\<lambda>a. (ce_ent (ce_store st a), ce_limit (ce_store st a)))
       (filter (\<lambda>a. ce_limit (ce_store st a) \<noteq> 0) (clones_list st))"

subsection \<open>Invariant\<close>

definition clones_tab_ok :: "clones_state \<Rightarrow> bool" where
  "clones_tab_ok st \<longleftrightarrow>
     ht_ok (ce_key st) (clones_hashtable st) \<and> ht_entries (clones_hashtable st) = set (clones_list st) \<and>
     distinct (clones_list st) \<and> (\<forall>a\<in>set (clones_list st). a < ce_next st)"

text \<open>The clients counted, and the number of a set of clients that an entity stands for.\<close>

definition online :: "clones_state \<Rightarrow> addr set" where
  "online st = (\<Union>a\<in>set (clones_list st). set (ce_clients (ce_store st a)))"

definition clone_count :: "clients \<Rightarrow> addr set \<Rightarrow> cstr \<Rightarrow> int" where
  "clone_count cs S ent =
     int (card {c \<in> S. c_hostip (cs c) = ent}) + int (card {c \<in> S. ip24_of (c_hostip (cs c)) = Some ent})"

definition clones_cnt_ok :: "addr \<Rightarrow> clients \<Rightarrow> clones_state \<Rightarrow> bool" where
  "clones_cnt_ok me cs st \<longleftrightarrow>
     (\<forall>a\<in>set (clones_list st).
        distinct (ce_clients (ce_store st a)) \<and>
        (\<forall>c\<in>set (ce_clients (ce_store st a)). c_hostip (cs c) = ce_key st a) \<and>
        ce_gcount (ce_store st a) = clone_count cs (online st) (ce_key st a) \<and>
        ce_lcount (ce_store st a) = clone_count cs {c \<in> online st. c_uplink (cs c) = me} (ce_key st a)) \<and>
     (\<forall>c\<in>online st. \<exists>a\<in>set (clones_list st). ip24_of (c_hostip (cs c)) = Some (ce_key st a))"

definition clones_ok :: "addr \<Rightarrow> clients \<Rightarrow> clones_state \<Rightarrow> bool" where
  "clones_ok me cs st \<longleftrightarrow> clones_tab_ok st \<and> clones_cnt_ok me cs st"

lemma finite_online [simp]: "finite (online st)"
  by (simp add: online_def)

lemma clone_find_exact:
  "clones_tab_ok st \<Longrightarrow> clone_find st k = Some a \<longleftrightarrow> a \<in> set (clones_list st) \<and> ce_key st a = k"
  using hash_find_exact [of "ce_key st" "clones_hashtable st" k a] by (simp add: clones_tab_ok_def clone_find_def)

lemma clone_find_None:
  "clones_tab_ok st \<Longrightarrow> clone_find st k = None \<longleftrightarrow> (\<forall>a\<in>set (clones_list st). ce_key st a \<noteq> k)"
  using hash_find_None [of "ce_key st" "clones_hashtable st" k] by (simp add: clones_tab_ok_def clone_find_def)

lemma ce_key_inj:
  "clones_tab_ok st \<Longrightarrow> a \<in> set (clones_list st) \<Longrightarrow> b \<in> set (clones_list st) \<Longrightarrow> ce_key st a = ce_key st b \<Longrightarrow> a = b"
  using ht_ok_uniq [of "ce_key st" "clones_hashtable st" a b] by (simp add: clones_tab_ok_def)

lemma clones_cntD:
  assumes "clones_cnt_ok me cs st"
  shows online_host: "c \<in> online st \<Longrightarrow> \<exists>a\<in>set (clones_list st). c \<in> set (ce_clients (ce_store st a)) \<and> c_hostip (cs c) = ce_key st a"
    and online_site: "c \<in> online st \<Longrightarrow> \<exists>a\<in>set (clones_list st). ip24_of (c_hostip (cs c)) = Some (ce_key st a)"
    and ce_gcount_eq: "a \<in> set (clones_list st) \<Longrightarrow> ce_gcount (ce_store st a) = clone_count cs (online st) (ce_key st a)"
    and ce_lcount_eq: "a \<in> set (clones_list st) \<Longrightarrow>
      ce_lcount (ce_store st a) = clone_count cs {c \<in> online st. c_uplink (cs c) = me} (ce_key st a)"
    and ce_clients_distinct: "a \<in> set (clones_list st) \<Longrightarrow> distinct (ce_clients (ce_store st a))"
    and ce_clients_host: "a \<in> set (clones_list st) \<Longrightarrow> c \<in> set (ce_clients (ce_store st a)) \<Longrightarrow> c_hostip (cs c) = ce_key st a"
  using assms unfolding clones_cnt_ok_def online_def by blast+

lemma clone_count_insert:
  assumes "finite S" and "c \<notin> S"
  shows "clone_count cs (insert c S) ent = clone_count cs S ent +
    (if c_hostip (cs c) = ent then 1 else 0) + (if ip24_of (c_hostip (cs c)) = Some ent then 1 else 0)"
proof -
  have "{x \<in> insert c S. P x} = (if P c then insert c {x \<in> S. P x} else {x \<in> S. P x})" for P by auto
  then show ?thesis using assms by (simp add: clone_count_def)
qed

lemma clone_count_zero:
  "finite S \<Longrightarrow> clone_count cs S ent = 0 \<longleftrightarrow>
     (\<forall>c\<in>S. c_hostip (cs c) \<noteq> ent \<and> ip24_of (c_hostip (cs c)) \<noteq> Some ent)"
  unfolding clone_count_def by (auto simp: add_nonneg_eq_0_iff)

lemma clone_count_pos: "finite S \<Longrightarrow> 0 \<le> clone_count cs S ent"
  by (simp add: clone_count_def)

lemma clones_init_ok: "clones_ok me cs (clones_init mem th)"
  using ip_table_ok [of "ce_key (clones_init mem th)"]
  by (simp add: clones_ok_def clones_tab_ok_def clones_cnt_ok_def online_def clones_init_def ip_table_def HASH_FL_STRING_def)

subsection \<open>Creating an entry\<close>

lemma clone_new_fields:
  "clones_list (clone_new k st) = ce_next st # clones_list st" "ce_next (clone_new k st) = Suc (ce_next st)"
  "ce_store (clone_new k st) = (ce_store st)(ce_next st := \<lparr>ce_clients = [], ce_lcount = 0, ce_gcount = 0,
     ce_limit = 0, ce_sllimit = 0, ce_sglimit = 0, ce_ent = k\<rparr>)"
  "ce_throttles (clone_new k st) = ce_throttles st"
  by (simp_all add: clone_new_def Let_def)

lemma clone_new_tab:
  assumes ok: "clones_tab_ok st" and new: "clone_find st k = None"
  shows "clones_tab_ok (clone_new k st)"
proof -
  let ?n = "ce_next st" and ?st = "clone_new k st"
  have fresh: "?n \<notin> set (clones_list st)" using ok by (auto simp: clones_tab_ok_def)
  have key: "ce_key ?st a = ce_key st a" if "a \<in> ht_entries (clones_hashtable st)" for a
    using that ok fresh by (auto simp: clones_tab_ok_def clone_new_fields)
  have tab: "clones_hashtable ?st = snd (hash_insert (ce_key ?st) (clones_hashtable st) ?n)"
    by (simp add: clone_new_def Let_def)
  have "ht_ok (ce_key ?st) (clones_hashtable st) = ht_ok (ce_key st) (clones_hashtable st)"
    by (rule ht_ok_key_cong) (rule key)
  then have "ht_ok (ce_key ?st) (clones_hashtable st)" using ok unfolding clones_tab_ok_def by simp
  moreover have "\<forall>a\<in>ht_entries (clones_hashtable st). ce_key ?st a \<noteq> ce_key ?st ?n"
  proof
    fix a
    assume a: "a \<in> ht_entries (clones_hashtable st)"
    then have "a \<in> set (clones_list st)" using ok unfolding clones_tab_ok_def by blast
    then have "ce_key st a \<noteq> k" using new clone_find_None [OF ok, of k] by blast
    then show "ce_key ?st a \<noteq> ce_key ?st ?n" unfolding key [OF a] by (simp add: clone_new_fields)
  qed
  ultimately have "ht_ok (ce_key ?st) (clones_hashtable ?st)" unfolding tab by (rule ht_ok_insert)
  moreover have "ht_entries (clones_hashtable ?st) = set (clones_list ?st)"
    using ok unfolding tab by (simp add: ht_entries_insert clone_new_fields clones_tab_ok_def)
  ultimately show ?thesis using ok fresh unfolding clones_tab_ok_def by (auto simp: clone_new_fields)
qed

lemma online_new:
  assumes "clones_tab_ok st"
  shows "online (clone_new k st) = online st"
proof -
  have "ce_next st \<notin> set (clones_list st)" using assms by (auto simp: clones_tab_ok_def)
  then show ?thesis by (auto simp: online_def clone_new_fields split: if_splits)
qed

lemma clone_new_cnt:
  assumes ok: "clones_ok me cs st" and new: "clone_find st k = None"
  shows "clones_ok me cs (clone_new k st)"
proof -
  let ?n = "ce_next st" and ?st = "clone_new k st"
  have tab: "clones_tab_ok st" and cnt: "clones_cnt_ok me cs st" using ok by (simp_all add: clones_ok_def)
  have fresh: "?n \<notin> set (clones_list st)" using tab by (auto simp: clones_tab_ok_def)
  have none: "ce_key st a \<noteq> k" if "a \<in> set (clones_list st)" for a
    using that new clone_find_None [OF tab] by blast
  have "c_hostip (cs c) \<noteq> k" if c: "c \<in> online st" for c
  proof -
    obtain a where "a \<in> set (clones_list st)" and h: "c_hostip (cs c) = ce_key st a"
      using online_host [OF cnt c] by blast
    with none [of a] show ?thesis unfolding h by blast
  qed
  moreover have "ip24_of (c_hostip (cs c)) \<noteq> Some k" if c: "c \<in> online st" for c
  proof -
    obtain a where "a \<in> set (clones_list st)" and h: "ip24_of (c_hostip (cs c)) = Some (ce_key st a)"
      using online_site [OF cnt c] by blast
    with none [of a] show ?thesis unfolding h by blast
  qed
  ultimately have zero: "clone_count cs (online st) k = 0 \<and> clone_count cs {c \<in> online st. c_uplink (cs c) = me} k = 0"
    by (simp add: clone_count_zero)
  have other: "ce_store ?st a = ce_store st a" if "a \<in> set (clones_list st)" for a
    using that fresh by (auto simp: clone_new_fields)
  have "clones_cnt_ok me cs ?st"
    using cnt zero fresh other unfolding clones_cnt_ok_def online_new [OF tab]
    by (auto simp: clone_new_fields)
  then show ?thesis using clone_new_tab [OF tab new] by (simp add: clones_ok_def)
qed

lemma get_clone_create:
  assumes ok: "clones_ok me cs st" and len: "length k \<le> HOSTIPLEN"
  obtains a st' where "get_clone k True st = Some (Some a, st')" and "clones_ok me cs st'"
    and "a \<in> set (clones_list st')" and "ce_key st' a = k" and "online st' = online st"
    and "set (clones_list st) \<subseteq> set (clones_list st')"
    and "\<forall>b\<in>set (clones_list st). ce_store st' b = ce_store st b" and "ce_throttles st' = ce_throttles st"
proof (cases "clone_find st k")
  case None
  have tab: "clones_tab_ok st" using ok by (simp add: clones_ok_def)
  then have "ce_next st \<notin> set (clones_list st)" by (auto simp: clones_tab_ok_def)
  with None len show thesis
    by (intro that [of "ce_next st" "clone_new k st"])
      (auto simp: get_clone_def clone_new_cnt [OF ok] online_new [OF tab] clone_new_fields)
next
  case (Some a)
  then have "a \<in> set (clones_list st) \<and> ce_key st a = k"
    using ok clone_find_exact [of st k a] by (simp add: clones_ok_def)
  with Some ok show thesis by (intro that [of a st]) (auto simp: get_clone_def)
qed

lemma ip24_of_len: "ip24_of h = Some s \<Longrightarrow> length h \<le> HOSTIPLEN \<and> length s \<le> HOSTIPLEN"
  by (auto simp: ip24_of_def Let_def split: if_splits)

lemma get_clones_create:
  assumes ok: "clones_ok me cs st" and ip: "ip24_of (c_hostip c) = Some site"
  obtains a b st' where "get_clones c True st = Some (Some a, Some b, st')" and "clones_ok me cs st'"
    and "a \<in> set (clones_list st')" and "ce_key st' a = c_hostip c"
    and "b \<in> set (clones_list st')" and "ce_key st' b = site" and "online st' = online st"
    and "set (clones_list st) \<subseteq> set (clones_list st')"
    and "\<forall>x\<in>set (clones_list st). ce_store st' x = ce_store st x" and "ce_throttles st' = ce_throttles st"
proof -
  obtain a st1 where 1: "get_clone (c_hostip c) True st = Some (Some a, st1)" "clones_ok me cs st1"
    "a \<in> set (clones_list st1)" "ce_key st1 a = c_hostip c" "online st1 = online st"
    "set (clones_list st) \<subseteq> set (clones_list st1)" "\<forall>x\<in>set (clones_list st). ce_store st1 x = ce_store st x"
    "ce_throttles st1 = ce_throttles st"
    by (rule get_clone_create [OF ok conjunct1 [OF ip24_of_len [OF ip]]]) (rule that)
  obtain b st2 where 2: "get_clone site True st1 = Some (Some b, st2)" "clones_ok me cs st2"
    "b \<in> set (clones_list st2)" "ce_key st2 b = site" "online st2 = online st1"
    "set (clones_list st1) \<subseteq> set (clones_list st2)" "\<forall>x\<in>set (clones_list st1). ce_store st2 x = ce_store st1 x"
    "ce_throttles st2 = ce_throttles st1"
    by (rule get_clone_create [OF 1(2) conjunct2 [OF ip24_of_len [OF ip]]]) (rule that)
  show thesis
    by (rule that [of a b st2]) (use 1 2 ip in \<open>auto simp: get_clones_def\<close>)
qed

subsection \<open>Adding a client\<close>

lemma clones_tab_cong:
  assumes "clones_tab_ok st" and "clones_list st' = clones_list st" and "clones_hashtable st' = clones_hashtable st"
    and "ce_next st' = ce_next st" and "\<And>x. ce_key st' x = ce_key st x"
  shows "clones_tab_ok st'"
  using assms by (simp add: clones_tab_ok_def)

text \<open>The entry after a client was linked or unlinked (\<open>g\<close>, \<open>l\<close> the change of the counts).\<close>

definition recount :: "addr \<Rightarrow> addr \<Rightarrow> (addr list \<Rightarrow> addr list) \<Rightarrow> int \<Rightarrow> int \<Rightarrow> clones_state \<Rightarrow> clones_state" where
  "recount a b F g l st = ce_update b (ce_count g l) (ce_update a (ce_count g l)
     (ce_update a (\<lambda>ce. ce\<lparr>ce_clients := F (ce_clients ce)\<rparr>) st))"

lemma recount_fields:
  "clones_list (recount a b F g l st) = clones_list st" "clones_hashtable (recount a b F g l st) = clones_hashtable st"
  "ce_next (recount a b F g l st) = ce_next st" "ce_throttles (recount a b F g l st) = ce_throttles st"
  "ce_key (recount a b F g l st) x = ce_key st x"
  "ce_clients (ce_store (recount a b F g l st) x) = (if x = a then F (ce_clients (ce_store st x)) else ce_clients (ce_store st x))"
  "ce_gcount (ce_store (recount a b F g l st) x) =
     ce_gcount (ce_store st x) + (if x = a then g else 0) + (if x = b then g else 0)"
  "ce_lcount (ce_store (recount a b F g l st) x) =
     ce_lcount (ce_store st x) + (if x = a then l else 0) + (if x = b then l else 0)"
  "ce_limit (ce_store (recount a b F g l st) x) = ce_limit (ce_store st x)"
  "ce_sllimit (ce_store (recount a b F g l st) x) = ce_sllimit (ce_store st x)"
  "ce_sglimit (ce_store (recount a b F g l st) x) = ce_sglimit (ce_store st x)"
  by (simp_all add: recount_def ce_update_def ce_count_def)

lemma recount_tab: "clones_tab_ok st \<Longrightarrow> clones_tab_ok (recount a b F g l st)"
  by (rule clones_tab_cong) (simp_all add: recount_fields)

text \<open>
  The counts match a set of clients \<open>S\<close>.  This form of the counting invariant is stable under
  linking and unlinking, where the set changes by one client.
\<close>

definition counts :: "addr \<Rightarrow> clients \<Rightarrow> addr set \<Rightarrow> clones_state \<Rightarrow> bool" where
  "counts me cs S st \<longleftrightarrow>
     (\<forall>x\<in>set (clones_list st).
        ce_gcount (ce_store st x) = clone_count cs S (ce_key st x) \<and>
        ce_lcount (ce_store st x) = clone_count cs {c \<in> S. c_uplink (cs c) = me} (ce_key st x))"

lemma counts_step:
  assumes tab: "clones_tab_ok st" and a: "a \<in> set (clones_list st)" "ce_key st a = c_hostip (cs c)"
    and b: "b \<in> set (clones_list st)" "ip24_of (c_hostip (cs c)) = Some (ce_key st b)"
    and S: "finite S" "c \<notin> S"
  shows "counts me cs S st \<Longrightarrow> counts me cs (insert c S) (recount a b F 1 (if c_uplink (cs c) = me then 1 else 0) st)"
    and "counts me cs (insert c S) st \<Longrightarrow> counts me cs S (recount a b F (- 1) (if c_uplink (cs c) = me then - 1 else 0) st)"
proof -
  have xa: "c_hostip (cs c) = ce_key st x \<longleftrightarrow> x = a" if "x \<in> set (clones_list st)" for x
    using ce_key_inj [OF tab that a(1)] a(2) by metis
  have xb: "ip24_of (c_hostip (cs c)) = Some (ce_key st x) \<longleftrightarrow> x = b" if "x \<in> set (clones_list st)" for x
    using ce_key_inj [OF tab that b(1)] b(2) by (metis option.inject)
  have cnt: "clone_count cs (insert c T) (ce_key st x) =
      clone_count cs T (ce_key st x) + (if x = a then 1 else 0) + (if x = b then 1 else 0)"
    if "x \<in> set (clones_list st)" "finite T" "c \<notin> T" for x T
    using clone_count_insert [OF that(2,3), of cs "ce_key st x"] xa [OF that(1)] xb [OF that(1)] by simp
  have loc: "{x \<in> insert c S. c_uplink (cs x) = me} = (if c_uplink (cs c) = me
      then insert c {x \<in> S. c_uplink (cs x) = me} else {x \<in> S. c_uplink (cs x) = me})" by auto
  show "counts me cs S st \<Longrightarrow> counts me cs (insert c S) (recount a b F 1 (if c_uplink (cs c) = me then 1 else 0) st)"
    using S by (simp add: counts_def recount_fields loc cnt del: insert_iff)
  show "counts me cs (insert c S) st \<Longrightarrow> counts me cs S (recount a b F (- 1) (if c_uplink (cs c) = me then - 1 else 0) st)"
    using S by (simp add: counts_def recount_fields loc cnt del: insert_iff)
qed

lemma clones_add_ok:
  assumes ok: "clones_ok me cs st" and ip: "ip24_of (c_hostip (cs c)) = Some site" and new: "c \<notin> online st"
    and loc: "MyConnect (cs c) \<longleftrightarrow> c_uplink (cs c) = me"
  obtains st' where "clones_add cs c st = Some st'" and "clones_ok me cs st'" and "online st' = insert c (online st)"
proof -
  obtain a b st1 where g: "get_clones (cs c) True st = Some (Some a, Some b, st1)" and ok1: "clones_ok me cs st1"
    and a: "a \<in> set (clones_list st1)" "ce_key st1 a = c_hostip (cs c)"
    and b: "b \<in> set (clones_list st1)" "ce_key st1 b = site" and on: "online st1 = online st"
    by (rule get_clones_create [OF ok ip]) (erule that, assumption+)
  let ?st = "recount a b (\<lambda>xs. c # xs) 1 (if c_uplink (cs c) = me then 1 else 0) st1"
  have tab: "clones_tab_ok st1" and cnt: "clones_cnt_ok me cs st1" using ok1 by (simp_all add: clones_ok_def)
  have "online ?st = insert c (online st1)"
    using a(1) by (auto simp: online_def recount_fields split: if_splits)
  then have onl: "online ?st = insert c (online st)" using on by simp
  have "counts me cs (online st1) st1" using cnt by (simp add: counts_def clones_cnt_ok_def)
  then have "counts me cs (online ?st) ?st"
    using counts_step(1) [where cs = cs and c = c, OF tab a b(1)] ip b(2) new on onl by simp
  moreover have "c \<notin> set (ce_clients (ce_store st1 x))" if "x \<in> set (clones_list st1)" for x
    using new on that by (auto simp: online_def)
  moreover have "\<exists>x\<in>set (clones_list st1). ip24_of (c_hostip (cs d)) = Some (ce_key st1 x)" if "d \<in> online ?st" for d
    using that online_site [OF cnt, of d] ip b onl on by auto
  ultimately have "clones_cnt_ok me cs ?st"
    using ce_clients_distinct [OF cnt] ce_clients_host [OF cnt] a
    unfolding clones_cnt_ok_def counts_def by (simp add: recount_fields)
  then have "clones_ok me cs ?st" using recount_tab [OF tab] by (simp add: clones_ok_def)
  moreover have "clones_add cs c st = Some ?st" using g loc by (simp add: clones_add_def recount_def Let_def)
  ultimately show thesis using onl by (intro that) 
qed

subsection \<open>Removing a client\<close>

lemma expire_fields:
  assumes "expire_clone a st = Some st'"
  shows "ce_store st' = ce_store st" and "ce_next st' = ce_next st" and "ce_throttles st' = ce_throttles st"
    and "a \<in> set (clones_list st)"
    and "clones_list st' = clones_list st \<and> clones_hashtable st' = clones_hashtable st \<or>
      clones_list st' = remove1 a (clones_list st) \<and> ce_gcount (ce_store st a) = 0 \<and>
      ce_limit (ce_store st a) = 0 \<and> ce_sllimit (ce_store st a) = 0 \<and> ce_sglimit (ce_store st a) = 0 \<and>
      clones_hashtable st' = snd (hash_delete (ce_key st) (clones_hashtable st) a)"
  using assms by (auto simp: expire_clone_def Let_def split: if_splits)

lemma expire_total: "a \<in> set (clones_list st) \<Longrightarrow> \<exists>st'. expire_clone a st = Some st'"
  by (simp add: expire_clone_def Let_def)

lemma expire_ok:
  assumes ok: "clones_ok me cs st" and e: "expire_clone a st = Some st'"
  shows "clones_ok me cs st' \<and> online st' = online st"
  using expire_fields(5) [OF e]
proof
  assume same: "clones_list st' = clones_list st \<and> clones_hashtable st' = clones_hashtable st"
  then have "online st' = online st" using expire_fields(1) [OF e] by (simp add: online_def)
  then show ?thesis
    using ok same expire_fields(1,2) [OF e] by (simp add: clones_ok_def clones_tab_ok_def clones_cnt_ok_def)
next
  assume gone: "clones_list st' = remove1 a (clones_list st) \<and> ce_gcount (ce_store st a) = 0 \<and>
      ce_limit (ce_store st a) = 0 \<and> ce_sllimit (ce_store st a) = 0 \<and> ce_sglimit (ce_store st a) = 0 \<and>
      clones_hashtable st' = snd (hash_delete (ce_key st) (clones_hashtable st) a)"
  note a = expire_fields(4) [OF e] and store = expire_fields(1) [OF e]
  have tab: "clones_tab_ok st" and cnt: "clones_cnt_ok me cs st" using ok by (simp_all add: clones_ok_def)
  have d: "distinct (clones_list st)" using tab by (simp add: clones_tab_ok_def)
  have "clone_count cs (online st) (ce_key st a) = 0" using gone ce_gcount_eq [OF cnt a] by simp
  then have none: "c_hostip (cs c) \<noteq> ce_key st a" "ip24_of (c_hostip (cs c)) \<noteq> Some (ce_key st a)"
    if "c \<in> online st" for c using that clone_count_zero [OF finite_online] by blast+
  have "ce_clients (ce_store st a) = []"
  proof (rule ccontr)
    assume "ce_clients (ce_store st a) \<noteq> []"
    then obtain c where c: "c \<in> set (ce_clients (ce_store st a))" by fastforce
    then have "c \<in> online st" using a by (auto simp: online_def)
    with none(1) ce_clients_host [OF cnt a c] show False by blast
  qed
  then have on: "online st' = online st" using gone store d by (auto simp: online_def)
  have l: "set (clones_list st') = set (clones_list st) - {a}" using gone d by simp
  have site: "\<exists>x\<in>set (clones_list st'). ip24_of (c_hostip (cs c)) = Some (ce_key st x)" if "c \<in> online st" for c
    using online_site [OF cnt that] none(2) [OF that] l by (metis Diff_iff singletonD)
  have "clones_cnt_ok me cs st'"
    unfolding clones_cnt_ok_def on store
    using ce_gcount_eq [OF cnt] ce_lcount_eq [OF cnt] ce_clients_distinct [OF cnt] ce_clients_host [OF cnt] site l
    by blast
  moreover have "clones_tab_ok st'"
    using tab gone d l store expire_fields(2) [OF e]
    by (simp add: clones_tab_ok_def ht_ok_delete ht_entries_delete distinct_remove1)
  ultimately show ?thesis using on by (simp add: clones_ok_def)
qed

lemma get_clone_find: "get_clone k False st = Some (clone_find st k, st)"
  by (simp add: get_clone_def split: option.split)

lemma clones_remove_ok:
  assumes ok: "clones_ok me cs st" and c: "c \<in> online st" and site: "ip24_of (c_hostip (cs c)) \<noteq> Some (c_hostip (cs c))"
  obtains st' where "clones_remove me cs c st = Some st'" and "clones_ok me cs st'" and "online st' = online st - {c}"
proof -
  have tab: "clones_tab_ok st" and cnt: "clones_cnt_ok me cs st" using ok by (simp_all add: clones_ok_def)
  obtain a where a: "a \<in> set (clones_list st)" "c \<in> set (ce_clients (ce_store st a))" "ce_key st a = c_hostip (cs c)"
    using online_host [OF cnt c] by metis
  obtain b where b: "b \<in> set (clones_list st)" "ip24_of (c_hostip (cs c)) = Some (ce_key st b)"
    using online_site [OF cnt c] by blast
  have ab: "a \<noteq> b" using a(3) b(2) site by auto
  have g: "get_clones (cs c) False st = Some (Some a, Some b, st)"
    using a b clone_find_exact [OF tab] by (auto simp: get_clones_def get_clone_find)
  let ?st = "recount a b (remove1 c) (- 1) (if c_uplink (cs c) = me then - 1 else 0) st"
  have in_a: "x = a" if "x \<in> set (clones_list st)" "c \<in> set (ce_clients (ce_store st x))" for x
    using ce_key_inj [OF tab that(1) a(1)] ce_clients_host [OF cnt that] a(3) by simp
  have cl: "set (ce_clients (ce_store ?st x)) = set (ce_clients (ce_store st x)) - {c}" if "x \<in> set (clones_list st)" for x
    using in_a [OF that] ce_clients_distinct [OF cnt that] by (cases "x = a") (auto simp: recount_fields)
  have onl: "online ?st = online st - {c}"
    unfolding online_def recount_fields(1) using cl by blast
  have "counts me cs (insert c (online st - {c})) st"
    using cnt c by (simp add: counts_def clones_cnt_ok_def insert_absorb)
  then have "counts me cs (online ?st) ?st"
    using counts_step(2) [where cs = cs and c = c and S = "online st - {c}", OF tab a(1,3) b] onl by simp
  moreover have "distinct (ce_clients (ce_store ?st x)) \<and> (\<forall>d\<in>set (ce_clients (ce_store ?st x)). c_hostip (cs d) = ce_key st x)"
    if "x \<in> set (clones_list st)" for x
    using ce_clients_distinct [OF cnt that] ce_clients_host [OF cnt that]
    by (auto simp: recount_fields distinct_remove1 dest: notin_set_remove1 [rotated])
  ultimately have "clones_cnt_ok me cs ?st"
    using online_site [OF cnt] onl unfolding clones_cnt_ok_def counts_def by (simp add: recount_fields)
  then have ok2: "clones_ok me cs ?st" using recount_tab [OF tab] by (simp add: clones_ok_def)
  obtain st3 where e3: "expire_clone a ?st = Some st3"
    using expire_total [of a ?st] a(1) by (auto simp: recount_fields)
  have "b \<in> set (clones_list st3)"
    using expire_fields(5) [OF e3] b(1) ab by (auto simp: recount_fields)
  then obtain st4 where e4: "expire_clone b st3 = Some st4" using expire_total by blast
  have "clones_remove me cs c st = Some st4"
    using g a(2) e3 e4 by (simp add: clones_remove_def Let_def recount_def)
  moreover note expire_ok [OF ok2 e3]
  ultimately show thesis using expire_ok [of me cs st3 b st4] e4 onl by (intro that [of st4]) auto
qed

subsection \<open>Limits and verdicts\<close>

text \<open>Changing the limits of an entry.\<close>

definition keeps_counts :: "(CloneEnt \<Rightarrow> CloneEnt) \<Rightarrow> bool" where
  "keeps_counts f \<longleftrightarrow> (\<forall>ce. ce_clients (f ce) = ce_clients ce \<and> ce_gcount (f ce) = ce_gcount ce \<and>
     ce_lcount (f ce) = ce_lcount ce \<and> ce_ent (f ce) = ce_ent ce)"

lemma limit_update_ok:
  assumes ok: "clones_ok me cs st" and f: "keeps_counts f"
  shows "clones_ok me cs (ce_update a f st) \<and> online (ce_update a f st) = online st"
proof -
  have s: "ce_clients (ce_store (ce_update a f st) x) = ce_clients (ce_store st x)"
    "ce_gcount (ce_store (ce_update a f st) x) = ce_gcount (ce_store st x)"
    "ce_lcount (ce_store (ce_update a f st) x) = ce_lcount (ce_store st x)"
    "ce_key (ce_update a f st) x = ce_key st x" for x
    using f by (auto simp: ce_update_def keeps_counts_def)
  have o: "clones_list (ce_update a f st) = clones_list st" by (simp add: ce_update_def)
  have "online (ce_update a f st) = online st" by (simp add: online_def o s)
  moreover have "clones_tab_ok (ce_update a f st)"
    by (rule clones_tab_cong [of st]) (use ok s in \<open>auto simp: clones_ok_def ce_update_def\<close>)
  ultimately show ?thesis using ok by (simp add: clones_ok_def clones_cnt_ok_def o s)
qed

definition new_limits :: "int \<Rightarrow> int \<Rightarrow> int \<times> int \<times> int \<Rightarrow> int \<times> int \<times> int" where
  "new_limits type limit = (\<lambda>(h, sg, sl).
     if type = CLIM_HARD_GLOBAL then (limit, if limit \<noteq> 0 \<and> sg > limit then 0 else sg, sl)
     else if type = CLIM_SOFT_GLOBAL then (h, limit, sl)
     else if type = CLIM_SOFT_LOCAL then (h, sg, limit) else (h, sg, sl))"

lemma expire_get:
  assumes tab: "clones_tab_ok st" and tab': "clones_tab_ok st'" and e: "expire_clone a st = Some st'"
  shows "clones_get k st' = clones_get k st"
proof (cases "clone_find st k = Some a \<and> clones_list st' \<noteq> clones_list st")
  case True
  have d: "distinct (clones_list st)" using tab by (simp add: clones_tab_ok_def)
  have gone: "clones_list st' = remove1 a (clones_list st)" "ce_limit (ce_store st a) = 0"
    "ce_sllimit (ce_store st a) = 0" "ce_sglimit (ce_store st a) = 0"
    using expire_fields(5) [OF e] True by auto
  have "clone_find st' k \<noteq> Some x" for x
  proof
    assume "clone_find st' k = Some x"
    then have x: "x \<in> set (clones_list st) - {a}" "ce_key st x = k"
      using clone_find_exact [OF tab', of k x] gone(1) d expire_fields(1) [OF e] by auto
    moreover have "a \<in> set (clones_list st)" "ce_key st a = k" using True clone_find_exact [OF tab] by auto
    ultimately show False using ce_key_inj [OF tab, of x a] by simp
  qed
  then have "clone_find st' k = None" by (metis not_None_eq)
  with gone True show ?thesis by (simp add: clones_get_def)
next
  case False
  have "clone_find st' k = Some x \<longleftrightarrow> clone_find st k = Some x" for x
    using expire_fields(1,5) [OF e] False tab clone_find_exact [OF tab, of k] clone_find_exact [OF tab', of k x]
    by (auto simp: clones_tab_ok_def)
  then have "clone_find st' k = clone_find st k" by (metis not_None_eq)
  then show ?thesis unfolding clones_get_def expire_fields(1) [OF e] by simp
qed

lemma get_clone_limits:
  assumes ok: "clones_ok me cs st" and g: "get_clone k True st = Some (Some a, st')"
  shows "clones_get j st' = clones_get j st"
proof (cases "clone_find st k")
  case None
  have tab: "clones_tab_ok st" using ok by (simp add: clones_ok_def)
  have st': "a = ce_next st" "st' = clone_new k st" using g None by (auto simp: get_clone_def split: if_splits)
  have tab': "clones_tab_ok st'" unfolding st' using tab None by (rule clone_new_tab)
  have fresh: "ce_next st \<notin> set (clones_list st)" using tab by (auto simp: clones_tab_ok_def)
  show ?thesis
  proof (cases "j = k")
    case True
    then have "clone_find st' j = Some a" using clone_find_exact [OF tab', of j a] by (simp add: st' clone_new_fields)
    then show ?thesis using True None by (simp add: clones_get_def st' clone_new_fields)
  next
    case False
    have "clone_find st' j = Some x \<longleftrightarrow> clone_find st j = Some x" for x
      using False fresh clone_find_exact [OF tab', of j x] clone_find_exact [OF tab, of j x]
      by (auto simp: st' clone_new_fields)
    then have same: "clone_find st' j = clone_find st j" by (metis not_None_eq)
    have "x \<noteq> ce_next st" if "clone_find st j = Some x" for x using that fresh clone_find_exact [OF tab] by auto
    then show ?thesis unfolding clones_get_def same by (auto simp: st' clone_new_fields split: option.split)
  qed
next
  case (Some b)
  with g show ?thesis by (simp add: get_clone_def)
qed

lemma throttle_force_len:
  "length h \<le> HOSTIPLEN \<Longrightarrow> \<exists>th. throttle_force NOW h st = Some th"
  by (auto simp: throttle_force_def Let_def split: option.split)

definition example_clones :: clones_state where
  "example_clones = clones_init (\<lambda>_. \<lparr>ce_clients = [], ce_lcount = 0, ce_gcount = 0, ce_limit = 0, ce_sllimit = 0,
     ce_sglimit = 0, ce_ent = []\<rparr>) example_throttles"

definition example_local :: aClient where
  "example_local = (example_client ''Nick'')\<lparr>c_fd := 9, c_uplink := 2\<rparr>"

lemma example_clones_facts:
  "clones_ok 2 cs example_clones" "online example_clones = {}" "clones_get k example_clones = (0, 0, 0)"
  "c_hostip example_local = ''10.0.0.1''" "ip24_of ''10.0.0.1'' = Some ''10.0.0.*''"
  "MyConnect example_local" "c_uplink example_local = 2"
proof -
  show "clones_ok 2 cs example_clones" by (simp add: example_clones_def clones_init_ok)
  show "ip24_of ''10.0.0.1'' = Some ''10.0.0.*''" by (simp add: ip24_of_def HOSTIPLEN_def)
qed (simp_all add: example_clones_def clones_init_def online_def clones_get_def clone_find_def hash_find_def
    create_hash_table_def example_local_def example_client_def MyConnect_def)

subsection \<open>Properties\<close>

text \<open>
  C32: the counters are exact.  In a consistent state (every entry's global count is the number
  of counted clients with that address or in that site, its local count the number of those
  that are local), adding a client with a valid address that is not counted yet succeeds, keeps
  the state consistent and counts exactly this client in addition; removing a counted client
  succeeds, never touches a freed entry, keeps the state consistent and uncounts exactly this
  client.  A client is counted local when added if it has a file descriptor and uncounted local
  if its uplink is this server, so the two have to agree.
\<close>

theorem clones_counts_exact:
  "(clones_ok me cs st \<and> ip24_of (c_hostip (cs c)) = Some site \<and> c \<notin> online st \<and>
      (MyConnect (cs c) \<longleftrightarrow> c_uplink (cs c) = me) \<longrightarrow>
      (\<exists>st'. clones_add cs c st = Some st' \<and> clones_ok me cs st' \<and> online st' = insert c (online st))) \<and>
   (clones_ok me cs st \<and> c \<in> online st \<and> ip24_of (c_hostip (cs c)) \<noteq> Some (c_hostip (cs c)) \<longrightarrow>
      (\<exists>st'. clones_remove me cs c st = Some st' \<and> clones_ok me cs st' \<and> online st' = online st - {c}))"
proof (intro conjI impI)
  assume "clones_ok me cs st \<and> ip24_of (c_hostip (cs c)) = Some site \<and> c \<notin> online st \<and>
      (MyConnect (cs c) \<longleftrightarrow> c_uplink (cs c) = me)"
  then show "\<exists>st'. clones_add cs c st = Some st' \<and> clones_ok me cs st' \<and> online st' = insert c (online st)"
    using clones_add_ok [of me cs st c site] by blast
next
  assume "clones_ok me cs st \<and> c \<in> online st \<and> ip24_of (c_hostip (cs c)) \<noteq> Some (c_hostip (cs c))"
  then show "\<exists>st'. clones_remove me cs c st = Some st' \<and> clones_ok me cs st' \<and> online st' = online st - {c}"
    using clones_remove_ok [of me cs st c] by blast
qed

theorem clones_counts_exact_witness:
  "\<exists>st'. clones_add (\<lambda>_. example_local) 4 example_clones = Some st' \<and>
     clones_ok 2 (\<lambda>_. example_local) st' \<and> online st' = {4}"
  using clones_counts_exact [of 2 "\<lambda>_. example_local" example_clones 4 "''10.0.0.*''"]
  by (simp add: example_clones_facts)

text \<open>
  For an address and site without limits of their own and a class without limits,
  \<open>clones_check\<close> rejects with 1 exactly when the clients counted from the same address reach
  the local or the global default, otherwise with 2 exactly when those of the site reach a site
  default, and accepts otherwise; a rejection forces the throttle of the address, an acceptance
  changes nothing.
\<close>

lemma clones_check_verdict:
  assumes ok: "clones_ok me cs st" and u: "c_user c = Some u" and ip: "ip24_of (c_hostip c) = Some site"
    and cl: "cl_connfreq (u_class u) = 0" "cl_ip24clones (u_class u) = 0"
    and none: "clones_get (c_hostip c) st = (0, 0, 0)" "clones_get site st = (0, 0, 0)"
    and pos: "0 < local_ip_limit cfg" "0 < global_ip_limit cfg" "0 < local_ip24_limit cfg" "0 < global_ip24_limit cfg"
  shows "\<exists>r st' ev. clones_check NOW cfg c st = Some (r, st', ev) \<and>
    r = (let loc = (\<lambda>e. clone_count cs {c \<in> online st. c_uplink (cs c) = me} e); glob = clone_count cs (online st) in
         if loc (c_hostip c) \<ge> local_ip_limit cfg \<or> glob (c_hostip c) \<ge> global_ip_limit cfg then 1
         else if loc site \<ge> local_ip24_limit cfg \<or> glob site \<ge> global_ip24_limit cfg then 2 else 0) \<and>
    (if r = 0 then st' = st else throttle_force NOW (c_hostip c) (ce_throttles st) = Some (ce_throttles st'))"
proof -
  have tab: "clones_tab_ok st" and cnt: "clones_cnt_ok me cs st" using ok by (simp_all add: clones_ok_def)
  obtain th where th: "throttle_force NOW (c_hostip c) (ce_throttles st) = Some th"
    using throttle_force_len [OF conjunct1 [OF ip24_of_len [OF ip]]] by blast
  have g: "get_clones c False st = Some (clone_find st (c_hostip c), clone_find st site, st)"
    by (simp add: get_clones_def ip get_clone_find)
  have ent: "ce_gcount (ce_store st a) = clone_count cs (online st) k \<and>
      ce_lcount (ce_store st a) = clone_count cs {c \<in> online st. c_uplink (cs c) = me} k"
    if "clone_find st k = Some a" for a k
    using that clone_find_exact [OF tab] ce_gcount_eq [OF cnt] ce_lcount_eq [OF cnt] by auto
  have empty: "clone_count cs (online st) k = 0 \<and> clone_count cs {c \<in> online st. c_uplink (cs c) = me} k = 0"
    if n: "clone_find st k = None" for k
  proof -
    have "c_hostip (cs d) \<noteq> k \<and> ip24_of (c_hostip (cs d)) \<noteq> Some k" if "d \<in> online st" for d
      using n online_host [OF cnt that] online_site [OF cnt that] clone_find_None [OF tab] by auto
    then show ?thesis by (simp add: clone_count_zero)
  qed
  show ?thesis
    using none cl pos ent [of "c_hostip c"] ent [of site] empty [of "c_hostip c"] empty [of site]
    by (cases "clone_find st (c_hostip c)"; cases "clone_find st site")
      (simp_all add: clones_check_def g u clones_check_ip24_def ip_local_limit_def ip_global_limit_def
        ip24_local_limit_def ip24_global_limit_def report_lclone_def report_gclone_def th clones_get_def Let_def)
qed

text \<open>
  Setting a limit for an entity that fits its field succeeds, returns the previous value of
  that limit, and afterwards \<open>clones_get\<close> gives the new value (a new hard limit also drops a
  soft global limit above it), the other limits of the entity and of all other entities as
  before; the counts stay exact, also when the entry is created for it or expires with it.
\<close>

lemma clones_set_get:
  assumes ok: "clones_ok me cs st" and len: "length ent \<le> HOSTIPLEN" and lim: "0 \<le> limit"
  shows "\<exists>st'. clones_set ent type limit st =
      Some (case clones_get ent st of (h, sg, sl) \<Rightarrow>
              if type = CLIM_HARD_GLOBAL then h else if type = CLIM_SOFT_GLOBAL then sg
              else if type = CLIM_SOFT_LOCAL then sl else 0, st') \<and>
    clones_ok me cs st' \<and> online st' = online st \<and>
    clones_get ent st' = new_limits type limit (clones_get ent st) \<and>
    (\<forall>k. k \<noteq> ent \<longrightarrow> clones_get k st' = clones_get k st)"
proof -
  obtain a st1 where g: "get_clone ent True st = Some (Some a, st1)" and ok1: "clones_ok me cs st1"
    and a: "a \<in> set (clones_list st1)" "ce_key st1 a = ent" and on: "online st1 = online st"
    by (rule get_clone_create [OF ok len]) (erule that, assumption+)
  define f :: "CloneEnt \<Rightarrow> CloneEnt" where "f = (if type = CLIM_HARD_GLOBAL
       then (\<lambda>ce. ce\<lparr>ce_limit := limit, ce_sglimit := (if limit \<noteq> 0 \<and> ce_sglimit ce > limit then 0 else ce_sglimit ce)\<rparr>)
       else if type = CLIM_SOFT_GLOBAL then (\<lambda>ce. ce\<lparr>ce_sglimit := limit\<rparr>)
       else if type = CLIM_SOFT_LOCAL then (\<lambda>ce. ce\<lparr>ce_sllimit := limit\<rparr>) else id)"
  let ?st = "ce_update a f st1"
  have f: "keeps_counts f" by (simp add: f_def keeps_counts_def)
  note u = limit_update_ok [OF ok1 f, of a]
  have a': "a \<in> set (clones_list ?st)" using a(1) by (simp add: ce_update_def)
  then obtain st2 where e: "expire_clone a ?st = Some st2" using expire_total by blast
  note ok2 = expire_ok [OF conjunct1 [OF u] e]
  have tab1: "clones_tab_ok st1" and tabu: "clones_tab_ok ?st" and tab2: "clones_tab_ok st2"
    using ok1 u ok2 by (simp_all add: clones_ok_def)
  have fnd: "clone_find st1 ent = Some a" using clone_find_exact [OF tab1] a by simp
  have fndu: "clone_find ?st k = clone_find st1 k" for k
  proof -
    have "ce_key ?st x = ce_key st1 x" for x using f by (simp add: ce_update_def keeps_counts_def)
    then show ?thesis by (simp add: clone_find_def ce_update_def)
  qed
  have getu: "clones_get k ?st = (if k = ent then new_limits type limit (clones_get ent st1) else clones_get k st1)" for k
  proof (cases "k = ent")
    case True
    then show ?thesis unfolding clones_get_def fndu
      by (simp add: fnd ce_update_def f_def new_limits_def)
  next
    case False
    then have "clone_find st1 k \<noteq> Some a" using clone_find_exact [OF tab1] a by auto
    with False show ?thesis unfolding clones_get_def fndu by (auto simp: ce_update_def split: option.split)
  qed
  have "clones_set ent type limit st = Some (case clones_get ent st1 of (h, sg, sl) \<Rightarrow>
              if type = CLIM_HARD_GLOBAL then h else if type = CLIM_SOFT_GLOBAL then sg
              else if type = CLIM_SOFT_LOCAL then sl else 0, st2)"
    using len lim g e fnd unfolding f_def
    by (auto simp: clones_set_def clones_get_def Let_def CLIM_HARD_GLOBAL_def CLIM_SOFT_GLOBAL_def CLIM_SOFT_LOCAL_def
        split: if_splits)
  then show ?thesis
    using ok2 u on getu expire_get [OF tabu tab2 e] get_clone_limits [OF ok g] by auto
qed

end
