(* ===== verification/Inet.thy ===== *)
theory Inet
  imports Client_Types
begin

section \<open>IPv4 addresses (src/src/inet_addr.c, src/src/support.c, src/src/userban.c)\<close>

text \<open>
  Parsing and printing of dotted addresses and the conversion between prefix lengths and
  netmasks.  An address (\<^verbatim>\<open>s_addr\<close>) is the 32-bit word whose bytes, in memory order,
  are the four parts; the model is that of a little-endian host, so the first byte in memory is
  the least significant one and \<^verbatim>\<open>htonl\<close> reverses the bytes.  \<^verbatim>\<open>u_long\<close> has
  64 bits.
\<close>

type_synonym ulong = "64 word"

definition mem_byte :: "nat \<Rightarrow> u32 \<Rightarrow> nat" where
  "mem_byte i w = unat (drop_bit (8 * i) w AND 0xFF)"

definition htonl :: "u32 \<Rightarrow> u32" where
  "htonl w = push_bit 24 (w AND 0xFF) OR push_bit 8 (w AND 0xFF00) OR
     drop_bit 8 (w AND 0xFF0000) OR drop_bit 24 w"

definition INADDR_NONE :: u32 where "INADDR_NONE = 0xffffffff"

definition IsAscii :: "char \<Rightarrow> bool" where
  "IsAscii c \<longleftrightarrow> of_char c \<le> (0x7f::nat)"

definition IsLower :: "char \<Rightarrow> bool" where
  "IsLower c \<longleftrightarrow> IsAlpha c \<and> of_char c > (0x5f::nat)"

definition IsXDigit :: "char \<Rightarrow> bool" where
  "IsXDigit c \<longleftrightarrow>
     (let n = of_char c :: nat in 48 \<le> n \<and> n \<le> 57 \<or> 97 \<le> n \<and> n \<le> 102 \<or> 65 \<le> n \<and> n \<le> 70)"

text \<open>The inner loop of \<open>inet_aton\<close>: collect a number in the given base.\<close>

fun inet_digits :: "nat \<Rightarrow> ulong \<Rightarrow> cstr \<Rightarrow> ulong \<times> cstr" where
  "inet_digits base val [] = (val, [])"
| "inet_digits base val (c # cp) =
     (if IsAscii c \<and> IsDigit c
      then inet_digits base (val * of_nat base + of_nat (of_char c - 48)) cp
      else if base = 16 \<and> IsAscii c \<and> IsXDigit c
      then inet_digits base (push_bit 4 val + of_nat (of_char c + 10 - (if IsLower c then 97 else 65))) cp
      else (val, c # cp))"

definition inet_number :: "cstr \<Rightarrow> ulong \<times> cstr" where
  "inet_number cp =
     (case cp of
        c # cp1 \<Rightarrow>
          if c = CHR ''0'' then
            (case cp1 of
               x # cp2 \<Rightarrow> if x = CHR ''x'' \<or> x = CHR ''X'' then inet_digits 16 0 cp2 else inet_digits 8 0 cp1
             | [] \<Rightarrow> inet_digits 8 0 cp1)
          else inet_digits 10 0 cp
      | [] \<Rightarrow> (0, []))"

lemma inet_digits_length: "length (snd (inet_digits b v cp)) \<le> length cp"
  by (induction b v cp rule: inet_digits.induct) auto

lemma inet_number_length: "length (snd (inet_number cp)) \<le> length cp"
  unfolding inet_number_def
  by (auto split: list.split intro: inet_digits_length le_trans [OF inet_digits_length])

text \<open>The outer loop: the parts before the last one, the last value and the rest of the string.\<close>

function inet_parts :: "u32 list \<Rightarrow> cstr \<Rightarrow> (u32 list \<times> ulong \<times> cstr) option" where
  "inet_parts parts cp =
     (let (val, rest) = inet_number cp in
      case rest of
        c # cp1 \<Rightarrow>
          if c = CHR ''.'' then
            if length parts \<ge> 3 \<or> val > 0xff then None
            else inet_parts (parts @ [ucast val]) cp1
          else Some (parts, val, rest)
      | [] \<Rightarrow> Some (parts, val, rest))"
  by pat_completeness auto
termination inet_parts
proof (relation "measure (\<lambda>(parts, cp). length cp)", simp)
  fix parts :: "u32 list" and cp x val rest c cp1
  assume "x = inet_number cp" and "(val, rest) = x" and "rest = c # cp1"
  then have "snd (inet_number cp) = c # cp1" by (metis snd_conv)
  then show "((parts @ [ucast val], cp1), parts, cp) \<in> measure (\<lambda>(parts, cp). length cp)"
    using inet_number_length [of cp] by simp
qed

definition inet_aton :: "cstr \<Rightarrow> u32 option" where
  "inet_aton cp =
     (case inet_parts [] cp of
        None \<Rightarrow> None
      | Some (parts, val, rest) \<Rightarrow>
          if (case rest of [] \<Rightarrow> False | c # _ \<Rightarrow> \<not> IsAscii c \<or> \<not> IsSpace c) then None
          else if length parts = 0 then Some (htonl (ucast val))
          else if length parts = 1 then
            if val > 0xffffff then None else Some (htonl (ucast val OR push_bit 24 (parts ! 0)))
          else if length parts = 2 then
            if val > 0xffff then None
            else Some (htonl (ucast val OR (push_bit 24 (parts ! 0) OR push_bit 16 (parts ! 1))))
          else
            if val > 0xff then None
            else Some (htonl (ucast val OR
              ((push_bit 24 (parts ! 0) OR push_bit 16 (parts ! 1)) OR push_bit 8 (parts ! 2)))))"

definition inet_addr :: "cstr \<Rightarrow> u32" where
  "inet_addr cp = (case inet_aton cp of Some a \<Rightarrow> a | None \<Rightarrow> INADDR_NONE)"

text \<open>Printing: \<^verbatim>\<open>%d\<close> of a byte, and \<open>inetntoa\<close>.\<close>

definition digit :: "nat \<Rightarrow> char" where
  "digit n = char_of (48 + n)"

definition byte_dec :: "nat \<Rightarrow> cstr" where
  "byte_dec n =
     (if n < 10 then [digit n]
      else if n < 100 then [digit (n div 10), digit (n mod 10)]
      else [digit (n div 100), digit (n div 10 mod 10), digit (n mod 10)])"

definition inetntoa :: "u32 \<Rightarrow> cstr" where
  "inetntoa w =
     byte_dec (mem_byte 0 w) @ ''.'' @ byte_dec (mem_byte 1 w) @ ''.'' @
     byte_dec (mem_byte 2 w) @ ''.'' @ byte_dec (mem_byte 3 w)"

definition cidr_to_netmask :: "nat \<Rightarrow> u32" where
  "cidr_to_netmask cidr = (if cidr = 0 then 0 else 0xFFFFFFFF - push_bit (32 - cidr) 1 + 1)"

function netmask_loop :: "u32 \<Rightarrow> nat \<Rightarrow> nat" where
  "netmask_loop m tmp = (if m AND push_bit tmp 1 = 0 \<and> tmp < 32 then netmask_loop m (tmp + 1) else tmp)"
  by pat_completeness auto
termination netmask_loop
  by (relation "measure (\<lambda>(m, tmp). 32 - tmp)") auto

definition netmask_to_cidr :: "u32 \<Rightarrow> nat" where
  "netmask_to_cidr m = 32 - netmask_loop m 0"

subsection \<open>Bytes\<close>

lemma mem_byte_less: "mem_byte i w < 256"
proof -
  have "drop_bit (8 * i) w AND 0xFF \<le> 0xFF" by (simp add: word_and_le1)
  then have "unat (drop_bit (8 * i) w AND 0xFF) \<le> unat (0xFF :: u32)" by (simp only: word_le_nat_alt)
  then show ?thesis by (simp add: mem_byte_def)
qed

lemma of_mem_byte: "(of_nat (mem_byte i w) :: u32) = drop_bit (8 * i) w AND 0xFF"
  by (simp add: mem_byte_def)

lemma byte_masks:
  "(0xFF :: u32) = mask 8" "(0xFF00 :: u32) = push_bit 8 (mask 8)" "(0xFF0000 :: u32) = push_bit 16 (mask 8)"
  by (simp_all add: mask_eq_exp_minus_1)

lemma bit_beyond: "32 \<le> n \<Longrightarrow> \<not> bit (w :: u32) n"
  using bit_imp_le_length [of w n] by auto

text \<open>Bits of the byte-swapped word, byte by byte.\<close>

lemma bit_htonl:
  "n < 8 \<Longrightarrow> bit (htonl w) n = bit w (n + 24)"
  "8 \<le> n \<Longrightarrow> n < 16 \<Longrightarrow> bit (htonl w) n = bit w (n + 8)"
  "16 \<le> n \<Longrightarrow> n < 24 \<Longrightarrow> bit (htonl w) n = bit w (n - 8)"
  "24 \<le> n \<Longrightarrow> n < 32 \<Longrightarrow> bit (htonl w) n = bit w (n - 24)"
  unfolding htonl_def byte_masks by (auto simp: bit_simps bit_beyond add.commute)

lemma byte_cases:
  assumes "n < (32::nat)"
  obtains "n < 8" | "8 \<le> n" "n < 16" | "16 \<le> n" "n < 24" | "24 \<le> n" "n < 32"
  using assms by linarith

lemma htonl_htonl: "htonl (htonl w) = w"
proof (rule bit_word_eqI)
  fix n
  assume "n < LENGTH(32)"
  then have "n < 32" by simp
  then show "bit (htonl (htonl w)) n = bit w n"
    by (rule byte_cases) (simp_all add: bit_htonl)
qed

lemma htonl_bytes:
  "htonl (of_nat (mem_byte 3 w) OR ((push_bit 24 (of_nat (mem_byte 0 w)) OR push_bit 16 (of_nat (mem_byte 1 w))) OR
     push_bit 8 (of_nat (mem_byte 2 w)))) = w"
proof (rule bit_word_eqI)
  fix n
  assume "n < LENGTH(32)"
  then have "n < 32" by simp
  then show "bit (htonl (of_nat (mem_byte 3 w) OR ((push_bit 24 (of_nat (mem_byte 0 w)) OR
      push_bit 16 (of_nat (mem_byte 1 w))) OR push_bit 8 (of_nat (mem_byte 2 w))))) n = bit w n"
    by (rule byte_cases) (auto simp: bit_htonl of_mem_byte byte_masks bit_simps bit_beyond)
qed

subsection \<open>Printing and parsing\<close>

lemma of_char_digit: "d < 10 \<Longrightarrow> of_char (digit d) = 48 + d"
  by (simp add: digit_def)

lemma digit_classes: "d < 10 \<Longrightarrow> IsAscii (digit d) \<and> IsDigit (digit d) \<and> (digit d = CHR ''0'' \<longleftrightarrow> d = 0)"
proof -
  assume d: "d < 10"
  have "digit d = CHR ''0'' \<longleftrightarrow> of_char (digit d) = (of_char CHR ''0'' :: nat)" by (simp only: of_char_eq_iff)
  then show ?thesis using d by (simp add: IsAscii_def IsDigit_iff of_char_digit)
qed

lemma inet_digits_step [simp]:
  "d < 10 \<Longrightarrow> inet_digits b v (digit d # cp) = inet_digits b (v * of_nat b + of_nat d) cp"
  by (simp add: digit_classes of_char_digit)

definition number_ends :: "cstr \<Rightarrow> bool" where
  "number_ends rest \<longleftrightarrow> rest = [] \<or> hd rest = CHR ''.''"

lemma inet_digits_stop: "number_ends rest \<Longrightarrow> inet_digits b v rest = (v, rest)"
  by (cases rest) (auto simp: number_ends_def IsDigit_iff IsXDigit_def)

lemma inet_number_byte:
  assumes "n < 256" and "number_ends rest"
  shows "inet_number (byte_dec n @ rest) = (of_nat n, rest)"
proof -
  consider "n = 0" | "0 < n" "n < 10" | "10 \<le> n" "n < 100" | "100 \<le> n" by linarith
  then show ?thesis
  proof cases
    case 1
    then show ?thesis using assms(2) digit_classes [of 0] inet_digits_stop [OF assms(2), of 8 0]
      by (cases rest) (auto simp: byte_dec_def inet_number_def number_ends_def)
  next
    case 2
    then show ?thesis using digit_classes [of n] inet_digits_stop [OF assms(2)]
      by (simp add: byte_dec_def inet_number_def del: inet_digits.simps)
  next
    case 3
    then have "n div 10 < 10" "0 < n div 10" "n mod 10 < 10" by auto
    moreover have "of_nat (n div 10) * 10 + of_nat (n mod 10) = (of_nat n :: ulong)"
      by (metis div_mult_mod_eq of_nat_add of_nat_mult of_nat_numeral)
    ultimately show ?thesis using 3 digit_classes [of "n div 10"] inet_digits_stop [OF assms(2)]
      by (simp add: byte_dec_def inet_number_def del: inet_digits.simps)
  next
    case 4
    then have "n div 100 < 10" "0 < n div 100" "n div 10 mod 10 < 10" "n mod 10 < 10" using assms(1) by auto
    moreover have "(of_nat (n div 100) * 10 + of_nat (n div 10 mod 10)) * 10 + of_nat (n mod 10) = (of_nat n :: ulong)"
    proof -
      have "n div 100 = n div 10 div 10" by (simp flip: div_mult2_eq)
      then have "n = (n div 100 * 10 + n div 10 mod 10) * 10 + n mod 10" by simp
      then have "of_nat n = (of_nat ((n div 100 * 10 + n div 10 mod 10) * 10 + n mod 10) :: ulong)"
        by (rule arg_cong)
      then show ?thesis by (simp only: of_nat_add of_nat_mult of_nat_numeral)
    qed
    ultimately show ?thesis using 4 digit_classes [of "n div 100"] inet_digits_stop [OF assms(2)]
      by (simp add: byte_dec_def inet_number_def del: inet_digits.simps)
  qed
qed

lemma inet_parts_byte:
  assumes "n < 256" and "length parts < 3"
  shows "inet_parts parts (byte_dec n @ CHR ''.'' # cp) = inet_parts (parts @ [of_nat n]) cp"
proof -
  have "inet_number (byte_dec n @ CHR ''.'' # cp) = (of_nat n, CHR ''.'' # cp)"
    using assms(1) by (rule inet_number_byte) (simp add: number_ends_def)
  moreover have "\<not> (of_nat n :: ulong) > 0xff"
    using assms(1) by (simp add: word_less_nat_alt unat_of_nat)
  moreover have "(ucast (of_nat n :: ulong) :: u32) = of_nat n"
    using assms(1) by (simp add: word_unat_eq_iff unsigned_ucast_eq unat_of_nat take_bit_nat_eq_self)
  ultimately show ?thesis using assms(2) by (subst inet_parts.simps) simp
qed

lemma inet_parts_last:
  assumes "n < 256"
  shows "inet_parts parts (byte_dec n) = Some (parts, of_nat n, [])"
  using inet_number_byte [OF assms, of "[]"] by (subst inet_parts.simps) (simp add: number_ends_def)

lemma inet_aton_inetntoa: "inet_aton (inetntoa w) = Some w"
proof -
  let ?b = "\<lambda>i. mem_byte i w"
  have p: "inet_parts [] (inetntoa w) = Some ([of_nat (?b 0), of_nat (?b 1), of_nat (?b 2)], of_nat (?b 3), [])"
    by (simp add: inetntoa_def inet_parts_byte inet_parts_last mem_byte_less del: inet_parts.simps)
  have "\<not> (of_nat (?b 3) :: ulong) > 0xff"
    using mem_byte_less [of 3 w] by (simp add: word_less_nat_alt unat_of_nat)
  moreover have "(ucast (of_nat (?b 3) :: ulong) :: u32) = of_nat (?b 3)"
    using mem_byte_less [of 3 w] by (simp add: word_unat_eq_iff unsigned_ucast_eq unat_of_nat take_bit_nat_eq_self)
  ultimately show ?thesis unfolding inet_aton_def p using htonl_bytes [of w] by simp
qed

subsection \<open>Netmasks\<close>

lemma cidr_to_netmask_eq: "n \<le> 32 \<Longrightarrow> cidr_to_netmask n = NOT (mask (32 - n))"
proof (cases "n = 0")
  case True
  then show ?thesis by (simp add: cidr_to_netmask_def) (rule bit_word_eqI, simp add: bit_simps)
next
  case False
  have "(0xFFFFFFFF :: u32) = - 1" by simp
  then have "0xFFFFFFFF - push_bit (32 - n) 1 + 1 = - (push_bit (32 - n) (1 :: u32))" by (simp only: diff_add_eq) simp
  also have "\<dots> = NOT (mask (32 - n))" by (simp add: not_eq_complement mask_eq_exp_minus_1)
  finally show ?thesis using False by (simp add: cidr_to_netmask_def)
qed

lemma bit_cidr_to_netmask: "n \<le> 32 \<Longrightarrow> bit (cidr_to_netmask n) i \<longleftrightarrow> 32 - n \<le> i \<and> i < 32"
  by (auto simp: cidr_to_netmask_eq bit_simps)

text \<open>
  The bits of an address in the order in which it is written: \<open>addr_bit k\<close> is bit \<open>k\<close> from the left, so the
  bits 0 to 7 are those of the first number, its highest bit first.
\<close>

definition addr_bit :: "nat \<Rightarrow> u32 \<Rightarrow> bool" where
  "addr_bit k w = bit (mem_byte (k div 8) w) (7 - k mod 8)"

definition word_pos :: "nat \<Rightarrow> nat" where
  "word_pos k = 8 * (k div 8) + (7 - k mod 8)"

lemma word_pos_props: "word_pos (word_pos k) = k" "k < 32 \<Longrightarrow> word_pos k < 32"
proof -
  have e: "(8 * a + b) div 8 = a" "(8 * a + b) mod 8 = b" if "b < 8" for a b :: nat using that by auto
  have b: "7 - k mod 8 < 8" and c: "7 - (7 - k mod 8) = k mod 8" by simp_all
  have "word_pos (word_pos k) = 8 * (k div 8) + (7 - (7 - k mod 8))" by (simp only: word_pos_def e [OF b])
  then show "word_pos (word_pos k) = k" by (simp only: c mult_div_mod_eq)
  have "7 - k mod 8 \<le> 7" by simp
  moreover have "k div 8 \<le> 3" if "k < 32" using that by linarith
  ultimately show "word_pos k < 32" if "k < 32" using that unfolding word_pos_def by fastforce
qed

lemma addr_bit_eq: "addr_bit k w = bit w (word_pos k)"
  by (auto simp: addr_bit_def word_pos_def mem_byte_def byte_masks bit_simps)

lemma bit_net_mask: "n \<le> 32 \<Longrightarrow> bit (htonl (cidr_to_netmask n)) i \<longleftrightarrow> i < 32 \<and> word_pos i < n"
proof (cases "i < 32")
  case True
  assume n: "n \<le> 32"
  from True show ?thesis
  proof (rule byte_cases)
    assume "i < 8"
    then show ?thesis using n by (auto simp: bit_htonl bit_cidr_to_netmask word_pos_def)
  next
    assume i: "8 \<le> i" "i < 16"
    then have "i div 8 = 1" "i mod 8 = i - 8" by presburger+
    then show ?thesis using n i by (auto simp: bit_htonl bit_cidr_to_netmask word_pos_def)
  next
    assume i: "16 \<le> i" "i < 24"
    then have "i div 8 = 2" "i mod 8 = i - 16" by presburger+
    then show ?thesis using n i by (auto simp: bit_htonl bit_cidr_to_netmask word_pos_def)
  next
    assume i: "24 \<le> i" "i < 32"
    then have "i div 8 = 3" "i mod 8 = i - 24" by presburger+
    then show ?thesis using n i by (auto simp: bit_htonl bit_cidr_to_netmask word_pos_def)
  qed
qed (simp add: bit_beyond)

text \<open>Two addresses agree under the mask of \<open>n\<close> exactly when their first \<open>n\<close> bits are the same.\<close>

lemma same_network_iff:
  assumes n: "n \<le> 32"
  shows "c AND htonl (cidr_to_netmask n) = w AND htonl (cidr_to_netmask n) \<longleftrightarrow> (\<forall>k<n. addr_bit k c = addr_bit k w)"
proof -
  have "c AND htonl (cidr_to_netmask n) = w AND htonl (cidr_to_netmask n) \<longleftrightarrow>
      (\<forall>i<32. word_pos i < n \<longrightarrow> bit c i = bit w i)"
    by (auto simp: bit_eq_iff bit_and_iff bit_net_mask [OF n])
  also have "\<dots> \<longleftrightarrow> (\<forall>k<n. addr_bit k c = addr_bit k w)"
    unfolding addr_bit_eq using word_pos_props n by (metis order_less_le_trans)
  finally show ?thesis .
qed

lemma netmask_loop_first:
  assumes "t \<le> k" and "k \<le> 32" and "\<forall>i<k. \<not> bit m i" and "k < 32 \<longrightarrow> bit m k"
  shows "netmask_loop m t = k"
  using assms
proof (induction m t rule: netmask_loop.induct)
  case (1 m t)
  have b: "m AND push_bit t 1 = 0 \<longleftrightarrow> \<not> bit m t" by (simp add: bit_iff_and_push_bit_not_eq_0)
  show ?case
  proof (cases "t < k")
    case True
    with 1 b show ?thesis by (subst netmask_loop.simps) simp
  next
    case False
    with 1(2) have "t = k" by simp
    with 1(3-5) b show ?thesis by (subst netmask_loop.simps) auto
  qed
qed

subsection \<open>Properties\<close>

text \<open>
  C35: printing an address and reading it back gives the address: \<open>inet_aton\<close> accepts every
  string \<open>inetntoa\<close> produces and returns the same 32 bits, so bans on addresses and masks
  survive their textual form.
\<close>

theorem inet_roundtrip: "inet_aton (inetntoa w) = Some w \<and> inet_addr (inetntoa w) = w"
  by (simp add: inet_addr_def inet_aton_inetntoa)

text \<open>
  Prefix lengths and netmasks correspond: for every length from 0 to 32 the mask has exactly
  the upper \<open>n\<close> bits set, and \<open>netmask_to_cidr\<close> recovers the length.
\<close>

lemma cidr_netmask_roundtrip:
  "n \<le> 32 \<longrightarrow> netmask_to_cidr (cidr_to_netmask n) = n \<and>
     (\<forall>i. bit (cidr_to_netmask n) i \<longleftrightarrow> 32 - n \<le> i \<and> i < 32)"
proof
  assume n: "n \<le> 32"
  have "netmask_loop (cidr_to_netmask n) 0 = 32 - n"
    by (rule netmask_loop_first) (use n in \<open>auto simp: bit_cidr_to_netmask\<close>)
  then show "netmask_to_cidr (cidr_to_netmask n) = n \<and>
     (\<forall>i. bit (cidr_to_netmask n) i \<longleftrightarrow> 32 - n \<le> i \<and> i < 32)"
    using n by (simp add: netmask_to_cidr_def bit_cidr_to_netmask)
qed

end
