(* ===== verification/Userban.thy ===== *)
theory Userban
  imports Client_Hash Inet
begin

section \<open>User bans: K-lines, autokills, G-lines and shuns (src/src/userban.c, first half)\<close>

text \<open>
  A ban is kept on exactly one list, chosen by its flags: the list of networks larger than a /16,
  the list of the first two bytes of a smaller network, the wildcard list or a hash bucket of
  bans on addresses, or those of bans on host names.  \<open>ub_place\<close> names the lists:
  \<open>ub_lists st (Cidr4 a b)\<close> is \<^verbatim>\<open>CIDR4_bans[a][b]\<close>, \<open>ub_lists st (HostHash h)\<close>
  is \<^verbatim>\<open>host_bans.hash_list[h]\<close>, and so on.  The list entry (\<^verbatim>\<open>uBanEnt\<close>) of
  a ban is identified with the ban, so unlinking the entry stored in \<^verbatim>\<open>internal_ent\<close>
  removes the ban from the list it is on.  A client without a user structure has empty user and
  host names here; \<open>check_userbanned_unregistered\<close> shows that the checks made for such
  connections do not read them.
\<close>

definition HASH_SIZE :: nat where "HASH_SIZE = 32749"

definition UBAN_LOCAL :: u32 where "UBAN_LOCAL = 0x001"
definition UBAN_NETWORK :: u32 where "UBAN_NETWORK = 0x002"
definition UBAN_CONF :: u32 where "UBAN_CONF = 0x004"
definition UBAN_GLINE :: u32 where "UBAN_GLINE = 0x008"
definition UBAN_HOST :: u32 where "UBAN_HOST = 0x010"
definition UBAN_IP :: u32 where "UBAN_IP = 0x020"
definition UBAN_SHUN :: u32 where "UBAN_SHUN = 0x1000"
definition UBAN_WILD :: u32 where "UBAN_WILD = 0x040"
definition UBAN_CIDR4 :: u32 where "UBAN_CIDR4 = 0x080"
definition UBAN_CIDR4BIG :: u32 where "UBAN_CIDR4BIG = 0x100"
definition UBAN_WILDUSER :: u32 where "UBAN_WILDUSER = 0x200"
definition UBAN_WILDHOST :: u32 where "UBAN_WILDHOST = 0x400"
definition UBAN_TEMPORARY :: u32 where "UBAN_TEMPORARY = 0x800"
definition FLAGS_SHUNNED :: u32 where "FLAGS_SHUNNED = 0x20000000"
definition KLINE_MIN_STORE_TIME :: int where "KLINE_MIN_STORE_TIME = 180"
definition GLINE_MIN_STORE_TIME :: int where "GLINE_MIN_STORE_TIME = 180"

lemmas uban_flags = UBAN_LOCAL_def UBAN_NETWORK_def UBAN_CONF_def UBAN_GLINE_def UBAN_HOST_def UBAN_IP_def
  UBAN_SHUN_def UBAN_WILD_def UBAN_CIDR4_def UBAN_CIDR4BIG_def UBAN_WILDUSER_def UBAN_WILDHOST_def
  UBAN_TEMPORARY_def

record userBan =
  ub_flags :: u32
  ub_u :: "cstr option"
  ub_h :: "cstr option"
  ub_cidr4ip :: u32
  ub_cidr4mask :: u32
  ub_reason :: "cstr option"
  ub_timeset :: time_t
  ub_duration :: time_t

datatype ub_place = Cidr4Big | Cidr4 nat nat | IpWild | IpHash nat | HostWild | HostHash nat

record userban_state =
  ub_lists :: "ub_place \<Rightarrow> addr list"
  ub_store :: "addr \<Rightarrow> userBan"
  ub_next :: addr
  userban_count :: int
  ubanent_count :: int

text \<open>The text a \<^verbatim>\<open>char *\<close> field points to.\<close>

definition text_of :: "cstr option \<Rightarrow> cstr" where
  "text_of s = (case s of Some x \<Rightarrow> x | None \<Rightarrow> [])"

abbreviation ub_is :: "userBan \<Rightarrow> u32 \<Rightarrow> bool" where
  "ub_is b f \<equiv> has_flag (ub_flags b) f"

subsection \<open>Hash functions and initialisation\<close>

definition ip_hash :: "cstr \<Rightarrow> u32" where
  "ip_hash n = foldl (\<lambda>hv c. hv * 33 + of_nat (ToLower c)) 0 n"

definition host_hash_step :: "u32 \<Rightarrow> char \<Rightarrow> u32" where
  "host_hash_step hv c =
     (if c \<noteq> CHR ''.'' then push_bit 5 hv OR (word_of_int (int (ToUpper c) - 65) AND 0xFF) else hv)"

definition host_hash :: "cstr \<Rightarrow> u32" where
  "host_hash n = foldl host_hash_step 0 n"

definition init_userban :: "(addr \<Rightarrow> userBan) \<Rightarrow> userban_state" where
  "init_userban mem = \<lparr>ub_lists = (\<lambda>_. []), ub_store = mem, ub_next = 0, userban_count = 0, ubanent_count = 0\<rparr>"

subsection \<open>Adding and removing\<close>

definition ban_place :: "userBan \<Rightarrow> ub_place option" where
  "ban_place b =
     (if ub_is b UBAN_CIDR4BIG then Some Cidr4Big
      else if ub_is b UBAN_CIDR4 then Some (Cidr4 (mem_byte 0 (ub_cidr4ip b)) (mem_byte 1 (ub_cidr4ip b)))
      else if ub_is b UBAN_IP then
        Some (if ub_is b UBAN_WILD then IpWild else IpHash (unat (ip_hash (text_of (ub_h b))) mod HASH_SIZE))
      else if ub_is b UBAN_HOST then
        Some (if ub_is b UBAN_WILD then HostWild else HostHash (unat (host_hash (text_of (ub_h b))) mod HASH_SIZE))
      else None)"

text \<open>\<open>None\<close> is the call of \<^verbatim>\<open>abort\<close>.\<close>

definition add_hostbased_userban :: "addr \<Rightarrow> userban_state \<Rightarrow> userban_state option" where
  "add_hostbased_userban b st =
     (case ban_place (ub_store st b) of
        None \<Rightarrow> None
      | Some pl \<Rightarrow> Some (st\<lparr>ub_lists := (ub_lists st)(pl := b # ub_lists st pl),
                            ubanent_count := ubanent_count st + 1\<rparr>))"

definition remove_userban :: "addr \<Rightarrow> userban_state \<Rightarrow> userban_state" where
  "remove_userban b st =
     st\<lparr>ub_lists := (\<lambda>pl. remove1 b (ub_lists st pl)), ubanent_count := ubanent_count st - 1\<rparr>"

definition userban_free :: "addr \<Rightarrow> userban_state \<Rightarrow> userban_state" where
  "userban_free b st = st\<lparr>userban_count := userban_count st - 1\<rparr>"

subsection \<open>Matching\<close>

definition username_of :: "aClient \<Rightarrow> cstr" where
  "username_of c = (case c_user c of Some u \<Rightarrow> u_username u | None \<Rightarrow> [])"

definition realhost_of :: "aClient \<Rightarrow> cstr" where
  "realhost_of c = (case c_user c of Some u \<Rightarrow> u_realhost u | None \<Rightarrow> [])"

definition iptmp_of :: "aClient \<Rightarrow> cstr" where
  "iptmp_of c = strncpyzt (inetntoa (c_ip c)) (HOSTIPLEN + 1)"

definition user_match_ban :: "aClient \<Rightarrow> userBan \<Rightarrow> bool" where
  "user_match_ban c b =
     (if \<not> ub_is b UBAN_WILDUSER \<and> match (text_of (ub_u b)) (username_of c) \<noteq> 0 then False
      else if ub_is b UBAN_IP then
        (if ub_is b UBAN_WILD then match (text_of (ub_h b)) (iptmp_of c) = 0
         else mycmp (text_of (ub_h b)) (iptmp_of c) = 0)
      else if ub_is b UBAN_HOST then
        (if ub_is b UBAN_WILD
         then ub_is b UBAN_WILDHOST \<or> match (text_of (ub_h b)) (realhost_of c) = 0
         else mycmp (text_of (ub_h b)) (realhost_of c) = 0)
      else if ub_is b (UBAN_CIDR4 OR UBAN_CIDR4BIG) then c_ip c AND ub_cidr4mask b = ub_cidr4ip b
      else False)"

definition ban_expired :: "time_t \<Rightarrow> userBan \<Rightarrow> bool" where
  "ban_expired NOW b \<longleftrightarrow> ub_is b UBAN_TEMPORARY \<and> ub_timeset b + ub_duration b \<le> NOW"

text \<open>The three \<^verbatim>\<open>continue\<close> conditions shared by the loops of \<open>check_userbanned\<close>.\<close>

definition ban_skipped :: "time_t \<Rightarrow> aClient \<Rightarrow> u32 \<Rightarrow> u32 \<Rightarrow> userBan \<Rightarrow> bool" where
  "ban_skipped NOW c yflags nflags b \<longleftrightarrow>
     ban_expired NOW b \<or>
     (has_flag yflags UBAN_WILDUSER \<and> \<not> ub_is b UBAN_WILDUSER) \<or>
     (has_flag nflags UBAN_WILDUSER \<and> ub_is b UBAN_WILDUSER) \<or>
     (\<not> ub_is b UBAN_WILDUSER \<and> match (text_of (ub_u b)) (username_of c) \<noteq> 0)"

definition opt_or :: "'a option \<Rightarrow> 'a option \<Rightarrow> 'a option" where
  "opt_or x y = (case x of Some a \<Rightarrow> Some a | None \<Rightarrow> y)"

definition check_userbanned :: "time_t \<Rightarrow> aClient \<Rightarrow> u32 \<Rightarrow> u32 \<Rightarrow> userban_state \<Rightarrow> addr option" where
  "check_userbanned NOW c yflags nflags st =
     (let iptmp = iptmp_of c;
          loop = (\<lambda>hit pl. find (\<lambda>a. \<not> ban_skipped NOW c yflags nflags (ub_store st a) \<and> hit (ub_store st a))
                             (ub_lists st pl));
          incidr = (\<lambda>b. c_ip c AND ub_cidr4mask b = ub_cidr4ip b)
      in opt_or
           (if has_flag yflags UBAN_IP
            then opt_or (loop (\<lambda>b. mycmp (text_of (ub_h b)) iptmp = 0) (IpHash (unat (ip_hash iptmp) mod HASH_SIZE)))
                        (loop (\<lambda>b. match (text_of (ub_h b)) iptmp = 0) IpWild)
            else None)
        (opt_or
           (if has_flag yflags UBAN_CIDR4
            then opt_or (loop incidr (Cidr4 (mem_byte 0 (c_ip c)) (mem_byte 1 (c_ip c))))
                        (loop incidr Cidr4Big)
            else None)
           (if has_flag yflags UBAN_HOST
            then opt_or (loop (\<lambda>b. mycmp (text_of (ub_h b)) (realhost_of c) = 0)
                           (HostHash (unat (host_hash (realhost_of c)) mod HASH_SIZE)))
                        (loop (\<lambda>b. ub_is b UBAN_WILDHOST \<or> match (text_of (ub_h b)) (realhost_of c) = 0) HostWild)
            else None)))"

text \<open>\<open>find_userban_exact\<close>: the outer \<open>None\<close> is \<^verbatim>\<open>abort\<close>, the inner one NULL.\<close>

definition ban_same :: "u32 \<Rightarrow> userBan \<Rightarrow> userBan \<Rightarrow> bool" where
  "ban_same careflags borig b \<longleftrightarrow>
     \<not> has_flag (ub_flags b XOR ub_flags borig) (UBAN_WILDUSER OR careflags) \<and>
     (ub_is borig UBAN_WILDUSER \<or> mycmp (text_of (ub_u borig)) (text_of (ub_u b)) = 0) \<and>
     (if ub_is borig UBAN_CIDR4BIG \<or> ub_is borig UBAN_CIDR4
      then ub_cidr4ip borig = ub_cidr4ip b \<and> ub_cidr4mask borig = ub_cidr4mask b
      else mycmp (text_of (ub_h borig)) (text_of (ub_h b)) = 0)"

definition find_userban_exact :: "userBan \<Rightarrow> u32 \<Rightarrow> userban_state \<Rightarrow> addr option option" where
  "find_userban_exact borig careflags st =
     (case ban_place borig of
        None \<Rightarrow> None
      | Some pl \<Rightarrow> Some (find (\<lambda>a. ban_same careflags borig (ub_store st a)) (ub_lists st pl)))"

subsection \<open>Walking all lists\<close>

definition cidr4_places :: "ub_place list" where
  "cidr4_places = concat (map (\<lambda>a. map (Cidr4 a) [0..<256]) [0..<256])"

definition hash_places :: "ub_place list" where
  "hash_places = concat (map (\<lambda>a. [HostHash a, IpHash a]) [0..<HASH_SIZE])"

text \<open>The order of \<open>expire_userbans\<close>, \<open>remove_userbans_match_flags\<close>,
  \<open>report_userbans_match_flags\<close> and \<open>sync_lists\<close>, and that of the two dumps.\<close>

definition walk_order :: "ub_place list" where
  "walk_order = Cidr4Big # cidr4_places @ [HostWild, IpWild] @ hash_places"

definition dump_order :: "ub_place list" where
  "dump_order = cidr4_places @ [Cidr4Big, HostWild, IpWild] @ hash_places"

definition IsShunned :: "aClient \<Rightarrow> bool" where
  "IsShunned c \<longleftrightarrow> has_flag (c_flags c) FLAGS_SHUNNED"

definition ClearShun :: "aClient \<Rightarrow> aClient" where
  "ClearShun c = c\<lparr>c_flags := c_flags c AND NOT FLAGS_SHUNNED\<rparr>"

text \<open>
  The walk over the local clients in \<open>expire_list\<close>.  The source looks at the same slot again
  after clearing the flag; the client is not shunned any more then, so the second look does
  nothing.
\<close>

fun clear_shuns :: "userBan \<Rightarrow> addr list \<Rightarrow> clients \<Rightarrow> clients" where
  "clear_shuns ban [] cs = cs"
| "clear_shuns ban (p # ps) cs =
     (let acptr = cs p in
      if IsMe acptr \<or> IsLog acptr then clear_shuns ban ps cs
      else if IsPerson acptr \<and> IsShunned acptr \<and> user_match_ban acptr ban
      then clear_shuns ban ps (cs(p := ClearShun acptr))
      else clear_shuns ban ps cs)"

fun expire_list :: "time_t \<Rightarrow> addr list \<Rightarrow> addr list \<Rightarrow> userban_state \<times> clients \<Rightarrow> userban_state \<times> clients" where
  "expire_list NOW loc [] s = s"
| "expire_list NOW loc (bl # bls) (st, cs) =
     (let ban = ub_store st bl in
      if ban_expired NOW ban
      then expire_list NOW loc bls
             (userban_free bl (remove_userban bl st),
              if ub_is ban UBAN_SHUN then clear_shuns ban loc cs else cs)
      else expire_list NOW loc bls (st, cs))"

definition expire_userbans :: "time_t \<Rightarrow> addr list \<Rightarrow> userban_state \<times> clients \<Rightarrow> userban_state \<times> clients" where
  "expire_userbans NOW loc s = fold (\<lambda>pl s. expire_list NOW loc (ub_lists (fst s) pl) s) walk_order s"

definition flags_selected :: "u32 \<Rightarrow> u32 \<Rightarrow> userBan \<Rightarrow> bool" where
  "flags_selected flags nflags b \<longleftrightarrow>
     (flags = 0 \<and> nflags = 0) \<or> (ub_flags b AND flags = flags \<and> ub_flags b AND nflags = 0)"

fun remove_list_match_flags :: "u32 \<Rightarrow> u32 \<Rightarrow> addr list \<Rightarrow> userban_state \<Rightarrow> userban_state" where
  "remove_list_match_flags flags nflags [] st = st"
| "remove_list_match_flags flags nflags (bl # bls) st =
     remove_list_match_flags flags nflags bls
       (if flags_selected flags nflags (ub_store st bl) then userban_free bl (remove_userban bl st) else st)"

definition remove_userbans_match_flags :: "u32 \<Rightarrow> u32 \<Rightarrow> userban_state \<Rightarrow> userban_state" where
  "remove_userbans_match_flags flags nflags st =
     fold (\<lambda>pl st. remove_list_match_flags flags nflags (ub_lists st pl) st) walk_order st"

text \<open>
  The host part in reports: \<open>get_userban_host\<close> writes at most \<open>buflen - 1\<close> bytes, the
  reports use a buffer of 128.
\<close>

definition get_userban_host :: "userBan \<Rightarrow> nat \<Rightarrow> cstr" where
  "get_userban_host b buflen =
     take (buflen - 1)
       (if ub_is b (UBAN_CIDR4 OR UBAN_CIDR4BIG)
        then inetntoa (ub_cidr4ip b) @ ''/'' @ byte_dec (netmask_to_cidr (htonl (ub_cidr4mask b)))
        else text_of (ub_h b))"

text \<open>Minutes from seconds: the division of C truncates towards zero.\<close>

definition minutes :: "int \<Rightarrow> int" where
  "minutes s = (if s < 0 then - (- s div 60) else s div 60)"

text \<open>One line of \<^verbatim>\<open>STATS K\<close>: kind letters, host, user, remaining minutes or -1, reason.\<close>

definition report_ban :: "time_t \<Rightarrow> char \<Rightarrow> userBan \<Rightarrow> cstr \<times> cstr \<times> cstr \<times> int \<times> cstr" where
  "report_ban NOW rchar b =
     ([if ub_is b UBAN_LOCAL then (if ub_is b UBAN_TEMPORARY then CHR ''k'' else CHR ''K'')
       else if ub_is b UBAN_GLINE then CHR ''g''
       else if ub_is b UBAN_SHUN then CHR ''s'' else CHR ''a'', rchar],
      if ub_is b (UBAN_CIDR4 OR UBAN_CIDR4BIG) then get_userban_host b 128 else text_of (ub_h b),
      if ub_is b UBAN_WILDUSER then ''*'' else text_of (ub_u b),
      if ub_is b UBAN_TEMPORARY then minutes (ub_timeset b + ub_duration b - NOW) else - 1,
      case ub_reason b of Some r \<Rightarrow> r | None \<Rightarrow> ''No reason'')"

definition place_char :: "ub_place \<Rightarrow> char" where
  "place_char pl = (case pl of Cidr4Big \<Rightarrow> CHR ''C'' | Cidr4 _ _ \<Rightarrow> CHR ''c'' | HostWild \<Rightarrow> CHR ''h''
     | IpWild \<Rightarrow> CHR ''i'' | HostHash _ \<Rightarrow> CHR ''H'' | IpHash _ \<Rightarrow> CHR ''I'')"

definition report_list_match_flags ::
  "time_t \<Rightarrow> u32 \<Rightarrow> u32 \<Rightarrow> userban_state \<Rightarrow> ub_place \<Rightarrow> (cstr \<times> cstr \<times> cstr \<times> int \<times> cstr) list" where
  "report_list_match_flags NOW flags nflags st pl =
     map (\<lambda>a. report_ban NOW (place_char pl) (ub_store st a))
       (filter (\<lambda>a. flags_selected flags nflags (ub_store st a)) (ub_lists st pl))"

definition report_userbans_match_flags ::
  "time_t \<Rightarrow> u32 \<Rightarrow> u32 \<Rightarrow> userban_state \<Rightarrow> (cstr \<times> cstr \<times> cstr \<times> int \<times> cstr) list" where
  "report_userbans_match_flags NOW flags nflags st =
     concat (map (report_list_match_flags NOW flags nflags st) walk_order)"

text \<open>\<open>sync_lists\<close>: the shuns and G-lines sent to a server (command, duration, user, host, reason).\<close>

definition sync_me :: "userBan \<Rightarrow> (cstr \<times> int \<times> cstr \<times> cstr \<times> cstr option) list" where
  "sync_me b =
     (let rest = (ub_duration b, case ub_u b of Some u \<Rightarrow> u | None \<Rightarrow> ''*'',
                  case ub_h b of Some h \<Rightarrow> h | None \<Rightarrow> ''*'', ub_reason b)
      in if ub_is b UBAN_SHUN then [(''SHUN'', rest)]
         else if ub_is b UBAN_GLINE then [(''GLINE'', rest)] else [])"

definition sync_lists :: "userban_state \<Rightarrow> (cstr \<times> int \<times> cstr \<times> cstr \<times> cstr option) list" where
  "sync_lists st = concat (map (\<lambda>pl. concat (map (\<lambda>a. sync_me (ub_store st a)) (ub_lists st pl))) walk_order)"

text \<open>The bans written to the K-line and G-line journals.\<close>

definition ks_dumplist :: "userban_state \<Rightarrow> addr list \<Rightarrow> addr list" where
  "ks_dumplist st be =
     filter (\<lambda>a. let ub = ub_store st a in
        ub_flags ub AND (UBAN_LOCAL OR UBAN_CONF) = UBAN_LOCAL \<and>
        \<not> (ub_is ub UBAN_TEMPORARY \<and> ub_duration ub < KLINE_MIN_STORE_TIME * 60)) be"

definition ks_dumpklines :: "userban_state \<Rightarrow> addr list" where
  "ks_dumpklines st = concat (map (\<lambda>pl. ks_dumplist st (ub_lists st pl)) dump_order)"

definition gs_dumplist :: "userban_state \<Rightarrow> addr list \<Rightarrow> addr list" where
  "gs_dumplist st be =
     filter (\<lambda>a. let ub = ub_store st a in
        ub_flags ub AND (UBAN_GLINE OR UBAN_CONF) = UBAN_GLINE \<and>
        \<not> (ub_is ub UBAN_TEMPORARY \<and> ub_duration ub < GLINE_MIN_STORE_TIME * 60)) be"

definition gs_dumpglines :: "userban_state \<Rightarrow> addr list" where
  "gs_dumpglines st = concat (map (\<lambda>pl. gs_dumplist st (ub_lists st pl)) dump_order)"

text \<open>
  The local connections \<open>userban_sweep\<close> dumps, and the text it gives them;
  \<^verbatim>\<open>exit_client\<close> itself is not modelled.
\<close>

definition userban_sweep :: "userBan \<Rightarrow> addr list \<Rightarrow> clients \<Rightarrow> cstr \<times> addr list" where
  "userban_sweep ban loc cs =
     (let btext = (if ub_is ban UBAN_NETWORK then ''autokilled''
                   else if ub_is ban UBAN_GLINE then ''g-lined'' else ''k-lined'');
          reason = (case ub_reason ban of Some r \<Rightarrow> r | None \<Rightarrow> ''<no reason>'');
          clientonly = \<not> (ub_is ban UBAN_WILDUSER \<and> ub_is ban (UBAN_IP OR UBAN_CIDR4 OR UBAN_CIDR4BIG))
      in (take 511 (btext @ '': '' @ reason),
          filter (\<lambda>p. \<not> c_status (cs p) < STAT_UNKNOWN \<and> \<not> (clientonly \<and> \<not> IsPerson (cs p)) \<and>
                      user_match_ban (cs p) ban) loc))"

subsection \<open>Parsing a ban\<close>

definition is_digit :: "char \<Rightarrow> bool" where
  "is_digit c \<longleftrightarrow> c \<in> set ''0123456789''"

definition is_wildc :: "char \<Rightarrow> bool" where
  "is_wildc c \<longleftrightarrow> c = CHR ''*'' \<or> c = CHR ''?''"

record host_counts =
  numcount :: nat
  wildcount :: nat
  dotcount :: nat
  slashcount :: nat
  othercount :: nat

fun count_host :: "cstr \<Rightarrow> host_counts \<Rightarrow> host_counts" where
  "count_host [] n = n"
| "count_host (c # tmp) n =
     count_host tmp
       (if is_digit c then n\<lparr>numcount := numcount n + 1\<rparr>
        else if is_wildc c then n\<lparr>wildcount := wildcount n + 1\<rparr>
        else if c = CHR ''.'' then n\<lparr>dotcount := dotcount n + 1\<rparr>
        else if c = CHR ''/'' then n\<lparr>slashcount := slashcount n + 1\<rparr>
        else n\<lparr>othercount := othercount n + 1\<rparr>)"

definition no_counts :: host_counts where
  "no_counts = \<lparr>numcount = 0, wildcount = 0, dotcount = 0, slashcount = 0, othercount = 0\<rparr>"

text \<open>The dot-separated parts of a wildcarded address, at most six bytes of each.\<close>

fun octets :: "cstr \<Rightarrow> cstr \<Rightarrow> cstr list" where
  "octets cur [] = [cur]"
| "octets cur (c # tmp) =
     (if c = CHR ''.'' then cur # octets [] tmp
      else octets (if length cur < 6 then cur @ [c] else cur) tmp)"

text \<open>True when the parts cannot be turned into a network (1.2.*.4 or 1.2.3.1??).\<close>

fun octets_wild :: "bool \<Rightarrow> cstr list \<Rightarrow> bool" where
  "octets_wild gotwild [] = False"
| "octets_wild gotwild (oct # rest) =
     (if oct = ''*'' then octets_wild True rest
      else if gotwild then True
      else if \<not> list_all is_digit oct then True
      else octets_wild gotwild rest)"

text \<open>
  \<^verbatim>\<open>strtol(sep, &err, 10)\<close> on the strings it is called with here (digits and dots): the
  value of the leading digits, at most \<^verbatim>\<open>LONG_MAX\<close>, and where it stopped; then the
  conversion to \<^verbatim>\<open>int\<close>.
\<close>

definition strtol10 :: "cstr \<Rightarrow> int \<times> cstr" where
  "strtol10 s =
     (min (2 ^ 63 - 1) (foldl (\<lambda>v c. v * 10 + (of_char c - 48)) 0 (takeWhile is_digit s)), dropWhile is_digit s)"

definition int_of_long :: "int \<Rightarrow> int" where
  "int_of_long v = sint (word_of_int v :: 32 word)"

definition cidr_ban :: "cstr \<Rightarrow> (u32 \<times> u32 \<times> u32) option" where
  "cidr_ban host =
     (let ip = takeWhile (\<lambda>c. c \<noteq> CHR ''/'') host;
          sep = drop 1 (dropWhile (\<lambda>c. c \<noteq> CHR ''/'') host);
          ia = inet_addr ip;
          (v, err) = strtol10 sep;
          sval = int_of_long v
      in if ia = 0xFFFFFFFF then None
         else if err \<noteq> [] then None
         else if sval < 0 \<or> sval > 32 then None
         else (let na = htonl (cidr_to_netmask (nat sval)) in
               Some (if sval < 16 then UBAN_CIDR4BIG else UBAN_CIDR4, ia AND na, na)))"

text \<open>
  The analysis of \<open>make_hostbased_ban\<close> up to its label \<^verbatim>\<open>success\<close>: flags, network and
  mask.  The host comes from a protocol line, so it is shorter than the buffer of 512 bytes.
\<close>

definition no_user :: "cstr option \<Rightarrow> bool" where
  "no_user user \<longleftrightarrow> user = None \<or> user = Some [] \<or> mycmp (text_of user) ''*'' = 0"

definition analyse_host :: "cstr option \<Rightarrow> cstr \<Rightarrow> (u32 \<times> u32 \<times> u32) option" where
  "analyse_host user host =
     (let n = count_host host no_counts in
      if wildcount n > 0 \<and> numcount n = 0 \<and> othercount n = 0 then
        if no_user user then None
        else Some (UBAN_HOST OR UBAN_WILD OR
               (if mycmp host ''*.*'' = 0 \<or> mycmp host ''*'' = 0 then UBAN_WILDHOST else 0), 0, 0)
      else if dotcount n = 0 \<or> slashcount n > 1 then None
      else if wildcount n > 0 \<and> numcount n > 0 \<and> othercount n = 0 then
        if slashcount n > 0 then None
        else if dotcount n > 3 then None
        else
          (let os = octets [] host in
           if octets_wild False os then Some (UBAN_IP OR UBAN_WILD, 0, 0)
           else if take 1 (os ! 0) = ''*'' then None
           else if take 1 (os ! 1) = ''*'' then cidr_ban (os ! 0 @ ''.0.0.0/8'')
           else if dotcount n \<ge> 2 \<and> take 1 (os ! 2) = ''*'' then cidr_ban (os ! 0 @ ''.'' @ os ! 1 @ ''.0.0/16'')
           else if dotcount n \<ge> 3 \<and> take 1 (os ! 3) = ''*''
           then cidr_ban (os ! 0 @ ''.'' @ os ! 1 @ ''.'' @ os ! 2 @ ''.0/24'')
           else None)
      else if wildcount n = 0 \<and> numcount n > 0 \<and> othercount n = 0 \<and> slashcount n > 0 then cidr_ban host
      else if slashcount n > 0 then None
      else if othercount n = 0 then Some (UBAN_IP OR (if wildcount n > 0 then UBAN_WILD else 0), 0, 0)
      else Some (UBAN_HOST OR (if wildcount n > 0 then UBAN_WILD else 0), 0, 0))"

definition ban_of :: "cstr option \<Rightarrow> cstr \<Rightarrow> userBan option" where
  "ban_of user phost =
     (case analyse_host user phost of
        None \<Rightarrow> None
      | Some (flags, c4h, c4m) \<Rightarrow>
          (let cidr = has_flag flags (UBAN_CIDR4BIG OR UBAN_CIDR4) in
           Some \<lparr>ub_flags = (if no_user user then flags OR UBAN_WILDUSER else flags),
                 ub_u = (if no_user user then None else user),
                 ub_h = (if cidr then None else Some phost),
                 ub_cidr4ip = (if cidr then c4h else 0), ub_cidr4mask = (if cidr then c4m else 0),
                 ub_reason = None, ub_timeset = 0, ub_duration = 0\<rparr>))"

definition make_hostbased_ban :: "cstr option \<Rightarrow> cstr \<Rightarrow> userban_state \<Rightarrow> addr option \<times> userban_state" where
  "make_hostbased_ban user phost st =
     (case ban_of user phost of
        None \<Rightarrow> (None, st)
      | Some b \<Rightarrow> (Some (ub_next st),
                   st\<lparr>ub_store := (ub_store st)(ub_next st := b), ub_next := Suc (ub_next st),
                      userban_count := userban_count st + 1\<rparr>))"

subsection \<open>The hash functions respect the comparison\<close>

lemma ToUpper_dot: "ToUpper c = ToUpper CHR ''.'' \<longleftrightarrow> c = CHR ''.''"
  by (rule ToUpper_caseless) simp_all

lemma mycmp_ip_hash: "mycmp s t = 0 \<Longrightarrow> ip_hash s = ip_hash t"
proof -
  assume "mycmp s t = 0"
  then have "map ToLower s = map ToLower t" by (simp add: mycmp_zero_iff map_ToUpper_iff_ToLower)
  moreover have "ip_hash n = foldl (\<lambda>hv c. hv * 33 + of_nat c) 0 (map ToLower n)" for n
    by (simp add: ip_hash_def foldl_map)
  ultimately show ?thesis by simp
qed

lemma host_step_upper: "ToUpper c = ToUpper d \<Longrightarrow> host_hash_step hv c = host_hash_step hv d"
  using ToUpper_dot [of c] ToUpper_dot [of d] by (auto simp: host_hash_step_def)

lemma mycmp_host_hash: "mycmp s t = 0 \<Longrightarrow> host_hash s = host_hash t"
proof -
  have "map ToUpper s = map ToUpper t \<Longrightarrow> foldl host_hash_step hv s = foldl host_hash_step hv t" for hv
  proof (induction s arbitrary: t hv)
    case (Cons c s)
    then obtain d u where t: "t = d # u" "ToUpper c = ToUpper d" "map ToUpper s = map ToUpper u" by (cases t) auto
    then show ?case using Cons.IH [OF t(3)] host_step_upper [OF t(2)] by simp
  qed simp
  then show "mycmp s t = 0 \<Longrightarrow> host_hash s = host_hash t" by (simp add: mycmp_zero_iff host_hash_def)
qed

abbreviation ip_bucket :: "cstr \<Rightarrow> nat" where
  "ip_bucket s \<equiv> unat (ip_hash s) mod HASH_SIZE"

abbreviation host_bucket :: "cstr \<Rightarrow> nat" where
  "host_bucket s \<equiv> unat (host_hash s) mod HASH_SIZE"

interpretation ipban: chain_hash ip_bucket "\<lambda>s t. mycmp s t = 0" HASH_SIZE
  by unfold_locales (auto simp: HASH_SIZE_def mycmp_sym dest: mycmp_ip_hash intro: mycmp_trans)

interpretation hostban: chain_hash host_bucket "\<lambda>s t. mycmp s t = 0" HASH_SIZE
  by unfold_locales (auto simp: HASH_SIZE_def mycmp_sym dest: mycmp_host_hash intro: mycmp_trans)

subsection \<open>Invariant\<close>

text \<open>
  A ban is of exactly one of the four kinds, and one that is filed under the first two bytes of
  its network covers at least these two bytes.
\<close>

definition ban_wf :: "userBan \<Rightarrow> bool" where
  "ban_wf b \<longleftrightarrow>
     length (filter id [ub_is b UBAN_CIDR4BIG, ub_is b UBAN_CIDR4, ub_is b UBAN_IP, ub_is b UBAN_HOST]) = 1 \<and>
     (ub_is b UBAN_CIDR4 \<longrightarrow> ub_cidr4mask b AND 0xFFFF = 0xFFFF)"

definition userban_ok :: "userban_state \<Rightarrow> bool" where
  "userban_ok st \<longleftrightarrow>
     (\<forall>pl. distinct (ub_lists st pl)) \<and>
     (\<forall>pl. \<forall>a\<in>set (ub_lists st pl). ban_place (ub_store st a) = Some pl \<and> ban_wf (ub_store st a) \<and> a < ub_next st)"

definition bans :: "userban_state \<Rightarrow> addr set" where
  "bans st = (\<Union>pl. set (ub_lists st pl))"

lemma userban_okD:
  assumes "userban_ok st"
  shows ub_distinct: "distinct (ub_lists st pl)"
    and ub_placed: "a \<in> set (ub_lists st pl) \<Longrightarrow> ban_place (ub_store st a) = Some pl"
    and ub_wf: "a \<in> set (ub_lists st pl) \<Longrightarrow> ban_wf (ub_store st a)"
    and ub_fresh: "a \<in> set (ub_lists st pl) \<Longrightarrow> a < ub_next st"
  using assms by (simp_all add: userban_ok_def)

lemma bans_iff:
  assumes "userban_ok st"
  shows "a \<in> bans st \<longleftrightarrow> (\<exists>pl. a \<in> set (ub_lists st pl) \<and> ban_place (ub_store st a) = Some pl)"
  using ub_placed [OF assms] by (auto simp: bans_def)

lemma init_userban_ok: "userban_ok (init_userban mem)"
  by (simp add: userban_ok_def init_userban_def)

subsection \<open>Searching\<close>

definition searched :: "aClient \<Rightarrow> u32 \<Rightarrow> ub_place \<Rightarrow> bool" where
  "searched c y pl \<longleftrightarrow>
     has_flag y UBAN_IP \<and> (pl = IpHash (ip_bucket (iptmp_of c)) \<or> pl = IpWild) \<or>
     has_flag y UBAN_CIDR4 \<and> (pl = Cidr4 (mem_byte 0 (c_ip c)) (mem_byte 1 (c_ip c)) \<or> pl = Cidr4Big) \<or>
     has_flag y UBAN_HOST \<and> (pl = HostHash (host_bucket (realhost_of c)) \<or> pl = HostWild)"

definition hit :: "aClient \<Rightarrow> ub_place \<Rightarrow> userBan \<Rightarrow> bool" where
  "hit c pl b \<longleftrightarrow> (case pl of
       IpHash _ \<Rightarrow> mycmp (text_of (ub_h b)) (iptmp_of c) = 0
     | IpWild \<Rightarrow> match (text_of (ub_h b)) (iptmp_of c) = 0
     | Cidr4 _ _ \<Rightarrow> c_ip c AND ub_cidr4mask b = ub_cidr4ip b
     | Cidr4Big \<Rightarrow> c_ip c AND ub_cidr4mask b = ub_cidr4ip b
     | HostHash _ \<Rightarrow> mycmp (text_of (ub_h b)) (realhost_of c) = 0
     | HostWild \<Rightarrow> ub_is b UBAN_WILDHOST \<or> match (text_of (ub_h b)) (realhost_of c) = 0)"

lemma opt_or_None: "opt_or x y = None \<longleftrightarrow> x = None \<and> y = None"
  by (simp add: opt_or_def split: option.split)

lemma opt_or_SomeD: "opt_or x y = Some a \<Longrightarrow> x = Some a \<or> y = Some a"
  by (simp add: opt_or_def split: option.splits)

lemma opt_or_simps: "opt_or None x = x" "opt_or x None = x" "opt_or (opt_or x y) z = opt_or x (opt_or y z)"
  by (simp_all add: opt_or_def split: option.split)

fun first_place :: "(ub_place \<Rightarrow> addr option) \<Rightarrow> ub_place list \<Rightarrow> addr option" where
  "first_place f [] = None"
| "first_place f (pl # pls) = opt_or (f pl) (first_place f pls)"

definition places_searched :: "aClient \<Rightarrow> u32 \<Rightarrow> ub_place list" where
  "places_searched c y =
     (if has_flag y UBAN_IP then [IpHash (ip_bucket (iptmp_of c)), IpWild] else []) @
     (if has_flag y UBAN_CIDR4 then [Cidr4 (mem_byte 0 (c_ip c)) (mem_byte 1 (c_ip c)), Cidr4Big] else []) @
     (if has_flag y UBAN_HOST then [HostHash (host_bucket (realhost_of c)), HostWild] else [])"

definition scan_place :: "time_t \<Rightarrow> aClient \<Rightarrow> u32 \<Rightarrow> u32 \<Rightarrow> userban_state \<Rightarrow> ub_place \<Rightarrow> addr option" where
  "scan_place NOW c y n st pl =
     find (\<lambda>a. \<not> ban_skipped NOW c y n (ub_store st a) \<and> hit c pl (ub_store st a)) (ub_lists st pl)"

lemma first_place_append: "first_place f (xs @ ys) = opt_or (first_place f xs) (first_place f ys)"
  by (induction xs) (simp_all add: opt_or_simps)

lemma check_userbanned_eq: "check_userbanned NOW c y n st = first_place (scan_place NOW c y n st) (places_searched c y)"
proof -
  have "first_place f [p, q] = opt_or (f p) (f q)" for f p q by (simp add: opt_or_simps)
  then show ?thesis
    unfolding check_userbanned_def places_searched_def first_place_append Let_def if_distrib [of "first_place _"]
    by (simp only: scan_place_def hit_def ub_place.case first_place.simps(1) opt_or_simps)
qed

lemma first_place_None: "first_place f pls = None \<longleftrightarrow> (\<forall>pl\<in>set pls. f pl = None)"
  by (induction pls) (simp_all add: opt_or_None)

lemma first_place_SomeD: "first_place f pls = Some a \<Longrightarrow> \<exists>pl\<in>set pls. f pl = Some a"
  by (induction pls) (auto dest: opt_or_SomeD)

lemma searched_iff: "pl \<in> set (places_searched c y) \<longleftrightarrow> searched c y pl"
  by (auto simp: places_searched_def searched_def)

lemma check_userbanned_None:
  "check_userbanned NOW c y n st = None \<longleftrightarrow>
     (\<forall>pl. searched c y pl \<longrightarrow>
        (\<forall>a\<in>set (ub_lists st pl). ban_skipped NOW c y n (ub_store st a) \<or> \<not> hit c pl (ub_store st a)))"
  by (auto simp: check_userbanned_eq first_place_None searched_iff scan_place_def find_None_iff)

lemma check_userbanned_SomeD:
  assumes "check_userbanned NOW c y n st = Some a"
  shows "\<exists>pl. searched c y pl \<and> a \<in> set (ub_lists st pl) \<and>
     \<not> ban_skipped NOW c y n (ub_store st a) \<and> hit c pl (ub_store st a)"
proof -
  obtain pl where "searched c y pl" "scan_place NOW c y n st pl = Some a"
    using first_place_SomeD [OF assms [unfolded check_userbanned_eq]] searched_iff by blast
  then show ?thesis by (auto simp: scan_place_def dest: find_SomeD)
qed

text \<open>Flag tests and the four kinds.\<close>

lemma has_flag_or: "has_flag x (a OR b) \<longleftrightarrow> has_flag x a \<or> has_flag x b"
  by (simp add: has_flag_def bit.conj_disj_distrib or_eq_0_iff)

definition wanted :: "u32 \<Rightarrow> u32 \<Rightarrow> userBan \<Rightarrow> bool" where
  "wanted y n b \<longleftrightarrow>
     (ub_is b UBAN_IP \<longrightarrow> has_flag y UBAN_IP) \<and>
     (ub_is b UBAN_CIDR4 \<or> ub_is b UBAN_CIDR4BIG \<longrightarrow> has_flag y UBAN_CIDR4) \<and>
     (ub_is b UBAN_HOST \<longrightarrow> has_flag y UBAN_HOST) \<and>
     (has_flag y UBAN_WILDUSER \<longrightarrow> ub_is b UBAN_WILDUSER) \<and>
     (has_flag n UBAN_WILDUSER \<longrightarrow> \<not> ub_is b UBAN_WILDUSER)"

lemma mem_byte_mask:
  assumes "m AND 0xFFFF = 0xFFFF" and "i \<le> 1"
  shows "mem_byte i (w AND m) = mem_byte i w"
proof -
  have m: "bit m j" if "j < 16" for j
  proof -
    have f: "(0xFFFF :: u32) = mask 16" by (simp add: mask_eq_exp_minus_1)
    have "bit (m AND mask 16) j" unfolding assms(1) [unfolded f] using that by (simp add: bit_mask_iff)
    then show ?thesis by (simp add: bit_and_iff)
  qed
  have "drop_bit (8 * i) (w AND m) AND 0xFF = drop_bit (8 * i) w AND 0xFF"
    unfolding byte_masks using assms(2) m by (intro bit_word_eqI) (auto simp: bit_simps)
  then show ?thesis by (simp add: mem_byte_def)
qed

lemma kind_cases:
  assumes "ban_wf b"
  obtains (Big) "ub_is b UBAN_CIDR4BIG" "\<not> ub_is b UBAN_CIDR4" "\<not> ub_is b UBAN_IP" "\<not> ub_is b UBAN_HOST"
    | (C4) "\<not> ub_is b UBAN_CIDR4BIG" "ub_is b UBAN_CIDR4" "\<not> ub_is b UBAN_IP" "\<not> ub_is b UBAN_HOST"
        "ub_cidr4mask b AND 0xFFFF = 0xFFFF"
    | (Ip) "\<not> ub_is b UBAN_CIDR4BIG" "\<not> ub_is b UBAN_CIDR4" "ub_is b UBAN_IP" "\<not> ub_is b UBAN_HOST"
    | (Host) "\<not> ub_is b UBAN_CIDR4BIG" "\<not> ub_is b UBAN_CIDR4" "\<not> ub_is b UBAN_IP" "ub_is b UBAN_HOST"
  using assms by (auto simp: ban_wf_def split: if_splits)

lemma user_match_hit:
  assumes "ban_wf b" and "ban_place b = Some pl"
  shows "user_match_ban c b \<longleftrightarrow>
    (ub_is b UBAN_WILDUSER \<or> match (text_of (ub_u b)) (username_of c) = 0) \<and> hit c pl b"
  using assms(1) by (rule kind_cases)
    (use assms(2) in \<open>auto simp: user_match_ban_def ban_place_def hit_def has_flag_or split: if_splits\<close>)

lemma hit_searched:
  assumes "ban_wf b" and pl: "ban_place b = Some pl" and h: "hit c pl b" and w: "wanted y n b"
  shows "searched c y pl"
  using assms(1)
proof (rule kind_cases)
  assume "\<not> ub_is b UBAN_CIDR4BIG" "ub_is b UBAN_CIDR4" "ub_cidr4mask b AND 0xFFFF = 0xFFFF"
  moreover from this have p: "pl = Cidr4 (mem_byte 0 (ub_cidr4ip b)) (mem_byte 1 (ub_cidr4ip b))"
    using pl by (simp add: ban_place_def)
  moreover from p h have "ub_cidr4ip b = c_ip c AND ub_cidr4mask b" by (simp add: hit_def)
  ultimately show ?thesis using w by (simp add: searched_def wanted_def mem_byte_mask)
qed (use pl h w in \<open>auto simp: ban_place_def hit_def searched_def wanted_def
  dest: ipban.hash_same hostban.hash_same split: if_splits\<close>)

lemma searched_wanted:
  assumes "ban_wf b" and "ban_place b = Some pl" and "searched c y pl" and "\<not> ban_skipped NOW c y n b"
  shows "wanted y n b"
  using assms(1) by (rule kind_cases)
    (use assms(2-4) in \<open>auto simp: ban_place_def searched_def wanted_def ban_skipped_def split: if_splits\<close>)

subsection \<open>Adding, removing, sweeping\<close>

lemma add_userban_ok:
  assumes ok: "userban_ok st" and new: "b \<notin> bans st" and b: "b < ub_next st" "ban_wf (ub_store st b)"
  obtains st' where "add_hostbased_userban b st = Some st'" and "userban_ok st'" and "bans st' = insert b (bans st)"
    and "ub_store st' = ub_store st"
proof -
  obtain pl where pl: "ban_place (ub_store st b) = Some pl"
    using b(2) by (rule kind_cases) (auto simp: ban_place_def)
  let ?st = "st\<lparr>ub_lists := (ub_lists st)(pl := b # ub_lists st pl), ubanent_count := ubanent_count st + 1\<rparr>"
  have "userban_ok ?st" using ok new b pl by (auto simp: userban_ok_def bans_def)
  moreover have "bans ?st = insert b (bans st)" by (auto simp: bans_def split: if_splits)
  ultimately show thesis using pl by (intro that [of ?st]) (simp_all add: add_hostbased_userban_def)
qed

text \<open>
  A sweep drops the bans of a list that satisfy a predicate and leaves everything else.
\<close>

definition drops :: "(userBan \<Rightarrow> bool) \<Rightarrow> addr list \<Rightarrow> userban_state \<Rightarrow> userban_state \<Rightarrow> bool" where
  "drops P xs st st' \<longleftrightarrow>
     (\<forall>pl. ub_lists st' pl = filter (\<lambda>a. \<not> (a \<in> set xs \<and> P (ub_store st a))) (ub_lists st pl)) \<and>
     ub_store st' = ub_store st \<and> ub_next st' = ub_next st"

lemma drops_Nil: "drops P [] st st"
  by (simp add: drops_def)

lemma drops_remove:
  "userban_ok st \<Longrightarrow> P (ub_store st a) \<Longrightarrow> drops P [a] st (userban_free a (remove_userban a st))"
  by (auto simp: drops_def remove_userban_def userban_free_def filter_neq_remove1 [symmetric] ub_distinct
      intro!: filter_cong)

lemma drops_keep: "\<not> P (ub_store st a) \<Longrightarrow> drops P [a] st st"
  by (auto simp: drops_def filter_id_conv)

lemma drops_ok: "userban_ok st \<Longrightarrow> drops P xs st st' \<Longrightarrow> userban_ok st'"
  by (auto simp: userban_ok_def drops_def)

lemma drops_bans: "drops P xs st st' \<Longrightarrow> bans st' = {a \<in> bans st. \<not> (a \<in> set xs \<and> P (ub_store st a))}"
  by (auto simp: bans_def drops_def)

lemma drops_trans:
  assumes "drops P xs st st1" and "drops P ys st1 st2"
    and "\<And>a. a \<in> bans st1 \<Longrightarrow> P (ub_store st a) \<Longrightarrow> a \<in> set ys \<longleftrightarrow> a \<in> set zs"
  shows "drops P (xs @ zs) st st2"
proof -
  have "filter (\<lambda>a. \<not> (a \<in> set ys \<and> P (ub_store st a))) (ub_lists st1 pl) =
      filter (\<lambda>a. \<not> (a \<in> set zs \<and> P (ub_store st a))) (ub_lists st1 pl)" for pl
    using assms(3) by (intro filter_cong) (auto simp: bans_def)
  then show ?thesis using assms(1,2) by (auto simp: drops_def intro!: filter_cong)
qed

lemma expire_list_drops:
  "userban_ok (fst s) \<Longrightarrow> drops (ban_expired NOW) xs (fst s) (fst (expire_list NOW loc xs s))"
proof (induction NOW loc xs s rule: expire_list.induct)
  case (1 NOW loc s)
  then show ?case by (simp add: drops_Nil)
next
  case (2 NOW loc bl bls st cs)
  show ?case
  proof (cases "ban_expired NOW (ub_store st bl)")
    case True
    let ?st1 = "userban_free bl (remove_userban bl st)"
    have d: "drops (ban_expired NOW) [bl] st ?st1" using 2(3) True drops_remove by simp
    then have "userban_ok ?st1" using 2(3) drops_ok by simp
    with 2(1) True have "drops (ban_expired NOW) bls ?st1 (fst (expire_list NOW loc (bl # bls) (st, cs)))"
      by (simp add: Let_def)
    with d show ?thesis using drops_trans [of _ "[bl]" st ?st1 bls] by simp
  next
    case False
    with 2 have "drops (ban_expired NOW) bls st (fst (expire_list NOW loc (bl # bls) (st, cs)))"
      by (simp add: Let_def)
    with drops_keep [of "ban_expired NOW" st bl, OF False] show ?thesis
      using drops_trans [of _ "[bl]" st st bls] by simp
  qed
qed

lemma remove_list_drops:
  "userban_ok st \<Longrightarrow> drops (flags_selected f n) xs st (remove_list_match_flags f n xs st)"
proof (induction xs arbitrary: st)
  case Nil
  then show ?case by (simp add: drops_Nil)
next
  case (Cons a xs)
  let ?st1 = "if flags_selected f n (ub_store st a) then userban_free a (remove_userban a st) else st"
  have d: "drops (flags_selected f n) [a] st ?st1" using Cons.prems drops_remove drops_keep by simp
  then have "drops (flags_selected f n) xs ?st1 (remove_list_match_flags f n (a # xs) st)"
    using Cons.IH drops_ok [OF Cons.prems] by simp
  with d show ?case using drops_trans [of _ "[a]" st ?st1 xs] by simp
qed

text \<open>A walk over lists, each swept in the state it is reached in.\<close>

lemma drops_walk:
  assumes step: "\<And>pl s. userban_ok (g s) \<Longrightarrow> drops P (ub_lists (g s) pl) (g s) (g (f pl s))" and "userban_ok (g s)"
  shows "drops P (concat (map (ub_lists (g s)) pls)) (g s) (g (fold f pls s))"
  using assms(2)
proof (induction pls arbitrary: s)
  case Nil
  then show ?case by (simp add: drops_Nil)
next
  case (Cons pl pls)
  have d: "drops P (ub_lists (g s) pl) (g s) (g (f pl s))" by (rule step [OF Cons.prems])
  have "drops P (concat (map (ub_lists (g (f pl s))) pls)) (g (f pl s)) (g (fold f (pl # pls) s))"
    using Cons.IH [OF drops_ok [OF Cons.prems d]] by simp
  moreover have "a \<in> set (concat (map (ub_lists (g (f pl s))) pls)) \<longleftrightarrow> a \<in> set (concat (map (ub_lists (g s)) pls))"
    if "a \<in> bans (g (f pl s))" "P (ub_store (g s) a)" for a
  proof -
    have "a \<notin> set (ub_lists (g s) pl)" using that drops_bans [OF d] by simp
    then have "a \<in> set (ub_lists (g (f pl s)) q) \<longleftrightarrow> a \<in> set (ub_lists (g s) q)" for q using d by (simp add: drops_def)
    then show ?thesis by simp
  qed
  ultimately show ?case using drops_trans [OF d] by simp
qed

lemma cidr4_place: "a < 256 \<Longrightarrow> b < 256 \<Longrightarrow> Cidr4 a b \<in> set cidr4_places"
proof -
  assume a: "a < 256" and b: "b < 256"
  have "map (Cidr4 a) [0..<256] \<in> set (map (\<lambda>a. map (Cidr4 a) [0..<256]) [0..<256])"
    unfolding set_map using a by (intro imageI) (simp del: upt_rec_numeral)
  moreover have "Cidr4 a b \<in> set (map (Cidr4 a) [0..<256])"
    unfolding set_map using b by (intro imageI) (simp del: upt_rec_numeral)
  ultimately show ?thesis unfolding cidr4_places_def set_concat by (rule UN_I)
qed

lemma place_in_walk: "ban_place b = Some pl \<Longrightarrow> pl \<in> set walk_order"
  using cidr4_place [OF mem_byte_less mem_byte_less] ipban.hash_bound hostban.hash_bound
  by (auto simp: ban_place_def walk_order_def hash_places_def split: if_splits)

lemma drops_all:
  assumes ok: "userban_ok st" and d: "drops P (concat (map (ub_lists st) walk_order)) st st'"
  shows "ub_lists st' pl = filter (\<lambda>a. \<not> P (ub_store st a)) (ub_lists st pl) \<and> ub_store st' = ub_store st \<and> userban_ok st'"
proof -
  have "a \<in> set (concat (map (ub_lists st) walk_order))" if "a \<in> set (ub_lists st pl)" for a
    using that place_in_walk [OF ub_placed [OF ok that]] by auto
  then have "filter (\<lambda>a. \<not> (a \<in> set (concat (map (ub_lists st) walk_order)) \<and> P (ub_store st a))) (ub_lists st pl) =
      filter (\<lambda>a. \<not> P (ub_store st a)) (ub_lists st pl)"
    by (intro filter_cong) auto
  then show ?thesis using d drops_ok [OF ok d] by (simp add: drops_def)
qed

subsection \<open>What parsing produces\<close>

lemma netmask_low_bytes: "16 \<le> n \<Longrightarrow> n \<le> 32 \<Longrightarrow> htonl (cidr_to_netmask n) AND 0xFFFF = 0xFFFF"
proof -
  assume n: "16 \<le> n" "n \<le> 32"
  have f: "(0xFFFF :: u32) = mask 16" by (simp add: mask_eq_exp_minus_1)
  have "bit (htonl (cidr_to_netmask n)) i" if "i < 16" for i
    using that n by (cases "i < 8") (simp_all add: bit_htonl bit_cidr_to_netmask)
  then show ?thesis unfolding f by (intro bit_word_eqI) (auto simp: bit_and_iff bit_mask_iff)
qed

lemma cidr_ban_SomeD:
  assumes "cidr_ban host = Some (f, h, m)"
  shows "f = UBAN_CIDR4BIG \<or> f = UBAN_CIDR4 \<and> m AND 0xFFFF = 0xFFFF"
  using assms by (auto simp: cidr_ban_def Let_def intro!: netmask_low_bytes split: if_splits prod.splits)

definition kind_flags :: "u32 \<Rightarrow> u32 \<Rightarrow> bool" where
  "kind_flags f m \<longleftrightarrow>
     f = UBAN_CIDR4BIG \<or> f = UBAN_CIDR4 \<and> m AND 0xFFFF = 0xFFFF \<or>
     f \<in> {UBAN_IP, UBAN_IP OR UBAN_WILD, UBAN_HOST, UBAN_HOST OR UBAN_WILD, UBAN_HOST OR UBAN_WILD OR UBAN_WILDHOST}"

lemma analyse_host_kind: "analyse_host user host = Some (f, h, m) \<Longrightarrow> kind_flags f m"
  unfolding analyse_host_def Let_def
  by (auto simp: kind_flags_def dest!: cidr_ban_SomeD split: if_splits)

lemma kind_flags_wf:
  assumes "kind_flags f m"
  shows "ban_wf \<lparr>ub_flags = (if x then f OR UBAN_WILDUSER else f), ub_u = u, ub_h = h,
     ub_cidr4ip = i, ub_cidr4mask = (if has_flag f (UBAN_CIDR4BIG OR UBAN_CIDR4) then m else 0),
     ub_reason = r, ub_timeset = t, ub_duration = d\<rparr>"
  using assms unfolding kind_flags_def insert_iff empty_iff ban_wf_def has_flag_def uban_flags
  by (cases x; elim disjE) simp_all

lemma ban_of_wf:
  assumes "ban_of user host = Some b"
  shows "ban_wf b"
proof -
  obtain f h m where a: "analyse_host user host = Some (f, h, m)"
    using assms by (cases "analyse_host user host") (auto simp: ban_of_def)
  show ?thesis
    using assms kind_flags_wf [OF analyse_host_kind [OF a]] unfolding ban_of_def a Let_def by auto
qed

text \<open>Reading \<open>a.b.c.d/n\<close>.\<close>

lemma count_host_append: "count_host (xs @ ys) n = count_host ys (count_host xs n)"
  by (induction xs arbitrary: n) auto

lemma count_host_digits: "list_all is_digit xs \<Longrightarrow> count_host xs n = n\<lparr>numcount := numcount n + length xs\<rparr>"
  by (induction xs arbitrary: n) auto

lemma is_digit_digit: "d < 10 \<Longrightarrow> is_digit (digit d)"
proof -
  have "\<forall>d\<in>{0,1,2,3,4,5,6,7,8,9}. is_digit (digit d)" by code_simp
  moreover assume "d < 10"
  then have "d \<in> {0,1,2,3,4,5,6,7,8,9}" by auto
  ultimately show ?thesis by blast
qed

lemma byte_dec_digits: "n < 256 \<Longrightarrow> list_all is_digit (byte_dec n) \<and> byte_dec n \<noteq> []"
  by (auto simp: byte_dec_def is_digit_digit)

definition dotted_len :: "u32 \<Rightarrow> nat" where
  "dotted_len w = length (inetntoa w) - 3"

lemma count_inetntoa:
  "count_host (inetntoa w) no_counts =
     no_counts\<lparr>numcount := dotted_len w, dotcount := 3\<rparr> \<and> 0 < dotted_len w"
proof -
  have d: "list_all is_digit (byte_dec (mem_byte i w))" for i using byte_dec_digits [OF mem_byte_less] by blast
  have "is_digit CHR ''.'' = False" by (simp add: is_digit_def)
  moreover have "0 < length (byte_dec (mem_byte 0 w))" using byte_dec_digits [OF mem_byte_less [of 0 w]] by blast
  ultimately show ?thesis
    by (simp add: inetntoa_def dotted_len_def count_host_append count_host_digits [OF d] no_counts_def is_wildc_def)
qed

lemma inetntoa_no_slash: "CHR ''/'' \<notin> set (inetntoa w)"
proof -
  have "CHR ''/'' \<notin> set (byte_dec (mem_byte i w))" for i
    using byte_dec_digits [OF mem_byte_less [of i w]] by (auto simp: list_all_iff is_digit_def)
  then show ?thesis by (simp add: inetntoa_def)
qed

lemma cidr_ban_text:
  assumes "w \<noteq> 0xFFFFFFFF" and "strtol10 sep = (v, [])" and "0 \<le> v" and "v \<le> 32"
  shows "cidr_ban (inetntoa w @ ''/'' @ sep) =
    Some (if v < 16 then UBAN_CIDR4BIG else UBAN_CIDR4, w AND htonl (cidr_to_netmask (nat v)), htonl (cidr_to_netmask (nat v)))"
proof -
  have t: "takeWhile (\<lambda>c. c \<noteq> CHR ''/'') (inetntoa w @ ''/'' @ sep) = inetntoa w"
    "dropWhile (\<lambda>c. c \<noteq> CHR ''/'') (inetntoa w @ ''/'' @ sep) = ''/'' @ sep"
  proof -
    have "\<forall>c\<in>set (inetntoa w). c \<noteq> CHR ''/''" using inetntoa_no_slash [of w] by metis
    then show "takeWhile (\<lambda>c. c \<noteq> CHR ''/'') (inetntoa w @ ''/'' @ sep) = inetntoa w"
      "dropWhile (\<lambda>c. c \<noteq> CHR ''/'') (inetntoa w @ ''/'' @ sep) = ''/'' @ sep"
      by (simp_all add: takeWhile_append2 dropWhile_append2)
  qed
  have "inet_aton (inetntoa w) = Some w \<Longrightarrow> inet_addr (inetntoa w) = w" by (simp add: inet_addr_def)
  then have a: "inet_addr (inetntoa w) = w" using inet_aton_inetntoa by blast
  have "int_of_long v = v"
    using assms(3,4) by (simp add: int_of_long_def signed_of_int signed_take_bit_int_eq_self)
  then show ?thesis using assms unfolding cidr_ban_def Let_def t a by auto
qed

lemma analyse_cidr_text:
  assumes "list_all is_digit sep"
  shows "analyse_host user (inetntoa w @ ''/'' @ sep) = cidr_ban (inetntoa w @ ''/'' @ sep)"
proof -
  have "is_digit CHR ''/'' = False" by (simp add: is_digit_def)
  then have "count_host (inetntoa w @ ''/'' @ sep) no_counts =
      no_counts\<lparr>numcount := dotted_len w + length sep, dotcount := 3, slashcount := 1\<rparr>"
    using count_inetntoa [of w] count_host_digits [OF assms]
    by (simp add: count_host_append no_counts_def is_wildc_def)
  then show ?thesis using count_inetntoa [of w] unfolding analyse_host_def Let_def by (simp add: no_counts_def)
qed

lemma strtol10_digits:
  "list_all is_digit s \<Longrightarrow> strtol10 s = (min (2 ^ 63 - 1) (foldl (\<lambda>v c. v * 10 + (of_char c - 48)) 0 s), [])"
  by (simp add: strtol10_def list_all_iff takeWhile_eq_all_conv [THEN iffD2])

lemma strtol10_byte:
  assumes "n \<le> 32"
  shows "strtol10 (byte_dec n) = (int n, [])"
proof -
  have v: "(of_char (digit d) :: int) = 48 + int d" if "d < 10" for d
    using of_char_digit [OF that] by (metis of_nat_add of_nat_numeral of_nat_of_char)
  have "n div 10 < 10" "n mod 10 < 10" using assms by auto
  have "foldl (\<lambda>v c. v * 10 + (of_char c - 48)) 0 (byte_dec n) = int n"
  proof -
    have "int (n div 10) * 10 + int (n mod 10) = int n"
      by (metis div_mult_mod_eq of_nat_add of_nat_mult of_nat_numeral)
    then show ?thesis using assms \<open>n div 10 < 10\<close> \<open>n mod 10 < 10\<close> by (auto simp: byte_dec_def v)
  qed
  then show ?thesis using strtol10_digits byte_dec_digits [of n] assms by simp
qed

lemma ban_of_cidr:
  assumes "w \<noteq> 0xFFFFFFFF" and "list_all is_digit sep" and "strtol10 sep = (v, [])" and "0 \<le> v" and "v \<le> 32"
    and "no_user user"
  shows "ban_of user (inetntoa w @ ''/'' @ sep) =
    Some \<lparr>ub_flags = (if v < 16 then UBAN_CIDR4BIG else UBAN_CIDR4) OR UBAN_WILDUSER, ub_u = None, ub_h = None,
      ub_cidr4ip = w AND htonl (cidr_to_netmask (nat v)), ub_cidr4mask = htonl (cidr_to_netmask (nat v)),
      ub_reason = None, ub_timeset = 0, ub_duration = 0\<rparr>"
proof -
  have "has_flag (if v < 16 then UBAN_CIDR4BIG else UBAN_CIDR4) (UBAN_CIDR4BIG OR UBAN_CIDR4)"
    by (simp add: has_flag_def uban_flags)
  then show ?thesis
    unfolding ban_of_def analyse_cidr_text [OF assms(2)] cidr_ban_text [OF assms(1,3-5)] using assms(6)
    by (simp add: Let_def)
qed

lemma cidr_match:
  "user_match_ban c \<lparr>ub_flags = (if big then UBAN_CIDR4BIG else UBAN_CIDR4) OR UBAN_WILDUSER, ub_u = u, ub_h = h,
     ub_cidr4ip = i, ub_cidr4mask = m, ub_reason = r, ub_timeset = t, ub_duration = d\<rparr> \<longleftrightarrow> c_ip c AND m = i"
  by (cases big) (simp_all add: user_match_ban_def has_flag_def uban_flags)

lemma check_find_filter: "(\<And>x. x \<in> set xs \<Longrightarrow> P x \<Longrightarrow> Q x) \<Longrightarrow> find P (filter Q xs) = find P xs"
  by (induction xs) auto

lemma expire_userbans_lists:
  assumes "userban_ok (fst s)"
  shows "ub_lists (fst (expire_userbans NOW loc s)) pl =
      filter (\<lambda>a. \<not> ban_expired NOW (ub_store (fst s) a)) (ub_lists (fst s) pl) \<and>
    ub_store (fst (expire_userbans NOW loc s)) = ub_store (fst s) \<and> userban_ok (fst (expire_userbans NOW loc s))"
  unfolding expire_userbans_def
  by (rule drops_all [OF assms drops_walk [where g = fst, OF expire_list_drops assms]])

lemma remove_userbans_lists:
  assumes "userban_ok st"
  shows "ub_lists (remove_userbans_match_flags f n st) pl =
      filter (\<lambda>a. \<not> flags_selected f n (ub_store st a)) (ub_lists st pl) \<and>
    ub_store (remove_userbans_match_flags f n st) = ub_store st \<and> userban_ok (remove_userbans_match_flags f n st)"
  unfolding remove_userbans_match_flags_def
  by (rule drops_all [OF assms drops_walk [where g = "\<lambda>x. x", OF remove_list_drops assms]])

subsection \<open>Properties\<close>

definition example_bans :: userban_state where
  "example_bans = init_userban (\<lambda>_. \<lparr>ub_flags = 0, ub_u = None, ub_h = None, ub_cidr4ip = 0, ub_cidr4mask = 0,
     ub_reason = None, ub_timeset = 0, ub_duration = 0\<rparr>)"

lemma example_bans_ok: "userban_ok example_bans" "bans example_bans = {}"
  by (simp_all add: example_bans_def init_userban_ok bans_def) (simp add: init_userban_def)

text \<open>A table with a ban on 10.0.0.0/8 and a temporary one on 11.0.0.0/8, which ends at the time 3.\<close>

definition filled_bans :: userban_state where
  "filled_bans = example_bans\<lparr>ub_lists := (\<lambda>pl. if pl = Cidr4Big then [1, 0] else []), ub_next := 2,
     ub_store := (\<lambda>a. \<lparr>ub_flags = UBAN_CIDR4BIG OR UBAN_WILDUSER OR (if a = 1 then UBAN_TEMPORARY else 0), ub_u = None, ub_h = None,
       ub_cidr4ip = (if a = 1 then 0x0B else 0x0A), ub_cidr4mask = 0xFF, ub_reason = None, ub_timeset = 0, ub_duration = 3\<rparr>)\<rparr>"

lemma filled_bans_ok: "userban_ok filled_bans" "bans filled_bans = {0, 1}"
  by (auto simp: filled_bans_def userban_ok_def bans_def ban_place_def ban_wf_def has_flag_def uban_flags split: if_splits)

text \<open>
  C2: \<open>check_userbanned\<close> is exact although it looks at six lists only: in a consistent ban
  table the ban it returns is on the lists, has not expired, is of a kind asked for and matches
  the client in the sense of \<open>user_match_ban\<close>; and it returns no ban only when no such ban
  exists on any list.
\<close>

theorem check_userbanned_exact:
  assumes ok: "userban_ok st"
  shows "(\<forall>a. check_userbanned NOW c y n st = Some a \<longrightarrow>
      a \<in> bans st \<and> \<not> ban_expired NOW (ub_store st a) \<and> wanted y n (ub_store st a) \<and> user_match_ban c (ub_store st a)) \<and>
    (check_userbanned NOW c y n st = None \<longrightarrow>
      (\<forall>a\<in>bans st. ban_expired NOW (ub_store st a) \<or> \<not> wanted y n (ub_store st a) \<or> \<not> user_match_ban c (ub_store st a)))"
proof (intro conjI allI impI)
  fix a
  assume "check_userbanned NOW c y n st = Some a"
  then obtain pl where pl: "searched c y pl" "a \<in> set (ub_lists st pl)" "\<not> ban_skipped NOW c y n (ub_store st a)"
    "hit c pl (ub_store st a)"
    using check_userbanned_SomeD by blast
  note wf = ub_wf [OF ok pl(2)] ub_placed [OF ok pl(2)]
  show "a \<in> bans st" using pl(2) by (auto simp: bans_def)
  show "\<not> ban_expired NOW (ub_store st a)" using pl(3) by (simp add: ban_skipped_def)
  show "wanted y n (ub_store st a)" using searched_wanted [OF wf pl(1,3)] .
  show "user_match_ban c (ub_store st a)"
    using user_match_hit [OF wf, of c] pl(3,4) by (simp add: ban_skipped_def)
next
  assume none: "check_userbanned NOW c y n st = None"
  show "\<forall>a\<in>bans st. ban_expired NOW (ub_store st a) \<or> \<not> wanted y n (ub_store st a) \<or> \<not> user_match_ban c (ub_store st a)"
  proof
    fix a
    assume "a \<in> bans st"
    then obtain pl where pl: "a \<in> set (ub_lists st pl)" by (auto simp: bans_def)
    note wf = ub_wf [OF ok pl] ub_placed [OF ok pl]
    show "ban_expired NOW (ub_store st a) \<or> \<not> wanted y n (ub_store st a) \<or> \<not> user_match_ban c (ub_store st a)"
    proof (rule ccontr)
      assume *: "\<not> ?thesis"
      then have h: "hit c pl (ub_store st a)" using user_match_hit [OF wf, of c] by simp
      then have "searched c y pl" using hit_searched [OF wf h] * by blast
      moreover have "\<not> ban_skipped NOW c y n (ub_store st a)"
        using * user_match_hit [OF wf, of c] by (auto simp: ban_skipped_def wanted_def)
      ultimately show False using none pl h unfolding check_userbanned_None by blast
    qed
  qed
qed

theorem check_userbanned_exact_witness:
  "userban_ok filled_bans \<and>
   check_userbanned 5 ((example_client ''Nick'')\<lparr>c_ip := 0x0100000A\<rparr>) UBAN_CIDR4 0 filled_bans = Some 0 \<and>
   check_userbanned 5 ((example_client ''Nick'')\<lparr>c_ip := 0x0100000B\<rparr>) UBAN_CIDR4 0 filled_bans = None"
proof -
  let ?c = "\<lambda>ip. (example_client ''Nick'')\<lparr>c_ip := ip\<rparr>"
  have e: "ban_expired 5 (ub_store filled_bans 1)" "\<not> ban_expired 5 (ub_store filled_bans 0)"
    "wanted UBAN_CIDR4 0 (ub_store filled_bans 0)" "user_match_ban (?c 0x0100000A) (ub_store filled_bans 0)"
    "\<not> user_match_ban (?c 0x0100000B) (ub_store filled_bans 0)"
    by (simp_all add: filled_bans_def ban_expired_def wanted_def user_match_ban_def has_flag_def uban_flags)
  note x = check_userbanned_exact [OF filled_bans_ok(1), of 5 "?c 0x0100000A" UBAN_CIDR4 0]
    check_userbanned_exact [OF filled_bans_ok(1), of 5 "?c 0x0100000B" UBAN_CIDR4 0]
  have "check_userbanned 5 (?c 0x0100000A) UBAN_CIDR4 0 filled_bans = Some 0"
    using x(1) e filled_bans_ok(2) by (cases "check_userbanned 5 (?c 0x0100000A) UBAN_CIDR4 0 filled_bans") auto
  moreover have "check_userbanned 5 (?c 0x0100000B) UBAN_CIDR4 0 filled_bans = None"
    using x(2) e filled_bans_ok(2) by (cases "check_userbanned 5 (?c 0x0100000B) UBAN_CIDR4 0 filled_bans") auto
  ultimately show ?thesis using filled_bans_ok(1) by blast
qed

text \<open>
  C33: whatever user and host text is given, a ban made by \<open>make_hostbased_ban\<close> is well formed
  (of exactly one kind, with a mask of at least 16 bits when it is filed by its first two bytes),
  so filing it succeeds (the \<^verbatim>\<open>abort\<close> is not reached), keeps the table consistent and adds
  exactly this ban.
\<close>

theorem make_add_userban:
  assumes "userban_ok st" and "make_hostbased_ban user host st = (Some b, st1)"
  shows "\<exists>st2. add_hostbased_userban b st1 = Some st2 \<and> userban_ok st2 \<and> bans st2 = insert b (bans st) \<and>
    ban_wf (ub_store st2 b)"
proof -
  obtain ban where ban: "ban_of user host = Some ban" and b: "b = ub_next st"
    and st1: "st1 = st\<lparr>ub_store := (ub_store st)(ub_next st := ban), ub_next := Suc (ub_next st),
      userban_count := userban_count st + 1\<rparr>"
    using assms(2) by (auto simp: make_hostbased_ban_def split: option.splits)
  have fresh: "a < ub_next st" if "a \<in> set (ub_lists st pl)" for a pl using ub_fresh [OF assms(1) that] .
  have ok1: "userban_ok st1"
  proof -
    have "a \<noteq> ub_next st \<and> a < Suc (ub_next st)" if "a \<in> set (ub_lists st pl)" for a pl using fresh [OF that] by simp
    then show ?thesis
      using ub_distinct [OF assms(1)] ub_placed [OF assms(1)] ub_wf [OF assms(1)] by (simp add: userban_ok_def st1)
  qed
  have b1: "bans st1 = bans st" by (simp add: bans_def st1)
  have "b \<notin> bans st" unfolding b bans_def using fresh [of "ub_next st"] by blast
  then have "b \<notin> bans st1" using b1 by simp
  then obtain st2 where "add_hostbased_userban b st1 = Some st2" "userban_ok st2" "bans st2 = insert b (bans st1)"
    "ub_store st2 = ub_store st1"
    using add_userban_ok [OF ok1, of b] ban_of_wf [OF ban] by (auto simp: st1 b)
  then show ?thesis using b1 ban_of_wf [OF ban] by (auto simp: st1 b)
qed

theorem make_add_userban_witness:
  "\<exists>st1 st2. make_hostbased_ban None ''badhost.example'' example_bans = (Some 0, st1) \<and>
     add_hostbased_userban 0 st1 = Some st2 \<and> bans st2 = {0}"
proof -
  have "\<exists>ban. ban_of None ''badhost.example'' = Some ban"
    by (simp add: ban_of_def analyse_host_def no_counts_def is_digit_def is_wildc_def Let_def)
  then obtain st1 where m: "make_hostbased_ban None ''badhost.example'' example_bans = (Some 0, st1)"
    by (auto simp: make_hostbased_ban_def example_bans_def init_userban_def)
  from make_add_userban [OF example_bans_ok(1) m] m show ?thesis by (auto simp: example_bans_ok)
qed

text \<open>
  C4: a ban written \<open>a.b.c.d/n\<close> bans exactly the network it names: for every address other
  than 255.255.255.255 (which the parser cannot tell from an error) and every \<open>n\<close> from 0 to
  32, the text is accepted, and the ban made from it matches a client if and only if the first \<open>n\<close>
  bits of the client's address, in the order in which addresses are written, are those of \<open>a.b.c.d\<close>.
\<close>

theorem cidr_ban_matches_network:
  assumes "w \<noteq> 0xFFFFFFFF" and "n \<le> 32"
  shows "\<exists>b. ban_of (Some ''*'') (inetntoa w @ ''/'' @ byte_dec n) = Some b \<and>
    (\<forall>c. user_match_ban c b \<longleftrightarrow> (\<forall>k<n. addr_bit k (c_ip c) = addr_bit k w))"
proof -
  have "no_user (Some ''*'')" by (simp add: no_user_def text_of_def mycmp_zero_iff)
  then show ?thesis
    using ban_of_cidr [OF assms(1) _ strtol10_byte [OF assms(2)]] byte_dec_digits [of n] assms(2)
    by (auto simp: cidr_match same_network_iff [OF assms(2)])
qed

theorem cidr_ban_matches_network_witness:
  "\<exists>b. ban_of (Some ''*'') ''10.0.0.1/8'' = Some b \<and>
     user_match_ban ((example_client ''inside'')\<lparr>c_ip := 0x0403020A\<rparr>) b \<and>
     \<not> user_match_ban ((example_client ''outside'')\<lparr>c_ip := 0x0100000B\<rparr>) b"
proof -
  have t: "inetntoa 0x0100000A @ ''/'' @ byte_dec 8 = ''10.0.0.1/8''" by code_simp
  have "\<exists>b. ban_of (Some ''*'') (inetntoa 0x0100000A @ ''/'' @ byte_dec 8) = Some b \<and>
      (\<forall>c. user_match_ban c b \<longleftrightarrow> (\<forall>k<8. addr_bit k (c_ip c) = addr_bit k 0x0100000A))"
    by (rule cidr_ban_matches_network) simp_all
  then obtain b where b: "ban_of (Some ''*'') ''10.0.0.1/8'' = Some b"
    "\<And>c. user_match_ban c b \<longleftrightarrow> (\<forall>k<8. addr_bit k (c_ip c) = addr_bit k 0x0100000A)" unfolding t by blast
  have "addr_bit k 0x0403020A = addr_bit k 0x0100000A" if "k < 8" for k
    using that by (simp add: addr_bit_def mem_byte_def)
  then have i: "user_match_ban ((example_client ''inside'')\<lparr>c_ip := 0x0403020A\<rparr>) b" by (simp add: b(2))
  have "addr_bit 7 0x0100000B \<noteq> addr_bit 7 0x0100000A" by (simp add: addr_bit_def mem_byte_def)
  moreover have "(7::nat) < 8" by simp
  ultimately have "\<not> (\<forall>k<8. addr_bit k 0x0100000B = addr_bit k 0x0100000A)" by blast
  then have "\<not> user_match_ban ((example_client ''outside'')\<lparr>c_ip := 0x0100000B\<rparr>) b" by (simp add: b(2))
  with b(1) i show ?thesis by blast
qed

text \<open>
  C36: an address followed by a slash and no prefix length is not refused: it is taken as a
  prefix of length 0, and the ban matches every client.
\<close>

theorem empty_prefix_bans_everyone:
  assumes "w \<noteq> 0xFFFFFFFF"
  shows "\<exists>b. ban_of None (inetntoa w @ ''/'') = Some b \<and> (\<forall>c. user_match_ban c b)"
  using ban_of_cidr [OF assms, of "[]" 0 None]
    cidr_match [of _ True None None 0 0 None 0 0]
  by (auto simp: strtol10_def no_user_def cidr_to_netmask_def htonl_def)

theorem empty_prefix_bans_everyone_witness:
  "\<exists>b. ban_of None (inetntoa 0x0100000A @ ''/'') = Some b \<and> user_match_ban (example_client ''Nick'') b"
  using empty_prefix_bans_everyone [of "0x0100000A"] by auto

text \<open>
  C34: \<open>expire_userbans\<close>, walking all 65536 network lists, both hash tables and the wildcard
  lists, removes exactly the expired bans from exactly the lists they are on, keeps the table
  consistent, and does not change the answer of any check made at that time.
\<close>

theorem expire_userbans_exact:
  assumes ok: "userban_ok st"
  shows "let st' = fst (expire_userbans NOW loc (st, cs)) in
    bans st' = {a \<in> bans st. \<not> ban_expired NOW (ub_store st a)} \<and> userban_ok st' \<and>
    check_userbanned NOW c y n st' = check_userbanned NOW c y n st"
proof -
  let ?st = "fst (expire_userbans NOW loc (st, cs))"
  have l: "ub_lists ?st pl = filter (\<lambda>a. \<not> ban_expired NOW (ub_store st a)) (ub_lists st pl)"
    "ub_store ?st = ub_store st" "userban_ok ?st" for pl
    using expire_userbans_lists [of "(st, cs)" NOW loc pl] ok by simp_all
  have "scan_place NOW c y n ?st pl = scan_place NOW c y n st pl" for pl
    unfolding scan_place_def l by (rule check_find_filter) (simp add: ban_skipped_def)
  then have "check_userbanned NOW c y n ?st = check_userbanned NOW c y n st"
    unfolding check_userbanned_eq by presburger
  then show ?thesis using l by (auto simp: bans_def Let_def)
qed

theorem expire_userbans_exact_witness:
  "userban_ok filled_bans \<and> bans filled_bans = {0, 1} \<and>
   bans (fst (expire_userbans 5 [] (filled_bans, \<lambda>_. example_client ''Nick''))) = {0}"
proof -
  have "ban_expired 5 (ub_store filled_bans 1)" "\<not> ban_expired 5 (ub_store filled_bans 0)"
    by (simp_all add: filled_bans_def ban_expired_def has_flag_def uban_flags)
  then have "{a. (a = 0 \<or> a = 1) \<and> \<not> ban_expired 5 (ub_store filled_bans a)} = {0}" by auto
  then show ?thesis
    using expire_userbans_exact [OF filled_bans_ok(1), of 5 "[]" "\<lambda>_. example_client ''Nick''"] filled_bans_ok
    by (simp add: Let_def del: One_nat_def)
qed

text \<open>
  \<open>remove_userbans_match_flags\<close> removes exactly the bans that carry all of the flags asked
  for and none of the flags excluded (all bans when both are 0), and nothing else.
\<close>

lemma remove_userbans_exact:
  assumes ok: "userban_ok st"
  shows "let st' = remove_userbans_match_flags f n st in
    bans st' = {a \<in> bans st. \<not> ((f = 0 \<and> n = 0) \<or> ub_flags (ub_store st a) AND f = f \<and> ub_flags (ub_store st a) AND n = 0)} \<and>
    userban_ok st'"
  using remove_userbans_lists [OF ok, of f n] by (auto simp: bans_def Let_def flags_selected_def)

lemma check_userbanned_unregistered:
  assumes "has_flag y UBAN_WILDUSER" and "\<not> has_flag y UBAN_HOST"
  shows "check_userbanned NOW (c\<lparr>c_user := u\<rparr>) y n st = check_userbanned NOW c y n st"
proof -
  have "places_searched (c\<lparr>c_user := u\<rparr>) y = places_searched c y"
    using assms by (simp add: places_searched_def iptmp_of_def)
  moreover have "scan_place NOW (c\<lparr>c_user := u\<rparr>) y n st pl = scan_place NOW c y n st pl"
    if "pl \<in> set (places_searched c y)" for pl
    using that assms by (auto simp: scan_place_def ban_skipped_def hit_def searched_iff searched_def iptmp_of_def
        intro!: find_cong_set)
  moreover have "first_place f pls = first_place g pls" if "\<And>pl. pl \<in> set pls \<Longrightarrow> f pl = g pl" for f g pls
    using that by (induction pls) auto
  ultimately show ?thesis unfolding check_userbanned_eq by metis
qed

end
