(* ===== verification/Simban.thy ===== *)
theory Simban
  imports Userban
begin

section \<open>Simple bans: nicknames, channels and real names (src/src/userban.c, second half)\<close>

text \<open>
  Q-lines on nicknames and channels and G-lines on real names.  Each of the three tables has a
  wildcard list and \<open>HASH_SIZE\<close> buckets of exact masks; \<open>sim_place\<close> names the lists, so
  \<open>sb_lists st (SimHash NickBans h)\<close> is \<^verbatim>\<open>nick_bans.hash_list[h]\<close>.  Removal of bans by
  flags or mask only marks them as expired; \<open>expire_simbans\<close> unlinks them later.  \<open>None\<close>
  is the call of \<^verbatim>\<open>abort\<close>.
\<close>

definition SBAN_LOCAL :: u32 where "SBAN_LOCAL = 0x001"
definition SBAN_NETWORK :: u32 where "SBAN_NETWORK = 0x002"
definition SBAN_NICK :: u32 where "SBAN_NICK = 0x004"
definition SBAN_GCOS :: u32 where "SBAN_GCOS = 0x008"
definition SBAN_CHAN :: u32 where "SBAN_CHAN = 0x010"
definition SBAN_WILD :: u32 where "SBAN_WILD = 0x020"
definition SBAN_TEMPORARY :: u32 where "SBAN_TEMPORARY = 0x040"

lemmas sban_flags = SBAN_LOCAL_def SBAN_NETWORK_def SBAN_NICK_def SBAN_GCOS_def SBAN_CHAN_def SBAN_WILD_def
  SBAN_TEMPORARY_def

record simBan =
  sb_flags :: u32
  sb_mask :: cstr
  sb_reason :: "cstr option"
  sb_timeset :: time_t
  sb_duration :: time_t
  sb_autocap :: time_t

datatype sim_kind = NickBans | ChanBans | GcosBans
datatype sim_place = SimWild sim_kind | SimHash sim_kind nat

record simban_state =
  sb_lists :: "sim_place \<Rightarrow> addr list"
  sb_store :: "addr \<Rightarrow> simBan"
  sb_next :: addr
  simban_count :: int

abbreviation sb_is :: "simBan \<Rightarrow> u32 \<Rightarrow> bool" where
  "sb_is b f \<equiv> has_flag (sb_flags b) f"

definition init_simban :: "(addr \<Rightarrow> simBan) \<Rightarrow> simban_state" where
  "init_simban mem = \<lparr>sb_lists = (\<lambda>_. []), sb_store = mem, sb_next = 0, simban_count = 0\<rparr>"

definition sim_ban_of :: "u32 \<Rightarrow> cstr \<Rightarrow> simBan option" where
  "sim_ban_of flags msk =
     (let wildcount = length (filter is_wildc msk);
          othercount = length (filter (\<lambda>c. \<not> is_wildc c) msk)
      in if flags AND (SBAN_NETWORK OR SBAN_LOCAL) = 0 then None
         else if flags AND (SBAN_NICK OR SBAN_GCOS OR SBAN_CHAN) = 0 then None
         else if othercount = 0 then None
         else Some \<lparr>sb_flags = (if wildcount > 0 then flags OR SBAN_WILD else flags), sb_mask = msk,
                    sb_reason = None, sb_timeset = 0, sb_duration = 0, sb_autocap = 0\<rparr>)"

definition make_simpleban :: "u32 \<Rightarrow> cstr \<Rightarrow> simban_state \<Rightarrow> addr option \<times> simban_state" where
  "make_simpleban flags msk st =
     (case sim_ban_of flags msk of
        None \<Rightarrow> (None, st)
      | Some b \<Rightarrow> (Some (sb_next st), st\<lparr>sb_store := (sb_store st)(sb_next st := b), sb_next := Suc (sb_next st),
                                         simban_count := simban_count st + 1\<rparr>))"

text \<open>The choice of a table by flags, made the same way in every function.\<close>

definition kind_of :: "u32 \<Rightarrow> sim_kind option" where
  "kind_of flags =
     (if has_flag flags SBAN_NICK then Some NickBans
      else if has_flag flags SBAN_CHAN then Some ChanBans
      else if has_flag flags SBAN_GCOS then Some GcosBans
      else None)"

definition sban_place :: "simBan \<Rightarrow> sim_place option" where
  "sban_place b =
     map_option (\<lambda>k. if sb_is b SBAN_WILD then SimWild k else SimHash k (host_bucket (sb_mask b))) (kind_of (sb_flags b))"

definition add_simban :: "addr \<Rightarrow> simban_state \<Rightarrow> simban_state option" where
  "add_simban b st =
     (case sban_place (sb_store st b) of
        None \<Rightarrow> None
      | Some pl \<Rightarrow> Some (st\<lparr>sb_lists := (sb_lists st)(pl := b # sb_lists st pl)\<rparr>))"

definition remove_simban :: "addr \<Rightarrow> simban_state \<Rightarrow> simban_state" where
  "remove_simban b st = st\<lparr>sb_lists := (\<lambda>pl. remove1 b (sb_lists st pl))\<rparr>"

definition simban_free :: "addr \<Rightarrow> simban_state \<Rightarrow> simban_state" where
  "simban_free b st = st\<lparr>simban_count := simban_count st - 1\<rparr>"

definition find_simban_exact :: "simBan \<Rightarrow> simban_state \<Rightarrow> addr option" where
  "find_simban_exact borig st =
     (case sban_place borig of
        None \<Rightarrow> None
      | Some pl \<Rightarrow> find (\<lambda>a. sb_flags (sb_store st a) = sb_flags borig \<and> mycmp (sb_mask (sb_store st a)) (sb_mask borig) = 0)
                    (sb_lists st pl))"

definition user_match_simban :: "aClient \<Rightarrow> simBan \<Rightarrow> bool option" where
  "user_match_simban c b =
     (case kind_of (sb_flags b) of
        None \<Rightarrow> None
      | Some ChanBans \<Rightarrow> Some False
      | Some k \<Rightarrow>
          (let userinfo = (if k = NickBans then c_name c else c_info c) in
           Some (if sb_is b SBAN_WILD then match (sb_mask b) userinfo = 0 else mycmp (sb_mask b) userinfo = 0)))"

definition sim_expired :: "time_t \<Rightarrow> simBan \<Rightarrow> bool" where
  "sim_expired NOW b \<longleftrightarrow> sb_is b SBAN_TEMPORARY \<and> sb_timeset b + sb_duration b \<le> NOW"

definition check_mask_simbanned :: "time_t \<Rightarrow> cstr \<Rightarrow> u32 \<Rightarrow> simban_state \<Rightarrow> addr option option" where
  "check_mask_simbanned NOW msk flags st =
     (case kind_of flags of
        None \<Rightarrow> None
      | Some k \<Rightarrow>
          Some (opt_or
            (find (\<lambda>a. \<not> sim_expired NOW (sb_store st a) \<and> mycmp (sb_mask (sb_store st a)) msk = 0)
               (sb_lists st (SimHash k (host_bucket msk))))
            (find (\<lambda>a. \<not> sim_expired NOW (sb_store st a) \<and> match (sb_mask (sb_store st a)) msk = 0)
               (sb_lists st (SimWild k)))))"

subsection \<open>Walks over a table\<close>

definition kind_places :: "sim_kind \<Rightarrow> sim_place list" where
  "kind_places k = map (SimHash k) [0..<HASH_SIZE] @ [SimWild k]"

text \<open>A line of \<^verbatim>\<open>STATS\<close>: letters, mask, remaining minutes or -1, reason.\<close>

definition report_sim :: "time_t \<Rightarrow> u32 \<Rightarrow> bool \<Rightarrow> simBan \<Rightarrow> cstr \<times> cstr \<times> int \<times> cstr" where
  "report_sim NOW flags wild b =
     ((let loc = has_flag flags SBAN_LOCAL in
       (if has_flag flags SBAN_NICK then [if loc then CHR ''Q'' else CHR ''q'', CHR ''n'']
        else if has_flag flags SBAN_CHAN then [if loc then CHR ''Q'' else CHR ''q'', CHR ''c'']
        else [if loc then CHR ''G'' else CHR ''g'']) @ (if wild then ''w'' else [])),
      sb_mask b,
      if sb_is b SBAN_TEMPORARY then minutes (sb_timeset b + sb_duration b - NOW) else - 1,
      case sb_reason b of Some r \<Rightarrow> r | None \<Rightarrow> ''No Reason'')"

definition sim_selected :: "time_t \<Rightarrow> u32 \<Rightarrow> u32 \<Rightarrow> simBan \<Rightarrow> bool" where
  "sim_selected NOW flags nflags b \<longleftrightarrow>
     \<not> sim_expired NOW b \<and> sb_flags b AND flags = flags \<and> sb_flags b AND nflags = 0"

definition report_simbans_match_flags ::
  "time_t \<Rightarrow> u32 \<Rightarrow> u32 \<Rightarrow> simban_state \<Rightarrow> (cstr \<times> cstr \<times> int \<times> cstr) list option" where
  "report_simbans_match_flags NOW flags nflags st =
     map_option (\<lambda>k. concat (map (\<lambda>pl.
         map (\<lambda>a. report_sim NOW flags (pl = SimWild k) (sb_store st a))
           (filter (\<lambda>a. sim_selected NOW flags nflags (sb_store st a)) (sb_lists st pl))) (kind_places k)))
       (kind_of flags)"

text \<open>The ``kludge'': mark a ban as a temporary one that ended four seconds ago.\<close>

definition kludge_out :: "time_t \<Rightarrow> simBan \<Rightarrow> simBan" where
  "kludge_out NOW b = b\<lparr>sb_flags := sb_flags b OR SBAN_TEMPORARY, sb_timeset := NOW - 5, sb_duration := 1\<rparr>"

fun mark_list :: "time_t \<Rightarrow> (simBan \<Rightarrow> bool) \<Rightarrow> addr list \<Rightarrow> simban_state \<Rightarrow> simban_state" where
  "mark_list NOW P [] st = st"
| "mark_list NOW P (a # as) st =
     mark_list NOW P as
       (if P (sb_store st a) then st\<lparr>sb_store := (sb_store st)(a := kludge_out NOW (sb_store st a))\<rparr> else st)"

definition mark_walk :: "time_t \<Rightarrow> (simBan \<Rightarrow> bool) \<Rightarrow> sim_kind \<Rightarrow> simban_state \<Rightarrow> simban_state" where
  "mark_walk NOW P k st = fold (\<lambda>pl st. mark_list NOW P (sb_lists st pl) st) (kind_places k) st"

definition remove_simbans_match_flags :: "time_t \<Rightarrow> u32 \<Rightarrow> u32 \<Rightarrow> simban_state \<Rightarrow> simban_state option" where
  "remove_simbans_match_flags NOW flags nflags st =
     map_option (\<lambda>k. mark_walk NOW (sim_selected NOW flags nflags) k st) (kind_of flags)"

definition mask_selected :: "time_t \<Rightarrow> u32 \<Rightarrow> cstr \<Rightarrow> bool \<Rightarrow> simBan \<Rightarrow> bool" where
  "mask_selected NOW flags msk wild b \<longleftrightarrow>
     \<not> sim_expired NOW b \<and> sb_flags b AND flags = flags \<and>
     (if wild then match msk (sb_mask b) = 0 else mycmp msk (sb_mask b) = 0)"

definition remove_simbans_match_mask :: "time_t \<Rightarrow> u32 \<Rightarrow> cstr \<Rightarrow> bool \<Rightarrow> simban_state \<Rightarrow> simban_state option" where
  "remove_simbans_match_mask NOW flags msk wild st =
     map_option (\<lambda>k. mark_walk NOW (mask_selected NOW flags msk wild) k st) (kind_of flags)"

text \<open>\<open>send_simbans\<close>: command, mask and reason of the permanent bans.\<close>

definition send_simbans :: "u32 \<Rightarrow> simban_state \<Rightarrow> (cstr \<times> cstr \<times> cstr option) list option" where
  "send_simbans flags st =
     map_option (\<lambda>k. concat (map (\<lambda>pl.
         map (\<lambda>a. (if sb_is (sb_store st a) SBAN_GCOS then ''SGLINE'' else ''SQLINE'',
                   sb_mask (sb_store st a), sb_reason (sb_store st a)))
           (filter (\<lambda>a. \<not> sb_is (sb_store st a) SBAN_TEMPORARY \<and> sb_flags (sb_store st a) AND flags = flags)
              (sb_lists st pl))) (kind_places k)))
       (kind_of flags)"

fun expire_simlist :: "time_t \<Rightarrow> addr list \<Rightarrow> simban_state \<Rightarrow> simban_state" where
  "expire_simlist NOW [] st = st"
| "expire_simlist NOW (bl # bls) st =
     expire_simlist NOW bls
       (if sim_expired NOW (sb_store st bl) then simban_free bl (remove_simban bl st) else st)"

definition sim_walk_order :: "sim_place list" where
  "sim_walk_order =
     [SimWild NickBans, SimWild ChanBans, SimWild GcosBans] @
     concat (map (\<lambda>a. [SimHash NickBans a, SimHash ChanBans a, SimHash GcosBans a]) [0..<HASH_SIZE])"

definition expire_simbans :: "time_t \<Rightarrow> simban_state \<Rightarrow> simban_state" where
  "expire_simbans NOW st = fold (\<lambda>pl st. expire_simlist NOW (sb_lists st pl) st) sim_walk_order st"

subsection \<open>Invariant\<close>

definition simban_ok :: "simban_state \<Rightarrow> bool" where
  "simban_ok st \<longleftrightarrow>
     (\<forall>pl. distinct (sb_lists st pl)) \<and>
     (\<forall>pl. \<forall>a\<in>set (sb_lists st pl). sban_place (sb_store st a) = Some pl \<and> a < sb_next st)"

definition sbans :: "simban_state \<Rightarrow> addr set" where
  "sbans st = (\<Union>pl. set (sb_lists st pl))"

lemma simban_okD:
  assumes "simban_ok st"
  shows sb_distinct: "distinct (sb_lists st pl)"
    and sb_placed: "a \<in> set (sb_lists st pl) \<Longrightarrow> sban_place (sb_store st a) = Some pl"
  using assms by (simp_all add: simban_ok_def)

text \<open>What a mask is compared with, by the ban alone.\<close>

definition sim_hits :: "simBan \<Rightarrow> cstr \<Rightarrow> bool" where
  "sim_hits b t \<longleftrightarrow> (if sb_is b SBAN_WILD then match (sb_mask b) t = 0 else mycmp (sb_mask b) t = 0)"

lemma sban_place_cases:
  "sban_place b = Some pl \<Longrightarrow> kind_of (sb_flags b) = Some k \<Longrightarrow>
     pl = (if sb_is b SBAN_WILD then SimWild k else SimHash k (host_bucket (sb_mask b)))"
  by (simp add: sban_place_def)

lemma sban_place_kind:
  "sban_place b = Some (SimWild k) \<Longrightarrow> kind_of (sb_flags b) = Some k \<and> sb_is b SBAN_WILD"
  "sban_place b = Some (SimHash k h) \<Longrightarrow> kind_of (sb_flags b) = Some k \<and> \<not> sb_is b SBAN_WILD"
  by (auto simp: sban_place_def split: if_splits)

lemma sban_in_walk: "sban_place b = Some pl \<Longrightarrow> pl \<in> set sim_walk_order"
proof -
  have "SimHash k (host_bucket m) \<in> set sim_walk_order \<and> SimWild k \<in> set sim_walk_order" for k m
    using hostban.hash_bound [of m] by (cases k) (auto simp: sim_walk_order_def)
  then show "sban_place b = Some pl \<Longrightarrow> pl \<in> set sim_walk_order"
    by (auto simp: sban_place_def split: if_splits)
qed

lemma sban_in_kind_places:
  "sban_place b = Some pl \<Longrightarrow> pl \<in> set (kind_places k) \<longleftrightarrow> kind_of (sb_flags b) = Some k"
  using hostban.hash_bound by (auto simp: kind_places_def sban_place_def split: if_splits)

subsection \<open>Marking and expiring\<close>

lemma kludge_flags:
  assumes "f \<in> {SBAN_NICK, SBAN_CHAN, SBAN_GCOS, SBAN_WILD}"
  shows "has_flag (x OR SBAN_TEMPORARY) f \<longleftrightarrow> has_flag x f"
proof -
  have "SBAN_TEMPORARY AND f = 0" using assms by (auto simp: sban_flags)
  then show ?thesis by (simp add: has_flag_def bit.conj_disj_distrib2)
qed

lemma kludge_place: "sban_place (kludge_out NOW b) = sban_place b"
  by (simp add: sban_place_def kludge_out_def kind_of_def kludge_flags)

lemma kludge_expired: "sim_expired NOW (kludge_out NOW b)"
proof -
  have "SBAN_TEMPORARY AND SBAN_TEMPORARY \<noteq> 0" by (simp add: sban_flags)
  then show ?thesis
    by (simp add: sim_expired_def kludge_out_def has_flag_def bit.conj_disj_distrib2 or_eq_0_iff)
qed

text \<open>Only bans that are not expired are marked, and a marked one is expired.\<close>

lemma mark_list_store:
  assumes "\<And>b. P b \<Longrightarrow> \<not> sim_expired NOW b"
  shows "sb_lists (mark_list NOW P as st) = sb_lists st \<and> sb_next (mark_list NOW P as st) = sb_next st \<and>
    sb_store (mark_list NOW P as st) a =
      (if a \<in> set as \<and> P (sb_store st a) then kludge_out NOW (sb_store st a) else sb_store st a)"
proof (induction as arbitrary: st)
  case (Cons x as)
  have "\<not> P (kludge_out NOW b)" for b using assms kludge_expired by blast
  with Cons.IH show ?case by auto
qed simp

lemma mark_walk_store:
  assumes "\<And>b. P b \<Longrightarrow> \<not> sim_expired NOW b"
  shows "sb_lists (fold (\<lambda>pl st. mark_list NOW P (sb_lists st pl) st) pls st) = sb_lists st \<and>
    sb_next (fold (\<lambda>pl st. mark_list NOW P (sb_lists st pl) st) pls st) = sb_next st \<and>
    sb_store (fold (\<lambda>pl st. mark_list NOW P (sb_lists st pl) st) pls st) a =
      (if (\<exists>pl\<in>set pls. a \<in> set (sb_lists st pl)) \<and> P (sb_store st a)
       then kludge_out NOW (sb_store st a) else sb_store st a)"
proof (induction pls arbitrary: st)
  case (Cons pl pls)
  have "\<not> P (kludge_out NOW b)" for b using assms kludge_expired by blast
  with Cons.IH [of "mark_list NOW P (sb_lists st pl) st"] mark_list_store [of P NOW, OF assms, of "sb_lists st pl" st]
  show ?case by auto
qed simp

lemma mark_walk_effect:
  assumes ok: "simban_ok st" and P: "\<And>b. P b \<Longrightarrow> \<not> sim_expired NOW b"
  shows "simban_ok (mark_walk NOW P k st)" and "sbans (mark_walk NOW P k st) = sbans st"
    and "a \<in> sbans st \<Longrightarrow> sb_store (mark_walk NOW P k st) a =
      (if kind_of (sb_flags (sb_store st a)) = Some k \<and> P (sb_store st a)
       then kludge_out NOW (sb_store st a) else sb_store st a)"
proof -
  note m = mark_walk_store [of P NOW "kind_places k" st, OF P, folded mark_walk_def]
  show "simban_ok (mark_walk NOW P k st)" using ok m by (auto simp: simban_ok_def kludge_place)
  show "sbans (mark_walk NOW P k st) = sbans st" using m by (simp add: sbans_def)
  assume "a \<in> sbans st"
  then obtain pl where pl: "a \<in> set (sb_lists st pl)" by (auto simp: sbans_def)
  have "(\<exists>q\<in>set (kind_places k). a \<in> set (sb_lists st q)) \<longleftrightarrow> pl \<in> set (kind_places k)"
    using pl sb_placed [OF ok] by (metis option.inject)
  then show "sb_store (mark_walk NOW P k st) a =
      (if kind_of (sb_flags (sb_store st a)) = Some k \<and> P (sb_store st a)
       then kludge_out NOW (sb_store st a) else sb_store st a)"
    using m [of a] sban_in_kind_places [OF sb_placed [OF ok pl]] by simp
qed

lemma expire_simlist_lists:
  assumes "\<And>pl. distinct (sb_lists st pl)"
  shows "sb_store (expire_simlist NOW as st) = sb_store st \<and> sb_next (expire_simlist NOW as st) = sb_next st \<and>
    sb_lists (expire_simlist NOW as st) pl =
      filter (\<lambda>a. \<not> (a \<in> set as \<and> sim_expired NOW (sb_store st a))) (sb_lists st pl)"
  using assms
proof (induction as arbitrary: st)
  case (Cons x as)
  let ?st = "if sim_expired NOW (sb_store st x) then simban_free x (remove_simban x st) else st"
  have l: "sb_lists ?st q = (if sim_expired NOW (sb_store st x) then filter (\<lambda>y. y \<noteq> x) (sb_lists st q) else sb_lists st q)"
    "sb_store ?st = sb_store st" "sb_next ?st = sb_next st" for q
    using Cons.prems by (auto simp: simban_free_def remove_simban_def filter_neq_remove1)
  have "distinct (sb_lists ?st q)" for q unfolding l using Cons.prems by simp
  from Cons.IH [OF this] show ?case unfolding l by (auto simp: l intro!: filter_cong)
qed simp

lemma expire_walk_lists:
  assumes "\<And>pl. distinct (sb_lists st pl)"
  shows "sb_store (fold (\<lambda>pl st. expire_simlist NOW (sb_lists st pl) st) pls st) = sb_store st \<and>
    sb_next (fold (\<lambda>pl st. expire_simlist NOW (sb_lists st pl) st) pls st) = sb_next st \<and>
    sb_lists (fold (\<lambda>pl st. expire_simlist NOW (sb_lists st pl) st) pls st) pl =
      filter (\<lambda>a. \<not> ((\<exists>q\<in>set pls. a \<in> set (sb_lists st q)) \<and> sim_expired NOW (sb_store st a))) (sb_lists st pl)"
  using assms
proof (induction pls arbitrary: st)
  case (Cons p pls)
  let ?st = "expire_simlist NOW (sb_lists st p) st"
  note e = expire_simlist_lists [OF Cons.prems, where as = "sb_lists st p" and NOW = NOW]
  have "distinct (sb_lists ?st q)" for q using e Cons.prems by simp
  from Cons.IH [OF this] e show ?case by (auto intro!: filter_cong)
qed simp

lemma expire_simbans_lists:
  assumes ok: "simban_ok st"
  shows "sb_lists (expire_simbans NOW st) pl = filter (\<lambda>a. \<not> sim_expired NOW (sb_store st a)) (sb_lists st pl) \<and>
    sb_store (expire_simbans NOW st) = sb_store st \<and> simban_ok (expire_simbans NOW st)"
proof -
  have e: "sb_store (expire_simbans NOW st) = sb_store st" "sb_next (expire_simbans NOW st) = sb_next st"
    "sb_lists (expire_simbans NOW st) pl =
      filter (\<lambda>a. \<not> ((\<exists>q\<in>set sim_walk_order. a \<in> set (sb_lists st q)) \<and> sim_expired NOW (sb_store st a))) (sb_lists st pl)" for pl
    using expire_walk_lists [OF sb_distinct [OF ok]] by (simp_all add: expire_simbans_def)
  have "\<exists>q\<in>set sim_walk_order. a \<in> set (sb_lists st q)" if "a \<in> set (sb_lists st pl)" for a pl
    using that sban_in_walk [OF sb_placed [OF ok that]] by blast
  then have l: "sb_lists (expire_simbans NOW st) pl = filter (\<lambda>a. \<not> sim_expired NOW (sb_store st a)) (sb_lists st pl)" for pl
    unfolding e by (intro filter_cong) auto
  have "simban_ok (expire_simbans NOW st)" using ok unfolding simban_ok_def l e by auto
  with l e show ?thesis by blast
qed

subsection \<open>Properties\<close>

definition example_simbans :: simban_state where
  "example_simbans = init_simban (\<lambda>_. \<lparr>sb_flags = 0, sb_mask = [], sb_reason = None, sb_timeset = 0, sb_duration = 0, sb_autocap = 0\<rparr>)"

lemma example_simbans_ok: "simban_ok example_simbans" "sbans example_simbans = {}" "kind_of SBAN_NICK = Some NickBans"
  by (simp_all add: example_simbans_def init_simban_def simban_ok_def sbans_def kind_of_def has_flag_def sban_flags)

text \<open>
  \<open>check_mask_simbanned\<close> is exact: for flags that choose a table, the ban it returns is in
  that table, has not expired and its mask matches the text (as a wildcard pattern or, for a mask
  without wildcards, up to case); it returns no ban only when there is no such ban.
\<close>

lemma check_mask_simbanned_exact:
  assumes ok: "simban_ok st" and k: "kind_of flags = Some k"
  shows "\<exists>r. check_mask_simbanned NOW t flags st = Some r \<and>
    (\<forall>a. r = Some a \<longrightarrow> a \<in> sbans st \<and> kind_of (sb_flags (sb_store st a)) = Some k \<and>
       \<not> sim_expired NOW (sb_store st a) \<and> sim_hits (sb_store st a) t) \<and>
    (r = None \<longrightarrow> (\<forall>a\<in>sbans st. kind_of (sb_flags (sb_store st a)) = Some k \<longrightarrow>
       sim_expired NOW (sb_store st a) \<or> \<not> sim_hits (sb_store st a) t))"
proof -
  let ?A = "find (\<lambda>a. \<not> sim_expired NOW (sb_store st a) \<and> mycmp (sb_mask (sb_store st a)) t = 0)
     (sb_lists st (SimHash k (host_bucket t)))"
  let ?B = "find (\<lambda>a. \<not> sim_expired NOW (sb_store st a) \<and> match (sb_mask (sb_store st a)) t = 0) (sb_lists st (SimWild k))"
  have "a \<in> sbans st \<and> kind_of (sb_flags (sb_store st a)) = Some k \<and> \<not> sim_expired NOW (sb_store st a) \<and>
      sim_hits (sb_store st a) t" if "opt_or ?A ?B = Some a" for a
    using opt_or_SomeD [OF that]
  proof
    assume "?A = Some a"
    from find_SomeD [OF this] show ?thesis
      using sban_place_kind(2) [OF sb_placed [OF ok]] by (auto simp: sbans_def sim_hits_def)
  next
    assume "?B = Some a"
    from find_SomeD [OF this] show ?thesis
      using sban_place_kind(1) [OF sb_placed [OF ok]] by (auto simp: sbans_def sim_hits_def)
  qed
  note some = this
  have none: "sim_expired NOW (sb_store st a) \<or> \<not> sim_hits (sb_store st a) t"
    if n: "opt_or ?A ?B = None" and a: "a \<in> sbans st" and ka: "kind_of (sb_flags (sb_store st a)) = Some k" for a
  proof -
    obtain pl where pl: "a \<in> set (sb_lists st pl)" using a by (auto simp: sbans_def)
    note p = sban_place_cases [OF sb_placed [OF ok pl] ka]
    show ?thesis
    proof (cases "sb_is (sb_store st a) SBAN_WILD")
      case True
      then show ?thesis using n pl p by (auto simp: opt_or_None find_None_iff sim_hits_def)
    next
      case False
      then show ?thesis
        using n pl p hostban.hash_same [of "sb_mask (sb_store st a)" t]
        by (auto simp: opt_or_None find_None_iff sim_hits_def)
    qed
  qed
  have "check_mask_simbanned NOW t flags st = Some (opt_or ?A ?B)" using k by (simp add: check_mask_simbanned_def)
  then show ?thesis using some none by blast
qed

text \<open>
  Removing simple bans by flags takes exactly the selected bans of the chosen table out of
  force at once, although they stay linked: afterwards the bans in force are those before minus
  the selected ones, and the next expiry unlinks exactly the bans that are not in force.
\<close>

lemma remove_simbans_by_flags:
  assumes ok: "simban_ok st" and k: "kind_of flags = Some k"
  shows "\<exists>st'. remove_simbans_match_flags NOW flags nflags st = Some st' \<and> simban_ok st' \<and>
    {a \<in> sbans st'. \<not> sim_expired NOW (sb_store st' a)} =
      {a \<in> sbans st. \<not> sim_expired NOW (sb_store st a)} -
      {a \<in> sbans st. kind_of (sb_flags (sb_store st a)) = Some k \<and>
         sb_flags (sb_store st a) AND flags = flags \<and> sb_flags (sb_store st a) AND nflags = 0} \<and>
    sbans (expire_simbans NOW st') = {a \<in> sbans st'. \<not> sim_expired NOW (sb_store st' a)}"
proof -
  let ?st = "mark_walk NOW (sim_selected NOW flags nflags) k st"
  have P: "\<not> sim_expired NOW b" if "sim_selected NOW flags nflags b" for b using that by (simp add: sim_selected_def)
  note m = mark_walk_effect [where P = "sim_selected NOW flags nflags" and NOW = NOW and k = k, OF ok P]
  have "sbans (expire_simbans NOW ?st) = {a \<in> sbans ?st. \<not> sim_expired NOW (sb_store ?st a)}"
    using expire_simbans_lists [OF m(1)] by (auto simp: sbans_def)
  moreover have "{a \<in> sbans ?st. \<not> sim_expired NOW (sb_store ?st a)} =
      {a \<in> sbans st. \<not> sim_expired NOW (sb_store st a)} -
      {a \<in> sbans st. kind_of (sb_flags (sb_store st a)) = Some k \<and>
         sb_flags (sb_store st a) AND flags = flags \<and> sb_flags (sb_store st a) AND nflags = 0}"
    using m(2,3) kludge_expired by (auto simp: sim_selected_def split: if_splits)
  ultimately show ?thesis using m(1) k by (simp add: remove_simbans_match_flags_def)
qed

end
