(* ===== verification/Run_Ops.thy ===== *)
theory Run_Ops
  imports Ircd_Prelude
begin

section \<open>Sequences of operations and their specification\<close>

text \<open>
  A component is used by calling its operations one after the other.  \<open>run_ops\<close> runs a list of
  calls on the model of the code, collecting the results; it fails when a call fails.
  \<open>run_spec\<close> runs the same calls on a specification, whose operations are total.
  The locale states the contract between the two, one call at a time, and gives it for all
  sequences.
\<close>

fun run_ops :: "('op \<Rightarrow> 's \<Rightarrow> ('r \<times> 's) option) \<Rightarrow> 'op list \<Rightarrow> 's \<Rightarrow> ('r list \<times> 's) option" where
  "run_ops step [] st = Some ([], st)"
| "run_ops step (c # cs) st =
     (case step c st of
        None \<Rightarrow> None
      | Some (r, st1) \<Rightarrow> map_option (\<lambda>(rs, st2). (r # rs, st2)) (run_ops step cs st1))"

fun run_spec :: "('op \<Rightarrow> 'a \<Rightarrow> 'r \<times> 'a) \<Rightarrow> 'op list \<Rightarrow> 'a \<Rightarrow> 'r list \<times> 'a" where
  "run_spec spec [] a = ([], a)"
| "run_spec spec (c # cs) a = (let (r, a1) = spec c a; (rs, a2) = run_spec spec cs a1 in (r # rs, a2))"

locale op_refinement =
  fixes inv :: "'s \<Rightarrow> bool" and abs_of :: "'s \<Rightarrow> 'a" and allowed :: "'op \<Rightarrow> bool"
    and step :: "'op \<Rightarrow> 's \<Rightarrow> ('r \<times> 's) option" and spec :: "'op \<Rightarrow> 'a \<Rightarrow> 'r \<times> 'a"
  assumes step_refines:
    "inv st \<Longrightarrow> allowed c \<Longrightarrow> \<exists>st'. step c st = Some (fst (spec c (abs_of st)), st') \<and> inv st' \<and> abs_of st' = snd (spec c (abs_of st))"
begin

lemma run_refines:
  assumes "inv st" and "list_all allowed cs"
  shows "\<exists>st'. run_ops step cs st = Some (fst (run_spec spec cs (abs_of st)), st') \<and> inv st' \<and>
           abs_of st' = snd (run_spec spec cs (abs_of st))"
  using assms
proof (induction cs arbitrary: st)
  case (Cons c cs)
  then obtain st1 where st1: "step c st = Some (fst (spec c (abs_of st)), st1)" "inv st1" "abs_of st1 = snd (spec c (abs_of st))"
    using step_refines [of st c] by auto
  then obtain st2 where "run_ops step cs st1 = Some (fst (run_spec spec cs (abs_of st1)), st2)" "inv st2"
    "abs_of st2 = snd (run_spec spec cs (abs_of st1))"
    using Cons.IH [OF st1(2)] Cons.prems(2) by auto
  with st1 show ?case by (simp add: case_prod_unfold Let_def)
qed simp

end

end
