(* ===== verification/Sbuf.thy ===== *)
theory Sbuf
  imports Run_Ops
begin

section \<open>Byte queues with shared buffers (src/src/sbuf.c)\<close>

text \<open>
  Every connection has a send and a receive queue.  A queue is a list of users, each of which holds
  a part of a buffer; a message for many clients is put into one buffer that many queues use, and a
  buffer counts its users.  Buffers come from two pools and go back when nobody uses them.

  Buffers are addresses in a store; \<open>bf_data\<close> are the bytes from the start of the buffer up to
  \<^verbatim>\<open>end\<close>, so \<^verbatim>\<open>end\<close> is the length of \<open>bf_data\<close>, and \<open>us_start\<close> is an
  offset.  A queue is its length and the list of its users from \<^verbatim>\<open>head\<close> to
  \<^verbatim>\<open>tail\<close>.  User structs have one owner and no identity that the code observes: the pool of
  unused ones is their number.  \<open>None\<close> is an access through a null or wrong pointer, a loop that
  does not end, or a queue whose length is zero while it has users (or the other way round), for
  which \<^verbatim>\<open>head\<close> and \<^verbatim>\<open>tail\<close> would not be the ends of one list.  No theorem
  below leaves \<open>None\<close> open: the invariant excludes it.
\<close>

subsection \<open>Constants and types\<close>

definition SBUF_LARGE_BUFFER :: nat where "SBUF_LARGE_BUFFER = 512"
definition SBUF_SMALL_BUFFER :: nat where "SBUF_SMALL_BUFFER = 256"
definition INITIAL_SBUFS_SMALL :: nat where "INITIAL_SBUFS_SMALL = 2 * 2 ^ 20"
definition INITIAL_SBUFS_LARGE :: nat where "INITIAL_SBUFS_LARGE = 2 * 2 ^ 20"
definition INITIAL_SBUFS_USERS :: nat where "INITIAL_SBUFS_USERS = 256"

text \<open>\<^verbatim>\<open>sizeof(SBuffer)\<close>: two pointers and three integers, aligned to 8 bytes.\<close>

definition SBUF_BASE :: nat where "SBUF_BASE = 32"
definition SBUF_LARGE_TOTAL :: nat where "SBUF_LARGE_TOTAL = SBUF_BASE + SBUF_LARGE_BUFFER"
definition SBUF_SMALL_TOTAL :: nat where "SBUF_SMALL_TOTAL = SBUF_BASE + SBUF_SMALL_BUFFER"

definition IsEol :: "char \<Rightarrow> bool" where
  "IsEol c \<longleftrightarrow> c = CHR 0x0D \<or> c = CHR 0x0A"

record SBuffer =
  bf_shared :: bool
  bf_size :: nat
  bf_refcount :: int
  bf_data :: cstr

record SBufUser =
  us_start :: nat
  us_buf :: addr

record SBuf =
  q_length :: int
  q_users :: "SBufUser list"

record sbuf_state =
  sbs_store :: "addr \<Rightarrow> SBuffer"
  sbs_next :: addr
  largesbuf_pool :: "addr list"
  smallsbuf_pool :: "addr list"
  user_pool :: nat
  sbufuser_total :: int
  sbufuser_used :: int
  sbufsmall_total :: int
  sbufsmall_used :: int
  sbuflarge_total :: int
  sbuflarge_used :: int
  sbufblock_used :: int
  sbufuserblock_used :: int
  sbufs :: "addr \<Rightarrow> SBuf"

abbreviation buf_at :: "sbuf_state \<Rightarrow> addr \<Rightarrow> SBuffer" where
  "buf_at st b \<equiv> sbs_store st b"

abbreviation users_of :: "sbuf_state \<Rightarrow> addr \<Rightarrow> SBufUser list" where
  "users_of st q \<equiv> q_users (sbufs st q)"

definition set_buf :: "addr \<Rightarrow> (SBuffer \<Rightarrow> SBuffer) \<Rightarrow> sbuf_state \<Rightarrow> sbuf_state" where
  "set_buf b f st = st\<lparr>sbs_store := (sbs_store st)(b := f (sbs_store st b))\<rparr>"

definition set_queue :: "addr \<Rightarrow> (SBuf \<Rightarrow> SBuf) \<Rightarrow> sbuf_state \<Rightarrow> sbuf_state" where
  "set_queue q f st = st\<lparr>sbufs := (sbufs st)(q := f (sbufs st q))\<rparr>"

subsection \<open>Pools\<close>

text \<open>\<open>allocblock_general\<close> returns the new buffers in the order in which they are linked
  in front of the pool; their sizes are set.\<close>

definition sbuf_allocblock_general :: "nat \<Rightarrow> nat \<Rightarrow> sbuf_state \<Rightarrow> addr list \<times> sbuf_state" where
  "sbuf_allocblock_general theMemorySize num st =
     (let bufs = [sbs_next st ..< sbs_next st + num] in
      (bufs, st\<lparr>sbs_store := (\<lambda>b. if b \<in> set bufs then (sbs_store st b)\<lparr>bf_size := theMemorySize - SBUF_BASE\<rparr>
                                    else sbs_store st b),
                sbs_next := sbs_next st + num, sbufblock_used := sbufblock_used st + 1\<rparr>))"

definition block_count :: "nat \<Rightarrow> nat \<Rightarrow> nat" where
  "block_count theMemorySize tot =
     (if theMemorySize mod tot \<noteq> 0 then theMemorySize + tot else theMemorySize) div tot"

definition sbuf_allocblock_small :: "nat \<Rightarrow> sbuf_state \<Rightarrow> sbuf_state" where
  "sbuf_allocblock_small theMemorySize st =
     (let num = block_count theMemorySize SBUF_SMALL_TOTAL;
          (bufs, st1) = sbuf_allocblock_general SBUF_SMALL_TOTAL num st
      in st1\<lparr>sbufsmall_total := sbufsmall_total st1 + int num, smallsbuf_pool := bufs @ smallsbuf_pool st1\<rparr>)"

definition sbuf_allocblock_large :: "nat \<Rightarrow> sbuf_state \<Rightarrow> sbuf_state" where
  "sbuf_allocblock_large theMemorySize st =
     (let num = block_count theMemorySize SBUF_LARGE_TOTAL;
          (bufs, st1) = sbuf_allocblock_general SBUF_LARGE_TOTAL num st
      in st1\<lparr>sbuflarge_total := sbuflarge_total st1 + int num, largesbuf_pool := bufs @ largesbuf_pool st1\<rparr>)"

definition sbuf_allocblock_users :: "nat \<Rightarrow> sbuf_state \<Rightarrow> sbuf_state" where
  "sbuf_allocblock_users theCount st =
     st\<lparr>sbufuserblock_used := sbufuserblock_used st + 1, sbufuser_total := sbufuser_total st + int theCount,
        user_pool := theCount + user_pool st\<rparr>"

text \<open>The variables at program start (\<open>mem\<close> is the uninitialised heap), and \<open>sbuf_init\<close>.\<close>

definition sbuf_start :: "(addr \<Rightarrow> SBuffer) \<Rightarrow> sbuf_state" where
  "sbuf_start mem =
     \<lparr>sbs_store = mem, sbs_next = 0, largesbuf_pool = [], smallsbuf_pool = [], user_pool = 0,
      sbufuser_total = 0, sbufuser_used = 0, sbufsmall_total = 0, sbufsmall_used = 0,
      sbuflarge_total = 0, sbuflarge_used = 0, sbufblock_used = 0, sbufuserblock_used = 0,
      sbufs = (\<lambda>_. \<lparr>q_length = 0, q_users = []\<rparr>)\<rparr>"

definition sbuf_init :: "sbuf_state \<Rightarrow> sbuf_state" where
  "sbuf_init st =
     sbuf_allocblock_users INITIAL_SBUFS_USERS
       (sbuf_allocblock_large INITIAL_SBUFS_LARGE (sbuf_allocblock_small INITIAL_SBUFS_SMALL st))"

definition sbuf_free :: "addr \<Rightarrow> sbuf_state \<Rightarrow> int \<times> sbuf_state" where
  "sbuf_free buf st =
     (if bf_size (buf_at st buf) = SBUF_LARGE_BUFFER
      then (0, st\<lparr>largesbuf_pool := buf # largesbuf_pool st, sbuflarge_used := sbuflarge_used st - 1\<rparr>)
      else if bf_size (buf_at st buf) = SBUF_SMALL_BUFFER
      then (0, st\<lparr>smallsbuf_pool := buf # smallsbuf_pool st, sbufsmall_used := sbufsmall_used st - 1\<rparr>)
      else (- 1, st))"

definition sbuf_user_free :: "sbuf_state \<Rightarrow> sbuf_state" where
  "sbuf_user_free st = st\<lparr>user_pool := Suc (user_pool st), sbufuser_used := sbufuser_used st - 1\<rparr>"

definition new_buffer :: "nat \<Rightarrow> SBuffer" where
  "new_buffer n = \<lparr>bf_shared = False, bf_size = n, bf_refcount = 0, bf_data = []\<rparr>"

definition sbuf_alloc_large :: "sbuf_state \<Rightarrow> (addr \<times> sbuf_state) option" where
  "sbuf_alloc_large st =
     (let st1 = (if largesbuf_pool st = [] then sbuf_allocblock_large INITIAL_SBUFS_LARGE st else st) in
      case largesbuf_pool st1 of
        [] \<Rightarrow> None
      | buf # pool \<Rightarrow>
          Some (buf, set_buf buf (\<lambda>_. new_buffer SBUF_LARGE_BUFFER)
                       (st1\<lparr>largesbuf_pool := pool, sbuflarge_used := sbuflarge_used st1 + 1\<rparr>)))"

definition sbuf_alloc :: "nat \<Rightarrow> sbuf_state \<Rightarrow> (addr \<times> sbuf_state) option" where
  "sbuf_alloc theSize st =
     (if theSize \<ge> SBUF_SMALL_BUFFER then sbuf_alloc_large st
      else
        (let st1 = (if smallsbuf_pool st = [] then sbuf_allocblock_small INITIAL_SBUFS_SMALL st else st) in
         case smallsbuf_pool st1 of
           [] \<Rightarrow> sbuf_alloc_large st1
         | buf # pool \<Rightarrow>
             Some (buf, set_buf buf (\<lambda>_. new_buffer SBUF_SMALL_BUFFER)
                          (st1\<lparr>smallsbuf_pool := pool, sbufsmall_used := sbufsmall_used st1 + 1\<rparr>))))"

definition sbuf_user_alloc :: "sbuf_state \<Rightarrow> sbuf_state option" where
  "sbuf_user_alloc st =
     (let st1 = (if user_pool st = 0 then sbuf_allocblock_users INITIAL_SBUFS_USERS st else st) in
      if user_pool st1 = 0 then None
      else Some (st1\<lparr>user_pool := user_pool st1 - 1, sbufuser_used := sbufuser_used st1 + 1\<rparr>))"

subsection \<open>Shared buffers\<close>

definition sbuf_begin_share :: "cstr \<Rightarrow> sbuf_state \<Rightarrow> (addr \<times> sbuf_state) option" where
  "sbuf_begin_share theData st =
     (let theData = take 510 theData in
      case sbuf_alloc (length theData + 2) st of
        None \<Rightarrow> None
      | Some (s, st1) \<Rightarrow>
          if length theData + 2 > bf_size (buf_at st1 s) then None
          else Some (s, set_buf s (\<lambda>b. b\<lparr>bf_data := theData @ [CHR 0x0D, CHR 0x0A], bf_refcount := 0,
                                          bf_shared := True\<rparr>) st1))"

definition end_share :: "addr option \<Rightarrow> sbuf_state \<Rightarrow> sbuf_state" where
  "end_share share st =
     (case share of
        None \<Rightarrow> st
      | Some s \<Rightarrow>
          (let st1 = set_buf s (\<lambda>b. b\<lparr>bf_shared := False\<rparr>) st in
           if bf_refcount (buf_at st1 s) = 0 then snd (sbuf_free s st1) else st1))"

definition sbuf_end_share :: "addr option list \<Rightarrow> sbuf_state \<Rightarrow> sbuf_state" where
  "sbuf_end_share shares st = foldl (\<lambda>st share. end_share share st) st shares"

definition sbuf_put_share :: "addr \<Rightarrow> addr option \<Rightarrow> sbuf_state \<Rightarrow> (int \<times> sbuf_state) option" where
  "sbuf_put_share q theSBuffer st =
     (case theSBuffer of
        None \<Rightarrow> Some (- 1, st)
      | Some s \<Rightarrow>
          if (q_length (sbufs st q) = 0) \<noteq> (users_of st q = []) then None
          else
            (case sbuf_user_alloc (set_buf s (\<lambda>b. b\<lparr>bf_refcount := bf_refcount b + 1\<rparr>) st) of
               None \<Rightarrow> None
             | Some st1 \<Rightarrow>
                 Some (1, set_queue q (\<lambda>sb. \<lparr>q_length = q_length sb + int (length (bf_data (buf_at st1 s))),
                                              q_users = q_users sb @ [\<lparr>us_start = 0, us_buf = s\<rparr>]\<rparr>) st1)))"

subsection \<open>Writing\<close>

text \<open>A new user at the tail with a new buffer for \<open>n\<close> bytes.\<close>

definition put_new :: "addr \<Rightarrow> nat \<Rightarrow> sbuf_state \<Rightarrow> sbuf_state option" where
  "put_new q n st =
     (case sbuf_user_alloc st of
        None \<Rightarrow> None
      | Some st1 \<Rightarrow>
          (case sbuf_alloc n st1 of
             None \<Rightarrow> None
           | Some (b, st2) \<Rightarrow>
               Some (set_queue q (\<lambda>sb. sb\<lparr>q_users := q_users sb @ [\<lparr>us_start = 0, us_buf = b\<rparr>]\<rparr>)
                       (set_buf b (\<lambda>bf. bf\<lparr>bf_refcount := 1\<rparr>) st2))))"

text \<open>One round of the copy loop: as many bytes as fit go to the end of the tail's buffer.\<close>

definition tail_room :: "addr \<Rightarrow> sbuf_state \<Rightarrow> nat" where
  "tail_room q st = (let bf = buf_at st (us_buf (last (users_of st q))) in bf_size bf - length (bf_data bf))"

definition put_fill :: "addr \<Rightarrow> cstr \<Rightarrow> sbuf_state \<Rightarrow> sbuf_state" where
  "put_fill q theData st =
     set_buf (us_buf (last (users_of st q))) (\<lambda>bf. bf\<lparr>bf_data := bf_data bf @ take (tail_room q st) theData\<rparr>) st"

lemma sbuf_alloc_new:
  assumes "sbuf_alloc n st = Some (b, st1)"
  shows "\<exists>k. buf_at st1 b = new_buffer k \<and> (k = SBUF_SMALL_BUFFER \<or> k = SBUF_LARGE_BUFFER)"
  using assms
  by (auto simp: sbuf_alloc_def sbuf_alloc_large_def set_buf_def Let_def split: if_splits list.splits)

lemma put_new_room:
  assumes "put_new q n st = Some st1"
  shows "tail_room q st1 = SBUF_SMALL_BUFFER \<or> tail_room q st1 = SBUF_LARGE_BUFFER"
proof -
  obtain st' b st2 where "sbuf_user_alloc st = Some st'" and a: "sbuf_alloc n st' = Some (b, st2)"
    and "st1 = set_queue q (\<lambda>sb. sb\<lparr>q_users := q_users sb @ [\<lparr>us_start = 0, us_buf = b\<rparr>]\<rparr>)
                 (set_buf b (\<lambda>bf. bf\<lparr>bf_refcount := 1\<rparr>) st2)"
    using assms by (auto simp: put_new_def split: option.splits)
  with sbuf_alloc_new [OF a] show ?thesis
    by (auto simp: tail_room_def set_queue_def set_buf_def new_buffer_def)
qed

function put_loop :: "addr \<Rightarrow> cstr \<Rightarrow> sbuf_state \<Rightarrow> sbuf_state option" where
  "put_loop q theData st =
     (if theData = [] then Some st
      else (case put_new q (length theData) st of
              None \<Rightarrow> None
            | Some st1 \<Rightarrow> put_loop q (drop (tail_room q st1) theData) (put_fill q theData st1)))"
  by pat_completeness auto
termination put_loop
proof (relation "measure (\<lambda>(q, d, st). length d)", goal_cases)
  case (2 q d st st1)
  then show ?case using put_new_room [OF 2(2)] by (auto simp: SBUF_SMALL_BUFFER_def SBUF_LARGE_BUFFER_def)
qed simp

declare put_loop.simps [simp del]

definition sbuf_put :: "addr \<Rightarrow> cstr \<Rightarrow> sbuf_state \<Rightarrow> (int \<times> sbuf_state) option" where
  "sbuf_put q theData st =
     (let us = users_of st q in
      if (q_length (sbufs st q) = 0) \<noteq> (us = []) then None
      else
        (case (if us \<noteq> [] \<and> bf_refcount (buf_at st (us_buf (last us))) > 1
               then put_new q (length theData) st else Some st) of
           None \<Rightarrow> None
         | Some st1 \<Rightarrow>
             (let st2 = set_queue q (\<lambda>sb. sb\<lparr>q_length := q_length sb + int (length theData)\<rparr>) st1 in
              map_option (Pair 1)
                (if users_of st2 q = [] \<or> theData = [] then put_loop q theData st2
                 else put_loop q (drop (tail_room q st2) theData) (put_fill q theData st2)))))"

subsection \<open>Reading and deleting\<close>

text \<open>The end of a user: its buffer loses a reference and is freed with the last one.\<close>

definition drop_user :: "SBufUser \<Rightarrow> sbuf_state \<Rightarrow> sbuf_state" where
  "drop_user u st =
     (let st1 = set_buf (us_buf u) (\<lambda>b. b\<lparr>bf_refcount := bf_refcount b - 1\<rparr>) st;
          b = buf_at st1 (us_buf u)
      in sbuf_user_free (if bf_refcount b = 0 \<and> \<not> bf_shared b then snd (sbuf_free (us_buf u) st1) else st1))"

text \<open>The loop of \<open>sbuf_delete\<close>.  \<^verbatim>\<open>chunk\<close> is the smaller of \<open>n\<close> and what the
  head holds: either the head is used up and freed, or \<open>n\<close> bytes are gone and the loop ends.\<close>

definition user_end :: "sbuf_state \<Rightarrow> SBufUser \<Rightarrow> nat" where
  "user_end st u = length (bf_data (buf_at st (us_buf u)))"

fun delete_loop :: "nat \<Rightarrow> SBufUser list \<Rightarrow> sbuf_state \<Rightarrow> (SBufUser list \<times> sbuf_state) option" where
  "delete_loop n [] st = (if n = 0 then Some ([], st) else None)"
| "delete_loop n (u # rest) st =
     (if n = 0 then Some (u # rest, st)
      else
        (if us_start u > user_end st u then None
         else if user_end st u - us_start u \<le> n
         then delete_loop (n - (user_end st u - us_start u)) rest (drop_user (u\<lparr>us_start := user_end st u\<rparr>) st)
         else Some (u\<lparr>us_start := us_start u + n\<rparr> # rest, st)))"

definition sbuf_delete :: "addr \<Rightarrow> nat \<Rightarrow> sbuf_state \<Rightarrow> (int \<times> sbuf_state) option" where
  "sbuf_delete q theLength st =
     (let len = min (int theLength) (q_length (sbufs st q)) in
      if len < 0 then None
      else
        map_option (\<lambda>(us, st1). (1, set_queue q (\<lambda>sb. \<lparr>q_length = q_length sb - len, q_users = us\<rparr>) st1))
          (delete_loop (nat len) (users_of st q) st))"

definition user_bytes :: "sbuf_state \<Rightarrow> SBufUser \<Rightarrow> cstr" where
  "user_bytes st u = drop (us_start u) (bf_data (buf_at st (us_buf u)))"

text \<open>\<open>sbuf_map\<close> gives the bytes between the returned pointer and the returned length;
  the inner \<open>None\<close> is the null pointer of an empty queue.\<close>

definition sbuf_map :: "addr \<Rightarrow> sbuf_state \<Rightarrow> cstr option option" where
  "sbuf_map q st =
     (if q_length (sbufs st q) \<noteq> 0
      then (case users_of st q of [] \<Rightarrow> None | u # _ \<Rightarrow> Some (Some (user_bytes st u)))
      else Some None)"

definition sbuf_mapiov :: "nat \<Rightarrow> addr \<Rightarrow> sbuf_state \<Rightarrow> cstr list" where
  "sbuf_mapiov WRITEV_IOV q st =
     (if q_length (sbufs st q) = 0 then [] else map (user_bytes st) (take WRITEV_IOV (users_of st q)))"

fun flush_loop :: "SBufUser list \<Rightarrow> sbuf_state \<Rightarrow> nat \<times> SBufUser list \<times> sbuf_state" where
  "flush_loop [] st = (0, [], st)"
| "flush_loop (u # us) st =
     (let eols = length (takeWhile IsEol (user_bytes st u));
          u' = u\<lparr>us_start := us_start u + eols\<rparr>
      in if us_start u' < length (bf_data (buf_at st (us_buf u))) then (eols, u' # us, st)
         else (let (n, us', st') = flush_loop us (drop_user u' st) in (eols + n, us', st')))"

definition sbuf_flush :: "addr \<Rightarrow> sbuf_state \<Rightarrow> int \<times> sbuf_state" where
  "sbuf_flush q st =
     (if q_length (sbufs st q) = 0 then (0, st)
      else
        (let (n, us, st1) = flush_loop (users_of st q) st;
             st2 = set_queue q (\<lambda>sb. \<lparr>q_length = q_length sb - int n, q_users = us\<rparr>) st1
         in (q_length (sbufs st2 q), st2)))"

text \<open>The copy loop of \<open>sbuf_getmsg\<close>: the bytes written to \<^verbatim>\<open>theData\<close> and
  whether an end of line was found behind them.\<close>

fun getmsg_loop :: "nat \<Rightarrow> SBufUser list \<Rightarrow> sbuf_state \<Rightarrow> cstr \<times> bool" where
  "getmsg_loop n [] st = ([], False)"
| "getmsg_loop n (u # us) st =
     (if n = 0 then ([], False)
      else
        (let avail = take n (user_bytes st u);
             line = takeWhile (\<lambda>c. \<not> IsEol c) avail
         in if length line < length avail then (line, True)
            else (let (more, found) = getmsg_loop (n - length line) us st in (line @ more, found))))"

definition sbuf_getmsg :: "addr \<Rightarrow> nat \<Rightarrow> sbuf_state \<Rightarrow> (int \<times> cstr \<times> sbuf_state) option" where
  "sbuf_getmsg q theLength st =
     (let (len, st1) = sbuf_flush q st in
      if len = 0 then Some (0, [], st1)
      else
        (let (line, found) = getmsg_loop theLength (users_of st1 q) st1 in
         if found
         then (case sbuf_delete q (length line) st1 of
                 None \<Rightarrow> None
               | Some (_, st2) \<Rightarrow> Some (int (length line), line, snd (sbuf_flush q st2)))
         else Some (0, line, st1)))"

text \<open>\<open>sbuf_get\<close>: a head without bytes would make the loop run for ever (\<open>None\<close>).\<close>

function get_loop :: "addr \<Rightarrow> nat \<Rightarrow> sbuf_state \<Rightarrow> (cstr \<times> sbuf_state) option" where
  "get_loop q theLength st =
     (if theLength = 0 then Some ([], st)
      else (case sbuf_map q st of
              None \<Rightarrow> None
            | Some None \<Rightarrow> Some ([], st)
            | Some (Some buf) \<Rightarrow>
                (let chunk = take theLength buf in
                 if chunk = [] then None
                 else (case sbuf_delete q (length chunk) st of
                         None \<Rightarrow> None
                       | Some (_, st1) \<Rightarrow>
                           map_option (\<lambda>(more, st2). (chunk @ more, st2)) (get_loop q (theLength - length chunk) st1)))))"
  by pat_completeness auto
termination get_loop
  by (relation "measure (\<lambda>(q, n, st). n)") auto

declare get_loop.simps [simp del]

definition sbuf_get :: "addr \<Rightarrow> nat \<Rightarrow> sbuf_state \<Rightarrow> (int \<times> cstr \<times> sbuf_state) option" where
  "sbuf_get q theLength st =
     (if q_length (sbufs st q) = 0 then Some (0, [], st)
      else map_option (\<lambda>(bytes, st1). (int (length bytes), bytes, st1)) (get_loop q theLength st))"

subsection \<open>Invariant\<close>

text \<open>
  \<open>U\<close> gives the users of each queue (it is \<open>users_of st\<close> between operations; inside the
  deletion loops the users already removed are missing), \<open>Q\<close> the queues in use.  A buffer is
  live when it is allocated and in no pool; its reference count is the number of users that hold it,
  and a live buffer outside \<open>X\<close> is held by a queue or marked as shared, so none is lost.
\<close>

definition pooled :: "sbuf_state \<Rightarrow> addr set" where
  "pooled st = set (smallsbuf_pool st) \<union> set (largesbuf_pool st)"

definition live :: "sbuf_state \<Rightarrow> addr \<Rightarrow> bool" where
  "live st b \<longleftrightarrow> b < sbs_next st \<and> b \<notin> pooled st"

definition held :: "addr set \<Rightarrow> (addr \<Rightarrow> SBufUser list) \<Rightarrow> addr \<Rightarrow> nat" where
  "held Q U b = (\<Sum>q\<in>Q. count_list (map us_buf (U q)) b)"

definition pools_ok :: "sbuf_state \<Rightarrow> bool" where
  "pools_ok st \<longleftrightarrow>
     distinct (smallsbuf_pool st @ largesbuf_pool st) \<and> pooled st \<subseteq> {..<sbs_next st} \<and>
     int (sbs_next st) = sbufsmall_total st + sbuflarge_total st \<and>
     sbufsmall_used st + int (length (smallsbuf_pool st)) = sbufsmall_total st \<and>
     sbuflarge_used st + int (length (largesbuf_pool st)) = sbuflarge_total st \<and>
     sbufuser_used st + int (user_pool st) = sbufuser_total st"

definition buffer_ok :: "nat \<Rightarrow> SBuffer \<Rightarrow> bool" where
  "buffer_ok refs bf \<longleftrightarrow>
     (bf_size bf = SBUF_SMALL_BUFFER \<or> bf_size bf = SBUF_LARGE_BUFFER) \<and> length (bf_data bf) \<le> bf_size bf \<and>
     bf_refcount bf = int refs"

definition buffers_ok :: "addr set \<Rightarrow> addr set \<Rightarrow> (addr \<Rightarrow> SBufUser list) \<Rightarrow> sbuf_state \<Rightarrow> bool" where
  "buffers_ok X Q U st \<longleftrightarrow>
     finite Q \<and> (\<forall>q. q \<notin> Q \<longrightarrow> U q = []) \<and> pools_ok st \<and>
     (\<forall>b. live st b \<longrightarrow> buffer_ok (held Q U b) (buf_at st b) \<and> (b \<in> X \<or> bf_shared (buf_at st b) \<or> held Q U b > 0)) \<and>
     (\<forall>q. \<forall>u\<in>set (U q). live st (us_buf u) \<and> us_start u \<le> user_end st u)"

definition users_ok :: "addr set \<Rightarrow> (addr \<Rightarrow> SBufUser list) \<Rightarrow> sbuf_state \<Rightarrow> bool" where
  "users_ok Q U st \<longleftrightarrow> sbufuser_used st = int (\<Sum>q\<in>Q. length (U q))"

definition qbytes :: "sbuf_state \<Rightarrow> addr \<Rightarrow> cstr" where
  "qbytes st q = concat (map (user_bytes st) (users_of st q))"

definition sbuf_ok :: "addr set \<Rightarrow> sbuf_state \<Rightarrow> bool" where
  "sbuf_ok Q st \<longleftrightarrow>
     buffers_ok {} Q (users_of st) st \<and> users_ok Q (users_of st) st \<and>
     (\<forall>q. q_length (sbufs st q) = int (length (qbytes st q))) \<and>
     (\<forall>q. \<forall>u\<in>set (users_of st q). user_bytes st u \<noteq> [])"

lemmas sbuf_consts = SBUF_SMALL_BUFFER_def SBUF_LARGE_BUFFER_def SBUF_BASE_def SBUF_SMALL_TOTAL_def SBUF_LARGE_TOTAL_def
  INITIAL_SBUFS_SMALL_def INITIAL_SBUFS_LARGE_def INITIAL_SBUFS_USERS_def

lemma set_buf_simps [simp]:
  "sbs_next (set_buf b f st) = sbs_next st" "sbufs (set_buf b f st) = sbufs st"
  "buf_at (set_buf b f st) c = (if c = b then f (buf_at st b) else buf_at st c)"
  "sbufuser_used (set_buf b f st) = sbufuser_used st" "live (set_buf b f st) c = live st c"
  "pools_ok (set_buf b f st) = pools_ok st"
  by (simp_all add: set_buf_def live_def pooled_def pools_ok_def)

lemma set_queue_simps [simp]:
  "sbs_next (set_queue q g st) = sbs_next st" "buf_at (set_queue q g st) = buf_at st"
  "sbufs (set_queue q g st) = (sbufs st)(q := g (sbufs st q))"
  "sbufuser_used (set_queue q g st) = sbufuser_used st" "live (set_queue q g st) c = live st c"
  "pools_ok (set_queue q g st) = pools_ok st"
  by (simp_all add: set_queue_def live_def pooled_def pools_ok_def)

lemma user_bytes_set_queue [simp]: "user_bytes (set_queue q g st) = user_bytes st" "user_end (set_queue q g st) = user_end st"
  by (simp_all add: fun_eq_iff user_bytes_def user_end_def)

lemma live_pools: "live st b \<Longrightarrow> b < sbs_next st" "live st b \<Longrightarrow> b \<notin> pooled st"
  by (simp_all add: live_def)

lemma buffers_ok_user:
  assumes "buffers_ok X Q U st" and "u \<in> set (U q)"
  shows "live st (us_buf u)" and "us_start u \<le> user_end st u" and "q \<in> Q"
  using assms by (force simp: buffers_ok_def)+

lemma held_dead:
  assumes "buffers_ok X Q U st" and "\<not> live st b"
  shows "held Q U b = 0"
proof -
  have "b \<notin> us_buf ` set (U q)" for q using assms by (auto simp: buffers_ok_def)
  then show ?thesis by (simp add: held_def count_list_0_iff)
qed

lemma held_mem:
  assumes "finite Q" and "q \<in> Q" and "u \<in> set (U q)"
  shows "held Q U (us_buf u) > 0"
proof -
  have "count_list (map us_buf (U q)) (us_buf u) \<noteq> 0" using assms(3) by (simp add: count_list_0_iff)
  then show ?thesis by (simp add: held_def sum.remove [OF assms(1,2)])
qed

lemma held_append:
  assumes "finite Q" and "q \<in> Q"
  shows "held Q (U(q := U q @ [u])) b = held Q U b + (if us_buf u = b then 1 else 0)"
  using assms by (simp add: held_def sum.remove [OF assms])

lemma held_Cons:
  assumes "finite Q" and "q \<in> Q" and "U q = u # us"
  shows "held Q U b = held Q (U(q := us)) b + (if us_buf u = b then 1 else 0)"
  using assms by (simp add: held_def sum.remove [OF assms(1,2)])

lemma users_append:
  assumes "finite Q" and "q \<in> Q"
  shows "(\<Sum>p\<in>Q. length ((U(q := U q @ [u])) p)) = Suc (\<Sum>p\<in>Q. length (U p))"
  using assms by (simp add: sum.remove [OF assms])

lemma users_Cons:
  assumes "finite Q" and "q \<in> Q" and "U q = u # us"
  shows "(\<Sum>p\<in>Q. length (U p)) = Suc (\<Sum>p\<in>Q. length ((U(q := us)) p))"
  using assms by (simp add: sum.remove [OF assms(1,2)])

subsection \<open>Allocation\<close>

text \<open>New blocks change no live buffer and no queue.\<close>

lemma block_count_pos: "0 < tot \<Longrightarrow> 0 < n \<Longrightarrow> 0 < block_count n tot"
  by (auto simp: block_count_def div_greater_zero_iff dvd_imp_le mod_eq_0_iff_dvd)

lemma buffers_ok_frame:
  assumes "buffers_ok X Q U st" and "pools_ok st'"
    and "\<And>b. live st' b = live st b" and "\<And>b. live st b \<Longrightarrow> buf_at st' b = buf_at st b"
  shows "buffers_ok X Q U st'"
  using assms by (auto simp: buffers_ok_def user_end_def)

lemma allocblock_small:
  assumes "buffers_ok X Q U st"
  shows "buffers_ok X Q U (sbuf_allocblock_small n st)"
    and "\<And>b. live (sbuf_allocblock_small n st) b = live st b"
    and "\<And>b. live st b \<Longrightarrow> buf_at (sbuf_allocblock_small n st) b = buf_at st b"
    and "sbufs (sbuf_allocblock_small n st) = sbufs st" and "sbufuser_used (sbuf_allocblock_small n st) = sbufuser_used st"
proof -
  let ?st = "sbuf_allocblock_small n st"
  have p: "pools_ok st" using assms by (simp add: buffers_ok_def)
  then have p': "pools_ok ?st"
    by (auto simp: pools_ok_def pooled_def sbuf_allocblock_small_def sbuf_allocblock_general_def Let_def)
  show l: "live ?st b = live st b" for b
    using p by (auto simp: live_def pools_ok_def pooled_def sbuf_allocblock_small_def sbuf_allocblock_general_def Let_def)
  show s: "live st b \<Longrightarrow> buf_at ?st b = buf_at st b" for b
    by (auto simp: live_def sbuf_allocblock_small_def sbuf_allocblock_general_def Let_def)
  show "sbufs ?st = sbufs st" "sbufuser_used ?st = sbufuser_used st"
    by (simp_all add: sbuf_allocblock_small_def sbuf_allocblock_general_def Let_def)
  show "buffers_ok X Q U ?st"
    by (rule buffers_ok_frame [OF assms p' l s])
qed

lemma allocblock_large:
  assumes "buffers_ok X Q U st"
  shows "buffers_ok X Q U (sbuf_allocblock_large n st)"
    and "\<And>b. live (sbuf_allocblock_large n st) b = live st b"
    and "\<And>b. live st b \<Longrightarrow> buf_at (sbuf_allocblock_large n st) b = buf_at st b"
    and "sbufs (sbuf_allocblock_large n st) = sbufs st" and "sbufuser_used (sbuf_allocblock_large n st) = sbufuser_used st"
proof -
  let ?st = "sbuf_allocblock_large n st"
  have p: "pools_ok st" using assms by (simp add: buffers_ok_def)
  then have p': "pools_ok ?st"
    by (auto simp: pools_ok_def pooled_def sbuf_allocblock_large_def sbuf_allocblock_general_def Let_def)
  show l: "live ?st b = live st b" for b
    using p by (auto simp: live_def pools_ok_def pooled_def sbuf_allocblock_large_def sbuf_allocblock_general_def Let_def)
  show s: "live st b \<Longrightarrow> buf_at ?st b = buf_at st b" for b
    by (auto simp: live_def sbuf_allocblock_large_def sbuf_allocblock_general_def Let_def)
  show "sbufs ?st = sbufs st" "sbufuser_used ?st = sbufuser_used st"
    by (simp_all add: sbuf_allocblock_large_def sbuf_allocblock_general_def Let_def)
  show "buffers_ok X Q U ?st"
    by (rule buffers_ok_frame [OF assms p' l s])
qed

lemma take_buffer:
  assumes "buffers_ok {} Q U st" and "pools_ok st'" and dead: "\<not> live st b"
    and l: "\<And>c. live st' c = (live st c \<or> c = b)" and n: "buf_at st' b = new_buffer k"
    and k: "k = SBUF_SMALL_BUFFER \<or> k = SBUF_LARGE_BUFFER"
    and o: "\<And>c. c \<noteq> b \<Longrightarrow> buf_at st' c = buf_at st c"
  shows "buffers_ok {b} Q U st'"
proof -
  have h: "held Q U b = 0" by (rule held_dead [OF assms(1) dead])
  have b: "buffer_ok 0 (buf_at st' b)" using k by (auto simp: n buffer_ok_def new_buffer_def)
  have "buffer_ok (held Q U c) (buf_at st' c) \<and> (c \<in> {b} \<or> bf_shared (buf_at st' c) \<or> held Q U c > 0)"
    if "live st' c" for c
    using that assms(1) h b o [of c] by (cases "c = b") (auto simp: l buffers_ok_def)
  moreover have "live st' (us_buf u) \<and> us_start u \<le> user_end st' u" if "u \<in> set (U q)" for u q
  proof -
    have "live st (us_buf u) \<and> us_start u \<le> user_end st u" using assms(1) that by (auto simp: buffers_ok_def)
    moreover from this have "us_buf u \<noteq> b" using dead by auto
    ultimately show ?thesis using o [of "us_buf u"] by (simp add: l user_end_def)
  qed
  ultimately show ?thesis using assms(1,2) by (simp add: buffers_ok_def)
qed

text \<open>What every allocation of a buffer guarantees.\<close>

definition allocated :: "addr set \<Rightarrow> (addr \<Rightarrow> SBufUser list) \<Rightarrow> sbuf_state \<Rightarrow> addr \<Rightarrow> sbuf_state \<Rightarrow> bool" where
  "allocated Q U st b st1 \<longleftrightarrow>
     buffers_ok {b} Q U st1 \<and> \<not> live st b \<and> (\<forall>c. live st1 c \<longleftrightarrow> live st c \<or> c = b) \<and>
     (\<forall>c. live st c \<longrightarrow> buf_at st1 c = buf_at st c) \<and> sbufs st1 = sbufs st \<and> sbufuser_used st1 = sbufuser_used st"

lemma pop_allocated:
  assumes ok: "buffers_ok {} Q U st" and l: "\<And>c. live st c = live st0 c"
    and same: "\<And>c. live st0 c \<Longrightarrow> buf_at st c = buf_at st0 c" and q: "sbufs st = sbufs st0"
    and uu: "sbufuser_used st = sbufuser_used st0"
    and b: "b \<in> pooled st" and pool: "pooled st = insert b (pooled st2)" "b \<notin> pooled st2" and p: "pools_ok st2"
    and f: "sbs_next st2 = sbs_next st" "sbs_store st2 = sbs_store st" "sbufs st2 = sbufs st"
      "sbufuser_used st2 = sbufuser_used st"
    and k: "k = SBUF_SMALL_BUFFER \<or> k = SBUF_LARGE_BUFFER"
  shows "allocated Q U st0 b (set_buf b (\<lambda>_. new_buffer k) st2)"
proof -
  let ?st1 = "set_buf b (\<lambda>_. new_buffer k) st2"
  have p1: "pools_ok ?st1" using p by (simp add: pools_ok_def pooled_def set_buf_def)
  have "b < sbs_next st" using ok b by (auto simp: buffers_ok_def pools_ok_def)
  then have l1: "live ?st1 c = (live st c \<or> c = b)" for c
    using pool by (auto simp: live_def f set_buf_def pooled_def)
  have dead: "\<not> live st b" using b by (simp add: live_def)
  have "buffers_ok {b} Q U ?st1"
    by (rule take_buffer [OF ok p1 dead l1 _ k]) (simp_all add: set_buf_def f)
  moreover have "live st0 c \<Longrightarrow> buf_at ?st1 c = buf_at st0 c" for c
    using same [of c] dead l by (auto simp: set_buf_def f)
  ultimately show ?thesis using dead l l1 q uu by (auto simp: allocated_def set_buf_def f)
qed

lemma alloc_large:
  assumes ok: "buffers_ok {} Q U st"
  shows "\<exists>b st1. sbuf_alloc_large st = Some (b, st1) \<and> buf_at st1 b = new_buffer SBUF_LARGE_BUFFER \<and> allocated Q U st b st1"
proof -
  define s where "s = (if largesbuf_pool st = [] then sbuf_allocblock_large INITIAL_SBUFS_LARGE st else st)"
  have ok': "buffers_ok {} Q U s" using allocblock_large(1) [OF ok] ok by (simp add: s_def)
  have f: "live s c = live st c" "live st c \<Longrightarrow> buf_at s c = buf_at st c" "sbufs s = sbufs st" "sbufuser_used s = sbufuser_used st" for c
    using allocblock_large(2-5) [OF ok] by (simp_all add: s_def)
  have "largesbuf_pool s \<noteq> []"
    using block_count_pos [of SBUF_LARGE_TOTAL INITIAL_SBUFS_LARGE]
    by (auto simp: s_def sbuf_allocblock_large_def sbuf_allocblock_general_def sbuf_consts Let_def)
  then obtain b pool where bp: "largesbuf_pool s = b # pool" by (cases "largesbuf_pool s") blast+
  define st2 where "st2 = s\<lparr>largesbuf_pool := pool, sbuflarge_used := sbuflarge_used s + 1\<rparr>"
  have r: "sbuf_alloc_large st = Some (b, set_buf b (\<lambda>_. new_buffer SBUF_LARGE_BUFFER) st2)"
    unfolding sbuf_alloc_large_def s_def [symmetric] st2_def by (simp add: bp)
  have p: "pools_ok s" using ok' by (simp add: buffers_ok_def)
  have "allocated Q U st b (set_buf b (\<lambda>_. new_buffer SBUF_LARGE_BUFFER) st2)"
    by (rule pop_allocated [OF ok' f(1,2,3,4)])
      (use p in \<open>auto simp: st2_def pooled_def pools_ok_def bp\<close>)
  with r show ?thesis by (simp add: set_buf_def)
qed

lemma alloc_ok:
  assumes ok: "buffers_ok {} Q U st"
  shows "\<exists>b st1 k. sbuf_alloc n st = Some (b, st1) \<and> buf_at st1 b = new_buffer k \<and> (n \<le> 512 \<longrightarrow> n \<le> k) \<and> 0 < k \<and>
           allocated Q U st b st1"
proof (cases "n \<ge> SBUF_SMALL_BUFFER")
  case True
  with alloc_large [OF ok] show ?thesis by (force simp: sbuf_alloc_def sbuf_consts)
next
  case False
  define s where "s = (if smallsbuf_pool st = [] then sbuf_allocblock_small INITIAL_SBUFS_SMALL st else st)"
  have ok': "buffers_ok {} Q U s" using allocblock_small(1) [OF ok] ok by (simp add: s_def)
  have f: "live s c = live st c" "live st c \<Longrightarrow> buf_at s c = buf_at st c" "sbufs s = sbufs st" "sbufuser_used s = sbufuser_used st" for c
    using allocblock_small(2-5) [OF ok] by (simp_all add: s_def)
  have "smallsbuf_pool s \<noteq> []"
    using block_count_pos [of SBUF_SMALL_TOTAL INITIAL_SBUFS_SMALL]
    by (auto simp: s_def sbuf_allocblock_small_def sbuf_allocblock_general_def sbuf_consts Let_def)
  then obtain b pool where bp: "smallsbuf_pool s = b # pool" by (cases "smallsbuf_pool s") blast+
  define st2 where "st2 = s\<lparr>smallsbuf_pool := pool, sbufsmall_used := sbufsmall_used s + 1\<rparr>"
  have r: "sbuf_alloc n st = Some (b, set_buf b (\<lambda>_. new_buffer SBUF_SMALL_BUFFER) st2)"
    using False unfolding sbuf_alloc_def s_def [symmetric] st2_def by (simp add: bp)
  have p: "pools_ok s" using ok' by (simp add: buffers_ok_def)
  have "allocated Q U st b (set_buf b (\<lambda>_. new_buffer SBUF_SMALL_BUFFER) st2)"
    by (rule pop_allocated [OF ok' f(1,2,3,4)])
      (use p in \<open>auto simp: st2_def pooled_def pools_ok_def bp\<close>)
  with r False show ?thesis by (auto simp: set_buf_def sbuf_consts)
qed

text \<open>A user struct is always found; the caller adds the user to a queue.\<close>

lemma user_alloc:
  assumes "pools_ok st"
  shows "\<exists>st1. sbuf_user_alloc st = Some st1 \<and> pools_ok st1 \<and> sbs_store st1 = sbs_store st \<and> (\<forall>c. live st1 c = live st c) \<and>
           sbufs st1 = sbufs st \<and> sbufuser_used st1 = sbufuser_used st + 1"
  using assms
  by (auto simp: sbuf_user_alloc_def sbuf_allocblock_users_def pools_ok_def pooled_def live_def INITIAL_SBUFS_USERS_def Let_def)

lemma add_user:
  assumes ok: "buffers_ok X Q U st" and q: "q \<in> Q" and b: "us_buf u = b" "live st b" "us_start u \<le> user_end st u"
    and st': "pools_ok st'" "\<And>c. live st' c = live st c" "\<And>c. c \<noteq> b \<Longrightarrow> buf_at st' c = buf_at st c"
      "buf_at st' b = (buf_at st b)\<lparr>bf_refcount := bf_refcount (buf_at st b) + 1\<rparr>"
  shows "buffers_ok (X - {b}) Q (U(q := U q @ [u])) st'"
proof -
  let ?U = "U(q := U q @ [u])"
  have fin: "finite Q" using ok by (simp add: buffers_ok_def)
  have e: "user_end st' v = user_end st v" for v
    using st'(3,4) by (cases "us_buf v = b") (simp_all add: user_end_def)
  have "buffer_ok (held Q ?U c) (buf_at st' c) \<and> (c \<in> X - {b} \<or> bf_shared (buf_at st' c) \<or> held Q ?U c > 0)"
    if "live st' c" for c
    using that ok st'(2-4) b(1)
    by (cases "c = b") (auto simp: buffers_ok_def buffer_ok_def held_append [OF fin q])
  moreover have "live st' (us_buf v) \<and> us_start v \<le> user_end st' v" if "v \<in> set (?U p)" for v p
    using that ok b st'(2) e by (auto simp: buffers_ok_def split: if_splits)
  ultimately show ?thesis
    using ok st'(1) q unfolding buffers_ok_def by simp
qed

subsection \<open>Writing appends\<close>

definition shares :: "sbuf_state \<Rightarrow> addr set" where
  "shares st = {b. live st b \<and> bf_shared (buf_at st b)}"

definition no_empty :: "sbuf_state \<Rightarrow> bool" where
  "no_empty st \<longleftrightarrow> (\<forall>q. \<forall>u\<in>set (users_of st q). user_bytes st u \<noteq> [])"

text \<open>The outcome of the writing steps, before the length of the queue is brought in.\<close>

definition appended :: "addr set \<Rightarrow> addr \<Rightarrow> cstr \<Rightarrow> sbuf_state \<Rightarrow> sbuf_state \<Rightarrow> bool" where
  "appended Q q d st st' \<longleftrightarrow>
     buffers_ok {} Q (users_of st') st' \<and> users_ok Q (users_of st') st' \<and>
     (\<forall>p. qbytes st' p = (if p = q then qbytes st q @ d else qbytes st p)) \<and>
     (\<forall>p. q_length (sbufs st' p) = q_length (sbufs st p)) \<and> shares st' = shares st"

lemma appended_trans: "appended Q q d st st' \<Longrightarrow> appended Q q e st' st'' \<Longrightarrow> appended Q q (d @ e) st st''"
  by (auto simp: appended_def)

lemma user_bytes_cong: "buf_at st' (us_buf u) = buf_at st (us_buf u) \<Longrightarrow> user_bytes st' u = user_bytes st u"
  by (simp add: user_bytes_def)

lemma put_new_ok:
  assumes ok: "buffers_ok {} Q (users_of st) st" and us: "users_ok Q (users_of st) st" and q: "q \<in> Q"
  shows "\<exists>st1 b k. put_new q n st = Some st1 \<and> buffers_ok {} Q (users_of st1) st1 \<and> users_ok Q (users_of st1) st1 \<and>
           \<not> live st b \<and> 0 < k \<and> buf_at st1 b = \<lparr>bf_shared = False, bf_size = k, bf_refcount = 1, bf_data = []\<rparr> \<and>
           sbufs st1 = (sbufs st)(q := (sbufs st q)\<lparr>q_users := users_of st q @ [\<lparr>us_start = 0, us_buf = b\<rparr>]\<rparr>) \<and>
           (\<forall>c. live st c \<longrightarrow> buf_at st1 c = buf_at st c) \<and> shares st1 = shares st"
proof -
  have "pools_ok st" using ok by (simp add: buffers_ok_def)
  then obtain s1 where s1: "sbuf_user_alloc st = Some s1" "pools_ok s1" "sbs_store s1 = sbs_store st"
    "\<forall>c. live s1 c = live st c" "sbufs s1 = sbufs st" "sbufuser_used s1 = sbufuser_used st + 1"
    using user_alloc by blast
  have ok1: "buffers_ok {} Q (users_of st) s1"
    by (rule buffers_ok_frame [OF ok s1(2)]) (simp_all add: s1)
  obtain b s2 k where s2: "sbuf_alloc n s1 = Some (b, s2)" "buf_at s2 b = new_buffer k" "0 < k"
    and al: "allocated Q (users_of st) s1 b s2" using alloc_ok [OF ok1, of n] by blast
  let ?u = "\<lparr>us_start = 0, us_buf = b\<rparr>"
  let ?st = "set_queue q (\<lambda>sb. sb\<lparr>q_users := q_users sb @ [?u]\<rparr>) (set_buf b (\<lambda>bf. bf\<lparr>bf_refcount := 1\<rparr>) s2)"
  have r: "put_new q n st = Some ?st" by (simp add: put_new_def s1 s2)
  have U: "users_of ?st = (users_of st)(q := users_of st q @ [?u])"
    using al s1(5) by (auto simp: allocated_def)
  have bo: "buffers_ok ({b} - {b}) Q ((users_of st)(q := users_of st q @ [?u])) ?st"
    by (rule add_user [of "{b}" _ _ s2])
      (use al q s2 in \<open>auto simp: allocated_def new_buffer_def buffers_ok_def\<close>)
  have "users_ok Q (users_of ?st) ?st"
    using us al s1(6) q ok users_append [of Q q "users_of st" ?u] unfolding users_ok_def U
    by (simp add: allocated_def buffers_ok_def)
  moreover have "shares ?st = shares st" using al s1 s2(2)
    by (auto simp: shares_def allocated_def new_buffer_def)
  moreover have "sbufs ?st = (sbufs st)(q := (sbufs st q)\<lparr>q_users := users_of st q @ [?u]\<rparr>)"
    using al s1(5) by (auto simp: allocated_def)
  moreover have "live st c \<longrightarrow> buf_at ?st c = buf_at st c" for c
    using al s1(3,4) by (auto simp: allocated_def)
  moreover have "\<not> live st b" using al s1(4) by (simp add: allocated_def)
  moreover have "buf_at ?st b = \<lparr>bf_shared = False, bf_size = k, bf_refcount = 1, bf_data = []\<rparr>"
    using s2(2) by (simp add: new_buffer_def)
  ultimately show ?thesis using r bo [folded U] s2(3) unfolding Diff_cancel by blast
qed

lemma single_holder:
  assumes ok: "buffers_ok X Q U st" and q: "U q = us @ [u]" and one: "bf_refcount (buf_at st (us_buf u)) = 1"
  shows "\<And>v. v \<in> set us \<Longrightarrow> us_buf v \<noteq> us_buf u" and "\<And>p v. p \<noteq> q \<Longrightarrow> v \<in> set (U p) \<Longrightarrow> us_buf v \<noteq> us_buf u"
proof -
  have fin: "finite Q" and out: "\<And>p. p \<notin> Q \<Longrightarrow> U p = []" using ok by (simp_all add: buffers_ok_def)
  from out [of q] q have qQ: "q \<in> Q" by (cases "q \<in> Q") auto
  have "live st (us_buf u)" using buffers_ok_user(1) [OF ok, of u q] q by simp
  with ok one have "held Q U (us_buf u) = 1" by (auto simp: buffers_ok_def buffer_ok_def)
  then have a: "us_buf u \<notin> us_buf ` set us" and b: "p \<in> Q - {q} \<Longrightarrow> us_buf u \<notin> us_buf ` set (U p)" for p
    using fin by (auto simp: held_def sum.remove [OF fin qQ] q count_list_0_iff)
  show "us_buf v \<noteq> us_buf u" if "v \<in> set us" for v using a that by (metis imageI)
  show "us_buf v \<noteq> us_buf u" if "p \<noteq> q" "v \<in> set (U p)" for p v
    using b [of p] that buffers_ok_user(3) [OF ok that(2)] by (metis DiffI imageI singletonD)
qed

lemma put_fill_ok:
  assumes ok: "buffers_ok {} Q (users_of st) st" and uk: "users_ok Q (users_of st) st"
    and q: "users_of st q = us @ [u]" and one: "bf_refcount (buf_at st (us_buf u)) = 1"
  shows "appended Q q (take (tail_room q st) d) st (put_fill q d st)"
    and "sbufs (put_fill q d st) = sbufs st"
    and "user_bytes (put_fill q d st) u = user_bytes st u @ take (tail_room q st) d"
    and "\<And>p v. p \<noteq> q \<Longrightarrow> v \<in> set (users_of st p) \<Longrightarrow> user_bytes (put_fill q d st) v = user_bytes st v"
    and "\<And>v. v \<in> set us \<Longrightarrow> user_bytes (put_fill q d st) v = user_bytes st v"
proof -
  let ?st = "put_fill q d st"
  have st: "?st = set_buf (us_buf u) (\<lambda>bf. bf\<lparr>bf_data := bf_data bf @ take (tail_room q st) d\<rparr>) st"
    by (simp add: put_fill_def q)
  have room: "tail_room q st = bf_size (buf_at st (us_buf u)) - length (bf_data (buf_at st (us_buf u)))"
    by (simp add: tail_room_def q Let_def)
  have lu: "live st (us_buf u)" "us_start u \<le> user_end st u" using buffers_ok_user [OF ok, of u q] q by simp_all
  show other: "user_bytes ?st v = user_bytes st v" if "p \<noteq> q" "v \<in> set (users_of st p)" for p v
    using single_holder(2) [OF ok q one that] by (simp add: user_bytes_def st)
  show before: "user_bytes ?st v = user_bytes st v" if "v \<in> set us" for v
    using single_holder(1) [OF ok q one that] by (simp add: user_bytes_def st)
  show own: "user_bytes ?st u = user_bytes st u @ take (tail_room q st) d"
    using lu(2) by (simp add: user_bytes_def st user_end_def)
  show same: "sbufs ?st = sbufs st" by (simp add: st)
  have e: "user_end st v \<le> user_end ?st v" for v by (simp add: user_end_def st)
  have b: "buffer_ok r (buf_at ?st c) = buffer_ok r (buf_at st c)" if "buffer_ok r (buf_at st c)" for r c
    using that by (auto simp: buffer_ok_def st room)
  have "buffers_ok {} Q (users_of ?st) ?st"
    using ok b le_trans [OF _ e] unfolding buffers_ok_def same by (simp add: st)
  moreover have "users_ok Q (users_of ?st) ?st" using uk unfolding users_ok_def same by (simp add: st)
  moreover have "qbytes ?st p = (if p = q then qbytes st q @ take (tail_room q st) d else qbytes st p)" for p
    using other [of p] before own by (auto simp: qbytes_def same q intro!: arg_cong [where f = concat])
  moreover have "shares ?st = shares st" by (auto simp: shares_def st)
  ultimately show "appended Q q (take (tail_room q st) d) st ?st" by (simp add: appended_def same)
qed

text \<open>A new user that is filled at once leaves no empty user behind.\<close>

lemma put_new_fill:
  assumes ok: "buffers_ok {} Q (users_of st) st" and uk: "users_ok Q (users_of st) st" and q: "q \<in> Q"
    and ne: "d \<noteq> []" and full: "no_empty st"
  shows "\<exists>st1. put_new q n st = Some st1 \<and> appended Q q (take (tail_room q st1) d) st (put_fill q d st1) \<and>
           no_empty (put_fill q d st1)"
proof -
  obtain st1 b k where n: "put_new q n st = Some st1" "buffers_ok {} Q (users_of st1) st1" "users_ok Q (users_of st1) st1"
      "\<not> live st b" "0 < k" "buf_at st1 b = \<lparr>bf_shared = False, bf_size = k, bf_refcount = 1, bf_data = []\<rparr>"
      "sbufs st1 = (sbufs st)(q := (sbufs st q)\<lparr>q_users := users_of st q @ [\<lparr>us_start = 0, us_buf = b\<rparr>]\<rparr>)"
      "\<forall>c. live st c \<longrightarrow> buf_at st1 c = buf_at st c" "shares st1 = shares st"
    using put_new_ok [OF ok uk q, of n] by blast
  let ?u = "\<lparr>us_start = 0, us_buf = b\<rparr>" and ?st = "put_fill q d st1"
  have old: "user_bytes st1 v = user_bytes st v" if "v \<in> set (users_of st p)" for v p
    using n(8) buffers_ok_user(1) [OF ok that] by (simp add: user_bytes_def)
  have uq: "users_of st1 q = users_of st q @ [?u]" using n(7) by simp
  have ub: "user_bytes st1 ?u = []" using n(6) by (simp add: user_bytes_def)
  have room: "tail_room q st1 = k" using n(6) uq by (simp add: tail_room_def)
  note fill = put_fill_ok [OF n(2,3) uq, where d = d]
  have one: "bf_refcount (buf_at st1 (us_buf ?u)) = 1" using n(6) by simp
  have "qbytes st1 p = qbytes st p" for p
    using old ub by (auto simp: qbytes_def n(7) intro!: arg_cong [where f = concat])
  then have "appended Q q [] st st1" using n(2,3,9) by (simp add: appended_def n(7))
  from appended_trans [OF this fill(1) [OF one]]
  have app: "appended Q q (take (tail_room q st1) d) st ?st" by simp
  have "user_bytes ?st v \<noteq> []" if v: "v \<in> set (users_of ?st p)" for v p
  proof -
    consider "p \<noteq> q" "v \<in> set (users_of st p)" | "p = q" "v \<in> set (users_of st q)" | "p = q" "v = ?u"
      using v by (auto simp: fill(2) [OF one] n(7) split: if_splits)
    then show ?thesis
    proof cases
      case 1
      then show ?thesis using fill(4) [OF one, of p v] old [of v p] full by (simp add: n(7) no_empty_def)
    next
      case 2
      then show ?thesis using fill(5) [OF one, of v] old [of v q] full by (simp add: no_empty_def)
    next
      case 3
      then show ?thesis using fill(3) [OF one] room n(5) ne by simp
    qed
  qed
  then have "no_empty ?st" by (simp add: no_empty_def)
  with n(1) app show ?thesis by blast
qed

lemma put_loop_ok:
  assumes "buffers_ok {} Q (users_of st) st" and "users_ok Q (users_of st) st" and "q \<in> Q" and "no_empty st"
  shows "\<exists>st'. put_loop q d st = Some st' \<and> appended Q q d st st' \<and> no_empty st'"
  using assms
proof (induction q d st rule: put_loop.induct)
  case (1 q d st)
  show ?case
  proof (cases "d = []")
    case True
    with 1 show ?thesis by (auto simp: put_loop.simps [of q "[]"] appended_def)
  next
    case False
    obtain st1 where st1: "put_new q (length d) st = Some st1"
      "appended Q q (take (tail_room q st1) d) st (put_fill q d st1)" "no_empty (put_fill q d st1)"
      using put_new_fill [OF "1.prems"(1-3) False "1.prems"(4)] by blast
    then obtain st' where st': "put_loop q (drop (tail_room q st1) d) (put_fill q d st1) = Some st'"
      "appended Q q (drop (tail_room q st1) d) (put_fill q d st1) st'" "no_empty st'"
      using "1.IH" [OF False st1(1)] "1.prems"(3) by (auto simp: appended_def)
    from appended_trans [OF st1(2) st'(2)] st'(1,3) st1(1) False show ?thesis
      by (simp add: put_loop.simps [of q d])
  qed
qed

lemma qbytes_length_step [simp]: "qbytes (set_queue q (\<lambda>sb. sb\<lparr>q_length := f sb\<rparr>) st) p = qbytes st p"
  by (simp add: qbytes_def)

lemma appended_length:
  assumes "sbuf_ok Q st" and "appended Q q d (set_queue q (\<lambda>sb. sb\<lparr>q_length := q_length sb + int (length d)\<rparr>) st) st'"
    and "no_empty st'"
  shows "sbuf_ok Q st'" and "\<And>p. qbytes st' p = (if p = q then qbytes st q @ d else qbytes st p)" and "shares st' = shares st"
proof -
  let ?s = "set_queue q (\<lambda>sb. sb\<lparr>q_length := q_length sb + int (length d)\<rparr>) st"
  from assms(2) show b: "qbytes st' p = (if p = q then qbytes st q @ d else qbytes st p)" for p
    by (simp add: appended_def)
  have "q_length (sbufs st' p) = (if p = q then q_length (sbufs st q) + int (length d) else q_length (sbufs st p))" for p
    using assms(2) by (simp add: appended_def)
  then have "q_length (sbufs st' p) = int (length (qbytes st' p))" for p
    using assms(1) b [of p] by (simp add: sbuf_ok_def)
  with assms(2,3) show "sbuf_ok Q st'" by (simp add: sbuf_ok_def appended_def no_empty_def)
  show "shares st' = shares st" using assms(2) by (simp add: appended_def shares_def)
qed

lemma sbuf_ok_D:
  assumes "sbuf_ok Q st"
  shows "buffers_ok {} Q (users_of st) st" "users_ok Q (users_of st) st" "no_empty st"
    "q_length (sbufs st q) = int (length (qbytes st q))" "(q_length (sbufs st q) = 0) = (users_of st q = [])"
proof -
  show "buffers_ok {} Q (users_of st) st" "users_ok Q (users_of st) st" "no_empty st"
    and l: "q_length (sbufs st q) = int (length (qbytes st q))"
    using assms by (simp_all add: sbuf_ok_def no_empty_def)
  show "(q_length (sbufs st q) = 0) = (users_of st q = [])"
  proof (cases "users_of st q")
    case (Cons u us)
    then have "user_bytes st u \<noteq> []" using assms by (metis list.set_intros(1) sbuf_ok_def)
    with Cons l show ?thesis by (cases "user_bytes st u") (auto simp: qbytes_def)
  qed (simp add: l qbytes_def)
qed

lemma length_step_ok:
  "buffers_ok X Q U (set_queue q g st) = buffers_ok X Q U st" "users_ok Q U (set_queue q g st) = users_ok Q U st"
  by (simp_all add: buffers_ok_def users_ok_def user_end_def)

lemma users_length_step [simp]: "(\<lambda>p. q_users (if p = q then (sbufs st q)\<lparr>q_length := n\<rparr> else sbufs st p)) = users_of st"
  by auto

lemma shares_set_queue [simp]: "shares (set_queue q g st) = shares st"
  by (simp add: shares_def)

lemma appended_length_step:
  assumes "appended Q q d st st'"
  shows "appended Q q d (set_queue q (\<lambda>sb. sb\<lparr>q_length := q_length sb + n\<rparr>) st)
           (set_queue q (\<lambda>sb. sb\<lparr>q_length := q_length sb + n\<rparr>) st')"
proof -
  have "users_of (set_queue q (\<lambda>sb. sb\<lparr>q_length := q_length sb + n\<rparr>) st') = users_of st'" by auto
  with assms show ?thesis by (simp add: appended_def length_step_ok)
qed

lemma held_pos:
  assumes ok: "buffers_ok X Q U st" and u: "u \<in> set (U q)"
  shows "bf_refcount (buf_at st (us_buf u)) \<ge> 1"
proof -
  have fin: "finite Q" and q: "q \<in> Q" using ok buffers_ok_user(3) [OF ok u] by (simp_all add: buffers_ok_def)
  then have "held Q U (us_buf u) > 0" using u by (simp add: held_mem)
  with ok buffers_ok_user(1) [OF ok u] show ?thesis by (auto simp: buffers_ok_def buffer_ok_def)
qed

lemma put_fill_no_empty: "no_empty st \<Longrightarrow> no_empty (put_fill q d st)"
  unfolding no_empty_def put_fill_def user_bytes_def by (auto dest!: bspec intro: leI)

lemma sbuf_put_ok:
  assumes ok: "sbuf_ok Q st" and q: "q \<in> Q" and ne: "d \<noteq> []"
  shows "\<exists>st'. sbuf_put q d st = Some (1, st') \<and> sbuf_ok Q st' \<and>
           (\<forall>p. qbytes st' p = (if p = q then qbytes st q @ d else qbytes st p)) \<and> shares st' = shares st"
proof -
  let ?len = "\<lambda>sb. sb\<lparr>q_length := q_length sb + int (length d)\<rparr>"
  note D = sbuf_ok_D [OF ok]
  have s: "buffers_ok {} Q (users_of (set_queue q ?len st)) (set_queue q ?len st)"
    "users_ok Q (users_of (set_queue q ?len st)) (set_queue q ?len st)" "no_empty (set_queue q ?len st)"
    using D(1-3) users_length_step by (simp_all add: length_step_ok no_empty_def)
  have finish: "\<exists>st'. put_loop q (drop (tail_room q st1) d) (put_fill q d (set_queue q ?len st1)) = Some st' \<and>
      appended Q q d (set_queue q ?len st) st' \<and> no_empty st'"
    if a: "appended Q q (take (tail_room q st1) d) st (put_fill q d st1)" and e: "no_empty (put_fill q d st1)" for st1
  proof -
    let ?f = "set_queue q ?len (put_fill q d st1)"
    have c: "put_fill q d (set_queue q ?len st1) = ?f"
      by (simp add: put_fill_def tail_room_def set_queue_def set_buf_def)
    have a': "appended Q q (take (tail_room q st1) d) (set_queue q ?len st) ?f" by (rule appended_length_step [OF a])
    have "no_empty ?f" using e by (simp add: no_empty_def user_bytes_def)
    with a' obtain st' where "put_loop q (drop (tail_room q st1) d) ?f = Some st'"
        "appended Q q (drop (tail_room q st1) d) ?f st'" "no_empty st'"
      using put_loop_ok [OF _ _ q] unfolding appended_def by blast
    with c appended_trans [OF a'] show ?thesis by fastforce
  qed
  have "\<exists>st'. sbuf_put q d st = Some (1, st') \<and> appended Q q d (set_queue q ?len st) st' \<and> no_empty st'"
  proof (cases "users_of st q = []")
    case True
    with put_loop_ok [OF s(1,2) q s(3), of d] D(5) [of q] show ?thesis by (auto simp: sbuf_put_def)
  next
    case False
    then obtain us u where u: "users_of st q = us @ [u]" by (metis rev_exhaust)
    have room: "tail_room q (set_queue q ?len st1) = tail_room q st1" for st1 by (simp add: tail_room_def)
    show ?thesis
    proof (cases "bf_refcount (buf_at st (us_buf u)) > 1")
      case True
      obtain st1 where st1: "put_new q (length d) st = Some st1"
        "appended Q q (take (tail_room q st1) d) st (put_fill q d st1)" "no_empty (put_fill q d st1)"
        using put_new_fill [OF D(1,2) q ne D(3)] by blast
      have "users_of st1 q \<noteq> []" using put_new_ok [OF D(1,2) q, of "length d"] st1(1) by auto
      with finish [OF st1(2,3)] st1(1) True u ne D(5) [of q] room [of st1] show ?thesis
        by (auto simp: sbuf_put_def)
    next
      case False
      have one: "bf_refcount (buf_at st (us_buf u)) = 1"
        using held_pos [OF D(1), of u q] u False by simp
      have "no_empty (put_fill q d st)" by (rule put_fill_no_empty [OF D(3)])
      with finish [OF put_fill_ok(1) [OF D(1,2) u one]] False u ne D(5) [of q] room [of st] show ?thesis
        by (auto simp: sbuf_put_def)
    qed
  qed
  then show ?thesis using appended_length [OF ok] by blast
qed

subsection \<open>Deleting removes from the front\<close>

definition removed ::
  "addr set \<Rightarrow> addr \<Rightarrow> (addr \<Rightarrow> SBufUser list) \<Rightarrow> sbuf_state \<Rightarrow> SBufUser list \<Rightarrow> sbuf_state \<Rightarrow> bool" where
  "removed Q q U st us' st' \<longleftrightarrow>
     buffers_ok {} Q (U(q := us')) st' \<and> users_ok Q (U(q := us')) st' \<and> user_bytes st' = user_bytes st \<and>
     sbufs st' = sbufs st \<and> shares st' = shares st"

lemma drop_user_bytes [simp]:
  "user_bytes (drop_user u st) = user_bytes st" "sbufs (drop_user u st) = sbufs st" "user_end (drop_user u st) = user_end st"
  by (auto simp: fun_eq_iff user_bytes_def user_end_def drop_user_def sbuf_user_free_def sbuf_free_def set_buf_def Let_def)

lemma drop_user_ok:
  assumes ok: "buffers_ok {} Q U st" and uk: "users_ok Q U st" and U: "U q = u # us" and b: "us_buf u' = us_buf u"
  shows "removed Q q U st us (drop_user u' st)"
proof -
  let ?b = "us_buf u" and ?st = "drop_user u' st" and ?U = "U(q := us)"
  have q: "q \<in> Q" and lb: "live st ?b" using buffers_ok_user [OF ok, of u q] U by simp_all
  have fin: "finite Q" and p: "pools_ok st" using ok by (simp_all add: buffers_ok_def)
  have bo: "buffer_ok (held Q U ?b) (buf_at st ?b)" using ok lb by (auto simp: buffers_ok_def)
  have h: "held Q U c = held Q ?U c + (if ?b = c then 1 else 0)" for c using held_Cons [where U = U, OF fin q U] .
  define gone where "gone \<longleftrightarrow> held Q ?U ?b = 0 \<and> \<not> bf_shared (buf_at st ?b)"
  have rc: "bf_refcount (buf_at st ?b) - 1 = int (held Q ?U ?b)" using bo h [of ?b] by (simp add: buffer_ok_def)
  have l: "live ?st c = (live st c \<and> \<not> (gone \<and> c = ?b))" for c
    using bo rc b by (auto simp: drop_user_def sbuf_user_free_def sbuf_free_def Let_def live_def pooled_def gone_def
        buffer_ok_def set_buf_def)
  have p': "pools_ok ?st"
    using p bo lb b by (auto simp: drop_user_def sbuf_user_free_def sbuf_free_def Let_def pools_ok_def pooled_def live_def
        buffer_ok_def set_buf_def)
  have s: "buf_at ?st c = (if c = ?b then (buf_at st ?b)\<lparr>bf_refcount := int (held Q ?U ?b)\<rparr> else buf_at st c)" for c
    using b rc by (auto simp: drop_user_def sbuf_user_free_def sbuf_free_def Let_def set_buf_def)
  have "buffer_ok (held Q ?U c) (buf_at ?st c) \<and> (c \<in> {} \<or> bf_shared (buf_at ?st c) \<or> held Q ?U c > 0)"
    if "live ?st c" for c
    using that ok h [of c] bo by (cases "c = ?b") (auto simp: l s gone_def buffers_ok_def buffer_ok_def)
  moreover have "live ?st (us_buf v) \<and> us_start v \<le> user_end ?st v" if v: "v \<in> set (?U r)" for v r
  proof -
    have vU: "v \<in> set (U r)" using v U by (auto split: if_splits)
    have "held Q ?U (us_buf v) > 0" if "r \<in> Q" by (rule held_mem [where U = ?U, OF fin that v])
    then have "\<not> (gone \<and> us_buf v = ?b)" using buffers_ok_user(3) [OF ok vU] by (auto simp: gone_def)
    with buffers_ok_user [OF ok vU] show ?thesis by (simp add: l)
  qed
  ultimately have "buffers_ok {} Q ?U ?st" using ok p' q by (auto simp: buffers_ok_def)
  moreover have "users_ok Q ?U ?st"
    using uk users_Cons [where U = U, OF fin q U] by (simp add: users_ok_def drop_user_def sbuf_user_free_def sbuf_free_def Let_def set_buf_def)
  moreover have "shares ?st = shares st" using l s by (auto simp: shares_def gone_def)
  ultimately show ?thesis by (simp add: removed_def)
qed

lemma head_start:
  assumes ok: "buffers_ok {} Q U st" "users_ok Q U st" and U: "U q = u # us"
    and u': "us_buf u' = us_buf u" "us_start u' \<le> user_end st u'"
  shows "removed Q q U st (u' # us) st"
proof -
  have h: "held Q (U(q := u' # us)) = held Q U" using u'(1) U by (auto simp: held_def fun_eq_iff intro!: sum.cong)
  have q: "q \<in> Q" using buffers_ok_user(3) [OF ok(1), of u q] U by simp
  have "live st (us_buf v) \<and> us_start v \<le> user_end st v" if "v \<in> set ((U(q := u' # us)) p)" for v p
    using that buffers_ok_user(1,2) [OF ok(1), of _ p] U u' by (auto split: if_splits)
  then have "buffers_ok {} Q (U(q := u' # us)) st" using ok(1) q unfolding buffers_ok_def h by simp
  moreover have "(\<Sum>p\<in>Q. length ((U(q := u' # us)) p)) = (\<Sum>p\<in>Q. length (U p))" by (rule sum.cong) (simp_all add: U)
  ultimately show ?thesis using ok(2) by (simp add: removed_def users_ok_def)
qed

lemma removed_trans:
  "removed Q q U st us' st' \<Longrightarrow> removed Q q (U(q := us')) st' us'' st'' \<Longrightarrow> removed Q q U st us'' st''"
  by (simp add: removed_def)

lemma delete_loop_ok:
  assumes "buffers_ok {} Q U st" and "users_ok Q U st" and "U q = us"
    and "n \<le> length (concat (map (user_bytes st) us))"
  shows "\<exists>us' st'. delete_loop n us st = Some (us', st') \<and> removed Q q U st us' st' \<and>
           concat (map (user_bytes st) us') = drop n (concat (map (user_bytes st) us)) \<and>
           ((\<forall>u\<in>set us. user_bytes st u \<noteq> []) \<longrightarrow> (\<forall>u\<in>set us'. user_bytes st u \<noteq> []))"
  using assms
proof (induction us arbitrary: n U st)
  case Nil
  then have "U(q := []) = U" by auto
  with Nil show ?case by (simp add: removed_def)
next
  case (Cons u us)
  let ?k = "user_end st u - us_start u"
  have le: "us_start u \<le> user_end st u" using buffers_ok_user(2) [OF Cons.prems(1), of u q] Cons.prems(3) by simp
  have len: "length (user_bytes st u) = ?k" by (simp add: user_bytes_def user_end_def)
  consider "n = 0" | "n > 0" "?k \<le> n" | "n > 0" "\<not> ?k \<le> n" by fastforce
  then show ?case
  proof cases
    case 1
    have "U(q := u # us) = U" using Cons.prems(3) by auto
    with 1 Cons.prems show ?thesis by (simp add: removed_def)
  next
    case 2
    let ?u = "u\<lparr>us_start := user_end st u\<rparr>"
    have d: "removed Q q U st us (drop_user ?u st)" by (rule drop_user_ok [OF Cons.prems(1-3)]) simp
    then have d': "buffers_ok {} Q (U(q := us)) (drop_user ?u st)" "users_ok Q (U(q := us)) (drop_user ?u st)"
      by (simp_all only: removed_def)
    have "n - ?k \<le> length (concat (map (user_bytes (drop_user ?u st)) us))" using Cons.prems(4) len by simp
    from Cons.IH [OF d' fun_upd_same this] obtain us' st' where
      r: "delete_loop (n - ?k) us (drop_user ?u st) = Some (us', st')" "removed Q q (U(q := us)) (drop_user ?u st) us' st'"
        "concat (map (user_bytes st) us') = drop (n - ?k) (concat (map (user_bytes st) us))"
        "(\<forall>u\<in>set us. user_bytes st u \<noteq> []) \<longrightarrow> (\<forall>u\<in>set us'. user_bytes st u \<noteq> [])"
      unfolding drop_user_bytes by blast
    have "delete_loop n (u # us) st = Some (us', st')" using r(1) 2 le by simp
    moreover have "drop n (user_bytes st u) = []" using len 2 by simp
    ultimately show ?thesis using r(3,4) removed_trans [OF d r(2)] len by auto
  next
    case 3
    let ?u = "u\<lparr>us_start := us_start u + n\<rparr>"
    have "removed Q q U st (?u # us) st"
      by (rule head_start [OF Cons.prems(1-3)]) (use 3 in \<open>simp_all add: user_end_def\<close>)
    moreover have "user_bytes st ?u = drop n (user_bytes st u)" by (simp add: user_bytes_def add.commute)
    ultimately show ?thesis using 3 le len by auto
  qed
qed

text \<open>Storing the remaining users back into the queue.\<close>

lemma removed_queue:
  assumes ok: "sbuf_ok Q st" and r: "removed Q q (users_of st) st us' st'" and e: "\<forall>u\<in>set us'. user_bytes st u \<noteq> []"
    and g: "g (sbufs st q) = \<lparr>q_length = int (length (concat (map (user_bytes st) us'))), q_users = us'\<rparr>"
  shows "sbuf_ok Q (set_queue q g st')" and "shares (set_queue q g st') = shares st"
    and "\<And>p. qbytes (set_queue q g st') p = (if p = q then concat (map (user_bytes st) us') else qbytes st p)"
proof -
  have f: "sbufs st' = sbufs st" "user_bytes st' = user_bytes st" "shares st' = shares st"
    using r by (simp_all add: removed_def)
  have U: "users_of (set_queue q g st') = (users_of st)(q := us')" using g by (auto simp: f)
  show b: "qbytes (set_queue q g st') p = (if p = q then concat (map (user_bytes st) us') else qbytes st p)" for p
    using g by (simp add: qbytes_def f)
  show "shares (set_queue q g st') = shares st" using f by simp
  have l: "q_length (sbufs (set_queue q g st') p) = int (length (qbytes (set_queue q g st') p))" for p
    using sbuf_ok_D(4) [OF ok, of p] unfolding b by (simp add: f g)
  have "user_bytes (set_queue q g st') u \<noteq> []" if "u \<in> set (users_of (set_queue q g st') p)" for p u
    using that ok e g by (cases "p = q") (auto simp: sbuf_ok_def f)
  with l r U show "sbuf_ok Q (set_queue q g st')"
    by (simp only: sbuf_ok_def removed_def length_step_ok) simp
qed

lemma sbuf_delete_ok:
  assumes ok: "sbuf_ok Q st"
  shows "\<exists>st'. sbuf_delete q n st = Some (1, st') \<and> sbuf_ok Q st' \<and> shares st' = shares st \<and>
           (\<forall>p. qbytes st' p = (if p = q then drop n (qbytes st q) else qbytes st p))"
proof -
  note D = sbuf_ok_D [OF ok]
  define len where "len = min n (length (qbytes st q))"
  have lenI: "min (int n) (q_length (sbufs st q)) = int len" by (simp add: D(4) len_def)
  have e: "\<forall>u\<in>set (users_of st q). user_bytes st u \<noteq> []" using D(3) by (simp add: no_empty_def)
  have "len \<le> length (concat (map (user_bytes st) (users_of st q)))" by (simp add: len_def qbytes_def)
  from delete_loop_ok [OF D(1,2) refl this] e obtain us' st' where
    r: "delete_loop len (users_of st q) st = Some (us', st')" "removed Q q (users_of st) st us' st'"
       "concat (map (user_bytes st) us') = drop len (qbytes st q)" "\<forall>u\<in>set us'. user_bytes st u \<noteq> []"
    by (auto simp: qbytes_def)
  let ?g = "\<lambda>sb. \<lparr>q_length = q_length sb - int len, q_users = us'\<rparr>"
  have g: "?g (sbufs st q) = \<lparr>q_length = int (length (concat (map (user_bytes st) us'))), q_users = us'\<rparr>"
    by (simp add: r(3) D(4) len_def of_nat_diff)
  have "sbuf_delete q n st = Some (1, set_queue q ?g st')" by (simp add: sbuf_delete_def lenI r(1))
  moreover have "drop len (qbytes st q) = drop n (qbytes st q)" by (simp add: len_def min_def)
  ultimately show ?thesis using removed_queue [OF ok r(2,4), where g = ?g, OF g] r(3) by simp
qed

lemma flush_loop_ok:
  assumes "buffers_ok {} Q U st" and "users_ok Q U st" and "U q = us" and "\<forall>u\<in>set us. user_bytes st u \<noteq> []"
    and "flush_loop us st = (n, us', st')"
  shows "n = length (takeWhile IsEol (concat (map (user_bytes st) us))) \<and> removed Q q U st us' st' \<and>
    concat (map (user_bytes st) us') = dropWhile IsEol (concat (map (user_bytes st) us)) \<and>
    (\<forall>u\<in>set us'. user_bytes st u \<noteq> [])"
  using assms
proof (induction us arbitrary: U st n)
  case Nil
  then have "U(q := []) = U" by auto
  with Nil show ?case by (simp add: removed_def)
next
  case (Cons u us)
  let ?B = "user_bytes st u" and ?C = "concat (map (user_bytes st) us)"
  let ?k = "length (takeWhile IsEol ?B)" let ?u = "u\<lparr>us_start := us_start u + ?k\<rparr>"
  have le: "us_start u \<le> user_end st u" using buffers_ok_user(2) [OF Cons.prems(1), of u q] Cons.prems(3) by simp
  have len: "length ?B = user_end st u - us_start u" by (simp add: user_bytes_def user_end_def)
  have ub: "user_bytes st ?u = dropWhile IsEol ?B" by (simp add: user_bytes_def dropWhile_eq_drop add.commute)
  have "n = length (takeWhile IsEol (?B @ ?C)) \<and> removed Q q U st us' st' \<and>
      concat (map (user_bytes st) us') = dropWhile IsEol (?B @ ?C) \<and> (\<forall>u\<in>set us'. user_bytes st u \<noteq> [])"
  proof (cases "us_start ?u < user_end st u")
    case True
    then have k: "?k < length ?B" using len by simp
    then have x: "\<not> (\<forall>c\<in>set ?B. IsEol c)" by (metis less_irrefl takeWhile_eq_all_conv)
    have "removed Q q U st (?u # us) st"
      by (rule head_start [OF Cons.prems(1-3)]) (use True in \<open>simp_all add: user_end_def\<close>)
    moreover have "dropWhile IsEol ?B \<noteq> []" using x by (simp add: dropWhile_eq_Nil_conv)
    moreover have "n = ?k" "us' = ?u # us" "st' = st" using True Cons.prems(5) by (auto simp: user_end_def Let_def)
    ultimately show ?thesis using x Cons.prems(4) ub by (auto simp: takeWhile_append dropWhile_append)
  next
    case False
    then have k: "?k = length ?B" using len le length_takeWhile_le [of IsEol ?B] by simp
    then have x: "\<forall>c\<in>set ?B. IsEol c" by (metis takeWhile_eq_all_conv takeWhile_eq_take take_all_iff order_refl)
    obtain m where m: "flush_loop us (drop_user ?u st) = (m, us', st')" "n = ?k + m"
      using False Cons.prems(5) by (auto simp: user_end_def Let_def split: prod.splits)
    have d: "removed Q q U st us (drop_user ?u st)" by (rule drop_user_ok [OF Cons.prems(1-3)]) simp
    then have d': "buffers_ok {} Q (U(q := us)) (drop_user ?u st)" "users_ok Q (U(q := us)) (drop_user ?u st)"
      by (simp_all only: removed_def)
    have e: "\<forall>v\<in>set us. user_bytes (drop_user ?u st) v \<noteq> []" using Cons.prems(4) by simp
    note IH = Cons.IH [OF d' fun_upd_same e m(1), unfolded drop_user_bytes]
    show ?thesis using IH removed_trans [OF d conjunct1 [OF conjunct2 [OF IH]]] m(2) k x by (simp add: takeWhile_append dropWhile_append)
  qed
  then show ?case by simp
qed

lemma sbuf_flush_ok:
  assumes ok: "sbuf_ok Q st"
  shows "\<exists>st'. sbuf_flush q st = (int (length (dropWhile IsEol (qbytes st q))), st') \<and> sbuf_ok Q st' \<and> shares st' = shares st \<and>
           (\<forall>p. qbytes st' p = (if p = q then dropWhile IsEol (qbytes st q) else qbytes st p))"
proof (cases "q_length (sbufs st q) = 0")
  case True
  then have "qbytes st q = []" using sbuf_ok_D(5) [OF ok, of q] by (simp add: qbytes_def)
  with True ok show ?thesis by (auto simp: sbuf_flush_def)
next
  case False
  note D = sbuf_ok_D [OF ok]
  have e: "\<forall>u\<in>set (users_of st q). user_bytes st u \<noteq> []" using D(3) by (simp add: no_empty_def)
  obtain n us' st' where f: "flush_loop (users_of st q) st = (n, us', st')" by (cases "flush_loop (users_of st q) st")
  have r: "n = length (takeWhile IsEol (qbytes st q))" "removed Q q (users_of st) st us' st'"
    "concat (map (user_bytes st) us') = dropWhile IsEol (qbytes st q)" "\<forall>u\<in>set us'. user_bytes st u \<noteq> []"
    using flush_loop_ok [OF D(1,2) refl e f] by (simp_all add: qbytes_def)
  let ?g = "\<lambda>sb. \<lparr>q_length = q_length sb - int n, q_users = us'\<rparr>"
  have "length (qbytes st q) = n + length (dropWhile IsEol (qbytes st q))"
    by (metis r(1) takeWhile_dropWhile_id length_append)
  then have len: "q_length (sbufs st q) - int n = int (length (dropWhile IsEol (qbytes st q)))" by (simp add: D(4))
  have s: "sbufs st' = sbufs st" using r(2) by (simp add: removed_def)
  have "sbuf_flush q st = (int (length (dropWhile IsEol (qbytes st q))), set_queue q ?g st')"
    using False len by (simp add: sbuf_flush_def f s)
  with removed_queue [OF ok r(2,4), where g = ?g] len show ?thesis by (simp add: r(3))
qed

text \<open>What a call of \<open>sbuf_getmsg\<close> finds in the bytes of a queue.\<close>

definition msg_scan :: "nat \<Rightarrow> cstr \<Rightarrow> cstr \<times> bool" where
  "msg_scan n s = (let line = takeWhile (\<lambda>c. \<not> IsEol c) (take n s) in (line, length line < length (take n s)))"

lemma msg_scan_append:
  "msg_scan n (a @ b) =
     (let line = takeWhile (\<lambda>c. \<not> IsEol c) (take n a) in
      if length line < length (take n a) then (line, True)
      else (let (more, found) = msg_scan (n - length line) b in (line @ more, found)))"
proof (cases "length (takeWhile (\<lambda>c. \<not> IsEol c) (take n a)) < length (take n a)")
  case True
  then obtain x where "x \<in> set (take n a)" "IsEol x" by (metis less_irrefl takeWhile_eq_all_conv)
  with True show ?thesis
    by (auto simp: msg_scan_def Let_def takeWhile_append1 [of x] intro: trans_less_add1)
next
  case False
  then have all: "takeWhile (\<lambda>c. \<not> IsEol c) (take n a) = take n a"
    by (metis length_takeWhile_le le_neq_implies_less takeWhile_eq_take take_all_iff order_refl)
  then have "\<And>x. x \<in> set (take n a) \<Longrightarrow> \<not> IsEol x" by (metis takeWhile_eq_all_conv)
  then have "takeWhile (\<lambda>c. \<not> IsEol c) (take n a @ r) = take n a @ takeWhile (\<lambda>c. \<not> IsEol c) r" for r
    by (simp add: takeWhile_append2)
  moreover have "take (n - length a) b = take (n - min (length a) n) b" by (simp add: min_def)
  moreover have "min (length a) n < length a \<Longrightarrow> \<not> min (length a) n < n" by simp
  ultimately show ?thesis by (auto simp: msg_scan_def Let_def all)
qed

lemma getmsg_loop_scan: "getmsg_loop n us st = msg_scan n (concat (map (user_bytes st) us))"
  by (induction n us st rule: getmsg_loop.induct) (auto simp: msg_scan_append Let_def, auto simp: msg_scan_def)

lemma sbuf_getmsg_ok:
  assumes ok: "sbuf_ok Q st" and s_def: "s = dropWhile IsEol (qbytes st q)"
  shows "\<exists>st'. sbuf_getmsg q n st = Some (if snd (msg_scan n s) then int (length (fst (msg_scan n s))) else 0, fst (msg_scan n s), st') \<and>
           sbuf_ok Q st' \<and> shares st' = shares st \<and>
           (\<forall>p. qbytes st' p = (if p = q then (if snd (msg_scan n s) then dropWhile IsEol (drop (length (fst (msg_scan n s))) s) else s)
                                else qbytes st p))"
proof -
  obtain st1 where st1: "sbuf_flush q st = (int (length s), st1)" "sbuf_ok Q st1" "shares st1 = shares st"
    "\<And>p. qbytes st1 p = (if p = q then s else qbytes st p)"
    using sbuf_flush_ok [OF ok, of q] unfolding s_def by blast
  have scan: "getmsg_loop n (users_of st1 q) st1 = msg_scan n s"
    using st1(4) [of q] by (simp add: getmsg_loop_scan qbytes_def)
  show ?thesis
  proof (cases "snd (msg_scan n s)")
    case False
    have "msg_scan n [] = ([], False)" by (simp add: msg_scan_def)
    with False st1 scan show ?thesis by (cases "msg_scan n s") (auto simp: sbuf_getmsg_def)
  next
    case True
    then have ne: "s \<noteq> []" by (auto simp: msg_scan_def)
    obtain line where line: "msg_scan n s = (line, True)" using True by (cases "msg_scan n s") auto
    obtain st2 where st2: "sbuf_delete q (length line) st1 = Some (1, st2)" "sbuf_ok Q st2" "shares st2 = shares st1"
      "\<And>p. qbytes st2 p = (if p = q then drop (length line) (qbytes st1 q) else qbytes st1 p)"
      using sbuf_delete_ok [OF st1(2), of q "length line"] by blast
    obtain k st3 where st3: "sbuf_flush q st2 = (k, st3)" "sbuf_ok Q st3" "shares st3 = shares st2"
      "\<And>p. qbytes st3 p = (if p = q then dropWhile IsEol (qbytes st2 q) else qbytes st2 p)"
      using sbuf_flush_ok [OF st2(2), of q] by blast
    have "sbuf_getmsg q n st = Some (int (length line), line, st3)"
      using ne by (simp add: sbuf_getmsg_def st1(1) scan line st2(1) st3(1))
    with st3 st2 st1 line show ?thesis by simp
  qed
qed

lemma sbuf_map_ok:
  assumes ok: "sbuf_ok Q st"
  shows "qbytes st q = [] \<Longrightarrow> sbuf_map q st = Some None"
    and "qbytes st q \<noteq> [] \<Longrightarrow> \<exists>chunk rest. sbuf_map q st = Some (Some chunk) \<and> chunk \<noteq> [] \<and> qbytes st q = chunk @ rest"
proof -
  note D = sbuf_ok_D [OF ok]
  show "sbuf_map q st = Some None" if "qbytes st q = []" using that D(4) [of q] by (simp add: sbuf_map_def)
  assume "qbytes st q \<noteq> []"
  then have l: "q_length (sbufs st q) \<noteq> 0" using D(4) [of q] by simp
  then obtain u us where u: "users_of st q = u # us" using D(5) [of q] by (cases "users_of st q") auto
  moreover have "user_bytes st u \<noteq> []" using D(3) u by (metis no_empty_def list.set_intros(1))
  ultimately show "\<exists>chunk rest. sbuf_map q st = Some (Some chunk) \<and> chunk \<noteq> [] \<and> qbytes st q = chunk @ rest"
    using l by (simp add: sbuf_map_def qbytes_def)
qed

lemma get_loop_ok:
  assumes "sbuf_ok Q st"
  shows "\<exists>st'. get_loop q n st = Some (take n (qbytes st q), st') \<and> sbuf_ok Q st' \<and> shares st' = shares st \<and>
           (\<forall>p. qbytes st' p = (if p = q then drop n (qbytes st q) else qbytes st p))"
  using assms
proof (induction n arbitrary: st rule: less_induct)
  case (less n)
  consider "n = 0" | "n > 0" "qbytes st q = []" | "n > 0" "qbytes st q \<noteq> []" by blast
  then show ?case
  proof cases
    case 1
    with less.prems show ?thesis by (auto simp: get_loop.simps [of q 0])
  next
    case 2
    with less.prems sbuf_map_ok(1) [OF less.prems 2(2)] show ?thesis by (auto simp: get_loop.simps [of q n])
  next
    case 3
    then obtain chunk rest where c: "sbuf_map q st = Some (Some chunk)" "chunk \<noteq> []" "qbytes st q = chunk @ rest"
      using sbuf_map_ok(2) [OF less.prems] by blast
    let ?c = "take n chunk"
    have ne: "?c \<noteq> []" and lt: "n - length ?c < n" using 3(1) c(2) by auto
    obtain st1 where st1: "sbuf_delete q (length ?c) st = Some (1, st1)" "sbuf_ok Q st1" "shares st1 = shares st"
      "\<And>p. qbytes st1 p = (if p = q then drop (length ?c) (qbytes st q) else qbytes st p)"
      using sbuf_delete_ok [OF less.prems, of q "length ?c"] by blast
    obtain st' where st': "get_loop q (n - length ?c) st1 = Some (take (n - length ?c) (qbytes st1 q), st')" "sbuf_ok Q st'"
      "shares st' = shares st1"
      "\<And>p. qbytes st' p = (if p = q then drop (n - length ?c) (qbytes st1 q) else qbytes st1 p)"
      using less.IH [OF lt st1(2)] by blast
    have "get_loop q n st = Some (?c @ take (n - length ?c) (qbytes st1 q), st')"
      using 3(1) ne by (subst get_loop.simps) (simp add: Let_def c(1) st1(1) st'(1) del: take_eq_Nil length_take)
    moreover have "?c @ take (n - length ?c) (qbytes st1 q) = take n (qbytes st q)"
      by (cases "n \<le> length chunk") (simp_all add: st1(4) c(3))
    moreover have "drop (n - length ?c) (qbytes st1 q) = drop n (qbytes st q)"
      by (cases "n \<le> length chunk") (simp_all add: st1(4) c(3))
    ultimately show ?thesis using st' st1 by simp
  qed
qed

lemma sbuf_get_ok:
  assumes ok: "sbuf_ok Q st"
  shows "\<exists>st'. sbuf_get q n st = Some (int (length (take n (qbytes st q))), take n (qbytes st q), st') \<and> sbuf_ok Q st' \<and>
           shares st' = shares st \<and> (\<forall>p. qbytes st' p = (if p = q then drop n (qbytes st q) else qbytes st p))"
proof (cases "q_length (sbufs st q) = 0")
  case True
  then have "qbytes st q = []" using sbuf_ok_D(4) [OF ok, of q] by simp
  with True ok show ?thesis by (auto simp: sbuf_get_def)
next
  case False
  with get_loop_ok [OF ok, of q n] show ?thesis by (auto simp: sbuf_get_def)
qed

subsection \<open>Shared buffers reach every queue\<close>

lemma sbuf_ok_frame:
  assumes ok: "sbuf_ok Q st" and b: "buffers_ok {} Q (users_of st) st'" and s: "sbufs st' = sbufs st"
    and u: "sbufuser_used st' = sbufuser_used st" and d: "\<And>b. live st b \<Longrightarrow> bf_data (buf_at st' b) = bf_data (buf_at st b)"
  shows "sbuf_ok Q st'" and "\<And>p. qbytes st' p = qbytes st p"
proof -
  have ub: "user_bytes st' v = user_bytes st v" if "v \<in> set (users_of st p)" for v p
    using d [OF buffers_ok_user(1) [OF sbuf_ok_D(1) [OF ok] that]] by (simp add: user_bytes_def)
  show q: "qbytes st' p = qbytes st p" for p using ub [of _ p] by (auto simp: qbytes_def s intro!: arg_cong [where f = concat])
  show "sbuf_ok Q st'" using ok b u ub by (simp add: sbuf_ok_def s q users_ok_def)
qed

lemma begin_share_ok:
  assumes ok: "sbuf_ok Q st"
  shows "\<exists>s st1. sbuf_begin_share d st = Some (s, st1) \<and> sbuf_ok Q st1 \<and> shares st1 = insert s (shares st) \<and> s \<notin> shares st \<and>
           bf_refcount (buf_at st1 s) = 0 \<and>
           bf_data (buf_at st1 s) = take 510 d @ [CHR 0x0D, CHR 0x0A] \<and> (\<forall>p. qbytes st1 p = qbytes st p)"
proof -
  let ?d = "take 510 d @ [CHR 0x0D, CHR 0x0A]"
  obtain s st1 k where a: "sbuf_alloc (length (take 510 d) + 2) st = Some (s, st1)" "buf_at st1 s = new_buffer k"
    "length (take 510 d) + 2 \<le> k" and al: "allocated Q (users_of st) st s st1"
    using alloc_ok [OF sbuf_ok_D(1) [OF ok], of "length (take 510 d) + 2"] by (auto simp: min_def split: if_splits)
  let ?f = "\<lambda>b. b\<lparr>bf_data := ?d, bf_refcount := 0, bf_shared := True\<rparr>"
  have r: "sbuf_begin_share d st = Some (s, set_buf s ?f st1)"
    using a by (simp add: sbuf_begin_share_def new_buffer_def Let_def)
  have ok1: "buffers_ok {s} Q (users_of st) st1" and l: "\<And>c. live st1 c = (live st c \<or> c = s)" and dead: "\<not> live st s"
    and same: "\<And>c. live st c \<Longrightarrow> buf_at st1 c = buf_at st c" and f: "sbufs st1 = sbufs st" "sbufuser_used st1 = sbufuser_used st"
    using al by (auto simp: allocated_def)
  have h: "held Q (users_of st) s = 0" by (rule held_dead [OF sbuf_ok_D(1) [OF ok] dead])
  have b: "buffer_ok 0 (?f (buf_at st1 s))"
    using ok1 l [of s] a(2,3) h by (auto simp: buffers_ok_def buffer_ok_def new_buffer_def)
  have nos: "us_buf u \<noteq> s" if "u \<in> set (users_of st p)" for u p
    using buffers_ok_user(1) [OF sbuf_ok_D(1) [OF ok] that] dead by auto
  have "buffer_ok (held Q (users_of st) c) (buf_at (set_buf s ?f st1) c) \<and>
      (c \<in> {} \<or> bf_shared (buf_at (set_buf s ?f st1) c) \<or> held Q (users_of st) c > 0)" if "live st1 c" for c
    using ok1 that h b by (cases "c = s") (auto simp: buffers_ok_def)
  moreover have "live st1 (us_buf u) \<and> us_start u \<le> user_end (set_buf s ?f st1) u" if "u \<in> set (users_of st p)" for u p
    using buffers_ok_user(1,2) [OF ok1 that] nos [OF that] by (simp add: user_end_def)
  ultimately have "buffers_ok {} Q (users_of st) (set_buf s ?f st1)" using ok1 by (simp add: buffers_ok_def)
  moreover have "live st c \<Longrightarrow> bf_data (buf_at (set_buf s ?f st1) c) = bf_data (buf_at st c)" for c using same dead by auto
  ultimately have "sbuf_ok Q (set_buf s ?f st1)" "\<And>p. qbytes (set_buf s ?f st1) p = qbytes st p"
    using sbuf_ok_frame [OF ok, of "set_buf s ?f st1"] f by simp_all
  moreover have "shares (set_buf s ?f st1) = insert s (shares st)" using l same dead by (auto simp: shares_def)
  moreover have "s \<notin> shares st" using dead by (simp add: shares_def)
  ultimately show ?thesis using r by simp
qed

lemma put_share_ok:
  assumes ok: "sbuf_ok Q st" and q: "q \<in> Q" and s: "live st s" "bf_data (buf_at st s) \<noteq> []"
  shows "\<exists>st1. sbuf_put_share q (Some s) st = Some (1, st1) \<and> sbuf_ok Q st1 \<and> shares st1 = shares st \<and>
           buf_at st1 s = (buf_at st s)\<lparr>bf_refcount := bf_refcount (buf_at st s) + 1\<rparr> \<and>
           users_of st1 q = users_of st q @ [\<lparr>us_start = 0, us_buf = s\<rparr>] \<and>
           (\<forall>p. qbytes st1 p = (if p = q then qbytes st q @ bf_data (buf_at st s) else qbytes st p))"
proof -
  note D = sbuf_ok_D [OF ok]
  let ?inc = "\<lambda>b. b\<lparr>bf_refcount := bf_refcount b + 1\<rparr>"
  have "pools_ok (set_buf s ?inc st)" using D(1) by (simp add: buffers_ok_def)
  then obtain st1 where st1: "sbuf_user_alloc (set_buf s ?inc st) = Some st1" "pools_ok st1"
    "sbs_store st1 = sbs_store (set_buf s ?inc st)" "\<forall>c. live st1 c = live (set_buf s ?inc st) c"
    "sbufs st1 = sbufs st" "sbufuser_used st1 = sbufuser_used st + 1"
    using user_alloc [of "set_buf s ?inc st"] by auto
  let ?u = "\<lparr>us_start = 0, us_buf = s\<rparr>"
  let ?g = "\<lambda>sb. \<lparr>q_length = q_length sb + int (length (bf_data (buf_at st1 s))), q_users = q_users sb @ [?u]\<rparr>"
  have r: "sbuf_put_share q (Some s) st = Some (1, set_queue q ?g st1)"
    using D(5) [of q] by (simp add: sbuf_put_share_def st1(1))
  have data: "bf_data (buf_at st1 c) = bf_data (buf_at st c)" for c by (simp add: st1(3))
  have ub: "user_bytes st1 = user_bytes st" by (simp add: fun_eq_iff user_bytes_def data)
  have uu: "user_bytes st ?u = bf_data (buf_at st s)" by (simp add: user_bytes_def)
  have U: "users_of (set_queue q ?g st1) = (users_of st)(q := users_of st q @ [?u])" by (auto simp: st1(5))
  have "buffers_ok ({} - {s}) Q ((users_of st)(q := users_of st q @ [?u])) st1"
    by (rule add_user [OF D(1) q]) (use s st1 in \<open>auto simp: user_end_def\<close>)
  moreover have "users_ok Q ((users_of st)(q := users_of st q @ [?u])) st1"
    using D(1,2) st1(6) users_append [OF _ q, of "users_of st" ?u] by (simp add: users_ok_def buffers_ok_def)
  moreover have b: "qbytes (set_queue q ?g st1) p = (if p = q then qbytes st q @ bf_data (buf_at st s) else qbytes st p)" for p
    using uu by (simp add: qbytes_def ub st1(5))
  moreover have "q_length (sbufs (set_queue q ?g st1) p) = int (length (qbytes (set_queue q ?g st1) p))" for p
    using D(4) [of p] D(4) [of q] unfolding b by (simp add: st1(5) data)
  moreover have "user_bytes (set_queue q ?g st1) v \<noteq> []" if "v \<in> set (users_of (set_queue q ?g st1) p)" for v p
    using that D(3) s(2) uu by (auto simp: no_empty_def ub st1(5) split: if_splits)
  ultimately have "sbuf_ok Q (set_queue q ?g st1)"
    by (simp only: sbuf_ok_def U length_step_ok Diff_empty empty_Diff) simp
  moreover have "shares (set_queue q ?g st1) = shares st" using st1(3,4) by (auto simp: shares_def)
  ultimately show ?thesis using r b st1(3,5) by simp
qed

lemma end_share_ok:
  assumes ok: "sbuf_ok Q st" and s: "s \<in> shares st"
  shows "sbuf_ok Q (end_share (Some s) st)" and "shares (end_share (Some s) st) = shares st - {s}"
    and "\<And>p. qbytes (end_share (Some s) st) p = qbytes st p"
proof -
  let ?st = "end_share (Some s) st" and ?U = "users_of st"
  note D = sbuf_ok_D [OF ok]
  have ls: "live st s" using s by (simp add: shares_def)
  have bo: "buffer_ok (held Q ?U s) (buf_at st s)" and p: "pools_ok st" and fin: "finite Q"
    using D(1) ls by (auto simp: buffers_ok_def)
  define gone where "gone \<longleftrightarrow> held Q ?U s = 0"
  have l: "live ?st c = (live st c \<and> \<not> (gone \<and> c = s))" for c
    using bo by (auto simp: end_share_def sbuf_free_def Let_def live_def pooled_def gone_def buffer_ok_def set_buf_def)
  have p': "pools_ok ?st"
    using p bo ls by (auto simp: end_share_def sbuf_free_def Let_def pools_ok_def pooled_def live_def buffer_ok_def set_buf_def)
  have b: "buf_at ?st c = (if c = s then (buf_at st s)\<lparr>bf_shared := False\<rparr> else buf_at st c)" for c
    by (auto simp: end_share_def sbuf_free_def Let_def set_buf_def)
  have f: "sbufs ?st = sbufs st" "sbufuser_used ?st = sbufuser_used st"
    by (auto simp: end_share_def sbuf_free_def Let_def set_buf_def)
  have "buffer_ok (held Q ?U c) (buf_at ?st c) \<and> (c \<in> {} \<or> bf_shared (buf_at ?st c) \<or> held Q ?U c > 0)" if "live ?st c" for c
    using that D(1) by (cases "c = s") (auto simp: l b gone_def buffers_ok_def buffer_ok_def)
  moreover have "live ?st (us_buf u) \<and> us_start u \<le> user_end ?st u" if u: "u \<in> set (?U q)" for u q
  proof -
    have "held Q ?U (us_buf u) > 0" using buffers_ok_user(3) [OF D(1) u] fin u by (simp add: held_mem)
    with buffers_ok_user(1,2) [OF D(1) u] show ?thesis by (auto simp: l b gone_def user_end_def)
  qed
  ultimately have "buffers_ok {} Q ?U ?st" using D(1) p' by (auto simp: buffers_ok_def)
  from sbuf_ok_frame [OF ok this f] show "sbuf_ok Q ?st" "\<And>p. qbytes ?st p = qbytes st p" by (simp_all add: b)
  show "shares ?st = shares st - {s}" by (auto simp: shares_def l b)
qed

text \<open>A message to many clients, the way the functions of \<^verbatim>\<open>src/send.c\<close> use a shared buffer:
  begin, put into each queue, end.\<close>

fun put_shares :: "addr list \<Rightarrow> addr \<Rightarrow> sbuf_state \<Rightarrow> sbuf_state option" where
  "put_shares [] s st = Some st"
| "put_shares (q # qs) s st =
     (case sbuf_put_share q (Some s) st of None \<Rightarrow> None | Some (_, st1) \<Rightarrow> put_shares qs s st1)"

definition broadcast :: "cstr \<Rightarrow> addr list \<Rightarrow> sbuf_state \<Rightarrow> sbuf_state option" where
  "broadcast d qs st =
     (case sbuf_begin_share d st of
        None \<Rightarrow> None
      | Some (s, st1) \<Rightarrow> map_option (sbuf_end_share [Some s]) (put_shares qs s st1))"

lemma put_shares_ok:
  assumes "sbuf_ok Q st" and "set qs \<subseteq> Q" and "distinct qs" and "s \<in> shares st" and "bf_data (buf_at st s) = d" and "d \<noteq> []"
  shows "\<exists>st1. put_shares qs s st = Some st1 \<and> sbuf_ok Q st1 \<and> shares st1 = shares st \<and>
           (\<forall>p. qbytes st1 p = (if p \<in> set qs then qbytes st p @ d else qbytes st p))"
  using assms
proof (induction qs arbitrary: st)
  case (Cons q qs)
  then obtain st1 where st1: "sbuf_put_share q (Some s) st = Some (1, st1)" "sbuf_ok Q st1" "shares st1 = shares st"
    "bf_data (buf_at st1 s) = d" "\<And>p. qbytes st1 p = (if p = q then qbytes st q @ d else qbytes st p)"
    using put_share_ok [of Q st q s] by (fastforce simp: shares_def)
  obtain st2 where "put_shares qs s st1 = Some st2" "sbuf_ok Q st2" "shares st2 = shares st1"
    "\<forall>p. qbytes st2 p = (if p \<in> set qs then qbytes st1 p @ d else qbytes st1 p)"
    using Cons.IH [OF st1(2)] Cons.prems st1(3,4) by auto
  with st1 Cons.prems(3) show ?case by auto
qed simp

lemma broadcast_ok:
  assumes ok: "sbuf_ok Q st" and qs: "set qs \<subseteq> Q" "distinct qs"
  shows "\<exists>st'. broadcast d qs st = Some st' \<and> sbuf_ok Q st' \<and> shares st' = shares st \<and>
           (\<forall>p. qbytes st' p = (if p \<in> set qs then qbytes st p @ take 510 d @ [CHR 0x0D, CHR 0x0A] else qbytes st p))"
proof -
  obtain s st1 where st1: "sbuf_begin_share d st = Some (s, st1)" "sbuf_ok Q st1" "shares st1 = insert s (shares st)"
    "s \<notin> shares st" "bf_data (buf_at st1 s) = take 510 d @ [CHR 0x0D, CHR 0x0A]" "\<And>p. qbytes st1 p = qbytes st p"
    using begin_share_ok [OF ok, of d] by blast
  obtain st2 where st2: "put_shares qs s st1 = Some st2" "sbuf_ok Q st2" "shares st2 = shares st1"
    "\<And>p. qbytes st2 p = (if p \<in> set qs then qbytes st1 p @ take 510 d @ [CHR 0x0D, CHR 0x0A] else qbytes st1 p)"
    using put_shares_ok [OF st1(2) qs, of s] st1(3,5) by auto
  note e = end_share_ok [OF st2(2), of s]
  have "broadcast d qs st = Some (end_share (Some s) st2)" by (simp add: broadcast_def st1(1) st2(1) sbuf_end_share_def)
  moreover have "shares st2 - {s} = shares st" using st1(3,4) st2(3) by auto
  ultimately show ?thesis using e st1(3,6) st2(3,4) by simp
qed

subsection \<open>The queues as lists of bytes\<close>

text \<open>The specification: a list of bytes for each queue.\<close>

datatype sbuf_op =
    Put addr cstr
  | Broadcast cstr "addr list"
  | Delete addr nat
  | Get addr nat
  | Getmsg addr nat
  | Flush addr

definition sbuf_step :: "sbuf_op \<Rightarrow> sbuf_state \<Rightarrow> ((int \<times> cstr) \<times> sbuf_state) option" where
  "sbuf_step c st =
     (case c of
        Put q d \<Rightarrow> map_option (\<lambda>(r, st1). ((r, []), st1)) (sbuf_put q d st)
      | Broadcast d qs \<Rightarrow> map_option (\<lambda>st1. ((1, []), st1)) (broadcast d qs st)
      | Delete q n \<Rightarrow> map_option (\<lambda>(r, st1). ((r, []), st1)) (sbuf_delete q n st)
      | Get q n \<Rightarrow> map_option (\<lambda>(r, d, st1). ((r, d), st1)) (sbuf_get q n st)
      | Getmsg q n \<Rightarrow> map_option (\<lambda>(r, d, st1). ((r, d), st1)) (sbuf_getmsg q n st)
      | Flush q \<Rightarrow> (let (r, st1) = sbuf_flush q st in Some ((r, []), st1)))"

definition queue_step :: "sbuf_op \<Rightarrow> (addr \<Rightarrow> cstr) \<Rightarrow> (int \<times> cstr) \<times> (addr \<Rightarrow> cstr)" where
  "queue_step c f =
     (case c of
        Put q d \<Rightarrow> ((1, []), f(q := f q @ d))
      | Broadcast d qs \<Rightarrow> ((1, []), \<lambda>p. if p \<in> set qs then f p @ take 510 d @ [CHR 0x0D, CHR 0x0A] else f p)
      | Delete q n \<Rightarrow> ((1, []), f(q := drop n (f q)))
      | Get q n \<Rightarrow> ((int (length (take n (f q))), take n (f q)), f(q := drop n (f q)))
      | Getmsg q n \<Rightarrow>
          (let s = dropWhile IsEol (f q); (line, found) = msg_scan n s in
           if found then ((int (length line), line), f(q := dropWhile IsEol (drop (length line) s)))
           else ((0, line), f(q := s)))
      | Flush q \<Rightarrow> (let s = dropWhile IsEol (f q) in ((int (length s), []), f(q := s))))"

text \<open>The rules the callers have to keep; \<open>Broadcast\<close> is a step of its own.\<close>

definition sbuf_allowed :: "addr set \<Rightarrow> sbuf_op \<Rightarrow> bool" where
  "sbuf_allowed Q c \<longleftrightarrow>
     (case c of Put q d \<Rightarrow> q \<in> Q \<and> d \<noteq> [] | Broadcast d qs \<Rightarrow> set qs \<subseteq> Q \<and> distinct qs | _ \<Rightarrow> True)"

definition sbuf_idle :: "addr set \<Rightarrow> sbuf_state \<Rightarrow> bool" where
  "sbuf_idle Q st \<longleftrightarrow> sbuf_ok Q st \<and> shares st = {}"

lemma sbuf_step_refines:
  assumes "sbuf_idle Q st" and "sbuf_allowed Q c"
  shows "\<exists>st'. sbuf_step c st = Some (fst (queue_step c (qbytes st)), st') \<and> sbuf_idle Q st' \<and>
           qbytes st' = snd (queue_step c (qbytes st))"
proof -
  have ok: "sbuf_ok Q st" and sh: "shares st = {}" using assms(1) by (simp_all add: sbuf_idle_def)
  show ?thesis
  proof (cases c)
    case (Put q d)
    then have "q \<in> Q" "d \<noteq> []" using assms(2) by (simp_all add: sbuf_allowed_def)
    from sbuf_put_ok [OF ok this] show ?thesis
      by (auto simp: Put sbuf_step_def queue_step_def sbuf_idle_def sh fun_eq_iff)
  next
    case (Broadcast d qs)
    then have "set qs \<subseteq> Q" "distinct qs" using assms(2) by (simp_all add: sbuf_allowed_def)
    from broadcast_ok [OF ok this, of d] show ?thesis
      by (auto simp: Broadcast sbuf_step_def queue_step_def sbuf_idle_def sh fun_eq_iff)
  next
    case (Delete q n)
    from sbuf_delete_ok [OF ok, of q n] show ?thesis
      by (auto simp: Delete sbuf_step_def queue_step_def sbuf_idle_def sh fun_eq_iff)
  next
    case (Get q n)
    from sbuf_get_ok [OF ok, of q n] show ?thesis
      by (auto simp: Get sbuf_step_def queue_step_def sbuf_idle_def sh fun_eq_iff)
  next
    case (Getmsg q n)
    obtain line found where m: "msg_scan n (dropWhile IsEol (qbytes st q)) = (line, found)" by fastforce
    from sbuf_getmsg_ok [OF ok refl, where q = q and n = n] show ?thesis
      by (auto simp: Getmsg sbuf_step_def queue_step_def sbuf_idle_def sh fun_eq_iff m Let_def)
  next
    case (Flush q)
    from sbuf_flush_ok [OF ok, of q] show ?thesis
      by (auto simp: Flush sbuf_step_def queue_step_def sbuf_idle_def sh fun_eq_iff Let_def)
  qed
qed

interpretation sbq: op_refinement "sbuf_idle Q" qbytes "sbuf_allowed Q" sbuf_step queue_step for Q
  by unfold_locales (rule sbuf_step_refines)

lemma sbuf_start_ok: "finite Q \<Longrightarrow> buffers_ok {} Q (\<lambda>_. []) (sbuf_start mem)"
  by (simp add: buffers_ok_def pools_ok_def pooled_def live_def sbuf_start_def held_def)

lemma sbuf_init_ok:
  assumes "finite Q"
  shows "sbuf_idle Q (sbuf_init (sbuf_start mem))" and "qbytes (sbuf_init (sbuf_start mem)) = (\<lambda>_. [])"
proof -
  define s1 where "s1 = sbuf_allocblock_small INITIAL_SBUFS_SMALL (sbuf_start mem)"
  define s2 where "s2 = sbuf_allocblock_large INITIAL_SBUFS_LARGE s1"
  note a = allocblock_small [where n = INITIAL_SBUFS_SMALL, OF sbuf_start_ok [OF assms, of mem], folded s1_def]
  note b = allocblock_large [where n = INITIAL_SBUFS_LARGE, OF a(1), folded s2_def]
  let ?st = "sbuf_init (sbuf_start mem)"
  have st: "?st = sbuf_allocblock_users INITIAL_SBUFS_USERS s2" by (simp add: sbuf_init_def s1_def s2_def)
  have e: "sbufs ?st q = \<lparr>q_length = 0, q_users = []\<rparr>" for q
    unfolding st sbuf_allocblock_users_def using a(4) b(4) by (simp add: sbuf_start_def)
  then show q: "qbytes ?st = (\<lambda>_. [])" by (simp add: fun_eq_iff qbytes_def)
  have "\<not> live ?st c" for c
  proof -
    have "\<not> live s2 c" unfolding a(2) b(2) by (simp add: live_def sbuf_start_def)
    then show ?thesis unfolding st by (simp add: sbuf_allocblock_users_def live_def pooled_def)
  qed
  moreover have "pools_ok ?st" using b(1) unfolding st by (simp add: buffers_ok_def sbuf_allocblock_users_def pools_ok_def pooled_def)
  moreover have "sbufuser_used ?st = 0" unfolding st sbuf_allocblock_users_def using a(5) b(5) by (simp add: sbuf_start_def)
  ultimately show "sbuf_idle Q ?st"
    using assms by (simp add: sbuf_idle_def sbuf_ok_def buffers_ok_def users_ok_def shares_def e q)
qed

subsection \<open>Properties\<close>

text \<open>C5: for every sequence of writes, broadcasts, reads, deletions and flushes on the queues in
  \<open>Q\<close> that keeps the rules of \<open>sbuf_allowed\<close>, no call fails, every call returns
  what the same call on plain lists of bytes returns, and the queues hold the bytes of the lists; the other queues stay
  empty.  The rules: nothing empty is written (\<open>sbuf_put\<close> with length 0 can add a user without
  bytes), the queues of one broadcast are pairwise different, and a broadcast (\<open>sbuf_begin_share\<close>,
  \<open>sbuf_put_share\<close> for each queue, \<open>sbuf_end_share\<close>) is one step of the sequence, so that no other
  call comes in between.  None of this is tested by the code.\<close>

theorem sbuf_queues_refine_lists:
  assumes "finite Q" and "list_all (sbuf_allowed Q) cs"
  shows "\<exists>st'. run_ops sbuf_step cs (sbuf_init (sbuf_start mem)) = Some (fst (run_spec queue_step cs (\<lambda>_. [])), st') \<and>
           qbytes st' = snd (run_spec queue_step cs (\<lambda>_. []))"
  using sbq.run_refines [OF sbuf_init_ok(1) [OF assms(1)] assms(2), of mem] sbuf_init_ok(2) [OF assms(1), of mem] by auto

theorem sbuf_queues_refine_lists_witness:
  "\<exists>st'. run_ops sbuf_step [Broadcast ''hi'' [2, 3], Put 2 ''x'', Getmsg 2 512, Get 3 9, Get 2 9] (sbuf_init (sbuf_start (\<lambda>_. new_buffer 0))) =
     Some ([(1, []), (1, []), (2, ''hi''), (4, ''hi'' @ [CHR 0x0D, CHR 0x0A]), (1, ''x'')], st') \<and> qbytes st' 2 = []"
proof -
  have "list_all (sbuf_allowed {2, 3}) [Broadcast ''hi'' [2, 3], Put 2 ''x'', Getmsg 2 512, Get 3 9, Get 2 9]"
    by (simp add: sbuf_allowed_def)
  from sbuf_queues_refine_lists [OF _ this, of "\<lambda>_. new_buffer 0"] show ?thesis
    by (auto simp: queue_step_def msg_scan_def IsEol_def Let_def)
qed

lemma live_count:
  assumes "pools_ok st"
  shows "int (card {b. live st b}) = sbufsmall_used st + sbuflarge_used st"
proof -
  have p: "pooled st \<subseteq> {..<sbs_next st}" and d: "distinct (smallsbuf_pool st @ largesbuf_pool st)"
    using assms by (simp_all add: pools_ok_def)
  have "{b. live st b} = {..<sbs_next st} - pooled st" by (auto simp: live_def)
  then have "card {b. live st b} = sbs_next st - card (pooled st)"
    using card_Diff_subset [OF _ p] by (simp add: pooled_def)
  moreover have "card (pooled st) = length (smallsbuf_pool st) + length (largesbuf_pool st)"
    using distinct_card [OF d] by (simp add: pooled_def)
  moreover have "card (pooled st) \<le> sbs_next st" using card_mono [OF _ p] by simp
  ultimately show ?thesis using assms by (simp add: pools_ok_def of_nat_diff)
qed

text \<open>C25: no buffer and no user struct is lost or freed twice.  After any sequence of calls that
  keeps the same rules (\<open>sbuf_allowed\<close>: nothing empty is written, the queues of one broadcast are
  pairwise different, and a broadcast is one step, with no other call in between) the pools
  hold no address twice, the counters are exactly the numbers of buffers and user structs in use, a
  buffer in use is held by as many users as its reference count says and by at least one, and
  nothing in a pool is held by a queue.\<close>

theorem sbuf_no_leak:
  assumes "finite Q" and "list_all (sbuf_allowed Q) cs"
  shows "\<exists>rs st. run_ops sbuf_step cs (sbuf_init (sbuf_start mem)) = Some (rs, st) \<and>
           distinct (smallsbuf_pool st @ largesbuf_pool st) \<and>
           sbufsmall_used st + sbuflarge_used st = int (card {b. live st b}) \<and>
           sbufuser_used st = int (\<Sum>q\<in>Q. length (users_of st q)) \<and>
           (\<forall>b. live st b \<longrightarrow> bf_refcount (buf_at st b) = int (held Q (users_of st) b) \<and> 0 < held Q (users_of st) b) \<and>
           (\<forall>b. \<not> live st b \<longrightarrow> held Q (users_of st) b = 0)"
proof -
  obtain rs st where r: "run_ops sbuf_step cs (sbuf_init (sbuf_start mem)) = Some (rs, st)" and i: "sbuf_idle Q st"
    using sbq.run_refines [OF sbuf_init_ok(1) [OF assms(1)] assms(2), of mem] by blast
  then have D: "buffers_ok {} Q (users_of st) st" "users_ok Q (users_of st) st" and p: "pools_ok st"
    by (simp_all add: sbuf_idle_def sbuf_ok_def buffers_ok_def)
  have "bf_refcount (buf_at st b) = int (held Q (users_of st) b) \<and> 0 < held Q (users_of st) b" if "live st b" for b
    using that D(1) i by (auto simp: buffers_ok_def buffer_ok_def sbuf_idle_def shares_def)
  with r p D live_count [OF p] held_dead [OF D(1)] show ?thesis by (simp add: pools_ok_def users_ok_def)
qed

theorem sbuf_no_leak_witness:
  "\<exists>rs st. run_ops sbuf_step [Put 2 ''x'', Broadcast ''hi'' [2, 3], Delete 2 4] (sbuf_init (sbuf_start (\<lambda>_. new_buffer 0))) = Some (rs, st) \<and>
     sbufsmall_used st + sbuflarge_used st = int (card {b. live st b})"
proof -
  have "list_all (sbuf_allowed {2, 3}) [Put 2 ''x'', Broadcast ''hi'' [2, 3], Delete 2 4]" by (simp add: sbuf_allowed_def)
  from sbuf_no_leak [OF _ this, of "\<lambda>_. new_buffer 0"] show ?thesis by blast
qed

text \<open>C37: a message that is put into a queue between two uses of a shared buffer goes to the other
  receivers as well.  After \<open>sbuf_begin_share\<close> and one \<open>sbuf_put_share\<close> the buffer has a single
  user, and \<open>sbuf_put\<close> on that queue writes behind the shared text; every later
  \<open>sbuf_put_share\<close> then hands out both texts.\<close>

theorem shared_buffer_spill:
  assumes ok: "sbuf_ok Q st" and q: "q1 \<in> Q" "q2 \<in> Q" "q1 \<noteq> q2" and x: "x \<noteq> []" "length d + 2 + length x \<le> 256"
  shows "\<exists>s st1 st2 st3 st4. sbuf_begin_share d st = Some (s, st1) \<and> sbuf_put_share q1 (Some s) st1 = Some (1, st2) \<and>
           sbuf_put q1 x st2 = Some (1, st3) \<and> sbuf_put_share q2 (Some s) st3 = Some (1, st4) \<and>
           qbytes st4 q2 = qbytes st q2 @ d @ [CHR 0x0D, CHR 0x0A] @ x"
proof -
  let ?d = "take 510 d @ [CHR 0x0D, CHR 0x0A]"
  obtain s st1 where st1: "sbuf_begin_share d st = Some (s, st1)" "sbuf_ok Q st1" "shares st1 = insert s (shares st)"
    "bf_refcount (buf_at st1 s) = 0" "bf_data (buf_at st1 s) = ?d" "\<And>p. qbytes st1 p = qbytes st p"
    using begin_share_ok [OF ok, of d] by blast
  have l1: "live st1 s" using st1(3) by (auto simp: shares_def)
  obtain st2 where st2: "sbuf_put_share q1 (Some s) st1 = Some (1, st2)" "sbuf_ok Q st2" "shares st2 = shares st1"
    "buf_at st2 s = (buf_at st1 s)\<lparr>bf_refcount := bf_refcount (buf_at st1 s) + 1\<rparr>"
    "users_of st2 q1 = users_of st1 q1 @ [\<lparr>us_start = 0, us_buf = s\<rparr>]"
    "\<And>p. qbytes st2 p = (if p = q1 then qbytes st1 q1 @ ?d else qbytes st1 p)"
    using put_share_ok [OF st1(2) q(1) l1] st1(5) by auto
  have l2: "live st2 s" using st1(3) st2(3) by (auto simp: shares_def)
  then have "buffer_ok (held Q (users_of st2) s) (buf_at st2 s)" using sbuf_ok_D(1) [OF st2(2)] by (auto simp: buffers_ok_def)
  then have "256 \<le> bf_size (buf_at st2 s)" by (auto simp: buffer_ok_def sbuf_consts)
  then have room: "length x \<le> tail_room q1 st2" using x(2) st1(5) st2(4,5) by (simp add: tail_room_def min_def)
  define st3 where "st3 = put_fill q1 x (set_queue q1 (\<lambda>sb. sb\<lparr>q_length := q_length sb + int (length x)\<rparr>) st2)"
  have r3: "sbuf_put q1 x st2 = Some (1, st3)"
    using x sbuf_ok_D(5) [OF st2(2), of q1] st2(4,5) st1(4) room
    by (simp add: sbuf_put_def st3_def tail_room_def put_loop.simps [of q1 "[]"])
  obtain st3' where "sbuf_put q1 x st2 = Some (1, st3')" "sbuf_ok Q st3'" "shares st3' = shares st2"
    "\<And>p. qbytes st3' p = (if p = q1 then qbytes st2 q1 @ x else qbytes st2 p)"
    using sbuf_put_ok [OF st2(2) q(1) x(1)] by auto
  with r3 have st3: "sbuf_ok Q st3" "shares st3 = shares st2" "qbytes st3 q2 = qbytes st2 q2" using q(3) by auto
  have d3: "bf_data (buf_at st3 s) = ?d @ x"
    using st2(4,5) st1(5) room by (simp add: st3_def put_fill_def tail_room_def)
  have l3: "live st3 s" using st1(3) st2(3) st3(2) by (auto simp: shares_def)
  obtain st4 where st4: "sbuf_put_share q2 (Some s) st3 = Some (1, st4)" "qbytes st4 q2 = qbytes st3 q2 @ ?d @ x"
    using put_share_ok [OF st3(1) q(2) l3] d3 x(1) by auto
  have "qbytes st4 q2 = qbytes st q2 @ d @ [CHR 0x0D, CHR 0x0A] @ x"
    using st4(2) st3(3) st2(6) [of q2] st1(6) q(3) x(2) by simp
  with st1(1) st2(1) r3 st4(1) show ?thesis by blast
qed

theorem shared_buffer_spill_witness:
  "\<exists>s st1 st2 st3 st4. sbuf_begin_share ''public'' (sbuf_init (sbuf_start (\<lambda>_. new_buffer 0))) = Some (s, st1) \<and>
     sbuf_put_share 2 (Some s) st1 = Some (1, st2) \<and> sbuf_put 2 ''secret'' st2 = Some (1, st3) \<and>
     sbuf_put_share 3 (Some s) st3 = Some (1, st4) \<and> qbytes st4 3 = ''public'' @ [CHR 0x0D, CHR 0x0A] @ ''secret''"
proof -
  have "sbuf_ok {2, 3} (sbuf_init (sbuf_start (\<lambda>_. new_buffer 0)))"
    using sbuf_init_ok(1) [of "{2, 3}"] by (simp add: sbuf_idle_def)
  from shared_buffer_spill [OF this, of 2 3 "''secret''" "''public''"] sbuf_init_ok(2) [of "{}" "\<lambda>_. new_buffer 0"]
  show ?thesis by simp
qed

end
