(* ===== verification/Msg_Tree.thy ===== *)
theory Msg_Tree
  imports Match "HOL-Library.List_Lexorder" "HOL-Library.Char_ord"
begin

section \<open>The command table and its prefix tree (src/include/msg.h, src/src/parse.c)\<close>

text \<open>
  \<open>msgtab\<close> is the table of commands for the configuration the source ships
  (\<^verbatim>\<open>TOYS\<close>, \<^verbatim>\<open>DCCALLOW\<close> and \<^verbatim>\<open>IRCOP_LIST\<close> set, \<^verbatim>\<open>STRICT_LIST\<close>
  not); a handler is named by its C function.  \<open>init_tree_parse\<close> sorts the table and builds a
  prefix tree, in which \<open>tree_parse\<close> looks up a command.  A pointer into the sorted table is the
  rest of the table from there on; the empty list is the entry with the null command.
\<close>

definition MAXPARA :: nat where "MAXPARA = 15"
definition MF_UNREG :: u32 where "MF_UNREG = 0x0001"
definition MF_RIDLE :: u32 where "MF_RIDLE = 0x0002"
definition MF_ALIAS :: u32 where "MF_ALIAS = 0x0004"

record Message =
  m_cmd :: cstr
  m_func :: cstr
  m_parameters :: nat
  m_flags :: u32
  m_aliasidx :: nat

definition Msg :: "cstr \<Rightarrow> cstr \<Rightarrow> nat \<Rightarrow> u32 \<Rightarrow> nat \<Rightarrow> Message" where
  "Msg c f n fl i = \<lparr>m_cmd = c, m_func = f, m_parameters = n, m_flags = fl, m_aliasidx = i\<rparr>"

definition msgtab :: "Message list" where
  "msgtab =
    [Msg ''PRIVMSG'' ''m_private'' MAXPARA MF_RIDLE 0,
     Msg ''NICK'' ''m_nick'' MAXPARA MF_UNREG 0,
     Msg ''NOTICE'' ''m_notice'' MAXPARA 0 0,
     Msg ''JOIN'' ''m_join'' MAXPARA 0 0,
     Msg ''MODE'' ''m_mode'' MAXPARA 0 0,
     Msg ''SAMODE'' ''m_samode'' MAXPARA 0 0,
     Msg ''SAJOIN'' ''m_sajoin'' MAXPARA 0 0,
     Msg ''QUIT'' ''m_quit'' MAXPARA MF_UNREG 0,
     Msg ''PART'' ''m_part'' MAXPARA 0 0,
     Msg ''TOPIC'' ''m_topic'' MAXPARA 0 0,
     Msg ''INVITE'' ''m_invite'' MAXPARA 0 0,
     Msg ''KICK'' ''m_kick'' MAXPARA 0 0,
     Msg ''WALLOPS'' ''m_wallops'' MAXPARA 0 0,
     Msg ''LOCOPS'' ''m_locops'' MAXPARA 0 0,
     Msg ''PONG'' ''m_pong'' MAXPARA 0 0,
     Msg ''PING'' ''m_ping'' MAXPARA 0 0,
     Msg ''ERROR'' ''m_error'' MAXPARA MF_UNREG 0,
     Msg ''KILL'' ''m_kill'' MAXPARA 0 0,
     Msg ''USER'' ''m_user'' MAXPARA MF_UNREG 0,
     Msg ''AWAY'' ''m_away'' MAXPARA 0 0,
     Msg ''ISON'' ''m_ison'' 1 0 0,
     Msg ''SERVER'' ''m_server'' MAXPARA MF_UNREG 0,
     Msg ''SQUIT'' ''m_squit'' MAXPARA 0 0,
     Msg ''WHOIS'' ''m_whois'' MAXPARA 0 0,
     Msg ''WHO'' ''m_who'' MAXPARA 0 0,
     Msg ''WHOWAS'' ''m_whowas'' MAXPARA 0 0,
     Msg ''LIST'' ''m_list'' MAXPARA 0 0,
     Msg ''NAMES'' ''m_names'' MAXPARA 0 0,
     Msg ''USERHOST'' ''m_userhost'' 1 0 0,
     Msg ''USERIP'' ''m_userip'' 1 0 0,
     Msg ''TRACE'' ''m_trace'' MAXPARA 0 0,
     Msg ''PASS'' ''m_pass'' MAXPARA MF_UNREG 0,
     Msg ''LUSERS'' ''m_lusers'' MAXPARA 0 0,
     Msg ''TIME'' ''m_time'' MAXPARA 0 0,
     Msg ''OPER'' ''m_oper'' MAXPARA 0 0,
     Msg ''CONNECT'' ''m_connect'' MAXPARA 0 0,
     Msg ''VERSION'' ''m_version'' MAXPARA MF_UNREG 0,
     Msg ''STATS'' ''m_stats'' MAXPARA 0 0,
     Msg ''LINKS'' ''m_links'' MAXPARA 0 0,
     Msg ''ADMIN'' ''m_admin'' MAXPARA MF_UNREG 0,
     Msg ''USERS'' ''m_users'' MAXPARA 0 0,
     Msg ''HELP'' ''m_help'' MAXPARA 0 0,
     Msg ''INFO'' ''m_info'' MAXPARA 0 0,
     Msg ''DALINFO'' ''m_dalinfo'' MAXPARA 0 0,
     Msg ''SOLIDINFO'' ''m_solidinfo'' MAXPARA 0 0,
     Msg ''MOTD'' ''m_motd'' MAXPARA 0 0,
     Msg ''SVINFO'' ''m_svinfo'' MAXPARA MF_UNREG 0,
     Msg ''SJOIN'' ''m_sjoin'' MAXPARA 0 0,
     Msg ''GLOBOPS'' ''m_globops'' MAXPARA 0 0,
     Msg ''CHATOPS'' ''m_chatops'' MAXPARA 0 0,
     Msg ''GOPER'' ''m_goper'' MAXPARA 0 0,
     Msg ''GNOTICE'' ''m_gnotice'' MAXPARA 0 0,
     Msg ''CLOSE'' ''m_close'' MAXPARA 0 0,
     Msg ''KLINE'' ''m_kline'' MAXPARA 0 0,
     Msg ''UNKLINE'' ''m_unkline'' MAXPARA 0 0,
     Msg ''HASH'' ''m_hash'' MAXPARA 0 0,
     Msg ''DNS'' ''m_dns'' MAXPARA 0 0,
     Msg ''REHASH'' ''m_rehash'' MAXPARA 0 0,
     Msg ''RESTART'' ''m_restart'' MAXPARA 0 0,
     Msg ''DIE'' ''m_die'' MAXPARA 0 0,
     Msg ''SET'' ''m_set'' MAXPARA 0 0,
     Msg ''CHANSERV'' ''m_aliased'' 1 MF_ALIAS 1,
     Msg ''NICKSERV'' ''m_aliased'' 1 MF_ALIAS 0,
     Msg ''MEMOSERV'' ''m_aliased'' 1 MF_ALIAS 2,
     Msg ''ROOTSERV'' ''m_aliased'' 1 MF_ALIAS 3,
     Msg ''OPERSERV'' ''m_aliased'' 1 MF_ALIAS 4,
     Msg ''STATSERV'' ''m_aliased'' 1 MF_ALIAS 5,
     Msg ''HELPSERV'' ''m_aliased'' 1 MF_ALIAS 6,
     Msg ''BOTSERV'' ''m_aliased'' 1 MF_ALIAS 7,
     Msg ''DENORA'' ''m_aliased'' 1 MF_ALIAS 8,
     Msg ''SERVICES'' ''m_services'' 1 0 0,
     Msg ''IDENTIFY'' ''m_identify'' 1 0 0,
     Msg ''SVSNICK'' ''m_svsnick'' MAXPARA 0 0,
     Msg ''SVSKILL'' ''m_svskill'' MAXPARA 0 0,
     Msg ''SVSMODE'' ''m_svsmode'' MAXPARA 0 0,
     Msg ''SVSHOLD'' ''m_svshold'' MAXPARA 0 0,
     Msg ''AKILL'' ''m_akill'' MAXPARA 0 0,
     Msg ''RAKILL'' ''m_rakill'' MAXPARA 0 0,
     Msg ''SILENCE'' ''m_silence'' MAXPARA 0 0,
     Msg ''WATCH'' ''m_watch'' 1 0 0,
     Msg ''DCCALLOW'' ''m_dccallow'' 1 0 0,
     Msg ''SQLINE'' ''m_sqline'' MAXPARA 0 0,
     Msg ''UNSQLINE'' ''m_unsqline'' MAXPARA 0 0,
     Msg ''CAPAB'' ''m_capab'' MAXPARA MF_UNREG 0,
     Msg ''BURST'' ''m_burst'' MAXPARA 0 0,
     Msg ''SGLINE'' ''m_sgline'' MAXPARA 0 0,
     Msg ''UNSGLINE'' ''m_unsgline'' MAXPARA 0 0,
     Msg ''DKEY'' ''m_dkey'' MAXPARA MF_UNREG 0,
     Msg ''NS'' ''m_aliased'' 1 MF_ALIAS 0,
     Msg ''CS'' ''m_aliased'' 1 MF_ALIAS 1,
     Msg ''MS'' ''m_aliased'' 1 MF_ALIAS 2,
     Msg ''RS'' ''m_aliased'' 1 MF_ALIAS 3,
     Msg ''OS'' ''m_aliased'' 1 MF_ALIAS 4,
     Msg ''SS'' ''m_aliased'' 1 MF_ALIAS 5,
     Msg ''HS'' ''m_aliased'' 1 MF_ALIAS 6,
     Msg ''BS'' ''m_aliased'' 1 MF_ALIAS 7,
     Msg ''DS'' ''m_aliased'' 1 MF_ALIAS 8,
     Msg ''RESYNCH'' ''m_resynch'' MAXPARA 0 0,
     Msg ''MODULE'' ''m_module'' MAXPARA 0 0,
     Msg ''RWHO'' ''m_rwho'' MAXPARA 0 0,
     Msg ''SVHOST'' ''m_svhost'' MAXPARA 0 0,
     Msg ''SETIDENT'' ''m_setident'' MAXPARA 0 0,
     Msg ''SVIDENT'' ''m_svident'' MAXPARA 0 0,
     Msg ''MAP'' ''m_map'' MAXPARA 0 0,
     Msg ''SHUN'' ''m_shun'' MAXPARA 0 0,
     Msg ''UNSHUN'' ''m_unshun'' MAXPARA 0 0,
     Msg ''GLINE'' ''m_gline'' MAXPARA 0 0,
     Msg ''UNGLINE'' ''m_ungline'' MAXPARA 0 0,
     Msg ''MONITOR'' ''m_monitor'' MAXPARA 0 0,
     Msg ''NORMAL'' ''m_normal'' MAXPARA 0 0,
     Msg ''CONOPS'' ''m_conops'' MAXPARA 0 0,
     Msg ''SVSCLONE'' ''m_svsclone'' MAXPARA 0 0,
     Msg ''CHANKILL'' ''m_chankill'' MAXPARA 0 0,
     Msg ''PUT'' ''m_put'' 2 MF_UNREG 0,
     Msg ''POST'' ''m_post'' 2 MF_UNREG 0,
     Msg ''LUSERSLOCK'' ''m_luserslock'' MAXPARA 0 0,
     Msg ''LINKSCONTROL'' ''m_linkscontrol'' MAXPARA 0 0,
     Msg ''IRCOPS'' ''m_ircops'' MAXPARA 0 0]"

text \<open>
  \<^verbatim>\<open>final\<close> of a node is null, the value 1, or the rest of the only command below it.
\<close>

datatype final = NoFinal | Here | Rest cstr
datatype msg_tree = MTree final "Message option" "msg_tree option list"

definition has_prefix :: "cstr \<Rightarrow> Message \<Rightarrow> bool" where
  "has_prefix prefix m \<longleftrightarrow> take (length prefix) (m_cmd m) = prefix"

definition LETTERS :: "char list" where
  "LETTERS = map char_of [65..<91::nat]"

text \<open>The loop over the letters of an ambiguous node; \<open>rec\<close> is the recursive call.\<close>

fun tree_letters ::
  "(cstr \<Rightarrow> Message list \<Rightarrow> (msg_tree \<times> Message list) option) \<Rightarrow> cstr \<Rightarrow> char list \<Rightarrow> Message list \<Rightarrow>
   (msg_tree option list \<times> Message list) option" where
  "tree_letters rec prefix [] mptr = Some ([], mptr)"
| "tree_letters rec prefix (c # cs) mptr =
     (case mptr of
        [] \<Rightarrow> None
      | m # _ \<Rightarrow>
          if length prefix < length (m_cmd m) \<and> m_cmd m ! length prefix = c
          then (case rec (prefix @ [c]) mptr of
                  None \<Rightarrow> None
                | Some (t, mptr1) \<Rightarrow>
                    if mptr1 = [] \<or> \<not> has_prefix prefix (hd mptr1)
                    then Some (Some t # replicate (length cs) None, mptr1)
                    else map_option (\<lambda>(ps, r). (Some t # ps, r)) (tree_letters rec prefix cs mptr1))
          else map_option (\<lambda>(ps, r). (None # ps, r)) (tree_letters rec prefix cs mptr))"

text \<open>
  The first argument is the room left in the buffer \<^verbatim>\<open>newpref[64]\<close>; a prefix that does not fit
  would be written behind it (\<open>None\<close>).
\<close>

primrec do_msg_tree :: "nat \<Rightarrow> cstr \<Rightarrow> Message list \<Rightarrow> (msg_tree \<times> Message list) option" where
  "do_msg_tree 0 = (\<lambda>prefix mptr. None)"
| "do_msg_tree (Suc n) = (\<lambda>prefix mptr.
     case mptr of
       [] \<Rightarrow> None
     | m # rest \<Rightarrow>
         if prefix = [] \<or> has_prefix prefix m then
           if rest = [] \<or> prefix \<noteq> [] \<and> \<not> has_prefix prefix (hd rest)
           then Some (MTree (Rest (drop (length prefix) (m_cmd m))) (Some m) (replicate 26 None), rest)
           else if mycmp (m_cmd m) prefix = 0
           then map_option (\<lambda>(ps, r). (MTree Here (Some m) ps, r)) (tree_letters (do_msg_tree n) prefix LETTERS rest)
           else map_option (\<lambda>(ps, r). (MTree NoFinal None ps, r)) (tree_letters (do_msg_tree n) prefix LETTERS mptr)
         else None)"

text \<open>\<^verbatim>\<open>qsort\<close> with \<open>strcmp\<close> on the names, then the tree; \<open>None\<close> is
  \<^verbatim>\<open>exit(1)\<close> on a bad entry.\<close>

definition init_tree_parse :: "Message list \<Rightarrow> msg_tree option" where
  "init_tree_parse tab =
     (case do_msg_tree 64 [] (sort_key m_cmd tab) of
        Some (t, []) \<Rightarrow> Some t
      | _ \<Rightarrow> None)"

definition final_hit :: "final \<Rightarrow> cstr \<Rightarrow> bool" where
  "final_hit f cmd \<longleftrightarrow> (case f of Here \<Rightarrow> cmd = [] | Rest s \<Rightarrow> mycmp s cmd = 0 | NoFinal \<Rightarrow> False)"

fun tree_parse :: "msg_tree \<Rightarrow> cstr \<Rightarrow> Message option" where
  "tree_parse (MTree f m ps) [] = None"
| "tree_parse (MTree f m ps) (r # cmd) =
     (let c = of_char r AND 0xDF :: nat in
      if c < 65 \<or> c > 90 then None
      else (case ps ! (c - 65) of
              None \<Rightarrow> None
            | Some (MTree f' m' ps') \<Rightarrow> if final_hit f' cmd then m' else tree_parse (MTree f' m' ps') cmd))"

subsection \<open>The tree finds what a search of the table finds\<close>

definition node_find :: "msg_tree \<Rightarrow> cstr \<Rightarrow> Message option" where
  "node_find t s = (case t of MTree f m ps \<Rightarrow> if final_hit f s then m else tree_parse t s)"

lemma tree_parse_Cons:
  "tree_parse (MTree f m ps) (r # s) =
     (let c = of_char r AND 0xDF :: nat in
      if c < 65 \<or> c > 90 then None else (case ps ! (c - 65) of None \<Rightarrow> None | Some t \<Rightarrow> node_find t s))"
  by (auto simp: node_find_def Let_def split: option.splits msg_tree.splits)

definition upper_letter :: "char \<Rightarrow> bool" where
  "upper_letter c \<longleftrightarrow> 65 \<le> (of_char c :: nat) \<and> (of_char c :: nat) \<le> 90"

lemma ToUpper_upper: "upper_letter c \<Longrightarrow> ToUpper c = of_char c"
  by (simp add: upper_letter_def ToUpper_def touppertab_nth)

lemma and_223:
  assumes "(r::nat) < 256"
  shows "r AND 0xDF = r mod 32 + 64 * (r div 64)"
proof -
  have "r AND 0xDF = take_bit 5 r OR push_bit 6 (drop_bit 6 r)"
  proof (rule bit_eqI)
    fix n
    have "n \<ge> 8 \<Longrightarrow> \<not> bit r n"
      using assms power_increasing [of 8 n "2::nat"] by (simp add: bit_iff_odd)
    moreover have "n < 8 \<Longrightarrow> n = 0 \<or> n = 1 \<or> n = 2 \<or> n = 3 \<or> n = 4 \<or> n = 5 \<or> n = 6 \<or> n = 7" by arith
    ultimately show "bit (r AND 0xDF) n = bit (take_bit 5 r OR push_bit 6 (drop_bit 6 r)) n"
      by (cases "n < 8") (auto simp: bit_and_iff bit_or_iff bit_take_bit_iff bit_push_bit_iff bit_drop_bit_eq bit_Suc_0_iff)
  qed
  also have "\<dots> = take_bit 5 r + push_bit 6 (drop_bit 6 r)"
    by (rule disjunctive_add [symmetric]) (auto simp: bit_take_bit_iff bit_push_bit_iff)
  finally show ?thesis by (simp add: take_bit_eq_mod push_bit_eq_mult drop_bit_eq_div mult.commute)
qed
lemma fold_byte:
  assumes "(r::nat) < 256" "65 \<le> c" "c \<le> 90"
  shows "((if 97 \<le> r \<and> r \<le> 122 then r - 32 else r) = c) = (r AND 0xDF = c)"
proof -
  define a b where "a = r div 32" and "b = r mod 32"
  have r: "r = 32 * a + b" and b: "b < 32" by (simp_all add: a_def b_def)
  have a: "a < 8" using assms(1) by (simp add: a_def)
  have "r AND 0xDF = b + 64 * (a div 2)"
    using and_223 [OF assms(1)] by (simp add: a_def b_def div_mult2_eq [of r 32 2, symmetric])
  moreover have "a = 0 \<or> a = 1 \<or> a = 2 \<or> a = 3 \<or> a = 4 \<or> a = 5 \<or> a = 6 \<or> a = 7" using a by arith
  ultimately show ?thesis using assms(2,3) b r by (elim disjE) auto
qed

lemma fold_letter:
  assumes "upper_letter c"
  shows "ToUpper r = of_char c \<longleftrightarrow> of_char r AND 0xDF = (of_char c :: nat)"
  using fold_byte [of "of_char r" "of_char c"] assms by (simp add: upper_letter_def ToUpper_def touppertab_nth)

text \<open>\<open>sub_find p xs\<close> searches the commands \<open>xs\<close>, all of which begin with \<open>p\<close>,
  for the one that continues with \<open>s\<close>.\<close>

definition sub_find :: "cstr \<Rightarrow> Message list \<Rightarrow> cstr \<Rightarrow> Message option" where
  "sub_find p xs s = find (\<lambda>m. mycmp (drop (length p) (m_cmd m)) s = 0) xs"

definition below :: "cstr \<Rightarrow> Message \<Rightarrow> bool" where
  "below p m \<longleftrightarrow> has_prefix p m \<and> (\<forall>c\<in>set (m_cmd m). upper_letter c)"

definition letter_at :: "nat \<Rightarrow> Message \<Rightarrow> nat" where
  "letter_at n m = of_char (m_cmd m ! n)"

text \<open>What the recursive call promises for one letter.\<close>

definition builds :: "(cstr \<Rightarrow> Message list \<Rightarrow> (msg_tree \<times> Message list) option) \<Rightarrow> cstr \<Rightarrow> Message list \<Rightarrow> bool" where
  "builds rec p xs \<longleftrightarrow>
     (\<forall>ys. ys = [] \<or> \<not> has_prefix p (hd ys) \<longrightarrow> (\<exists>t. rec p (xs @ ys) = Some (t, ys) \<and> (\<forall>s. node_find t s = sub_find p xs s)))"

lemma has_prefix_snoc:
  "has_prefix (p @ [c]) m \<longleftrightarrow> has_prefix p m \<and> length p < length (m_cmd m) \<and> m_cmd m ! length p = c"
proof (cases "length p < length (m_cmd m)")
  case True
  then show ?thesis by (auto simp: has_prefix_def take_Suc_conv_app_nth)
next
  case False
  then have "take (Suc (length p)) (m_cmd m) \<noteq> p @ [c]" by (metis Suc_n_not_le_n length_append_singleton length_take min_le_iff_disj not_less order_refl min.cobounded1)
  with False show ?thesis by (auto simp: has_prefix_def)
qed

lemma find_filter: "find P xs = find P (filter Q xs)" if "\<And>x. x \<in> set xs \<Longrightarrow> P x \<Longrightarrow> Q x"
  using that by (induction xs) auto

lemma tree_letters_ok:
  assumes "xs \<noteq> []" and "ys = [] \<or> \<not> has_prefix p (hd ys)"
    and "\<forall>m\<in>set xs. has_prefix p m \<and> length p < length (m_cmd m) \<and> m_cmd m ! length p \<in> set cs"
    and "sorted_wrt (\<lambda>a b. letter_at (length p) a \<le> letter_at (length p) b) xs"
    and "sorted_wrt (\<lambda>a b. (of_char a :: nat) < of_char b) cs"
    and "\<And>zs c. zs \<noteq> [] \<Longrightarrow> set zs \<subseteq> set xs \<Longrightarrow> \<forall>m\<in>set zs. m_cmd m ! length p = c \<Longrightarrow> (\<exists>us vs. xs = us @ zs @ vs) \<Longrightarrow> builds rec (p @ [c]) zs"
  shows "\<exists>ps. tree_letters rec p cs (xs @ ys) = Some (ps, ys) \<and> length ps = length cs \<and>
    (\<forall>i<length cs. \<forall>s. (case ps ! i of None \<Rightarrow> None | Some t \<Rightarrow> node_find t s) =
       sub_find (p @ [cs ! i]) (filter (\<lambda>m. m_cmd m ! length p = cs ! i) xs) s)"
  using assms
proof (induction cs arbitrary: xs)
  case Nil
  then show ?case by (cases xs) auto
next
  case (Cons c cs)
  let ?l = "\<lambda>m. m_cmd m ! length p"
  obtain m xs' where xs: "xs = m # xs'" using Cons.prems(1) by (cases xs) auto
  have cs: "\<And>d. d \<in> set cs \<Longrightarrow> (of_char c :: nat) < of_char d" using Cons.prems(5) by simp
  show ?case
  proof (cases "?l m = c")
    case False
    then have "?l m \<in> set cs" using Cons.prems(3) xs by auto
    then have "(of_char c :: nat) < of_char (?l x)" if "x \<in> set xs" for x
      using that cs [of "?l m"] Cons.prems(4) xs by (auto simp: letter_at_def)
    then have ne: "?l x \<noteq> c" if "x \<in> set xs" for x using that by force
    have pre: "\<forall>m\<in>set xs. has_prefix p m \<and> length p < length (m_cmd m) \<and> ?l m \<in> set cs"
      using Cons.prems(3) ne by auto
    have srt: "sorted_wrt (\<lambda>a b. (of_char a :: nat) < of_char b) cs" using Cons.prems(5) by simp
    obtain ps where ps: "tree_letters rec p cs (xs @ ys) = Some (ps, ys)" "length ps = length cs"
      "\<forall>i<length cs. \<forall>s. (case ps ! i of None \<Rightarrow> None | Some t \<Rightarrow> node_find t s) =
         sub_find (p @ [cs ! i]) (filter (\<lambda>m. ?l m = cs ! i) xs) s"
      using Cons.IH [OF Cons.prems(1,2) pre Cons.prems(4) srt Cons.prems(6)] by blast
    have z: "filter (\<lambda>m. ?l m = c) xs = []" using ne by (auto simp: filter_empty_conv)
    have "tree_letters rec p (c # cs) (xs @ ys) = Some (None # ps, ys)" using False ps(1) xs by simp
    moreover have "(case (None # ps) ! i of None \<Rightarrow> None | Some t \<Rightarrow> node_find t s) =
        sub_find (p @ [(c # cs) ! i]) (filter (\<lambda>m. ?l m = (c # cs) ! i) xs) s" if "i < length (c # cs)" for i s
      using that ps(3) z by (cases i) (auto simp: sub_find_def)
    ultimately show ?thesis using ps(2) by auto
  next
    case True
    define zs ws where "zs = takeWhile (\<lambda>m. ?l m = c) xs" and "ws = dropWhile (\<lambda>m. ?l m = c) xs"
    have xzw: "xs = zs @ ws" by (simp add: zs_def ws_def)
    have zs: "zs \<noteq> []" "\<forall>m\<in>set zs. ?l m = c" using True xs by (auto simp: zs_def dest: set_takeWhileD)
    have ws: "?l w \<in> set cs" if w: "w \<in> set ws" for w
    proof -
      obtain v vs where v: "ws = v # vs" using w by (cases ws) auto
      have "?l v \<noteq> c" using v hd_dropWhile [of "\<lambda>m. ?l m = c" xs] by (simp add: ws_def)
      then have "?l v \<in> set cs" using Cons.prems(3) v xzw by auto
      then have "(of_char c :: nat) < of_char (?l v)" by (rule cs)
      moreover have "(of_char (?l v) :: nat) \<le> of_char (?l w)"
        using Cons.prems(4) w v xzw by (auto simp: sorted_wrt_append letter_at_def)
      ultimately have "?l w \<noteq> c" by auto
      then show ?thesis using Cons.prems(3) w xzw by auto
    qed
    have notc: "?l w \<noteq> c" if "w \<in> set ws" for w using cs [OF ws [OF that]] by auto
    have "builds rec (p @ [c]) zs" using Cons.prems(6) [OF zs(1) _ zs(2)] xzw by auto
    moreover have "ws @ ys = [] \<or> \<not> has_prefix (p @ [c]) (hd (ws @ ys))"
      using Cons.prems(2) notc by (cases ws) (auto simp: has_prefix_snoc)
    ultimately obtain t where t: "rec (p @ [c]) (zs @ ws @ ys) = Some (t, ws @ ys)" "\<And>s. node_find t s = sub_find (p @ [c]) zs s"
      by (auto simp: builds_def)
    have fc: "filter (\<lambda>m. ?l m = c) xs = zs" using zs(2) notc by (auto simp: xzw filter_empty_conv)
    have fd: "filter (\<lambda>m. ?l m = d) xs = filter (\<lambda>m. ?l m = d) ws" if "d \<in> set cs" for d
      using zs(2) cs [OF that] by (auto simp: xzw filter_empty_conv)
    have m: "length p < length (m_cmd m)" using Cons.prems(3) xs by simp
    have t1: "rec (p @ [c]) (m # xs' @ ys) = Some (t, ws @ ys)" using t(1) xs xzw by (metis append_Cons append_assoc)
    obtain ps where ps: "tree_letters rec p (c # cs) (xs @ ys) = Some (Some t # ps, ys)" "length ps = length cs"
      "\<forall>i<length cs. \<forall>s. (case ps ! i of None \<Rightarrow> None | Some t \<Rightarrow> node_find t s) =
         sub_find (p @ [cs ! i]) (filter (\<lambda>m. ?l m = cs ! i) ws) s"
    proof (cases "ws = []")
      case True
      then have "tree_letters rec p (c # cs) (xs @ ys) = Some (Some t # replicate (length cs) None, ys)"
        using t1 \<open>?l m = c\<close> m Cons.prems(2) xs by auto
      with True that show ?thesis by (auto simp: sub_find_def)
    next
      case False
      have hp: "has_prefix p (hd ws)" using False Cons.prems(3) xzw by (cases ws) auto
      have pre: "\<forall>m\<in>set ws. has_prefix p m \<and> length p < length (m_cmd m) \<and> ?l m \<in> set cs"
        using Cons.prems(3) ws xzw by auto
      have srt: "sorted_wrt (\<lambda>a b. letter_at (length p) a \<le> letter_at (length p) b) ws"
        using Cons.prems(4) xzw by (simp add: sorted_wrt_append)
      have srt': "sorted_wrt (\<lambda>a b. (of_char a :: nat) < of_char b) cs" using Cons.prems(5) by simp
      have rec: "builds rec (p @ [d]) us" if "us \<noteq> []" "set us \<subseteq> set ws" "\<forall>m\<in>set us. ?l m = d" "\<exists>a b. ws = a @ us @ b" for us d
      proof -
        from that(4) obtain a b where "xs = (zs @ a) @ us @ b" using xzw by auto
        then have ex: "\<exists>a b. xs = a @ us @ b" by blast
        then have "set us \<subseteq> set xs" by auto
        then show ?thesis by (rule Cons.prems(6) [OF that(1) _ that(3) ex])
      qed
      obtain ps where "tree_letters rec p cs (ws @ ys) = Some (ps, ys)" "length ps = length cs"
        "\<forall>i<length cs. \<forall>s. (case ps ! i of None \<Rightarrow> None | Some t \<Rightarrow> node_find t s) =
           sub_find (p @ [cs ! i]) (filter (\<lambda>m. ?l m = cs ! i) ws) s"
        using Cons.IH [OF False Cons.prems(2) pre srt srt' rec] by blast
      moreover have "tree_letters rec p (c # cs) (xs @ ys) =
          map_option (\<lambda>(ps, r). (Some t # ps, r)) (tree_letters rec p cs (ws @ ys))"
        using t1 \<open>?l m = c\<close> m xs hp False by auto
      ultimately show ?thesis using that by simp
    qed
    have "(case (Some t # ps) ! i of None \<Rightarrow> None | Some t \<Rightarrow> node_find t s) =
        sub_find (p @ [(c # cs) ! i]) (filter (\<lambda>m. ?l m = (c # cs) ! i) xs) s" if "i < length (c # cs)" for i s
      using that ps(3) t(2) fc fd by (cases i) auto
    with ps(1,2) show ?thesis by auto
  qed
qed

lemma prefix_split: "has_prefix p m \<Longrightarrow> m_cmd m = p @ drop (length p) (m_cmd m)"
  by (metis append_take_drop_id has_prefix_def)

lemma less_below:
  assumes "has_prefix p a" "has_prefix p b" "m_cmd a < m_cmd b"
  shows "drop (length p) (m_cmd a) < drop (length p) (m_cmd b)"
proof -
  have "p @ x < p @ y \<Longrightarrow> x < y" for x y :: string by (induction p) auto
  with assms show ?thesis by (metis prefix_split)
qed

lemma LETTERS_props:
  "length LETTERS = 26" "sorted_wrt (\<lambda>a b. (of_char a :: nat) < of_char b) LETTERS"
  "i < 26 \<Longrightarrow> of_char (LETTERS ! i) = 65 + i" "upper_letter c \<Longrightarrow> c \<in> set LETTERS"
proof -
  show "length LETTERS = 26" by (simp add: LETTERS_def del: upt_rec_numeral)
  have m: "map (of_char :: char \<Rightarrow> nat) LETTERS = [65..<91]"
    unfolding LETTERS_def map_map by (rule map_idI) (auto simp del: upt_rec_numeral)
  have "sorted_wrt (<) (map (of_char :: char \<Rightarrow> nat) LETTERS)" unfolding m by (simp del: upt_rec_numeral)
  then show "sorted_wrt (\<lambda>a b. (of_char a :: nat) < of_char b) LETTERS" by (simp add: sorted_wrt_map)
  show "i < 26 \<Longrightarrow> of_char (LETTERS ! i) = 65 + i"
    using arg_cong [OF m, of "\<lambda>xs. xs ! i"] by (simp add: LETTERS_def nth_append del: upt_rec_numeral)
  show "upper_letter c \<Longrightarrow> c \<in> set LETTERS"
    by (auto simp: LETTERS_def upper_letter_def image_iff simp del: upt_rec_numeral intro!: bexI [of _ "of_char c"])
qed

text \<open>An inner node with the trees of its letters finds what a search of its commands finds.\<close>

lemma inner_node_find:
  assumes len: "length ps = 26" and xs: "\<forall>m\<in>set xs. below p m \<and> length p < length (m_cmd m)"
    and ps: "\<forall>i<26. \<forall>s. (case ps ! i of None \<Rightarrow> None | Some t \<Rightarrow> node_find t s) =
       sub_find (p @ [LETTERS ! i]) (filter (\<lambda>m. m_cmd m ! length p = LETTERS ! i) xs) s"
  shows "tree_parse (MTree f m ps) s = sub_find p xs s"
proof (cases s)
  case Nil
  have "mycmp (drop (length p) (m_cmd m)) [] \<noteq> 0" if "m \<in> set xs" for m using xs that by (auto simp: mycmp_zero_iff)
  then have "sub_find p xs [] = None" by (auto simp: sub_find_def find_None_iff)
  with Nil show ?thesis by simp
next
  case (Cons r s')
  let ?c = "of_char r AND 0xDF :: nat"
  have step: "mycmp (drop (length p) (m_cmd m)) (r # s') = 0 \<longleftrightarrow>
      of_char (m_cmd m ! length p) = ?c \<and> mycmp (drop (Suc (length p)) (m_cmd m)) s' = 0" if "m \<in> set xs" for m
  proof -
    have l: "length p < length (m_cmd m)" and u: "upper_letter (m_cmd m ! length p)"
      using xs that by (auto simp: below_def)
    have e: "(ToUpper (m_cmd m ! length p) = ToUpper r) = (of_char (m_cmd m ! length p) = ?c)"
      using fold_letter [OF u, of r] ToUpper_upper [OF u] by metis
    have d: "drop (length p) (m_cmd m) = m_cmd m ! length p # drop (Suc (length p)) (m_cmd m)"
      by (rule Cons_nth_drop_Suc [OF l, symmetric])
    show ?thesis unfolding d by (simp add: e)
  qed
  show ?thesis
  proof (cases "?c < 65 \<or> ?c > 90")
    case True
    have "of_char (m_cmd m ! length p) \<noteq> ?c" if "m \<in> set xs" for m
    proof -
      have "upper_letter (m_cmd m ! length p)" using xs that by (auto simp: below_def)
      then show ?thesis using True by (auto simp: upper_letter_def)
    qed
    then have "sub_find p xs s = None" using step by (auto simp: Cons sub_find_def find_None_iff)
    with True Cons show ?thesis by (simp add: Let_def)
  next
    case False
    then have i: "?c - 65 < 26" "of_char (LETTERS ! (?c - 65)) = ?c" using LETTERS_props(3) [of "?c - 65"] by auto
    have "sub_find p xs s = find (\<lambda>m. m_cmd m ! length p = LETTERS ! (?c - 65) \<and> mycmp (drop (Suc (length p)) (m_cmd m)) s' = 0) xs"
      unfolding sub_find_def Cons
      by (rule find_cong_set) (use step i(2) in \<open>metis of_char_eq_iff\<close>)
    also have "\<dots> = sub_find (p @ [LETTERS ! (?c - 65)]) (filter (\<lambda>m. m_cmd m ! length p = LETTERS ! (?c - 65)) xs) s'"
      unfolding sub_find_def by (induction xs) auto
    finally show ?thesis using False ps i(1) by (simp add: Cons tree_parse_Cons Let_def del: tree_parse.simps)
  qed
qed

lemma mycmp_upper:
  assumes "\<forall>c\<in>set s. upper_letter c" "\<forall>c\<in>set t. upper_letter c"
  shows "mycmp s t = 0 \<longleftrightarrow> s = t"
  using assms by (induction s t rule: mycmp.induct) (auto simp: ToUpper_upper)

lemma leaf_find: "node_find (MTree (Rest (drop (length p) (m_cmd m))) (Some m) (replicate 26 None)) s = sub_find p [m] s"
proof -
  have "tree_parse (MTree f x (replicate 26 None)) s = None" for f x
  proof (cases s)
    case (Cons r s')
    have "c \<le> 90 \<Longrightarrow> replicate 26 None ! (c - 65) = (None :: msg_tree option)" for c :: nat by (simp add: nth_replicate)
    with Cons show ?thesis by (auto simp: tree_parse_Cons Let_def simp del: tree_parse.simps(2))
  qed simp
  then show ?thesis by (simp add: node_find_def final_hit_def sub_find_def)
qed

lemma do_msg_tree_ok:
  assumes "xs \<noteq> []" and "\<forall>m\<in>set xs. below p m \<and> length (m_cmd m) < length p + n" and "sorted_wrt (\<lambda>a b. m_cmd a < m_cmd b) xs"
  shows "builds (do_msg_tree n) p xs"
  using assms
proof (induction n arbitrary: p xs)
  case 0
  then obtain m where "has_prefix p m" "length (m_cmd m) < length p" by (cases xs) (auto simp: below_def)
  then show ?case by (metis prefix_split length_append le_add1 not_less)
next
  case (Suc n)
  obtain m xs' where xs: "xs = m # xs'" using Suc.prems(1) by (cases xs) auto
  have hp: "has_prefix p m" using Suc.prems(2) xs by (simp add: below_def)
  have letters: "\<exists>ps. tree_letters (do_msg_tree n) p LETTERS (zs @ ys) = Some (ps, ys) \<and>
      (\<forall>f x s. tree_parse (MTree f x ps) s = sub_find p zs s)"
    if zs: "zs \<noteq> []" "set zs \<subseteq> set xs" "sorted_wrt (\<lambda>a b. m_cmd a < m_cmd b) zs" "\<forall>z\<in>set zs. m_cmd z \<noteq> p"
      and ys: "ys = [] \<or> \<not> has_prefix p (hd ys)" for zs ys
  proof -
    have b: "below p z" "length p < length (m_cmd z)" if "z \<in> set zs" for z
    proof -
      show "below p z" using that zs(2) Suc.prems(2) by auto
      then have "m_cmd z = p @ drop (length p) (m_cmd z)" by (simp add: below_def prefix_split)
      then show "length p < length (m_cmd z)" using zs(4) that by (metis append_Nil2 drop_eq_Nil2 not_less)
    qed
    have l: "\<forall>z\<in>set zs. has_prefix p z \<and> length p < length (m_cmd z) \<and> m_cmd z ! length p \<in> set LETTERS"
      using b LETTERS_props(4) by (auto simp: below_def)
    have le: "letter_at (length p) a \<le> letter_at (length p) c" if "a \<in> set zs" "c \<in> set zs" "m_cmd a < m_cmd c" for a c
      using less_below [OF _ _ that(3), of p] b [OF that(1)] b [OF that(2)]
      by (auto simp: below_def letter_at_def Cons_nth_drop_Suc [symmetric] less_char_def)
    have srt: "sorted_wrt (\<lambda>a b. letter_at (length p) a \<le> letter_at (length p) b) zs"
      by (rule sorted_wrt_mono_rel [OF le zs(3)])
    have rec: "builds (do_msg_tree n) (p @ [c]) us"
      if "us \<noteq> []" "set us \<subseteq> set zs" "\<forall>m\<in>set us. m_cmd m ! length p = c" "\<exists>a b. zs = a @ us @ b" for us c
    proof (rule Suc.IH [OF that(1)])
      show "\<forall>m\<in>set us. below (p @ [c]) m \<and> length (m_cmd m) < length (p @ [c]) + n"
        using that(2,3) b zs(2) Suc.prems(2) by (fastforce simp: below_def has_prefix_snoc)
      show "sorted_wrt (\<lambda>a b. m_cmd a < m_cmd b) us" using that(4) zs(3) by (auto simp: sorted_wrt_append)
    qed
    obtain ps where ps: "tree_letters (do_msg_tree n) p LETTERS (zs @ ys) = Some (ps, ys)" "length ps = 26"
      "\<forall>i<26. \<forall>s. (case ps ! i of None \<Rightarrow> None | Some t \<Rightarrow> node_find t s) =
         sub_find (p @ [LETTERS ! i]) (filter (\<lambda>m. m_cmd m ! length p = LETTERS ! i) zs) s"
      using tree_letters_ok [OF zs(1) ys l srt LETTERS_props(2) rec] unfolding LETTERS_props(1) by blast
    have "\<forall>m\<in>set zs. below p m \<and> length p < length (m_cmd m)" using b by blast
    from inner_node_find [OF ps(2) this ps(3)] ps(1) show ?thesis by blast
  qed
  show ?case unfolding builds_def
  proof (intro allI impI)
    fix ys :: "Message list" assume ys: "ys = [] \<or> \<not> has_prefix p (hd ys)"
    show "\<exists>t. do_msg_tree (Suc n) p (xs @ ys) = Some (t, ys) \<and> (\<forall>s. node_find t s = sub_find p xs s)"
    proof (cases "xs' = []")
      case True
      have "ys = [] \<or> p \<noteq> []" using ys by (auto simp: has_prefix_def)
      with True ys hp xs leaf_find [of p m] show ?thesis by auto
    next
      case False
      have hd: "has_prefix p (hd xs')" using False Suc.prems(2) xs by (cases xs') (auto simp: below_def)
      have later: "m_cmd z \<noteq> p" if "z \<in> set xs'" for z
        using that less_below [of p m z] hp Suc.prems(2,3) xs by (auto simp: below_def)
      have up: "mycmp (m_cmd m) p = 0 \<longleftrightarrow> m_cmd m = p"
        using mycmp_upper [of "m_cmd m" p] Suc.prems(2) xs prefix_split [OF hp] by (metis below_def in_set_conv_decomp append_Cons append_assoc list.set_intros(1) Un_iff set_append)
      show ?thesis
      proof (cases "m_cmd m = p")
        case True
        obtain ps where "tree_letters (do_msg_tree n) p LETTERS (xs' @ ys) = Some (ps, ys)"
          "\<And>f x s. tree_parse (MTree f x ps) s = sub_find p xs' s"
          using letters [OF False _ _ _ ys] Suc.prems(3) later xs by auto
        with True False hp hd up xs show ?thesis by (auto simp: node_find_def final_hit_def sub_find_def mycmp_zero_iff)
      next
        case 2: False
        obtain ps where "tree_letters (do_msg_tree n) p LETTERS (xs @ ys) = Some (ps, ys)"
          "\<And>f x s. tree_parse (MTree f x ps) s = sub_find p xs s"
          using letters [OF Suc.prems(1) _ Suc.prems(3) _ ys] 2 later xs by auto
        with 2 False hp hd up xs show ?thesis by (auto simp: node_find_def final_hit_def)
      qed
    qed
  qed
qed

subsection \<open>Properties\<close>

definition table_names_ok :: "Message list \<Rightarrow> bool" where
  "table_names_ok tab \<longleftrightarrow>
     distinct (map m_cmd tab) \<and> 2 \<le> length tab \<and>
     list_all (\<lambda>m. m_cmd m \<noteq> [] \<and> length (m_cmd m) < 64 \<and> list_all upper_letter (m_cmd m)) tab"

lemma sorted_table:
  assumes "distinct (map m_cmd tab)"
  shows "sorted_wrt (\<lambda>a b. m_cmd a < m_cmd b) (sort_key m_cmd tab)"
proof -
  have "distinct (map m_cmd (sort_key m_cmd tab))" using assms by (simp add: distinct_map)
  then have "sorted_wrt (<) (map m_cmd (sort_key m_cmd tab))" by (simp add: strict_sorted_iff)
  then show ?thesis by (simp add: sorted_wrt_map)
qed

lemma find_unique_perm:
  assumes "set ys = set xs" and "\<And>x y. x \<in> set xs \<Longrightarrow> y \<in> set xs \<Longrightarrow> P x \<Longrightarrow> P y \<Longrightarrow> x = y"
  shows "find P ys = find P xs"
proof (cases "find P xs")
  case None
  with assms(1) have "find P ys = None" by (simp add: find_None_iff)
  with None show ?thesis by simp
next
  case (Some x)
  with find_SomeD [OF Some] assms show ?thesis by (auto intro!: find_eq_Some_unique)
qed

lemma tree_built:
  assumes "table_names_ok tab"
  shows "\<exists>t. init_tree_parse tab = Some t \<and> (\<forall>s. tree_parse t s = find (\<lambda>m. mycmp (m_cmd m) s = 0) tab)"
proof -
  let ?xs = "sort_key m_cmd tab"
  have d: "distinct (map m_cmd tab)" and len: "2 \<le> length ?xs"
    and ok: "\<And>m. m \<in> set ?xs \<Longrightarrow> m_cmd m \<noteq> [] \<and> length (m_cmd m) < 64 \<and> (\<forall>c\<in>set (m_cmd m). upper_letter c)"
    using assms by (auto simp: table_names_ok_def list_all_iff)
  obtain m m' xs' where xs: "?xs = m # m' # xs'" using len by (cases ?xs; cases "tl ?xs") auto
  have "builds (do_msg_tree 64) [] ?xs"
    by (rule do_msg_tree_ok) (use ok xs sorted_table [OF d] in \<open>auto simp: below_def has_prefix_def\<close>)
  then obtain t where t: "do_msg_tree 64 [] ?xs = Some (t, [])" "\<And>s. node_find t s = sub_find [] ?xs s"
    unfolding builds_def by (metis append_Nil2)
  have "mycmp (m_cmd m) [] \<noteq> 0" using ok [of m] xs by (simp add: mycmp_zero_iff)
  moreover have "do_msg_tree (Suc 63) [] (m # m' # xs') = Some (t, [])" using t(1) xs by simp
  ultimately obtain ps where "t = MTree NoFinal None ps" by (subst (asm) do_msg_tree.simps(2)) (auto simp: has_prefix_def)
  then have "tree_parse t s = sub_find [] ?xs s" for s using t(2) [of s] by (simp add: node_find_def final_hit_def)
  moreover have "sub_find [] ?xs s = find (\<lambda>m. mycmp (m_cmd m) s = 0) tab" for s
    unfolding sub_find_def list.size(3) drop_0
  proof (rule find_unique_perm)
    fix x y assume x: "x \<in> set tab" "mycmp (m_cmd x) s = 0" and y: "y \<in> set tab" "mycmp (m_cmd y) s = 0"
    then have "mycmp (m_cmd x) (m_cmd y) = 0" by (simp add: mycmp_zero_iff)
    then have "m_cmd x = m_cmd y" using mycmp_upper ok x(1) y(1) by auto
    then show "x = y" using d x(1) y(1) by (simp add: distinct_map inj_on_def)
  qed simp
  ultimately show ?thesis using t(1) by (auto simp: init_tree_parse_def)
qed

lemma tree_finds_table:
  assumes "table_names_ok tab" and "init_tree_parse tab = Some t"
  shows "tree_parse t s = find (\<lambda>m. mycmp (m_cmd m) s = 0) tab"
  using tree_built [OF assms(1)] assms(2) by auto

lemma tree_finds_member:
  assumes "table_names_ok tab" and "init_tree_parse tab = Some t" and "m \<in> set tab"
  shows "tree_parse t (m_cmd m) = Some m"
proof -
  have "x = m" if "x \<in> set tab" "mycmp (m_cmd x) (m_cmd m) = 0" for x
  proof -
    have "m_cmd x = m_cmd m" using mycmp_upper that assms(1,3) by (auto simp: table_names_ok_def list_all_iff)
    then show "x = m" using assms(1,3) that(1) by (simp add: table_names_ok_def distinct_map inj_on_def)
  qed
  then show ?thesis using assms(3) unfolding tree_finds_table [OF assms(1,2)] by (intro find_eq_Some_unique) auto
qed

text \<open>C26: the prefix tree finds what a case-insensitive search of the table finds.  For every table of at
  least two commands with different names of capital letters that fit the buffer, the
  construction succeeds and a lookup of any text gives the command of that name in upper or lower case,
  and nothing else.\<close>

theorem tree_lookup_exact:
  assumes "table_names_ok tab"
  shows "\<exists>t. init_tree_parse tab = Some t \<and> (\<forall>s. tree_parse t s = find (\<lambda>m. mycmp (m_cmd m) s = 0) tab)"
  using assms by (rule tree_built)

definition cmd_code :: "cstr \<Rightarrow> nat" where
  "cmd_code s = foldl (\<lambda>n c. n * 256 + of_char c) 0 s"

lemma msgtab_cmd_codes_distinct: "distinct (map (\<lambda>m. cmd_code (m_cmd m)) msgtab)"
  by (simp add: msgtab_def Msg_def cmd_code_def)

lemma msgtab_names_ok: "table_names_ok msgtab"
proof -
  have "distinct (map m_cmd msgtab)" using msgtab_cmd_codes_distinct by (auto simp: distinct_map inj_on_def)
  moreover have "2 \<le> length msgtab" by (simp add: msgtab_def)
  moreover have "list_all (\<lambda>m. m_cmd m \<noteq> [] \<and> length (m_cmd m) < 64 \<and> list_all upper_letter (m_cmd m)) msgtab"
    by (simp add: msgtab_def Msg_def upper_letter_def)
  ultimately show ?thesis by (simp add: table_names_ok_def)
qed

lemma PRIV_no_command: "find (\<lambda>m. mycmp (m_cmd m) ''PRIV'' = 0) msgtab = None"
proof -
  have "m_cmd m \<noteq> ''PRIV''" if "m \<in> set msgtab" for m
  proof
    assume "m_cmd m = ''PRIV''"
    then have "cmd_code ''PRIV'' \<in> set (map (\<lambda>m. cmd_code (m_cmd m)) msgtab)" using that by (metis image_eqI list.set_map)
    then show False by (simp add: msgtab_def Msg_def cmd_code_def)
  qed
  moreover have "\<forall>c\<in>set (m_cmd m). upper_letter c" if "m \<in> set msgtab" for m
    using msgtab_names_ok that by (auto simp: table_names_ok_def list_all_iff)
  moreover have "\<forall>c\<in>set ''PRIV''. upper_letter c" by (simp add: upper_letter_def)
  ultimately show ?thesis unfolding find_None_iff using mycmp_upper by blast
qed

theorem tree_lookup_exact_witness:
  "\<exists>t. init_tree_parse msgtab = Some t \<and> map_option m_func (tree_parse t ''PrivMsg'') = Some ''m_private'' \<and>
     tree_parse t ''PRIV'' = None"
proof -
  obtain t where t: "init_tree_parse msgtab = Some t" "\<And>s. tree_parse t s = find (\<lambda>m. mycmp (m_cmd m) s = 0) msgtab"
    using tree_lookup_exact [OF msgtab_names_ok] by blast
  have "mycmp ''PRIVMSG'' ''PrivMsg'' = 0" by code_simp
  then have "map_option m_func (find (\<lambda>m. mycmp (m_cmd m) ''PrivMsg'' = 0) msgtab) = Some ''m_private''"
    by (simp add: msgtab_def Msg_def)
  with t PRIV_no_command show ?thesis by auto
qed

end
