(* ===== verification/Messages.thy ===== *)
theory Messages
  imports Client_Types
begin

section \<open>Messages sent by the modelled code (src/src/send.c)\<close>

text \<open>
  A call of a \<^verbatim>\<open>sendto_\<close> function is the value of type \<open>out_msg\<close> with its receiver, its
  format and its arguments: to one client, to the operators (\<open>To_realops\<close> and \<open>To_ops\<close> for
  \<^verbatim>\<open>sendto_realops\<close> and \<^verbatim>\<open>sendto_ops\<close>, \<open>To_globops\<close> for
  \<^verbatim>\<open>send_globops\<close>), to all servers (but the one
  the message came from), to the local members of a channel (\<open>To_channel\<close> for
  \<^verbatim>\<open>sendto_channel_butserv_me\<close>, \<open>To_members\<close> for \<^verbatim>\<open>sendto_channel_butserv\<close>, \<open>To_chanflags\<close> for
  \<^verbatim>\<open>sendto_channelflags_butone\<close>, the members with a status), from one client to another
  (\<open>To_prefix_one\<close> for \<^verbatim>\<open>sendto_prefix_one\<close>), and the warnings of \<^verbatim>\<open>ts_warn\<close>.  The text
  \<^verbatim>\<open>get_client_name\<close> returns is left as \<open>Client_name\<close> of its arguments.
\<close>

definition HIDEME :: int where "HIDEME = 2"

datatype arg = S cstr | D int | Client_name addr int

datatype out_msg =
    To_one addr cstr "arg list"
  | To_realops cstr "arg list"
  | To_servers "addr option" cstr "arg list"
  | To_channel addr addr cstr "arg list"
  | To_members addr addr cstr "arg list"
  | To_ops cstr "arg list"
  | To_globops cstr "arg list"
  | To_prefix_one addr addr cstr "arg list"
  | To_chanflags addr addr u32 cstr "arg list"
  | To_ts_warn cstr "arg list"

end
