(* ===== verification/Parse.thy ===== *)
theory Parse
  imports Messages Msg_Tree Client_Hash
begin

section \<open>The message parser (src/src/parse.c)\<close>

text \<open>
  \<open>parse\<close> takes one line received from the connection \<open>cptr\<close>, finds its sender, its
  command and its parameters and calls the handler of the command.  The call it makes is its result
  (\<open>parse_result\<close>), together with the changed clients, counters and the messages sent.
  A pointer into the line is the rest of the line from there; the parser only overwrites separators it
  has passed.  \<open>None\<close> is an access through an invalid pointer.  The configuration is the one
  shipped (\<^verbatim>\<open>NO_OPER_FLOOD\<close> set).
\<close>

record parse_state =
  ps_clients :: clients
  ps_table :: hash_tab
  is_unco :: u32
  is_wrdi :: u32
  is_unpf :: u32
  is_empt :: u32
  is_num :: u32
  ps_count :: "cstr \<Rightarrow> u32"
  ps_bytes :: "cstr \<Rightarrow> 64 word"
  ps_out :: "out_msg list"

datatype parse_result =
    Return int
  | Do_numeric int addr addr "cstr list"
  | Do_func Message addr addr "cstr list"
  | Exit_client addr addr cstr

definition tell :: "out_msg \<Rightarrow> parse_state \<Rightarrow> parse_state" where
  "tell m st = st\<lparr>ps_out := ps_out st @ [m]\<rparr>"

definition hide_server :: "aClient \<Rightarrow> int" where
  "hide_server c = (if IsServer c then HIDEME else 0)"

subsection \<open>Wrong and unknown prefixes\<close>

definition cancel_clients :: "cstr \<Rightarrow> addr \<Rightarrow> addr \<Rightarrow> parse_state \<Rightarrow> (parse_result \<times> parse_state) option" where
  "cancel_clients me_name cptr sptr st =
     (let c = ps_clients st cptr; s = ps_clients st sptr; sfrom = c_name (ps_clients st (c_from s)) in
      if IsServer s \<or> IsMe s then
        (let st = tell (To_realops ''Message for %s[%s] from %s'' [S (c_name s), S sfrom, Client_name cptr (hide_server c)]) st in
         if IsServer c
         then Some (Return (- 1), tell (To_realops ''Not dropping server %s (%s) for Fake Direction'' [S (c_name c), S (c_name s)]) st)
         else if IsClient c
         then (case c_user c of
                 None \<Rightarrow> None
               | Some u \<Rightarrow> Some (Return (- 1), tell (To_realops ''Would have dropped client %s (%s@%s) [%s from %s]''
                   [S (c_name c), S (u_username u), S (u_host u), S (u_server u), S (c_name (ps_clients st (c_from c)))]) st))
         else Some (Return (- 1), st))
      else if IsServer c then
        if DoesTS c
        then Some (Return 0, case c_user s of
               None \<Rightarrow> st
             | Some u \<Rightarrow> tell (To_realops ''Message for %s[%s@%s!%s] from %s (TS, ignored)''
                 [S (c_name s), S (u_username u), S (u_host u), S sfrom, Client_name cptr HIDEME]) st)
        else
          (let st = (case c_user s of
               None \<Rightarrow> st
             | Some u \<Rightarrow> tell (To_realops ''Message for %s[%s@%s!%s] from %s''
                 [S (c_name s), S (u_username u), S (u_host u), S sfrom, Client_name cptr HIDEME]) st) in
           if IsULine s
           then Some (Return 0, tell (To_realops ''Would have killed U:lined client %s for fake direction'' [S (c_name s)]) st)
           else
             (let st = tell (To_servers None '':%s KILL %s :%s (%s[%s] != %s, Fake Prefix)''
                    [S me_name, S (c_name s), S me_name, S (c_name s), S sfrom, Client_name cptr HIDEME]) st in
              Some (Exit_client cptr sptr ''Fake Prefix'',
                    st\<lparr>ps_clients := (ps_clients st)(sptr := s\<lparr>c_flags := c_flags s OR FLAGS_KILLED\<rparr>)\<rparr>)))
      else Some (Exit_client cptr cptr ''Fake prefix'', st))"

definition remove_unknown :: "cstr \<Rightarrow> addr \<Rightarrow> cstr \<Rightarrow> cstr \<Rightarrow> parse_state \<Rightarrow> parse_state" where
  "remove_unknown me_name cptr sender buffer st =
     (let c = ps_clients st cptr in
      if \<not> IsRegistered c then st
      else if IsClient c
      then tell (To_realops ''Weirdness: Unknown client prefix (%s) from %s, Ignoring %s'' [S buffer, Client_name cptr 0, S sender]) st
      else if \<not> IsServer c then st
      else if CHR ''.'' \<notin> set sender
      then tell (To_one cptr '':%s KILL %s :%s (%s(?) <- %s)'' [S me_name, S sender, S me_name, S sender, Client_name cptr 0]) st
      else tell (To_one cptr '':%s SQUIT %s :(Unknown prefix (%s) from %s)'' [S me_name, S sender, S buffer, Client_name cptr HIDEME])
            (tell (To_realops ''Unknown prefix (%s) from %s, Squitting %s'' [S buffer, Client_name cptr HIDEME, S sender]) st))"

subsection \<open>Command and parameters\<close>

definition is_numeric :: "cstr \<Rightarrow> bool" where
  "is_numeric ch \<longleftrightarrow>
     (case ch of a # b # c # d # _ \<Rightarrow> d = CHR '' '' \<and> IsDigit a \<and> IsDigit b \<and> IsDigit c | _ \<Rightarrow> False)"

definition digit_value :: "char \<Rightarrow> int" where
  "digit_value c = of_char c - 48"

definition numeric_value :: "cstr \<Rightarrow> int" where
  "numeric_value ch = digit_value (ch ! 0) * 100 + digit_value (ch ! 1) * 10 + digit_value (ch ! 2)"

definition word_of :: "cstr \<Rightarrow> cstr" where
  "word_of ch = takeWhile (\<lambda>x. x \<noteq> CHR '' '') ch"

definition strchr :: "cstr \<Rightarrow> char \<Rightarrow> cstr option" where
  "strchr s c = (case dropWhile (\<lambda>x. x \<noteq> c) s of [] \<Rightarrow> None | t \<Rightarrow> Some t)"

text \<open>
  The outcome of the search for the command: a numeric with what follows it; an unknown word; or a
  command with the pointers \<^verbatim>\<open>ch\<close> (\<open>None\<close> when it is not a valid pointer) and
  \<^verbatim>\<open>s\<close> (\<open>None\<close> is null).
\<close>

datatype cmd_result = Numeric int cstr | Unknown cstr | Command Message "cstr option" "cstr option"

lemma strchr_shorter: "strchr s c = Some t \<Longrightarrow> length t \<le> length s \<and> t \<noteq> []"
  unfolding strchr_def by (auto simp: length_dropWhile_le split: list.splits)

lemma strchr_absent: "c \<notin> set s \<Longrightarrow> strchr s c = None"
  by (induction s) (auto simp: strchr_def)

text \<open>\<^verbatim>\<open>reparse\<close>: a message to \<^verbatim>\<open>raw\<close> is parsed again behind its first colon.\<close>

function find_cmd :: "msg_tree \<Rightarrow> cstr \<Rightarrow> cmd_result" where
  "find_cmd t ch =
     (if is_numeric ch then Numeric (numeric_value ch) (drop 4 ch)
      else
        case tree_parse t (word_of ch) of
          None \<Rightarrow> Unknown (word_of ch)
        | Some m \<Rightarrow>
            (case strchr ch CHR '' '' of
               None \<Rightarrow> Command m (Some (word_of ch)) None
             | Some sp \<Rightarrow>
                 if m_func m = ''m_private'' \<and> myncmp (tl sp) ''raw '' 4 = Some 0
                 then (case strchr (tl sp) CHR '':'' of
                         None \<Rightarrow> Command m None (Some (tl sp))
                       | Some r \<Rightarrow> find_cmd t (tl r))
                 else Command m (Some (word_of ch)) (Some (tl sp))))"
  by pat_completeness auto
termination find_cmd
proof (relation "measure (\<lambda>(t, ch). length ch)")
  fix t ch m sp r
  assume "strchr ch CHR '' '' = Some sp" "strchr (tl sp) CHR '':'' = Some r"
  then show "((t, tl r), t, ch) \<in> measure (\<lambda>(t, ch). length ch)"
    using strchr_shorter [of ch "CHR '' ''" sp] strchr_shorter [of "tl sp" "CHR '':''" r] by (cases sp; cases r) auto
qed simp

declare find_cmd.simps [simp del]

text \<open>The parameters behind the command, and whether the operators are told of an overflow.\<close>

function split_params :: "nat \<Rightarrow> nat \<Rightarrow> cstr \<Rightarrow> cstr list \<times> bool" where
  "split_params paramcount i s =
     (case dropWhile (\<lambda>x. x = CHR '' '') s of
        [] \<Rightarrow> ([], False)
      | c # r \<Rightarrow>
          if c = CHR '':'' then ([r], False)
          else if i + 1 \<ge> paramcount then ([c # r], paramcount = MAXPARA \<and> CHR '' '' \<in> set (c # r))
          else
            (case split_params paramcount (i + 1) (dropWhile (\<lambda>x. x \<noteq> CHR '' '') (c # r)) of
               (ps, over) \<Rightarrow> (word_of (c # r) # ps, over)))"
  by pat_completeness auto
termination split_params
  by (relation "measure (\<lambda>(n, i, s). n - i)") auto

declare split_params.simps [simp del]

text \<open>The charge for a message: the clock of the sender, which limits how fast it is served.\<close>

definition charge :: "aClient \<Rightarrow> int \<Rightarrow> aClient" where
  "charge c i =
     (if IsServer c \<or> NoMsgThrottle c then c
      else if IsAnOper c then c\<lparr>c_since := c_since c + (if c_receiveM c mod 10 \<noteq> 0 then 1 else 0)\<rparr>
      else c\<lparr>c_since := c_since c + (2 + i div 120)\<rparr>)"

definition clip_count :: "nat \<Rightarrow> nat" where
  "clip_count n = (if n > MAXPARA then MAXPARA else n)"

definition overflow_note :: "cstr \<Rightarrow> addr \<Rightarrow> bool \<Rightarrow> parse_state \<Rightarrow> parse_state" where
  "overflow_note cmd cptr over st =
     (if over then tell (To_realops ''Overflowed MAXPARA on %s from %s'' [S cmd, Client_name cptr (hide_server (ps_clients st cptr))]) st
      else st)"

text \<open>What follows once the command is known: registration, the idle clock, the call.\<close>

definition dispatch ::
  "cstr \<Rightarrow> time_t \<Rightarrow> addr \<Rightarrow> addr \<Rightarrow> Message \<Rightarrow> cstr option \<Rightarrow> cstr list \<Rightarrow> parse_state \<Rightarrow> (parse_result \<times> parse_state) option" where
  "dispatch me_name NOW cptr sptr m ch para st =
     (let st = st\<lparr>ps_count := (ps_count st)(m_cmd m := ps_count st (m_cmd m) + 1)\<rparr>;
          c = ps_clients st cptr; f = ps_clients st sptr in
      if \<not> IsRegistered c \<and> \<not> has_flag (m_flags m) MF_UNREG
      then map_option (\<lambda>ch. (Return (- 1), tell (To_one sptr '':%s %d %s %s :Register first.''
             [S me_name, D 451, S (c_name f), S ch]) st)) ch
      else if IsRegisteredUser c \<and> has_flag (m_flags m) MF_RIDLE
      then map_option (\<lambda>u. (Do_func m cptr sptr para,
             st\<lparr>ps_clients := (ps_clients st)(sptr := f\<lparr>c_user := Some (u\<lparr>u_last := NOW\<rparr>)\<rparr>)\<rparr>)) (c_user f)
      else Some (Do_func m cptr sptr para, st))"

definition parse_command ::
  "msg_tree \<Rightarrow> cstr \<Rightarrow> time_t \<Rightarrow> addr \<Rightarrow> addr \<Rightarrow> cstr \<Rightarrow> cstr \<Rightarrow> nat \<Rightarrow> cstr \<Rightarrow> parse_state \<Rightarrow>
     (parse_result \<times> parse_state) option" where
  "parse_command t me_name NOW cptr sptr para0 buffer bufend ch st =
     (case find_cmd t ch of
        Numeric n s \<Rightarrow>
          (case split_params MAXPARA 1 s of
             (ps, over) \<Rightarrow> Some (Do_numeric n cptr sptr (para0 # ps),
               overflow_note ''numeric'' cptr over (st\<lparr>is_num := is_num st + 1\<rparr>)))
      | Unknown word \<Rightarrow>
          (let st = st\<lparr>is_unco := is_unco st + 1\<rparr> in
           Some (Return (- 1),
             if buffer \<noteq> [] \<and> IsPerson (ps_clients st sptr)
             then tell (To_one sptr '':%s %d %s %s :Unknown command'' [S me_name, D 421, S (c_name (ps_clients st sptr)), S word]) st
             else st))
      | Command m ch1 s \<Rightarrow>
          (let at = (case s of Some s1 \<Rightarrow> s1 | None \<Rightarrow> the ch1);
               i = int bufend - int (length buffer - length at);
               st = st\<lparr>ps_bytes := (ps_bytes st)(m_cmd m := ps_bytes st (m_cmd m) + of_int i),
                      ps_clients := (ps_clients st)(cptr := charge (ps_clients st cptr) i)\<rparr> in
           case s of
             None \<Rightarrow> dispatch me_name NOW cptr sptr m ch1 [para0] st
           | Some s1 \<Rightarrow>
               (case split_params (clip_count (m_parameters m)) 1 s1 of
                  (ps, over) \<Rightarrow> dispatch me_name NOW cptr sptr m ch1 (para0 # ps) (overflow_note (m_cmd m) cptr over st))))"

subsection \<open>The parser\<close>

definition empty_or_command ::
  "msg_tree \<Rightarrow> cstr \<Rightarrow> time_t \<Rightarrow> addr \<Rightarrow> addr \<Rightarrow> cstr \<Rightarrow> cstr \<Rightarrow> nat \<Rightarrow> cstr \<Rightarrow> parse_state \<Rightarrow>
     (parse_result \<times> parse_state) option" where
  "empty_or_command t me_name NOW cptr sptr para0 buffer bufend ch st =
     (if ch = [] then Some (Return (- 1), st\<lparr>is_empt := is_empt st + 1\<rparr>)
      else parse_command t me_name NOW cptr sptr para0 buffer bufend ch st)"

definition parse ::
  "msg_tree \<Rightarrow> cstr \<Rightarrow> time_t \<Rightarrow> addr \<Rightarrow> cstr \<Rightarrow> nat \<Rightarrow> parse_state \<Rightarrow> (parse_result \<times> parse_state) option" where
  "parse t me_name NOW cptr buffer bufend st =
     (let c = ps_clients st cptr; ch = dropWhile (\<lambda>x. x = CHR '' '') buffer in
      if IsDead c then Some (Return (- 1), st)
      else if ch \<noteq> [] \<and> hd ch = CHR '':'' then
        (let sender = take HOSTLEN (word_of (tl ch));
             ch1 = dropWhile (\<lambda>x. x = CHR '' '') (dropWhile (\<lambda>x. x \<noteq> CHR '' '') (tl ch)) in
         if sender \<noteq> [] \<and> IsServer c then
           (case hash_find_client (ps_clients st) (ps_table st) sender None of
              None \<Rightarrow> Some (Return (- 1), remove_unknown me_name cptr sender buffer (st\<lparr>is_unpf := is_unpf st + 1\<rparr>))
            | Some f \<Rightarrow>
                if c_from (ps_clients st f) \<noteq> cptr then cancel_clients me_name cptr f (st\<lparr>is_wrdi := is_wrdi st + 1\<rparr>)
                else empty_or_command t me_name NOW cptr f sender buffer bufend ch1 st)
         else empty_or_command t me_name NOW cptr cptr (c_name c) buffer bufend ch1 st)
      else empty_or_command t me_name NOW cptr cptr (c_name c) buffer bufend ch st)"

text \<open>\<^verbatim>\<open>getfield()\<close> with its static pointer \<^verbatim>\<open>line\<close>; the argument is null or a new line.\<close>

definition getfield :: "cstr option \<Rightarrow> cstr option \<Rightarrow> cstr option \<times> cstr option" where
  "getfield newline line =
     (case (case newline of Some l \<Rightarrow> Some l | None \<Rightarrow> line) of
        None \<Rightarrow> (None, None)
      | Some field \<Rightarrow>
          (case strchr field CHR '':'' of
             None \<Rightarrow> (Some (takeWhile (\<lambda>x. x \<noteq> CHR 0x0A) field), None)
           | Some e \<Rightarrow> (Some (takeWhile (\<lambda>x. x \<noteq> CHR '':'') field), Some (tl e))))"


subsection \<open>Commands and parameters found\<close>

lemma find_cmd_in_table: "find_cmd t ch = Command m ch1 s \<Longrightarrow> \<exists>w. tree_parse t w = Some m"
proof (induction t ch rule: find_cmd.induct)
  case (1 t ch)
  from "1.prems" show ?case
    by (subst (asm) find_cmd.simps) (auto split: if_splits option.splits intro: "1.IH")
qed

lemma split_params_end: "dropWhile (\<lambda>x. x = CHR '' '') s = [] \<Longrightarrow> split_params pc i s = ([], False)"
  unfolding split_params.simps [of pc i s] by (simp only: list.case)

lemma split_params_token:
  "dropWhile (\<lambda>x. x = CHR '' '') s = c # r \<Longrightarrow> split_params pc i s =
     (if c = CHR '':'' then ([r], False)
      else if i + 1 \<ge> pc then ([c # r], pc = MAXPARA \<and> CHR '' '' \<in> set (c # r))
      else (case split_params pc (i + 1) (dropWhile (\<lambda>x. x \<noteq> CHR '' '') (c # r)) of
              (ps, over) \<Rightarrow> (word_of (c # r) # ps, over)))"
  unfolding split_params.simps [of pc i s] by (simp only: list.case)

lemma split_params_length: "length (fst (split_params pc i s)) \<le> max 1 (pc - i)"
proof (induction pc i s rule: split_params.induct)
  case (1 pc i s)
  show ?case
  proof (cases "dropWhile (\<lambda>x. x = CHR '' '') s")
    case Nil
    from split_params_end [OF this] show ?thesis by simp
  next
    case (Cons c r)
    with "1.IH" [OF Cons] show ?thesis by (auto simp: split_params_token [OF Cons] case_prod_unfold)
  qed
qed

lemma params_fit:
  "length (fst (split_params (clip_count n) 1 s)) < MAXPARA" "length (fst (split_params MAXPARA 1 s)) < MAXPARA"
  using split_params_length [of "clip_count n" 1 s] split_params_length [of MAXPARA 1 s]
  by (auto simp: clip_count_def MAXPARA_def split: if_splits)

lemma dispatch_calls:
  assumes "dispatch me_name NOW cptr sptr m ch para st = Some (r, st')"
  shows "r = Return (- 1) \<or>
    r = Do_func m cptr sptr para \<and> (IsRegistered (ps_clients st cptr) \<or> has_flag (m_flags m) MF_UNREG)"
  using assms by (auto simp: dispatch_def Let_def split: if_splits)

lemma clients_overflow_note [simp]: "ps_clients (overflow_note x y z st) = ps_clients st"
  by (simp add: overflow_note_def tell_def)

lemma charge_keeps [simp]:
  "c_status (charge c i) = c_status c" "c_user (charge c i) = c_user c" "c_name (charge c i) = c_name c"
  "c_flags (charge c i) = c_flags c"
  by (simp_all add: charge_def)

text \<open>A command is dispatched in a state in which only counters and the clock of the connection differ.\<close>

lemma parse_command_dispatches:
  assumes "find_cmd t ch = Command m ch1 s"
  obtains i st1 where
    "parse_command t me_name NOW cptr sptr para0 buffer bufend ch st =
       dispatch me_name NOW cptr sptr m ch1
         (para0 # (case s of None \<Rightarrow> [] | Some s1 \<Rightarrow> fst (split_params (clip_count (m_parameters m)) 1 s1))) st1"
    and "ps_clients st1 = (ps_clients st)(cptr := charge (ps_clients st cptr) i)"
proof (cases s)
  case None
  with assms show ?thesis by (intro that) (auto simp: parse_command_def Let_def)
next
  case (Some s1)
  with assms show ?thesis by (intro that) (auto simp: parse_command_def Let_def case_prod_unfold)
qed

lemma parse_command_calls:
  assumes "parse_command t me_name NOW cptr sptr para0 buffer bufend ch st = Some (r, st')"
  shows "(case r of
            Return n \<Rightarrow> n = - 1
          | Exit_client _ _ _ \<Rightarrow> False
          | Do_numeric n c f para \<Rightarrow> c = cptr \<and> f = sptr \<and> hd para = para0 \<and> length para \<le> MAXPARA
          | Do_func m c f para \<Rightarrow> c = cptr \<and> f = sptr \<and> hd para = para0 \<and> length para \<le> MAXPARA \<and>
              (\<exists>w. tree_parse t w = Some m) \<and>
              (IsRegistered (ps_clients st cptr) \<or> has_flag (m_flags m) MF_UNREG))"
proof (cases "find_cmd t ch")
  case (Numeric n s)
  with assms params_fit(2) [of s] show ?thesis by (auto simp: parse_command_def split: prod.splits)
next
  case (Unknown w)
  with assms show ?thesis by (auto simp: parse_command_def Let_def)
next
  case (Command m ch1 s)
  obtain i st1 where eq: "parse_command t me_name NOW cptr sptr para0 buffer bufend ch st =
      dispatch me_name NOW cptr sptr m ch1
        (para0 # (case s of None \<Rightarrow> [] | Some s1 \<Rightarrow> fst (split_params (clip_count (m_parameters m)) 1 s1))) st1"
    and cs: "ps_clients st1 = (ps_clients st)(cptr := charge (ps_clients st cptr) i)"
    using parse_command_dispatches [OF Command] by metis
  have "length (case s of None \<Rightarrow> [] | Some s1 \<Rightarrow> fst (split_params (clip_count (m_parameters m)) 1 s1)) < MAXPARA"
    using params_fit(1) by (simp add: MAXPARA_def split: option.split)
  then show ?thesis using dispatch_calls [OF assms [unfolded eq]] find_cmd_in_table [OF Command] cs
    by (auto simp: IsRegistered_def)
qed

text \<open>
  The case analysis of \<open>parse\<close> itself: a message is answered at once, cancelled, or handed on with
  a sender that the connection may speak for.
\<close>

lemma parse_cases:
  assumes "parse t me_name NOW cptr buffer bufend st = x"
  obtains
    (early) n st' where "x = Some (Return n, st')"
  | (cancelled) f st1 where "x = cancel_clients me_name cptr f st1" "ps_clients st1 = ps_clients st" "IsServer (ps_clients st cptr)"
      "c_from (ps_clients st f) \<noteq> cptr"
  | (handed) f para0 ch where "x = parse_command t me_name NOW cptr f para0 buffer bufend ch st" "\<not> IsDead (ps_clients st cptr)"
      "ch \<noteq> []"
      "f = cptr \<and> para0 = c_name (ps_clients st cptr) \<or>
       IsServer (ps_clients st cptr) \<and> c_from (ps_clients st f) = cptr \<and>
       hash_find_client (ps_clients st) (ps_table st) para0 None = Some f"
proof -
  let ?c = "ps_clients st cptr" and ?ch = "dropWhile (\<lambda>x. x = CHR '' '') buffer"
  let ?sender = "take HOSTLEN (word_of (tl ?ch))"
  have hand: thesis if "empty_or_command t me_name NOW cptr f para0 buffer bufend ch st = x" "\<not> IsDead ?c"
      "f = cptr \<and> para0 = c_name ?c \<or> IsServer ?c \<and> c_from (ps_clients st f) = cptr \<and>
         hash_find_client (ps_clients st) (ps_table st) para0 None = Some f" for f para0 ch
    using that early handed [of f para0 ch] by (cases "ch = []") (auto simp: empty_or_command_def)
  consider "IsDead ?c" | "\<not> IsDead ?c" "\<not> (?ch \<noteq> [] \<and> hd ?ch = CHR '':'')"
    | "\<not> IsDead ?c" "?ch \<noteq> [] \<and> hd ?ch = CHR '':''" "\<not> (?sender \<noteq> [] \<and> IsServer ?c)"
    | "\<not> IsDead ?c" "?ch \<noteq> [] \<and> hd ?ch = CHR '':''" "?sender \<noteq> [] \<and> IsServer ?c" by blast
  then show thesis
  proof cases
    case 1
    then show thesis using assms early [of "- 1" st] by (simp add: parse_def)
  next
    case 2
    show thesis by (rule hand [of cptr "c_name ?c" ?ch]) (use assms 2 in \<open>simp_all only: parse_def Let_def if_True if_False simp_thms\<close>)
  next
    case 3
    show thesis
      by (rule hand [of cptr "c_name ?c" "dropWhile (\<lambda>x. x = CHR '' '') (dropWhile (\<lambda>x. x \<noteq> CHR '' '') (tl ?ch))"])
        (use assms 3 in \<open>simp_all only: parse_def Let_def if_True if_False simp_thms\<close>)
  next
    case 4
    then have x: "x = (case hash_find_client (ps_clients st) (ps_table st) ?sender None of
              None \<Rightarrow> Some (Return (- 1), remove_unknown me_name cptr ?sender buffer (st\<lparr>is_unpf := is_unpf st + 1\<rparr>))
            | Some f \<Rightarrow>
                if c_from (ps_clients st f) \<noteq> cptr then cancel_clients me_name cptr f (st\<lparr>is_wrdi := is_wrdi st + 1\<rparr>)
                else empty_or_command t me_name NOW cptr f ?sender buffer bufend
                       (dropWhile (\<lambda>x. x = CHR '' '') (dropWhile (\<lambda>x. x \<noteq> CHR '' '') (tl ?ch))) st)"
      using assms by (simp only: parse_def Let_def if_True if_False simp_thms)
    show thesis
    proof (cases "hash_find_client (ps_clients st) (ps_table st) ?sender None")
      case None
      with x early show thesis by simp
    next
      case (Some f)
      then show thesis using x 4(1,3) early cancelled hand by (cases "c_from (ps_clients st f) = cptr") auto
    qed
  qed
qed

lemma cancel_clients_result:
  assumes "IsServer (ps_clients st cptr)"
  shows "(\<exists>n st'. cancel_clients me_name cptr f st = Some (Return n, st')) \<or>
    (\<exists>who why st'. cancel_clients me_name cptr f st = Some (Exit_client cptr who why, st'))"
  using assms by (simp add: cancel_clients_def Let_def)

subsection \<open>Lines built from their parts\<close>

text \<open>\<open>format_params\<close> writes parameters the way servers send them, the last one behind a colon.\<close>

fun format_params :: "cstr list \<Rightarrow> cstr" where
  "format_params [] = []"
| "format_params [p] = CHR '' '' # CHR '':'' # p"
| "format_params (p # q # ps) = CHR '' '' # p @ format_params (q # ps)"

definition param_ok :: "cstr \<Rightarrow> bool" where
  "param_ok p \<longleftrightarrow> p \<noteq> [] \<and> hd p \<noteq> CHR '':'' \<and> CHR '' '' \<notin> set p"

lemma format_params_sep: "ps \<noteq> [] \<Longrightarrow> \<exists>r. format_params ps = CHR '' '' # r"
  by (cases ps rule: format_params.cases) auto

lemma span_word:
  assumes "CHR '' '' \<notin> set w"
  shows "word_of (w @ format_params ps) = w"
    and "dropWhile (\<lambda>x. x \<noteq> CHR '' '') (w @ format_params ps) = format_params ps"
proof -
  have "takeWhile (\<lambda>x. x \<noteq> CHR '' '') (format_params ps) = []" "dropWhile (\<lambda>x. x \<noteq> CHR '' '') (format_params ps) = format_params ps"
    using format_params_sep [of ps] by (cases "ps = []"; auto)+
  moreover have "\<forall>x\<in>set w. x \<noteq> CHR '' ''" using assms by auto
  ultimately show "word_of (w @ format_params ps) = w" "dropWhile (\<lambda>x. x \<noteq> CHR '' '') (w @ format_params ps) = format_params ps"
    by (simp_all add: word_of_def takeWhile_append dropWhile_append3 dropWhile_append2 takeWhile_append2)
qed

lemma split_format:
  assumes "list_all param_ok (butlast ps)" and "length ps \<le> 1 \<or> i + length ps \<le> pc"
  shows "split_params pc i (format_params ps) = (ps, False)"
  using assms
proof (induction ps arbitrary: i rule: format_params.induct)
  case 1
  then show ?case by (simp add: split_params_end)
next
  case (2 p)
  have "dropWhile (\<lambda>x. x = CHR '' '') (format_params [p]) = CHR '':'' # p" by simp
  from split_params_token [OF this] show ?case by simp
next
  case (3 p q ps)
  then obtain c r where p: "p = c # r" and c: "c \<noteq> CHR '':''" "CHR '' '' \<notin> set p" by (cases p) (auto simp: param_ok_def)
  then have "dropWhile (\<lambda>x. x = CHR '' '') (format_params (p # q # ps)) = c # r @ format_params (q # ps)" by auto
  from split_params_token [OF this] have "split_params pc i (format_params (p # q # ps)) =
      (case split_params pc (i + 1) (dropWhile (\<lambda>x. x \<noteq> CHR '' '') (p @ format_params (q # ps))) of
         (us, over) \<Rightarrow> (word_of (p @ format_params (q # ps)) # us, over))"
    using c(1) 3(3) p by auto
  with 3(1) [of "i + 1"] 3(2,3) span_word [OF c(2)] show ?case by auto
qed

lemma split_format_tl: "ps \<noteq> [] \<Longrightarrow> split_params pc i (tl (format_params ps)) = split_params pc i (format_params ps)"
  using format_params_sep [of ps] by (auto simp: split_params.simps [of pc i])

lemma raw_prefix:
  assumes "CHR '' '' \<notin> set p" and "myncmp (p @ CHR '' '' # r) ''raw '' 4 = Some 0"
  shows "mycmp p ''raw'' = 0"
proof -
  have sp: "ToUpper a = ToUpper CHR '' '' \<longleftrightarrow> a = CHR '' ''" "ToUpper CHR '' '' = ToUpper a \<longleftrightarrow> a = CHR '' ''" for a
    using ToUpper_caseless [of "CHR '' ''" a] by (auto simp: eq_commute)
  show ?thesis using assms
    by (cases p; cases "tl p"; cases "tl (tl p)"; cases "tl (tl (tl p))") (auto simp: sp split: if_splits)
qed

lemma find_cmd_format:
  assumes "tree_parse t w = Some m" and "w \<noteq> []" and "\<forall>c\<in>set w. upper_letter c"
    and "m_func m = ''m_private'' \<Longrightarrow> length ps \<ge> 2 \<Longrightarrow> CHR '' '' \<notin> set (hd ps) \<and> mycmp (hd ps) ''raw'' \<noteq> 0"
  shows "find_cmd t (w @ format_params ps) = Command m (Some w) (if ps = [] then None else Some (tl (format_params ps)))"
proof -
  have sp: "CHR '' '' \<notin> set w" using assms(3) by (auto simp: upper_letter_def)
  have "\<not> is_numeric (w @ format_params ps)" using assms(2,3)
    by (cases w) (auto simp: is_numeric_def upper_letter_def IsDigit_iff split: list.splits)
  moreover have "strchr (w @ format_params ps) CHR '' '' = (if ps = [] then None else Some (format_params ps))"
    using span_word(2) [OF sp, of ps] format_params_sep [of ps] by (auto simp: strchr_def)
  moreover have "myncmp (tl (format_params ps)) ''raw '' 4 \<noteq> Some 0" if "ps \<noteq> []" "m_func m = ''m_private''"
  proof (cases ps rule: format_params.cases)
    case (3 p q us)
    then obtain r where "format_params (q # us) = CHR '' '' # r" using format_params_sep [of "q # us"] by auto
    then show ?thesis using raw_prefix [of p r] assms(4) that(2) 3 by auto
  qed (use that in \<open>auto simp: ToUpper_eq\<close>)
  ultimately show ?thesis using assms(1) span_word(1) [OF sp, of ps] by (subst find_cmd.simps) auto
qed

lemma parse_command_format:
  assumes "tree_parse t (m_cmd m) = Some m" and "m_cmd m \<noteq> []" and "\<forall>c\<in>set (m_cmd m). upper_letter c"
    and "m_func m = ''m_private'' \<Longrightarrow> length ps \<ge> 2 \<Longrightarrow> CHR '' '' \<notin> set (hd ps) \<and> mycmp (hd ps) ''raw'' \<noteq> 0"
    and "list_all param_ok (butlast ps)" and "length ps \<le> 1 \<or> length ps < clip_count (m_parameters m)"
    and "IsServer (ps_clients st cptr)"
  shows "\<exists>st'. parse_command t me_name NOW cptr sptr para0 buffer bufend (m_cmd m @ format_params ps) st =
           Some (Do_func m cptr sptr (para0 # ps), st')"
proof -
  let ?s = "if ps = [] then None else Some (tl (format_params ps))"
  have cmd: "find_cmd t (m_cmd m @ format_params ps) = Command m (Some (m_cmd m)) ?s"
    using find_cmd_format [OF assms(1-4)] .
  obtain i st1 where eq: "parse_command t me_name NOW cptr sptr para0 buffer bufend (m_cmd m @ format_params ps) st =
      dispatch me_name NOW cptr sptr m (Some (m_cmd m))
        (para0 # (case ?s of None \<Rightarrow> [] | Some s1 \<Rightarrow> fst (split_params (clip_count (m_parameters m)) 1 s1))) st1"
    and cs: "ps_clients st1 = (ps_clients st)(cptr := charge (ps_clients st cptr) i)"
    using parse_command_dispatches [OF cmd] by metis
  have "(case ?s of None \<Rightarrow> [] | Some s1 \<Rightarrow> fst (split_params (clip_count (m_parameters m)) 1 s1)) = ps"
    using split_format [OF assms(5), of 1 "clip_count (m_parameters m)"] split_format_tl [of ps] assms(6) by auto
  with eq cs assms(7) show ?thesis
    by (auto simp: dispatch_def Let_def IsRegistered_def IsRegisteredUser_def IsServer_def STAT_SERVER_def STAT_CLIENT_def)
qed

lemma parse_format:
  assumes tree: "table_names_ok tab" "init_tree_parse tab = Some t" and "m \<in> set tab"
    and link: "IsServer (ps_clients st cptr)" "\<not> IsDead (ps_clients st cptr)"
    and sender: "sender \<noteq> []" "CHR '' '' \<notin> set sender" "length sender \<le> HOSTLEN"
      "hash_find_client (ps_clients st) (ps_table st) sender None = Some f" "c_from (ps_clients st f) = cptr"
    and params: "list_all param_ok (butlast ps)" "length ps \<le> 1 \<or> length ps < clip_count (m_parameters m)"
      "m_func m \<noteq> ''m_private'' \<or> length ps < 2 \<or> mycmp (hd ps) ''raw'' \<noteq> 0"
  shows "\<exists>st'. parse t me_name NOW cptr (CHR '':'' # sender @ CHR '' '' # m_cmd m @ format_params ps) bufend st =
           Some (Do_func m cptr f (sender # ps), st')"
proof -
  let ?line = "CHR '':'' # sender @ CHR '' '' # m_cmd m @ format_params ps"
  have name: "m_cmd m \<noteq> []" "\<forall>c\<in>set (m_cmd m). upper_letter c"
    using tree(1) assms(3) by (auto simp: table_names_ok_def list_all_iff)
  then have ch: "dropWhile (\<lambda>x. x = CHR '' '') (m_cmd m @ format_params ps) = m_cmd m @ format_params ps"
    by (cases "m_cmd m") (auto simp: upper_letter_def)
  have word: "word_of (sender @ CHR '' '' # r) = sender" "dropWhile (\<lambda>x. x \<noteq> CHR '' '') (sender @ CHR '' '' # r) = CHR '' '' # r" for r
    using sender(2) by (induction sender) (auto simp: word_of_def)
  have "CHR '' '' \<notin> set (hd ps)" if "length ps \<ge> 2" using params(1) that by (cases ps; cases "tl ps") (auto simp: param_ok_def)
  then have "\<exists>st'. parse_command t me_name NOW cptr f sender ?line bufend (m_cmd m @ format_params ps) st =
      Some (Do_func m cptr f (sender # ps), st')"
    using params link(1) name tree_finds_member [OF tree assms(3)] by (intro parse_command_format) auto
  then show ?thesis using link sender word name(1) by (simp add: parse_def empty_or_command_def Let_def ch)
qed

lemma parse_command_total:
  assumes "IsRegistered (ps_clients st cptr)" and "IsClient (ps_clients st cptr) \<Longrightarrow> c_user (ps_clients st sptr) \<noteq> None"
  shows "\<exists>x. parse_command t me_name NOW cptr sptr para0 buffer bufend ch st = Some x"
proof (cases "find_cmd t ch")
  case (Command m ch1 s)
  from parse_command_dispatches [OF this] obtain para i st1 where
    "parse_command t me_name NOW cptr sptr para0 buffer bufend ch st = dispatch me_name NOW cptr sptr m ch1 para st1"
    "ps_clients st1 = (ps_clients st)(cptr := charge (ps_clients st cptr) i)" by metis
  then show ?thesis using assms by (auto simp: dispatch_def Let_def IsRegistered_def IsRegisteredUser_def IsClient_def)
qed (auto simp: parse_command_def Let_def split: prod.split)

text \<open>Two connections and a user behind the first of them, for the examples.\<close>

definition example_state :: parse_state where
  "example_state =
     (let cs = (\<lambda>p. if p = 1 then (example_client ''hub.net'')\<lparr>c_status := STAT_SERVER, c_fd := 3, c_from := 1\<rparr>
                   else if p = 2 then (example_client ''alice'')\<lparr>c_user := Some example_user, c_from := 1\<rparr>
                   else (example_client [])\<lparr>c_status := STAT_UNKNOWN, c_fd := 4, c_from := 3\<rparr>) in
      \<lparr>ps_clients = cs, ps_table = add_to_client_hash_table ''alice'' 2 clear_hash_table,
       is_unco = 0, is_wrdi = 0, is_unpf = 0, is_empt = 0, is_num = 0, ps_count = (\<lambda>_. 0), ps_bytes = (\<lambda>_. 0), ps_out = []\<rparr>)"

definition example_topic :: Message where
  "example_topic = Msg ''TOPIC'' ''m_topic'' MAXPARA 0 0"

lemma example_line:
  assumes "init_tree_parse msgtab = Some t"
  shows "\<exists>st'. parse t ''irc.net'' 0 1 '':alice TOPIC #chan :hi there :)'' 512 example_state =
           Some (Do_func example_topic 1 2 [''alice'', ''#chan'', ''hi there :)''], st')"
proof -
  have "\<exists>st'. parse t ''irc.net'' 0 1 (CHR '':'' # ''alice'' @ CHR '' '' # m_cmd example_topic @ format_params [''#chan'', ''hi there :)'']) 512 example_state =
      Some (Do_func example_topic 1 2 (''alice'' # [''#chan'', ''hi there :)'']), st')"
    by (rule parse_format [OF msgtab_names_ok assms])
      (simp_all add: example_state_def example_topic_def msgtab_def Msg_def example_client_def status_defs IsDead_def has_flag_def
        HOSTLEN_def hash_find_client_def add_to_client_hash_table_def push_entry_def clear_hash_table_def param_ok_def
        clip_count_def MAXPARA_def Let_def)
  then show ?thesis by (simp add: example_topic_def Msg_def)
qed

subsection \<open>Properties\<close>

text \<open>
  C6: whatever a connection sends, a handler is only called for a command of the table, with the name
  of the sender first and at most \<open>MAXPARA\<close> parameters (so the array of parameters with its
  final null is not exceeded); from a connection that has not registered only for commands marked for
  such connections; and with a sender that is the connection itself or, when the connection is a
  server, a client of the name given in the prefix that is reached through this very server.
\<close>

theorem parse_calls_authentic:
  assumes tree: "table_names_ok tab" "init_tree_parse tab = Some t"
    and call: "parse t me_name NOW cptr buffer bufend st = Some (Do_func m c f para, st')"
  shows "m \<in> set tab \<and> c = cptr \<and> length para \<le> MAXPARA \<and> \<not> IsDead (ps_clients st cptr) \<and>
    (IsRegistered (ps_clients st cptr) \<or> has_flag (m_flags m) MF_UNREG) \<and>
    (f = cptr \<and> hd para = c_name (ps_clients st cptr) \<or>
     IsServer (ps_clients st cptr) \<and> c_from (ps_clients st f) = cptr \<and> mycmp (hd para) (c_name (ps_clients st f)) = 0)"
  using call
proof (cases rule: parse_cases)
  case (early n st')
  then show ?thesis by simp
next
  case (cancelled g st1)
  then show ?thesis using cancel_clients_result [of st1 cptr me_name g] by auto
next
  case (handed g para0 ch)
  have "m \<in> set tab" if "tree_parse t w = Some m" for w
    using tree_finds_table [OF tree] that find_SomeD by metis
  moreover have "mycmp para0 (c_name (ps_clients st g)) = 0"
    if "hash_find_client (ps_clients st) (ps_table st) para0 None = Some g"
    using that find_SomeD by (fastforce simp: hash_find_client_def split: option.splits)
  ultimately show ?thesis using parse_command_calls [OF handed(1) [symmetric]] handed(2,4) by auto
qed

theorem parse_calls_authentic_witness:
  "\<exists>t st'. init_tree_parse msgtab = Some t \<and>
     parse t ''irc.net'' 0 1 '':alice TOPIC #chan :hi there :)'' 512 example_state =
       Some (Do_func example_topic 1 2 [''alice'', ''#chan'', ''hi there :)''], st') \<and>
     example_topic \<in> set msgtab \<and> c_from (ps_clients example_state 2) = 1"
proof -
  obtain t where t: "init_tree_parse msgtab = Some t" using tree_built [OF msgtab_names_ok] by blast
  from example_line [OF t] obtain st' where call: "parse t ''irc.net'' 0 1 '':alice TOPIC #chan :hi there :)'' 512 example_state =
       Some (Do_func example_topic 1 2 [''alice'', ''#chan'', ''hi there :)''], st')" by blast
  from parse_calls_authentic [OF msgtab_names_ok t call] t call show ?thesis by auto
qed

text \<open>
  C9: a line that a server builds from a prefix, a command of the table and parameters is parsed back
  into exactly these: the handler of the command is called with the client of the prefix and the
  parameters, also when the last one is empty or contains spaces and colons.  (A message to
  \<^verbatim>\<open>raw\<close> is excluded, because the parser reads such a message as a command.)
\<close>

theorem parse_format_roundtrip:
  assumes tree: "table_names_ok tab" "init_tree_parse tab = Some t" and "m \<in> set tab"
    and link: "IsServer (ps_clients st cptr)" "\<not> IsDead (ps_clients st cptr)"
    and sender: "sender \<noteq> []" "CHR '' '' \<notin> set sender" "length sender \<le> HOSTLEN"
      "hash_find_client (ps_clients st) (ps_table st) sender None = Some f" "c_from (ps_clients st f) = cptr"
    and params: "list_all param_ok (butlast ps)" "length ps \<le> 1 \<or> length ps < clip_count (m_parameters m)"
      "m_func m \<noteq> ''m_private'' \<or> length ps < 2 \<or> mycmp (hd ps) ''raw'' \<noteq> 0"
  shows "\<exists>st'. parse t me_name NOW cptr (CHR '':'' # sender @ CHR '' '' # m_cmd m @ format_params ps) bufend st =
           Some (Do_func m cptr f (sender # ps), st')"
  using assms by (rule parse_format)

theorem parse_format_roundtrip_witness:
  "\<exists>t st'. init_tree_parse msgtab = Some t \<and>
     parse t ''irc.net'' 0 1 '':alice TOPIC #chan :hi there :)'' 512 example_state =
       Some (Do_func example_topic 1 2 [''alice'', ''#chan'', ''hi there :)''], st')"
proof -
  obtain t where t: "init_tree_parse msgtab = Some t" using tree_built [OF msgtab_names_ok] by blast
  have "\<exists>st'. parse t ''irc.net'' 0 1 (CHR '':'' # ''alice'' @ CHR '' '' # m_cmd example_topic @ format_params [''#chan'', ''hi there :)'']) 512 example_state =
      Some (Do_func example_topic 1 2 (''alice'' # [''#chan'', ''hi there :)'']), st')"
    by (rule parse_format_roundtrip [OF msgtab_names_ok t])
      (simp_all add: example_state_def example_topic_def msgtab_def Msg_def example_client_def status_defs IsDead_def has_flag_def
        HOSTLEN_def hash_find_client_def add_to_client_hash_table_def push_entry_def clear_hash_table_def param_ok_def
        clip_count_def MAXPARA_def Let_def)
  with t show ?thesis by (simp add: example_topic_def Msg_def)
qed

text \<open>
  C11: for a connection that has registered the parser always returns, whatever the line.  For one
  that has not, a message to \<^verbatim>\<open>raw\<close> without a colon makes it print the text at the
  address 1 as the name of the command, an invalid access.
\<close>

theorem parse_raw_crash:
  assumes tree: "table_names_ok tab" "init_tree_parse tab = Some t"
    and m: "m \<in> set tab" "m_cmd m = ''PRIVMSG''" "m_func m = ''m_private''" "\<not> has_flag (m_flags m) MF_UNREG"
    and c: "IsClient (ps_clients st cptr) \<Longrightarrow> c_user (ps_clients st cptr) \<noteq> None" "\<not> IsDead (ps_clients st cptr)"
    and x: "CHR '':'' \<notin> set x"
  shows "if IsRegistered (ps_clients st cptr) then \<exists>r. parse t me_name NOW cptr buffer bufend st = Some r
         else parse t me_name NOW cptr (''PRIVMSG raw '' @ x) bufend st = None"
proof (cases "IsRegistered (ps_clients st cptr)")
  case True
  have "\<exists>r. parse t me_name NOW cptr buffer bufend st = Some r"
    using refl [of "parse t me_name NOW cptr buffer bufend st"]
  proof (cases rule: parse_cases)
    case (cancelled f st1)
    then show ?thesis using cancel_clients_result [of st1 cptr me_name f] by auto
  next
    case (handed f para0 ch)
    have "\<exists>x. parse_command t me_name NOW cptr f para0 buffer bufend ch st = Some x"
      by (rule parse_command_total [OF True]) (use c(1) handed(4) in \<open>auto simp: IsServer_def IsClient_def STAT_SERVER_def STAT_CLIENT_def\<close>)
    with handed(1) show ?thesis by simp
  qed auto
  with True show ?thesis by simp
next
  case False
  let ?line = "''PRIVMSG raw '' @ x"
  have tp: "tree_parse t ''PRIVMSG'' = Some m" using tree_finds_member [OF tree m(1)] m(2) by simp
  have "strchr (''raw '' @ x) CHR '':'' = None" using x by (intro strchr_absent) auto
  moreover have "myncmp (''raw '' @ x) ''raw '' 4 = Some 0" by simp
  ultimately have cmd: "find_cmd t ?line = Command m None (Some (''raw '' @ x))"
    using tp m(3) by (subst find_cmd.simps) (simp add: is_numeric_def word_of_def strchr_def IsDigit_iff)
  from parse_command_dispatches [OF cmd] obtain para i st1 where
    "parse_command t me_name NOW cptr cptr (c_name (ps_clients st cptr)) ?line bufend ?line st = dispatch me_name NOW cptr cptr m None para st1"
    "ps_clients st1 = (ps_clients st)(cptr := charge (ps_clients st cptr) i)" by metis
  then have "parse_command t me_name NOW cptr cptr (c_name (ps_clients st cptr)) ?line bufend ?line st = None"
    using False m(4) by (simp add: dispatch_def Let_def IsRegistered_def)
  with False c(2) show ?thesis by (simp add: parse_def empty_or_command_def Let_def)
qed

theorem parse_raw_crash_witness:
  "\<exists>t. init_tree_parse msgtab = Some t \<and> parse t ''irc.net'' 0 3 ''PRIVMSG raw x'' 13 example_state = None"
proof -
  obtain t where t: "init_tree_parse msgtab = Some t" using tree_built [OF msgtab_names_ok] by blast
  let ?m = "Msg ''PRIVMSG'' ''m_private'' MAXPARA MF_RIDLE 0"
  have "if IsRegistered (ps_clients example_state 3) then \<exists>r. parse t ''irc.net'' 0 3 [] 13 example_state = Some r
         else parse t ''irc.net'' 0 3 (''PRIVMSG raw '' @ ''x'') 13 example_state = None"
    by (rule parse_raw_crash [OF msgtab_names_ok t, of ?m])
      (simp_all add: msgtab_def Msg_def MF_RIDLE_def MF_UNREG_def has_flag_def example_state_def example_client_def
        status_defs IsDead_def Let_def)
  moreover have "\<not> IsRegistered (ps_clients example_state 3)"
    by (simp add: example_state_def Let_def IsRegistered_def status_defs)
  ultimately show ?thesis using t by simp
qed

end
