(* ===== verification/Packet.thy ===== *)
theory Packet
  imports Parse Sbuf "HOL-Library.Sublist"
begin

section \<open>From bytes to lines (src/src/packet.c, src/src/s_bsd.c)\<close>

text \<open>
  What a connection sends is cut into lines, which are parsed.  \<open>dopacket\<close> does this for servers
  with the buffer of the connection, \<open>do_client_queue\<close> and \<open>client_dopacket\<close> for clients
  with the receive queue, which is served as fast as the clock of the client allows;
  \<open>read_packet\<close> is called when a socket has data.

  The handlers of the commands are the parameter \<open>handler\<close>: a call found by the parser and the state
  give the result of the handler and the state after it.  A connection is not compressed: where
  the code would call \<^verbatim>\<open>zip_input\<close>, the result is \<open>Zip_input\<close> with the bytes that
  are left (\<^verbatim>\<open>HAVE_ENCRYPTION_ON\<close> is not set).  A call of \<^verbatim>\<open>exit_client\<close>
  is the result \<open>Exit\<close>; for the own connection it returns \<open>FLUSH_BUFFER\<close>, and the callers below
  leave as for that value.  \<open>None\<close> is an invalid memory access.
\<close>

definition ZIP_NEXT_BUFFER :: int where "ZIP_NEXT_BUFFER = - 4"
definition FLUSH_BUFFER :: int where "FLUSH_BUFFER = - 2"
definition MAX_CLIENT_RECVQ :: int where "MAX_CLIENT_RECVQ = 8192"
definition CLIENT_FLOOD :: int where "CLIENT_FLOOD = 1560"

record listener =
  l_receiveM :: int
  l_receiveK :: int
  l_receiveB :: "16 word"

record io_state =
  io_parse :: parse_state
  io_sbuf :: sbuf_state
  io_listener :: "addr \<Rightarrow> listener"
  recvq_clients :: "addr list"
  io_out :: "out_msg list"

datatype packet_result = Ret int | Exit addr cstr | Zip_input cstr

definition client_at :: "io_state \<Rightarrow> addr \<Rightarrow> aClient" where
  "client_at st p = ps_clients (io_parse st) p"

definition upd_client :: "addr \<Rightarrow> (aClient \<Rightarrow> aClient) \<Rightarrow> io_state \<Rightarrow> io_state" where
  "upd_client p f st =
     st\<lparr>io_parse := (io_parse st)\<lparr>ps_clients := (ps_clients (io_parse st))(p := f (ps_clients (io_parse st) p))\<rparr>\<rparr>"

definition upd_listener :: "addr \<Rightarrow> (listener \<Rightarrow> listener) \<Rightarrow> io_state \<Rightarrow> io_state" where
  "upd_listener l f st = st\<lparr>io_listener := (io_listener st)(l := f (io_listener st l))\<rparr>"

subsection \<open>Byte counters\<close>

definition carry_bytes :: "int \<times> 16 word \<Rightarrow> int \<times> 16 word" where
  "carry_bytes kb = (case kb of (k, b) \<Rightarrow> (k + uint (drop_bit 10 b), b AND 0x03FF))"

definition add_received :: "nat \<Rightarrow> aClient \<Rightarrow> aClient" where
  "add_received n c = c\<lparr>c_receiveB := c_receiveB c + of_nat n\<rparr>"

definition carry_received :: "aClient \<Rightarrow> aClient" where
  "carry_received c =
     (case carry_bytes (c_receiveK c, c_receiveB c) of (k, b) \<Rightarrow> c\<lparr>c_receiveK := k, c_receiveB := b\<rparr>)"

text \<open>\<^verbatim>\<open>if (x.receiveB & 0x0400)\<close> in \<open>dopacket\<close>, \<^verbatim>\<open>if (x.receiveB > 1023)\<close> in
  \<open>client_dopacket\<close>.\<close>

definition carry_if_bit :: "aClient \<Rightarrow> aClient" where
  "carry_if_bit c = (if c_receiveB c AND 0x0400 \<noteq> 0 then carry_received c else c)"

definition carry_if_more :: "aClient \<Rightarrow> aClient" where
  "carry_if_more c = (if c_receiveB c > 1023 then carry_received c else c)"

definition listener_received :: "nat \<Rightarrow> listener \<Rightarrow> listener" where
  "listener_received n l =
     (let b = l_receiveB l + of_nat n in
      if b AND 0x0400 \<noteq> 0
      then (case carry_bytes (l_receiveK l, b) of (k, b) \<Rightarrow> l\<lparr>l_receiveK := k, l_receiveB := b\<rparr>)
      else l\<lparr>l_receiveB := b\<rparr>)"

definition count_received :: "addr \<Rightarrow> addr \<Rightarrow> nat \<Rightarrow> io_state \<Rightarrow> io_state" where
  "count_received me cptr n st =
     (let st = upd_client cptr (\<lambda>c. carry_if_bit (add_received n c)) (upd_client me (add_received n) st) in
      case c_lstn (client_at st cptr) of
        Some l \<Rightarrow> upd_listener l (listener_received n) st
      | None \<Rightarrow> upd_client me carry_if_bit st)"

definition count_message :: "addr \<Rightarrow> addr \<Rightarrow> io_state \<Rightarrow> io_state" where
  "count_message me cptr st =
     (let st = upd_client cptr (\<lambda>c. c\<lparr>c_receiveM := c_receiveM c + 1\<rparr>)
                 (upd_client me (\<lambda>c. c\<lparr>c_receiveM := c_receiveM c + 1\<rparr>) st) in
      case c_lstn (client_at st cptr) of
        Some l \<Rightarrow> upd_listener l (\<lambda>x. x\<lparr>l_receiveM := l_receiveM x + 1\<rparr>) st
      | None \<Rightarrow> st)"

subsection \<open>One line\<close>

text \<open>The buffer as a C string ends at its first NUL; \<^verbatim>\<open>bufend\<close> is the end of the received line.\<close>

definition c_string :: "cstr \<Rightarrow> cstr" where
  "c_string s = takeWhile (\<lambda>x. x \<noteq> CHR 0x00) s"

definition run_line ::
  "(parse_result \<Rightarrow> io_state \<Rightarrow> int \<times> io_state) \<Rightarrow> msg_tree \<Rightarrow> cstr \<Rightarrow> time_t \<Rightarrow> addr \<Rightarrow> cstr \<Rightarrow> io_state \<Rightarrow>
     (int \<times> io_state) option" where
  "run_line handler t me_name NOW cptr line st =
     map_option (\<lambda>(r, p). case r of
         Return n \<Rightarrow> (n, st\<lparr>io_parse := p\<rparr>)
       | _ \<Rightarrow> handler r (st\<lparr>io_parse := p\<rparr>))
       (parse t me_name NOW cptr (c_string line) (length line) (io_parse st))"

definition dead_text :: "aClient \<Rightarrow> cstr" where
  "dead_text c = (if has_flag (c_flags c) FLAGS_SENDQEX then ''SendQ exceeded'' else ''Dead socket'')"

subsection \<open>Servers: dopacket\<close>

text \<open>
  The loop over the received bytes; \<open>cur\<close> is what stands in the buffer of the connection before
  \<^verbatim>\<open>ch1\<close>, and \<open>run\<close> parses one line.
\<close>

fun packet_loop ::
  "(cstr \<Rightarrow> io_state \<Rightarrow> (int \<times> io_state) option) \<Rightarrow> addr \<Rightarrow> addr \<Rightarrow> cstr \<Rightarrow> cstr \<Rightarrow> io_state \<Rightarrow>
     (packet_result \<times> io_state) option" where
  "packet_loop run me cptr cur [] st = Some (Ret 0, upd_client cptr (\<lambda>c. c\<lparr>c_buffer := cur\<rparr>) st)"
| "packet_loop run me cptr cur (g # bs) st =
     (if g = CHR 0x0A \<or> g = CHR 0x0D then
        if cur = [] then packet_loop run me cptr [] bs st
        else
          (case run cur (upd_client cptr (\<lambda>c. c\<lparr>c_buffer := []\<rparr>) (count_message me cptr st)) of
             None \<Rightarrow> None
           | Some (r, st1) \<Rightarrow>
               if r = FLUSH_BUFFER then Some (Ret FLUSH_BUFFER, st1)
               else if r = ZIP_NEXT_BUFFER \<and> bs \<noteq> [] then Some (Zip_input bs, st1)
               else if IsDead (client_at st1 cptr) then Some (Exit cptr (dead_text (client_at st1 cptr)), st1)
               else packet_loop run me cptr [] bs st1)
      else if length cur < BUFSIZE - 1 then packet_loop run me cptr (cur @ [g]) bs st
      else packet_loop run me cptr cur bs st)"

definition dopacket ::
  "(cstr \<Rightarrow> io_state \<Rightarrow> (int \<times> io_state) option) \<Rightarrow> addr \<Rightarrow> addr \<Rightarrow> cstr \<Rightarrow> io_state \<Rightarrow> (packet_result \<times> io_state) option" where
  "dopacket run me cptr buffer st =
     (let st = count_received me cptr (length buffer) st in
      if ZipIn (client_at st cptr) then Some (Zip_input buffer, st)
      else packet_loop run me cptr (c_buffer (client_at st cptr)) buffer st)"

subsection \<open>Clients: client_dopacket and the receive queue\<close>

text \<open>
  \<^verbatim>\<open>strncpy\<close> into the buffer of \<open>BUFSIZE\<close> bytes writes no NUL when the line is that long, and
  \<^verbatim>\<open>strlen\<close> then reads behind the buffer.
\<close>

definition client_dopacket ::
  "(cstr \<Rightarrow> io_state \<Rightarrow> (int \<times> io_state) option) \<Rightarrow> addr \<Rightarrow> addr \<Rightarrow> cstr \<Rightarrow> io_state \<Rightarrow> (packet_result \<times> io_state) option" where
  "client_dopacket run me cptr buffer st =
     (let line = c_string buffer in
      if length line \<ge> BUFSIZE then None
      else
        (let st = upd_client cptr (\<lambda>c. c\<lparr>c_receiveM := c_receiveM c + 1\<rparr>)
                    (upd_client me (\<lambda>c. c\<lparr>c_receiveM := c_receiveM c + 1\<rparr>) st);
             st = upd_client cptr (\<lambda>c. carry_if_more (add_received (length line) c)) st;
             st = upd_client me (\<lambda>c. carry_if_more (add_received (length line) c)) st;
             st = upd_client cptr (\<lambda>c. c\<lparr>c_buffer := []\<rparr>) st in
         case run line st of
           None \<Rightarrow> None
         | Some (r, st1) \<Rightarrow>
             if r = FLUSH_BUFFER then Some (Ret FLUSH_BUFFER, st1)
             else if IsDead (client_at st1 cptr) then Some (Exit cptr (dead_text (client_at st1 cptr)), st1)
             else Some (Ret 1, st1)))"

definition set_flags :: "addr \<Rightarrow> u32 \<Rightarrow> io_state \<Rightarrow> io_state" where
  "set_flags p f st = upd_client p (\<lambda>c. c\<lparr>c_flags := c_flags c OR f\<rparr>) st"

definition queue_length :: "(addr \<Rightarrow> addr) \<Rightarrow> addr \<Rightarrow> io_state \<Rightarrow> int" where
  "queue_length recvQ cptr st = q_length (sbufs (io_sbuf st) (recvQ cptr))"

text \<open>The condition of the loop of \<open>do_client_queue\<close>.\<close>

definition may_serve :: "(addr \<Rightarrow> addr) \<Rightarrow> time_t \<Rightarrow> addr \<Rightarrow> io_state \<Rightarrow> bool" where
  "may_serve recvQ NOW cptr st \<longleftrightarrow>
     (let c = client_at st cptr in
      queue_length recvQ cptr st \<noteq> 0 \<and> \<not> NoNewLine c \<and>
      (c_status c < STAT_UNKNOWN \<or> c_since c - NOW < 10 \<or> IsNegoServer c))"

definition end_of_queue :: "(addr \<Rightarrow> addr) \<Rightarrow> addr \<Rightarrow> io_state \<Rightarrow> packet_result \<times> io_state" where
  "end_of_queue recvQ cptr st =
     (let c = client_at st cptr in
      if \<not> has_flag (c_flags c) FLAGS_HAVERECVQ \<and> queue_length recvQ cptr st \<noteq> 0 \<and> \<not> NoNewLine c
      then (Ret 1, set_flags cptr FLAGS_HAVERECVQ (st\<lparr>recvq_clients := cptr # recvq_clients st\<rparr>))
      else (Ret 1, st))"

text \<open>
  The body of the loop: \<open>Inl\<close> leaves the function or the loop, \<open>Inr\<close> goes on.
  Leaving the loop runs \<open>end_of_queue\<close>.
\<close>

definition serve_one ::
  "(cstr \<Rightarrow> io_state \<Rightarrow> (int \<times> io_state) option) \<Rightarrow> (addr \<Rightarrow> addr) \<Rightarrow> nat \<Rightarrow> addr \<Rightarrow> addr \<Rightarrow> io_state \<Rightarrow>
     ((packet_result \<times> io_state) + io_state) option" where
  "serve_one run recvQ rcvbufmax me cptr st =
     (if IsServer (client_at st cptr) \<or> IsNegoServer (client_at st cptr) then
        (case sbuf_get (recvQ cptr) rcvbufmax (io_sbuf st) of
           None \<Rightarrow> None
         | Some (dolen, bytes, sb) \<Rightarrow>
             if dolen \<le> 0 then Some (Inl (end_of_queue recvQ cptr (st\<lparr>io_sbuf := sb\<rparr>)))
             else map_option (\<lambda>(r, st1). if r = Ret 0 then Inl (end_of_queue recvQ cptr st1) else Inl (r, st1))
                    (dopacket run me cptr bytes (st\<lparr>io_sbuf := sb\<rparr>)))
      else
        (case sbuf_getmsg (recvQ cptr) rcvbufmax (io_sbuf st) of
           None \<Rightarrow> None
         | Some (dolen, line, sb) \<Rightarrow>
             (let st = st\<lparr>io_sbuf := sb\<rparr> in
              if dolen < 0 then Some (Inl (Exit cptr ''sbuf_getmsg fail'', st))
              else if dolen = 0 then
                if queue_length recvQ cptr st < 510 then Some (Inl (end_of_queue recvQ cptr (set_flags cptr FLAGS_NONL st)))
                else map_option (\<lambda>(_, sb). Inl (end_of_queue recvQ cptr (st\<lparr>io_sbuf := sb\<rparr>)))
                       (sbuf_delete (recvQ cptr) (nat (queue_length recvQ cptr st)) (io_sbuf st))
              else map_option (\<lambda>(r, st1). if r = Ret 1 then Inr st1 else Inl (r, st1))
                     (client_dopacket run me cptr line st))))"

partial_function (option) do_client_queue ::
  "(cstr \<Rightarrow> io_state \<Rightarrow> (int \<times> io_state) option) \<Rightarrow> (addr \<Rightarrow> addr) \<Rightarrow> nat \<Rightarrow> time_t \<Rightarrow> addr \<Rightarrow> addr \<Rightarrow> io_state \<Rightarrow>
     (packet_result \<times> io_state) option" where
  "do_client_queue run recvQ rcvbufmax NOW me cptr st =
     (if may_serve recvQ NOW cptr st
      then Option.bind (serve_one run recvQ rcvbufmax me cptr st)
             (\<lambda>x. case x of Inl y \<Rightarrow> Some y | Inr st1 \<Rightarrow> do_client_queue run recvQ rcvbufmax NOW me cptr st1)
      else Some (end_of_queue recvQ cptr st))"

text \<open>\<^verbatim>\<open>recv\<close>: no data yet, an end or error with the result and \<^verbatim>\<open>errno\<close>, or bytes.\<close>

datatype recv_result = Again | Failed int int | Data cstr

definition handle_input ::
  "(cstr \<Rightarrow> io_state \<Rightarrow> (int \<times> io_state) option) \<Rightarrow> (addr \<Rightarrow> addr) \<Rightarrow> nat \<Rightarrow> time_t \<Rightarrow> addr \<Rightarrow> addr \<Rightarrow> cstr \<Rightarrow> io_state \<Rightarrow>
     (packet_result \<times> io_state) option" where
  "handle_input run recvQ rcvbufmax NOW me cptr bytes st =
     (let c = client_at st cptr in
      if IsServer c \<or> IsConnecting c \<or> IsHandshake c \<or> IsNegoServer c then
        if bytes \<noteq> []
        then map_option (\<lambda>(r, st1). (if r = Ret 0 then Ret 1 else r, st1)) (dopacket run me cptr bytes st)
        else Some (Ret 1, st)
      else
        (case sbuf_put (recvQ cptr) bytes (io_sbuf st) of
           None \<Rightarrow> None
         | Some (r, sb) \<Rightarrow>
             (let st = st\<lparr>io_sbuf := sb\<rparr> in
              if r < 0 then Some (Exit cptr ''sbuf_put fail'', st)
              else if IsPerson c \<and> \<not> IsAnOper c \<and> queue_length recvQ cptr st > CLIENT_FLOOD
              then Some (Exit cptr ''Excess Flood'',
                     st\<lparr>io_out := io_out st @ [To_realops ''Flood -- %s!%s@%s (%d) Exceeds %d RecvQ''
                       [S (if c_name c = [] then ''*'' else c_name c),
                        S (case c_user c of Some u \<Rightarrow> u_username u | None \<Rightarrow> ''*''),
                        S (case c_user c of Some u \<Rightarrow> u_host u | None \<Rightarrow> ''*''),
                        D (queue_length recvQ cptr st), D CLIENT_FLOOD]]\<rparr>)
              else do_client_queue run recvQ rcvbufmax NOW me cptr st)))"

definition read_packet ::
  "(cstr \<Rightarrow> io_state \<Rightarrow> (int \<times> io_state) option) \<Rightarrow> (addr \<Rightarrow> addr) \<Rightarrow> nat \<Rightarrow> time_t \<Rightarrow> addr \<Rightarrow> addr \<Rightarrow> (nat \<Rightarrow> recv_result) \<Rightarrow>
     io_state \<Rightarrow> (packet_result \<times> io_state) option" where
  "read_packet run recvQ rcvbufmax NOW me cptr recv st =
     (let c = client_at st cptr in
      if IsPerson c \<and> queue_length recvQ cptr st > MAX_CLIENT_RECVQ
      then handle_input run recvQ rcvbufmax NOW me cptr [] st
      else
        (let st1 = upd_client cptr (\<lambda>c. c\<lparr>c_lasttime := NOW, c_since := (if NOW > c_since c then NOW else c_since c),
                     c_flags := c_flags c AND NOT (FLAGS_PINGSENT OR FLAGS_NONL)\<rparr>) st in
         case recv (if IsPerson c then 8192 else rcvbufmax) of
           Again \<Rightarrow> Some (Ret 1, st1)
         | Failed n errno \<Rightarrow> Some (Ret n, upd_client cptr (\<lambda>c. c\<lparr>c_sockerr := (if n \<noteq> 0 then errno else 0)\<rparr>) st1)
         | Data bytes \<Rightarrow> handle_input run recvQ rcvbufmax NOW me cptr bytes st1))"

subsection \<open>Servers: the lines of a stream\<close>

text \<open>\<open>cut_lines\<close> is the reference: the lines of a stream, and what stands behind the last line end.\<close>

fun cut_lines :: "cstr \<Rightarrow> cstr list \<times> cstr" where
  "cut_lines [] = ([], [])"
| "cut_lines (c # s) =
     (case cut_lines s of (ls, r) \<Rightarrow>
        if IsEol c then ([] # ls, r)
        else (case ls of [] \<Rightarrow> ([], c # r) | l # ls1 \<Rightarrow> ((c # l) # ls1, r)))"

definition line_texts :: "cstr \<Rightarrow> cstr list" where
  "line_texts s = map (take (BUFSIZE - 1)) (filter (\<lambda>l. l \<noteq> []) (fst (cut_lines s)))"

text \<open>Parsing lines one after the other, until the connection is gone.\<close>

fun serve_lines ::
  "(cstr \<Rightarrow> io_state \<Rightarrow> (int \<times> io_state) option) \<Rightarrow> addr \<Rightarrow> addr \<Rightarrow> cstr list \<Rightarrow> cstr \<Rightarrow> io_state \<Rightarrow>
     (packet_result \<times> io_state) option" where
  "serve_lines run me cptr [] rest st = Some (Ret 0, upd_client cptr (\<lambda>c. c\<lparr>c_buffer := rest\<rparr>) st)"
| "serve_lines run me cptr (l # ls) rest st =
     (case run l (upd_client cptr (\<lambda>c. c\<lparr>c_buffer := []\<rparr>) (count_message me cptr st)) of
        None \<Rightarrow> None
      | Some (r, st1) \<Rightarrow>
          if r = FLUSH_BUFFER then Some (Ret FLUSH_BUFFER, st1)
          else if IsDead (client_at st1 cptr) then Some (Exit cptr (dead_text (client_at st1 cptr)), st1)
          else serve_lines run me cptr ls rest st1)"

lemma cut_lines_no_eol: "\<forall>c\<in>set s. \<not> IsEol c \<Longrightarrow> cut_lines s = ([], s)"
  by (induction s) auto

lemma cut_lines_first:
  "\<forall>c\<in>set a. \<not> IsEol c \<Longrightarrow> IsEol e \<Longrightarrow> cut_lines (a @ e # s) = (a # fst (cut_lines s), snd (cut_lines s))"
  by (induction a) (auto simp: case_prod_unfold)

lemma cut_lines_append:
  assumes "\<forall>c\<in>set a. \<not> IsEol c"
  shows "cut_lines (a @ s) = (case cut_lines s of (ls, r) \<Rightarrow> case ls of [] \<Rightarrow> ([], a @ r) | l # ls1 \<Rightarrow> ((a @ l) # ls1, r))"
  using assms by (induction a) (auto split: list.splits prod.splits)

lemma packet_loop_lines:
  assumes no_zip: "\<And>l st r st1. run l st = Some (r, st1) \<Longrightarrow> r \<noteq> ZIP_NEXT_BUFFER"
    and "length cur < BUFSIZE" and "\<forall>c\<in>set cur. \<not> IsEol c"
  shows "packet_loop run me cptr cur bs st =
    serve_lines run me cptr (line_texts (cur @ bs)) (take (BUFSIZE - 1) (snd (cut_lines (cur @ bs)))) st"
  using assms(2,3)
proof (induction bs arbitrary: cur st)
  case Nil
  then show ?case by (simp add: cut_lines_no_eol line_texts_def BUFSIZE_def)
next
  case (Cons g bs)
  have eol: "IsEol g \<longleftrightarrow> g = CHR 0x0A \<or> g = CHR 0x0D" by (auto simp: IsEol_def)
  have cur: "take (BUFSIZE - 1) cur = cur" using Cons.prems(1) by simp
  show ?case
  proof (cases "IsEol g")
    case True
    have "line_texts (cur @ g # bs) = (if cur = [] then [] else [cur]) @ line_texts bs"
      "snd (cut_lines (cur @ g # bs)) = snd (cut_lines bs)"
      using cut_lines_first [OF Cons.prems(2) True, of bs] cur by (auto simp: line_texts_def)
    then show ?thesis using True Cons.IH [of "[]"] no_zip
      by (auto simp: eol BUFSIZE_def split: option.splits)
  next
    case False
    then have g: "g \<noteq> CHR 0x0A" "g \<noteq> CHR 0x0D" by (simp_all add: eol)
    show ?thesis
    proof (cases "length cur < BUFSIZE - 1")
      case True
      then show ?thesis using Cons.IH [of "cur @ [g]"] g False Cons.prems by (auto simp: BUFSIZE_def)
    next
      case full: False
      then have len: "length cur = BUFSIZE - 1" using Cons.prems(1) by simp
      have "cut_lines (cur @ g # bs) = (case cut_lines bs of (ls, r) \<Rightarrow> case ls of [] \<Rightarrow> ([], cur @ g # r) | l # ls1 \<Rightarrow> ((cur @ g # l) # ls1, r))"
        using cut_lines_append [of "cur @ [g]" bs] Cons.prems(2) False by (auto split: prod.splits list.splits)
      then have "line_texts (cur @ g # bs) = line_texts (cur @ bs)"
        "take (BUFSIZE - 1) (snd (cut_lines (cur @ g # bs))) = take (BUFSIZE - 1) (snd (cut_lines (cur @ bs)))"
        using cut_lines_append [OF Cons.prems(2), of bs] len by (auto simp: line_texts_def BUFSIZE_def split: list.splits prod.splits)
      then show ?thesis using Cons.IH [of cur] Cons.prems full g by simp
    qed
  qed
qed

subsection \<open>Clients: the receive queue is always served to an end\<close>

text \<open>Every line in the bytes is short enough for the buffer of a client.\<close>

definition short_lines :: "cstr \<Rightarrow> bool" where
  "short_lines s \<longleftrightarrow> (\<forall>i\<le>length s. length (takeWhile (\<lambda>c. \<not> IsEol c) (drop i s)) < BUFSIZE)"

lemma short_lines_drop: "short_lines s \<Longrightarrow> short_lines (drop n s)"
  unfolding short_lines_def
proof (intro allI impI)
  fix i assume h: "\<forall>i\<le>length s. length (takeWhile (\<lambda>c. \<not> IsEol c) (drop i s)) < BUFSIZE" and "i \<le> length (drop n s)"
  show "length (takeWhile (\<lambda>c. \<not> IsEol c) (drop i (drop n s))) < BUFSIZE"
  proof (cases "i + n \<le> length s")
    case True
    with h show ?thesis by (simp add: add.commute)
  qed (simp add: BUFSIZE_def)
qed

lemma io_sbuf_upd [simp]:
  "io_sbuf (upd_client p f st) = io_sbuf st" "io_sbuf (upd_listener l g st) = io_sbuf st" "io_sbuf (set_flags p x st) = io_sbuf st"
  by (simp_all add: upd_client_def upd_listener_def set_flags_def)

lemma client_at_upd [simp]:
  "client_at (upd_client p f st) c = (if c = p then f (client_at st p) else client_at st c)"
  "client_at (upd_listener l g st) c = client_at st c" "client_at (st\<lparr>io_sbuf := sb\<rparr>) c = client_at st c"
  "client_at (st\<lparr>recvq_clients := cs\<rparr>) c = client_at st c"
  by (simp_all add: client_at_def upd_client_def upd_listener_def)

lemma c_buffer_counters [simp]:
  "c_buffer (add_received n c) = c_buffer c" "c_buffer (carry_received c) = c_buffer c" "c_buffer (carry_if_bit c) = c_buffer c"
  "c_buffer (carry_if_more c) = c_buffer c"
  by (simp_all add: add_received_def carry_received_def carry_if_bit_def carry_if_more_def split: prod.split)

lemma count_keeps [simp]:
  "io_sbuf (count_received me p n st) = io_sbuf st" "io_sbuf (count_message me p st) = io_sbuf st"
  "c_buffer (client_at (count_received me p n st) c) = c_buffer (client_at st c)"
  "c_buffer (client_at (count_message me p st) c) = c_buffer (client_at st c)"
  by (simp_all add: count_received_def count_message_def Let_def split: option.split)

lemma end_of_queue_keeps [simp]:
  "io_sbuf (snd (end_of_queue recvQ p st)) = io_sbuf st" "c_buffer (client_at (snd (end_of_queue recvQ p st)) c) = c_buffer (client_at st c)"
  by (simp_all add: end_of_queue_def Let_def set_flags_def)

text \<open>
  What the input code relies on.  \<open>io_ok\<close>: the queues are consistent, the buffer of the connection
  has room for a NUL, and the connection has registered (a user has its \<^verbatim>\<open>struct User\<close>).
  \<open>runs_lines\<close>: running a line that fits the buffer returns and leaves an end part of the receive queue
  of the connection (all of it, or less when the connection is closed); unless it returns
  \<open>FLUSH_BUFFER\<close>, as it does when the connection is gone, the state is as before the line.
\<close>

definition registered_ok :: "aClient \<Rightarrow> bool" where
  "registered_ok c \<longleftrightarrow> IsRegistered c \<and> (IsClient c \<longrightarrow> c_user c \<noteq> None)"

definition io_ok :: "addr set \<Rightarrow> addr \<Rightarrow> io_state \<Rightarrow> bool" where
  "io_ok Q cptr st \<longleftrightarrow>
     sbuf_ok Q (io_sbuf st) \<and> length (c_buffer (client_at st cptr)) < BUFSIZE \<and> registered_ok (client_at st cptr)"

definition line_ok :: "addr set \<Rightarrow> addr \<Rightarrow> addr \<Rightarrow> io_state \<Rightarrow> int \<times> io_state \<Rightarrow> bool" where
  "line_ok Q cptr q st x \<longleftrightarrow>
     suffix (qbytes (io_sbuf (snd x)) q) (qbytes (io_sbuf st) q) \<and> (fst x = FLUSH_BUFFER \<or> io_ok Q cptr (snd x))"

definition runs_lines :: "(cstr \<Rightarrow> io_state \<Rightarrow> (int \<times> io_state) option) \<Rightarrow> addr set \<Rightarrow> addr \<Rightarrow> addr \<Rightarrow> bool" where
  "runs_lines run Q cptr q \<longleftrightarrow>
     (\<forall>l st. length l < BUFSIZE \<longrightarrow> io_ok Q cptr st \<longrightarrow> (\<exists>x. run l st = Some x \<and> line_ok Q cptr q st x))"

definition stays_ok :: "addr set \<Rightarrow> addr \<Rightarrow> addr \<Rightarrow> io_state \<Rightarrow> (packet_result \<times> io_state) option \<Rightarrow> bool" where
  "stays_ok Q cptr q st x \<longleftrightarrow>
     (\<exists>r st1. x = Some (r, st1) \<and> suffix (qbytes (io_sbuf st1) q) (qbytes (io_sbuf st) q) \<and> (r = Ret FLUSH_BUFFER \<or> io_ok Q cptr st1))"

lemma registered_ok_counters [simp]:
  "registered_ok (add_received n c) = registered_ok c" "registered_ok (carry_received c) = registered_ok c"
  "registered_ok (carry_if_bit c) = registered_ok c" "registered_ok (carry_if_more c) = registered_ok c"
  "registered_ok (c\<lparr>c_receiveM := k\<rparr>) = registered_ok c" "registered_ok (c\<lparr>c_buffer := b\<rparr>) = registered_ok c"
  "registered_ok (if x then d else c) = (if x then registered_ok d else registered_ok c)"
  by (simp_all add: registered_ok_def IsRegistered_def IsClient_def add_received_def carry_received_def carry_if_bit_def
      carry_if_more_def split: prod.split)

lemma count_keeps_registered [simp]:
  "registered_ok (client_at (count_received me p n st) c) = registered_ok (client_at st c)"
  "registered_ok (client_at (count_message me p st) c) = registered_ok (client_at st c)"
  by (simp_all add: count_received_def count_message_def Let_def split: option.split)

lemma runs_linesD:
  assumes "runs_lines run Q cptr q" "length l < BUFSIZE" "io_ok Q cptr st"
  obtains r st1 where "run l st = Some (r, st1)" "suffix (qbytes (io_sbuf st1) q) (qbytes (io_sbuf st) q)"
    "r = FLUSH_BUFFER \<or> io_ok Q cptr st1"
  using assms unfolding runs_lines_def line_ok_def by fastforce

lemma stays_ok_from:
  "stays_ok Q cptr q st1 x \<Longrightarrow> suffix (qbytes (io_sbuf st1) q) (qbytes (io_sbuf st) q) \<Longrightarrow> stays_ok Q cptr q st x"
  unfolding stays_ok_def using suffix_order.trans by blast

lemma packet_loop_total:
  assumes run: "runs_lines run Q cptr q" and "io_ok Q cptr st" and "length cur < BUFSIZE"
  shows "stays_ok Q cptr q st (packet_loop run me cptr cur bs st)"
  using assms(2,3)
proof (induction bs arbitrary: cur st)
  case Nil
  then show ?case by (simp add: stays_ok_def io_ok_def)
next
  case (Cons g bs)
  let ?st = "upd_client cptr (\<lambda>c. c\<lparr>c_buffer := []\<rparr>) (count_message me cptr st)"
  have e: "length [] < BUFSIZE" by (simp add: BUFSIZE_def)
  have "io_ok Q cptr ?st" using Cons.prems(1) e by (simp add: io_ok_def)
  then obtain r st1 where r: "run cur ?st = Some (r, st1)" "suffix (qbytes (io_sbuf st1) q) (qbytes (io_sbuf st) q)"
      "r = FLUSH_BUFFER \<or> io_ok Q cptr st1"
    using runs_linesD [OF run Cons.prems(2), of ?st] by auto
  have "stays_ok Q cptr q st (packet_loop run me cptr [] bs st1)" if "r \<noteq> FLUSH_BUFFER"
    using stays_ok_from [OF Cons.IH [OF _ e, of st1] r(2)] r(3) that by simp
  moreover have "stays_ok Q cptr q st (Some (x, st1))" if "r = FLUSH_BUFFER \<longrightarrow> x = Ret FLUSH_BUFFER" for x
    using r(2,3) that by (auto simp: stays_ok_def)
  ultimately show ?case using r(1) Cons.IH [OF Cons.prems(1), of "[]"] Cons.IH [OF Cons.prems(1), of "cur @ [g]"] Cons.IH [OF Cons.prems(1), of "[g]"]
      Cons.IH [OF Cons.prems] e by simp
qed

lemma dopacket_total:
  assumes "runs_lines run Q cptr q" and "io_ok Q cptr st"
  shows "stays_ok Q cptr q st (dopacket run me cptr bytes st)"
proof -
  let ?st = "count_received me cptr (length bytes) st"
  have ok: "io_ok Q cptr ?st" using assms(2) by (simp add: io_ok_def)
  then have "stays_ok Q cptr q ?st (packet_loop run me cptr (c_buffer (client_at ?st cptr)) bytes ?st)"
    by (intro packet_loop_total [OF assms(1)]) (simp_all add: io_ok_def)
  with ok show ?thesis by (auto simp: dopacket_def Let_def stays_ok_def)
qed

lemma client_dopacket_total:
  assumes run: "runs_lines run Q cptr q" and "io_ok Q cptr st" and "length l < BUFSIZE"
  shows "stays_ok Q cptr q st (client_dopacket run me cptr l st)"
proof -
  let ?l = "c_string l"
  have len: "length ?l < BUFSIZE" using assms(3) length_takeWhile_le le_less_trans unfolding c_string_def by blast
  let ?st = "upd_client cptr (\<lambda>c. c\<lparr>c_buffer := []\<rparr>) (upd_client me (\<lambda>c. carry_if_more (add_received (length ?l) c))
      (upd_client cptr (\<lambda>c. carry_if_more (add_received (length ?l) c)) (upd_client cptr (\<lambda>c. c\<lparr>c_receiveM := c_receiveM c + 1\<rparr>)
      (upd_client me (\<lambda>c. c\<lparr>c_receiveM := c_receiveM c + 1\<rparr>) st))))"
  have "io_ok Q cptr ?st" using assms(2) by (auto simp: io_ok_def BUFSIZE_def)
  then obtain r st1 where "run ?l ?st = Some (r, st1)" "suffix (qbytes (io_sbuf st1) q) (qbytes (io_sbuf ?st) q)"
      "r = FLUSH_BUFFER \<or> io_ok Q cptr st1"
    by (rule runs_linesD [OF run len])
  with len show ?thesis by (auto simp: client_dopacket_def Let_def stays_ok_def)
qed

lemma takeWhile_take_le: "length (takeWhile P (take n s)) \<le> length (takeWhile P s)"
  by (induction s arbitrary: n) (auto simp: take_Cons split: nat.split)

lemma msg_scan_fits: "length (fst (msg_scan n s)) \<le> length s"
  unfolding msg_scan_def Let_def fst_conv by (rule order_trans [OF length_takeWhile_le]) simp

text \<open>One round of the loop consumes bytes, or is the last.\<close>

lemma serve_one_total:
  assumes run: "runs_lines run Q cptr (recvQ cptr)" and ok: "io_ok Q cptr st"
    and short: "short_lines (qbytes (io_sbuf st) (recvQ cptr))"
  obtains r st1 where "serve_one run recvQ n me cptr st = Some (Inl (r, st1))"
      "suffix (qbytes (io_sbuf st1) (recvQ cptr)) (qbytes (io_sbuf st) (recvQ cptr))"
    | st1 where "serve_one run recvQ n me cptr st = Some (Inr st1)" "io_ok Q cptr st1"
      "strict_suffix (qbytes (io_sbuf st1) (recvQ cptr)) (qbytes (io_sbuf st) (recvQ cptr))"
proof (cases "IsServer (client_at st cptr) \<or> IsNegoServer (client_at st cptr)")
  case True
  let ?q = "recvQ cptr"
  have sok: "sbuf_ok Q (io_sbuf st)" using ok by (simp add: io_ok_def)
  from sbuf_get_ok [OF sok, of ?q n] obtain sb where
    sb: "sbuf_get ?q n (io_sbuf st) = Some (int (length (take n (qbytes (io_sbuf st) ?q))), take n (qbytes (io_sbuf st) ?q), sb)"
      "sbuf_ok Q sb" "qbytes sb ?q = drop n (qbytes (io_sbuf st) ?q)" by auto
  have "io_ok Q cptr (st\<lparr>io_sbuf := sb\<rparr>)" using ok sb(2) by (simp add: io_ok_def)
  from dopacket_total [OF run this, of me "take n (qbytes (io_sbuf st) ?q)"] obtain r st1 where
    d: "dopacket run me cptr (take n (qbytes (io_sbuf st) ?q)) (st\<lparr>io_sbuf := sb\<rparr>) = Some (r, st1)"
      "suffix (qbytes (io_sbuf st1) ?q) (qbytes sb ?q)" by (auto simp: stays_ok_def)
  have "suffix (qbytes sb ?q) (qbytes (io_sbuf st) ?q)" by (simp add: sb(3) suffix_drop)
  with d(2) have all: "suffix (qbytes (io_sbuf st1) ?q) (qbytes (io_sbuf st) ?q)" "suffix (qbytes sb ?q) (qbytes (io_sbuf st) ?q)"
    by (simp_all add: suffix_order.trans)
  show thesis
  proof (cases "serve_one run recvQ n me cptr st")
    case None
    then show thesis using True sb(1) d(1) by (simp add: serve_one_def split: if_splits)
  next
    case (Some x)
    have "\<exists>y. x = Inl y \<and> suffix (qbytes (io_sbuf (snd y)) ?q) (qbytes (io_sbuf st) ?q)"
      using Some True sb(1) d(1) all by (auto simp: serve_one_def simp del: split_paired_Ex split: if_splits)
    with Some that(1) show thesis by (metis prod.collapse)
  qed
next
  case False
  let ?q = "recvQ cptr"
  let ?b = "qbytes (io_sbuf st) ?q"
  define s where "s = dropWhile IsEol ?b"
  define line where "line = fst (msg_scan n s)"
  obtain e where e: "s = drop e ?b" unfolding s_def by (metis dropWhile_eq_drop)
  have sok: "sbuf_ok Q (io_sbuf st)" using ok by (simp add: io_ok_def)
  from sbuf_getmsg_ok [OF sok s_def, of n] obtain sb where
    sb: "sbuf_getmsg ?q n (io_sbuf st) = Some (if snd (msg_scan n s) then int (length line) else 0, line, sb)"
      "sbuf_ok Q sb" "qbytes sb ?q = (if snd (msg_scan n s) then dropWhile IsEol (drop (length line) s) else s)" by (auto simp: line_def)
  have q: "queue_length recvQ cptr (st\<lparr>io_sbuf := sb\<rparr>) = int (length (qbytes sb ?q))"
    using sb(2) by (simp add: queue_length_def sbuf_ok_def)
  show thesis
  proof (cases "snd (msg_scan n s) \<and> line \<noteq> []")
    case True
    obtain e2 where e2: "qbytes sb ?q = drop e2 (drop (length line) s)" using sb(3) True by (metis dropWhile_eq_drop)
    have "length line \<le> length (takeWhile (\<lambda>c. \<not> IsEol c) s)"
      by (simp add: line_def msg_scan_def Let_def takeWhile_take_le)
    also have "\<dots> < BUFSIZE" using short_lines_drop [OF short, of e] by (auto simp: short_lines_def e dest: spec [of _ 0])
    finally have len: "length line < BUFSIZE" .
    have "io_ok Q cptr (st\<lparr>io_sbuf := sb\<rparr>)" using ok sb(2) by (simp add: io_ok_def)
    from client_dopacket_total [OF run this len, of me] obtain r st1 where
      d: "client_dopacket run me cptr line (st\<lparr>io_sbuf := sb\<rparr>) = Some (r, st1)" "suffix (qbytes (io_sbuf st1) ?q) (qbytes sb ?q)"
      "r = Ret FLUSH_BUFFER \<or> io_ok Q cptr st1"
      by (auto simp: stays_ok_def)
    have eq: "serve_one run recvQ n me cptr st = Some (if r = Ret 1 then Inr st1 else Inl (r, st1))"
      using True False sb(1) d(1) by (simp add: serve_one_def Let_def)
    have "length line \<le> length s" by (simp add: line_def msg_scan_fits)
    moreover have "0 < length line" using True by simp
    moreover have "length s \<le> length ?b" using e by simp
    moreover have "length (qbytes sb ?q) = length s - length line - e2" by (simp only: e2 length_drop)
    ultimately have "length (qbytes sb ?q) < length ?b" by linarith
    moreover have "suffix (qbytes sb ?q) ?b" using e e2 by (simp add: suffix_drop)
    ultimately have all: "strict_suffix (qbytes (io_sbuf st1) ?q) ?b"
      using d(2) suffix_length_le [OF d(2)] by (auto simp: strict_suffix_def intro: suffix_order.trans)
    show thesis
    proof (cases "r = Ret 1")
      case True
      then show thesis using eq d(3) all that(2) [of st1] by (simp add: FLUSH_BUFFER_def)
    next
      case False
      then show thesis using eq all that(1) [of r st1] by (simp add: strict_suffix_def)
    qed
  next
    case none: False
    have m: "qbytes sb ?q = s" using sb(3) none by (auto simp: line_def s_def)
    show thesis
    proof (cases "length (qbytes sb ?q) < 510")
      case True
      then have "serve_one run recvQ n me cptr st = Some (Inl (end_of_queue recvQ cptr (set_flags cptr FLAGS_NONL (st\<lparr>io_sbuf := sb\<rparr>))))"
        using False none sb(1) q by (auto simp: serve_one_def Let_def)
      moreover have "qbytes (io_sbuf (snd (end_of_queue recvQ cptr (set_flags cptr FLAGS_NONL (st\<lparr>io_sbuf := sb\<rparr>))))) ?q = drop e ?b"
        using e m by simp
      ultimately show thesis using that(1) suffix_drop by (metis prod.collapse)
    next
      case full: False
      from sbuf_delete_ok [OF sb(2), of ?q "length (qbytes sb ?q)"] obtain sb2 where
        sb2: "sbuf_delete ?q (length (qbytes sb ?q)) sb = Some (1, sb2)" "qbytes sb2 ?q = []" by auto
      then have "serve_one run recvQ n me cptr st = Some (Inl (end_of_queue recvQ cptr (st\<lparr>io_sbuf := sb2\<rparr>)))"
        using False none sb(1) q full by (auto simp: serve_one_def Let_def)
      moreover have "qbytes (io_sbuf (snd (end_of_queue recvQ cptr (st\<lparr>io_sbuf := sb2\<rparr>)))) ?q = drop (length ?b) ?b" using sb2(2) by simp
      ultimately show thesis using that(1) suffix_drop by (metis prod.collapse)
    qed
  qed
qed

lemma short_lines_suffix: "suffix r s \<Longrightarrow> short_lines s \<Longrightarrow> short_lines r"
  using short_lines_drop by (metis suffix_take append_eq_conv_conj suffix_def)

lemma do_client_queue_total:
  assumes run: "runs_lines run Q cptr (recvQ cptr)" and "io_ok Q cptr st" and "short_lines (qbytes (io_sbuf st) (recvQ cptr))"
  shows "\<exists>r st1. do_client_queue run recvQ n NOW me cptr st = Some (r, st1) \<and>
    suffix (qbytes (io_sbuf st1) (recvQ cptr)) (qbytes (io_sbuf st) (recvQ cptr))"
  using assms(2,3)
proof (induction "length (qbytes (io_sbuf st) (recvQ cptr))" arbitrary: st rule: less_induct)
  case less
  let ?q = "recvQ cptr"
  show ?case
  proof (cases "may_serve recvQ NOW cptr st")
    case False
    then have "do_client_queue run recvQ n NOW me cptr st = Some (end_of_queue recvQ cptr st)"
      by (subst do_client_queue.simps) simp
    moreover have "suffix (qbytes (io_sbuf (snd (end_of_queue recvQ cptr st))) ?q) (qbytes (io_sbuf st) ?q)" by simp
    ultimately show ?thesis by (metis prod.collapse)
  next
    case True
    from serve_one_total [where recvQ = recvQ and cptr = cptr and n = n and me = me, OF run less.prems] show ?thesis
    proof cases
      case (1 r st1)
      then have "do_client_queue run recvQ n NOW me cptr st = Some (r, st1)"
        using True by (subst do_client_queue.simps) simp
      with 1(2) show ?thesis by blast
    next
      case (2 st1)
      then have "do_client_queue run recvQ n NOW me cptr st = do_client_queue run recvQ n NOW me cptr st1"
        using True by (subst do_client_queue.simps) simp
      moreover have s: "suffix (qbytes (io_sbuf st1) ?q) (qbytes (io_sbuf st) ?q)" using 2(3) by (simp add: strict_suffix_def)
      moreover have "short_lines (qbytes (io_sbuf st1) ?q)" using short_lines_suffix [OF s less.prems(2)] .
      moreover have "length (qbytes (io_sbuf st1) ?q) < length (qbytes (io_sbuf st) ?q)"
        using 2(3) by (rule suffix_length_less)
      ultimately show ?thesis using less.hyps [of st1] 2(2) by (metis suffix_order.trans)
    qed
  qed
qed

subsection \<open>Running a line with the parser\<close>

text \<open>
  The parser only touches counters, clocks and flags of the clients, so a connection that has
  registered stays registered, and for such a connection it always returns.
\<close>

definition same_kind :: "aClient \<Rightarrow> aClient \<Rightarrow> bool" where
  "same_kind c d \<longleftrightarrow> c_status d = c_status c \<and> c_buffer d = c_buffer c \<and> (c_user c \<noteq> None \<longrightarrow> c_user d \<noteq> None)"

lemma same_kind_refl [simp]: "same_kind c c" by (simp add: same_kind_def)

lemma same_kind_trans: "same_kind a b \<Longrightarrow> same_kind b c \<Longrightarrow> same_kind a c" by (simp add: same_kind_def)

lemma clients_tell [simp]: "ps_clients (tell m st) = ps_clients st" by (simp add: tell_def)

lemma clients_remove_unknown [simp]: "ps_clients (remove_unknown n p s b st) = ps_clients st"
  by (simp add: remove_unknown_def Let_def)

lemma cancel_clients_frame:
  "cancel_clients n cptr f st = Some (r, st1) \<Longrightarrow> same_kind (ps_clients st p) (ps_clients st1 p)"
  by (auto simp: cancel_clients_def Let_def same_kind_def split: if_splits option.splits)

lemma dispatch_frame:
  "dispatch n NOW cptr sptr m ch para st = Some (r, st1) \<Longrightarrow> same_kind (ps_clients st p) (ps_clients st1 p)"
  by (auto simp: dispatch_def Let_def same_kind_def split: if_splits)

lemma parse_command_frame:
  assumes "parse_command t n NOW cptr sptr para0 buffer bufend ch st = Some (r, st1)"
  shows "same_kind (ps_clients st p) (ps_clients st1 p)"
proof (cases "find_cmd t ch")
  case (Command m ch1 s)
  from parse_command_dispatches [OF this] obtain para i st2 where
    "parse_command t n NOW cptr sptr para0 buffer bufend ch st = dispatch n NOW cptr sptr m ch1 para st2"
    "ps_clients st2 = (ps_clients st)(cptr := charge (ps_clients st cptr) i)" by metis
  moreover from this have "same_kind (ps_clients st p) (ps_clients st2 p)" by (simp add: same_kind_def charge_def)
  ultimately show ?thesis using dispatch_frame assms same_kind_trans by metis
qed (use assms in \<open>auto simp: parse_command_def Let_def split: prod.splits\<close>)

lemma empty_or_command_frame:
  "empty_or_command t n NOW cptr sptr para0 buffer bufend ch st = Some (r, st1) \<Longrightarrow> same_kind (ps_clients st p) (ps_clients st1 p)"
  by (auto simp: empty_or_command_def split: if_splits dest: parse_command_frame)

lemma parse_frame:
  assumes "parse t n NOW cptr buffer bufend st = Some (r, st1)"
  shows "same_kind (ps_clients st p) (ps_clients st1 p)"
  using assms unfolding parse_def Let_def
  by (auto split: if_splits option.splits dest!: empty_or_command_frame [where p = p] cancel_clients_frame [where p = p])

lemma parse_total:
  assumes c: "registered_ok (ps_clients st cptr)"
  shows "\<exists>x. parse t n NOW cptr buffer bufend st = Some x"
  using refl [of "parse t n NOW cptr buffer bufend st"]
proof (cases rule: parse_cases)
  case (cancelled f st1)
  then show ?thesis using cancel_clients_result [of st1 cptr n f] by auto
next
  case (handed f para0 ch)
  have "\<exists>x. parse_command t n NOW cptr f para0 buffer bufend ch st = Some x"
    by (rule parse_command_total)
      (use c handed(4) in \<open>auto simp: registered_ok_def IsServer_def IsClient_def STAT_SERVER_def STAT_CLIENT_def\<close>)
  with handed(1) show ?thesis by simp
qed auto

text \<open>What is asked of the handlers of the commands.\<close>

definition handlers_ok :: "(parse_result \<Rightarrow> io_state \<Rightarrow> int \<times> io_state) \<Rightarrow> addr set \<Rightarrow> addr \<Rightarrow> addr \<Rightarrow> bool" where
  "handlers_ok handler Q cptr q \<longleftrightarrow> (\<forall>c st. io_ok Q cptr st \<longrightarrow> line_ok Q cptr q st (handler c st))"

lemma run_line_runs:
  assumes h: "handlers_ok handler Q cptr q"
  shows "runs_lines (run_line handler t me_name NOW cptr) Q cptr q"
  unfolding runs_lines_def
proof (intro allI impI)
  fix l st assume ok: "io_ok Q cptr st"
  from ok parse_total [of "io_parse st" cptr t me_name NOW "c_string l" "length l"] obtain r p where
    p: "parse t me_name NOW cptr (c_string l) (length l) (io_parse st) = Some (r, p)"
    by (auto simp: io_ok_def client_at_def)
  have "io_ok Q cptr (st\<lparr>io_parse := p\<rparr>)"
    using ok parse_frame [OF p, of cptr]
    by (auto simp: io_ok_def client_at_def registered_ok_def same_kind_def IsRegistered_def IsClient_def)
  moreover from this have "line_ok Q cptr q (st\<lparr>io_parse := p\<rparr>) (handler r (st\<lparr>io_parse := p\<rparr>))"
    using h by (simp add: handlers_ok_def)
  ultimately show "\<exists>x. run_line handler t me_name NOW cptr l st = Some x \<and> line_ok Q cptr q st x"
    by (auto simp: run_line_def p line_ok_def split: parse_result.split)
qed

subsection \<open>Properties\<close>

text \<open>
  C15: however the bytes from a server arrive, exactly the lines of the stream are parsed, in order:
  the bytes left from before and the new ones are cut at line ends, empty lines are skipped, longer
  lines are cut to \<open>BUFSIZE - 1\<close> bytes, and what stands behind the last line end is kept for the next
  packet.  (The link is not compressed.)
\<close>

theorem dopacket_parses_lines:
  assumes "\<And>l st r st1. run l st = Some (r, st1) \<Longrightarrow> r \<noteq> ZIP_NEXT_BUFFER" and "\<not> ZipIn (client_at st cptr)"
    and "length (c_buffer (client_at st cptr)) < BUFSIZE" and "\<forall>c\<in>set (c_buffer (client_at st cptr)). \<not> IsEol c"
  shows "dopacket run me cptr bytes st =
    (let s = c_buffer (client_at st cptr) @ bytes in
     serve_lines run me cptr (line_texts s) (take (BUFSIZE - 1) (snd (cut_lines s))) (count_received me cptr (length bytes) st))"
proof -
  have f: "c_flags (client_at (count_received me p n st) c) = c_flags (client_at st c)" for p n c
    by (simp add: count_received_def Let_def add_received_def carry_if_bit_def carry_received_def split: option.split prod.split)
  then have "\<not> ZipIn (client_at (count_received me cptr (length bytes) st) cptr)" using assms(2) by (simp add: ZipIn_def)
  then show ?thesis using packet_loop_lines [OF assms(1,3,4)] by (simp add: dopacket_def Let_def)
qed

definition example_io :: "sbuf_state \<Rightarrow> io_state" where
  "example_io sb = \<lparr>io_parse = example_state, io_sbuf = sb, io_listener = (\<lambda>_. \<lparr>l_receiveM = 0, l_receiveK = 0, l_receiveB = 0\<rparr>),
     recvq_clients = [], io_out = []\<rparr>"

definition record_line :: "cstr \<Rightarrow> io_state \<Rightarrow> (int \<times> io_state) option" where
  "record_line l st = Some (0, st\<lparr>io_out := io_out st @ [To_realops l []]\<rparr>)"

theorem dopacket_parses_lines_witness:
  "\<exists>st. dopacket record_line 0 1 (''PING a'' @ [CHR 0x0D, CHR 0x0A] @ ''PONG b'' @ [CHR 0x0A] @ ''PI'')
       (example_io (sbuf_start (\<lambda>_. new_buffer 0))) = Some (Ret 0, st) \<and>
     io_out st = [To_realops ''PING a'' [], To_realops ''PONG b'' []] \<and> c_buffer (client_at st 1) = ''PI''"
proof -
  let ?st = "example_io (sbuf_start (\<lambda>_. new_buffer 0))" and ?bytes = "''PING a'' @ [CHR 0x0D, CHR 0x0A] @ ''PONG b'' @ [CHR 0x0A] @ ''PI''"
  have c: "c_buffer (client_at ?st 1) = []" "c_flags (client_at ?st 1) = 0"
    by (simp_all add: client_at_def example_io_def example_state_def example_client_def Let_def)
  have "dopacket record_line 0 1 ?bytes ?st =
    (let s = c_buffer (client_at ?st 1) @ ?bytes in
     serve_lines record_line 0 1 (line_texts s) (take (BUFSIZE - 1) (snd (cut_lines s))) (count_received 0 1 (length ?bytes) ?st))"
    by (rule dopacket_parses_lines) (simp_all add: c record_line_def ZIP_NEXT_BUFFER_def ZipIn_def has_flag_def BUFSIZE_def del: One_nat_def)
  moreover have "line_texts ?bytes = [''PING a'', ''PONG b'']" "snd (cut_lines ?bytes) = ''PI''"
    by (simp_all add: line_texts_def IsEol_def BUFSIZE_def)
  moreover have "io_out (count_received 0 1 n ?st) = []" for n
    by (simp add: count_received_def Let_def upd_client_def upd_listener_def example_io_def split: option.split)
  moreover have "c_flags (client_at (count_received 0 1 n ?st) 1) = 0" for n
    using c(2) by (simp add: count_received_def Let_def add_received_def carry_if_bit_def carry_received_def split: option.split prod.split)
  moreover have "io_out (upd_client p f st) = io_out st" "io_out (count_message p q st) = io_out st" for p q f st
    by (simp_all add: upd_client_def count_message_def upd_listener_def Let_def split: option.split)
  moreover have "client_at (st\<lparr>io_out := x\<rparr>) p = client_at st p" for st x p by (simp add: client_at_def)
  moreover have "c_flags (client_at (count_message 0 1 st) 1) = c_flags (client_at st 1)" for st
    by (simp add: count_message_def Let_def split: option.split)
  ultimately show ?thesis by (simp add: c record_line_def FLUSH_BUFFER_def IsDead_def has_flag_def BUFSIZE_def del: One_nat_def)
qed

text \<open>
  C16: serving the receive queue of a registered connection always comes to an end: the parser runs its
  lines without an invalid access, the loop stops after finitely many rounds, and what is then
  queued is an end part of what was queued, so no byte is served twice or put back.  Two
  things are asked.  Every handler (a parameter here) returns, leaves an end part of the receive queue, and unless it
  returns \<open>FLUSH_BUFFER\<close> leaves the connection registered and the buffers consistent
  (\<open>handlers_ok\<close>); closing the connection meets this.  And no line in the queue is
  longer than the buffer (\<open>short_lines\<close>).
\<close>

theorem client_queue_terminates:
  assumes "handlers_ok handler Q cptr (recvQ cptr)" and "io_ok Q cptr st" and "short_lines (qbytes (io_sbuf st) (recvQ cptr))"
  shows "\<exists>r st1. do_client_queue (run_line handler t me_name NOW cptr) recvQ rcvbufmax NOW me cptr st = Some (r, st1) \<and>
    suffix (qbytes (io_sbuf st1) (recvQ cptr)) (qbytes (io_sbuf st) (recvQ cptr))"
  using do_client_queue_total [of "run_line handler t me_name NOW cptr" Q cptr recvQ st] run_line_runs [OF assms(1)] assms(2,3) by blast

lemma example_queue:
  assumes "s \<noteq> []"
  obtains sb where "sbuf_ok {2} sb" "qbytes sb 2 = s"
  using assms sbuf_put_ok [of "{2}" "sbuf_init (sbuf_start (\<lambda>_. new_buffer 0))" 2 s] sbuf_init_ok [of "{2}" "\<lambda>_. new_buffer 0"]
  by (auto simp: sbuf_idle_def)

text \<open>For the example, a QUIT throws the rest of the queue away and closes; other calls do nothing.\<close>

definition example_handler :: "parse_result \<Rightarrow> io_state \<Rightarrow> int \<times> io_state" where
  "example_handler r st =
     (case r of
        Do_func m _ _ _ \<Rightarrow>
          if m_func m = ''m_quit''
          then (FLUSH_BUFFER, case sbuf_delete 2 (length (qbytes (io_sbuf st) 2)) (io_sbuf st) of
                  Some (_, sb) \<Rightarrow> st\<lparr>io_sbuf := sb\<rparr> | None \<Rightarrow> st)
          else (0, st)
      | _ \<Rightarrow> (0, st))"

lemma example_handler_ok: "handlers_ok example_handler {2} 2 2"
  unfolding handlers_ok_def
proof (intro allI impI)
  fix c st assume ok: "io_ok {2} 2 st"
  let ?n = "length (qbytes (io_sbuf st) 2)"
  obtain sb where "sbuf_delete 2 ?n (io_sbuf st) = Some (1, sb)" "qbytes sb 2 = []"
    using sbuf_delete_ok [of "{2}" "io_sbuf st" 2 ?n] ok by (auto simp: io_ok_def)
  then show "line_ok {2} 2 2 st (example_handler c st)"
    using ok by (auto simp: example_handler_def line_ok_def split: parse_result.split)
qed

theorem client_queue_terminates_witness:
  "\<exists>t sb r st1. init_tree_parse msgtab = Some t \<and> qbytes sb 2 = ''AWAY'' @ [CHR 0x0A] @ ''QUIT'' @ [CHR 0x0A] @ ''MOTD'' @ [CHR 0x0A] \<and>
     do_client_queue (run_line example_handler t ''irc.net'' 0 2) (\<lambda>_. 2) 16385 0 0 2 (example_io sb) = Some (r, st1) \<and>
     suffix (qbytes (io_sbuf st1) 2) (qbytes sb 2)"
proof -
  let ?s = "''AWAY'' @ [CHR 0x0A] @ ''QUIT'' @ [CHR 0x0A] @ ''MOTD'' @ [CHR 0x0A]"
  obtain t where t: "init_tree_parse msgtab = Some t" using tree_built [OF msgtab_names_ok] by blast
  obtain sb where sb: "sbuf_ok {2} sb" "qbytes sb 2 = ?s" using example_queue [of ?s] by auto
  have "io_ok {2} 2 (example_io sb)"
    using sb(1) by (simp add: io_ok_def client_at_def example_io_def example_state_def example_client_def Let_def BUFSIZE_def
        registered_ok_def IsRegistered_def status_defs)
  moreover have "length (takeWhile (\<lambda>c. \<not> IsEol c) (drop i ?s)) < BUFSIZE" for i
    by (rule le_less_trans [OF length_takeWhile_le]) (simp add: BUFSIZE_def)
  then have "short_lines (qbytes (io_sbuf (example_io sb)) ((\<lambda>_. 2) 2))"
    using sb(2) by (simp add: short_lines_def example_io_def)
  moreover have "handlers_ok example_handler {2} 2 ((\<lambda>_. 2) 2)" using example_handler_ok by simp
  ultimately have "\<exists>r st1. do_client_queue (run_line example_handler t ''irc.net'' 0 2) (\<lambda>_. 2) 16385 0 0 2 (example_io sb) = Some (r, st1) \<and>
      suffix (qbytes (io_sbuf st1) ((\<lambda>_. 2) 2)) (qbytes (io_sbuf (example_io sb)) ((\<lambda>_. 2) 2))"
    by (intro client_queue_terminates [where recvQ = "\<lambda>_. 2" and cptr = 2 and Q = "{2}"])
  with t sb(2) show ?thesis by (auto simp: example_io_def)
qed

text \<open>
  C38: a line of \<open>BUFSIZE\<close> bytes or more in the receive queue of a client makes the server read behind
  the buffer of the client: the copy of the line has no final NUL.
\<close>

theorem long_line_overrun:
  assumes "may_serve recvQ NOW cptr st" and "\<not> IsServer (client_at st cptr)" "\<not> IsNegoServer (client_at st cptr)"
    and "sbuf_ok Q (io_sbuf st)" and q: "qbytes (io_sbuf st) (recvQ cptr) = line @ e # rest" "IsEol e"
    and line: "BUFSIZE \<le> length line" "length line < rcvbufmax" "\<forall>c\<in>set line. \<not> IsEol c \<and> c \<noteq> CHR 0x00"
  shows "do_client_queue run recvQ rcvbufmax NOW me cptr st = None"
proof -
  have ne: "line \<noteq> []" using line(1) by (auto simp: BUFSIZE_def)
  then have s: "dropWhile IsEol (qbytes (io_sbuf st) (recvQ cptr)) = line @ e # rest" using q line(3) by (cases line) auto
  have "takeWhile (\<lambda>c. \<not> IsEol c) (take rcvbufmax (line @ e # rest)) = line"
    using line(2,3) q(2) by (cases "rcvbufmax - length line") (auto simp: takeWhile_append2)
  then have scan: "msg_scan rcvbufmax (line @ e # rest) = (line, True)" using line(2) by (simp add: msg_scan_def)
  from sbuf_getmsg_ok [OF assms(4) s [symmetric], of rcvbufmax] obtain sb where
    "sbuf_getmsg (recvQ cptr) rcvbufmax (io_sbuf st) = Some (int (length line), line, sb)" by (auto simp: scan)
  moreover have "c_string line = line" using line(3) by (simp add: c_string_def takeWhile_eq_all_conv)
  ultimately have "serve_one run recvQ rcvbufmax me cptr st = None"
    using assms(2,3) ne line(1) by (simp add: serve_one_def Let_def client_dopacket_def)
  with assms(1) show ?thesis by (subst do_client_queue.simps) simp
qed

theorem long_line_overrun_witness:
  "\<exists>sb. qbytes sb 2 = replicate 600 CHR ''x'' @ [CHR 0x0A] \<and>
     do_client_queue record_line (\<lambda>_. 2) 16385 0 0 2 (example_io sb) = None"
proof -
  let ?l = "replicate 600 CHR ''x''"
  obtain sb where sb: "sbuf_ok {2} sb" "qbytes sb 2 = ?l @ [CHR 0x0A]" using example_queue [of "?l @ [CHR 0x0A]"] by auto
  have c: "client_at (example_io sb) 2 = (example_client ''alice'')\<lparr>c_user := Some example_user, c_from := 1\<rparr>"
    by (simp add: client_at_def example_io_def example_state_def Let_def)
  have io: "io_sbuf (example_io sb) = sb" by (simp add: example_io_def)
  have "q_length (sbufs sb 2) = int (length (?l @ [CHR 0x0A]))" using sb by (simp add: sbuf_ok_def)
  then have "may_serve (\<lambda>_. 2) 0 2 (example_io sb)"
    by (simp add: may_serve_def Let_def c queue_length_def) (simp add: example_io_def example_client_def NoNewLine_def has_flag_def)
  then have "do_client_queue record_line (\<lambda>_. 2) 16385 0 0 2 (example_io sb) = None"
    by (rule long_line_overrun [where Q = "{2}" and line = ?l and e = "CHR 0x0A" and rest = "[]"])
      (use sb in \<open>simp_all add: c example_client_def IsServer_def STAT_SERVER_def IsNegoServer_def has_flag_def
         io IsEol_def BUFSIZE_def\<close>)
  with sb(2) show ?thesis by blast
qed

end
