(* ===== verification/Channel_Types.thy ===== *)
theory Channel_Types
  imports Messages Client_Hash
begin

section \<open>Channels, members and masks (src/include/struct.h, src/src/channel.c)\<close>

text \<open>
  The structures of channels and the routines that build \<^verbatim>\<open>nick!user@host\<close> texts.  The
  chains of members, bans, exempts and invitations are lists, first element first.  The configuration
  is the one shipped: \<^verbatim>\<open>INVITE_LISTS\<close> and \<^verbatim>\<open>EXEMPT_LISTS\<close> set,
  \<^verbatim>\<open>ENABLE_CHANNEL_MODE_D\<close> and \<^verbatim>\<open>HAVE_SSL\<close> not.
\<close>

definition CHANNELLEN :: nat where "CHANNELLEN = 32"
definition MAXBANS :: nat where "MAXBANS = 100"
definition MAXINVITELIST :: nat where "MAXINVITELIST = 100"
definition MAXEXEMPTLIST :: nat where "MAXEXEMPTLIST = 45"

definition CHFL_CHANOP :: u32 where "CHFL_CHANOP = 0x0001"
definition CHFL_HALFOP :: u32 where "CHFL_HALFOP = 0x0002"
definition CHFL_VOICE :: u32 where "CHFL_VOICE = 0x0004"
definition CHFL_DEOPPED :: u32 where "CHFL_DEOPPED = 0x0008"
definition CHFL_BANNED :: u32 where "CHFL_BANNED = 0x0010"

definition MTYP_FULL :: nat where "MTYP_FULL = 1"
definition MTYP_USERHOST :: nat where "MTYP_USERHOST = 2"
definition MTYP_HOST :: nat where "MTYP_HOST = 4"

definition MODE_PRIVATE :: u32 where "MODE_PRIVATE = 0x00008"
definition MODE_SECRET :: u32 where "MODE_SECRET = 0x00010"
definition MODE_MODERATED :: u32 where "MODE_MODERATED = 0x00020"
definition MODE_TOPICLIMIT :: u32 where "MODE_TOPICLIMIT = 0x00040"
definition MODE_INVITEONLY :: u32 where "MODE_INVITEONLY = 0x00080"
definition MODE_NOPRIVMSGS :: u32 where "MODE_NOPRIVMSGS = 0x00100"
definition MODE_BAN :: u32 where "MODE_BAN = 0x00400"
definition MODE_REGISTERED :: u32 where "MODE_REGISTERED = 0x01000"
definition MODE_REGONLY :: u32 where "MODE_REGONLY = 0x02000"
definition MODE_NOCTRL :: u32 where "MODE_NOCTRL = 0x04000"
definition MODE_OPERONLY :: u32 where "MODE_OPERONLY = 0x08000"
definition MODE_MODREG :: u32 where "MODE_MODREG = 0x10000"
definition MODE_LISTED :: u32 where "MODE_LISTED = 0x20000"
definition MODE_JOINRATE :: u32 where "MODE_JOINRATE = 0x40000"
definition MODE_NONICK :: u32 where "MODE_NONICK = 0x080000"
definition MODE_SSL :: u32 where "MODE_SSL = 0x100000"

record Mode =
  md_mode :: u32
  md_limit :: int
  md_key :: cstr
  md_join_num :: int
  md_join_time :: int

record aBan =
  banstr :: cstr
  ban_who :: cstr
  ban_when :: time_t
  ban_type :: nat

record anInvite =
  invstr :: cstr
  inv_who :: cstr
  inv_when :: time_t

record chanMember =
  cm_cptr :: addr
  cm_flags :: u32
  cm_banserial :: u32

record aChannel =
  ch_mode :: Mode
  ch_users :: int
  ch_members :: "chanMember list"
  ch_invites :: "addr list"
  ch_banlist :: "aBan list"
  ch_invite_list :: "anInvite list"
  ch_banexempt_list :: "aBan list"
  ch_channelts :: int
  ch_chname :: cstr
  ch_join_start :: int
  ch_join_count :: int
  ch_default_join_start :: int
  ch_default_join_count :: int
  ch_banserial :: u32
  ch_topic :: cstr
  ch_topic_nick :: cstr
  ch_topic_time :: time_t

text \<open>\<^verbatim>\<open>make_channel()\<close>: the struct filled with zeros.\<close>

definition make_channel :: aChannel where
  "make_channel =
     \<lparr>ch_mode = \<lparr>md_mode = 0, md_limit = 0, md_key = [], md_join_num = 0, md_join_time = 0\<rparr>,
      ch_users = 0, ch_members = [], ch_invites = [], ch_banlist = [], ch_invite_list = [], ch_banexempt_list = [],
      ch_channelts = 0, ch_chname = [], ch_join_start = 0, ch_join_count = 0, ch_default_join_start = 0,
      ch_default_join_count = 0, ch_banserial = 0, ch_topic = [], ch_topic_nick = [], ch_topic_time = 0\<rparr>"

definition has_mode :: "aChannel \<Rightarrow> u32 \<Rightarrow> bool" where
  "has_mode ch m \<longleftrightarrow> has_flag (md_mode (ch_mode ch)) m"

definition find_user_member :: "chanMember list \<Rightarrow> addr \<Rightarrow> chanMember option" where
  "find_user_member cms p = find (\<lambda>cm. cm_cptr cm = p) cms"

subsection \<open>Masks\<close>

definition check_string :: "cstr option \<Rightarrow> cstr" where
  "check_string s =
     (case s of
        None \<Rightarrow> ''*''
      | Some t \<Rightarrow> (let u = takeWhile (\<lambda>c. \<not> IsSpace c) t in if u = [] then ''*'' else u))"

definition make_nick_user_host :: "cstr option \<Rightarrow> cstr option \<Rightarrow> cstr option \<Rightarrow> cstr" where
  "make_nick_user_host nick name host =
     take NICKLEN (check_string nick) @ ''!'' @ take USERLEN (check_string name) @ ''@'' @ take HOSTLEN (check_string host)"

text \<open>\<^verbatim>\<open>strrchr\<close>: what stands before and behind the last occurrence.\<close>

definition split_first :: "char \<Rightarrow> cstr \<Rightarrow> cstr \<times> cstr option" where
  "split_first c s =
     (takeWhile (\<lambda>x. x \<noteq> c) s, if c \<in> set s then Some (tl (dropWhile (\<lambda>x. x \<noteq> c) s)) else None)"

definition split_last :: "char \<Rightarrow> cstr \<Rightarrow> cstr \<times> cstr option" where
  "split_last c s =
     (if c \<in> set s then (rev (tl (dropWhile (\<lambda>x. x \<noteq> c) (rev s))), Some (rev (takeWhile (\<lambda>x. x \<noteq> c) (rev s))))
      else (s, None))"

definition pretty_mask :: "cstr \<Rightarrow> cstr" where
  "pretty_mask msk =
     (case split_first CHR ''!'' msk of
        (cp, Some user) \<Rightarrow>
          (case split_last CHR ''@'' user of (u, host) \<Rightarrow> make_nick_user_host (Some cp) (Some u) host)
      | (_, None) \<Rightarrow>
          (case split_last CHR ''@'' msk of
             (u, Some host) \<Rightarrow> make_nick_user_host None (Some u) (Some host)
           | (_, None) \<Rightarrow>
               if CHR ''.'' \<in> set msk then make_nick_user_host None None (Some msk)
               else make_nick_user_host (Some msk) None None))"

text \<open>The texts a client is known by: with its host, its address, its real host and its masked host.\<close>

definition client_masks :: "cstr \<Rightarrow> aClient \<Rightarrow> anUser \<Rightarrow> cstr list" where
  "client_masks nick c u =
     map (\<lambda>h. make_nick_user_host (Some nick) (Some (u_username u)) (Some h)) [u_host u, c_hostip c, u_realhost u, u_maskhost u]"

definition matches_any :: "cstr \<Rightarrow> cstr list \<Rightarrow> bool" where
  "matches_any m ss \<longleftrightarrow> (\<exists>s\<in>set ss. match m s = 0)"

text \<open>\<^verbatim>\<open>s[i] == c\<close> on a C string.\<close>

definition char_at :: "cstr \<Rightarrow> nat \<Rightarrow> char \<Rightarrow> bool" where
  "char_at s i c \<longleftrightarrow> i < length s \<and> s ! i = c"

definition mask_type :: "cstr \<Rightarrow> nat" where
  "mask_type banid =
     (if char_at banid 0 CHR ''*'' \<and> char_at banid 1 CHR ''!''
      then if char_at banid 2 CHR ''*'' \<and> char_at banid 3 CHR ''@'' then MTYP_HOST else MTYP_USERHOST
      else MTYP_FULL)"

text \<open>\<^verbatim>\<open>who\<close> of a new list entry.\<close>

definition setter_name :: "aClient \<Rightarrow> cstr" where
  "setter_name c =
     (case c_user c of
        Some u \<Rightarrow> if IsPerson c then c_name c @ ''!'' @ u_username u @ ''@'' @ u_host u else c_name c
      | None \<Rightarrow> c_name c)"

subsection \<open>Facts on masks\<close>

lemma check_string_text: "check_string s \<noteq> [] \<and> (\<forall>c\<in>set (check_string s). \<not> IsSpace c)"
proof -
  have "\<not> IsSpace CHR ''*''" by code_simp
  then show ?thesis by (auto simp: check_string_def Let_def dest: set_takeWhileD split: option.split)
qed

text \<open>The buffer \<^verbatim>\<open>namebuf\<close> has room for the text and its NUL.\<close>

lemma mask_fits_buffer: "length (make_nick_user_host n u h) < NICKLEN + USERLEN + HOSTLEN + 6"
  by (simp add: make_nick_user_host_def)

lemma mask_no_space: "\<forall>c\<in>set (make_nick_user_host n u h). \<not> IsSpace c"
proof -
  have "\<not> IsSpace CHR ''!''" "\<not> IsSpace CHR ''@''" by code_simp+
  then show ?thesis using check_string_text by (auto simp: make_nick_user_host_def dest!: in_set_takeD)
qed

end
