(* ===== verification/Channel_Bans.thy ===== *)
theory Channel_Bans
  imports Channel_Types Msg_Tree
begin

section \<open>Channel bans, exempts and invitation masks (src/src/channel.c)\<close>

text \<open>
  The three lists of a channel with their operations, the test whether a client is banned with the
  answer cached in the member, and the removal of all entries that match a client with the MODE
  messages that announce it.  A member's cache is valid while its serial number is the one of the
  channel, which every change of the ban and exempt lists increments.
\<close>

definition MODEBUFLEN :: nat where "MODEBUFLEN = 200"
definition MAXTSMODEPARAMS :: nat where "MAXTSMODEPARAMS = MAXPARA - 5"
definition ERR_BANLISTFULL :: int where "ERR_BANLISTFULL = 478"

subsection \<open>The lists\<close>

text \<open>
  The loop that looks for an entry that forbids the new one; \<open>cnt\<close> counts the entries seen by
  a local client.  The result is \<open>Some full\<close> when the new entry is refused, with
  \<open>full\<close> true when the list is too long.
\<close>

fun refused :: "bool \<Rightarrow> nat \<Rightarrow> cstr list \<Rightarrow> cstr \<Rightarrow> nat \<Rightarrow> bool option" where
  "refused loc maxlen [] newid cnt = None"
| "refused loc maxlen (b # bs) newid cnt =
     (if loc then
        if cnt + 1 \<ge> maxlen then Some True
        else if match b newid = 0 then Some False
        else refused loc maxlen bs newid (cnt + 1)
      else if mycmp b newid = 0 then Some False
      else refused loc maxlen bs newid cnt)"

definition list_full :: "cstr \<Rightarrow> addr \<Rightarrow> aClient \<Rightarrow> aChannel \<Rightarrow> cstr \<Rightarrow> cstr \<Rightarrow> out_msg" where
  "list_full me_name p c ch newid what =
     To_one p ''ERR_BANLISTFULL'' [S me_name, S (c_name c), S (ch_chname ch), S newid, S what]"

definition new_entry :: "aClient \<Rightarrow> time_t \<Rightarrow> cstr \<Rightarrow> aBan" where
  "new_entry c NOW newid = \<lparr>banstr = newid, ban_who = setter_name c, ban_when = NOW, ban_type = mask_type newid\<rparr>"

definition add_banid :: "cstr \<Rightarrow> time_t \<Rightarrow> addr \<Rightarrow> aClient \<Rightarrow> aChannel \<Rightarrow> cstr \<Rightarrow> int \<times> aChannel \<times> out_msg list" where
  "add_banid me_name NOW p c ch banid =
     (case refused (MyClient c) MAXBANS (map banstr (ch_banlist ch)) banid 0 of
        Some full \<Rightarrow> (- 1, ch, if full then [list_full me_name p c ch banid ''ban''] else [])
      | None \<Rightarrow> (0, ch\<lparr>ch_banlist := new_entry c NOW banid # ch_banlist ch, ch_banserial := ch_banserial ch + 1\<rparr>, []))"

definition add_exempt_id :: "cstr \<Rightarrow> time_t \<Rightarrow> addr \<Rightarrow> aClient \<Rightarrow> aChannel \<Rightarrow> cstr \<Rightarrow> int \<times> aChannel \<times> out_msg list" where
  "add_exempt_id me_name NOW p c ch exempt_id =
     (case refused (MyClient c) MAXEXEMPTLIST (map banstr (ch_banexempt_list ch)) exempt_id 0 of
        Some full \<Rightarrow> (- 1, ch, if full then [list_full me_name p c ch exempt_id ''exempt''] else [])
      | None \<Rightarrow>
          (0, ch\<lparr>ch_banexempt_list := new_entry c NOW exempt_id # ch_banexempt_list ch, ch_banserial := ch_banserial ch + 1\<rparr>, []))"

definition add_invite_id :: "cstr \<Rightarrow> time_t \<Rightarrow> addr \<Rightarrow> aClient \<Rightarrow> aChannel \<Rightarrow> cstr \<Rightarrow> int \<times> aChannel \<times> out_msg list" where
  "add_invite_id me_name NOW p c ch invite_id =
     (case refused (MyClient c) MAXINVITELIST (map invstr (ch_invite_list ch)) invite_id 0 of
        Some full \<Rightarrow> (- 1, ch, if full then [list_full me_name p c ch invite_id ''invite''] else [])
      | None \<Rightarrow>
          (0, ch\<lparr>ch_invite_list := \<lparr>invstr = invite_id, inv_who = setter_name c, inv_when = NOW\<rparr> # ch_invite_list ch\<rparr>, []))"

text \<open>Deletion of the first entry of a name; the result says whether there was one.\<close>

fun del_first :: "('e \<Rightarrow> cstr) \<Rightarrow> cstr \<Rightarrow> 'e list \<Rightarrow> 'e list \<times> bool" where
  "del_first str i [] = ([], False)"
| "del_first str i (e # es) =
     (if mycmp i (str e) = 0 then (es, True) else (case del_first str i es of (r, found) \<Rightarrow> (e # r, found)))"

definition del_banid :: "aChannel \<Rightarrow> cstr option \<Rightarrow> int \<times> aChannel" where
  "del_banid ch banid =
     (case banid of
        None \<Rightarrow> (- 1, ch)
      | Some i \<Rightarrow>
          (case del_first banstr i (ch_banlist ch) of
             (bs, found) \<Rightarrow>
               (0, if found then ch\<lparr>ch_banlist := bs, ch_banserial := ch_banserial ch + 1\<rparr> else ch)))"

definition del_exempt_id :: "aChannel \<Rightarrow> cstr option \<Rightarrow> int \<times> aChannel" where
  "del_exempt_id ch exempt_id =
     (case exempt_id of
        None \<Rightarrow> (- 1, ch)
      | Some i \<Rightarrow>
          (case del_first banstr i (ch_banexempt_list ch) of
             (bs, found) \<Rightarrow>
               (0, if found then ch\<lparr>ch_banexempt_list := bs, ch_banserial := ch_banserial ch + 1\<rparr> else ch)))"

definition del_invite_id :: "aChannel \<Rightarrow> cstr option \<Rightarrow> int \<times> aChannel" where
  "del_invite_id ch invite_id =
     (case invite_id of
        None \<Rightarrow> (- 1, ch)
      | Some i \<Rightarrow>
          (case del_first invstr i (ch_invite_list ch) of
             (bs, found) \<Rightarrow> (0, if found then ch\<lparr>ch_invite_list := bs\<rparr> else ch)))"

definition is_invited :: "aClient \<Rightarrow> anUser \<Rightarrow> aChannel \<Rightarrow> anInvite option" where
  "is_invited c u ch =
     (let ss = map (\<lambda>h. make_nick_user_host (Some (c_name c)) (Some (u_username u)) (Some h)) [u_host u, c_hostip c] in
      find (\<lambda>i. matches_any (invstr i) ss) (ch_invite_list ch))"

subsection \<open>The ban test and its cache\<close>

definition ban_answer :: "cstr list \<Rightarrow> aChannel \<Rightarrow> bool" where
  "ban_answer ss ch \<longleftrightarrow>
     \<not> list_ex (\<lambda>e. matches_any (banstr e) ss) (ch_banexempt_list ch) \<and> list_ex (\<lambda>b. matches_any (banstr b) ss) (ch_banlist ch)"

text \<open>The result and the member with its cache (\<open>None\<close> when there is no member to use).\<close>

definition is_banned :: "aClient \<Rightarrow> aChannel \<Rightarrow> chanMember option \<Rightarrow> u32 \<times> chanMember option" where
  "is_banned c ch cm =
     (case c_user c of
        None \<Rightarrow> (0, cm)
      | Some u \<Rightarrow>
          if \<not> IsPerson c then (0, cm)
          else
            (let fresh = (if ban_answer (client_masks (c_name c) c u) ch then CHFL_BANNED else 0) in
             case cm of
               None \<Rightarrow> (fresh, None)
             | Some m \<Rightarrow>
                 if cm_banserial m = ch_banserial ch then (cm_flags m AND CHFL_BANNED, cm)
                 else (fresh, Some (m\<lparr>cm_banserial := ch_banserial ch,
                                      cm_flags := (cm_flags m AND NOT CHFL_BANNED) OR fresh\<rparr>))))"

definition nick_is_banned :: "aChannel \<Rightarrow> cstr \<Rightarrow> aClient \<Rightarrow> aBan option" where
  "nick_is_banned ch nick c =
     (case c_user c of
        None \<Rightarrow> None
      | Some u \<Rightarrow>
          if \<not> IsPerson c then None
          else
            (let ss = client_masks nick c u in
             if list_ex (\<lambda>e. ban_type e = MTYP_FULL \<and> matches_any (banstr e) ss) (ch_banexempt_list ch) then None
             else find (\<lambda>b. ban_type b = MTYP_FULL \<and> matches_any (banstr b) ss) (ch_banlist ch)))"

subsection \<open>Removing all entries that match a client\<close>

text \<open>
  The loop that collects the removed entries into MODE messages: \<open>m\<close> and \<open>para\<close> are the
  buffers, \<open>count\<close> the number of modes in them; the result lists the pairs of buffers sent.
\<close>

fun announce :: "char \<Rightarrow> cstr list \<Rightarrow> cstr \<Rightarrow> cstr \<Rightarrow> nat \<Rightarrow> (cstr \<times> cstr) list" where
  "announce l [] m para count = (if para \<noteq> [] then [(m, para)] else [])"
| "announce l (b # bs) m para count =
     (let fits = length para + length b + 10 < MODEBUFLEN;
          para1 = (if fits then (if para \<noteq> [] then para @ '' '' @ b else b) else para);
          m1 = (if fits then m @ [l] else m);
          count1 = (if fits then count + 1 else count) in
      if \<not> fits \<and> para \<noteq> [] \<or> count1 = MAXTSMODEPARAMS
      then (m1, para1) # (if count1 \<noteq> MAXTSMODEPARAMS then announce l bs [CHR ''-'', l] b 1 else announce l bs ''-'' [] 0)
      else announce l bs m1 para1 count1)"

definition mode_messages :: "addr \<Rightarrow> aClient \<Rightarrow> addr \<Rightarrow> aChannel \<Rightarrow> (cstr \<times> cstr) list \<Rightarrow> out_msg list" where
  "mode_messages chp f fp ch sent =
     concat (map (\<lambda>(m, para).
       [To_channel chp fp '':%s MODE %s %s %s'' [S (c_name f), S (ch_chname ch), S m, S para],
        To_servers (Some fp) '':%s MODE %s %ld %s %s'' [S (c_name f), S (ch_chname ch), D (ch_channelts ch), S m, S para]]) sent)"

definition matching_ids :: "('e \<Rightarrow> cstr) \<Rightarrow> aClient \<Rightarrow> anUser \<Rightarrow> 'e list \<Rightarrow> cstr list" where
  "matching_ids str c u es =
     (let ss = map (\<lambda>h. make_nick_user_host (Some (c_name c)) (Some (u_username u)) (Some h)) [u_host u, c_hostip c] in
      map str (filter (\<lambda>e. matches_any (str e) ss) es))"

definition remove_matching ::
  "char \<Rightarrow> ('e \<Rightarrow> cstr) \<Rightarrow> (aChannel \<Rightarrow> 'e list) \<Rightarrow> (aChannel \<Rightarrow> cstr option \<Rightarrow> int \<times> aChannel) \<Rightarrow>
     addr \<Rightarrow> aChannel \<Rightarrow> aClient \<Rightarrow> addr \<Rightarrow> aClient \<Rightarrow> aChannel \<times> out_msg list" where
  "remove_matching l str lst del chp ch c fp f =
     (case c_user c of
        None \<Rightarrow> (ch, [])
      | Some u \<Rightarrow>
          if \<not> IsPerson c then (ch, [])
          else
            (let ids = matching_ids str c u (lst ch) in
             (foldl (\<lambda>ch i. snd (del ch (Some i))) ch ids, mode_messages chp f fp ch (announce l ids ''-'' [] 0))))"

definition remove_matching_bans :: "addr \<Rightarrow> aChannel \<Rightarrow> aClient \<Rightarrow> addr \<Rightarrow> aClient \<Rightarrow> aChannel \<times> out_msg list" where
  "remove_matching_bans = remove_matching CHR ''b'' banstr ch_banlist del_banid"

definition remove_matching_exempts :: "addr \<Rightarrow> aChannel \<Rightarrow> aClient \<Rightarrow> addr \<Rightarrow> aClient \<Rightarrow> aChannel \<times> out_msg list" where
  "remove_matching_exempts = remove_matching CHR ''e'' banstr ch_banexempt_list del_exempt_id"

definition remove_matching_invites :: "addr \<Rightarrow> aChannel \<Rightarrow> aClient \<Rightarrow> addr \<Rightarrow> aClient \<Rightarrow> aChannel \<times> out_msg list" where
  "remove_matching_invites = remove_matching CHR ''I'' invstr ch_invite_list del_invite_id"

subsection \<open>What the announcements say\<close>

fun unwords :: "cstr list \<Rightarrow> cstr" where
  "unwords [] = []"
| "unwords [x] = x"
| "unwords (x # y # xs) = x @ '' '' @ unwords (y # xs)"

text \<open>A group of removed entries as one pair of buffers.\<close>

definition mode_line :: "char \<Rightarrow> cstr list \<Rightarrow> cstr \<times> cstr" where
  "mode_line l g = (CHR ''-'' # replicate (length g) l, unwords g)"

lemma unwords_snoc: "xs \<noteq> [] \<Longrightarrow> unwords (xs @ [y]) = unwords xs @ '' '' @ y"
  by (induction xs rule: unwords.induct) auto

lemma unwords_empty: "\<forall>x\<in>set xs. x \<noteq> [] \<Longrightarrow> unwords xs = [] \<longleftrightarrow> xs = []"
  by (induction xs rule: unwords.induct) auto

definition good_group :: "cstr list \<Rightarrow> bool" where
  "good_group g \<longleftrightarrow> g \<noteq> [] \<and> length g \<le> MAXTSMODEPARAMS \<and> length (unwords g) < MODEBUFLEN"

lemma announce_groups:
  assumes "\<forall>i\<in>set (pend @ ids). i \<noteq> [] \<and> length i + 10 < MODEBUFLEN"
    and "length pend < MAXTSMODEPARAMS" and "length (unwords pend) < MODEBUFLEN"
  shows "\<exists>groups. announce l ids (CHR ''-'' # replicate (length pend) l) (unwords pend) (length pend) = map (mode_line l) groups \<and>
           concat groups = pend @ ids \<and> (\<forall>g\<in>set groups. good_group g)"
  using assms
proof (induction ids arbitrary: pend)
  case Nil
  then have "unwords pend = [] \<longleftrightarrow> pend = []" by (simp add: unwords_empty)
  then show ?case using Nil by (intro exI [of _ "if pend = [] then [] else [pend]"]) (auto simp: mode_line_def good_group_def)
next
  case (Cons b ids)
  have ue: "unwords pend = [] \<longleftrightarrow> pend = []" using Cons.prems(1) by (simp add: unwords_empty)
  have b: "b \<noteq> []" "length b + 10 < MODEBUFLEN" using Cons.prems(1) by simp_all
  have one: "1 < MAXTSMODEPARAMS" by (simp add: MAXTSMODEPARAMS_def MAXPARA_def)
  show ?case
  proof (cases "length (unwords pend) + length b + 10 < MODEBUFLEN")
    case True
    have snoc: "unwords (pend @ [b]) = (if pend = [] then b else unwords pend @ '' '' @ b)" by (simp add: unwords_snoc)
    have len: "length (unwords (pend @ [b])) < MODEBUFLEN" using True by (auto simp: snoc)
    have m: "CHR ''-'' # replicate (length pend) l @ [l] = CHR ''-'' # replicate (length (pend @ [b])) l"
      by (simp add: replicate_append_same)
    show ?thesis
    proof (cases "length (pend @ [b]) = MAXTSMODEPARAMS")
      case full: True
      obtain groups where g: "announce l ids ''-'' [] 0 = map (mode_line l) groups" "concat groups = ids" "\<forall>g\<in>set groups. good_group g"
        using Cons.IH [of "[]"] Cons.prems(1) one by (auto simp: MODEBUFLEN_def)
      have "good_group (pend @ [b])" using full len by (simp add: good_group_def)
      then show ?thesis using g True full ue m
        by (intro exI [of _ "(pend @ [b]) # groups"]) (auto simp: Let_def mode_line_def snoc)
    next
      case more: False
      then have "length (pend @ [b]) < MAXTSMODEPARAMS" using Cons.prems(2) by simp
      then obtain groups where g: "announce l ids (CHR ''-'' # replicate (length (pend @ [b])) l) (unwords (pend @ [b])) (length (pend @ [b]))
          = map (mode_line l) groups" "concat groups = (pend @ [b]) @ ids" "\<forall>g\<in>set groups. good_group g"
        using Cons.IH [of "pend @ [b]"] Cons.prems(1) len by auto
      then show ?thesis using True more ue m by (intro exI [of _ groups]) (auto simp: Let_def snoc)
    qed
  next
    case False
    then have ne: "pend \<noteq> []" using b(2) by auto
    obtain groups where g: "announce l ids (CHR ''-'' # replicate (length [b]) l) (unwords [b]) (length [b]) = map (mode_line l) groups"
        "concat groups = [b] @ ids" "\<forall>g\<in>set groups. good_group g"
      using Cons.IH [of "[b]"] Cons.prems(1) b one by auto
    have "good_group pend" using ne Cons.prems(2,3) by (simp add: good_group_def)
    then show ?thesis using g False ne ue Cons.prems(2)
      by (intro exI [of _ "pend # groups"]) (auto simp: Let_def mode_line_def)
  qed
qed

subsection \<open>Removal\<close>

text \<open>
  What the three lists share: entries with a text, no two of them equal up to case, and a deletion that
  removes the first entry of a text.
\<close>

lemma del_first_filter:
  assumes "distinct (map (\<lambda>e. map ToUpper (str e)) es)" and "e \<in> set es"
  shows "fst (del_first str (str e) es) = filter (\<lambda>x. x \<noteq> e) es"
  using assms
proof (induction es)
  case (Cons x es)
  show ?case
  proof (cases "mycmp (str e) (str x) = 0")
    case True
    then have "e = x" using Cons.prems by (auto simp: mycmp_zero_iff distinct_map inj_on_def image_iff)
    then have "filter (\<lambda>y. y \<noteq> e) es = es" using Cons.prems(1) by (auto simp: filter_id_conv)
    then show ?thesis using True \<open>e = x\<close> by simp
  next
    case False
    then have "x \<noteq> e" "e \<in> set es" using Cons.prems by auto
    with Cons.IH Cons.prems(1) False show ?thesis by (auto simp: case_prod_unfold)
  qed
qed simp

locale mask_list =
  fixes str :: "'e \<Rightarrow> cstr" and lst :: "aChannel \<Rightarrow> 'e list" and del :: "aChannel \<Rightarrow> cstr option \<Rightarrow> int \<times> aChannel"
  assumes del_lst: "lst (snd (del ch (Some i))) = fst (del_first str i (lst ch))"
begin

definition texts_differ :: "aChannel \<Rightarrow> bool" where
  "texts_differ ch \<longleftrightarrow> distinct (map (\<lambda>e. map ToUpper (str e)) (lst ch))"

lemma del_members:
  assumes "texts_differ ch" and "set es \<subseteq> set (lst ch)" and "distinct es"
  shows "lst (foldl (\<lambda>ch i. snd (del ch (Some i))) ch (map str es)) = filter (\<lambda>x. x \<notin> set es) (lst ch)"
  using assms
proof (induction es arbitrary: ch)
  case (Cons e es)
  let ?ch = "snd (del ch (Some (str e)))"
  have l: "lst ?ch = filter (\<lambda>x. x \<noteq> e) (lst ch)"
    using del_first_filter [of str "lst ch" e] Cons.prems by (simp add: del_lst texts_differ_def)
  have "texts_differ ?ch" using Cons.prems(1) by (auto simp: texts_differ_def l distinct_map inj_on_def)
  moreover have "set es \<subseteq> set (lst ?ch)" using Cons.prems by (auto simp: l)
  ultimately show ?case using Cons.IH [of ?ch] Cons.prems(3) by (simp add: l)
qed simp

lemma remove_matching_result:
  assumes "texts_differ ch" and "c_user c = Some u" and "IsPerson c"
    and "\<forall>e\<in>set (lst ch). str e \<noteq> [] \<and> length (str e) + 10 < MODEBUFLEN"
  shows "lst (fst (remove_matching l str lst del chp ch c fp f)) =
           filter (\<lambda>e. str e \<notin> set (matching_ids str c u (lst ch))) (lst ch) \<and>
         (\<exists>groups. snd (remove_matching l str lst del chp ch c fp f) = mode_messages chp f fp ch (map (mode_line l) groups) \<and>
            concat groups = matching_ids str c u (lst ch) \<and> (\<forall>g\<in>set groups. good_group g))"
proof -
  define es where "es = filter (\<lambda>e. matches_any (str e)
      (map (\<lambda>h. make_nick_user_host (Some (c_name c)) (Some (u_username u)) (Some h)) [u_host u, c_hostip c])) (lst ch)"
  have ids: "matching_ids str c u (lst ch) = map str es" by (simp add: matching_ids_def es_def Let_def)
  have "distinct (lst ch)" using assms(1) by (auto simp: texts_differ_def distinct_map)
  then have "lst (foldl (\<lambda>ch i. snd (del ch (Some i))) ch (map str es)) = filter (\<lambda>x. x \<notin> set es) (lst ch)"
    by (intro del_members assms(1)) (auto simp: es_def)
  also have "\<dots> = filter (\<lambda>e. str e \<notin> set (map str es)) (lst ch)"
  proof (rule filter_cong [OF refl])
    fix x assume x: "x \<in> set (lst ch)"
    have "x = y" if "str x = str y" "y \<in> set (lst ch)" for y
      using assms(1) x that by (auto simp: texts_differ_def distinct_map inj_on_def)
    then show "(x \<notin> set es) = (str x \<notin> set (map str es))" by (auto simp: es_def)
  qed
  moreover have "\<exists>groups. announce l (map str es) ''-'' [] 0 = map (mode_line l) groups \<and> concat groups = map str es \<and>
      (\<forall>g\<in>set groups. good_group g)"
    using announce_groups [of "[]" "map str es" l] assms(4) by (auto simp: es_def MAXTSMODEPARAMS_def MAXPARA_def MODEBUFLEN_def)
  ultimately show ?thesis using assms(2,3) by (auto simp: remove_matching_def ids Let_def)
qed

end

lemma del_first_none: "\<not> snd (del_first str i es) \<Longrightarrow> fst (del_first str i es) = es"
  by (induction es) (auto simp: case_prod_unfold split: if_splits)

interpretation bl: mask_list banstr ch_banlist del_banid
  by unfold_locales (simp add: del_banid_def case_prod_unfold del_first_none)

interpretation el: mask_list banstr ch_banexempt_list del_exempt_id
  by unfold_locales (simp add: del_exempt_id_def case_prod_unfold del_first_none)

interpretation il: mask_list invstr ch_invite_list del_invite_id
  by unfold_locales (simp add: del_invite_id_def case_prod_unfold del_first_none)

subsection \<open>The cached answer\<close>

text \<open>
  The operations that can change whether a member is banned, or its cache: changes of the lists, a check
  of a member (as \<^verbatim>\<open>can_send\<close> does it), a client that joins or leaves.
\<close>

datatype ban_op =
    Set_ban addr aClient cstr
  | Unset_ban cstr
  | Set_exempt addr aClient cstr
  | Unset_exempt cstr
  | Check addr
  | Enter addr u32
  | Leave addr

definition set_member :: "chanMember \<Rightarrow> aChannel \<Rightarrow> aChannel" where
  "set_member m ch = ch\<lparr>ch_members := map (\<lambda>x. if cm_cptr x = cm_cptr m then m else x) (ch_members ch)\<rparr>"

fun ban_step :: "cstr \<Rightarrow> time_t \<Rightarrow> clients \<Rightarrow> ban_op \<Rightarrow> aChannel \<Rightarrow> aChannel" where
  "ban_step me_name NOW cs (Set_ban p c i) ch = fst (snd (add_banid me_name NOW p c ch i))"
| "ban_step me_name NOW cs (Unset_ban i) ch = snd (del_banid ch (Some i))"
| "ban_step me_name NOW cs (Set_exempt p c i) ch = fst (snd (add_exempt_id me_name NOW p c ch i))"
| "ban_step me_name NOW cs (Unset_exempt i) ch = snd (del_exempt_id ch (Some i))"
| "ban_step me_name NOW cs (Check p) ch =
     (case find_user_member (ch_members ch) p of
        None \<Rightarrow> ch
      | Some m \<Rightarrow> (case snd (is_banned (cs p) ch (Some m)) of None \<Rightarrow> ch | Some m1 \<Rightarrow> set_member m1 ch))"
| "ban_step me_name NOW cs (Enter p f) ch =
     ch\<lparr>ch_members := \<lparr>cm_cptr = p, cm_flags = f, cm_banserial = ch_banserial ch\<rparr> # ch_members ch\<rparr>"
| "ban_step me_name NOW cs (Leave p) ch = ch\<lparr>ch_members := filter (\<lambda>m. cm_cptr m \<noteq> p) (ch_members ch)\<rparr>"

text \<open>A client enters when it is not banned, and not twice.\<close>

definition enters_ok :: "clients \<Rightarrow> ban_op \<Rightarrow> aChannel \<Rightarrow> bool" where
  "enters_ok cs x ch \<longleftrightarrow>
     (case x of
        Enter p f \<Rightarrow> fst (is_banned (cs p) ch None) = 0 \<and> f AND CHFL_BANNED = 0 \<and> find_user_member (ch_members ch) p = None
      | _ \<Rightarrow> True)"

fun run_bans :: "cstr \<Rightarrow> time_t \<Rightarrow> clients \<Rightarrow> ban_op list \<Rightarrow> aChannel \<Rightarrow> aChannel option" where
  "run_bans me_name NOW cs [] ch = Some ch"
| "run_bans me_name NOW cs (x # xs) ch =
     (if enters_ok cs x ch then run_bans me_name NOW cs xs (ban_step me_name NOW cs x ch) else None)"

definition cache_ok :: "clients \<Rightarrow> nat \<Rightarrow> aChannel \<Rightarrow> bool" where
  "cache_ok cs n ch \<longleftrightarrow>
     ch_banserial ch = of_nat n \<and> distinct (map cm_cptr (ch_members ch)) \<and>
     (\<forall>m\<in>set (ch_members ch). \<exists>k\<le>n. cm_banserial m = of_nat k \<and>
        (k = n \<longrightarrow> cm_flags m AND CHFL_BANNED = fst (is_banned (cs (cm_cptr m)) ch None)))"

text \<open>The fresh answer only depends on the two lists.\<close>

lemma fresh_cong:
  "ch_banlist ch1 = ch_banlist ch2 \<Longrightarrow> ch_banexempt_list ch1 = ch_banexempt_list ch2 \<Longrightarrow>
     fst (is_banned c ch1 None) = fst (is_banned c ch2 None)"
  by (simp add: is_banned_def ban_answer_def split: option.split)

lemma fresh_bit: "fst (is_banned c ch None) AND CHFL_BANNED = fst (is_banned c ch None)"
  by (simp add: is_banned_def split: option.split)

lemma cached_flags: "((f AND NOT CHFL_BANNED) OR (x AND CHFL_BANNED)) AND CHFL_BANNED = x AND CHFL_BANNED"
  by (rule bit_word_eqI) (auto simp: bit_simps)

lemma cache_ok_changed:
  assumes "cache_ok cs n ch" and "ch_banserial ch1 = ch_banserial ch + 1" and "ch_members ch1 = ch_members ch"
  shows "cache_ok cs (Suc n) ch1"
  using assms by (fastforce simp: cache_ok_def le_Suc_eq)

lemma cache_ok_check:
  assumes ok: "cache_ok cs n ch" and "n < 2 ^ 32" and m: "find_user_member (ch_members ch) p = Some m"
    and m1: "snd (is_banned (cs p) ch (Some m)) = Some m1"
  shows "cache_ok cs n (set_member m1 ch)"
proof -
  have mem: "m \<in> set (ch_members ch)" "cm_cptr m = p" using m find_SomeD by (fastforce simp: find_user_member_def)+
  have p: "cm_cptr m1 = p" using m1 mem(2) by (auto simp: is_banned_def Let_def split: option.splits if_splits)
  have new: "m1 = m \<or> cm_banserial m1 = of_nat n \<and> cm_flags m1 AND CHFL_BANNED = fst (is_banned (cs p) ch None)"
    using m1 ok cached_flags [of "cm_flags m" "CHFL_BANNED"] cached_flags [of "cm_flags m" 0]
    by (auto simp: is_banned_def cache_ok_def Let_def split: option.splits if_splits)
  have fresh: "fst (is_banned c (set_member m1 ch) None) = fst (is_banned c ch None)" for c
    by (rule fresh_cong) (simp_all add: set_member_def)
  have "map cm_cptr (ch_members (set_member m1 ch)) = map cm_cptr (ch_members ch)"
    using p by (auto simp: set_member_def)
  moreover have "\<exists>k\<le>n. cm_banserial x = of_nat k \<and> (k = n \<longrightarrow> cm_flags x AND CHFL_BANNED = fst (is_banned (cs (cm_cptr x)) ch None))"
    if "x \<in> set (ch_members (set_member m1 ch))" for x
  proof -
    from that obtain y where y: "y \<in> set (ch_members ch)" "x = (if cm_cptr y = p then m1 else y)" using p by (auto simp: set_member_def)
    show ?thesis
    proof (cases "x = m1")
      case True
      then show ?thesis using new ok mem p by (auto simp: cache_ok_def)
    next
      case False
      then show ?thesis using y ok by (auto simp: cache_ok_def split: if_splits)
    qed
  qed
  ultimately show ?thesis using ok by (simp add: cache_ok_def fresh) (simp add: set_member_def)
qed

lemma cache_ok_members:
  assumes "cache_ok cs n ch" and "\<forall>m\<in>set ms. m \<in> set (ch_members ch) \<or> cm_banserial m = ch_banserial ch \<and>
      cm_flags m AND CHFL_BANNED = fst (is_banned (cs (cm_cptr m)) ch None)" and "distinct (map cm_cptr ms)"
  shows "cache_ok cs n (ch\<lparr>ch_members := ms\<rparr>)"
proof -
  have "fst (is_banned c (ch\<lparr>ch_members := ms\<rparr>) None) = fst (is_banned c ch None)" for c by (rule fresh_cong) simp_all
  then show ?thesis using assms by (auto simp: cache_ok_def)
qed

lemma ban_step_cache:
  assumes ok: "cache_ok cs n ch" and "n < 2 ^ 32" and "enters_ok cs x ch"
  shows "\<exists>n'\<le>Suc n. cache_ok cs n' (ban_step me_name NOW cs x ch)"
proof -
  have keep: "\<exists>n'\<le>Suc n. cache_ok cs n' ch1"
    if "ch1 = ch \<or> ch_banserial ch1 = ch_banserial ch + 1 \<and> ch_members ch1 = ch_members ch" for ch1
    using that ok cache_ok_changed [OF ok, of ch1] by (metis le_SucI order_refl)
  show ?thesis
  proof (cases x)
    case (Check p)
    show ?thesis
    proof (cases "find_user_member (ch_members ch) p")
      case None
      then show ?thesis using Check keep [of ch] by simp
    next
      case (Some m)
      then show ?thesis using Check keep [of ch] cache_ok_check [OF ok assms(2) Some] by (auto split: option.split intro: le_SucI)
    qed
  next
    case (Enter p f)
    have "\<forall>m\<in>set (ch_members ch). cm_cptr m \<noteq> p"
      using assms(3) by (auto simp: Enter enters_ok_def find_user_member_def find_None_iff)
    then have "cache_ok cs n (ban_step me_name NOW cs x ch)" unfolding Enter ban_step.simps
      using ok assms(3) by (intro cache_ok_members) (auto simp: Enter enters_ok_def cache_ok_def)
    then show ?thesis by (meson le_SucI order_refl)
  next
    case (Leave p)
    have "cache_ok cs n (ban_step me_name NOW cs x ch)" unfolding Leave ban_step.simps
      using ok by (intro cache_ok_members) (auto simp: cache_ok_def distinct_map_filter)
    then show ?thesis by (meson le_SucI order_refl)
  qed (auto simp: add_banid_def add_exempt_id_def del_banid_def del_exempt_id_def case_prod_unfold split: option.split intro!: keep)
qed

lemma run_bans_cache:
  assumes "cache_ok cs n ch" and "n + length xs < 2 ^ 32" and "run_bans me_name NOW cs xs ch = Some ch'"
  shows "\<exists>n'<2 ^ 32. cache_ok cs n' ch'"
  using assms
proof (induction xs arbitrary: n ch)
  case (Cons x xs)
  then have e: "enters_ok cs x ch" and r: "run_bans me_name NOW cs xs (ban_step me_name NOW cs x ch) = Some ch'"
    by (auto split: if_splits)
  obtain n' where n': "n' \<le> Suc n" "cache_ok cs n' (ban_step me_name NOW cs x ch)"
    using ban_step_cache [OF Cons.prems(1) _ e, of me_name NOW] Cons.prems(2) by auto
  then show ?case using Cons.IH [OF n'(2) _ r] Cons.prems(2) by simp
qed auto

lemma cached_eq_fresh:
  assumes ok: "cache_ok cs n ch" and "n < 2 ^ 32" and m: "m \<in> set (ch_members ch)"
  shows "fst (is_banned (cs (cm_cptr m)) ch (Some m)) = fst (is_banned (cs (cm_cptr m)) ch None)"
proof (cases "cm_banserial m = ch_banserial ch")
  case True
  from ok m obtain k where k: "k \<le> n" "cm_banserial m = of_nat k"
    "k = n \<longrightarrow> cm_flags m AND CHFL_BANNED = fst (is_banned (cs (cm_cptr m)) ch None)" by (auto simp: cache_ok_def)
  have "unat (of_nat k :: u32) = unat (of_nat n :: u32)" using True k(2) ok by (simp add: cache_ok_def)
  then have "k = n" using k(1) assms(2) by (simp add: unat_of_nat)
  with True k(3) show ?thesis by (auto simp: is_banned_def Let_def split: option.splits if_splits)
next
  case False
  then show ?thesis by (auto simp: is_banned_def Let_def split: option.splits)
qed

subsection \<open>Properties\<close>

text \<open>
  C20: the ban status cached in a member is never out of date.  However bans and exempts are set and
  removed and members checked, enter and leave, in fewer than \<open>2 ^ 32\<close> operations (when the serial number would
  come round), the answer for a member is the one a search of the lists gives, provided that
  clients enter when they are not banned and do not change their names.
\<close>

theorem ban_cache_exact:
  assumes "ch_banserial ch = 0" and "ch_members ch = []" and "length xs < 2 ^ 32"
    and "run_bans me_name NOW cs xs ch = Some ch'" and "m \<in> set (ch_members ch')"
  shows "fst (is_banned (cs (cm_cptr m)) ch' (Some m)) = fst (is_banned (cs (cm_cptr m)) ch' None)"
proof -
  have "cache_ok cs 0 ch" using assms(1,2) by (simp add: cache_ok_def)
  then obtain n where "n < 2 ^ 32" "cache_ok cs n ch'" using run_bans_cache assms(3,4) by (metis add_0)
  with assms(5) show ?thesis by (simp add: cached_eq_fresh)
qed

definition example_alice :: aClient where
  "example_alice = (example_client ''alice'')\<lparr>c_user := Some example_user\<rparr>"

definition example_ban :: "ban_op list" where
  "example_ban = [Enter 2 0, Set_ban 1 (example_client ''hub.net'') ''alice!*@*'', Check 2]"

theorem ban_cache_exact_witness:
  "\<exists>ch'. run_bans ''irc.net'' 0 (\<lambda>_. example_alice) example_ban make_channel = Some ch' \<and>
     (\<exists>m\<in>set (ch_members ch'). fst (is_banned example_alice ch' (Some m)) = CHFL_BANNED)"
proof -
  let ?ch = "make_channel\<lparr>ch_members := [\<lparr>cm_cptr = 2, cm_flags = CHFL_BANNED, cm_banserial = 1\<rparr>],
      ch_banlist := [\<lparr>banstr = ''alice!*@*'', ban_who = ''hub.net'', ban_when = 0, ban_type = MTYP_FULL\<rparr>], ch_banserial := 1\<rparr>"
  have banned: "fst (is_banned example_alice ?ch None) = CHFL_BANNED" by code_simp
  have run: "run_bans ''irc.net'' 0 (\<lambda>_. example_alice) example_ban make_channel = Some ?ch"
    by code_simp
  have "fst (is_banned example_alice ?ch (Some \<lparr>cm_cptr = 2, cm_flags = CHFL_BANNED, cm_banserial = 1\<rparr>)) = CHFL_BANNED"
    using ban_cache_exact [OF _ _ _ run, of "\<lparr>cm_cptr = 2, cm_flags = CHFL_BANNED, cm_banserial = 1\<rparr>"] banned
    by (simp add: make_channel_def example_ban_def)
  with run show ?thesis by (auto simp: make_channel_def)
qed

text \<open>
  Lifting all bans on a client removes exactly the bans that match it, and announces them: the
  MODE messages, read one after the other, name exactly the removed bans in their order, with
  as many letters as bans, at most \<open>MAXTSMODEPARAMS\<close> bans in a message and parameters within \<open>MODEBUFLEN\<close>.
\<close>

lemma remove_matching_bans_exact:
  assumes "distinct (map (\<lambda>b. map ToUpper (banstr b)) (ch_banlist ch))" and "c_user c = Some u" and "IsPerson c"
    and "\<forall>b\<in>set (ch_banlist ch). banstr b \<noteq> [] \<and> length (banstr b) + 10 < MODEBUFLEN"
  shows "ch_banlist (fst (remove_matching_bans chp ch c fp f)) =
           filter (\<lambda>b. banstr b \<notin> set (matching_ids banstr c u (ch_banlist ch))) (ch_banlist ch) \<and>
         (\<exists>groups. snd (remove_matching_bans chp ch c fp f) = mode_messages chp f fp ch (map (mode_line CHR ''b'') groups) \<and>
            concat groups = matching_ids banstr c u (ch_banlist ch) \<and> (\<forall>g\<in>set groups. good_group g))"
  unfolding remove_matching_bans_def using assms by (intro bl.remove_matching_result) (simp_all add: bl.texts_differ_def)

definition example_bans :: aChannel where
  "example_bans = make_channel\<lparr>ch_banlist := map (new_entry example_alice 0) [''*!*@10.0.0.*'', ''bob!*@*'', ''alice!*@*'']\<rparr>"

end
