(* ===== verification/Channel_Access.thy ===== *)
theory Channel_Access
  imports Channel_Bans
begin

section \<open>Who may join, speak and change nickname (src/src/channel.c)\<close>

text \<open>
  The questions a channel is asked.  \<open>can_send\<close> may refresh the ban cache of a member and
  \<open>check_joinrate\<close> counts join attempts, so they return the channel too.
\<close>

definition DEFAULT_JOIN_NUM :: int where "DEFAULT_JOIN_NUM = 8"
definition DEFAULT_JOIN_TIME :: int where "DEFAULT_JOIN_TIME = 4"
definition ERR_NOCTRLSONCHAN :: int where "ERR_NOCTRLSONCHAN = 408"
definition ERR_CHANNELISFULL :: int where "ERR_CHANNELISFULL = 471"
definition ERR_INVITEONLYCHAN :: int where "ERR_INVITEONLYCHAN = 473"
definition ERR_BANNEDFROMCHAN :: int where "ERR_BANNEDFROMCHAN = 474"
definition ERR_BADCHANNELKEY :: int where "ERR_BADCHANNELKEY = 475"
definition ERR_NEEDREGGEDNICK :: int where "ERR_NEEDREGGEDNICK = 477"

definition UMODE_r :: u32 where "UMODE_r = 0x00000010"

definition IsRegNick :: "aClient \<Rightarrow> bool" where
  "IsRegNick x \<longleftrightarrow> has_flag (c_umode x) UMODE_r"

definition IsOper :: "aClient \<Rightarrow> bool" where
  "IsOper x \<longleftrightarrow> has_flag (c_umode x) UMODE_o"

subsection \<open>Names and texts\<close>

fun msg_has_ctrls :: "cstr \<Rightarrow> bool" where
  "msg_has_ctrls [] \<longleftrightarrow> False"
| "msg_has_ctrls (c # cs) \<longleftrightarrow>
     (if c \<in> {CHR 0x03, CHR 0x07, CHR 0x0F, CHR 0x16} then True
      else if c = CHR 0x1B \<and> cs \<noteq> [] \<and> hd cs \<in> {CHR ''$'', CHR ''(''} then msg_has_ctrls (tl cs)
      else msg_has_ctrls cs)"

definition bad_channel_char :: "char \<Rightarrow> bool" where
  "bad_channel_char c \<longleftrightarrow> (of_char c :: nat) < 33 \<or> c = CHR '','' \<or> (of_char c :: nat) = 160"

definition clean_channelname :: "cstr \<Rightarrow> cstr" where
  "clean_channelname cn = takeWhile (\<lambda>c. \<not> bad_channel_char c) cn"

definition check_channelname :: "cstr \<Rightarrow> addr \<Rightarrow> aClient \<Rightarrow> cstr \<Rightarrow> bool \<times> out_msg list" where
  "check_channelname me_name p c cn =
     (if \<not> MyClient c then (True, [])
      else
        (case dropWhile (\<lambda>x. \<not> bad_channel_char x) cn of
           [] \<Rightarrow> (True, [])
         | rest \<Rightarrow> (False, [To_one p ''ERR_BADCHANNAME'' [S me_name, S (c_name c), S rest]])))"

subsection \<open>Status of a member\<close>

definition member_flag :: "u32 \<Rightarrow> addr \<Rightarrow> aChannel option \<Rightarrow> u32" where
  "member_flag f p ch =
     (case ch of
        None \<Rightarrow> 0
      | Some ch \<Rightarrow> (case find_user_member (ch_members ch) p of None \<Rightarrow> 0 | Some cm \<Rightarrow> cm_flags cm AND f))"

definition is_chan_op :: "addr \<Rightarrow> aChannel option \<Rightarrow> u32" where "is_chan_op = member_flag CHFL_CHANOP"
definition is_deopped :: "addr \<Rightarrow> aChannel option \<Rightarrow> u32" where "is_deopped = member_flag CHFL_DEOPPED"
definition is_halfop :: "addr \<Rightarrow> aChannel option \<Rightarrow> u32" where "is_halfop = member_flag CHFL_HALFOP"
definition has_voice :: "addr \<Rightarrow> aChannel option \<Rightarrow> u32" where "has_voice = member_flag CHFL_VOICE"

definition is_only_halfop :: "addr \<Rightarrow> aChannel option \<Rightarrow> u32" where
  "is_only_halfop p ch = (if is_chan_op p ch \<noteq> 0 then 0 else is_halfop p ch)"

subsection \<open>Speaking and changing nickname\<close>

definition banned_bool :: "u32 \<times> chanMember option \<Rightarrow> bool" where
  "banned_bool r \<longleftrightarrow> fst r \<noteq> 0"

definition can_send :: "addr \<Rightarrow> aClient \<Rightarrow> aChannel \<Rightarrow> cstr option \<Rightarrow> int \<times> aChannel" where
  "can_send p c ch msg =
     (let ctrl = (has_mode ch MODE_NOCTRL \<and> (case msg of None \<Rightarrow> False | Some s \<Rightarrow> msg_has_ctrls s));
          noreg = (has_mode ch MODE_MODREG \<and> \<not> IsRegNick c) in
      if IsServer c \<or> IsULine c then (0, ch)
      else
        (case find_user_member (ch_members ch) p of
           None \<Rightarrow>
             (if has_mode ch MODE_MODERATED then uint MODE_MODERATED
              else if has_mode ch MODE_NOPRIVMSGS then uint MODE_NOPRIVMSGS
              else if noreg then ERR_NEEDREGGEDNICK
              else if ctrl then ERR_NOCTRLSONCHAN
              else if MyClient c \<and> banned_bool (is_banned c ch None) then uint MODE_BAN
              else 0, ch)
         | Some cm \<Rightarrow>
             if has_flag (cm_flags cm) (CHFL_CHANOP OR CHFL_HALFOP OR CHFL_VOICE)
             then (if ctrl then ERR_NOCTRLSONCHAN else 0, ch)
             else if has_mode ch MODE_MODERATED then (uint MODE_MODERATED, ch)
             else
               (let b = is_banned c ch (Some cm);
                    ch1 = (case snd b of None \<Rightarrow> ch | Some cm1 \<Rightarrow> set_member cm1 ch) in
                (if banned_bool b then uint MODE_BAN
                 else if noreg then ERR_NEEDREGGEDNICK
                 else if ctrl then ERR_NOCTRLSONCHAN
                 else 0, ch1))))"

definition can_changenick :: "addr \<Rightarrow> aClient \<Rightarrow> aChannel \<Rightarrow> int" where
  "can_changenick p c ch =
     (if IsServer c \<or> IsULine c then 0
      else
        (case find_user_member (ch_members ch) p of
           Some cm \<Rightarrow>
             if \<not> has_flag (cm_flags cm) (CHFL_CHANOP OR CHFL_HALFOP) \<and> has_mode ch MODE_NONICK then uint MODE_MODERATED else 0
         | None \<Rightarrow> 0))"

subsection \<open>Joining\<close>

text \<open>
  \<open>check_joinrate\<close>: the network default is counted for warnings, then the limits of the channel, or the
  default ones, are applied.
\<close>

definition default_rate :: "time_t \<Rightarrow> bool \<Rightarrow> aClient \<Rightarrow> anUser \<Rightarrow> aChannel \<Rightarrow> aChannel \<times> out_msg list" where
  "default_rate NOW loc c u ch =
     (let ch = (if NOW - ch_default_join_start ch > DEFAULT_JOIN_TIME
                then ch\<lparr>ch_default_join_start := NOW, ch_default_join_count := 0\<rparr> else ch);
          ch = ch\<lparr>ch_default_join_count := ch_default_join_count ch + 1\<rparr> in
      (ch, if loc \<and> ch_default_join_count ch > DEFAULT_JOIN_NUM
           then [To_realops ''Join rate warning on %s for %s!%s@%s (%d in %d)''
                  [S (ch_chname ch), S (c_name c), S (u_username u), S (c_hostip c), D (ch_default_join_count ch),
                   D (NOW - ch_default_join_start ch)]]
           else []))"

definition check_joinrate ::
  "time_t \<Rightarrow> time_t \<Rightarrow> bool \<Rightarrow> aClient \<Rightarrow> anUser \<Rightarrow> aChannel \<Rightarrow> bool \<times> aChannel \<times> out_msg list" where
  "check_joinrate NOW ts loc c u ch =
     (if \<not> loc \<and> NOW - ts > 60 then (True, ch, [])
      else
        (case default_rate NOW loc c u ch of
           (ch, out) \<Rightarrow>
             (let md = ch_mode ch; own = has_mode ch MODE_JOINRATE;
                  join_num = (if own then md_join_num md else DEFAULT_JOIN_NUM);
                  join_time = (if own then md_join_time md else DEFAULT_JOIN_TIME) in
              if own \<and> (md_join_num md = 0 \<or> md_join_time md = 0) then (True, ch, out)
              else if NOW - ch_join_start ch > join_time
              then (True, ch\<lparr>ch_join_start := NOW, ch_join_count := 0\<rparr>, out)
              else if loc \<and> ch_join_count ch \<ge> join_num
              then (False, ch, out @ [To_realops ''Join rate throttling on %s for %s!%s@%s (%d/%d in %d/%d)''
                     [S (ch_chname ch), S (c_name c), S (u_username u), S (c_hostip c), D (ch_join_count ch), D join_num,
                      D (NOW - ch_join_start ch), D join_time]])
              else (True, ch, out))))"

definition wrong_key :: "aChannel \<Rightarrow> cstr option \<Rightarrow> bool" where
  "wrong_key ch key \<longleftrightarrow>
     md_key (ch_mode ch) \<noteq> [] \<and>
     (case key of None \<Rightarrow> True | Some k \<Rightarrow> k = [] \<or> mycmp (md_key (ch_mode ch)) k \<noteq> 0)"

definition over_limit :: "aChannel \<Rightarrow> bool" where
  "over_limit ch \<longleftrightarrow> md_limit (ch_mode ch) \<noteq> 0 \<and> ch_users ch \<ge> md_limit (ch_mode ch)"

text \<open>
  The parameter \<open>reg_args\<close> are the last arguments of the text that asks for a registered nickname
  (services nickname, server and address).
\<close>

definition join_error :: "bool \<Rightarrow> aClient \<Rightarrow> aChannel \<Rightarrow> cstr option \<Rightarrow> int \<times> cstr option" where
  "join_error rate c ch key =
     (if \<not> rate then (ERR_CHANNELISFULL, Some ''+j'')
      else if has_mode ch MODE_INVITEONLY then (ERR_INVITEONLYCHAN, Some ''+i'')
      else if has_mode ch MODE_OPERONLY \<and> \<not> IsOper c then (ERR_INVITEONLYCHAN, Some ''+O'')
      else if over_limit ch then (ERR_CHANNELISFULL, Some ''+l'')
      else if has_mode ch MODE_REGONLY \<and> \<not> IsRegNick c then (ERR_NEEDREGGEDNICK, None)
      else if wrong_key ch key then (ERR_BADCHANNELKEY, None)
      else (0, None))"

definition can_join ::
  "cstr \<Rightarrow> arg list \<Rightarrow> time_t \<Rightarrow> addr \<Rightarrow> aClient \<Rightarrow> anUser \<Rightarrow> addr \<Rightarrow> aChannel \<Rightarrow> cstr option \<Rightarrow> int \<times> aChannel \<times> out_msg list" where
  "can_join me_name reg_args NOW p c u chp ch key =
     (if chp \<in> set (u_invited u) \<or> IsULine c then (1, ch, [])
      else
        (case check_joinrate NOW NOW True c u ch of
           (rate, ch, out) \<Rightarrow>
             (case join_error rate c ch key of
                (e, r) \<Rightarrow>
                  (let e = (if e \<noteq> 0 \<and> is_invited c u ch \<noteq> None then 0 else e);
                       e = (if e = 0 \<and> banned_bool (is_banned c ch None) then ERR_BANNEDFROMCHAN else e) in
                   if e = 0 then (1, ch, out)
                   else (0, ch, out @
                     [if e = ERR_NEEDREGGEDNICK
                      then To_one p ''ERR_NEEDREGGEDNICK'' ([S me_name, S (c_name c), S (ch_chname ch), S ''join''] @ reg_args)
                      else To_one p ''getreply(error)'' ([D e, S me_name, S (c_name c), S (ch_chname ch)] @
                             (case r of None \<Rightarrow> [] | Some r \<Rightarrow> [S r]))])))))"

text \<open>The letters put into the buffer of reasons before the invitation masks and the bans are looked at.\<close>

definition join_reasons :: "bool \<Rightarrow> aClient \<Rightarrow> aChannel \<Rightarrow> cstr option \<Rightarrow> cstr" where
  "join_reasons rate c ch key =
     (if has_mode ch MODE_INVITEONLY then ''i'' else []) @
     (if has_mode ch MODE_REGONLY \<and> \<not> IsRegNick c then ''R'' else []) @
     (if has_mode ch MODE_OPERONLY \<and> \<not> IsOper c then ''O'' else []) @
     (if wrong_key ch key then ''k'' else []) @
     (if over_limit ch then ''l'' else []) @
     (if \<not> rate then ''j'' else [])"

definition can_join_whynot ::
  "time_t \<Rightarrow> aClient \<Rightarrow> anUser \<Rightarrow> addr \<Rightarrow> aChannel \<Rightarrow> cstr option \<Rightarrow> cstr \<times> aChannel \<times> out_msg list" where
  "can_join_whynot NOW c u chp ch key =
     (if chp \<in> set (u_invited u) \<or> IsULine c then ([], ch, [])
      else
        (case check_joinrate NOW NOW True c u ch of
           (rate, ch1, out) \<Rightarrow>
             (let r = join_reasons rate c ch key;
                  r = (if r \<noteq> [] \<and> is_invited c u ch1 \<noteq> None then [] else r) in
              (r @ (if banned_bool (is_banned c ch1 None) then ''b'' else []), ch1, out))))"

subsection \<open>Properties\<close>

lemma check_joinrate_keeps:
  assumes "check_joinrate NOW ts loc c u ch = (r, ch1, out)"
  shows "ch_mode ch1 = ch_mode ch \<and> ch_users ch1 = ch_users ch"
  using assms by (auto simp: check_joinrate_def default_rate_def Let_def split: if_splits)

text \<open>
  C22: the two routines that decide about a join agree: a client may join exactly when the list of reasons
  against it is empty, for every channel and key, and both count the attempt in the same way.
\<close>

theorem can_join_agrees_whynot:
  "(fst (can_join me_name reg_args NOW p c u chp ch key) = 1 \<longleftrightarrow> fst (can_join_whynot NOW c u chp ch key) = []) \<and>
   fst (snd (can_join me_name reg_args NOW p c u chp ch key)) = fst (snd (can_join_whynot NOW c u chp ch key))"
proof (cases "chp \<in> set (u_invited u) \<or> IsULine c")
  case True
  then show ?thesis by (simp add: can_join_def can_join_whynot_def)
next
  case False
  obtain rate ch1 out where j: "check_joinrate NOW NOW True c u ch = (rate, ch1, out)" by (cases "check_joinrate NOW NOW True c u ch")
  have m: "has_mode ch1 x = has_mode ch x" "over_limit ch1 = over_limit ch" "wrong_key ch1 key = wrong_key ch key" for x
    using check_joinrate_keeps [OF j] by (simp_all add: has_mode_def over_limit_def wrong_key_def split: option.split)
  obtain e r where e: "join_error rate c ch1 key = (e, r)" by (cases "join_error rate c ch1 key")
  have "fst (join_error rate c ch1 key) \<noteq> 0 \<longleftrightarrow> join_reasons rate c ch key \<noteq> []"
    by (simp add: join_error_def join_reasons_def m ERR_CHANNELISFULL_def ERR_INVITEONLYCHAN_def ERR_NEEDREGGEDNICK_def ERR_BADCHANNELKEY_def)
  with e have "e \<noteq> 0 \<longleftrightarrow> join_reasons rate c ch key \<noteq> []" by simp
  then show ?thesis using False
    by (cases "e = 0"; cases "is_invited c u ch1 = None"; cases "banned_bool (is_banned c ch1 None)")
      (simp_all add: can_join_def can_join_whynot_def j e Let_def ERR_BANNEDFROMCHAN_def)
qed

end
