(* ===== verification/Channel_Members.thy ===== *)
theory Channel_Members
  imports Channel_Access Run_Ops
begin

section \<open>Channel membership and invitations (src/src/channel.c)\<close>

text \<open>
  The global list of channels with the channel table, the members of a channel and the channels of a
  user, the invitations of a channel and of a user.  Membership and invitation are kept on both sides.
  \<open>None\<close> is an access through a null pointer or behind a buffer.  A channel whose last member leaves
  is removed and its struct freed.  Flood records (\<^verbatim>\<open>FLUD\<close>) are not part of the model.
\<close>

record chan_state =
  cs_clients :: clients
  cs_channels :: "addr \<Rightarrow> aChannel"
  cs_channel :: "addr list"
  cs_table :: hash_tab
  cs_count :: int
  cs_next :: addr

definition upd_user :: "addr \<Rightarrow> (anUser \<Rightarrow> anUser) \<Rightarrow> chan_state \<Rightarrow> chan_state option" where
  "upd_user p f st =
     (case c_user (cs_clients st p) of
        None \<Rightarrow> None
      | Some u \<Rightarrow> Some (st\<lparr>cs_clients := (cs_clients st)(p := (cs_clients st p)\<lparr>c_user := Some (f u)\<rparr>)\<rparr>))"

definition upd_chan :: "addr \<Rightarrow> (aChannel \<Rightarrow> aChannel) \<Rightarrow> chan_state \<Rightarrow> chan_state" where
  "upd_chan chp f st = st\<lparr>cs_channels := (cs_channels st)(chp := f (cs_channels st chp))\<rparr>"

definition find_channel :: "chan_state \<Rightarrow> cstr \<Rightarrow> addr option" where
  "find_channel st n = hash_find_channel (\<lambda>a. ch_chname (cs_channels st a)) (cs_table st) n None"

definition IsMember :: "chan_state \<Rightarrow> addr \<Rightarrow> addr \<Rightarrow> bool" where
  "IsMember st p chp \<longleftrightarrow> (case c_user (cs_clients st p) of None \<Rightarrow> False | Some u \<Rightarrow> chp \<in> set (u_channel u))"

subsection \<open>Invitations\<close>

definition del_invite :: "addr \<Rightarrow> addr \<Rightarrow> chan_state \<Rightarrow> chan_state option" where
  "del_invite cptr chp st =
     upd_user cptr (\<lambda>u. u\<lparr>u_invited := remove1 chp (u_invited u)\<rparr>)
       (upd_chan chp (\<lambda>ch. ch\<lparr>ch_invites := remove1 cptr (ch_invites ch)\<rparr>) st)"

definition add_invite :: "int \<Rightarrow> addr \<Rightarrow> addr \<Rightarrow> chan_state \<Rightarrow> chan_state option" where
  "add_invite maxchannelsperuser cptr chp st =
     Option.bind (del_invite cptr chp st) (\<lambda>st.
     Option.bind (c_user (cs_clients st cptr)) (\<lambda>u.
     Option.bind
       (if int (length (u_invited u)) \<ge> maxchannelsperuser
        then (case u_invited u of [] \<Rightarrow> None | old # _ \<Rightarrow> del_invite cptr old st)
        else Some st) (\<lambda>st.
     upd_user cptr (\<lambda>u. u\<lparr>u_invited := u_invited u @ [chp]\<rparr>)
       (upd_chan chp (\<lambda>ch. ch\<lparr>ch_invites := cptr # ch_invites ch\<rparr>) st))))"

text \<open>\<^verbatim>\<open>while ((tmp = chptr->invites)) del_invite(tmp->value.cptr, chptr)\<close>: each round
  removes the head of the list.\<close>

fun del_invites :: "addr list \<Rightarrow> addr \<Rightarrow> chan_state \<Rightarrow> chan_state option" where
  "del_invites [] chp st = Some st"
| "del_invites (p # ps) chp st = Option.bind (del_invite p chp st) (del_invites ps chp)"

subsection \<open>Channels and their members\<close>

definition get_channel :: "time_t \<Rightarrow> addr \<Rightarrow> cstr \<Rightarrow> bool \<Rightarrow> chan_state \<Rightarrow> (addr option \<times> bool \<times> chan_state) option" where
  "get_channel NOW cptr chname create st =
     (if chname = [] then Some (None, False, st)
      else
        (let chname = (if MyClient (cs_clients st cptr) \<and> length chname > CHANNELLEN then take CHANNELLEN chname else chname) in
         case find_channel st chname of
           Some chp \<Rightarrow> Some (Some chp, False, st)
         | None \<Rightarrow>
             if \<not> create then Some (None, False, st)
             else if length chname > CHANNELLEN then None
             else
               (let chp = cs_next st in
                Some (Some chp, True,
                  st\<lparr>cs_channels := (cs_channels st)(chp := make_channel\<lparr>ch_chname := chname, ch_channelts := NOW\<rparr>),
                     cs_channel := chp # cs_channel st,
                     cs_table := add_to_channel_hash_table chname chp (cs_table st),
                     cs_count := cs_count st + 1, cs_next := chp + 1\<rparr>))))"

definition add_user_to_channel :: "addr \<Rightarrow> addr \<Rightarrow> u32 \<Rightarrow> chan_state \<Rightarrow> chan_state" where
  "add_user_to_channel chp who flags st =
     (case upd_user who (\<lambda>u. u\<lparr>u_channel := chp # u_channel u, u_joined := u_joined u + 1\<rparr>) st of
        None \<Rightarrow> st
      | Some st1 \<Rightarrow>
          upd_chan chp (\<lambda>ch. ch\<lparr>ch_members := \<lparr>cm_cptr = who, cm_flags = flags, cm_banserial = ch_banserial ch\<rparr> # ch_members ch,
            ch_users := ch_users ch + 1\<rparr>) st1)"

fun del_member :: "addr \<Rightarrow> chanMember list \<Rightarrow> chanMember list" where
  "del_member p [] = []"
| "del_member p (cm # cms) = (if cm_cptr cm = p then cms else cm # del_member p cms)"

definition sub1_from_channel :: "addr \<Rightarrow> chan_state \<Rightarrow> chan_state option" where
  "sub1_from_channel chp st =
     (let st = upd_chan chp (\<lambda>ch. ch\<lparr>ch_users := ch_users ch - 1\<rparr>) st in
      if ch_users (cs_channels st chp) \<le> 0
      then map_option (\<lambda>st. st\<lparr>cs_channel := remove1 chp (cs_channel st),
             cs_table := snd (del_from_channel_hash_table (ch_chname (cs_channels st chp)) chp (cs_table st)),
             cs_count := cs_count st - 1\<rparr>)
             (del_invites (ch_invites (cs_channels st chp)) chp st)
      else Some st)"

definition remove_user_from_channel :: "addr \<Rightarrow> addr \<Rightarrow> chan_state \<Rightarrow> chan_state option" where
  "remove_user_from_channel sptr chp st =
     Option.bind (upd_user sptr (\<lambda>u. u\<lparr>u_channel := remove1 chp (u_channel u), u_joined := u_joined u - 1\<rparr>)
                   (upd_chan chp (\<lambda>ch. ch\<lparr>ch_members := del_member sptr (ch_members ch)\<rparr>) st))
       (sub1_from_channel chp)"

subsection \<open>Consistency\<close>

definition members_of :: "chan_state \<Rightarrow> addr \<Rightarrow> addr list" where
  "members_of st chp = map cm_cptr (ch_members (cs_channels st chp))"

definition invites_of :: "chan_state \<Rightarrow> addr \<Rightarrow> addr list" where
  "invites_of st chp = ch_invites (cs_channels st chp)"

definition user_links_ok :: "chan_state \<Rightarrow> addr \<Rightarrow> anUser \<Rightarrow> bool" where
  "user_links_ok st p u \<longleftrightarrow>
     distinct (u_channel u) \<and> u_joined u = int (length (u_channel u)) \<and> distinct (u_invited u) \<and>
     (\<forall>a. a \<in> set (u_channel u) \<longleftrightarrow> a \<in> set (cs_channel st) \<and> p \<in> set (members_of st a)) \<and>
     (\<forall>a. a \<in> set (u_invited u) \<longleftrightarrow> a \<in> set (cs_channel st) \<and> p \<in> set (invites_of st a))"

definition chan_links_ok :: "chan_state \<Rightarrow> addr \<Rightarrow> bool" where
  "chan_links_ok st a \<longleftrightarrow>
     distinct (members_of st a) \<and> ch_users (cs_channels st a) = int (length (members_of st a)) \<and>
     distinct (invites_of st a) \<and> (\<forall>p\<in>set (members_of st a) \<union> set (invites_of st a). c_user (cs_clients st p) \<noteq> None)"

definition chans_ok :: "chan_state \<Rightarrow> bool" where
  "chans_ok st \<longleftrightarrow>
     distinct (cs_channel st) \<and> cs_count st = int (length (cs_channel st)) \<and> (\<forall>a\<in>set (cs_channel st). a < cs_next st) \<and>
     channel_table_ok (\<lambda>a. ch_chname (cs_channels st a)) (cs_table st) \<and>
     entries (\<lambda>h. chain (cs_table st h)) = set (cs_channel st)"

definition is_user :: "chan_state \<Rightarrow> addr \<Rightarrow> bool" where
  "is_user st p \<longleftrightarrow> c_user (cs_clients st p) \<noteq> None"

definition user_at :: "chan_state \<Rightarrow> addr \<Rightarrow> anUser" where
  "user_at st p = the (c_user (cs_clients st p))"

definition links_ok :: "chan_state \<Rightarrow> bool" where
  "links_ok st \<longleftrightarrow>
     (\<forall>a\<in>set (cs_channel st). chan_links_ok st a) \<and> (\<forall>p. is_user st p \<longrightarrow> user_links_ok st p (user_at st p))"

definition set_user :: "addr \<Rightarrow> (anUser \<Rightarrow> anUser) \<Rightarrow> chan_state \<Rightarrow> chan_state" where
  "set_user p f st = st\<lparr>cs_clients := (cs_clients st)(p := (cs_clients st p)\<lparr>c_user := Some (f (user_at st p))\<rparr>)\<rparr>"

lemma upd_user_eq: "is_user st p \<Longrightarrow> upd_user p f st = Some (set_user p f st)"
  by (auto simp: upd_user_def set_user_def is_user_def user_at_def)

named_theorems chan_simps

lemma set_user_simps [chan_simps]:
  "cs_channels (set_user p f st) = cs_channels st" "cs_channel (set_user p f st) = cs_channel st"
  "cs_table (set_user p f st) = cs_table st" "cs_count (set_user p f st) = cs_count st" "cs_next (set_user p f st) = cs_next st"
  "user_at (set_user p f st) q = (if q = p then f (user_at st p) else user_at st q)"
  "is_user (set_user p f st) q \<longleftrightarrow> q = p \<or> is_user st q"
  by (simp_all add: set_user_def user_at_def is_user_def)

lemma upd_chan_simps [chan_simps]:
  "cs_channels (upd_chan a f st) b = (if b = a then f (cs_channels st a) else cs_channels st b)"
  "cs_channel (upd_chan a f st) = cs_channel st" "cs_table (upd_chan a f st) = cs_table st" "cs_count (upd_chan a f st) = cs_count st"
  "cs_next (upd_chan a f st) = cs_next st" "cs_clients (upd_chan a f st) = cs_clients st"
  "user_at (upd_chan a f st) = user_at st" "is_user (upd_chan a f st) = is_user st"
  by (simp_all add: upd_chan_def user_at_def is_user_def fun_eq_iff)

lemma chan_links_ok_iff [chan_simps]:
  "chan_links_ok st a \<longleftrightarrow>
     distinct (members_of st a) \<and> ch_users (cs_channels st a) = int (length (members_of st a)) \<and>
     distinct (invites_of st a) \<and> (\<forall>p\<in>set (members_of st a) \<union> set (invites_of st a). is_user st p)"
  by (simp add: chan_links_ok_def is_user_def)

text \<open>The table is about names only.\<close>

lemma chans_ok_cong:
  assumes "chans_ok st" and "cs_channel st1 = cs_channel st" "cs_table st1 = cs_table st" "cs_count st1 = cs_count st" "cs_next st1 = cs_next st"
    and "\<And>a. ch_chname (cs_channels st1 a) = ch_chname (cs_channels st a)"
  shows "chans_ok st1"
  using assms by (simp add: chans_ok_def)

subsection \<open>Invitations keep both sides\<close>

text \<open>What an operation on invitations changes, seen from outside.\<close>

definition same_but_invites :: "chan_state \<Rightarrow> chan_state \<Rightarrow> bool" where
  "same_but_invites st st1 \<longleftrightarrow>
     cs_channel st1 = cs_channel st \<and> cs_table st1 = cs_table st \<and> cs_count st1 = cs_count st \<and> cs_next st1 = cs_next st \<and>
     (\<forall>a. ch_chname (cs_channels st1 a) = ch_chname (cs_channels st a) \<and> ch_members (cs_channels st1 a) = ch_members (cs_channels st a) \<and>
        ch_users (cs_channels st1 a) = ch_users (cs_channels st a)) \<and>
     (\<forall>p. is_user st1 p = is_user st p \<and> u_channel (user_at st1 p) = u_channel (user_at st p) \<and>
        u_joined (user_at st1 p) = u_joined (user_at st p))"

lemma same_but_invites_trans: "same_but_invites a b \<Longrightarrow> same_but_invites b c \<Longrightarrow> same_but_invites a c"
  by (simp add: same_but_invites_def)

lemma same_but_invites_ok:
  assumes "same_but_invites st st1" and "chans_ok st" and "links_ok st"
    and "\<And>a. a \<in> set (cs_channel st) \<Longrightarrow> distinct (invites_of st1 a) \<and> (\<forall>p\<in>set (invites_of st1 a). is_user st p)"
    and "\<And>p. is_user st p \<Longrightarrow> distinct (u_invited (user_at st1 p)) \<and>
          (\<forall>a. a \<in> set (u_invited (user_at st1 p)) \<longleftrightarrow> a \<in> set (cs_channel st) \<and> p \<in> set (invites_of st1 a))"
  shows "chans_ok st1 \<and> links_ok st1"
  using assms unfolding same_but_invites_def chans_ok_def links_ok_def chan_links_ok_iff user_links_ok_def members_of_def by auto

lemma del_invite_ok:
  assumes ok: "chans_ok st" "links_ok st" and p: "is_user st p" and a: "a \<in> set (cs_channel st)"
  obtains st1 where "del_invite p a st = Some st1" "chans_ok st1" "links_ok st1" "same_but_invites st st1"
    "\<And>b. invites_of st1 b = (if b = a then remove1 p (invites_of st a) else invites_of st b)"
    "\<And>q. u_invited (user_at st1 q) = (if q = p then remove1 a (u_invited (user_at st p)) else u_invited (user_at st q))"
proof -
  let ?st = "set_user p (\<lambda>u. u\<lparr>u_invited := remove1 a (u_invited u)\<rparr>) (upd_chan a (\<lambda>ch. ch\<lparr>ch_invites := remove1 p (ch_invites ch)\<rparr>) st)"
  have eq: "del_invite p a st = Some ?st" using p by (simp add: del_invite_def upd_user_eq chan_simps)
  have same: "same_but_invites st ?st" using p by (auto simp: same_but_invites_def chan_simps)
  have inv: "invites_of ?st b = (if b = a then remove1 p (invites_of st a) else invites_of st b)" for b
    by (simp add: invites_of_def chan_simps)
  have ui: "u_invited (user_at ?st q) = (if q = p then remove1 a (u_invited (user_at st p)) else u_invited (user_at st q))" for q
    by (simp add: chan_simps)
  have "chans_ok ?st \<and> links_ok ?st"
  proof (rule same_but_invites_ok [OF same ok])
    fix b assume "b \<in> set (cs_channel st)"
    then have "distinct (invites_of st b)" "\<forall>q\<in>set (invites_of st b). is_user st q" using ok(2) by (simp_all add: links_ok_def chan_links_ok_iff)
    then show "distinct (invites_of ?st b) \<and> (\<forall>q\<in>set (invites_of ?st b). is_user st q)"
      by (auto simp: inv dest: notin_set_remove1 intro: distinct_remove1)
  next
    fix q assume q: "is_user st q"
    have d: "distinct (invites_of st a)" using ok(2) a by (simp add: links_ok_def chan_links_ok_iff)
    have u: "distinct (u_invited (user_at st q))"
      "\<And>b. b \<in> set (u_invited (user_at st q)) \<longleftrightarrow> b \<in> set (cs_channel st) \<and> q \<in> set (invites_of st b)"
      using ok(2) q by (simp_all add: links_ok_def user_links_ok_def)
    show "distinct (u_invited (user_at ?st q)) \<and>
        (\<forall>b. b \<in> set (u_invited (user_at ?st q)) \<longleftrightarrow> b \<in> set (cs_channel st) \<and> q \<in> set (invites_of ?st b))"
      using u d by (auto simp: ui inv set_remove1_eq)
  qed
  with eq same inv ui that show thesis by blast
qed


lemma new_invite_ok:
  assumes ok: "chans_ok st" "links_ok st" and p: "is_user st p" and a: "a \<in> set (cs_channel st)" and new: "a \<notin> set (u_invited (user_at st p))"
  defines "st1 \<equiv> set_user p (\<lambda>u. u\<lparr>u_invited := u_invited u @ [a]\<rparr>) (upd_chan a (\<lambda>ch. ch\<lparr>ch_invites := p # ch_invites ch\<rparr>) st)"
  shows "chans_ok st1" "links_ok st1" "same_but_invites st st1"
    "u_invited (user_at st1 q) = (if q = p then u_invited (user_at st p) @ [a] else u_invited (user_at st q))"
proof -
  show same: "same_but_invites st st1" using p by (auto simp: st1_def same_but_invites_def chan_simps)
  have inv: "invites_of st1 b = (if b = a then p # invites_of st a else invites_of st b)" for b
    by (simp add: st1_def invites_of_def chan_simps)
  show ui: "u_invited (user_at st1 q) = (if q = p then u_invited (user_at st p) @ [a] else u_invited (user_at st q))" for q
    by (simp add: st1_def chan_simps)
  have u: "distinct (u_invited (user_at st q))"
    "b \<in> set (u_invited (user_at st q)) \<longleftrightarrow> b \<in> set (cs_channel st) \<and> q \<in> set (invites_of st b)" if "is_user st q" for q b
    using ok(2) that by (simp_all add: links_ok_def user_links_ok_def)
  have "chans_ok st1 \<and> links_ok st1"
  proof (rule same_but_invites_ok [OF same ok])
    fix b assume "b \<in> set (cs_channel st)"
    then have "distinct (invites_of st b)" "\<forall>q\<in>set (invites_of st b). is_user st q" using ok(2) by (simp_all add: links_ok_def chan_links_ok_iff)
    then show "distinct (invites_of st1 b) \<and> (\<forall>q\<in>set (invites_of st1 b). is_user st q)" using new u(2) [OF p, of a] a p by (auto simp: inv)
  next
    fix q assume "is_user st q"
    then show "distinct (u_invited (user_at st1 q)) \<and>
        (\<forall>b. b \<in> set (u_invited (user_at st1 q)) \<longleftrightarrow> b \<in> set (cs_channel st) \<and> q \<in> set (invites_of st1 b))"
      using u [of q] new a by (auto simp: ui inv)
  qed
  then show "chans_ok st1" "links_ok st1" by simp_all
qed

text \<open>The list of invitations of a user after a new one: the channel goes to the end, and the oldest
  gives way when the list is full.\<close>

definition invite_push :: "int \<Rightarrow> 'a \<Rightarrow> 'a list \<Rightarrow> 'a list" where
  "invite_push m a l =
     (let l1 = remove1 a l in (if int (length l1) \<ge> m then tl l1 else l1) @ [a])"

lemma add_invite_ok:
  assumes ok: "chans_ok st" "links_ok st" and p: "is_user st p" and a: "a \<in> set (cs_channel st)" and m: "m \<ge> 1"
  obtains st1 where "add_invite m p a st = Some st1" "chans_ok st1" "links_ok st1" "same_but_invites st st1"
    "\<And>q. u_invited (user_at st1 q) = (if q = p then invite_push m a (u_invited (user_at st p)) else u_invited (user_at st q))"
proof -
  obtain s1 where s1: "del_invite p a st = Some s1" "chans_ok s1" "links_ok s1" "same_but_invites st s1"
    "\<And>b. invites_of s1 b = (if b = a then remove1 p (invites_of st a) else invites_of st b)"
    "\<And>q. u_invited (user_at s1 q) = (if q = p then remove1 a (u_invited (user_at st p)) else u_invited (user_at st q))"
    using del_invite_ok [OF ok p a] by metis
  let ?l = "remove1 a (u_invited (user_at st p))"
  have p1: "is_user s1 p" "a \<in> set (cs_channel s1)" using p a s1(4) by (simp_all add: same_but_invites_def)
  have u: "distinct (u_invited (user_at st p))" using ok(2) p by (simp add: links_ok_def user_links_ok_def)
  have c1: "c_user (cs_clients s1 p) = Some (user_at s1 p)" using p1(1) by (auto simp: is_user_def user_at_def)
  obtain s2 where s2: "(if int (length (u_invited (user_at s1 p))) \<ge> m
        then (case u_invited (user_at s1 p) of [] \<Rightarrow> None | old # _ \<Rightarrow> del_invite p old s1) else Some s1) = Some s2"
    "chans_ok s2" "links_ok s2" "same_but_invites s1 s2"
    "\<And>q. u_invited (user_at s2 q) = (if q = p then (if int (length ?l) \<ge> m then tl ?l else ?l) else u_invited (user_at s1 q))"
  proof (cases "int (length ?l) \<ge> m")
    case True
    then obtain old rest where l: "?l = old # rest" using m by (cases ?l) auto
    then have "old \<in> set (u_invited (user_at s1 p))" using s1(6) [of p] by simp
    then have "old \<in> set (cs_channel s1)" using s1(3) p1(1) by (simp add: links_ok_def user_links_ok_def)
    then obtain s2 where s2: "del_invite p old s1 = Some s2" "chans_ok s2" "links_ok s2" "same_but_invites s1 s2"
      "\<And>b. invites_of s2 b = (if b = old then remove1 p (invites_of s1 old) else invites_of s1 b)"
      "\<And>q. u_invited (user_at s2 q) = (if q = p then remove1 old (u_invited (user_at s1 p)) else u_invited (user_at s1 q))"
      using del_invite_ok [OF s1(2,3) p1(1), of old] by metis
    with True l s1(6) [of p] show thesis by (intro that [of s2]) simp_all
  next
    case False
    with s1 show thesis by (intro that [of s1]) (auto simp: same_but_invites_def)
  qed
  have p2: "is_user s2 p" "a \<in> set (cs_channel s2)" using p1 s2(4) by (simp_all add: same_but_invites_def)
  have "a \<notin> set ?l" using u by (simp add: set_remove1_eq)
  then have n: "a \<notin> set (u_invited (user_at s2 p))" by (cases ?l) (auto simp: s2(5))
  let ?st = "set_user p (\<lambda>u. u\<lparr>u_invited := u_invited u @ [a]\<rparr>) (upd_chan a (\<lambda>ch. ch\<lparr>ch_invites := p # ch_invites ch\<rparr>) s2)"
  have "add_invite m p a st = Some ?st"
    using s1(1) s2(1) c1 p2(1) by (simp add: add_invite_def upd_user_eq chan_simps)
  moreover have "u_invited (user_at ?st q) = (if q = p then invite_push m a (u_invited (user_at st p)) else u_invited (user_at st q))" for q
    using new_invite_ok(4) [OF s2(2,3) p2 n, of q] s2(5) [of p] s2(5) [of q] s1(6) [of q] by (simp add: invite_push_def Let_def)
  ultimately show thesis using new_invite_ok(1-3) [OF s2(2,3) p2 n] s1(4) s2(4) that by (meson same_but_invites_trans)
qed

lemma del_invites_ok:
  assumes "chans_ok st" "links_ok st" "a \<in> set (cs_channel st)" "invites_of st a = ps"
  obtains st1 where "del_invites ps a st = Some st1" "chans_ok st1" "links_ok st1" "same_but_invites st st1" "invites_of st1 a = []"
    "\<And>q. is_user st q \<Longrightarrow> u_invited (user_at st1 q) = remove1 a (u_invited (user_at st q))"
  using assms
proof (induction ps arbitrary: st thesis)
  case Nil
  have "u_invited (user_at st q) = remove1 a (u_invited (user_at st q))" if "is_user st q" for q
    using Nil.prems(3,5) that by (simp add: links_ok_def user_links_ok_def remove1_idem)
  with Nil show ?case by (simp add: same_but_invites_def)
next
  case (Cons p ps)
  have l: "chan_links_ok st a" using Cons.prems(3,4) by (simp add: links_ok_def)
  then have p: "is_user st p" and np: "p \<notin> set ps" using Cons.prems(5) by (auto simp: chan_links_ok_iff)
  obtain s1 where s1: "del_invite p a st = Some s1" "chans_ok s1" "links_ok s1"
    "same_but_invites st s1" "\<And>b. invites_of s1 b = (if b = a then remove1 p (invites_of st a) else invites_of st b)"
    "\<And>q. u_invited (user_at s1 q) = (if q = p then remove1 a (u_invited (user_at st p)) else u_invited (user_at st q))"
    using del_invite_ok [OF Cons.prems(2,3) p Cons.prems(4)] by metis
  have "a \<in> set (cs_channel s1)" "invites_of s1 a = ps" using s1(4,5) Cons.prems(4,5) by (simp_all add: same_but_invites_def)
  then obtain s2 where s2: "del_invites ps a s1 = Some s2" "chans_ok s2" "links_ok s2" "same_but_invites s1 s2"
    "invites_of s2 a = []" "\<And>q. is_user s1 q \<Longrightarrow> u_invited (user_at s2 q) = remove1 a (u_invited (user_at s1 q))"
    using Cons.IH [OF _ s1(2,3)] by metis
  have "u_invited (user_at s2 q) = remove1 a (u_invited (user_at st q))" if q: "is_user st q" for q
  proof -
    have "distinct (u_invited (user_at st q))" using Cons.prems(3) q by (simp add: links_ok_def user_links_ok_def)
    then show ?thesis using s2(6) [of q] s1(6) [of q] s1(4) q by (auto simp: same_but_invites_def remove1_idem set_remove1_eq)
  qed
  moreover have "del_invites (p # ps) a st = Some s2" using s1(1) s2(1) by simp
  ultimately show ?case using Cons.prems(1) s2 same_but_invites_trans [OF s1(4) s2(4)] by blast
qed

subsection \<open>Channels are found, made and removed\<close>

lemma find_channel_iff:
  assumes "chans_ok st"
  shows "find_channel st n = Some a \<longleftrightarrow> a \<in> set (cs_channel st) \<and> mycmp n (ch_chname (cs_channels st a)) = 0"
  using chanh.lookup_exact [of "\<lambda>a. ch_chname (cs_channels st a)" "\<lambda>h. chain (cs_table st h)"] assms
  by (simp add: find_channel_def channel_table_simps chans_ok_def chanh.table_ok_def)

lemma find_channel_None:
  assumes "chans_ok st"
  shows "find_channel st n = None \<longleftrightarrow> (\<forall>a\<in>set (cs_channel st). mycmp n (ch_chname (cs_channels st a)) \<noteq> 0)"
  using find_channel_iff [OF assms, of n] by (cases "find_channel st n") auto

definition new_channel :: "time_t \<Rightarrow> cstr \<Rightarrow> chan_state \<Rightarrow> chan_state" where
  "new_channel NOW n st =
     st\<lparr>cs_channels := (cs_channels st)(cs_next st := make_channel\<lparr>ch_chname := n, ch_channelts := NOW\<rparr>),
        cs_channel := cs_next st # cs_channel st, cs_table := add_to_channel_hash_table n (cs_next st) (cs_table st),
        cs_count := cs_count st + 1, cs_next := cs_next st + 1\<rparr>"

lemma new_channel_ok:
  assumes ok: "chans_ok st" "links_ok st" and new: "find_channel st n = None"
  shows "chans_ok (new_channel NOW n st)" "links_ok (new_channel NOW n st)"
    "is_user (new_channel NOW n st) = is_user st" "user_at (new_channel NOW n st) = user_at st"
    "cs_channel (new_channel NOW n st) = cs_next st # cs_channel st"
    "members_of (new_channel NOW n st) (cs_next st) = []" "ch_chname (cs_channels (new_channel NOW n st) (cs_next st)) = n"
    "\<And>a. a \<in> set (cs_channel st) \<Longrightarrow> cs_channels (new_channel NOW n st) a = cs_channels st a"
proof -
  let ?a = "cs_next st" and ?st = "new_channel NOW n st"
  have fresh: "?a \<notin> set (cs_channel st)" using ok(1) by (auto simp: chans_ok_def)
  show u: "is_user ?st = is_user st" "user_at ?st = user_at st" "cs_channel ?st = ?a # cs_channel st"
    "members_of ?st ?a = []" "ch_chname (cs_channels ?st ?a) = n"
    by (simp_all add: new_channel_def is_user_def user_at_def fun_eq_iff members_of_def make_channel_def)
  show old: "cs_channels ?st a = cs_channels st a" if "a \<in> set (cs_channel st)" for a using that fresh by (auto simp: new_channel_def)
  let ?key = "\<lambda>a. ch_chname (cs_channels ?st a)"
  have key: "chanh.table_ok ?key (cs_table st) = chanh.table_ok (\<lambda>a. ch_chname (cs_channels st a)) (cs_table st)"
    by (rule chanh.table_ok_key_cong) (use ok(1) old in \<open>auto simp: chans_ok_def\<close>)
  then have t0: "chanh.table_ok ?key (cs_table st)" using ok(1) by (simp add: chans_ok_def channel_table_ok_iff)
  have "chanh.lookup ?key (\<lambda>h. chain (cs_table st h)) (?key ?a) = chanh.lookup (\<lambda>a. ch_chname (cs_channels st a)) (\<lambda>h. chain (cs_table st h)) n"
    unfolding u(5) by (rule chanh.lookup_key_cong) (use ok(1) old in \<open>auto simp: chans_ok_def\<close>)
  also have "\<dots> = None" using new by (simp add: find_channel_def hash_find_channel_lookup)
  finally have "chanh.table_ok ?key (push_entry (hash_channel_name (?key ?a)) ?a (cs_table st))" by (intro chanh.table_ok_push t0)
  moreover have "cs_table ?st = push_entry (hash_channel_name (?key ?a)) ?a (cs_table st)"
    by (simp add: new_channel_def add_to_channel_hash_table_def)
  moreover have "entries (\<lambda>h. chain (push_entry (hash_channel_name (?key ?a)) ?a (cs_table st) h)) = insert ?a (set (cs_channel st))"
    using entries_push [of "\<lambda>h. chain (cs_table st h)" "hash_channel_name (?key ?a)" ?a] ok(1)
    by (simp add: chanh.chain_push chans_ok_def)
  moreover have "cs_count ?st = cs_count st + 1" "cs_next ?st = cs_next st + 1" by (simp_all add: new_channel_def)
  ultimately show "chans_ok ?st" using ok(1) fresh by (auto simp: chans_ok_def channel_table_ok_iff u(3))
  have m: "members_of ?st a = (if a = ?a then [] else members_of st a)" "invites_of ?st a = (if a = ?a then [] else invites_of st a)" for a
    by (simp_all add: members_of_def invites_of_def new_channel_def make_channel_def)
  have "chan_links_ok ?st a" if "a \<in> set (cs_channel ?st)" for a
  proof (cases "a = ?a")
    case True
    then show ?thesis by (simp add: chan_links_ok_iff m) (simp add: new_channel_def make_channel_def)
  next
    case False
    then show ?thesis using that ok(2) old [of a] by (simp add: links_ok_def chan_links_ok_iff u m)
  qed
  moreover have "user_links_ok ?st p (user_at ?st p)" if "is_user ?st p" for p
    using that ok(2) fresh by (auto simp: links_ok_def user_links_ok_def u m)
  ultimately show "links_ok ?st" by (simp add: links_ok_def)
qed

subsection \<open>Members enter and leave\<close>

lemma add_user_ok:
  fixes f :: u32
  assumes ok: "chans_ok st" "links_ok st" and p: "is_user st p" and a: "a \<in> set (cs_channel st)" and new: "p \<notin> set (members_of st a)"
  defines "st1 \<equiv> add_user_to_channel a p f st"
  shows "chans_ok st1" "links_ok st1" "is_user st1 = is_user st" "cs_channel st1 = cs_channel st"
    "members_of st1 b = (if b = a then p # members_of st a else members_of st b)"
    "ch_chname (cs_channels st1 b) = ch_chname (cs_channels st b)" "u_invited (user_at st1 q) = u_invited (user_at st q)"
proof -
  have st1: "st1 = upd_chan a (\<lambda>ch. ch\<lparr>ch_members := \<lparr>cm_cptr = p, cm_flags = f, cm_banserial = ch_banserial ch\<rparr> # ch_members ch,
      ch_users := ch_users ch + 1\<rparr>) (set_user p (\<lambda>u. u\<lparr>u_channel := a # u_channel u, u_joined := u_joined u + 1\<rparr>) st)"
    using p by (simp add: st1_def add_user_to_channel_def upd_user_eq)
  show u: "is_user st1 = is_user st" and l: "cs_channel st1 = cs_channel st"
    using p by (auto simp: st1 chan_simps fun_eq_iff)
  show m: "members_of st1 b = (if b = a then p # members_of st a else members_of st b)" for b
    by (simp add: st1 members_of_def chan_simps)
  have i: "invites_of st1 b = invites_of st b" for b by (simp add: st1 invites_of_def chan_simps)
  show n: "ch_chname (cs_channels st1 b) = ch_chname (cs_channels st b)" for b by (simp add: st1 chan_simps)
  show ui: "u_invited (user_at st1 q) = u_invited (user_at st q)" for q by (simp add: st1 chan_simps)
  have uc: "u_channel (user_at st1 q) = (if q = p then a # u_channel (user_at st p) else u_channel (user_at st q))"
    "u_joined (user_at st1 q) = (if q = p then u_joined (user_at st p) + 1 else u_joined (user_at st q))" for q
    by (simp_all add: st1 chan_simps)
  have us: "ch_users (cs_channels st1 b) = (if b = a then ch_users (cs_channels st a) + 1 else ch_users (cs_channels st b))" for b
    by (simp add: st1 chan_simps)
  show "chans_ok st1" by (rule chans_ok_cong [OF ok(1)]) (simp_all add: st1 chan_simps)
  have "chan_links_ok st1 b" if "b \<in> set (cs_channel st)" for b
    using that ok(2) new p by (auto simp: links_ok_def chan_links_ok_iff m i us u)
  moreover have "user_links_ok st1 q (user_at st1 q)" if q: "is_user st q" for q
  proof -
    have o: "distinct (u_channel (user_at st q))" "u_joined (user_at st q) = int (length (u_channel (user_at st q)))"
      "distinct (u_invited (user_at st q))"
      "\<And>b. b \<in> set (u_channel (user_at st q)) \<longleftrightarrow> b \<in> set (cs_channel st) \<and> q \<in> set (members_of st b)"
      "\<And>b. b \<in> set (u_invited (user_at st q)) \<longleftrightarrow> b \<in> set (cs_channel st) \<and> q \<in> set (invites_of st b)"
      using ok(2) q by (simp_all add: links_ok_def user_links_ok_def)
    show ?thesis using o a new by (auto simp: user_links_ok_def uc ui m i l)
  qed
  ultimately show "links_ok st1" by (simp add: links_ok_def l u)
qed

lemma del_member_cptrs: "map cm_cptr (del_member p ms) = remove1 p (map cm_cptr ms)"
  by (induction ms) auto

lemma unlink_member_ok:
  assumes ok: "chans_ok st" "links_ok st" and p: "is_user st p" and a: "a \<in> set (cs_channel st)" and mem: "p \<in> set (members_of st a)"
  defines "st1 \<equiv> upd_chan a (\<lambda>ch. ch\<lparr>ch_users := ch_users ch - 1\<rparr>)
     (set_user p (\<lambda>u. u\<lparr>u_channel := remove1 a (u_channel u), u_joined := u_joined u - 1\<rparr>)
       (upd_chan a (\<lambda>ch. ch\<lparr>ch_members := del_member p (ch_members ch)\<rparr>) st))"
  shows "chans_ok st1" "links_ok st1" "is_user st1 = is_user st" "cs_channel st1 = cs_channel st"
    "members_of st1 b = (if b = a then remove1 p (members_of st a) else members_of st b)"
    "ch_chname (cs_channels st1 b) = ch_chname (cs_channels st b)" "u_invited (user_at st1 q) = u_invited (user_at st q)"
proof -
  show u: "is_user st1 = is_user st" and l: "cs_channel st1 = cs_channel st"
    using p by (auto simp: st1_def chan_simps fun_eq_iff)
  show m: "members_of st1 b = (if b = a then remove1 p (members_of st a) else members_of st b)" for b
    by (simp add: st1_def members_of_def chan_simps del_member_cptrs)
  have i: "invites_of st1 b = invites_of st b" for b by (simp add: st1_def invites_of_def chan_simps)
  show n: "ch_chname (cs_channels st1 b) = ch_chname (cs_channels st b)" for b by (simp add: st1_def chan_simps)
  show ui: "u_invited (user_at st1 q) = u_invited (user_at st q)" for q by (simp add: st1_def chan_simps)
  have uc: "u_channel (user_at st1 q) = (if q = p then remove1 a (u_channel (user_at st p)) else u_channel (user_at st q))"
    "u_joined (user_at st1 q) = (if q = p then u_joined (user_at st p) - 1 else u_joined (user_at st q))" for q
    by (simp_all add: st1_def chan_simps)
  have us: "ch_users (cs_channels st1 b) = (if b = a then ch_users (cs_channels st a) - 1 else ch_users (cs_channels st b))" for b
    by (simp add: st1_def chan_simps)
  show "chans_ok st1" by (rule chans_ok_cong [OF ok(1)]) (simp_all add: st1_def chan_simps)
  have da: "distinct (members_of st a)" using ok(2) a by (simp add: links_ok_def chan_links_ok_iff)
  have "chan_links_ok st1 b" if "b \<in> set (cs_channel st)" for b
    using that ok(2) mem length_remove1_mem [OF mem]
    by (auto simp: links_ok_def chan_links_ok_iff m i us u dest: notin_set_remove1 intro: distinct_remove1)
  moreover have "user_links_ok st1 q (user_at st1 q)" if q: "is_user st q" for q
  proof -
    have o: "distinct (u_channel (user_at st q))" "u_joined (user_at st q) = int (length (u_channel (user_at st q)))"
      "distinct (u_invited (user_at st q))"
      "\<And>b. b \<in> set (u_channel (user_at st q)) \<longleftrightarrow> b \<in> set (cs_channel st) \<and> q \<in> set (members_of st b)"
      "\<And>b. b \<in> set (u_invited (user_at st q)) \<longleftrightarrow> b \<in> set (cs_channel st) \<and> q \<in> set (invites_of st b)"
      using ok(2) q by (simp_all add: links_ok_def user_links_ok_def)
    have "a \<in> set (u_channel (user_at st p))" if "q = p" using o(4) [of a] a mem that by simp
    then have "u_joined (user_at st1 q) = int (length (u_channel (user_at st1 q)))" using o(2) length_remove1_mem by (fastforce simp: uc)
    then show ?thesis using o da by (auto simp: user_links_ok_def uc(1) ui m i l set_remove1_eq)
  qed
  ultimately show "links_ok st1" by (simp add: links_ok_def l u)
qed

text \<open>An empty channel without invitations goes.\<close>

lemma drop_channel_ok:
  assumes ok: "chans_ok st" "links_ok st" and a: "a \<in> set (cs_channel st)" and empty: "members_of st a = []" "invites_of st a = []"
  defines "st1 \<equiv> st\<lparr>cs_channel := remove1 a (cs_channel st),
     cs_table := snd (del_from_channel_hash_table (ch_chname (cs_channels st a)) a (cs_table st)), cs_count := cs_count st - 1\<rparr>"
  shows "chans_ok st1" "links_ok st1" "is_user st1 = is_user st" "user_at st1 = user_at st" "set (cs_channel st1) = set (cs_channel st) - {a}"
    "members_of st1 = members_of st"
proof -
  have d: "distinct (cs_channel st)" using ok(1) by (simp add: chans_ok_def)
  show u: "is_user st1 = is_user st" "user_at st1 = user_at st" "members_of st1 = members_of st"
    by (simp_all add: st1_def is_user_def user_at_def members_of_def fun_eq_iff)
  show l: "set (cs_channel st1) = set (cs_channel st) - {a}" using d by (simp add: st1_def set_remove1_eq)
  have i: "invites_of st1 = invites_of st" "cs_channels st1 = cs_channels st" by (simp_all add: st1_def invites_of_def fun_eq_iff)
  let ?key = "\<lambda>a. ch_chname (cs_channels st a)" and ?tab = "\<lambda>h. chain (cs_table st h)"
  have t: "chanh.table_ok ?key (cs_table st)" and en: "entries ?tab = set (cs_channel st)"
    using ok(1) by (simp_all add: chans_ok_def channel_table_ok_iff)
  have "chanh.table_ok ?key (cs_table st1)"
    using chanh.table_ok_unlink [OF t, of "hash_channel_name (?key a)" a] by (simp add: st1_def del_from_channel_hash_table_def)
  moreover have "entries (\<lambda>h. chain (cs_table st1 h)) = set (cs_channel st) - {a}"
    using chanh.entries_remove1 [of ?key ?tab a] t en
    by (simp add: st1_def del_from_channel_hash_table_def chanh.chain_unlink chanh.table_ok_def)
  moreover have "int (length (cs_channel st1)) = cs_count st1"
    using ok(1) length_remove1_mem [OF a] by (simp add: st1_def chans_ok_def)
  ultimately show "chans_ok st1" using ok(1) d l
    by (auto simp: chans_ok_def channel_table_ok_iff i(2)) (auto simp: st1_def)
  have "chan_links_ok st1 b" if "b \<in> set (cs_channel st1)" for b
    using that ok(2) l by (auto simp: links_ok_def chan_links_ok_iff u i)
  moreover have "user_links_ok st1 q (user_at st1 q)" if "is_user st1 q" for q
    using that ok(2) empty l by (auto simp: links_ok_def user_links_ok_def u i)
  ultimately show "links_ok st1" by (simp add: links_ok_def)
qed

lemma remove_user_ok:
  assumes ok: "chans_ok st" "links_ok st" and p: "is_user st p" and a: "a \<in> set (cs_channel st)" and mem: "p \<in> set (members_of st a)"
  obtains st1 where "remove_user_from_channel p a st = Some st1" "chans_ok st1" "links_ok st1" "is_user st1 = is_user st"
    "set (cs_channel st1) = (if members_of st a = [p] then set (cs_channel st) - {a} else set (cs_channel st))"
    "\<And>b. members_of st1 b = (if b = a then remove1 p (members_of st a) else members_of st b)"
    "\<And>b. ch_chname (cs_channels st1 b) = ch_chname (cs_channels st b)"
    "\<And>q. is_user st q \<Longrightarrow> u_invited (user_at st1 q) = (if members_of st a = [p] then remove1 a (u_invited (user_at st q)) else u_invited (user_at st q))"
proof -
  define s0 where "s0 = set_user p (\<lambda>u. u\<lparr>u_channel := remove1 a (u_channel u), u_joined := u_joined u - 1\<rparr>)
       (upd_chan a (\<lambda>ch. ch\<lparr>ch_members := del_member p (ch_members ch)\<rparr>) st)"
  define s1 where "s1 = upd_chan a (\<lambda>ch. ch\<lparr>ch_users := ch_users ch - 1\<rparr>) s0"
  note U = unlink_member_ok [OF ok p a mem, folded s0_def, folded s1_def]
  have eq: "remove_user_from_channel p a st = sub1_from_channel a s0"
    using p by (simp add: s0_def remove_user_from_channel_def upd_user_eq chan_simps)
  have a1: "a \<in> set (cs_channel s1)" using a U(4) by simp
  have us: "ch_users (cs_channels s1 a) = int (length (remove1 p (members_of st a)))"
    using U(2,5) a1 by (simp add: links_ok_def chan_links_ok_iff)
  have last: "remove1 p (members_of st a) = [] \<longleftrightarrow> members_of st a = [p]" using mem by (cases "members_of st a") auto
  show thesis
  proof (cases "members_of st a = [p]")
    case False
    then have "0 < length (remove1 p (members_of st a))" using last by simp
    then have "sub1_from_channel a s0 = Some s1"
      using us by (simp add: sub1_from_channel_def Let_def s1_def)
    with eq U False that show thesis by simp
  next
    case True
    obtain s2 where s2: "del_invites (invites_of s1 a) a s1 = Some s2" "chans_ok s2" "links_ok s2" "same_but_invites s1 s2"
      "invites_of s2 a = []" "\<And>q. is_user s1 q \<Longrightarrow> u_invited (user_at s2 q) = remove1 a (u_invited (user_at s1 q))"
      using del_invites_ok [OF U(1,2) a1 refl] by metis
    let ?st2 = "s2\<lparr>cs_channel := remove1 a (cs_channel s2),
       cs_table := snd (del_from_channel_hash_table (ch_chname (cs_channels s2 a)) a (cs_table s2)), cs_count := cs_count s2 - 1\<rparr>"
    have m2: "members_of s2 = members_of s1" "cs_channel s2 = cs_channel s1" "is_user s2 = is_user s1"
      "\<And>b. ch_chname (cs_channels s2 b) = ch_chname (cs_channels s1 b)"
      using s2(4) by (simp_all add: same_but_invites_def members_of_def fun_eq_iff)
    have a2: "a \<in> set (cs_channel s2)" "members_of s2 a = []" using a1 U(5) True by (simp_all add: m2)
    note D = drop_channel_ok [OF s2(2,3) a2 s2(5)]
    have "remove_user_from_channel p a st = Some ?st2"
      using eq us True s2(1) by (simp add: sub1_from_channel_def Let_def invites_of_def flip: s1_def)
    then show thesis
    proof (rule that [OF _ D(1,2)])
      show "is_user ?st2 = is_user st" using D(3) m2(3) U(3) by simp
      show "set (cs_channel ?st2) = (if members_of st a = [p] then set (cs_channel st) - {a} else set (cs_channel st))"
        using D(5) True by (simp add: m2 U(4))
      show "members_of ?st2 b = (if b = a then remove1 p (members_of st a) else members_of st b)" for b
        using D(6) U(5) [of b] by (simp add: m2)
      show "ch_chname (cs_channels ?st2 b) = ch_chname (cs_channels st b)" for b using m2(4) U(6) by simp
      show "u_invited (user_at ?st2 q) = (if members_of st a = [p] then remove1 a (u_invited (user_at st q)) else u_invited (user_at st q))"
        if "is_user st q" for q using s2(6) [of q] U(3,7) that True by (simp add: D(4))
    qed
  qed
qed

subsection \<open>Refinement of a membership relation and invitation lists over names\<close>

text \<open>
  The specification knows channels by their names up to case only: who is in which channel, and the
  list of invitations each client has.
\<close>

definition name_key :: "cstr \<Rightarrow> nat list" where
  "name_key n = map ToUpper n"

type_synonym chan_spec = "(addr \<times> nat list) set \<times> (addr \<Rightarrow> nat list list)"

datatype chan_op = Join addr cstr u32 | Part addr cstr | Invite addr cstr | Uninvite addr cstr

text \<open>The calls as the commands make them, with their tests for membership and for the channel.\<close>

definition chan_step :: "int \<Rightarrow> time_t \<Rightarrow> chan_op \<Rightarrow> chan_state \<Rightarrow> (bool \<times> chan_state) option" where
  "chan_step maxchannelsperuser NOW x st =
     (case x of
        Join p n f \<Rightarrow>
          (case get_channel NOW p n True st of
             None \<Rightarrow> None
           | Some (None, _, st1) \<Rightarrow> Some (False, st1)
           | Some (Some a, _, st1) \<Rightarrow> Some (if IsMember st1 p a then (False, st1) else (True, add_user_to_channel a p f st1)))
      | Part p n \<Rightarrow>
          (case find_channel st n of
             None \<Rightarrow> Some (False, st)
           | Some a \<Rightarrow> if IsMember st p a then map_option (Pair True) (remove_user_from_channel p a st) else Some (False, st))
      | Invite p n \<Rightarrow>
          (case find_channel st n of
             None \<Rightarrow> Some (False, st)
           | Some a \<Rightarrow> map_option (Pair True) (add_invite maxchannelsperuser p a st))
      | Uninvite p n \<Rightarrow>
          (case find_channel st n of
             None \<Rightarrow> Some (False, st)
           | Some a \<Rightarrow> map_option (Pair True) (del_invite p a st)))"

fun chan_spec_step :: "int \<Rightarrow> chan_op \<Rightarrow> chan_spec \<Rightarrow> bool \<times> chan_spec" where
  "chan_spec_step m (Join p n f) (M, I) = ((p, name_key n) \<notin> M, insert (p, name_key n) M, I)"
| "chan_spec_step m (Part p n) (M, I) =
     (if (p, name_key n) \<in> M
      then (True, M - {(p, name_key n)}, if \<exists>q. q \<noteq> p \<and> (q, name_key n) \<in> M then I else (\<lambda>q. remove1 (name_key n) (I q)))
      else (False, M, I))"
| "chan_spec_step m (Invite p n) (M, I) =
     (if \<exists>q. (q, name_key n) \<in> M then (True, M, I(p := invite_push m (name_key n) (I p))) else (False, M, I))"
| "chan_spec_step m (Uninvite p n) (M, I) =
     (if \<exists>q. (q, name_key n) \<in> M then (True, M, I(p := remove1 (name_key n) (I p))) else (False, M, I))"

definition key_of :: "chan_state \<Rightarrow> addr \<Rightarrow> nat list" where
  "key_of st a = name_key (ch_chname (cs_channels st a))"

definition chan_abs :: "chan_state \<Rightarrow> chan_spec" where
  "chan_abs st =
     ({(p, key_of st a) | p a. a \<in> set (cs_channel st) \<and> p \<in> set (members_of st a)},
      \<lambda>p. if is_user st p then map (key_of st) (u_invited (user_at st p)) else [])"

definition chan_inv :: "addr set \<Rightarrow> chan_state \<Rightarrow> bool" where
  "chan_inv U st \<longleftrightarrow>
     chans_ok st \<and> links_ok st \<and> (\<forall>p. is_user st p \<longleftrightarrow> p \<in> U) \<and> (\<forall>a\<in>set (cs_channel st). members_of st a \<noteq> [])"

definition chan_allowed :: "addr set \<Rightarrow> chan_op \<Rightarrow> bool" where
  "chan_allowed U x \<longleftrightarrow>
     (case x of
        Join p n f \<Rightarrow> p \<in> U \<and> n \<noteq> [] \<and> length n \<le> CHANNELLEN
      | Part p n \<Rightarrow> p \<in> U | Invite p n \<Rightarrow> p \<in> U | Uninvite p n \<Rightarrow> p \<in> U)"

lemma key_of_inj: "chans_ok st \<Longrightarrow> a \<in> set (cs_channel st) \<Longrightarrow> b \<in> set (cs_channel st) \<Longrightarrow> key_of st a = key_of st b \<Longrightarrow> a = b"
  unfolding chans_ok_def channel_table_ok_def by (metis key_of_def name_key_def mycmp_zero_iff)

lemma find_channel_key: "chans_ok st \<Longrightarrow> find_channel st n = Some a \<longleftrightarrow> a \<in> set (cs_channel st) \<and> key_of st a = name_key n"
  by (auto simp: find_channel_iff key_of_def name_key_def mycmp_zero_iff)

lemma map_remove1_inj:
  assumes "inj_on f (insert a (set l))"
  shows "map f (remove1 a l) = remove1 (f a) (map f l)"
  using assms by (induction l) (auto simp: inj_on_def)

lemma map_invite_push:
  assumes "inj_on f (insert a (set l))"
  shows "map f (invite_push m a l) = invite_push m (f a) (map f l)"
  by (simp add: invite_push_def Let_def map_remove1_inj [OF assms, symmetric] map_tl)

lemma IsMember_iff: "links_ok st \<Longrightarrow> is_user st p \<Longrightarrow> IsMember st p a \<longleftrightarrow> a \<in> set (cs_channel st) \<and> p \<in> set (members_of st a)"
  by (auto simp: IsMember_def is_user_def links_ok_def user_links_ok_def user_at_def split: option.split)

lemma abs_member: "(p, k) \<in> fst (chan_abs st) \<longleftrightarrow> (\<exists>a\<in>set (cs_channel st). p \<in> set (members_of st a) \<and> key_of st a = k)"
  by (auto simp: chan_abs_def)

lemma abs_eqI:
  assumes "\<And>p k. (p, k) \<in> fst (chan_abs st) \<longleftrightarrow> (p, k) \<in> M" and "\<And>p. snd (chan_abs st) p = I p"
  shows "chan_abs st = (M, I)"
  using assms by (auto simp: prod_eq_iff fun_eq_iff)

lemma member_key_iff:
  assumes "chans_ok st" and "a \<in> set (cs_channel st)" and "key_of st a = k"
  shows "(p, k) \<in> fst (chan_abs st) \<longleftrightarrow> p \<in> set (members_of st a)"
  using assms key_of_inj [OF assms(1)] by (auto simp: abs_member)

lemma no_channel_no_member: "chans_ok st \<Longrightarrow> find_channel st n = None \<Longrightarrow> (p, name_key n) \<notin> fst (chan_abs st)"
  using find_channel_key [of st n] by (fastforce simp: abs_member)

lemma invited_live: "links_ok st \<Longrightarrow> is_user st p \<Longrightarrow> set (u_invited (user_at st p)) \<subseteq> set (cs_channel st)"
  by (auto simp: links_ok_def user_links_ok_def)

lemma key_inj_on: "chans_ok st \<Longrightarrow> A \<subseteq> set (cs_channel st) \<Longrightarrow> inj_on (key_of st) A"
  using key_of_inj by (fastforce simp: inj_on_def)

lemma invited_map_remove:
  assumes "chans_ok st" "links_ok st" "is_user st p" "a \<in> set (cs_channel st)"
  shows "map (key_of st) (remove1 a (u_invited (user_at st p))) = remove1 (key_of st a) (map (key_of st) (u_invited (user_at st p)))"
  using assms by (intro map_remove1_inj key_inj_on) (auto dest: invited_live)

lemma join_refines:
  assumes inv: "chan_inv U st" and al: "chan_allowed U (Join p n f)"
  shows "\<exists>st'. chan_step m NOW (Join p n f) st = Some (fst (chan_spec_step m (Join p n f) (chan_abs st)), st') \<and> chan_inv U st' \<and>
    chan_abs st' = snd (chan_spec_step m (Join p n f) (chan_abs st))"
proof -
  note ok = inv [unfolded chan_inv_def, THEN conjunct1] inv [unfolded chan_inv_def, THEN conjunct2, THEN conjunct1]
  have p: "is_user st p" and n: "n \<noteq> []" "length n \<le> CHANNELLEN" using inv al by (auto simp: chan_inv_def chan_allowed_def)
  obtain M I where MI: "chan_abs st = (M, I)" by (cases "chan_abs st")
  show ?thesis
  proof (cases "find_channel st n")
    case (Some a)
    then have a: "a \<in> set (cs_channel st)" "key_of st a = name_key n" using find_channel_key [OF ok(1)] by auto
    have g: "get_channel NOW p n True st = Some (Some a, False, st)" using n Some by (simp add: get_channel_def Let_def)
    have mem: "(p, name_key n) \<in> M \<longleftrightarrow> p \<in> set (members_of st a)" using member_key_iff [OF ok(1) a, of p] MI by simp
    show ?thesis
    proof (cases "p \<in> set (members_of st a)")
      case True
      then show ?thesis using g mem inv MI IsMember_iff [OF ok(2) p] a by (auto simp: chan_step_def insert_absorb)
    next
      case False
      let ?st = "add_user_to_channel a p f st"
      note A = add_user_ok [OF ok p a(1) False, of f]
      have k: "key_of ?st = key_of st" by (simp add: key_of_def A(6) fun_eq_iff)
      have "chan_abs ?st = (insert (p, name_key n) M, I)"
      proof (rule abs_eqI)
        fix q k
        have "(q, k) \<in> M \<longleftrightarrow> (q, k) \<in> fst (chan_abs st)" by (simp add: MI)
        then show "(q, k) \<in> fst (chan_abs ?st) \<longleftrightarrow> (q, k) \<in> insert (p, name_key n) M"
          using a by (auto simp: abs_member A(4,5) k)
        have "I q = snd (chan_abs st) q" by (simp add: MI)
        then show "snd (chan_abs ?st) q = I q" by (simp add: chan_abs_def A(3,7) k)
      qed
      moreover have "chan_inv U ?st" using inv A by (auto simp: chan_inv_def)
      ultimately show ?thesis using g False mem MI IsMember_iff [OF ok(2) p] by (auto simp: chan_step_def)
    qed
  next
    case None
    let ?a = "cs_next st" and ?s1 = "new_channel NOW n st"
    note C = new_channel_ok [OF ok None, where NOW = NOW]
    have g: "get_channel NOW p n True st = Some (Some ?a, True, ?s1)" using n None by (simp add: get_channel_def Let_def new_channel_def)
    have a: "?a \<in> set (cs_channel ?s1)" "p \<notin> set (members_of ?s1 ?a)" "is_user ?s1 p" using C p by simp_all
    let ?st = "add_user_to_channel ?a p f ?s1"
    note A = add_user_ok [OF C(1,2) a(3,1,2), of f]
    have fresh: "?a \<notin> set (cs_channel st)" using ok(1) by (auto simp: chans_ok_def)
    have k: "key_of ?st b = (if b = ?a then name_key n else key_of st b)" if "b = ?a \<or> b \<in> set (cs_channel st)" for b
      using that C(7,8) fresh A(6) by (auto simp: key_of_def)
    have mo: "members_of ?st b = (if b = ?a then [p] else members_of st b)" if "b = ?a \<or> b \<in> set (cs_channel st)" for b
      using that C(6,8) fresh A(5) [of b] by (auto simp: members_of_def)
    have "chan_abs ?st = (insert (p, name_key n) M, I)"
    proof (rule abs_eqI)
      fix q k
      have "(q, k) \<in> M \<longleftrightarrow> (q, k) \<in> fst (chan_abs st)" by (simp add: MI)
      then show "(q, k) \<in> fst (chan_abs ?st) \<longleftrightarrow> (q, k) \<in> insert (p, name_key n) M"
        using fresh by (auto simp: abs_member A(4) C(5) k mo split: if_splits)
      have "map (key_of ?st) (u_invited (user_at st q)) = map (key_of st) (u_invited (user_at st q))" if "is_user st q"
        using invited_live [OF ok(2) that] fresh by (auto simp: k)
      moreover have "I q = snd (chan_abs st) q" by (simp add: MI)
      ultimately show "snd (chan_abs ?st) q = I q" by (simp add: chan_abs_def A(3,7) C(3,4))
    qed
    moreover from this have "chan_inv U ?st" using inv A(1,2) by (auto simp: chan_inv_def A(3,4) C(3,5) mo)
    ultimately show ?thesis
      using g MI no_channel_no_member [OF ok(1) None, of p] IsMember_iff [OF C(2) a(3)] a(2) by (auto simp: chan_step_def)
  qed
qed

lemma part_refines:
  assumes inv: "chan_inv U st" and al: "chan_allowed U (Part p n)"
  shows "\<exists>st'. chan_step m NOW (Part p n) st = Some (fst (chan_spec_step m (Part p n) (chan_abs st)), st') \<and> chan_inv U st' \<and>
    chan_abs st' = snd (chan_spec_step m (Part p n) (chan_abs st))"
proof -
  have ok: "chans_ok st" "links_ok st" and p: "is_user st p" using inv al by (auto simp: chan_inv_def chan_allowed_def)
  obtain M I where MI: "chan_abs st = (M, I)" by (cases "chan_abs st")
  show ?thesis
  proof (cases "find_channel st n")
    case None
    then show ?thesis using inv MI no_channel_no_member [OF ok(1) None, of p] by (simp add: chan_step_def)
  next
    case (Some a)
    then have a: "a \<in> set (cs_channel st)" "key_of st a = name_key n" using find_channel_key [OF ok(1)] by auto
    have mem: "(q, name_key n) \<in> M \<longleftrightarrow> q \<in> set (members_of st a)" for q using member_key_iff [OF ok(1) a, of q] MI by simp
    show ?thesis
    proof (cases "p \<in> set (members_of st a)")
      case False
      then show ?thesis using Some inv MI mem IsMember_iff [OF ok(2) p] by (simp add: chan_step_def)
    next
      case True
      show ?thesis
      proof (rule remove_user_ok [OF ok p a(1) True])
      fix st1 assume r: "remove_user_from_channel p a st = Some st1" "chans_ok st1" "links_ok st1" "is_user st1 = is_user st"
        "set (cs_channel st1) = (if members_of st a = [p] then set (cs_channel st) - {a} else set (cs_channel st))"
        "\<And>b. members_of st1 b = (if b = a then remove1 p (members_of st a) else members_of st b)"
        "\<And>b. ch_chname (cs_channels st1 b) = ch_chname (cs_channels st b)"
        "\<And>q. is_user st q \<Longrightarrow> u_invited (user_at st1 q) =
           (if members_of st a = [p] then remove1 a (u_invited (user_at st q)) else u_invited (user_at st q))"
      have k: "key_of st1 = key_of st" by (simp add: key_of_def r(7) fun_eq_iff)
      have d: "distinct (members_of st a)" using ok(2) a by (simp add: links_ok_def chan_links_ok_iff)
      have last: "(\<exists>q. q \<noteq> p \<and> (q, name_key n) \<in> M) \<longleftrightarrow> members_of st a \<noteq> [p]"
      proof -
        have "members_of st a = [p]" if "\<forall>q\<in>set (members_of st a). q = p"
          using that d True by (cases "members_of st a"; cases "tl (members_of st a)") auto
        then show ?thesis by (auto simp: mem)
      qed
      have "chan_abs st1 = (M - {(p, name_key n)}, if members_of st a = [p] then (\<lambda>q. remove1 (name_key n) (I q)) else I)"
      proof (rule abs_eqI)
        fix q k
        have M: "(q, k) \<in> M \<longleftrightarrow> (\<exists>b\<in>set (cs_channel st). q \<in> set (members_of st b) \<and> key_of st b = k)"
          using abs_member [of q k st] by (simp add: MI)
        show "(q, k) \<in> fst (chan_abs st1) \<longleftrightarrow> (q, k) \<in> M - {(p, name_key n)}"
        proof (cases "k = name_key n")
          case True
          have "(q, k) \<in> fst (chan_abs st1) \<longleftrightarrow> a \<in> set (cs_channel st1) \<and> q \<in> set (members_of st1 a)"
          proof
            assume "(q, k) \<in> fst (chan_abs st1)"
            then obtain b where b: "b \<in> set (cs_channel st1)" "q \<in> set (members_of st1 b)" "key_of st b = name_key n"
              using True by (auto simp: abs_member k)
            then have "b \<in> set (cs_channel st)" using r(5) by (auto split: if_splits)
            from key_of_inj [OF ok(1) this a(1)] b a(2) show "a \<in> set (cs_channel st1) \<and> q \<in> set (members_of st1 a)" by simp
          next
            assume "a \<in> set (cs_channel st1) \<and> q \<in> set (members_of st1 a)"
            then show "(q, k) \<in> fst (chan_abs st1)" using True a(2) by (auto simp: abs_member k)
          qed
          then show ?thesis using True a(1) d by (auto simp: r(5,6) mem set_remove1_eq split: if_splits)
        next
          case False
          then show ?thesis using a(2) by (auto simp: M abs_member k r(5,6) split: if_splits)
        qed
        have I: "I q = snd (chan_abs st) q" by (simp add: MI)
        show "snd (chan_abs st1) q = (if members_of st a = [p] then (\<lambda>q. remove1 (name_key n) (I q)) else I) q"
          using invited_map_remove [OF ok _ a(1), of q] a(2) by (simp add: I) (simp add: chan_abs_def r(4,8) k)
      qed
      moreover have "chan_inv U st1"
      proof -
        have "members_of st1 b \<noteq> []" if "b \<in> set (cs_channel st1)" for b
        proof (cases "b = a")
          case True
          then have "members_of st a \<noteq> [p]" using that r(5) by auto
          then show ?thesis using True \<open>p \<in> set (members_of st a)\<close> by (cases "members_of st a") (auto simp: r(6))
        next
          case False
          then show ?thesis using that inv r(5,6) by (auto simp: chan_inv_def split: if_splits)
        qed
        then show ?thesis using inv r(2,3,4) by (simp add: chan_inv_def)
      qed
      ultimately show ?thesis using Some r(1) True MI mem last a(1) IsMember_iff [OF ok(2) p] by (auto simp: chan_step_def)
      qed
    qed
  qed
qed

text \<open>The operations on invitations share their frame.\<close>

lemma invite_frame:
  assumes inv: "chan_inv U st" and s: "chans_ok st1" "links_ok st1" "same_but_invites st st1"
    and MI: "chan_abs st = (M, I)"
    and I: "\<And>q. is_user st q \<Longrightarrow> map (key_of st) (u_invited (user_at st1 q)) = I1 q" "\<And>q. \<not> is_user st q \<Longrightarrow> I1 q = []"
  shows "chan_inv U st1 \<and> chan_abs st1 = (M, I1)"
proof -
  have k: "key_of st1 = key_of st" "members_of st1 = members_of st" "is_user st1 = is_user st" "cs_channel st1 = cs_channel st"
    using s(3) by (auto simp: same_but_invites_def key_of_def members_of_def fun_eq_iff)
  have "chan_abs st1 = (M, I1)"
  proof (rule abs_eqI)
    fix q kk
    have "(q, kk) \<in> M \<longleftrightarrow> (q, kk) \<in> fst (chan_abs st)" by (simp add: MI)
    then show "(q, kk) \<in> fst (chan_abs st1) \<longleftrightarrow> (q, kk) \<in> M" by (simp add: abs_member k)
    show "snd (chan_abs st1) q = I1 q" using I [of q] by (simp add: chan_abs_def k)
  qed
  with inv s(1,2) k show ?thesis by (simp add: chan_inv_def)
qed

lemma someone_there:
  assumes "chan_inv U st" and "chan_abs st = (M, I)"
  shows "(\<exists>q. (q, name_key n) \<in> M) \<longleftrightarrow> find_channel st n \<noteq> None"
proof (cases "find_channel st n")
  case None
  then show ?thesis using no_channel_no_member [of st n] assms by (auto simp: chan_inv_def)
next
  case (Some a)
  then have a: "a \<in> set (cs_channel st)" "key_of st a = name_key n" using find_channel_key [of st n a] assms(1) by (auto simp: chan_inv_def)
  then have "(hd (members_of st a), name_key n) \<in> fst (chan_abs st)" using assms(1) by (auto simp: abs_member chan_inv_def intro!: bexI [of _ a])
  with Some assms(2) show ?thesis by auto
qed

lemma invite_refines:
  assumes inv: "chan_inv U st" and al: "chan_allowed U (Invite p n)" and m: "m \<ge> 1"
  shows "\<exists>st'. chan_step m NOW (Invite p n) st = Some (fst (chan_spec_step m (Invite p n) (chan_abs st)), st') \<and> chan_inv U st' \<and>
    chan_abs st' = snd (chan_spec_step m (Invite p n) (chan_abs st))"
proof -
  have ok: "chans_ok st" "links_ok st" and p: "is_user st p" using inv al by (auto simp: chan_inv_def chan_allowed_def)
  obtain M I where MI: "chan_abs st = (M, I)" by (cases "chan_abs st")
  have I: "I q = snd (chan_abs st) q" for q by (simp add: MI)
  show ?thesis
  proof (cases "find_channel st n")
    case None
    then show ?thesis using inv MI someone_there [OF inv MI, of n] by (simp add: chan_step_def)
  next
    case (Some a)
    then have a: "a \<in> set (cs_channel st)" "key_of st a = name_key n" using find_channel_key [OF ok(1)] by auto
    obtain st1 where r: "add_invite m p a st = Some st1" "chans_ok st1" "links_ok st1" "same_but_invites st st1"
      "\<And>q. u_invited (user_at st1 q) = (if q = p then invite_push m a (u_invited (user_at st p)) else u_invited (user_at st q))"
      using add_invite_ok [OF ok p a(1) m] by metis
    have "map (key_of st) (invite_push m a (u_invited (user_at st p))) = invite_push m (name_key n) (I p)"
      using map_invite_push [OF key_inj_on [OF ok(1), of "insert a (set (u_invited (user_at st p)))"]] invited_live [OF ok(2) p] a p
      by (simp add: I chan_abs_def)
    then have "chan_inv U st1 \<and> chan_abs st1 = (M, I(p := invite_push m (name_key n) (I p)))"
      by (intro invite_frame [OF inv r(2-4) MI]) (use p in \<open>auto simp: r(5) I chan_abs_def\<close>)
    then show ?thesis using Some r(1) MI someone_there [OF inv MI, of n] by (auto simp: chan_step_def)
  qed
qed

lemma uninvite_refines:
  assumes inv: "chan_inv U st" and al: "chan_allowed U (Uninvite p n)"
  shows "\<exists>st'. chan_step m NOW (Uninvite p n) st = Some (fst (chan_spec_step m (Uninvite p n) (chan_abs st)), st') \<and> chan_inv U st' \<and>
    chan_abs st' = snd (chan_spec_step m (Uninvite p n) (chan_abs st))"
proof -
  have ok: "chans_ok st" "links_ok st" and p: "is_user st p" using inv al by (auto simp: chan_inv_def chan_allowed_def)
  obtain M I where MI: "chan_abs st = (M, I)" by (cases "chan_abs st")
  have I: "I q = snd (chan_abs st) q" for q by (simp add: MI)
  show ?thesis
  proof (cases "find_channel st n")
    case None
    then show ?thesis using inv MI someone_there [OF inv MI, of n] by (simp add: chan_step_def)
  next
    case (Some a)
    then have a: "a \<in> set (cs_channel st)" "key_of st a = name_key n" using find_channel_key [OF ok(1)] by auto
    obtain st1 where r: "del_invite p a st = Some st1" "chans_ok st1" "links_ok st1" "same_but_invites st st1"
      "\<And>q. u_invited (user_at st1 q) = (if q = p then remove1 a (u_invited (user_at st p)) else u_invited (user_at st q))"
      using del_invite_ok [OF ok p a(1)] by metis
    have "map (key_of st) (remove1 a (u_invited (user_at st p))) = remove1 (name_key n) (I p)"
      using invited_map_remove [OF ok p a(1)] a(2) p by (simp add: I chan_abs_def)
    then have "chan_inv U st1 \<and> chan_abs st1 = (M, I(p := remove1 (name_key n) (I p)))"
      by (intro invite_frame [OF inv r(2-4) MI]) (use p in \<open>auto simp: r(5) I chan_abs_def\<close>)
    then show ?thesis using Some r(1) MI someone_there [OF inv MI, of n] by (auto simp: chan_step_def)
  qed
qed

interpretation chanops: op_refinement "chan_inv U" chan_abs "chan_allowed U" "chan_step (1 + int m) NOW" "chan_spec_step (1 + int m)"
  for U m NOW
proof unfold_locales
  fix st x assume i: "chan_inv U st" and a: "chan_allowed U x"
  show "\<exists>st'. chan_step (1 + int m) NOW x st = Some (fst (chan_spec_step (1 + int m) x (chan_abs st)), st') \<and> chan_inv U st' \<and>
      chan_abs st' = snd (chan_spec_step (1 + int m) x (chan_abs st))"
  proof (cases x)
    case (Join p n f)
    then show ?thesis using join_refines [OF i, of p n f "1 + int m" NOW] a by simp
  next
    case (Part p n)
    then show ?thesis using part_refines [OF i, of p n "1 + int m" NOW] a by simp
  next
    case (Invite p n)
    then show ?thesis using invite_refines [OF i, of p n "1 + int m" NOW] a by simp
  next
    case (Uninvite p n)
    then show ?thesis using uninvite_refines [OF i, of p n "1 + int m" NOW] a by simp
  qed
qed

subsection \<open>Properties\<close>

text \<open>The state before the first channel, with users that are in no channel and have no invitation.\<close>

definition no_channels :: "clients \<Rightarrow> chan_state" where
  "no_channels cs = \<lparr>cs_clients = cs, cs_channels = (\<lambda>_. make_channel), cs_channel = [], cs_table = clear_hash_table,
     cs_count = 0, cs_next = 0\<rparr>"

lemma no_channels_inv:
  assumes "\<forall>p u. c_user (cs p) = Some u \<longrightarrow> u_channel u = [] \<and> u_invited u = [] \<and> u_joined u = 0"
  shows "chan_inv {p. c_user (cs p) \<noteq> None} (no_channels cs)" and "chan_abs (no_channels cs) = ({}, \<lambda>_. [])"
proof -
  have e: "entries (\<lambda>h. chain (clear_hash_table h)) = {}" by (simp add: entries_def clear_hash_table_def)
  have u: "u_channel (user_at (no_channels cs) p) = [] \<and> u_invited (user_at (no_channels cs) p) = [] \<and> u_joined (user_at (no_channels cs) p) = 0"
    if "is_user (no_channels cs) p" for p using assms that by (auto simp: is_user_def user_at_def no_channels_def)
  show "chan_inv {p. c_user (cs p) \<noteq> None} (no_channels cs)"
    using u channel_table_clear
    by (simp add: chan_inv_def chans_ok_def links_ok_def user_links_ok_def is_user_def e no_channels_def)
  show "chan_abs (no_channels cs) = ({}, \<lambda>_. [])" using u by (auto simp: chan_abs_def fun_eq_iff) (simp add: no_channels_def)
qed

text \<open>
  C18: channel membership and invitations behave like a relation between clients and channel names up to
  case, and lists of invited names: in any sequence of joins, parts, invitations and their withdrawal
  every call gives the result the relation gives, no pointer is followed that should not be, a channel exists exactly as long as
  it has members, the invitations to a channel vanish with it, and a full invitation list loses its oldest entry.
\<close>

theorem membership_refines_relation:
  assumes "\<forall>p u. c_user (cs p) = Some u \<longrightarrow> u_channel u = [] \<and> u_invited u = [] \<and> u_joined u = 0"
    and "list_all (chan_allowed {p. c_user (cs p) \<noteq> None}) xs"
  shows "\<exists>st. run_ops (chan_step (1 + int m) NOW) xs (no_channels cs) =
      Some (fst (run_spec (chan_spec_step (1 + int m)) xs ({}, \<lambda>_. [])), st) \<and>
    chan_abs st = snd (run_spec (chan_spec_step (1 + int m)) xs ({}, \<lambda>_. [])) \<and> chan_inv {p. c_user (cs p) \<noteq> None} st"
  using chanops.run_refines [OF no_channels_inv(1) [OF assms(1)] assms(2), of m NOW] no_channels_inv(2) [OF assms(1)]
  by auto

definition example_members :: clients where
  "example_members p = (if p < 3 then (example_client ''u'')\<lparr>c_user := Some example_user\<rparr> else example_client ''none'')"

theorem membership_refines_relation_witness:
  "\<exists>st. run_ops (chan_step 10 0) [Join 1 ''#x'' 0, Join 2 ''#X'' 0, Invite 0 ''#x'', Part 1 ''#x'', Part 2 ''#x'', Part 2 ''#x'']
       (no_channels example_members) = Some ([True, True, True, True, True, False], st) \<and>
     chan_abs st = ({}, \<lambda>_. []) \<and> cs_count st = 0"
proof -
  let ?xs = "[Join 1 ''#x'' 0, Join 2 ''#X'' 0, Invite 0 ''#x'', Part 1 ''#x'', Part 2 ''#x'', Part 2 ''#x'']"
  have k: "name_key ''#X'' = name_key ''#x''" by code_simp
  have "list_all (chan_allowed {p. c_user (example_members p) \<noteq> None}) ?xs"
    by (simp add: chan_allowed_def CHANNELLEN_def example_members_def)
  then have "\<exists>st. run_ops (chan_step (1 + int 9) 0) ?xs (no_channels example_members) =
      Some (fst (run_spec (chan_spec_step (1 + int 9)) ?xs ({}, \<lambda>_. [])), st) \<and>
    chan_abs st = snd (run_spec (chan_spec_step (1 + int 9)) ?xs ({}, \<lambda>_. [])) \<and> chan_inv {p. c_user (example_members p) \<noteq> None} st"
    by (intro membership_refines_relation) (auto simp: example_members_def example_client_def example_user_def split: if_splits)
  then obtain st where st: "run_ops (chan_step (1 + int 9) 0) ?xs (no_channels example_members) =
      Some (fst (run_spec (chan_spec_step (1 + int 9)) ?xs ({}, \<lambda>_. [])), st)"
    "chan_abs st = snd (run_spec (chan_spec_step (1 + int 9)) ?xs ({}, \<lambda>_. []))" "chan_inv {p. c_user (example_members p) \<noteq> None} st" by blast
  have r: "run_spec (chan_spec_step (1 + int 9)) ?xs ({}, \<lambda>_. []) = ([True, True, True, True, True, False], {}, \<lambda>_. [])"
    by (auto simp: k Let_def invite_push_def fun_eq_iff)
  have "cs_channel st = []"
  proof (rule ccontr)
    assume "cs_channel st \<noteq> []"
    then have a: "hd (cs_channel st) \<in> set (cs_channel st)" by simp
    then have "members_of st (hd (cs_channel st)) \<noteq> []" using st(3) by (simp add: chan_inv_def)
    then have "(hd (members_of st (hd (cs_channel st))), key_of st (hd (cs_channel st))) \<in> fst (chan_abs st)"
      using a by (auto simp: abs_member intro!: bexI [of _ "hd (cs_channel st)"])
    then show False using st(2) r by simp
  qed
  then have "cs_count st = 0" using st(3) by (simp add: chan_inv_def chans_ok_def)
  with st r show ?thesis by simp
qed

text \<open>
  C39: a banned client that joins by invitation may speak.  It enters with a cache that says
  \<open>not banned\<close> and carries the current serial number, so the bans are not looked at until the
  ban list changes, although a search of the lists says that it is banned.
\<close>

theorem banned_guest_speaks:
  assumes "c_user (cs_clients st p) = Some u" and "a \<in> set (u_invited u)" and "IsPerson (cs_clients st p)" and "\<not> IsULine (cs_clients st p)"
    and "\<not> has_mode (cs_channels st a) MODE_MODERATED" "\<not> has_mode (cs_channels st a) MODE_MODREG" "\<not> has_mode (cs_channels st a) MODE_NOCTRL"
    and "fst (is_banned (cs_clients st p) (cs_channels st a) None) = CHFL_BANNED"
  shows "let st1 = add_user_to_channel a p 0 st in
    fst (can_join me_name reg_args NOW p (cs_clients st p) u a (cs_channels st a) key) = 1 \<and>
    fst (is_banned (cs_clients st1 p) (cs_channels st1 a) None) = CHFL_BANNED \<and>
    fst (can_send p (cs_clients st1 p) (cs_channels st1 a) msg) = 0"
proof -
  let ?c = "cs_clients st p" and ?ch = "cs_channels st a" and ?st1 = "add_user_to_channel a p 0 st"
  have c1: "cs_clients ?st1 p = ?c\<lparr>c_user := Some (u\<lparr>u_channel := a # u_channel u, u_joined := u_joined u + 1\<rparr>)\<rparr>"
    using assms(1) by (simp add: add_user_to_channel_def upd_user_def upd_chan_def)
  have ch1: "cs_channels ?st1 a = ?ch\<lparr>ch_members := \<lparr>cm_cptr = p, cm_flags = 0, cm_banserial = ch_banserial ?ch\<rparr> # ch_members ?ch,
      ch_users := ch_users ?ch + 1\<rparr>"
    using assms(1) by (simp add: add_user_to_channel_def upd_user_def upd_chan_def)
  have "\<not> IsServer ?c" using assms(3) by (simp add: IsPerson_def IsClient_def IsServer_def STAT_CLIENT_def STAT_SERVER_def)
  then have "fst (can_send p (cs_clients ?st1 p) (cs_channels ?st1 a) msg) = 0"
    using assms(3-7) by (simp add: can_send_def Let_def c1 ch1 find_user_member_def IsULine_def IsServer_def has_mode_def has_flag_def
      is_banned_def IsPerson_def IsClient_def banned_bool_def)
  moreover have "fst (is_banned (cs_clients ?st1 p) (cs_channels ?st1 a) None) = fst (is_banned ?c ?ch None)"
    using assms(1,3) by (simp add: is_banned_def c1 ch1 IsPerson_def IsClient_def client_masks_def ban_answer_def)
  ultimately show ?thesis using assms(1,2,8) by (simp add: Let_def can_join_def)
qed

definition example_guest :: chan_state where
  "example_guest = (no_channels (\<lambda>p. (example_client ''alice'')\<lparr>c_user := Some (example_user\<lparr>u_invited := [7]\<rparr>)\<rparr>))\<lparr>cs_channels := (\<lambda>_.
     make_channel\<lparr>ch_banlist := [\<lparr>banstr = ''alice!*@*'', ban_who = ''hub.net'', ban_when = 0, ban_type = MTYP_FULL\<rparr>]\<rparr>)\<rparr>"

theorem banned_guest_speaks_witness:
  "let st1 = add_user_to_channel 7 2 0 example_guest in
    fst (is_banned (cs_clients st1 2) (cs_channels st1 7) None) = CHFL_BANNED \<and>
    fst (can_send 2 (cs_clients st1 2) (cs_channels st1 7) (Some ''hello'')) = 0"
proof -
  have b: "fst (is_banned (cs_clients example_guest 2) (cs_channels example_guest 7) None) = CHFL_BANNED" by code_simp
  have "let st1 = add_user_to_channel 7 2 0 example_guest in
      fst (can_join [] [] 0 2 (cs_clients example_guest 2) (example_user\<lparr>u_invited := [7]\<rparr>) 7 (cs_channels example_guest 7) None) = 1 \<and>
      fst (is_banned (cs_clients st1 2) (cs_channels st1 7) None) = CHFL_BANNED \<and>
      fst (can_send 2 (cs_clients st1 2) (cs_channels st1 7) (Some ''hello'')) = 0"
    by (rule banned_guest_speaks)
      (use b in \<open>simp_all add: example_guest_def no_channels_def example_client_def status_defs IsULine_def has_flag_def has_mode_def make_channel_def\<close>)
  then show ?thesis by (simp add: Let_def)
qed

end
