(* ===== verification/C_Text.thy ===== *)
theory C_Text
  imports Ircd_Prelude
begin

section \<open>Numbers in texts\<close>

text \<open>
  The functions of the C library that read and print decimal numbers: \<^verbatim>\<open>strtol\<close> to the base 10
  with its end pointer, \<^verbatim>\<open>atoi\<close>, \<^verbatim>\<open>atol\<close> and the conversion \<^verbatim>\<open>%d\<close>.
  \<^verbatim>\<open>long\<close> has 64 bits and saturates, the conversion to \<^verbatim>\<open>int\<close> keeps the low 32 bits.
\<close>

definition c_space :: "char \<Rightarrow> bool" where
  "c_space c \<longleftrightarrow> c = CHR '' '' \<or> (9 \<le> (of_char c :: nat) \<and> (of_char c :: nat) \<le> 13)"

definition c_digit :: "char \<Rightarrow> bool" where
  "c_digit c \<longleftrightarrow> 48 \<le> (of_char c :: nat) \<and> (of_char c :: nat) \<le> 57"

definition digits_value :: "cstr \<Rightarrow> int" where
  "digits_value ds = foldl (\<lambda>v c. v * 10 + (of_char c - 48)) 0 ds"

definition to_long :: "int \<Rightarrow> int" where
  "to_long v = max (- (2 ^ 63)) (min (2 ^ 63 - 1) v)"

definition to_int :: "int \<Rightarrow> int" where
  "to_int v = sint (word_of_int v :: 32 word)"

text \<open>The value and the text behind the number, which is the whole text when there is no number.\<close>

definition strtol :: "cstr \<Rightarrow> int \<times> cstr" where
  "strtol s =
     (let t = dropWhile c_space s;
          neg = (case t of c # _ \<Rightarrow> c = CHR ''-'' | [] \<Rightarrow> False);
          u = (case t of c # r \<Rightarrow> if c = CHR ''-'' \<or> c = CHR ''+'' then r else t | [] \<Rightarrow> t);
          ds = takeWhile c_digit u in
      if ds = [] then (0, s)
      else (to_long (if neg then - digits_value ds else digits_value ds), dropWhile c_digit u))"

definition atol :: "cstr \<Rightarrow> int" where
  "atol s = fst (strtol s)"

definition atoi :: "cstr \<Rightarrow> int" where
  "atoi s = to_int (atol s)"

definition dec_digit :: "nat \<Rightarrow> char" where
  "dec_digit n = char_of (48 + n)"

fun dec_nat :: "nat \<Rightarrow> cstr" where
  "dec_nat n = (if n < 10 then [dec_digit n] else dec_nat (n div 10) @ [dec_digit (n mod 10)])"

declare dec_nat.simps [simp del]

definition dec :: "int \<Rightarrow> cstr" where
  "dec n = (if n < 0 then CHR ''-'' # dec_nat (nat (- n)) else dec_nat (nat n))"

text \<open>
  \<^verbatim>\<open>strtoken()\<close> of \<^verbatim>\<open>src/support.c\<close>: the next token of the text at \<^verbatim>\<open>*save\<close> and what is left
  behind it (\<open>None\<close> for a null pointer), and the loop that takes tokens until there are none.
\<close>

definition strtoken :: "char \<Rightarrow> cstr \<Rightarrow> (cstr \<times> cstr option) option" where
  "strtoken fs pos =
     (case dropWhile (\<lambda>c. c = fs) pos of
        [] \<Rightarrow> None
      | t \<Rightarrow> Some (takeWhile (\<lambda>c. c \<noteq> fs) t, case dropWhile (\<lambda>c. c \<noteq> fs) t of [] \<Rightarrow> None | _ # r \<Rightarrow> Some r))"

lemma strtoken_shorter: "strtoken fs s = Some (t, Some r) \<Longrightarrow> length r < length s"
  using length_dropWhile_le [of "\<lambda>c. c = fs" s] length_dropWhile_le [of "\<lambda>c. c \<noteq> fs" "dropWhile (\<lambda>c. c = fs) s"]
  by (auto simp: strtoken_def split: list.splits)

function strtokens :: "char \<Rightarrow> cstr \<Rightarrow> cstr list" where
  "strtokens fs s =
     (case strtoken fs s of None \<Rightarrow> [] | Some (t, None) \<Rightarrow> [t] | Some (t, Some r) \<Rightarrow> t # strtokens fs r)"
  by pat_completeness auto
termination strtokens
  by (relation "measure (\<lambda>(fs, s). length s)") (auto simp: strtoken_shorter)

declare strtokens.simps [simp del]

subsection \<open>Reading what was printed\<close>

lemma of_char_dec_digit: "n < 10 \<Longrightarrow> (of_char (dec_digit n) :: nat) = 48 + n"
  by (simp add: dec_digit_def)

lemma of_char_dec_digit_int: "n < 10 \<Longrightarrow> (of_char (dec_digit n) :: int) = 48 + int n"
  using of_char_dec_digit [of n] by (metis of_nat_add of_nat_numeral of_nat_of_char)

lemma c_digit_dec_digit: "n < 10 \<Longrightarrow> c_digit (dec_digit n)"
  by (simp add: c_digit_def of_char_dec_digit)

lemma dec_nat_digits: "dec_nat n \<noteq> [] \<and> (\<forall>c\<in>set (dec_nat n). c_digit c)"
proof (induction n rule: dec_nat.induct)
  case (1 n)
  then show ?case by (cases "n < 10") (auto simp: dec_nat.simps [of n] c_digit_dec_digit)
qed

lemma digits_value_snoc: "digits_value (ds @ [c]) = digits_value ds * 10 + (of_char c - 48)"
  by (simp add: digits_value_def)

lemma digits_value_dec_nat: "digits_value (dec_nat n) = int n"
proof (induction n rule: dec_nat.induct)
  case (1 n)
  show ?case
  proof (cases "n < 10")
    case True
    then show ?thesis by (simp add: dec_nat.simps [of n] digits_value_def of_char_dec_digit_int)
  next
    case False
    have "int (n div 10) * 10 + int (n mod 10) = int n" by presburger
    with False show ?thesis using "1.IH" by (simp add: dec_nat.simps [of n] digits_value_snoc of_char_dec_digit_int)
  qed
qed

lemma c_digit_not: "c_digit c \<Longrightarrow> \<not> c_space c \<and> c \<noteq> CHR ''-'' \<and> c \<noteq> CHR ''+'' \<and> c \<noteq> CHR '' '' \<and> c \<noteq> CHR '':''"
  by (auto simp: c_digit_def c_space_def)

lemma length_dec_nat: "n < 10 ^ k \<Longrightarrow> 0 < k \<Longrightarrow> length (dec_nat n) \<le> k"
proof (induction n arbitrary: k rule: dec_nat.induct)
  case (1 n)
  show ?case
  proof (cases "n < 10")
    case True
    with "1.prems" show ?thesis by (simp add: dec_nat.simps [of n])
  next
    case False
    obtain j where j: "k = Suc j" using "1.prems"(2) by (cases k) auto
    with False "1.prems" have "n div 10 < 10 ^ j" "0 < j" by (auto intro: gr0I simp: less_mult_imp_div_less)
    then have "length (dec_nat (n div 10)) \<le> j" using "1.IH" False by blast
    with False j show ?thesis by (simp add: dec_nat.simps [of n])
  qed
qed

lemma strtol_dec_nat:
  assumes "int n < 2 ^ 63" and "r = [] \<or> \<not> c_digit (hd r)"
  shows "strtol (dec_nat n @ r) = (int n, r)"
proof -
  obtain c cs where d: "dec_nat n = c # cs" "c_digit c" "\<forall>x\<in>set cs. c_digit x"
    using dec_nat_digits [of n] by (cases "dec_nat n") auto
  have t: "takeWhile c_digit (dec_nat n @ r) = dec_nat n" "dropWhile c_digit (dec_nat n @ r) = r"
    using dec_nat_digits [of n] assms(2) by (cases r; simp add: takeWhile_append2 dropWhile_append2)+
  have "dropWhile c_space (dec_nat n @ r) = dec_nat n @ r" using d c_digit_not by auto
  then show ?thesis using d(1) t c_digit_not [OF d(2)] assms(1) digits_value_dec_nat [of n]
    by (auto simp: strtol_def Let_def to_long_def)
qed

lemma to_int_id: "- (2 ^ 31) \<le> n \<Longrightarrow> n < 2 ^ 31 \<Longrightarrow> to_int n = n"
  by (simp add: to_int_def signed_of_int signed_take_bit_int_eq_self)

lemma to_int_range: "- (2 ^ 31) \<le> to_int n \<and> to_int n < 2 ^ 31"
  using sint_range_size [of "word_of_int n :: 32 word"] by (simp add: to_int_def word_size)

lemma strtol_dec: "0 \<le> n \<Longrightarrow> n < 2 ^ 63 \<Longrightarrow> r = [] \<or> \<not> c_digit (hd r) \<Longrightarrow> strtol (dec n @ r) = (n, r)"
  using strtol_dec_nat [of "nat n" r] by (simp add: dec_def)

lemma atoi_dec: "0 \<le> n \<Longrightarrow> n < 2 ^ 31 \<Longrightarrow> atoi (dec n) = n"
  using strtol_dec [of n "[]"] by (simp add: atoi_def atol_def to_int_id)

lemma dec_text:
  assumes "0 \<le> n"
  shows "dec n \<noteq> [] \<and> (\<forall>c\<in>set (dec n). c_digit c)"
  using assms dec_nat_digits by (simp add: dec_def)

lemma length_dec: "0 \<le> n \<Longrightarrow> n < 2 ^ 31 \<Longrightarrow> length (dec n) \<le> 10"
  using length_dec_nat [of "nat n" 10] by (simp add: dec_def nat_less_iff)

end
