(* ===== verification/Channel_Modes.thy ===== *)
theory Channel_Modes
  imports Channel_Members Whowas C_Text "HOL-Library.Signed_Division"
begin

section \<open>Channel modes (src/src/channel.c)\<close>

text \<open>
  The command MODE for channels: the parser \<open>set_mode\<close> with one definition per group of mode
  letters, \<open>m_mode\<close>, \<open>m_samode\<close> and the text of the modes, \<open>channel_modes\<close>.  The build is the
  one shipped: no SSL, no channel modes D and L in the tables, \<^verbatim>\<open>JOINRATE_SERVER_ONLY\<close> not set.

  \<open>mode_ctx\<close> holds what is fixed during a call (the arguments and the tables it reads),
  \<open>mode_run\<close> the local variables of the loop: \<^verbatim>\<open>parv + args\<close> is the list of the arguments
  that are left, the two output buffers are the texts written so far, so \<^verbatim>\<open>mbuf - morig\<close> and
  \<^verbatim>\<open>pidx\<close> are their lengths.
\<close>

definition REALMODEBUFLEN :: nat where "REALMODEBUFLEN = 512"
definition MAXMODEPARAMSUSER :: nat where "MAXMODEPARAMSUSER = 6"
definition KEYLEN :: nat where "KEYLEN = 23"
definition KILLCHASETIMELIMIT :: time_t where "KILLCHASETIMELIMIT = 90"
definition MODE_KEY :: u32 where "MODE_KEY = 0x00200"
definition MODE_LIMIT :: u32 where "MODE_LIMIT = 0x00800"
definition UMODE_a :: u32 where "UMODE_a = 0x00000001"
definition SM_ERR_NOPRIVS :: u32 where "SM_ERR_NOPRIVS = 0x0001"
definition SM_ERR_MOREPARMS :: u32 where "SM_ERR_MOREPARMS = 0x0002"
definition SM_ERR_NOTOPER :: u32 where "SM_ERR_NOTOPER = 0x0008"

definition IsSAdmin :: "aClient \<Rightarrow> bool" where
  "IsSAdmin x \<longleftrightarrow> has_flag (c_umode x) UMODE_a"

record mode_ctx =
  mc_me :: cstr
  mc_me_addr :: addr
  mc_now :: time_t
  mc_table :: hash_tab
  mc_whowas :: whowas_state
  mc_cptr :: addr
  mc_sptr :: addr
  mc_chp :: addr
  mc_level :: int

record mode_run =
  mr_st :: chan_state
  mr_args :: "cstr list"
  mr_change :: bool
  mr_mbuf :: cstr
  mr_pbuf :: cstr
  mr_nmodes :: int
  mr_nparams :: nat
  mr_seen :: u32
  mr_errors :: u32
  mr_listsent :: bool
  mr_out :: "out_msg list"

definition check_level :: "int \<Rightarrow> int \<Rightarrow> aClient \<Rightarrow> bool" where
  "check_level level rlevel sptr \<longleftrightarrow> level < rlevel \<and> \<not> IsServer sptr"

definition find_chasing :: "mode_ctx \<Rightarrow> clients \<Rightarrow> cstr \<Rightarrow> addr option \<times> bool \<times> out_msg list" where
  "find_chasing cx cs user =
     (case hash_find_client cs (mc_table cx) user None of
        Some who \<Rightarrow> (Some who, False, [])
      | None \<Rightarrow>
          (case get_history (mc_whowas cx) (mc_now cx) user KILLCHASETIMELIMIT of
             Some who \<Rightarrow> (Some who, True, [])
           | None \<Rightarrow> (None, False, [To_one (mc_sptr cx) ''ERR_NOSUCHNICK'' [S (mc_me cx), S (c_name (cs (mc_sptr cx))), S user]])))"

subsection \<open>Local variables of the loop\<close>

definition sender :: "mode_ctx \<Rightarrow> mode_run \<Rightarrow> aClient" where
  "sender cx r = cs_clients (mr_st r) (mc_sptr cx)"

definition cptr_name :: "mode_ctx \<Rightarrow> mode_run \<Rightarrow> cstr" where
  "cptr_name cx r = c_name (cs_clients (mr_st r) (mc_cptr cx))"

definition chan :: "mode_ctx \<Rightarrow> mode_run \<Rightarrow> aChannel" where
  "chan cx r = cs_channels (mr_st r) (mc_chp cx)"

definition on_chan :: "mode_ctx \<Rightarrow> (aChannel \<Rightarrow> aChannel) \<Rightarrow> mode_run \<Rightarrow> mode_run" where
  "on_chan cx f r = r\<lparr>mr_st := upd_chan (mc_chp cx) f (mr_st r)\<rparr>"

definition on_mode :: "mode_ctx \<Rightarrow> (Mode \<Rightarrow> Mode) \<Rightarrow> mode_run \<Rightarrow> mode_run" where
  "on_mode cx f = on_chan cx (\<lambda>ch. ch\<lparr>ch_mode := f (ch_mode ch)\<rparr>)"

definition set_flag :: "bool \<Rightarrow> u32 \<Rightarrow> u32 \<Rightarrow> u32" where
  "set_flag pos m x = (if pos then x OR m else x AND NOT m)"

definition no_room :: "mode_ctx \<Rightarrow> mode_run \<Rightarrow> nat \<Rightarrow> bool" where
  "no_room cx r n \<longleftrightarrow>
     length (cptr_name cx r) + length (ch_chname (chan cx r)) + 27 + length (mr_mbuf r) + length (mr_pbuf r) + n > REALMODEBUFLEN"

definition add_letter :: "char \<Rightarrow> mode_run \<Rightarrow> mode_run" where
  "add_letter c r = r\<lparr>mr_mbuf := mr_mbuf r @ [c], mr_nmodes := mr_nmodes r + 1\<rparr>"

definition ADD_PARA :: "cstr \<Rightarrow> mode_run \<Rightarrow> mode_run" where
  "ADD_PARA p r = r\<lparr>mr_pbuf := (if mr_pbuf r \<noteq> [] then mr_pbuf r @ '' '' @ p else p)\<rparr>"

definition eat_arg :: "mode_run \<Rightarrow> mode_run" where
  "eat_arg r = r\<lparr>mr_args := tl (mr_args r)\<rparr>"

definition say :: "out_msg list \<Rightarrow> mode_run \<Rightarrow> mode_run" where
  "say ms r = r\<lparr>mr_out := mr_out r @ ms\<rparr>"

definition fail :: "u32 \<Rightarrow> mode_run \<Rightarrow> mode_run" where
  "fail e r = r\<lparr>mr_errors := mr_errors r OR e\<rparr>"

definition see :: "u32 \<Rightarrow> mode_run \<Rightarrow> mode_run" where
  "see m r = r\<lparr>mr_seen := mr_seen r OR m\<rparr>"

definition count_param :: "mode_run \<Rightarrow> mode_run" where
  "count_param r = r\<lparr>mr_nparams := mr_nparams r + 1\<rparr>"

definition maxparams :: "mode_ctx \<Rightarrow> mode_run \<Rightarrow> nat" where
  "maxparams cx r = (if IsServer (sender cx r) \<or> IsULine (sender cx r) then 512 else MAXMODEPARAMSUSER)"

definition too_many :: "mode_ctx \<Rightarrow> mode_run \<Rightarrow> bool" where
  "too_many cx r \<longleftrightarrow> mr_nparams r > maxparams cx r"

text \<open>\<^verbatim>\<open>MyClient(sptr) && (seenalready & m)\<close>.\<close>

definition seen_already :: "mode_ctx \<Rightarrow> u32 \<Rightarrow> mode_run \<Rightarrow> bool" where
  "seen_already cx m r \<longleftrightarrow> MyClient (sender cx r) \<and> has_flag (mr_seen r) m"

subsection \<open>One letter\<close>

definition mode_sign :: "char \<Rightarrow> mode_run \<Rightarrow> mode_run" where
  "mode_sign c r =
     (let pos = (c = CHR ''+''); other = (if pos then CHR ''-'' else CHR ''+'') in
      if last (mr_mbuf r) = other then r\<lparr>mr_mbuf := butlast (mr_mbuf r) @ [c], mr_change := pos\<rparr>
      else if mr_change r = pos then r
      else r\<lparr>mr_change := pos, mr_mbuf := mr_mbuf r @ [c]\<rparr>)"

definition mode_O :: "mode_ctx \<Rightarrow> mode_run \<Rightarrow> mode_run" where
  "mode_O cx r =
     (let s = sender cx r in
      if \<not> IsULine s \<and> (mc_level cx < 2 \<or> \<not> IsOper s) then fail SM_ERR_NOTOPER r
      else if MyClient s \<and> \<not> IsOper s then fail SM_ERR_NOTOPER r
      else add_letter CHR ''O'' (on_mode cx (\<lambda>m. m\<lparr>md_mode := set_flag (mr_change r) MODE_OPERONLY (md_mode m)\<rparr>) r))"

text \<open>The modes o, v and h: the level they need and the flag they change.\<close>

definition blast_ts :: "mode_ctx \<Rightarrow> char \<Rightarrow> mode_run \<Rightarrow> mode_run" where
  "blast_ts cx c r =
     (if IsServer (sender cx r) \<and> mr_change r \<and> c \<noteq> CHR ''v''
      then say [To_ops (''Server %s setting +'' @ [c] @ '' and blasting TS on %s'') [S (c_name (sender cx r)), S (ch_chname (chan cx r))]]
             (on_chan cx (\<lambda>ch. ch\<lparr>ch_channelts := 0\<rparr>) r)
      else r)"

definition mode_member :: "mode_ctx \<Rightarrow> int \<Rightarrow> u32 \<Rightarrow> char \<Rightarrow> mode_run \<Rightarrow> mode_run" where
  "mode_member cx lev f c r =
     (if check_level (mc_level cx) lev (sender cx r) then fail SM_ERR_NOPRIVS r
      else
        (case mr_args r of
           [] \<Rightarrow> r
         | a # _ \<Rightarrow>
             (let r = count_param r in
              if too_many cx r then eat_arg r
              else
                (case find_chasing cx (cs_clients (mr_st r)) a of
                   (who, _, out) \<Rightarrow>
                     (let r = say out r in
                      case Option.bind who (find_user_member (ch_members (chan cx r))) of
                        None \<Rightarrow>
                          eat_arg (say [To_one (mc_sptr cx) ''ERR_USERNOTINCHANNEL''
                            [S (mc_me cx), S (cptr_name cx r), S a, S (ch_chname (chan cx r))]] r)
                      | Some cm \<Rightarrow>
                          if no_room cx r (NICKLEN + 1) then eat_arg r
                          else
                            blast_ts cx c
                              (eat_arg (ADD_PARA (c_name (cs_clients (mr_st r) (cm_cptr cm))) (add_letter c
                                (on_chan cx (set_member (cm\<lparr>cm_flags := set_flag (mr_change r) f (cm_flags cm)\<rparr>)) r)))))))))"

text \<open>The lists I, e and b.\<close>

datatype list_kind = Invite_list | Exempt_list | Ban_list

fun list_letter :: "list_kind \<Rightarrow> char" where
  "list_letter Invite_list = CHR ''I''"
| "list_letter Exempt_list = CHR ''e''"
| "list_letter Ban_list = CHR ''b''"

fun list_name :: "list_kind \<Rightarrow> cstr" where
  "list_name Invite_list = ''INVITELIST''"
| "list_name Exempt_list = ''EXEMPTLIST''"
| "list_name Ban_list = ''BANLIST''"

fun list_entries :: "list_kind \<Rightarrow> aChannel \<Rightarrow> (cstr \<times> cstr \<times> time_t) list" where
  "list_entries Invite_list ch = map (\<lambda>i. (invstr i, inv_who i, inv_when i)) (ch_invite_list ch)"
| "list_entries Exempt_list ch = map (\<lambda>b. (banstr b, ban_who b, ban_when b)) (ch_banexempt_list ch)"
| "list_entries Ban_list ch = map (\<lambda>b. (banstr b, ban_who b, ban_when b)) (ch_banlist ch)"

fun list_add :: "list_kind \<Rightarrow> cstr \<Rightarrow> time_t \<Rightarrow> addr \<Rightarrow> aClient \<Rightarrow> aChannel \<Rightarrow> cstr \<Rightarrow> int \<times> aChannel \<times> out_msg list" where
  "list_add Invite_list = add_invite_id"
| "list_add Exempt_list = add_exempt_id"
| "list_add Ban_list = add_banid"

fun list_del :: "list_kind \<Rightarrow> aChannel \<Rightarrow> cstr option \<Rightarrow> int \<times> aChannel" where
  "list_del Invite_list = del_invite_id"
| "list_del Exempt_list = del_exempt_id"
| "list_del Ban_list = del_banid"

definition show_list :: "mode_ctx \<Rightarrow> list_kind \<Rightarrow> mode_run \<Rightarrow> mode_run" where
  "show_list cx k r =
     (let hd = [S (mc_me cx), S (cptr_name cx r), S (ch_chname (chan cx r))] in
      if mr_listsent r then r
      else (say (map (\<lambda>(str, who, when). To_one (mc_sptr cx) (''RPL_'' @ list_name k) (hd @ [S str, S who, D when])) (list_entries k (chan cx r)) @
                 [To_one (mc_cptr cx) (''RPL_ENDOF'' @ list_name k) hd]) r)\<lparr>mr_listsent := True\<rparr>)"

text \<open>\<^verbatim>\<open>*s == ':' || *s == '\0'\<close>.\<close>

definition colon_or_empty :: "cstr \<Rightarrow> bool" where
  "colon_or_empty s \<longleftrightarrow> s = [] \<or> hd s = CHR '':''"

definition change_list :: "mode_ctx \<Rightarrow> list_kind \<Rightarrow> cstr \<Rightarrow> mode_run \<Rightarrow> bool \<times> mode_run" where
  "change_list cx k nuh r =
     (if mr_change r
      then (case list_add k (mc_me cx) (mc_now cx) (mc_sptr cx) (sender cx r) (chan cx r) nuh of
              (e, ch, out) \<Rightarrow> (e = 0, say out (on_chan cx (\<lambda>_. ch) r)))
      else (case list_del k (chan cx r) (Some nuh) of (e, ch) \<Rightarrow> (e = 0, on_chan cx (\<lambda>_. ch) r)))"

definition mode_list :: "mode_ctx \<Rightarrow> list_kind \<Rightarrow> mode_run \<Rightarrow> mode_run" where
  "mode_list cx k r =
     (case mr_args r of
        [] \<Rightarrow> show_list cx k r
      | a # _ \<Rightarrow>
          if check_level (mc_level cx) 1 (sender cx r) then fail SM_ERR_NOPRIVS r
          else
            (let r = count_param r; nuh = collapse (pretty_mask a) in
             if too_many cx r \<or> colon_or_empty a \<or> no_room cx r (length nuh + 1) then eat_arg r
             else
               (case change_list cx k nuh r of
                  (ok, r) \<Rightarrow> eat_arg (if ok then ADD_PARA nuh (add_letter (list_letter k) r) else r))))"

text \<open>Join rate: the argument \<^verbatim>\<open>num:time\<close> and the limits for local clients.\<close>

definition parse_rate :: "cstr \<Rightarrow> (int \<times> int) option" where
  "parse_rate a =
     (let n = strtol (takeWhile (\<lambda>c. c \<noteq> CHR '':'') a);
          t = (case dropWhile (\<lambda>c. c \<noteq> CHR '':'') a of [] \<Rightarrow> (0, []) | _ # s \<Rightarrow> strtol s) in
      if snd t \<noteq> [] \<or> to_int (fst t) < 0 then None
      else if snd n \<noteq> [] \<or> to_int (fst n) < 0 then None
      else Some (to_int (fst n), to_int (fst t)))"

definition limit_rate :: "int \<times> int \<Rightarrow> int \<times> int" where
  "limit_rate = (\<lambda>(j_num, j_time).
     (let j_time = (if j_time > 60 then 60 else j_time);
          j_num = (if j_num > 60 then 60 else j_num);
          j_num = (if j_num < 4 then 4 else j_num);
          tval = (j_time - 1) sdiv 8 + 1;
          j_num = (if j_num < tval then tval else j_num);
          tval = j_num sdiv 2;
          j_time = (if j_time < tval then tval else j_time) in
      (j_num, j_time)))"

definition rate_text :: "int \<times> int \<Rightarrow> cstr" where
  "rate_text = (\<lambda>(j_num, j_time). if j_num = 0 \<or> j_time = 0 then ''0'' else dec j_num @ '':'' @ dec j_time)"

definition zero_rate :: "int \<times> int \<Rightarrow> int \<times> int" where
  "zero_rate nt = (if fst nt = 0 \<or> snd nt = 0 then (0, 0) else nt)"

definition set_rate :: "mode_ctx \<Rightarrow> bool \<Rightarrow> int \<times> int \<Rightarrow> mode_run \<Rightarrow> mode_run" where
  "set_rate cx pos nt =
     on_chan cx (\<lambda>ch. ch\<lparr>ch_mode := (ch_mode ch)\<lparr>md_mode := set_flag pos MODE_JOINRATE (md_mode (ch_mode ch)),
       md_join_num := fst nt, md_join_time := snd nt\<rparr>, ch_join_start := 0, ch_join_count := 0\<rparr>)"

definition mode_j :: "mode_ctx \<Rightarrow> mode_run \<Rightarrow> mode_run" where
  "mode_j cx r =
     (if check_level (mc_level cx) 1 (sender cx r) then fail SM_ERR_NOPRIVS r
      else if \<not> mr_change r
      then if seen_already cx MODE_JOINRATE r then r
           else (let r = see MODE_JOINRATE r in
                 if no_room cx r 1 then r else add_letter CHR ''j'' (set_rate cx False (0, 0) r))
      else
        (case mr_args r of
           [] \<Rightarrow> fail SM_ERR_MOREPARMS r
         | a # _ \<Rightarrow>
             (let r = count_param r in
              if too_many cx r \<or> seen_already cx MODE_JOINRATE r then eat_arg r
              else
                (let r = see MODE_JOINRATE r in
                 case parse_rate a of
                   None \<Rightarrow> eat_arg r
                 | Some nt \<Rightarrow>
                     (let nt = zero_rate (if MyClient (sender cx r) \<and> mc_level cx < 2 then limit_rate nt else nt); tmp = rate_text nt in
                      if no_room cx r (length tmp) then eat_arg r
                      else eat_arg (ADD_PARA tmp (add_letter CHR ''j'' (set_rate cx True nt r))))))))"

definition set_limit :: "mode_ctx \<Rightarrow> bool \<Rightarrow> int \<Rightarrow> mode_run \<Rightarrow> mode_run" where
  "set_limit cx pos i = on_mode cx (\<lambda>m. m\<lparr>md_mode := set_flag pos MODE_LIMIT (md_mode m), md_limit := i\<rparr>)"

definition mode_l :: "mode_ctx \<Rightarrow> mode_run \<Rightarrow> mode_run" where
  "mode_l cx r =
     (if check_level (mc_level cx) 1 (sender cx r) then fail SM_ERR_NOPRIVS r
      else if \<not> mr_change r
      then if seen_already cx MODE_LIMIT r then r
           else (let r = see MODE_LIMIT r in
                 if no_room cx r 1 then r else add_letter CHR ''l'' (set_limit cx False 0 r))
      else
        (case mr_args r of
           [] \<Rightarrow> fail SM_ERR_MOREPARMS r
         | a # _ \<Rightarrow>
             (let r = count_param r in
              if too_many cx r \<or> seen_already cx MODE_LIMIT r then eat_arg r
              else
                (let r = see MODE_LIMIT r; i = atoi a in
                 if no_room cx r 16 \<or> i < 1 then eat_arg r
                 else eat_arg (ADD_PARA (dec i) (add_letter CHR ''l'' (set_limit cx True i r)))))))"

definition bad_key :: "cstr \<Rightarrow> bool" where
  "bad_key a \<longleftrightarrow> colon_or_empty a \<or> CHR '' '' \<in> set a \<or> CHR ''*'' \<in> set a \<or> CHR '','' \<in> set a"

definition set_key :: "mode_ctx \<Rightarrow> cstr \<Rightarrow> mode_run \<Rightarrow> mode_run" where
  "set_key cx k = on_mode cx (\<lambda>m. m\<lparr>md_key := k\<rparr>)"

definition mode_k :: "mode_ctx \<Rightarrow> mode_run \<Rightarrow> mode_run" where
  "mode_k cx r =
     (if check_level (mc_level cx) 1 (sender cx r) then fail SM_ERR_NOPRIVS r
      else
        (case mr_args r of
           [] \<Rightarrow> r
         | a # _ \<Rightarrow>
             (let r = count_param r in
              if too_many cx r \<or> seen_already cx MODE_KEY r then eat_arg r
              else
                (let r = see MODE_KEY r; key = md_key (ch_mode (chan cx r)) in
                 if bad_key a \<or> no_room cx r (KEYLEN + 2) then eat_arg r
                 else
                   eat_arg (add_letter CHR ''k''
                     (if mr_change r then ADD_PARA (take KEYLEN a) (set_key cx (take KEYLEN a) r)
                      else ADD_PARA (if key = [] then a else key) (set_key cx [] r)))))))"

definition only_servers :: "mode_ctx \<Rightarrow> mode_run \<Rightarrow> mode_run" where
  "only_servers cx r = say [To_one (mc_sptr cx) ''ERR_ONLYSERVERSCANCHANGE'' [S (mc_me cx), S (cptr_name cx r), S (ch_chname (chan cx r))]] r"

text \<open>The modes r and L, which only servers (and for L remote clients) may change.\<close>

definition mode_server :: "mode_ctx \<Rightarrow> bool \<Rightarrow> u32 \<Rightarrow> char \<Rightarrow> mode_run \<Rightarrow> mode_run" where
  "mode_server cx forbidden m c r =
     (if seen_already cx m r then r
      else
        (let r = see m r in
         if forbidden then only_servers cx r
         else if no_room cx r 1 then r
         else add_letter c (on_mode cx (\<lambda>md. md\<lparr>md_mode := set_flag (mr_change r) m (md_mode md)\<rparr>) r)))"

text \<open>The modes of the table.\<close>

definition mode_flags :: "(char \<times> u32) list" where
  "mode_flags =
     [(CHR ''p'', MODE_PRIVATE), (CHR ''s'', MODE_SECRET), (CHR ''m'', MODE_MODERATED), (CHR ''n'', MODE_NOPRIVMSGS),
      (CHR ''t'', MODE_TOPICLIMIT), (CHR ''R'', MODE_REGONLY), (CHR ''i'', MODE_INVITEONLY), (CHR ''c'', MODE_NOCTRL),
      (CHR ''O'', MODE_OPERONLY), (CHR ''M'', MODE_MODREG), (CHR ''N'', MODE_NONICK)]"

definition mode_flag :: "mode_ctx \<Rightarrow> char \<Rightarrow> mode_run \<Rightarrow> mode_run" where
  "mode_flag cx c r =
     (if check_level (mc_level cx) 1 (sender cx r) then fail SM_ERR_NOPRIVS r
      else if no_room cx r 1 then r
      else
        (case map_of mode_flags c of
           Some m \<Rightarrow>
             if seen_already cx m r then r
             else add_letter c (on_mode cx (\<lambda>md. md\<lparr>md_mode := set_flag (mr_change r) m (md_mode md)\<rparr>) (see m r))
         | None \<Rightarrow>
             if MyClient (sender cx r)
             then say [To_one (mc_sptr cx) ''ERR_UNKNOWNMODE'' [S (mc_me cx), S (c_name (sender cx r)), S [c]]] r
             else r))"

definition mode_i :: "mode_ctx \<Rightarrow> mode_run \<Rightarrow> mode_run option" where
  "mode_i cx r =
     (if check_level (mc_level cx) 2 (sender cx r) then Some (fail SM_ERR_NOPRIVS r)
      else
        map_option (\<lambda>st. mode_flag cx CHR ''i'' (r\<lparr>mr_st := st\<rparr>))
          (if mr_change r then Some (mr_st r) else del_invites (ch_invites (chan cx r)) (mc_chp cx) (mr_st r)))"

text \<open>The \<^verbatim>\<open>switch\<close> and the message about missing parameters behind it.\<close>

definition mode_switch :: "mode_ctx \<Rightarrow> char \<Rightarrow> mode_run \<Rightarrow> mode_run option" where
  "mode_switch cx c r =
     (if c = CHR ''+'' \<or> c = CHR ''-'' then Some (mode_sign c r)
      else if c = CHR ''O'' then Some (mode_O cx r)
      else if c = CHR ''o'' then Some (mode_member cx 2 CHFL_CHANOP c r)
      else if c = CHR ''v'' then Some (mode_member cx 1 CHFL_VOICE c r)
      else if c = CHR ''h'' then Some (mode_member cx 2 CHFL_HALFOP c r)
      else if c = CHR ''I'' then Some (mode_list cx Invite_list r)
      else if c = CHR ''e'' then Some (mode_list cx Exempt_list r)
      else if c = CHR ''b'' then Some (mode_list cx Ban_list r)
      else if c = CHR ''j'' then Some (mode_j cx r)
      else if c = CHR ''l'' then Some (mode_l cx r)
      else if c = CHR ''k'' then Some (mode_k cx r)
      else if c = CHR ''r'' then Some (mode_server cx (\<not> IsServer (sender cx r) \<and> \<not> IsULine (sender cx r)) MODE_REGISTERED c r)
      else if c = CHR ''L'' then Some (mode_server cx (MyClient (sender cx r)) MODE_LISTED c r)
      else if c = CHR ''i'' then mode_i cx r
      else Some (mode_flag cx c r))"

definition more_params :: "mode_ctx \<Rightarrow> char \<Rightarrow> mode_run \<Rightarrow> mode_run" where
  "more_params cx c r =
     (if has_flag (mr_errors r) SM_ERR_MOREPARMS \<and> MyClient (sender cx r)
      then (say [To_one (mc_sptr cx) ''ERR_NEEDMOREPARAMS''
              [S (mc_me cx), S (c_name (sender cx r)), S (''MODE '' @ [if mr_change r then CHR ''+'' else CHR ''-'', c])]] r)
             \<lparr>mr_errors := mr_errors r AND NOT SM_ERR_MOREPARMS\<rparr>
      else r)"

fun mode_loop :: "mode_ctx \<Rightarrow> cstr \<Rightarrow> mode_run \<Rightarrow> mode_run option" where
  "mode_loop cx [] r = Some r"
| "mode_loop cx (c # cs) r = Option.bind (mode_switch cx c r) (\<lambda>r. mode_loop cx cs (more_params cx c r))"

definition start_run :: "mode_ctx \<Rightarrow> cstr list \<Rightarrow> chan_state \<Rightarrow> mode_run" where
  "start_run cx args st =
     \<lparr>mr_st = st, mr_args = args, mr_change = True, mr_mbuf = ''+'', mr_pbuf = [], mr_nmodes = 0, mr_nparams = 0, mr_seen = 0,
      mr_errors = 0, mr_listsent = IsServer (cs_clients st (mc_sptr cx)), mr_out = []\<rparr>"

definition strip_sign :: "cstr \<Rightarrow> cstr" where
  "strip_sign m = (if last m = CHR ''+'' \<or> last m = CHR ''-'' then butlast m else m)"

definition final_errors :: "mode_ctx \<Rightarrow> mode_run \<Rightarrow> out_msg list" where
  "final_errors cx r =
     (if MyClient (sender cx r)
      then (if has_flag (mr_errors r) SM_ERR_NOPRIVS
            then [To_one (mc_sptr cx) ''ERR_CHANOPRIVSNEEDED'' [S (mc_me cx), S (c_name (sender cx r)), S (ch_chname (chan cx r))]] else []) @
           (if has_flag (mr_errors r) SM_ERR_NOTOPER
            then [To_one (mc_sptr cx) ''ERR_NOPRIVILEGES'' [S (mc_me cx), S (c_name (sender cx r))]] else [])
      else [])"

text \<open>
  \<open>set_mode\<close>: the number of changes, the two buffers (\<open>None\<close> when they are not touched), the new state and
  what was sent.  \<open>None\<close> as a whole is a write behind one of the buffers of
  \<open>REALMODEBUFLEN\<close> bytes, or an invitation of a client without a user.  The buffers only grow, so it is
  enough to look at them in the end.
\<close>

definition overrun :: "mode_run \<Rightarrow> bool" where
  "overrun r \<longleftrightarrow>
     length (mr_mbuf r) > REALMODEBUFLEN \<or> length (strip_sign (mr_mbuf r)) \<ge> REALMODEBUFLEN \<or> length (mr_pbuf r) \<ge> REALMODEBUFLEN"

definition set_mode :: "mode_ctx \<Rightarrow> cstr list \<Rightarrow> chan_state \<Rightarrow> (int \<times> (cstr \<times> cstr) option \<times> chan_state \<times> out_msg list) option" where
  "set_mode cx parv st =
     (case parv of
        [] \<Rightarrow> Some (0, None, st, [])
      | modes # args \<Rightarrow>
          Option.bind (mode_loop cx modes (start_run cx args st)) (\<lambda>r.
            if overrun r then None
            else Some (mr_nmodes r, Some (strip_sign (mr_mbuf r), mr_pbuf r), mr_st r, mr_out r @ final_errors cx r)))"

subsection \<open>The text of the modes\<close>

definition shows_params :: "chan_state \<Rightarrow> addr \<Rightarrow> addr \<Rightarrow> bool" where
  "shows_params st p chp \<longleftrightarrow> IsMember st p chp \<or> IsServer (cs_clients st p) \<or> IsULine (cs_clients st p)"

definition mode_letters :: "(u32 \<times> char) list" where
  "mode_letters =
     [(MODE_SECRET, CHR ''s''), (MODE_PRIVATE, CHR ''p''), (MODE_MODERATED, CHR ''m''), (MODE_TOPICLIMIT, CHR ''t''),
      (MODE_INVITEONLY, CHR ''i''), (MODE_NOPRIVMSGS, CHR ''n''), (MODE_REGISTERED, CHR ''r''), (MODE_REGONLY, CHR ''R''),
      (MODE_NOCTRL, CHR ''c''), (MODE_OPERONLY, CHR ''O''), (MODE_NONICK, CHR ''N''), (MODE_MODREG, CHR ''M'')]"

definition add_word :: "cstr \<Rightarrow> cstr \<Rightarrow> cstr" where
  "add_word w pbuf = (if pbuf \<noteq> [] then pbuf @ '' '' @ w else w)"

definition channel_modes :: "chan_state \<Rightarrow> addr \<Rightarrow> addr \<Rightarrow> cstr \<times> cstr" where
  "channel_modes st p chp =
     (let m = ch_mode (cs_channels st chp); shown = shows_params st p chp;
          mbuf = CHR ''+'' # map snd (filter (\<lambda>(f, _). has_flag (md_mode m) f) mode_letters);
          (mbuf, pbuf) = (if md_limit m \<noteq> 0 then (mbuf @ ''l'', if shown then dec (md_limit m) else []) else (mbuf, []));
          (mbuf, pbuf) = (if md_key m \<noteq> [] then (mbuf @ ''k'', if shown then add_word (md_key m) pbuf else pbuf) else (mbuf, pbuf)) in
      if has_flag (md_mode m) MODE_JOINRATE
      then (mbuf @ ''j'', if shown then add_word (rate_text (md_join_num m, md_join_time m)) pbuf else pbuf)
      else (mbuf, pbuf))"

subsection \<open>The commands MODE and SAMODE\<close>

datatype mode_outcome = Call_m_umode | Mode_done chan_state "out_msg list"

definition chanop_level :: "chan_state \<Rightarrow> addr \<Rightarrow> addr \<Rightarrow> int" where
  "chanop_level st p chp =
     (let s = cs_clients st p; ch = cs_channels st chp in
      if IsULine s \<and> \<not> MyClient s then 4
      else if IsSAdmin s \<and> is_chan_op p (Some ch) = 0 \<and> is_halfop p (Some ch) = 0 \<and> \<not> IsULine s \<and> \<not> MyClient s then 3
      else if is_chan_op p (Some ch) \<noteq> 0 \<or> (IsServer s \<and> ch_channelts ch \<noteq> 0) then 2
      else if is_only_halfop p (Some ch) \<noteq> 0 then 1
      else 0)"

definition announce_modes :: "mode_ctx \<Rightarrow> cstr \<Rightarrow> cstr \<Rightarrow> cstr \<Rightarrow> chan_state \<Rightarrow> out_msg list" where
  "announce_modes cx parv0 mb pb st =
     (let ch = cs_channels st (mc_chp cx) in
      (if mc_level cx = 3 \<and> MyClient (cs_clients st (mc_sptr cx))
       then [To_ops ''OperMode on Channel (%s), by %s.  Modes: %s%s%s''
               [S (ch_chname ch), S parv0, S mb, S (if pb \<noteq> [] then '' '' else []), S pb]] else []) @
      [To_channel (mc_chp cx) (mc_sptr cx) '':%s MODE %s %s %s'' [S parv0, S (ch_chname ch), S mb, S pb],
       To_servers (Some (mc_cptr cx)) '':%s MODE %s %ld %s %s'' [S parv0, S (ch_chname ch), D (ch_channelts ch), S mb, S pb]])"

text \<open>
  \<open>m_mode\<close> with its parameters \<open>parv\<close>; the fields \<open>mc_chp\<close> and \<open>mc_level\<close> of the context are
  filled in here.  \<open>set_mode\<close> never returns \<^verbatim>\<open>-1\<close>.
\<close>

definition m_mode :: "mode_ctx \<Rightarrow> cstr list \<Rightarrow> chan_state \<Rightarrow> mode_outcome option" where
  "m_mode cx0 parv st =
     (case parv of
        parv0 # name # ps \<Rightarrow>
          (case find_channel st name of
             None \<Rightarrow> Some Call_m_umode
           | Some chp \<Rightarrow>
               (let cx = cx0\<lparr>mc_chp := chp, mc_level := chanop_level st (mc_sptr cx0) chp\<rparr>;
                    s = cs_clients st (mc_sptr cx); ch = cs_channels st chp;
                    (ok, out) = check_channelname (mc_me cx) (mc_sptr cx) s name in
                if \<not> ok then Some (Mode_done st out)
                else
                  (case ps of
                     [] \<Rightarrow>
                       (case channel_modes st (mc_sptr cx) chp of
                          (mb, pb) \<Rightarrow>
                            Some (Mode_done st
                              [To_one (mc_sptr cx) ''RPL_CHANNELMODEIS'' [S (mc_me cx), S parv0, S (ch_chname ch), S mb, S pb],
                               To_one (mc_sptr cx) ''RPL_CREATIONTIME'' [S (mc_me cx), S parv0, S (ch_chname ch), D (ch_channelts ch)]]))
                   | p2 # rest \<Rightarrow>
                       (let ts = IsServer (cs_clients st (mc_cptr cx)) \<and> p2 \<noteq> [] \<and> IsDigit (hd p2) in
                        if ts \<and> atol p2 \<noteq> 0 \<and> atol p2 > ch_channelts ch then Some (Mode_done st [])
                        else
                          map_option (\<lambda>(mcount, bufs, st1, out).
                            Mode_done st1 (out @
                              (case bufs of
                                 Some (mb, pb) \<Rightarrow> if length mb > 1 \<and> mcount \<noteq> 0 then announce_modes cx parv0 mb pb st1 else []
                               | None \<Rightarrow> [])))
                            (set_mode cx (if ts then rest else ps) st)))))
      | [parv0] \<Rightarrow> Some (Mode_done st [To_one (mc_sptr cx0) ''ERR_NEEDMOREPARAMS'' [S (mc_me cx0), S parv0, S ''MODE'']])
      | [] \<Rightarrow> None)"

definition m_samode :: "mode_ctx \<Rightarrow> cstr list \<Rightarrow> chan_state \<Rightarrow> (chan_state \<times> out_msg list) option" where
  "m_samode cx0 parv st =
     (let s = cs_clients st (mc_sptr cx0); parv0 = hd parv in
      if \<not> MyClient s then Some (st, [])
      else if \<not> IsAnOper s \<or> \<not> IsSAdmin s then Some (st, [To_one (mc_sptr cx0) ''ERR_NOPRIVILEGES'' [S (mc_me cx0), S parv0]])
      else
        (case parv of
           _ # name # m # rest \<Rightarrow>
             (case find_channel st name of
                None \<Rightarrow> Some (st, [])
              | Some chp \<Rightarrow>
                  (let cx = cx0\<lparr>mc_chp := chp, mc_level := 2\<rparr>; chname = ch_chname (cs_channels st chp);
                       (ok, out) = check_channelname (mc_me cx) (mc_sptr cx) s name in
                   if \<not> ok then Some (st, out)
                   else
                     map_option (\<lambda>(mcount, bufs, st1, out).
                       (st1, out @
                         (case bufs of
                            Some (mb, pb) \<Rightarrow>
                              if length mb > 1
                              then (let used = [S (mc_me cx), S (c_name s), S chname, S mb, S (if pb \<noteq> [] then '' '' else []), S pb] in
                                    [To_members chp (mc_sptr cx) '':%s MODE %s %s %s'' [S parv0, S chname, S mb, S pb],
                                     To_servers (Some (mc_cptr cx)) '':%s MODE %s 0 %s %s'' [S parv0, S chname, S mb, S pb],
                                     To_servers None '':%s GLOBOPS :%s used SAMODE (%s %s%s%s)'' used,
                                     To_globops ''from %s: %s used SAMODE (%s %s%s%s)'' used])
                              else []
                          | None \<Rightarrow> [])))
                       (set_mode cx (m # rest) st)))
         | _ \<Rightarrow> Some (st, [To_one (mc_sptr cx0) ''ERR_NEEDMOREPARAMS'' [S (mc_me cx0), S parv0, S ''SAMODE'']])))"

end
