(* ===== verification/Channel_Burst.thy ===== *)
theory Channel_Burst
  imports Channel_Modes
begin

section \<open>Channels between servers: the burst and SJOIN (src/src/channel.c)\<close>

text \<open>
  What a server sends about a channel when a link comes up (\<open>send_channel_modes\<close>), and what the
  other side does with it (\<open>m_sjoin\<close>): time stamps decide whose modes and whose operators
  survive.  The build is the one shipped, without \<^verbatim>\<open>OLD_WEIRD_CHANOP_NEGOTIATION\<close>.
\<close>

definition MAXMODEPARAMS :: nat where "MAXMODEPARAMS = MAXPARA - 4"

subsection \<open>Lists of masks as MODE messages\<close>

text \<open>
  The loops of \<open>send_channel_lists\<close> and \<open>kill_ban_list\<close> over one list of masks: the buffers
  \<^verbatim>\<open>modebuf\<close>, \<^verbatim>\<open>parabuf\<close> and \<^verbatim>\<open>count\<close> are \<open>(m, para, count)\<close>, \<open>sign\<close>, \<open>margin\<close>
  and \<open>maxp\<close> is what differs between the two functions.  The result is what was sent and the buffers.
\<close>

fun put_masks :: "char \<Rightarrow> nat \<Rightarrow> nat \<Rightarrow> char \<Rightarrow> cstr list \<Rightarrow> cstr \<times> cstr \<times> nat \<Rightarrow> (cstr \<times> cstr) list \<times> (cstr \<times> cstr \<times> nat)" where
  "put_masks sign margin maxp l [] b = ([], b)"
| "put_masks sign margin maxp l (x # xs) (m, para, count) =
     (let fits = length para + length x + margin < MODEBUFLEN;
          para1 = (if fits then add_word x para else para);
          m1 = (if fits then m @ [l] else m);
          count1 = (if fits then count + 1 else count) in
      if \<not> fits \<and> para \<noteq> [] \<or> count1 = maxp
      then (case put_masks sign margin maxp l xs (if count1 \<noteq> maxp then ([sign, l], x, 1) else ([sign], [], 0)) of
              (sent, b) \<Rightarrow> ((m1, para1) # sent, b))
      else put_masks sign margin maxp l xs (m1, para1, count1))"

fun put_lists :: "char \<Rightarrow> nat \<Rightarrow> nat \<Rightarrow> (char \<times> cstr list) list \<Rightarrow> cstr \<times> cstr \<times> nat \<Rightarrow> (cstr \<times> cstr) list \<times> (cstr \<times> cstr \<times> nat)" where
  "put_lists sign margin maxp [] b = ([], b)"
| "put_lists sign margin maxp ((l, xs) # ls) b =
     (case put_masks sign margin maxp l xs b of
        (sent, b1) \<Rightarrow> (case put_lists sign margin maxp ls b1 of (sent1, b2) \<Rightarrow> (sent @ sent1, b2)))"

definition channel_lists :: "aChannel \<Rightarrow> (char \<times> cstr list) list" where
  "channel_lists ch =
     [(CHR ''b'', map banstr (ch_banlist ch)), (CHR ''e'', map banstr (ch_banexempt_list ch)), (CHR ''I'', map invstr (ch_invite_list ch))]"

definition send_channel_lists :: "aChannel \<Rightarrow> cstr \<times> cstr \<Rightarrow> (cstr \<times> cstr) list \<times> (cstr \<times> cstr)" where
  "send_channel_lists ch = (\<lambda>(mb, pb).
     (case put_lists CHR ''+'' 20 MAXTSMODEPARAMS (channel_lists ch) (mb, pb, if pb \<noteq> [] then 1 else 0) of
        (sent, (mb1, pb1, _)) \<Rightarrow> (sent, (mb1, pb1))))"

definition kill_ban_list :: "addr \<Rightarrow> aClient \<Rightarrow> addr \<Rightarrow> aChannel \<Rightarrow> aChannel \<times> out_msg list" where
  "kill_ban_list p c chp ch =
     (case put_lists CHR ''-'' 10 MAXMODEPARAMS (channel_lists ch) (''-'', [], 0) of
        (sent, (mb, pb, _)) \<Rightarrow>
          (ch\<lparr>ch_banlist := [], ch_banexempt_list := [], ch_invite_list := [], ch_banserial := ch_banserial ch + 1\<rparr>,
           map (\<lambda>(m, para). To_channel chp p '':%s MODE %s %s %s'' [S (c_name c), S (ch_chname ch), S m, S para])
             (sent @ (if pb \<noteq> [] then [(mb, pb)] else []))))"

subsection \<open>The members\<close>

definition status_prefix :: "u32 \<Rightarrow> cstr" where
  "status_prefix fl =
     (if has_flag fl CHFL_CHANOP then ''@'' else []) @ (if has_flag fl CHFL_HALFOP then ''%'' else []) @
     (if has_flag fl CHFL_VOICE then ''+'' else [])"

text \<open>An operator or half operator comes first, if there is one.\<close>

definition burst_order :: "chanMember list \<Rightarrow> chanMember list" where
  "burst_order ms =
     (case find (\<lambda>m. has_flag (cm_flags m) (CHFL_CHANOP OR CHFL_HALFOP)) ms of
        Some anop \<Rightarrow> anop # remove1 anop ms
      | None \<Rightarrow> ms)"

text \<open>
  The loop over the members: \<open>buf\<close> is the text written so far, \<open>n\<close> the number of members in it.
  The test for a blank in front of the NUL looks at the NUL itself, so the last blank stays.
\<close>

fun put_members :: "cstr \<Rightarrow> cstr list \<Rightarrow> cstr \<Rightarrow> nat \<Rightarrow> cstr list" where
  "put_members hdr [] buf n = (if n > 0 then [buf] else [])"
| "put_members hdr (x # xs) buf n =
     (let buf1 = buf @ x @ '' '' in
      if length buf1 > BUFSIZE - 80 then buf1 # put_members hdr xs hdr 0 else put_members hdr xs buf1 (n + 1))"

definition sjoin_header :: "cstr \<Rightarrow> aChannel \<Rightarrow> cstr \<Rightarrow> cstr" where
  "sjoin_header me_name ch modes =
     CHR '':'' # me_name @ '' SJOIN '' @ dec (ch_channelts ch) @ '' '' @ ch_chname ch @ '' '' @ modes @ '' :''"

definition member_words :: "clients \<Rightarrow> chanMember list \<Rightarrow> cstr list" where
  "member_words cs ms = map (\<lambda>m. status_prefix (cm_flags m) @ c_name (cs (cm_cptr m))) ms"

definition send_channel_modes :: "cstr \<Rightarrow> addr \<Rightarrow> addr \<Rightarrow> chan_state \<Rightarrow> out_msg list" where
  "send_channel_modes me_name cptr chp st =
     (let ch = cs_channels st chp in
      if ch_chname ch = [] \<or> hd (ch_chname ch) \<noteq> CHR ''#'' then []
      else
        (let (mb, pb) = channel_modes st cptr chp;
             sjoins = put_members (sjoin_header me_name ch ''0'') (member_words (cs_clients st) (burst_order (ch_members ch)))
                        (sjoin_header me_name ch (mb @ '' '' @ pb)) 0;
             (sent, (mb1, pb1)) = send_channel_lists ch (''+'', []) in
         map (\<lambda>l. To_one cptr ''%s'' [S l]) sjoins @
         map (\<lambda>(m, para). To_one cptr '':%s MODE %s %ld %s %s'' [S me_name, S (ch_chname ch), D (ch_channelts ch), S m, S para])
           (sent @ (if length mb1 > 1 \<or> pb1 \<noteq> [] then [(mb1, pb1)] else []))))"

definition m_resynch :: "cstr \<Rightarrow> addr \<Rightarrow> cstr list \<Rightarrow> chan_state \<Rightarrow> out_msg list" where
  "m_resynch me_name sptr parv st =
     (let s = cs_clients st sptr in
      if \<not> MyConnect s \<or> \<not> IsServer s then []
      else
        (case parv of
           parv0 # name # _ \<Rightarrow>
             To_realops ''%s is requesting a resynch of %s%s''
               [S parv0, S name, S (if find_channel st name = None then '' [failed]'' else [])] #
             (case find_channel st name of None \<Rightarrow> [] | Some chp \<Rightarrow> send_channel_modes me_name sptr chp st)
         | _ \<Rightarrow> []))"

subsection \<open>SJOIN: the modes of the message\<close>

definition sjoin_flags :: "(char \<times> u32) list" where
  "sjoin_flags =
     [(CHR ''i'', MODE_INVITEONLY), (CHR ''n'', MODE_NOPRIVMSGS), (CHR ''p'', MODE_PRIVATE), (CHR ''s'', MODE_SECRET),
      (CHR ''m'', MODE_MODERATED), (CHR ''t'', MODE_TOPICLIMIT), (CHR ''r'', MODE_REGISTERED), (CHR ''R'', MODE_REGONLY),
      (CHR ''M'', MODE_MODREG), (CHR ''c'', MODE_NOCTRL), (CHR ''O'', MODE_OPERONLY), (CHR ''N'', MODE_NONICK)]"

text \<open>
  The loop over the letters: \<open>ps\<close> is \<^verbatim>\<open>parv + 4 + args\<close>.  A letter that takes a parameter reads
  it (a null pointer when there is none: \<open>Sj_crash\<close>), and behind it there must be one more, the members
  (\<^verbatim>\<open>parc < 5 + args\<close>: \<open>Sj_stop\<close>, the command returns).
\<close>

datatype sj_modes = Sj_crash | Sj_stop | Sj_ok Mode "cstr list"

definition sj_rate :: "cstr \<Rightarrow> Mode \<Rightarrow> Mode" where
  "sj_rate a m =
     m\<lparr>md_mode := md_mode m OR MODE_JOINRATE,
       md_join_time := (case snd (split_first CHR '':'' a) of None \<Rightarrow> 0 | Some t \<Rightarrow> atoi t),
       md_join_num := atoi (fst (split_first CHR '':'' a))\<rparr>"

fun sjoin_modes :: "cstr \<Rightarrow> cstr list \<Rightarrow> Mode \<Rightarrow> sj_modes" where
  "sjoin_modes [] ps m = Sj_ok m ps"
| "sjoin_modes (c # cs) ps m =
     (case map_of sjoin_flags c of
        Some f \<Rightarrow> sjoin_modes cs ps (m\<lparr>md_mode := md_mode m OR f\<rparr>)
      | None \<Rightarrow>
          if c = CHR ''k'' \<or> c = CHR ''j'' \<or> c = CHR ''l''
          then
            (case ps of
               [] \<Rightarrow> Sj_crash
             | a # rest \<Rightarrow>
                 if rest = [] then Sj_stop
                 else sjoin_modes cs rest
                   (if c = CHR ''k'' then m\<lparr>md_key := strncpyzt a (KEYLEN + 1)\<rparr>
                    else if c = CHR ''j'' then sj_rate a m
                    else m\<lparr>md_limit := atoi a\<rparr>))
          else sjoin_modes cs ps m)"

definition no_modes :: Mode where
  "no_modes = \<lparr>md_mode = 0, md_limit = 0, md_key = [], md_join_num = 0, md_join_time = 0\<rparr>"

text \<open>\<^verbatim>\<open>strcmp(a, b) > 0\<close> on unsigned bytes.\<close>

fun strcmp_greater :: "cstr \<Rightarrow> cstr \<Rightarrow> bool" where
  "strcmp_greater [] b = False"
| "strcmp_greater (x # xs) [] = True"
| "strcmp_greater (x # xs) (y # ys) = (if x = y then strcmp_greater xs ys else (of_char x :: nat) > of_char y)"

definition sj_merge_rate :: "Mode \<Rightarrow> Mode \<Rightarrow> Mode" where
  "sj_merge_rate old m =
     (if has_flag (md_mode old) MODE_JOINRATE \<and>
         \<not> (has_flag (md_mode m) MODE_JOINRATE \<and> md_join_num m = 0) \<and>
         \<not> (md_join_num old \<noteq> 0 \<and> md_join_num m > md_join_num old) \<and>
         \<not> (md_join_num m = md_join_num old \<and> md_join_time m < md_join_time old)
      then m\<lparr>md_join_num := md_join_num old, md_join_time := md_join_time old\<rparr> else m)"

definition sj_merge :: "Mode \<Rightarrow> Mode \<Rightarrow> Mode" where
  "sj_merge old m =
     (let m = (if md_limit old > md_limit m then m\<lparr>md_limit := md_limit old\<rparr> else m);
          m = (if md_key old \<noteq> [] \<and> (md_key m = [] \<or> strcmp_greater (md_key m) (md_key old)) then m\<lparr>md_key := md_key old\<rparr> else m);
          m = sj_merge_rate old m in
      m\<lparr>md_mode := md_mode m OR md_mode old\<rparr>)"

subsection \<open>SJOIN: the changes told to the members\<close>

text \<open>The text of mode changes under construction: \<open>sb_what\<close> is the sign written last (0 none, 1 plus, -1 minus).\<close>

record sj_buf =
  sb_m :: cstr
  sb_p :: cstr
  sb_what :: int
  sb_pargs :: nat

definition INSERTSIGN :: "int \<Rightarrow> sj_buf \<Rightarrow> sj_buf" where
  "INSERTSIGN x b =
     (if sb_what b \<noteq> x then b\<lparr>sb_m := sb_m b @ [if x = 1 then CHR ''+'' else CHR ''-''], sb_what := x\<rparr> else b)"

definition put_change :: "int \<times> char \<times> cstr option \<Rightarrow> sj_buf \<Rightarrow> sj_buf" where
  "put_change = (\<lambda>(x, c, par) b.
     (let b = INSERTSIGN x b; b = b\<lparr>sb_m := sb_m b @ [c]\<rparr> in
      case par of None \<Rightarrow> b | Some p \<Rightarrow> b\<lparr>sb_p := add_word p (sb_p b), sb_pargs := sb_pargs b + 1\<rparr>))"

definition sj_letters :: "(char \<times> u32) list" where
  "sj_letters =
     [(CHR ''p'', MODE_PRIVATE), (CHR ''s'', MODE_SECRET), (CHR ''m'', MODE_MODERATED), (CHR ''n'', MODE_NOPRIVMSGS),
      (CHR ''t'', MODE_TOPICLIMIT), (CHR ''i'', MODE_INVITEONLY), (CHR ''r'', MODE_REGISTERED), (CHR ''R'', MODE_REGONLY),
      (CHR ''M'', MODE_MODREG), (CHR ''c'', MODE_NOCTRL), (CHR ''O'', MODE_OPERONLY), (CHR ''N'', MODE_NONICK)]"

definition flag_changes :: "int \<Rightarrow> u32 \<Rightarrow> u32 \<Rightarrow> (int \<times> char \<times> cstr option) list" where
  "flag_changes x now before = map (\<lambda>(c, _). (x, c, None)) (filter (\<lambda>(_, f). has_flag now f \<and> \<not> has_flag before f) sj_letters)"

definition sj_changes :: "Mode \<Rightarrow> Mode \<Rightarrow> (int \<times> char \<times> cstr option) list" where
  "sj_changes old m =
     (if md_mode m \<noteq> md_mode old then flag_changes 1 (md_mode m) (md_mode old) @ flag_changes (- 1) (md_mode old) (md_mode m) else []) @
     (let oj = has_flag (md_mode old) MODE_JOINRATE; nj = has_flag (md_mode m) MODE_JOINRATE in
      (if oj \<and> \<not> nj then [(- 1, CHR ''j'', None)] else []) @
      (if nj \<and> (\<not> oj \<or> md_join_num old \<noteq> md_join_num m \<or> md_join_time old \<noteq> md_join_time m)
       then [(1, CHR ''j'', Some (rate_text (md_join_num m, md_join_time m)))] else [])) @
     (if md_limit old \<noteq> 0 \<and> md_limit m = 0 then [(- 1, CHR ''l'', None)] else []) @
     (if md_limit m \<noteq> 0 \<and> md_limit old \<noteq> md_limit m then [(1, CHR ''l'', Some (dec (md_limit m)))] else []) @
     (if md_key old \<noteq> [] \<and> md_key m = [] then [(- 1, CHR ''k'', Some (md_key old))] else []) @
     (if md_key m \<noteq> [] \<and> md_key old \<noteq> md_key m then [(1, CHR ''k'', Some (md_key m))] else [])"

definition empty_buf :: sj_buf where
  "empty_buf = \<lparr>sb_m = [], sb_p = [], sb_what = 0, sb_pargs = 0\<rparr>"

text \<open>\<open>sjoin_sendit\<close>, and what it is called with when a buffer is full.\<close>

definition sjoin_sendit :: "addr \<Rightarrow> addr \<Rightarrow> aChannel \<Rightarrow> cstr \<Rightarrow> sj_buf \<Rightarrow> out_msg" where
  "sjoin_sendit sptr chp ch from b = To_channel chp sptr '':%s MODE %s %s %s'' [S from, S (ch_chname ch), S (sb_m b), S (sb_p b)]"

text \<open>
  One status of one member: \<open>emp\<close> is what a full buffer is reset to (\<open>empty_buf\<close>, or one
  with a plus for the new members).
\<close>

definition put_status :: "sj_buf \<Rightarrow> int \<Rightarrow> u32 \<Rightarrow> u32 \<Rightarrow> char \<Rightarrow> cstr \<Rightarrow> sj_buf list \<times> sj_buf \<Rightarrow> sj_buf list \<times> sj_buf" where
  "put_status emp x fl f c name = (\<lambda>(sent, b).
     (if has_flag fl f
      then (let b = put_change (x, c, Some name) b in if sb_pargs b \<ge> MAXMODEPARAMS then (sent @ [b], emp) else (sent, b))
      else (sent, b)))"

definition put_statuses :: "sj_buf \<Rightarrow> int \<Rightarrow> u32 \<Rightarrow> cstr \<Rightarrow> sj_buf list \<times> sj_buf \<Rightarrow> sj_buf list \<times> sj_buf" where
  "put_statuses emp x fl name s =
     put_status emp x fl CHFL_VOICE CHR ''v'' name (put_status emp x fl CHFL_HALFOP CHR ''h'' name (put_status emp x fl CHFL_CHANOP CHR ''o'' name s))"

text \<open>Deop and devoice everyone.\<close>

definition STATUS :: u32 where "STATUS = CHFL_CHANOP OR CHFL_HALFOP OR CHFL_VOICE"

definition drop_status :: "chanMember \<Rightarrow> chanMember" where
  "drop_status m = m\<lparr>cm_flags := cm_flags m AND NOT CHFL_CHANOP AND NOT CHFL_HALFOP AND NOT CHFL_VOICE\<rparr>"

definition deop_all :: "clients \<Rightarrow> aChannel \<Rightarrow> sj_buf \<Rightarrow> aChannel \<times> sj_buf list \<times> sj_buf" where
  "deop_all cs ch b =
     (ch\<lparr>ch_members := map drop_status (ch_members ch)\<rparr>,
      foldl (\<lambda>s m. put_statuses empty_buf (- 1) (cm_flags m) (c_name (cs (cm_cptr m))) s) ([], b\<lparr>sb_what := 0\<rparr>) (ch_members ch))"

subsection \<open>SJOIN: the members\<close>

text \<open>
  The variables of the loop over the names: the state, the number of known people, \<^verbatim>\<open>sjbuf\<close> and the
  mode buffer.  Only the first two bytes of a name are looked at for its status.
\<close>

record sj_run =
  sr_st :: chan_state
  sr_people :: nat
  sr_sjbuf :: cstr
  sr_buf :: sj_buf
  sr_out :: "out_msg list"

definition sj_status :: "bool \<Rightarrow> cstr \<Rightarrow> u32" where
  "sj_status keepnewmodes s =
     (let fl = (if char_at s 0 CHR ''@'' \<or> char_at s 1 CHR ''@'' then CHFL_CHANOP else 0) OR
               (if char_at s 0 CHR ''%'' \<or> char_at s 1 CHR ''%'' then CHFL_HALFOP else 0) OR
               (if char_at s 0 CHR ''+'' \<or> char_at s 1 CHR ''+'' then CHFL_VOICE else 0) in
      if keepnewmodes then fl else if has_flag fl CHFL_CHANOP then CHFL_DEOPPED else 0)"

definition sj_nick :: "cstr \<Rightarrow> cstr" where
  "sj_nick s = dropWhile (\<lambda>c. c = CHR ''@'' \<or> c = CHR ''%'' \<or> c = CHR ''+'') s"

definition plus_buf :: sj_buf where
  "plus_buf = \<lparr>sb_m = ''+'', sb_p = [], sb_what = 1, sb_pargs = 0\<rparr>"

definition sj_member :: "mode_ctx \<Rightarrow> cstr list \<Rightarrow> bool \<Rightarrow> cstr \<Rightarrow> sj_run \<Rightarrow> sj_run" where
  "sj_member cx parv keepnewmodes s0 r =
     (let fl = sj_status keepnewmodes s0; s = sj_nick s0; st = sr_st r in
      case find_chasing cx (cs_clients st) s of
        (None, _, out) \<Rightarrow> r\<lparr>sr_out := sr_out r @ out\<rparr>
      | (Some acptr, _, out) \<Rightarrow>
          if c_from (cs_clients st acptr) \<noteq> mc_cptr cx then r\<lparr>sr_out := sr_out r @ out\<rparr>
          else
            (let new = \<not> IsMember st acptr (mc_chp cx);
                 st1 = (if new then add_user_to_channel (mc_chp cx) acptr fl st else st);
                 (sent, b) = put_statuses plus_buf 1 fl s ([], sr_buf r) in
             \<lparr>sr_st = st1, sr_people = sr_people r + 1, sr_sjbuf = add_word (if keepnewmodes then s0 else s) (sr_sjbuf r), sr_buf = b,
              sr_out = sr_out r @ out @
                (if new then [To_members (mc_chp cx) acptr '':%s JOIN :%s'' [S s, S (parv ! 2)]] else []) @
                map (sjoin_sendit (mc_sptr cx) (mc_chp cx) (cs_channels st1 (mc_chp cx)) (parv ! 0)) sent\<rparr>))"

subsection \<open>SJOIN: the command\<close>

text \<open>A single client joins (\<^verbatim>\<open>:nick SJOIN ts #channel\<close>).\<close>

definition min_ts :: "bool \<Rightarrow> int \<Rightarrow> int \<Rightarrow> int" where
  "min_ts isnew newts oldts =
     (if isnew then newts else if newts = 0 \<or> oldts = 0 then 0 else if newts < oldts then newts else oldts)"

definition client_sjoin :: "mode_ctx \<Rightarrow> cstr list \<Rightarrow> bool \<Rightarrow> bool \<Rightarrow> int \<Rightarrow> chan_state \<Rightarrow> (chan_state \<times> out_msg list) option" where
  "client_sjoin cx parv isnew created newts st =
     (let chp = mc_chp cx; s = cs_clients st (mc_sptr cx); ch = cs_channels st chp; oldts = ch_channelts ch; ts = min_ts isnew newts oldts;
          st1 = upd_chan chp (\<lambda>ch. ch\<lparr>ch_channelts := ts\<rparr>) st;
          joins = \<not> IsMember st1 (mc_sptr cx) chp;
          st2 = (if joins
                 then upd_chan chp (\<lambda>ch. ch\<lparr>ch_join_count := ch_join_count ch + 1, ch_default_join_count := ch_default_join_count ch + 1\<rparr>)
                        (add_user_to_channel chp (mc_sptr cx) 0 st1)
                 else st1) in
      case c_user s of
        None \<Rightarrow> None
      | Some u \<Rightarrow>
          Some (st2,
            (if \<not> isnew \<and> newts \<noteq> 0 \<and> oldts \<noteq> 0 \<and> newts < oldts \<and> \<not> IsULine s
             then [To_realops ''Changing TS for %s from %d to %d on client SJOIN'' [S (ch_chname ch), D oldts, D newts]] else []) @
            (if joins then [To_members chp (mc_sptr cx) '':%s JOIN :%s'' [S (parv ! 0), S (parv ! 2)]] else []) @
            [To_servers (Some (mc_cptr cx)) '':%s SJOIN %ld %s'' [S (parv ! 0), D ts, S (parv ! 2)]] @
            (if created
             then [To_realops ''Requesting resynch of %s from %s (%s!%s@%s[%s] created)''
                     [S (ch_chname ch), S (c_name (cs_clients st (mc_cptr cx))), S (c_name s), S (u_username u), S (u_host u), S (c_hostip s)],
                   To_one (mc_cptr cx) ''RESYNCH %s'' [S (ch_chname ch)]]
             else [])))"

text \<open>The modes of a server's SJOIN: the new channel, whether the modes of the message and our own are kept, and what is sent.\<close>

definition sj_apply :: "mode_ctx \<Rightarrow> cstr list \<Rightarrow> bool \<Rightarrow> int \<Rightarrow> Mode \<Rightarrow> chan_state \<Rightarrow> chan_state \<times> bool \<times> out_msg list" where
  "sj_apply cx parv isnew newts new st =
     (let chp = mc_chp cx; s = cs_clients st (mc_sptr cx); ch = cs_channels st chp; oldts = ch_channelts ch; old = ch_mode ch;
          differ = \<not> isnew \<and> newts \<noteq> 0 \<and> oldts \<noteq> 0;
          keepourmodes = \<not> (differ \<and> newts < oldts); keepnewmodes = \<not> (differ \<and> oldts < newts);
          (ch, out) = (if keepourmodes then (ch, []) else kill_ban_list (mc_sptr cx) s chp ch);
          m = (if \<not> keepnewmodes then old else if keepourmodes then sj_merge old new else new);
          b = fold put_change (sj_changes old m) empty_buf;
          ch = ch\<lparr>ch_channelts := min_ts isnew newts oldts, ch_mode := m\<rparr>;
          (ch1, sent, b) = (if keepourmodes then (ch, [], b) else deop_all (cs_clients st) ch b);
          ch2 = (if keepourmodes then ch1 else ch1\<lparr>ch_topic := []\<rparr>) in
      (upd_chan chp (\<lambda>_. ch2) st, keepnewmodes,
       out @ map (sjoin_sendit (mc_sptr cx) chp ch (parv ! 0)) sent @
       (if keepourmodes then []
        else (if ch_topic ch \<noteq> [] then [To_channel chp (mc_sptr cx) '':%s TOPIC %s :%s'' [S (c_name s), S (ch_chname ch), S []]] else []) @
             [To_members chp (mc_me_addr cx) '':%s NOTICE %s :*** Notice -- TS for %s changed from %ld to %ld''
                [S (mc_me cx), S (ch_chname ch), S (ch_chname ch), D oldts, D newts]]) @
       (if sb_m b \<noteq> [] then [sjoin_sendit (mc_sptr cx) chp ch (parv ! 0) b] else [])))"

definition sj_names :: "mode_ctx \<Rightarrow> cstr list \<Rightarrow> bool \<Rightarrow> cstr \<Rightarrow> chan_state \<Rightarrow> sj_run" where
  "sj_names cx parv keepnewmodes names st =
     foldl (\<lambda>r s0. sj_member cx parv keepnewmodes s0 r)
       \<lparr>sr_st = st, sr_people = 0, sr_sjbuf = [], sr_buf = plus_buf, sr_out = []\<rparr> (strtokens CHR '' '' names)"

definition server_sjoin :: "mode_ctx \<Rightarrow> cstr list \<Rightarrow> bool \<Rightarrow> bool \<Rightarrow> int \<Rightarrow> Mode \<Rightarrow> cstr \<Rightarrow> chan_state \<Rightarrow> (chan_state \<times> out_msg list) option" where
  "server_sjoin cx parv isnew created newts new names st =
     (let chp = mc_chp cx;
          (st1, keepnewmodes, out) = sj_apply cx parv isnew newts new st;
          (mb, pb) = (if \<not> char_at (parv ! 3) 0 CHR ''0'' \<and> keepnewmodes then channel_modes st1 (mc_sptr cx) chp else (''0'', []));
          r = sj_names cx parv keepnewmodes names st1; ch = cs_channels (sr_st r) chp;
          out = out @ sr_out r @ (if sb_pargs (sr_buf r) > 0 then [sjoin_sendit (mc_sptr cx) chp ch (parv ! 0) (sr_buf r)] else []);
          ts = min_ts isnew newts (ch_channelts (cs_channels st chp)) in
      if sr_people r > 0
      then Some (sr_st r, out @
        [if pb \<noteq> []
         then To_servers (Some (mc_cptr cx)) '':%s SJOIN %ld %s %s %s :%s'' [S (parv ! 0), D ts, S (parv ! 2), S mb, S pb, S (sr_sjbuf r)]
         else To_servers (Some (mc_cptr cx)) '':%s SJOIN %ld %s %s :%s'' [S (parv ! 0), D ts, S (parv ! 2), S mb, S (sr_sjbuf r)]])
      else if created \<and> ch_users ch = 0 then map_option (\<lambda>st. (st, out)) (sub1_from_channel chp (sr_st r))
      else Some (sr_st r, out))"

text \<open>
  The whole command.  \<open>None\<close> is a read through a null pointer or a channel name that is too long for
  its field.  The old format has the time stamp twice; the second one is cut out.
\<close>

definition m_sjoin :: "mode_ctx \<Rightarrow> cstr list \<Rightarrow> chan_state \<Rightarrow> (chan_state \<times> out_msg list) option" where
  "m_sjoin cx0 parv0 st =
     (let s = cs_clients st (mc_sptr cx0); parc = length parv0 in
      if MyClient s \<or> parc < 5 \<and> IsServer s \<or> parc < 3 \<and> IsPerson s then Some (st, [])
      else if parc < 3 then None
      else
        (let clientjoin = (parc = 3 \<and> IsPerson s);
             old = (\<not> clientjoin \<and> parv0 ! 2 \<noteq> [] \<and> IsDigit (hd (parv0 ! 2)));
             parv = (if old then take 2 parv0 @ drop 3 parv0 else parv0) in
         if old \<and> parc < 6 then Some (st, [])
         else if \<not> char_at (parv ! 2) 0 CHR ''#'' then Some (st, [])
         else
           (let newts = atol (parv ! 1); isnew = (find_channel st (parv ! 2) = None) in
            Option.bind (get_channel (mc_now cx0) (mc_sptr cx0) (parv ! 2) True st) (\<lambda>(chp, created, st).
            Option.bind chp (\<lambda>chp.
              (let cx = cx0\<lparr>mc_chp := chp\<rparr> in
               if clientjoin then client_sjoin cx parv isnew created newts st
               else if length parv < 4 then None
               else
                 (case sjoin_modes (parv ! 3) (drop 4 parv) no_modes of
                    Sj_crash \<Rightarrow> None
                  | Sj_stop \<Rightarrow> Some (st, [])
                  | Sj_ok m ps \<Rightarrow> (case ps of [] \<Rightarrow> None | names # _ \<Rightarrow> server_sjoin cx parv isnew created newts m names st)))))))) "

end
