(* ===== verification/Mode_Replay.thy ===== *)
theory Mode_Replay
  imports Channel_Modes
begin

section \<open>What is announced about mode changes\<close>

text \<open>
  A server that executes a MODE command sends the changes it made to the other servers, which run the
  same parser on them.  This theory shows that the other servers make the same changes.

  \<open>same_channel\<close> compares what servers have to agree on: modes, key, limit, rate, the members with
  their status (without the cached ban answer), the texts of the three lists, name and timestamp.
\<close>

definition status_of :: "chanMember \<Rightarrow> addr \<times> u32" where
  "status_of m = (cm_cptr m, cm_flags m AND NOT CHFL_BANNED)"

fun list_strs :: "list_kind \<Rightarrow> aChannel \<Rightarrow> cstr list" where
  "list_strs Invite_list ch = map invstr (ch_invite_list ch)"
| "list_strs Exempt_list ch = map banstr (ch_banexempt_list ch)"
| "list_strs Ban_list ch = map banstr (ch_banlist ch)"

definition same_channel :: "aChannel \<Rightarrow> aChannel \<Rightarrow> bool" where
  "same_channel a b \<longleftrightarrow>
     ch_mode a = ch_mode b \<and> map status_of (ch_members a) = map status_of (ch_members b) \<and>
     (\<forall>k. list_strs k a = list_strs k b) \<and> ch_chname a = ch_chname b \<and> ch_channelts a = ch_channelts b"

text \<open>A text that arrives as one parameter of a message.\<close>

definition good_param :: "cstr \<Rightarrow> bool" where
  "good_param p \<longleftrightarrow> \<not> colon_or_empty p \<and> CHR '' '' \<notin> set p"

text \<open>
  The sender as another server sees it: the same client with the same modes, not connected there; and
  everybody has the same name.
\<close>

definition same_clients :: "addr \<Rightarrow> clients \<Rightarrow> clients \<Rightarrow> bool" where
  "same_clients s cs cs' \<longleftrightarrow>
     (\<forall>p. c_name (cs' p) = c_name (cs p)) \<and> c_flags (cs' s) = c_flags (cs s) \<and> c_umode (cs' s) = c_umode (cs s) \<and>
     c_status (cs' s) = c_status (cs s)"

text \<open>The masks of a channel and of a command.\<close>

definition mask_of :: "cstr \<Rightarrow> cstr" where
  "mask_of a = collapse (pretty_mask a)"

definition masks_in :: "cstr set \<Rightarrow> aChannel \<Rightarrow> cstr list \<Rightarrow> bool" where
  "masks_in M ch args \<longleftrightarrow> (\<forall>k. set (list_strs k ch) \<subseteq> M) \<and> (\<forall>a\<in>set args. mask_of a \<in> M)"

text \<open>Masks that match their own text and are not changed when they are cleaned again.\<close>

definition plain_masks :: "cstr set \<Rightarrow> bool" where
  "plain_masks M \<longleftrightarrow> (\<forall>e\<in>M. \<forall>x\<in>M. mycmp e x = 0 \<longrightarrow> match e x = 0)"

definition stable_masks :: "cstr list \<Rightarrow> bool" where
  "stable_masks args \<longleftrightarrow> (\<forall>a\<in>set args. mask_of (mask_of a) = mask_of a)"

subsection \<open>Parts of a channel\<close>

lemma same_channel_refl: "same_channel a a"
  by (simp add: same_channel_def)

lemma same_channel_trans: "same_channel a b \<Longrightarrow> same_channel b c \<Longrightarrow> same_channel a c"
  by (simp add: same_channel_def)

lemma same_channel_sym: "same_channel a b \<Longrightarrow> same_channel b a"
  by (simp add: same_channel_def)

lemma same_channel_members:
  assumes "same_channel a b"
  shows "map cm_cptr (ch_members a) = map cm_cptr (ch_members b)"
proof -
  have "map fst (map status_of ms) = map cm_cptr ms" for ms by (simp add: status_of_def)
  then show ?thesis using assms by (metis same_channel_def)
qed

lemma find_member_status:
  assumes "map status_of ms = map status_of ns" and "find_user_member ms p = Some m"
  shows "\<exists>n. find_user_member ns p = Some n \<and> status_of n = status_of m"
  using assms
proof (induction ms arbitrary: ns)
  case (Cons x ms)
  then obtain y ys where ns: "ns = y # ys" "status_of y = status_of x" "map status_of ms = map status_of ys" by (cases ns) auto
  then have "cm_cptr y = cm_cptr x" by (simp add: status_of_def)
  with Cons.prems(2) ns Cons.IH [OF ns(3)] show ?case by (cases "cm_cptr x = p") (auto simp: find_user_member_def)
qed (simp add: find_user_member_def)

lemma status_set_flag:
  assumes "status_of n = status_of m"
  shows "status_of (n\<lparr>cm_flags := set_flag pos f (cm_flags n)\<rparr>) = status_of (m\<lparr>cm_flags := set_flag pos f (cm_flags m)\<rparr>)"
proof -
  have e: "cm_flags n AND NOT CHFL_BANNED = cm_flags m AND NOT CHFL_BANNED" using assms by (simp add: status_of_def)
  have "(x AND NOT f) AND NOT CHFL_BANNED = (x AND NOT CHFL_BANNED) AND NOT f" for x by (simp add: ac_simps)
  then have "(cm_flags n AND NOT f) AND NOT CHFL_BANNED = (cm_flags m AND NOT f) AND NOT CHFL_BANNED" using e by metis
  then show ?thesis using assms e by (simp add: status_of_def set_flag_def bit.conj_disj_distrib2)
qed

lemma set_member_status:
  assumes "map status_of ms = map status_of ns" and "status_of m = status_of n"
  shows "map status_of (map (\<lambda>x. if cm_cptr x = cm_cptr m then m else x) ms) =
         map status_of (map (\<lambda>x. if cm_cptr x = cm_cptr n then n else x) ns)"
proof -
  have *: "map status_of (map (\<lambda>x. if cm_cptr x = cm_cptr y then y else x) zs) =
        map (\<lambda>s. if fst s = fst (status_of y) then status_of y else s) (map status_of zs)" for y zs
    by (simp add: status_of_def)
  show ?thesis unfolding * assms ..
qed

lemma del_first_strs:
  "map str (fst (del_first str i es)) = fst (del_first (\<lambda>x. x) i (map str es)) \<and>
   snd (del_first str i es) = snd (del_first (\<lambda>x. x) i (map str es))"
  by (induction es) (auto split: prod.splits)

text \<open>The lists through their texts: the result of adding and deleting, and nothing else changes.\<close>

definition same_but_list :: "list_kind \<Rightarrow> aChannel \<Rightarrow> aChannel \<Rightarrow> bool" where
  "same_but_list k ch ch1 \<longleftrightarrow>
     ch_mode ch1 = ch_mode ch \<and> ch_members ch1 = ch_members ch \<and> ch_users ch1 = ch_users ch \<and> ch_invites ch1 = ch_invites ch \<and>
     ch_chname ch1 = ch_chname ch \<and> ch_channelts ch1 = ch_channelts ch \<and> (\<forall>j. j \<noteq> k \<longrightarrow> list_strs j ch1 = list_strs j ch)"

lemma all_list_kind: "(\<forall>k. P k) \<longleftrightarrow> P Invite_list \<and> P Exempt_list \<and> P Ban_list"
  by (metis list_kind.exhaust)

definition list_max :: "list_kind \<Rightarrow> nat" where
  "list_max k = (case k of Invite_list \<Rightarrow> MAXINVITELIST | Exempt_list \<Rightarrow> MAXEXEMPTLIST | Ban_list \<Rightarrow> MAXBANS)"

lemma list_add_refused:
  "refused (MyClient c) (list_max k) (list_strs k ch) i 0 = Some f \<Longrightarrow> \<exists>out. list_add k me_name NOW p c ch i = (- 1, ch, out)"
  by (cases k) (auto simp: add_banid_def add_exempt_id_def add_invite_id_def list_max_def)

lemma list_add_new:
  "refused (MyClient c) (list_max k) (list_strs k ch) i 0 = None \<Longrightarrow>
     \<exists>ch1 out. list_add k me_name NOW p c ch i = (0, ch1, out) \<and> same_but_list k ch ch1 \<and> list_strs k ch1 = i # list_strs k ch"
  by (cases k) (auto simp: add_banid_def add_exempt_id_def add_invite_id_def list_max_def same_but_list_def all_list_kind new_entry_def)

lemma del_first_absent: "\<not> snd (del_first str i es) \<Longrightarrow> fst (del_first str i es) = es"
  by (induction es) (auto split: prod.splits if_splits)

lemma list_del_some:
  "\<exists>ch1. list_del k ch (Some i) = (0, ch1) \<and> same_but_list k ch ch1 \<and>
     list_strs k ch1 = fst (del_first (\<lambda>x. x) i (list_strs k ch))"
  using del_first_absent [of "\<lambda>x. x" i "list_strs k ch"]
  by (cases k) (auto simp: del_banid_def del_exempt_id_def del_invite_id_def same_but_list_def all_list_kind case_prod_unfold del_first_strs [of banstr] del_first_strs [of invstr])

lemma refused_remote:
  assumes "refused loc mx es i 0 = None" and "loc \<Longrightarrow> \<forall>e\<in>set es. mycmp e i = 0 \<longrightarrow> match e i = 0"
  shows "refused False mx' es i 0 = None"
proof -
  have "\<And>n. refused loc mx es i n = None \<Longrightarrow> refused False mx' es i 0 = None" using assms(2)
    by (induction es) (auto split: if_splits)
  with assms(1) show ?thesis by blast
qed

subsection \<open>Two runs side by side\<close>

text \<open>
  \<open>view\<close> is about the states of the two servers: the clients agree, the sender is not connected to the second,
  and there the names of the members lead to them; its links are consistent.
  \<open>alike\<close> relates the run at the origin with the run that replays it.
\<close>

definition view :: "mode_ctx \<Rightarrow> mode_ctx \<Rightarrow> chan_state \<Rightarrow> chan_state \<Rightarrow> bool" where
  "view cx cx' st st' \<longleftrightarrow>
     mc_sptr cx' = mc_sptr cx \<and> mc_chp cx' = mc_chp cx \<and> mc_level cx' = mc_level cx \<and>
     same_clients (mc_sptr cx) (cs_clients st) (cs_clients st') \<and> \<not> MyClient (cs_clients st' (mc_sptr cx)) \<and>
     (\<forall>p\<in>set (members_of st (mc_chp cx)). good_param (c_name (cs_clients st p)) \<and>
        hash_find_client (cs_clients st') (mc_table cx') (c_name (cs_clients st p)) None = Some p) \<and>
     chans_ok st' \<and> links_ok st' \<and> mc_chp cx \<in> set (cs_channel st')"

definition key_ok :: "cstr \<Rightarrow> bool" where
  "key_ok k \<longleftrightarrow> k = [] \<or> \<not> bad_key k"

definition alike :: "mode_ctx \<Rightarrow> mode_ctx \<Rightarrow> cstr set \<Rightarrow> mode_run \<Rightarrow> mode_run \<Rightarrow> bool" where
  "alike cx cx' M L R \<longleftrightarrow>
     mr_change R = mr_change L \<and> mr_pbuf R = mr_pbuf L \<and> length (mr_mbuf R) \<le> length (mr_mbuf L) \<and>
     mr_nparams R \<le> mr_nparams L \<and> same_channel (chan cx L) (chan cx' R) \<and> view cx cx' (mr_st L) (mr_st R)"

text \<open>What the run at the origin keeps: the key is one that can be sent, the masks are known.\<close>

definition sane :: "mode_ctx \<Rightarrow> cstr set \<Rightarrow> mode_run \<Rightarrow> bool" where
  "sane cx M L \<longleftrightarrow>
     key_ok (md_key (ch_mode (chan cx L))) \<and> masks_in M (chan cx L) (mr_args L) \<and> stable_masks (mr_args L) \<and>
     (MyClient (sender cx L) \<longrightarrow> plain_masks M) \<and>
     (\<forall>p\<in>set (members_of (mr_st L) (mc_chp cx)). good_param (c_name (cs_clients (mr_st L) p)))"

text \<open>
  \<open>core_clients\<close>: clients are the same but for their users.  A quiet step announces nothing and changes nothing others have to know; a step that announces adds one letter
  and its parameters.
\<close>

definition core_clients :: "clients \<Rightarrow> clients \<Rightarrow> bool" where
  "core_clients cs cs1 \<longleftrightarrow> (\<forall>p. (cs1 p)\<lparr>c_user := None\<rparr> = (cs p)\<lparr>c_user := None\<rparr>)"

definition quiet :: "mode_ctx \<Rightarrow> mode_run \<Rightarrow> mode_run \<Rightarrow> bool" where
  "quiet cx L L1 \<longleftrightarrow>
     mr_change L1 = mr_change L \<and> mr_mbuf L1 = mr_mbuf L \<and> mr_pbuf L1 = mr_pbuf L \<and> mr_nmodes L1 = mr_nmodes L \<and>
     mr_nparams L \<le> mr_nparams L1 \<and> set (mr_args L1) \<subseteq> set (mr_args L) \<and> same_channel (chan cx L) (chan cx L1) \<and>
     core_clients (cs_clients (mr_st L)) (cs_clients (mr_st L1))"

definition announces :: "mode_ctx \<Rightarrow> char \<Rightarrow> cstr list \<Rightarrow> mode_run \<Rightarrow> mode_run \<Rightarrow> bool" where
  "announces cx c ps L L1 \<longleftrightarrow>
     mr_change L1 = mr_change L \<and> mr_mbuf L1 = mr_mbuf L @ [c] \<and> mr_pbuf L1 = mr_pbuf (fold ADD_PARA ps L) \<and>
     mr_nmodes L1 = mr_nmodes L + 1 \<and> length ps \<le> 1 \<and> (\<forall>p\<in>set ps. good_param p)"

definition fits :: "mode_ctx \<Rightarrow> mode_run \<Rightarrow> mode_run \<Rightarrow> bool" where
  "fits cx' R L1 \<longleftrightarrow>
     length (cptr_name cx' R) + length (ch_chname (chan cx' R)) + 27 + length (mr_mbuf L1) + length (mr_pbuf L1) + NICKLEN + 1 \<le> REALMODEBUFLEN"

definition replays :: "mode_ctx \<Rightarrow> mode_ctx \<Rightarrow> cstr set \<Rightarrow> char \<Rightarrow> cstr list \<Rightarrow> mode_run \<Rightarrow> mode_run \<Rightarrow> (mode_run \<Rightarrow> mode_run option) \<Rightarrow> bool" where
  "replays cx cx' M c ps L L1 h \<longleftrightarrow>
     (\<forall>R rest. alike cx cx' M L R \<longrightarrow> mr_args R = ps @ rest \<longrightarrow> fits cx' R L1 \<longrightarrow>
        (\<exists>R1. h R = Some R1 \<and> announces cx' c ps R R1 \<and> mr_args R1 = rest \<and> alike cx cx' M L1 R1 \<and>
           cptr_name cx' R1 = cptr_name cx' R \<and> ch_chname (chan cx' R1) = ch_chname (chan cx' R)))"

definition follows :: "mode_ctx \<Rightarrow> mode_ctx \<Rightarrow> cstr set \<Rightarrow> char \<Rightarrow> mode_run \<Rightarrow> mode_run \<Rightarrow> (mode_run \<Rightarrow> mode_run option) \<Rightarrow> bool" where
  "follows cx cx' M c L L1 h \<longleftrightarrow>
     sane cx M L1 \<and> (quiet cx L L1 \<or> (\<exists>ps. announces cx c ps L L1 \<and> replays cx cx' M c ps L L1 h))"

subsection \<open>What steps keep\<close>

definition frame_ok :: "aChannel \<Rightarrow> aChannel \<Rightarrow> bool" where
  "frame_ok ch ch1 \<longleftrightarrow>
     map cm_cptr (ch_members ch1) = map cm_cptr (ch_members ch) \<and> ch_users ch1 = ch_users ch \<and> ch_invites ch1 = ch_invites ch \<and>
     ch_chname ch1 = ch_chname ch"

lemma upd_chan_links:
  assumes "chans_ok st" and "links_ok st" and "frame_ok (cs_channels st a) (f (cs_channels st a))"
  shows "chans_ok (upd_chan a f st)" and "links_ok (upd_chan a f st)" and "members_of (upd_chan a f st) b = members_of st b"
proof -
  have m: "members_of (upd_chan a f st) b = members_of st b" "invites_of (upd_chan a f st) b = invites_of st b"
    "ch_users (cs_channels (upd_chan a f st) b) = ch_users (cs_channels st b)" for b
    using assms(3) by (simp_all add: members_of_def invites_of_def frame_ok_def chan_simps)
  show "members_of (upd_chan a f st) b = members_of st b" by (rule m)
  show "chans_ok (upd_chan a f st)" using assms(1,3) by (auto intro: chans_ok_cong simp: chan_simps frame_ok_def)
  have "user_links_ok (upd_chan a f st) p u \<longleftrightarrow> user_links_ok st p u" for p u by (simp add: user_links_ok_def m chan_simps)
  moreover have "chan_links_ok (upd_chan a f st) b = chan_links_ok st b" for b unfolding chan_links_ok_iff m by (simp add: chan_simps)
  ultimately show "links_ok (upd_chan a f st)" using assms(2) by (simp add: links_ok_def chan_simps(8-))
qed

lemma core_clientsD:
  assumes "core_clients cs cs1"
  shows "c_name (cs1 p) = c_name (cs p)" "c_flags (cs1 p) = c_flags (cs p)" "c_umode (cs1 p) = c_umode (cs p)"
    "c_status (cs1 p) = c_status (cs p)" "c_fd (cs1 p) = c_fd (cs p)"
proof -
  have e: "(cs1 p)\<lparr>c_user := None\<rparr> = (cs p)\<lparr>c_user := None\<rparr>" using assms by (simp add: core_clients_def)
  show "c_name (cs1 p) = c_name (cs p)" using arg_cong [OF e, of c_name] by simp
  show "c_flags (cs1 p) = c_flags (cs p)" using arg_cong [OF e, of c_flags] by simp
  show "c_umode (cs1 p) = c_umode (cs p)" using arg_cong [OF e, of c_umode] by simp
  show "c_status (cs1 p) = c_status (cs p)" using arg_cong [OF e, of c_status] by simp
  show "c_fd (cs1 p) = c_fd (cs p)" using arg_cong [OF e, of c_fd] by simp
qed

lemma core_clients_refl: "core_clients cs cs"
  by (simp add: core_clients_def)

lemma core_MyClient: "core_clients cs cs1 \<Longrightarrow> MyClient (cs1 p) = MyClient (cs p)"
  by (simp add: core_clientsD status_defs)

lemma same_clients_core:
  assumes "same_clients s cs cs'" and "core_clients cs cs1" and "core_clients cs' cs1'"
  shows "same_clients s cs1 cs1'"
  using assms(1) core_clientsD [OF assms(2)] core_clientsD [OF assms(3)] by (simp add: same_clients_def)

lemma hash_find_client_core:
  assumes "core_clients cs cs1"
  shows "hash_find_client cs1 tab n None = hash_find_client cs tab n None"
  using core_clientsD(1) [OF assms] by (simp add: hash_find_client_def)

lemma view_core:
  assumes "view cx cx' st st'" and "core_clients (cs_clients st) (cs_clients st1)" and "core_clients (cs_clients st') (cs_clients st1')"
    and "members_of st1 (mc_chp cx) = members_of st (mc_chp cx)" and "chans_ok st1'" "links_ok st1'" "cs_channel st1' = cs_channel st'"
  shows "view cx cx' st1 st1'"
  using assms(1,4-7) same_clients_core [OF _ assms(2,3)] core_MyClient [OF assms(3)] core_clientsD(1) [OF assms(2)]
    hash_find_client_core [OF assms(3)]
  by (simp add: view_def)

lemma view_upd:
  assumes "view cx cx' st st'" and "frame_ok (cs_channels st (mc_chp cx)) (f (cs_channels st (mc_chp cx)))"
    and "frame_ok (cs_channels st' (mc_chp cx)) (f' (cs_channels st' (mc_chp cx)))"
  shows "view cx cx' (upd_chan (mc_chp cx) f st) (upd_chan (mc_chp cx) f' st')"
proof (rule view_core [OF assms(1)])
  show "members_of (upd_chan (mc_chp cx) f st) (mc_chp cx) = members_of st (mc_chp cx)"
    using assms(2) by (simp add: members_of_def frame_ok_def chan_simps)
  show "chans_ok (upd_chan (mc_chp cx) f' st')" "links_ok (upd_chan (mc_chp cx) f' st')"
    using upd_chan_links(1,2) [where f = f', OF _ _ assms(3)] assms(1) by (simp_all add: view_def)
qed (simp_all add: core_clients_refl chan_simps)

text \<open>The sender is the same for both runs.\<close>

lemma alike_sender:
  assumes "alike cx cx' M L R"
  shows "IsServer (sender cx' R) = IsServer (sender cx L)" "IsULine (sender cx' R) = IsULine (sender cx L)"
    "IsOper (sender cx' R) = IsOper (sender cx L)" "\<not> MyClient (sender cx' R)" "maxparams cx' R = maxparams cx L"
    "check_level l n (sender cx' R) = check_level l n (sender cx L)"
    "mc_chp cx' = mc_chp cx" "mc_level cx' = mc_level cx"
  using assms
  by (simp_all add: alike_def view_def same_clients_def sender_def IsServer_def IsULine_def IsOper_def maxparams_def check_level_def)

lemmas run_ops_defs = add_letter_def ADD_PARA_def eat_arg_def say_def fail_def see_def count_param_def on_mode_def on_chan_def

lemmas run_views = chan_def sender_def cptr_name_def no_room_def too_many_def maxparams_def seen_already_def

definition emits :: "mode_ctx \<Rightarrow> char \<Rightarrow> cstr list \<Rightarrow> (aChannel \<Rightarrow> aChannel) \<Rightarrow> mode_run \<Rightarrow> mode_run \<Rightarrow> bool" where
  "emits cx c ps f L L1 \<longleftrightarrow> announces cx c ps L L1 \<and> mr_st L1 = upd_chan (mc_chp cx) f (mr_st L)"

lemma emits_chan: "emits cx c ps f L L1 \<Longrightarrow> chan cx L1 = f (chan cx L)"
  by (simp add: emits_def chan_def chan_simps)

lemma emits_sender: "emits cx c ps f L L1 \<Longrightarrow> sender cx L1 = sender cx L"
  by (simp add: emits_def sender_def chan_simps)

lemma fold_para_pbuf: "mr_pbuf L = mr_pbuf R \<Longrightarrow> mr_pbuf (fold ADD_PARA ps L) = mr_pbuf (fold ADD_PARA ps R)"
  by (induction ps arbitrary: L R) (auto simp: ADD_PARA_def)

lemma length_fold_para: "length (mr_pbuf L) + sum_list (map length ps) \<le> length (mr_pbuf (fold ADD_PARA ps L))"
proof (induction ps arbitrary: L)
  case (Cons p ps)
  have "length (mr_pbuf L) + length p \<le> length (mr_pbuf (ADD_PARA p L))" by (simp add: ADD_PARA_def)
  with Cons [of "ADD_PARA p L"] show ?case by simp
qed simp

lemma alike_emits:
  assumes "alike cx cx' M L R" and "emits cx c ps f L L1" and "emits cx' c ps f' R R1"
    and "frame_ok (chan cx L) (f (chan cx L))" and "frame_ok (chan cx' R) (f' (chan cx' R))"
    and "same_channel (f (chan cx L)) (f' (chan cx' R))" and "mr_nparams R1 \<le> mr_nparams L1"
  shows "alike cx cx' M L1 R1"
proof -
  have c: "mc_chp cx' = mc_chp cx" using assms(1) by (simp add: alike_sender)
  have "view cx cx' (mr_st L1) (mr_st R1)"
    using view_upd [of cx cx' "mr_st L" "mr_st R" f f'] assms(1-5) c by (simp add: alike_def emits_def chan_def)
  moreover have "mr_pbuf R1 = mr_pbuf L1"
    using assms(1-3) fold_para_pbuf [of R L ps] by (simp add: alike_def emits_def announces_def)
  ultimately show ?thesis
    using assms(1-3,6,7) emits_chan [OF assms(2)] emits_chan [OF assms(3)] by (simp add: alike_def emits_def announces_def)
qed

lemma sane_emits:
  assumes "sane cx M L" and "emits cx c ps f L L1" and "set (mr_args L1) \<subseteq> set (mr_args L)"
    and "key_ok (md_key (ch_mode (f (chan cx L))))" and "\<And>k. set (list_strs k (f (chan cx L))) \<subseteq> M" and "frame_ok (chan cx L) (f (chan cx L))"
  shows "sane cx M L1"
proof -
  have "members_of (mr_st L1) (mc_chp cx) = members_of (mr_st L) (mc_chp cx)" "cs_clients (mr_st L1) = cs_clients (mr_st L)"
    using assms(2,6) by (simp_all add: emits_def members_of_def chan_simps frame_ok_def chan_def)
  then show ?thesis using assms(1,3-5) emits_chan [OF assms(2)] emits_sender [OF assms(2)]
    by (auto simp: sane_def masks_in_def stable_masks_def)
qed

lemma sane_quiet:
  assumes "sane cx M L" and "quiet cx L L1"
  shows "sane cx M L1"
proof -
  have s: "ch_mode (chan cx L1) = ch_mode (chan cx L)" "\<And>k. list_strs k (chan cx L1) = list_strs k (chan cx L)"
    using assms(2) by (auto simp: quiet_def same_channel_def)
  have "MyClient (sender cx L1) = MyClient (sender cx L)"
    using assms(2) core_MyClient by (simp add: quiet_def sender_def)
  moreover have "set (mr_args L1) \<subseteq> set (mr_args L)" using assms(2) by (simp add: quiet_def)
  moreover have "members_of (mr_st L1) (mc_chp cx) = members_of (mr_st L) (mc_chp cx)"
    using assms(2) same_channel_members [of "chan cx L" "chan cx L1"] by (simp add: quiet_def members_of_def chan_def)
  moreover have "c_name (cs_clients (mr_st L1) p) = c_name (cs_clients (mr_st L) p)" for p using assms(2) core_clientsD(1) by (simp add: quiet_def)
  ultimately show ?thesis using assms(1) s by (auto simp: sane_def masks_in_def stable_masks_def)
qed

lemma quiet_follows: "sane cx M L \<Longrightarrow> quiet cx L L1 \<Longrightarrow> follows cx cx' M c L L1 h"
  using sane_quiet by (auto simp: follows_def)

lemma room_to_replay:
  assumes "alike cx cx' M L R" and "announces cx c ps L L1" and "fits cx' R L1" and "n \<le> NICKLEN + 1 \<or> n \<le> sum_list (map length ps) + 1"
  shows "\<not> no_room cx' R n"
proof -
  have "length (mr_pbuf L) + sum_list (map length ps) \<le> length (mr_pbuf L1)"
    using assms(2) length_fold_para [of L ps] by (simp add: announces_def)
  then show ?thesis using assms by (auto simp: alike_def announces_def fits_def no_room_def)
qed

text \<open>
  The common shape of all handlers: the step at the origin announces a change \<open>f\<close> of the channel, and
  the handler at the other server announces a change \<open>f'\<close> with the same effect.
\<close>

lemma emits_follows:
  assumes "sane cx M L" and "emits cx c ps f L L1" and "set (mr_args L1) \<subseteq> set (mr_args L)"
    and "frame_ok (chan cx L) (f (chan cx L))" and "key_ok (md_key (ch_mode (f (chan cx L))))" and "\<And>k. set (list_strs k (f (chan cx L))) \<subseteq> M"
    and step: "\<And>R rest. alike cx cx' M L R \<Longrightarrow> mr_args R = ps @ rest \<Longrightarrow>
      (\<And>n. n \<le> NICKLEN + 1 \<or> n \<le> sum_list (map length ps) + 1 \<Longrightarrow> \<not> no_room cx' R n) \<Longrightarrow>
      \<exists>R1 f'. h R = Some R1 \<and> emits cx' c ps f' R R1 \<and> mr_args R1 = rest \<and> mr_nparams R1 \<le> mr_nparams L1 \<and>
        frame_ok (chan cx' R) (f' (chan cx' R)) \<and> same_channel (f (chan cx L)) (f' (chan cx' R))"
  shows "follows cx cx' M c L L1 h"
proof -
  have a: "announces cx c ps L L1" using assms(2) by (simp add: emits_def)
  have "replays cx cx' M c ps L L1 h"
    unfolding replays_def
  proof (intro allI impI)
    fix R rest
    assume r: "alike cx cx' M L R" "mr_args R = ps @ rest" "fits cx' R L1"
    obtain R1 f' where R1: "h R = Some R1" "emits cx' c ps f' R R1" "mr_args R1 = rest" "mr_nparams R1 \<le> mr_nparams L1"
      "frame_ok (chan cx' R) (f' (chan cx' R))" "same_channel (f (chan cx L)) (f' (chan cx' R))"
      using step [OF r(1,2)] room_to_replay [OF r(1) a r(3)] by blast
    have "alike cx cx' M L1 R1" by (rule alike_emits [OF r(1) assms(2) R1(2) assms(4) R1(5,6,4)])
    moreover have "cptr_name cx' R1 = cptr_name cx' R" using R1(2) by (simp add: emits_def cptr_name_def chan_simps)
    moreover have "ch_chname (chan cx' R1) = ch_chname (chan cx' R)" using emits_chan [OF R1(2)] R1(5) by (simp add: frame_ok_def)
    ultimately show "\<exists>R1. h R = Some R1 \<and> announces cx' c ps R R1 \<and> mr_args R1 = rest \<and> alike cx cx' M L1 R1 \<and>
        cptr_name cx' R1 = cptr_name cx' R \<and> ch_chname (chan cx' R1) = ch_chname (chan cx' R)"
      using R1(1-3) by (auto simp: emits_def)
  qed
  then show ?thesis using sane_emits [OF assms(1,2,3,5,6,4)] a by (auto simp: follows_def)
qed

subsection \<open>Every letter can be replayed\<close>

lemma list_strs_upd [simp]:
  "list_strs k (ch\<lparr>ch_mode := m\<rparr>) = list_strs k ch" "list_strs k (ch\<lparr>ch_members := ms\<rparr>) = list_strs k ch"
  "list_strs k (ch\<lparr>ch_channelts := t\<rparr>) = list_strs k ch" "list_strs k (ch\<lparr>ch_join_start := t\<rparr>) = list_strs k ch"
  "list_strs k (ch\<lparr>ch_join_count := t\<rparr>) = list_strs k ch"
  by (cases k; simp)+

definition mode_change :: "(Mode \<Rightarrow> Mode) \<Rightarrow> (aChannel \<Rightarrow> aChannel) \<Rightarrow> bool" where
  "mode_change g f \<longleftrightarrow>
     (\<forall>ch. ch_mode (f ch) = g (ch_mode ch) \<and> ch_members (f ch) = ch_members ch \<and> ch_users (f ch) = ch_users ch \<and> ch_invites (f ch) = ch_invites ch \<and>
        (\<forall>k. list_strs k (f ch) = list_strs k ch) \<and> ch_chname (f ch) = ch_chname ch \<and> ch_channelts (f ch) = ch_channelts ch)"

lemma mode_change_same: "mode_change g f \<Longrightarrow> same_channel a b \<Longrightarrow> same_channel (f a) (f b)"
  by (simp add: mode_change_def same_channel_def)

lemma mode_change_frame: "mode_change g f \<Longrightarrow> frame_ok ch (f ch)"
  by (simp add: mode_change_def frame_ok_def)

lemma on_mode_change: "mode_change g (\<lambda>ch. ch\<lparr>ch_mode := g (ch_mode ch)\<rparr>)"
  by (simp add: mode_change_def)

text \<open>Changes of the mode structure.\<close>

lemma mode_emits_follows:
  assumes "sane cx M L" and "mode_change g f" and "emits cx c ps f L L1" and "set (mr_args L1) \<subseteq> set (mr_args L)"
    and "key_ok (md_key (ch_mode (chan cx L))) \<Longrightarrow> key_ok (md_key (g (ch_mode (chan cx L))))"
    and step: "\<And>R rest. alike cx cx' M L R \<Longrightarrow> mr_args R = ps @ rest \<Longrightarrow>
      (\<And>n. n \<le> NICKLEN + 1 \<or> n \<le> sum_list (map length ps) + 1 \<Longrightarrow> \<not> no_room cx' R n) \<Longrightarrow>
      \<exists>R1. h R = Some R1 \<and> emits cx' c ps f R R1 \<and> mr_args R1 = rest \<and> mr_nparams R1 \<le> mr_nparams L1"
  shows "follows cx cx' M c L L1 h"
proof (rule emits_follows [OF assms(1,3,4)])
  show "key_ok (md_key (ch_mode (f (chan cx L))))" using assms(1,2,5) by (simp add: sane_def mode_change_def)
  show "set (list_strs k (f (chan cx L))) \<subseteq> M" for k using assms(1,2) by (simp add: sane_def masks_in_def mode_change_def)
  show "frame_ok (chan cx L) (f (chan cx L))" using assms(2) by (rule mode_change_frame)
next
  fix R rest
  assume r: "alike cx cx' M L R" "mr_args R = ps @ rest"
    "\<And>n. n \<le> NICKLEN + 1 \<or> n \<le> sum_list (map length ps) + 1 \<Longrightarrow> \<not> no_room cx' R n"
  obtain R1 where R1: "h R = Some R1" "emits cx' c ps f R R1" "mr_args R1 = rest" "mr_nparams R1 \<le> mr_nparams L1"
    using step [OF r] by blast
  have "same_channel (chan cx L) (chan cx' R)" using r(1) by (simp add: alike_def)
  then show "\<exists>R1 f'. h R = Some R1 \<and> emits cx' c ps f' R R1 \<and> mr_args R1 = rest \<and> mr_nparams R1 \<le> mr_nparams L1 \<and>
      frame_ok (chan cx' R) (f' (chan cx' R)) \<and> same_channel (f (chan cx L)) (f' (chan cx' R))"
    using R1 mode_change_frame [OF assms(2)] mode_change_same [OF assms(2)] by blast
qed

lemma set_tl: "x \<in> set (tl xs) \<Longrightarrow> x \<in> set xs"
  by (cases xs) auto

lemma quiet_simple:
  "quiet cx L (fail e L)" "quiet cx L (say ms L)" "quiet cx L (see m L)" "quiet cx L L" "quiet cx L (eat_arg (count_param L))"
  "quiet cx L (eat_arg (see m (count_param L)))"
  by (auto simp: quiet_def run_ops_defs chan_def same_channel_refl core_clients_refl intro: set_tl)

lemma follows_O:
  assumes "sane cx M L"
  shows "follows cx cx' M CHR ''O'' L (mode_O cx L) (\<lambda>R. Some (mode_O cx' R))"
proof (cases "\<not> IsULine (sender cx L) \<and> (mc_level cx < 2 \<or> \<not> IsOper (sender cx L)) \<or> MyClient (sender cx L) \<and> \<not> IsOper (sender cx L)")
  case True
  then have "mode_O cx L = fail SM_ERR_NOTOPER L" by (auto simp: mode_O_def Let_def)
  then show ?thesis using assms quiet_simple(1) by (auto intro: quiet_follows)
next
  case False
  let ?g = "\<lambda>m. m\<lparr>md_mode := set_flag (mr_change L) MODE_OPERONLY (md_mode m)\<rparr>"
  have L1: "mode_O cx L = add_letter CHR ''O'' (on_mode cx ?g L)" using False by (auto simp: mode_O_def Let_def)
  show ?thesis
  proof (rule mode_emits_follows [OF assms on_mode_change [of ?g], where ps = "[]"])
    show "emits cx CHR ''O'' [] (\<lambda>ch. ch\<lparr>ch_mode := ?g (ch_mode ch)\<rparr>) L (mode_O cx L)"
      by (simp add: L1 emits_def announces_def run_ops_defs)
    fix R rest
    assume r: "alike cx cx' M L R" "mr_args R = [] @ rest"
    have "mode_O cx' R = add_letter CHR ''O'' (on_mode cx' ?g R)"
      using False alike_sender [OF r(1)] r(1) by (auto simp: mode_O_def Let_def alike_def)
    then show "\<exists>R1. Some (mode_O cx' R) = Some R1 \<and> emits cx' CHR ''O'' [] (\<lambda>ch. ch\<lparr>ch_mode := ?g (ch_mode ch)\<rparr>) R R1 \<and>
        mr_args R1 = rest \<and> mr_nparams R1 \<le> mr_nparams (mode_O cx L)"
      using r by (simp add: L1 emits_def announces_def run_ops_defs alike_def)
  qed (simp_all add: L1 run_ops_defs)
qed

lemma quiet_trans:
  assumes "quiet cx L L1" and "quiet cx L1 L2"
  shows "quiet cx L L2"
  using assms by (auto simp: quiet_def core_clients_def intro: same_channel_trans)

definition flag_change :: "bool \<Rightarrow> u32 \<Rightarrow> aChannel \<Rightarrow> aChannel" where
  "flag_change pos m ch = ch\<lparr>ch_mode := (ch_mode ch)\<lparr>md_mode := set_flag pos m (md_mode (ch_mode ch))\<rparr>\<rparr>"

lemma flag_change: "mode_change (\<lambda>md. md\<lparr>md_mode := set_flag pos m (md_mode md)\<rparr>) (flag_change pos m)"
  by (simp add: mode_change_def flag_change_def)

text \<open>A letter that sets a flag, whatever it notes in the seen set.\<close>

lemma flag_follows:
  assumes "sane cx M L" and L1: "L1 = add_letter c (on_mode cx (\<lambda>md. md\<lparr>md_mode := set_flag (mr_change L) m (md_mode md)\<rparr>) (see x L))"
    and step: "\<And>R. alike cx cx' M L R \<Longrightarrow> \<not> no_room cx' R 1 \<Longrightarrow>
      h R = Some (add_letter c (on_mode cx' (\<lambda>md. md\<lparr>md_mode := set_flag (mr_change R) m (md_mode md)\<rparr>) (see x R)))"
  shows "follows cx cx' M c L L1 h"
proof (rule mode_emits_follows [OF assms(1) flag_change [of "mr_change L" m], where ps = "[]"])
  show "emits cx c [] (flag_change (mr_change L) m) L L1"
    by (simp add: L1 emits_def announces_def run_ops_defs flag_change_def [abs_def])
  fix R rest
  assume r: "alike cx cx' M L R" "mr_args R = [] @ rest" "\<And>n. n \<le> NICKLEN + 1 \<or> n \<le> sum_list (map length []) + 1 \<Longrightarrow> \<not> no_room cx' R n"
  show "\<exists>R1. h R = Some R1 \<and> emits cx' c [] (flag_change (mr_change L) m) R R1 \<and> mr_args R1 = rest \<and> mr_nparams R1 \<le> mr_nparams L1"
    using step [OF r(1) r(3)] r(1,2) by (simp add: L1 emits_def announces_def run_ops_defs flag_change_def [abs_def] alike_def)
qed (simp_all add: L1 run_ops_defs)

lemma change_simps [simp]:
  "mr_change (see m R) = mr_change R" "mr_change (count_param R) = mr_change R" "mr_change (say ms R) = mr_change R"
  by (simp_all add: run_ops_defs)

lemma no_room_simps [simp]:
  "no_room cx (see m R) n = no_room cx R n" "no_room cx (count_param R) n = no_room cx R n" "no_room cx (say ms R) n = no_room cx R n"
  by (simp_all add: no_room_def cptr_name_def chan_def run_ops_defs)

lemma not_seen: "alike cx cx' M L R \<Longrightarrow> \<not> seen_already cx' m R"
  by (simp add: seen_already_def alike_sender)

lemma follows_server:
  assumes "sane cx M L" and "\<And>R. alike cx cx' M L R \<Longrightarrow> F' R \<Longrightarrow> F"
  shows "follows cx cx' M c L (mode_server cx F m c L) (\<lambda>R. Some (mode_server cx' (F' R) m c R))"
proof (cases "seen_already cx m L \<or> F \<or> no_room cx L 1")
  case True
  have "quiet cx L (say ms (see m L))" for ms using quiet_trans quiet_simple(2,3) by blast
  with True show ?thesis using quiet_simple
    by (intro quiet_follows assms(1)) (auto simp: mode_server_def Let_def only_servers_def)
next
  case False
  then show ?thesis using assms(2) not_seen
    by (intro flag_follows [OF assms(1), where m = m and x = m]) (auto simp: mode_server_def Let_def)
qed

lemma follows_flag:
  assumes "sane cx M L"
  shows "follows cx cx' M c L (mode_flag cx c L) (\<lambda>R. Some (mode_flag cx' c R))"
proof (cases "map_of mode_flags c")
  case None
  then show ?thesis using quiet_simple by (intro quiet_follows assms) (simp add: mode_flag_def)
next
  case (Some m)
  show ?thesis
  proof (cases "check_level (mc_level cx) 1 (sender cx L) \<or> no_room cx L 1 \<or> seen_already cx m L")
    case True
    with Some show ?thesis using quiet_simple by (intro quiet_follows assms) (auto simp: mode_flag_def)
  next
    case False
    with Some show ?thesis using not_seen
      by (intro flag_follows [OF assms, where m = m and x = m]) (auto simp: mode_flag_def alike_sender)
  qed
qed

text \<open>Letters that change the mode structure without and with a parameter.\<close>

lemma plain_follows:
  assumes "sane cx M L" and f: "mode_change g f" "\<And>m. md_key (g m) = md_key m" and L1: "L1 = add_letter c (on_chan cx f (see x L))"
    and step: "\<And>R. alike cx cx' M L R \<Longrightarrow> \<not> no_room cx' R 1 \<Longrightarrow> h R = Some (add_letter c (on_chan cx' f (see x R)))"
  shows "follows cx cx' M c L L1 h"
proof (rule mode_emits_follows [OF assms(1) f(1), where ps = "[]"])
  show "emits cx c [] f L L1" by (simp add: L1 emits_def announces_def run_ops_defs)
  fix R rest
  assume r: "alike cx cx' M L R" "mr_args R = [] @ rest" "\<And>n. n \<le> NICKLEN + 1 \<or> n \<le> sum_list (map length []) + 1 \<Longrightarrow> \<not> no_room cx' R n"
  show "\<exists>R1. h R = Some R1 \<and> emits cx' c [] f R R1 \<and> mr_args R1 = rest \<and> mr_nparams R1 \<le> mr_nparams L1"
    using step [OF r(1) r(3)] r(1,2) by (simp add: L1 emits_def announces_def run_ops_defs alike_def)
qed (simp_all add: L1 run_ops_defs f(2))

lemma param_follows:
  assumes "sane cx M L" and f: "mode_change g f" "\<And>m. key_ok (md_key m) \<Longrightarrow> key_ok (md_key (g m))" and p: "good_param p"
    and L1: "L1 = eat_arg (ADD_PARA p (add_letter c (on_chan cx f (see x (count_param L)))))"
    and step: "\<And>R rest. alike cx cx' M L R \<Longrightarrow> mr_args R = p # rest \<Longrightarrow>
      (\<And>n. n \<le> NICKLEN + 1 \<or> n \<le> length p + 1 \<Longrightarrow> \<not> no_room cx' R n) \<Longrightarrow>
      h R = Some (eat_arg (ADD_PARA p (add_letter c (on_chan cx' f (see x (count_param R))))))"
  shows "follows cx cx' M c L L1 h"
proof (rule mode_emits_follows [OF assms(1) f(1), where ps = "[p]"])
  show "emits cx c [p] f L L1" using p by (simp add: L1 emits_def announces_def run_ops_defs)
  show "set (mr_args L1) \<subseteq> set (mr_args L)" by (auto simp: L1 run_ops_defs intro: set_tl)
  fix R rest
  assume r: "alike cx cx' M L R" "mr_args R = [p] @ rest" "\<And>n. n \<le> NICKLEN + 1 \<or> n \<le> sum_list (map length [p]) + 1 \<Longrightarrow> \<not> no_room cx' R n"
  have "h R = Some (eat_arg (ADD_PARA p (add_letter c (on_chan cx' f (see x (count_param R))))))"
    by (rule step [OF r(1)]) (use r(2,3) in simp_all)
  then show "\<exists>R1. h R = Some R1 \<and> emits cx' c [p] f R R1 \<and> mr_args R1 = rest \<and> mr_nparams R1 \<le> mr_nparams L1"
    using r(1,2) p by (simp add: L1 emits_def announces_def run_ops_defs alike_def)
qed (simp_all add: f(2))

lemma not_too_many: "alike cx cx' M L R \<Longrightarrow> \<not> too_many cx (count_param L) \<Longrightarrow> \<not> too_many cx' (count_param R)"
  using alike_sender(1,2) [of cx cx' M L R]
  by (simp add: too_many_def maxparams_def run_ops_defs sender_def alike_def)

lemma seen_count [simp]: "seen_already cx m (count_param r) = seen_already cx m r"
  by (simp add: seen_already_def sender_def run_ops_defs)

lemma digits_good: "d \<noteq> [] \<Longrightarrow> \<forall>c\<in>set d. c_digit c \<or> c = CHR '':'' \<Longrightarrow> c_digit (hd d) \<Longrightarrow> good_param d"
  by (cases d) (auto simp: good_param_def colon_or_empty_def dest: c_digit_not)

lemma dec_good: "0 \<le> n \<Longrightarrow> good_param (dec n)"
  using dec_text [of n] by (auto intro!: digits_good)

definition limit_change :: "bool \<Rightarrow> int \<Rightarrow> aChannel \<Rightarrow> aChannel" where
  "limit_change pos i ch = ch\<lparr>ch_mode := (ch_mode ch)\<lparr>md_mode := set_flag pos MODE_LIMIT (md_mode (ch_mode ch)), md_limit := i\<rparr>\<rparr>"

lemma set_limit_change: "set_limit cx pos i r = on_chan cx (limit_change pos i) r"
  by (simp add: set_limit_def on_mode_def limit_change_def [abs_def])

lemma limit_change: "mode_change (\<lambda>m. m\<lparr>md_mode := set_flag pos MODE_LIMIT (md_mode m), md_limit := i\<rparr>) (limit_change pos i)"
  by (simp add: mode_change_def limit_change_def)

lemma follows_l_minus:
  assumes "sane cx M L" and lev: "\<not> check_level (mc_level cx) 1 (sender cx L)" and "\<not> mr_change L"
  shows "follows cx cx' M CHR ''l'' L (mode_l cx L) (\<lambda>R. Some (mode_l cx' R))"
proof (cases "seen_already cx MODE_LIMIT L \<or> no_room cx L 1")
  case True
  with assms show ?thesis using quiet_simple by (intro quiet_follows) (auto simp: mode_l_def Let_def)
next
  case ok: False
  show ?thesis
  proof (rule plain_follows [OF assms(1) limit_change [where pos = False and i = 0], where x = MODE_LIMIT])
    fix R
    assume r: "alike cx cx' M L R" "\<not> no_room cx' R 1"
    then have "\<not> mr_change R" using assms(3) by (simp add: alike_def)
    with r show "Some (mode_l cx' R) = Some (add_letter CHR ''l'' (on_chan cx' (limit_change False 0) (see MODE_LIMIT R)))"
      using lev not_seen by (simp add: mode_l_def Let_def set_limit_change alike_sender)
  qed (use assms ok in \<open>simp_all add: mode_l_def Let_def set_limit_change\<close>)
qed

lemma follows_l_plus:
  assumes "sane cx M L" and lev: "\<not> check_level (mc_level cx) 1 (sender cx L)" and "mr_change L"
  shows "follows cx cx' M CHR ''l'' L (mode_l cx L) (\<lambda>R. Some (mode_l cx' R))"
proof (cases "mr_args L = [] \<or> too_many cx (count_param L) \<or> seen_already cx MODE_LIMIT L \<or> no_room cx L 16 \<or> atoi (hd (mr_args L)) < 1")
  case True
  then show ?thesis using assms quiet_simple
    by (intro quiet_follows) (auto simp: mode_l_def Let_def split: list.split)
next
  case ok: False
  define i where "i = atoi (hd (mr_args L))"
  have i: "1 \<le> i" "i < 2 ^ 31" using ok to_int_range by (auto simp: i_def atoi_def)
  show ?thesis
  proof (rule param_follows [OF assms(1) limit_change [where pos = True and i = i] _ dec_good, where x = MODE_LIMIT])
    show "mode_l cx L = eat_arg (ADD_PARA (dec i) (add_letter CHR ''l'' (on_chan cx (limit_change True i) (see MODE_LIMIT (count_param L)))))"
      using lev assms(3) ok by (cases "mr_args L") (simp_all add: mode_l_def Let_def set_limit_change i_def)
    fix R rest
    assume r: "alike cx cx' M L R" "mr_args R = dec i # rest" "\<And>n. n \<le> NICKLEN + 1 \<or> n \<le> length (dec i) + 1 \<Longrightarrow> \<not> no_room cx' R n"
    have "\<not> no_room cx' R 16" by (rule r(3)) (simp add: NICKLEN_def)
    moreover have "mr_change R" using r(1) assms(3) by (simp add: alike_def)
    ultimately show "Some (mode_l cx' R) =
        Some (eat_arg (ADD_PARA (dec i) (add_letter CHR ''l'' (on_chan cx' (limit_change True i) (see MODE_LIMIT (count_param R))))))"
      using lev ok r(1,2) i not_too_many [OF r(1)] not_seen [OF r(1)]
      by (simp add: mode_l_def Let_def set_limit_change alike_sender [OF r(1)] atoi_dec)
  qed (use i in simp_all)
qed

lemma follows_l:
  assumes "sane cx M L"
  shows "follows cx cx' M CHR ''l'' L (mode_l cx L) (\<lambda>R. Some (mode_l cx' R))"
proof (cases "check_level (mc_level cx) 1 (sender cx L)")
  case True
  then show ?thesis using quiet_simple by (intro quiet_follows assms) (simp add: mode_l_def)
qed (use follows_l_minus follows_l_plus assms in blast)

text \<open>The join rate: its text can be read again, and the limits for local clients are kept.\<close>

definition rate_change :: "bool \<Rightarrow> int \<times> int \<Rightarrow> aChannel \<Rightarrow> aChannel" where
  "rate_change pos nt ch = ch\<lparr>ch_mode := (ch_mode ch)\<lparr>md_mode := set_flag pos MODE_JOINRATE (md_mode (ch_mode ch)),
     md_join_num := fst nt, md_join_time := snd nt\<rparr>, ch_join_start := 0, ch_join_count := 0\<rparr>"

lemma set_rate_change: "set_rate cx pos nt r = on_chan cx (rate_change pos nt) r"
  by (simp add: set_rate_def rate_change_def [abs_def])

lemma rate_change:
  "mode_change (\<lambda>m. m\<lparr>md_mode := set_flag pos MODE_JOINRATE (md_mode m), md_join_num := fst nt, md_join_time := snd nt\<rparr>) (rate_change pos nt)"
  by (simp add: mode_change_def rate_change_def)

definition rate_ok :: "int \<times> int \<Rightarrow> bool" where
  "rate_ok nt \<longleftrightarrow> 0 \<le> fst nt \<and> fst nt < 2 ^ 31 \<and> 0 \<le> snd nt \<and> snd nt < 2 ^ 31"

lemma parse_rate_ok: "parse_rate a = Some nt \<Longrightarrow> rate_ok nt"
  using to_int_range by (auto simp: parse_rate_def rate_ok_def Let_def split: if_splits)

lemma limit_rate_ok:
  assumes "rate_ok nt"
  shows "rate_ok (limit_rate nt) \<and> fst (limit_rate nt) \<le> 60 \<and> snd (limit_rate nt) \<le> 60"
proof -
  obtain n t where nt: "nt = (n, t)" by (cases nt)
  define t1 where "t1 = (if t > 60 then 60 else t)"
  define n1 where "n1 = (if (if n > 60 then 60 else n) < 4 then 4 else (if n > 60 then 60 else n))"
  define n2 where "n2 = (if n1 < (t1 - 1) sdiv 8 + 1 then (t1 - 1) sdiv 8 + 1 else n1)"
  have t1: "0 \<le> t1" "t1 \<le> 60" using assms by (simp_all add: nt t1_def rate_ok_def)
  have d8: "x div 8 \<le> 7" if "x \<le> 59" for x :: int using that by presburger
  have d2: "0 \<le> x div 2 \<and> x div 2 \<le> 30" if "0 \<le> x" "x \<le> 60" for x :: int using that by presburger
  have "(t1 - 1) sdiv 8 \<le> 7" using t1 d8 [of "t1 - 1"] by (simp add: signed_divide_int_def sgn_if)
  then have n2: "0 \<le> n2" "n2 \<le> 60" by (simp_all add: n2_def n1_def)
  then have "n2 sdiv 2 = n2 div 2" by (simp add: signed_divide_int_def sgn_if)
  then have "0 \<le> n2 sdiv 2" "n2 sdiv 2 \<le> 30" using d2 [OF n2] by simp_all
  moreover have "limit_rate nt = (n2, if t1 < n2 sdiv 2 then n2 sdiv 2 else t1)"
    by (simp only: nt limit_rate_def Let_def n2_def n1_def t1_def prod.case)
  ultimately show ?thesis using n2 t1 by (simp add: rate_ok_def)
qed

lemma parse_rate_text:
  assumes "rate_ok (n, t)" and "(n = 0 \<or> t = 0) \<longrightarrow> n = 0 \<and> t = 0"
  shows "parse_rate (rate_text (n, t)) = Some (n, t)"
proof (cases "n = 0 \<or> t = 0")
  case True
  have "dec 0 = ''0''" by (simp add: dec_def dec_nat.simps [of 0] dec_digit_def char_of_eq_iff)
  then have "strtol ''0'' = (0, [])" using strtol_dec [of 0 "[]"] by simp
  moreover have "n = 0" "t = 0" using True assms(2) by blast+
  ultimately show ?thesis by (simp add: parse_rate_def rate_text_def to_int_id)
next
  case False
  have n: "0 \<le> n" "n < 2 ^ 31" "0 \<le> t" "t < 2 ^ 31" using assms(1) by (simp_all add: rate_ok_def)
  have c: "\<forall>c\<in>set (dec n). c \<noteq> CHR '':''" using dec_text [OF n(1)] c_digit_not by blast
  then have "takeWhile (\<lambda>c. c \<noteq> CHR '':'') (dec n @ CHR '':'' # dec t) = dec n"
    "dropWhile (\<lambda>c. c \<noteq> CHR '':'') (dec n @ CHR '':'' # dec t) = CHR '':'' # dec t"
    by (simp_all add: takeWhile_append2 dropWhile_append2)
  with False n show ?thesis using strtol_dec [of n "[]"] strtol_dec [of t "[]"] by (simp add: parse_rate_def rate_text_def to_int_id)
qed

lemma rate_good:
  assumes "rate_ok nt"
  shows "good_param (rate_text nt)"
proof (cases "fst nt = 0 \<or> snd nt = 0")
  case True
  have "c_digit CHR ''0''" by code_simp
  with True show ?thesis by (auto simp: rate_text_def good_param_def colon_or_empty_def case_prod_unfold)
next
  case False
  have n: "0 \<le> fst nt" "0 \<le> snd nt" using assms by (simp_all add: rate_ok_def)
  show ?thesis using False dec_text [OF n(1)] dec_text [OF n(2)]
    by (auto simp: rate_text_def case_prod_unfold intro!: digits_good)
qed

lemma parse_zero_rate: "rate_ok nt \<Longrightarrow> parse_rate (rate_text (zero_rate nt)) = Some (zero_rate nt)"
  using parse_rate_text [of "fst (zero_rate nt)" "snd (zero_rate nt)"] by (simp add: zero_rate_def rate_ok_def split: if_splits)

lemma follows_j_minus:
  assumes "sane cx M L" and lev: "\<not> check_level (mc_level cx) 1 (sender cx L)" and "\<not> mr_change L"
  shows "follows cx cx' M CHR ''j'' L (mode_j cx L) (\<lambda>R. Some (mode_j cx' R))"
proof (cases "seen_already cx MODE_JOINRATE L \<or> no_room cx L 1")
  case True
  with assms show ?thesis using quiet_simple by (intro quiet_follows) (auto simp: mode_j_def Let_def)
next
  case ok: False
  show ?thesis
  proof (rule plain_follows [OF assms(1) rate_change [where pos = False and nt = "(0, 0)"], where x = MODE_JOINRATE])
    fix R
    assume r: "alike cx cx' M L R" "\<not> no_room cx' R 1"
    then have "\<not> mr_change R" using assms(3) by (simp add: alike_def)
    with r show "Some (mode_j cx' R) = Some (add_letter CHR ''j'' (on_chan cx' (rate_change False (0, 0)) (see MODE_JOINRATE R)))"
      using lev not_seen by (simp add: mode_j_def Let_def set_rate_change alike_sender)
  qed (use assms ok in \<open>simp_all add: mode_j_def Let_def set_rate_change\<close>)
qed

lemma follows_j_plus:
  assumes "sane cx M L" and lev: "\<not> check_level (mc_level cx) 1 (sender cx L)" and "mr_change L"
  shows "follows cx cx' M CHR ''j'' L (mode_j cx L) (\<lambda>R. Some (mode_j cx' R))"
proof (cases "mr_args L = [] \<or> too_many cx (count_param L) \<or> seen_already cx MODE_JOINRATE L \<or> parse_rate (hd (mr_args L)) = None")
  case True
  then show ?thesis using assms quiet_simple
    by (intro quiet_follows) (auto simp: mode_j_def Let_def split: list.split)
next
  case ok: False
  obtain nt0 where nt0: "parse_rate (hd (mr_args L)) = Some nt0" using ok by auto
  define nt where "nt = zero_rate (if MyClient (sender cx L) \<and> mc_level cx < 2 then limit_rate nt0 else nt0)"
  have nt: "rate_ok nt" "parse_rate (rate_text nt) = Some nt" "zero_rate nt = nt"
    using limit_rate_ok parse_rate_ok [OF nt0] parse_zero_rate by (auto simp: nt_def zero_rate_def rate_ok_def)
  have snd: "sender cx (see m (count_param L)) = sender cx L" for m by (simp add: sender_def run_ops_defs)
  show ?thesis
  proof (cases "no_room cx L (length (rate_text nt))")
    case True
    then have "mode_j cx L = eat_arg (see MODE_JOINRATE (count_param L))"
      using lev ok assms(3) nt0 by (cases "mr_args L") (simp_all add: mode_j_def Let_def nt_def snd)
    then show ?thesis using quiet_simple by (simp add: quiet_follows assms(1))
  next
    case room: False
    show ?thesis
    proof (rule param_follows [OF assms(1) rate_change [where pos = True and nt = nt] _ rate_good [OF nt(1)], where x = MODE_JOINRATE])
      show "mode_j cx L = eat_arg (ADD_PARA (rate_text nt) (add_letter CHR ''j'' (on_chan cx (rate_change True nt) (see MODE_JOINRATE (count_param L)))))"
        using lev assms(3) ok nt0 room by (cases "mr_args L") (simp_all add: mode_j_def Let_def set_rate_change nt_def snd)
      fix R rest
      assume r: "alike cx cx' M L R" "mr_args R = rate_text nt # rest"
        "\<And>n. n \<le> NICKLEN + 1 \<or> n \<le> length (rate_text nt) + 1 \<Longrightarrow> \<not> no_room cx' R n"
      have "\<not> no_room cx' R (length (rate_text nt))" by (rule r(3)) simp
      moreover have "mr_change R" using r(1) assms(3) by (simp add: alike_def)
      moreover have "\<not> MyClient (sender cx' (see m (count_param R)))" for m
        using alike_sender(4) [OF r(1)] by (simp add: sender_def run_ops_defs)
      ultimately show "Some (mode_j cx' R) =
          Some (eat_arg (ADD_PARA (rate_text nt) (add_letter CHR ''j'' (on_chan cx' (rate_change True nt) (see MODE_JOINRATE (count_param R))))))"
        using lev ok r(1,2) nt not_too_many [OF r(1)] not_seen [OF r(1)]
        by (simp add: mode_j_def Let_def set_rate_change alike_sender(6-8) [OF r(1)])
    qed simp_all
  qed
qed

lemma follows_j:
  assumes "sane cx M L"
  shows "follows cx cx' M CHR ''j'' L (mode_j cx L) (\<lambda>R. Some (mode_j cx' R))"
proof (cases "check_level (mc_level cx) 1 (sender cx L)")
  case True
  then show ?thesis using quiet_simple by (intro quiet_follows assms) (simp add: mode_j_def)
qed (use follows_j_minus follows_j_plus assms in blast)

definition key_change :: "cstr \<Rightarrow> aChannel \<Rightarrow> aChannel" where
  "key_change k ch = ch\<lparr>ch_mode := (ch_mode ch)\<lparr>md_key := k\<rparr>\<rparr>"

lemma key_change: "mode_change (\<lambda>m. m\<lparr>md_key := k\<rparr>) (key_change k)"
  by (simp add: mode_change_def key_change_def)

lemma set_key_letter: "add_letter c (ADD_PARA p (set_key cx k r)) = ADD_PARA p (add_letter c (on_chan cx (key_change k) r))"
  by (simp add: set_key_def key_change_def [abs_def] run_ops_defs)

lemma bad_key_take: "\<not> bad_key a \<Longrightarrow> \<not> bad_key (take KEYLEN a)"
  by (cases a) (auto simp: bad_key_def colon_or_empty_def KEYLEN_def dest: in_set_takeD)

lemma good_key: "\<not> bad_key k \<Longrightarrow> good_param k"
  by (simp add: bad_key_def good_param_def)

text \<open>The key that is sent, and the key that is left.\<close>

definition sent_key :: "mode_ctx \<Rightarrow> mode_run \<Rightarrow> cstr \<Rightarrow> cstr" where
  "sent_key cx r a =
     (if mr_change r then take KEYLEN a
      else if md_key (ch_mode (chan cx r)) = [] then a else md_key (ch_mode (chan cx r)))"

lemma mode_k_sends:
  assumes "\<not> check_level (mc_level cx) 1 (sender cx r)" and "mr_args r = a # as" and "\<not> too_many cx (count_param r)"
    and "\<not> seen_already cx MODE_KEY r" and "\<not> bad_key a" and "\<not> no_room cx r (KEYLEN + 2)"
  shows "mode_k cx r = eat_arg (ADD_PARA (sent_key cx r a) (add_letter CHR ''k''
     (on_chan cx (key_change (if mr_change r then take KEYLEN a else [])) (see MODE_KEY (count_param r)))))"
proof -
  have "chan cx (see MODE_KEY (count_param r)) = chan cx r" by (simp add: chan_def run_ops_defs)
  then show ?thesis using assms by (simp add: mode_k_def Let_def set_key_letter sent_key_def)
qed

lemma follows_k:
  assumes "sane cx M L"
  shows "follows cx cx' M CHR ''k'' L (mode_k cx L) (\<lambda>R. Some (mode_k cx' R))"
proof (cases "check_level (mc_level cx) 1 (sender cx L) \<or> mr_args L = [] \<or> too_many cx (count_param L) \<or> seen_already cx MODE_KEY L \<or>
    bad_key (hd (mr_args L)) \<or> no_room cx L (KEYLEN + 2)")
  case True
  then show ?thesis using assms quiet_simple
    by (intro quiet_follows) (auto simp: mode_k_def Let_def split: list.split)
next
  case ok: False
  then obtain a as where a: "mr_args L = a # as" by (cases "mr_args L") auto
  define p where "p = sent_key cx L a"
  define k where "k = (if mr_change L then take KEYLEN a else [])"
  have p: "\<not> bad_key p" using ok a assms bad_key_take by (auto simp: p_def sent_key_def sane_def key_ok_def)
  have k: "key_ok k" using ok a bad_key_take by (auto simp: k_def key_ok_def)
  show ?thesis
  proof (rule param_follows [OF assms key_change [where k = k] _ good_key [OF p], where x = MODE_KEY])
    show "mode_k cx L = eat_arg (ADD_PARA p (add_letter CHR ''k'' (on_chan cx (key_change k) (see MODE_KEY (count_param L)))))"
      using mode_k_sends [OF _ a] ok a by (simp add: p_def k_def)
    fix R rest
    assume r: "alike cx cx' M L R" "mr_args R = p # rest" "\<And>n. n \<le> NICKLEN + 1 \<or> n \<le> length p + 1 \<Longrightarrow> \<not> no_room cx' R n"
    have room: "\<not> no_room cx' R (KEYLEN + 2)" by (rule r(3)) (simp add: NICKLEN_def KEYLEN_def)
    have c: "mr_change R = mr_change L" "ch_mode (chan cx' R) = ch_mode (chan cx L)" using r(1) by (simp_all add: alike_def same_channel_def)
    have "sent_key cx' R p = p" "(if mr_change R then take KEYLEN p else []) = k" using c by (simp_all add: sent_key_def p_def k_def)
    then show "Some (mode_k cx' R) = Some (eat_arg (ADD_PARA p (add_letter CHR ''k'' (on_chan cx' (key_change k) (see MODE_KEY (count_param R))))))"
      using mode_k_sends [OF _ r(2), of cx'] room p ok not_too_many [OF r(1)] not_seen [OF r(1)] by (simp add: alike_sender(6-8) [OF r(1)])
  qed (use k in simp_all)
qed

text \<open>Masks are parameters that can be sent.\<close>

lemma collapse_head: "w \<noteq> [] \<Longrightarrow> collapse w \<noteq> [] \<and> hd (collapse w) = hd w"
  by (cases w) (auto simp: collapse.simps(2) split: list.split)

lemma set_collapse: "x \<in> set (collapse w) \<Longrightarrow> x \<in> set w"
proof (induction w rule: collapse.induct)
  case (2 c cs)
  show ?case
  proof (cases cs)
    case (Cons d ds)
    consider "c = CHR 0x5C" | "c = CHR ''*''" "d = CHR ''*''" | "c = CHR ''*''" "d = CHR ''?''"
      | "c = CHR ''*''" "d \<noteq> CHR ''*''" "d \<noteq> CHR ''?''" | "c \<noteq> CHR 0x5C" "c \<noteq> CHR ''*''" by blast
    then show ?thesis
      using "2.IH" "2.prems" Cons by cases (auto dest: set_dropWhileD set_takeWhileD)
  qed (use "2.prems" in simp)
qed simp

lemma mask_head:
  "hd (make_nick_user_host nick u h) = (case nick of None \<Rightarrow> CHR ''*'' | Some t \<Rightarrow> if t = [] \<or> IsSpace (hd t) then CHR ''*'' else hd t)"
proof -
  have "hd (take NICKLEN (check_string nick) @ r) = hd (check_string nick)" for r
    using check_string_text [of nick] by (cases "check_string nick") (auto simp: NICKLEN_def)
  moreover have "hd (check_string nick) = (case nick of None \<Rightarrow> CHR ''*'' | Some t \<Rightarrow> if t = [] \<or> IsSpace (hd t) then CHR ''*'' else hd t)"
  proof (cases nick)
    case (Some t)
    then show ?thesis by (cases t) (auto simp: check_string_def)
  qed (simp add: check_string_def)
  ultimately show ?thesis by (simp add: make_nick_user_host_def)
qed

lemma pretty_head: "a \<noteq> [] \<Longrightarrow> hd (pretty_mask a) \<in> {CHR ''*'', hd a}"
  by (cases a) (auto simp: pretty_mask_def mask_head split_first_def split_last_def split: if_splits option.splits prod.splits)

lemma pretty_mask_form: "\<exists>n u h. pretty_mask a = make_nick_user_host n u h"
  by (auto simp: pretty_mask_def split: option.split prod.split)

lemma mask_good:
  assumes "\<not> colon_or_empty a"
  shows "good_param (mask_of a)"
proof -
  obtain n u h where f: "pretty_mask a = make_nick_user_host n u h" using pretty_mask_form by blast
  then have ne: "pretty_mask a \<noteq> []" by (simp add: make_nick_user_host_def)
  have sp: "IsSpace CHR '' ''" by code_simp
  have "CHR '' '' \<notin> set (pretty_mask a)" using mask_no_space [of n u h] sp f by auto
  then have "CHR '' '' \<notin> set (mask_of a)" using set_collapse [of _ "pretty_mask a"] by (auto simp: mask_of_def)
  moreover have "hd (mask_of a) \<in> {CHR ''*'', hd a}" "mask_of a \<noteq> []"
    using collapse_head [OF ne] pretty_head [of a] assms by (auto simp: mask_of_def colon_or_empty_def)
  ultimately show ?thesis using assms by (auto simp: good_param_def colon_or_empty_def)
qed

lemma del_first_subset: "set (fst (del_first str i es)) \<subseteq> set es"
  by (induction es) (auto split: prod.splits if_splits)

lemma same_but_list_frame: "same_but_list k ch ch1 \<Longrightarrow> frame_ok ch ch1"
  by (simp add: same_but_list_def frame_ok_def)

lemma same_but_list_same:
  assumes "same_channel a b" and "same_but_list k a a1" and "same_but_list k b b1" and "list_strs k a1 = list_strs k b1"
  shows "same_channel a1 b1"
proof -
  have "list_strs j a1 = list_strs j b1" for j using assms by (cases "j = k") (auto simp: same_but_list_def same_channel_def)
  then show ?thesis using assms(1-3) by (simp add: same_but_list_def same_channel_def)
qed

text \<open>A change of a list, in terms of the texts on it.\<close>

definition new_list :: "bool \<Rightarrow> cstr \<Rightarrow> cstr list \<Rightarrow> cstr list" where
  "new_list pos i xs = (if pos then i # xs else fst (del_first (\<lambda>x. x) i xs))"

lemma change_list_ok:
  assumes "mr_change r \<longrightarrow> refused (MyClient (sender cx r)) (list_max k) (list_strs k (chan cx r)) i 0 = None"
  shows "\<exists>ch1 out. change_list cx k i r = (True, say out (on_chan cx (\<lambda>_. ch1) r)) \<and> same_but_list k (chan cx r) ch1 \<and>
           list_strs k ch1 = new_list (mr_change r) i (list_strs k (chan cx r))"
proof (cases "mr_change r")
  case True
  then obtain ch1 out where "list_add k (mc_me cx) (mc_now cx) (mc_sptr cx) (sender cx r) (chan cx r) i = (0, ch1, out)"
    "same_but_list k (chan cx r) ch1" "list_strs k ch1 = i # list_strs k (chan cx r)"
    using list_add_new assms by blast
  with True show ?thesis by (auto simp: change_list_def new_list_def)
next
  case False
  obtain ch1 where "list_del k (chan cx r) (Some i) = (0, ch1)" "same_but_list k (chan cx r) ch1"
    "list_strs k ch1 = fst (del_first (\<lambda>x. x) i (list_strs k (chan cx r)))"
    using list_del_some by blast
  with False show ?thesis by (intro exI [of _ ch1] exI [of _ "[]"]) (simp add: change_list_def new_list_def say_def)
qed

lemma change_list_refused:
  assumes "mr_change r" and "refused (MyClient (sender cx r)) (list_max k) (list_strs k (chan cx r)) i 0 = Some f"
  shows "\<exists>out. change_list cx k i r = (False, say out (on_chan cx (\<lambda>_. chan cx r) r))"
  using assms list_add_refused [OF assms(2), of "mc_me cx" "mc_now cx" "mc_sptr cx"] by (auto simp: change_list_def)

lemma chan_count [simp]: "chan cx (count_param r) = chan cx r" "sender cx (count_param r) = sender cx r"
  by (simp_all add: chan_def sender_def run_ops_defs)

text \<open>The step for a list that succeeds.\<close>

lemma mode_list_sends:
  assumes "mr_args r = a # as" and "\<not> check_level (mc_level cx) 1 (sender cx r)" and "\<not> too_many cx (count_param r)"
    and "\<not> colon_or_empty a" and "\<not> no_room cx r (length (mask_of a) + 1)"
    and "mr_change r \<longrightarrow> refused (MyClient (sender cx r)) (list_max k) (list_strs k (chan cx r)) (mask_of a) 0 = None"
  shows "\<exists>ch1 out. mode_list cx k r = eat_arg (ADD_PARA (mask_of a) (add_letter (list_letter k) (say out (on_chan cx (\<lambda>_. ch1) (count_param r))))) \<and>
           same_but_list k (chan cx r) ch1 \<and> list_strs k ch1 = new_list (mr_change r) (mask_of a) (list_strs k (chan cx r))"
proof -
  obtain ch1 out where "change_list cx k (mask_of a) (count_param r) = (True, say out (on_chan cx (\<lambda>_. ch1) (count_param r)))"
    "same_but_list k (chan cx r) ch1" "list_strs k ch1 = new_list (mr_change r) (mask_of a) (list_strs k (chan cx r))"
    using change_list_ok [of "count_param r" cx k "mask_of a"] assms(6) by auto
  then show ?thesis using assms(1-5) by (intro exI [of _ ch1] exI [of _ out]) (simp add: mode_list_def Let_def mask_of_def)
qed

lemma mode_list_sends_emits:
  assumes "L1 = eat_arg (ADD_PARA p (add_letter c (say out (on_chan cx f (count_param L)))))" and "good_param p" and "mr_args L = a # as"
  shows "emits cx c [p] f L L1" "mr_args L1 = as" "mr_nparams L1 = mr_nparams L + 1"
  using assms by (simp_all add: emits_def announces_def run_ops_defs)

lemma mode_list_quiet:
  assumes "mr_args L = [] \<or> check_level (mc_level cx) 1 (sender cx L) \<or> too_many cx (count_param L) \<or> colon_or_empty (hd (mr_args L)) \<or>
      no_room cx L (length (mask_of (hd (mr_args L))) + 1) \<or>
      mr_change L \<and> refused (MyClient (sender cx L)) (list_max k) (list_strs k (chan cx L)) (mask_of (hd (mr_args L))) 0 \<noteq> None"
  shows "quiet cx L (mode_list cx k L)"
proof (cases "mr_args L")
  case Nil
  then show ?thesis by (simp add: mode_list_def show_list_def Let_def say_def quiet_def chan_def same_channel_refl core_clients_refl)
next
  case (Cons a as)
  show ?thesis
  proof (cases "check_level (mc_level cx) 1 (sender cx L) \<or> too_many cx (count_param L) \<or> colon_or_empty a \<or> no_room cx L (length (mask_of a) + 1)")
    case True
    with Cons quiet_simple show ?thesis by (auto simp: mode_list_def Let_def mask_of_def)
  next
    case False
    with assms Cons have c: "mr_change L" and "\<exists>f. refused (MyClient (sender cx L)) (list_max k) (list_strs k (chan cx L)) (mask_of a) 0 = Some f"
      by auto
    then obtain out where "change_list cx k (mask_of a) (count_param L) = (False, say out (on_chan cx (\<lambda>_. chan cx L) (count_param L)))"
      using change_list_refused [of "count_param L" cx k "mask_of a"] by auto
    then have "mode_list cx k L = eat_arg (say out (on_chan cx (\<lambda>_. chan cx L) (count_param L)))"
      using Cons False by (simp add: mode_list_def Let_def mask_of_def)
    then show ?thesis using Cons
      by (auto simp: quiet_def run_ops_defs chan_def chan_simps same_channel_refl core_clients_refl)
  qed
qed

lemma follows_list:
  assumes "sane cx M L"
  shows "follows cx cx' M (list_letter k) L (mode_list cx k L) (\<lambda>R. Some (mode_list cx' k R))"
proof (cases "mr_args L = [] \<or> check_level (mc_level cx) 1 (sender cx L) \<or> too_many cx (count_param L) \<or> colon_or_empty (hd (mr_args L)) \<or>
      no_room cx L (length (mask_of (hd (mr_args L))) + 1) \<or>
      mr_change L \<and> refused (MyClient (sender cx L)) (list_max k) (list_strs k (chan cx L)) (mask_of (hd (mr_args L))) 0 \<noteq> None")
  case True
  from quiet_follows [OF assms mode_list_quiet [OF this]] show ?thesis .
next
  case ok: False
  then obtain a as where a: "mr_args L = a # as" by (cases "mr_args L") auto
  define p where "p = mask_of a"
  have gp: "good_param p" using mask_good ok a by (simp add: p_def)
  have pM: "p \<in> M" "mask_of p = p" using assms a by (simp_all add: sane_def masks_in_def stable_masks_def p_def)
  have lM: "set (list_strs j (chan cx L)) \<subseteq> M" for j using assms by (simp add: sane_def masks_in_def)
  have plain: "MyClient (sender cx L) \<Longrightarrow> \<forall>e\<in>set (list_strs k (chan cx L)). mycmp e p = 0 \<longrightarrow> match e p = 0"
    using assms lM pM(1) by (auto simp: sane_def plain_masks_def)
  obtain ch1 out where ch1: "mode_list cx k L = eat_arg (ADD_PARA p (add_letter (list_letter k) (say out (on_chan cx (\<lambda>_. ch1) (count_param L)))))"
    "same_but_list k (chan cx L) ch1" "list_strs k ch1 = new_list (mr_change L) p (list_strs k (chan cx L))"
    using mode_list_sends [OF a, of cx k] ok a p_def by auto
  note e = mode_list_sends_emits [OF ch1(1) gp a]
  show ?thesis
  proof (rule emits_follows [OF assms e(1)])
    show "set (mr_args (mode_list cx k L)) \<subseteq> set (mr_args L)" using e(2) a by auto
    show "frame_ok (chan cx L) ch1" using same_but_list_frame [OF ch1(2)] .
    show "key_ok (md_key (ch_mode ch1))" using ch1(2) assms by (simp add: same_but_list_def sane_def)
    show "set (list_strs j ch1) \<subseteq> M" for j
      using ch1(2,3) lM pM(1) del_first_subset [of "\<lambda>x. x" p "list_strs k (chan cx L)"]
      by (cases "j = k") (auto simp: same_but_list_def new_list_def)
  next
    fix R rest
    assume r: "alike cx cx' M L R" "mr_args R = [p] @ rest" "\<And>n. n \<le> NICKLEN + 1 \<or> n \<le> sum_list (map length [p]) + 1 \<Longrightarrow> \<not> no_room cx' R n"
    have s: "same_channel (chan cx L) (chan cx' R)" "mr_change R = mr_change L" using r(1) by (simp_all add: alike_def)
    have l: "list_strs k (chan cx' R) = list_strs k (chan cx L)" using s(1) by (simp add: same_channel_def)
    have "mr_change R \<longrightarrow> refused (MyClient (sender cx' R)) (list_max k) (list_strs k (chan cx' R)) (mask_of p) 0 = None"
      using ok a s(2) l plain refused_remote [of "MyClient (sender cx L)" "list_max k" "list_strs k (chan cx L)" p "list_max k"]
      by (simp add: alike_sender(4) [OF r(1)] pM(2) p_def [symmetric])
    moreover have "\<not> no_room cx' R (length (mask_of p) + 1)" by (rule r(3)) (simp add: pM(2))
    moreover have "\<not> colon_or_empty p" using gp by (simp add: good_param_def)
    ultimately obtain ch2 out2 where ch2: "mode_list cx' k R = eat_arg (ADD_PARA p (add_letter (list_letter k) (say out2 (on_chan cx' (\<lambda>_. ch2) (count_param R)))))"
      "same_but_list k (chan cx' R) ch2" "list_strs k ch2 = new_list (mr_change R) p (list_strs k (chan cx' R))"
      using mode_list_sends [of R p rest cx' k] r(2) ok not_too_many [OF r(1)] by (auto simp: alike_sender(6-8) [OF r(1)] pM(2))
    have "mr_args R = p # rest" using r(2) by simp
    note e2 = mode_list_sends_emits [OF ch2(1) gp this]
    have "same_channel ch1 ch2" by (rule same_but_list_same [OF s(1) ch1(2) ch2(2)]) (simp add: ch1(3) ch2(3) s(2) l)
    then show "\<exists>R1 f'. Some (mode_list cx' k R) = Some R1 \<and> emits cx' (list_letter k) [p] f' R R1 \<and> mr_args R1 = rest \<and>
        mr_nparams R1 \<le> mr_nparams (mode_list cx k L) \<and> frame_ok (chan cx' R) (f' (chan cx' R)) \<and> same_channel ch1 (f' (chan cx' R))"
      using e(3) e2 same_but_list_frame [OF ch2(2)] r(1) by (auto simp: alike_def)
  qed
qed

text \<open>The modes of members.\<close>

definition member_change :: "bool \<Rightarrow> chanMember \<Rightarrow> aChannel \<Rightarrow> aChannel" where
  "member_change blast m ch = (if blast then (set_member m ch)\<lparr>ch_channelts := 0\<rparr> else set_member m ch)"

definition blasts :: "mode_ctx \<Rightarrow> char \<Rightarrow> mode_run \<Rightarrow> bool" where
  "blasts cx c r \<longleftrightarrow> IsServer (sender cx r) \<and> mr_change r \<and> c \<noteq> CHR ''v''"

definition new_status :: "mode_run \<Rightarrow> u32 \<Rightarrow> chanMember \<Rightarrow> chanMember" where
  "new_status r f cm = cm\<lparr>cm_flags := set_flag (mr_change r) f (cm_flags cm)\<rparr>"

lemma upd_chan_twice: "upd_chan a g (upd_chan a f st) = upd_chan a (\<lambda>ch. g (f ch)) st"
  by (simp add: upd_chan_def)

lemma member_sends_emits:
  assumes "L1 = blast_ts cx c (eat_arg (ADD_PARA p (add_letter c (on_chan cx (set_member m) (say out (count_param L))))))"
    and "good_param p" and "mr_args L = a # as"
  shows "emits cx c [p] (member_change (blasts cx c L) m) L L1" "mr_args L1 = as" "mr_nparams L1 = mr_nparams L + 1"
proof -
  let ?X = "eat_arg (ADD_PARA p (add_letter c (on_chan cx (set_member m) (say out (count_param L)))))"
  have X: "sender cx ?X = sender cx L" "mr_change ?X = mr_change L" "mr_args ?X = as" "mr_nparams ?X = mr_nparams L + 1"
    "emits cx c [p] (set_member m) L ?X"
    using assms(2,3) by (simp_all add: sender_def run_ops_defs chan_simps emits_def announces_def)
  have "emits cx c [p] (member_change (blasts cx c L) m) L L1 \<and> mr_args L1 = as \<and> mr_nparams L1 = mr_nparams L + 1"
  proof (cases "blasts cx c L")
    case True
    then have "L1 = say [To_ops (''Server %s setting +'' @ [c] @ '' and blasting TS on %s'') [S (c_name (sender cx ?X)), S (ch_chname (chan cx ?X))]]
        (on_chan cx (\<lambda>ch. ch\<lparr>ch_channelts := 0\<rparr>) ?X)"
      using X(1,2) unfolding assms(1) by (simp add: blast_ts_def blasts_def)
    then show ?thesis using X True
      by (simp add: emits_def announces_def say_def on_chan_def upd_chan_twice member_change_def [abs_def])
  next
    case False
    then have "L1 = ?X" using X(1,2) unfolding assms(1) by (auto simp: blast_ts_def blasts_def)
    then show ?thesis using X False by (simp add: member_change_def [abs_def])
  qed
  then show "emits cx c [p] (member_change (blasts cx c L) m) L L1" "mr_args L1 = as" "mr_nparams L1 = mr_nparams L + 1" by simp_all
qed

lemma mode_member_sends:
  assumes "\<not> check_level (mc_level cx) lev (sender cx r)" and "mr_args r = a # as" and "\<not> too_many cx (count_param r)"
    and "find_chasing cx (cs_clients (mr_st r)) a = (Some w, x, out)" and "find_user_member (ch_members (chan cx r)) w = Some cm"
    and "\<not> no_room cx r (NICKLEN + 1)"
  shows "mode_member cx lev f c r = blast_ts cx c (eat_arg (ADD_PARA (c_name (cs_clients (mr_st r) (cm_cptr cm)))
     (add_letter c (on_chan cx (set_member (new_status r f cm)) (say out (count_param r))))))"
proof -
  have "chan cx (say out (count_param r)) = chan cx r" "mr_st (say out (count_param r)) = mr_st r"
    "mr_st (count_param r) = mr_st r"
    by (simp_all add: chan_def run_ops_defs)
  then show ?thesis using assms by (simp add: mode_member_def Let_def new_status_def)
qed

lemma mode_member_quiet:
  assumes "check_level (mc_level cx) lev (sender cx L) \<or> mr_args L = [] \<or> too_many cx (count_param L) \<or> no_room cx L (NICKLEN + 1) \<or>
    Option.bind (fst (find_chasing cx (cs_clients (mr_st L)) (hd (mr_args L)))) (find_user_member (ch_members (chan cx L))) = None"
  shows "quiet cx L (mode_member cx lev f c L)"
proof -
  have s: "chan cx (say out (count_param L)) = chan cx L" "mr_st (count_param L) = mr_st L" for out by (simp_all add: chan_def run_ops_defs)
  have "quiet cx L (eat_arg (say ms (say out (count_param L))))" "quiet cx L (eat_arg (say out (count_param L)))" for ms out
    by (auto simp: quiet_def run_ops_defs chan_def same_channel_refl core_clients_refl intro: set_tl)
  then show ?thesis using assms quiet_simple
    by (auto simp: mode_member_def Let_def s split: list.split prod.split option.split)
qed

lemma member_change_props:
  assumes "find_user_member (ch_members ch) w = Some cm"
  shows "frame_ok ch (member_change b (new_status r f cm) ch)" "ch_mode (member_change b m ch) = ch_mode ch"
    "list_strs k (member_change b m ch) = list_strs k ch"
  by (auto simp: frame_ok_def member_change_def set_member_def new_status_def)

lemma member_change_same:
  assumes "same_channel a b" and "status_of m = status_of n"
  shows "same_channel (member_change x m a) (member_change x n b)"
  using assms set_member_status [of "ch_members a" "ch_members b" m n]
  by (simp add: same_channel_def member_change_def set_member_def)

lemma follows_member:
  assumes "sane cx M L"
  shows "follows cx cx' M c L (mode_member cx lev f c L) (\<lambda>R. Some (mode_member cx' lev f c R))"
proof (cases "check_level (mc_level cx) lev (sender cx L) \<or> mr_args L = [] \<or> too_many cx (count_param L) \<or> no_room cx L (NICKLEN + 1) \<or>
    Option.bind (fst (find_chasing cx (cs_clients (mr_st L)) (hd (mr_args L)))) (find_user_member (ch_members (chan cx L))) = None")
  case True
  from quiet_follows [OF assms mode_member_quiet [OF this]] show ?thesis .
next
  case ok: False
  then obtain a as where a: "mr_args L = a # as" by (cases "mr_args L") auto
  obtain w x out where w: "find_chasing cx (cs_clients (mr_st L)) a = (Some w, x, out)"
    using ok a by (cases "find_chasing cx (cs_clients (mr_st L)) a"; cases "fst (find_chasing cx (cs_clients (mr_st L)) a)") auto
  obtain cm where cm: "find_user_member (ch_members (chan cx L)) w = Some cm" using ok a w by auto
  have cw: "cm_cptr cm = w" "w \<in> set (members_of (mr_st L) (mc_chp cx))"
    using find_SomeD [OF cm [unfolded find_user_member_def]] by (auto simp: members_of_def chan_def)
  define p where "p = c_name (cs_clients (mr_st L) w)"
  have gp: "good_param p" using assms cw(2) by (simp add: p_def sane_def)
  have L1: "mode_member cx lev f c L = blast_ts cx c (eat_arg (ADD_PARA p (add_letter c (on_chan cx (set_member (new_status L f cm)) (say out (count_param L))))))"
    using mode_member_sends [OF _ a _ w cm] ok by (simp add: p_def cw(1))
  note e = member_sends_emits [OF L1 gp a]
  show ?thesis
  proof (rule emits_follows [OF assms e(1)])
    show "set (mr_args (mode_member cx lev f c L)) \<subseteq> set (mr_args L)" using e(2) a by auto
  next
    fix R rest
    assume r: "alike cx cx' M L R" "mr_args R = [p] @ rest" "\<And>n. n \<le> NICKLEN + 1 \<or> n \<le> sum_list (map length [p]) + 1 \<Longrightarrow> \<not> no_room cx' R n"
    have v: "view cx cx' (mr_st L) (mr_st R)" using r(1) by (simp add: alike_def)
    have s: "same_channel (chan cx L) (chan cx' R)" "mr_change R = mr_change L" using r(1) by (simp_all add: alike_def)
    obtain n where n: "find_user_member (ch_members (chan cx' R)) w = Some n" "status_of n = status_of cm"
      using find_member_status [OF _ cm] s(1) by (auto simp: same_channel_def)
    have "find_chasing cx' (cs_clients (mr_st R)) p = (Some w, False, [])"
      using v cw(2) by (simp add: view_def find_chasing_def p_def)
    moreover have "c_name (cs_clients (mr_st R) (cm_cptr n)) = p"
      using v n(2) cw(1) by (simp add: view_def same_clients_def p_def status_of_def)
    moreover have "\<not> no_room cx' R (NICKLEN + 1)" by (rule r(3)) simp
    ultimately have R1: "mode_member cx' lev f c R = blast_ts cx' c (eat_arg (ADD_PARA p (add_letter c (on_chan cx' (set_member (new_status R f n)) (say [] (count_param R))))))"
      using mode_member_sends [of cx' lev R p rest] r(2) n(1) ok not_too_many [OF r(1)] by (simp add: alike_sender(6-8) [OF r(1)])
    have "mr_args R = p # rest" using r(2) by simp
    note e2 = member_sends_emits [OF R1 gp this]
    have "status_of (new_status R f n) = status_of (new_status L f cm)" using status_set_flag [OF n(2)] s(2) by (simp add: new_status_def)
    moreover have "blasts cx' c R = blasts cx c L" using s(2) by (simp add: blasts_def alike_sender(1) [OF r(1)])
    ultimately have "same_channel (member_change (blasts cx c L) (new_status L f cm) (chan cx L)) (member_change (blasts cx' c R) (new_status R f n) (chan cx' R))"
      using member_change_same [OF s(1)] by simp
    then show "\<exists>R1 f'. Some (mode_member cx' lev f c R) = Some R1 \<and> emits cx' c [p] f' R R1 \<and> mr_args R1 = rest \<and>
        mr_nparams R1 \<le> mr_nparams (mode_member cx lev f c L) \<and> frame_ok (chan cx' R) (f' (chan cx' R)) \<and>
        same_channel (member_change (blasts cx c L) (new_status L f cm) (chan cx L)) (f' (chan cx' R))"
      using e(3) e2 member_change_props(1) [OF n(1)] r(1) by (intro exI conjI) (auto simp: alike_def)
  qed (use member_change_props [OF cm] assms in \<open>auto simp: sane_def masks_in_def\<close>)
qed

text \<open>Mode i: removing it deletes the invitations, of which other servers know nothing.\<close>

lemma core_clients_trans: "core_clients a b \<Longrightarrow> core_clients b c \<Longrightarrow> core_clients a c"
  by (simp add: core_clients_def)

lemma del_invites_keeps:
  assumes "del_invites ps a st = Some st1"
  shows "core_clients (cs_clients st) (cs_clients st1) \<and> cs_channel st1 = cs_channel st \<and>
     (\<exists>is. cs_channels st1 a = (cs_channels st a)\<lparr>ch_invites := is\<rparr>)"
  using assms
proof (induction ps arbitrary: st)
  case Nil
  have "cs_channels st1 a = (cs_channels st1 a)\<lparr>ch_invites := ch_invites (cs_channels st1 a)\<rparr>" by simp
  then have "\<exists>is. cs_channels st1 a = (cs_channels st1 a)\<lparr>ch_invites := is\<rparr>" by (rule exI)
  with Nil show ?case by (simp add: core_clients_refl)
next
  case (Cons p ps)
  then obtain st0 where st0: "del_invite p a st = Some st0" "del_invites ps a st0 = Some st1" by (auto simp: bind_eq_Some_conv)
  have "core_clients (cs_clients st) (cs_clients st0)" "cs_channel st0 = cs_channel st"
    "\<exists>is. cs_channels st0 a = (cs_channels st a)\<lparr>ch_invites := is\<rparr>"
    using st0(1) by (auto simp: del_invite_def upd_user_def chan_simps core_clients_def split: option.splits)
  with Cons.IH [OF st0(2)] show ?case using core_clients_trans by auto
qed

lemma invites_same_channel:
  assumes "b = a\<lparr>ch_invites := is\<rparr>"
  shows "same_channel a b" "map cm_cptr (ch_members b) = map cm_cptr (ch_members a)"
  using assms by (simp_all add: same_channel_def all_list_kind)

lemma quiet_invites:
  assumes "del_invites ps (mc_chp cx) (mr_st L) = Some st1"
  shows "quiet cx L (L\<lparr>mr_st := st1\<rparr>)" "members_of st1 (mc_chp cx) = members_of (mr_st L) (mc_chp cx)"
  using del_invites_keeps [OF assms] invites_same_channel by (auto simp: quiet_def chan_def members_of_def)

lemma follows_after:
  assumes q: "quiet cx L L0" "mr_args L0 = mr_args L" and f: "follows cx cx' M c L0 L1 h0"
    and sim: "\<And>R. alike cx cx' M L R \<Longrightarrow> \<exists>R0. h R = h0 R0 \<and> alike cx cx' M L0 R0 \<and> cptr_name cx' R0 = cptr_name cx' R \<and>
       quiet cx' R R0 \<and> mr_args R0 = mr_args R"
  shows "follows cx cx' M c L L1 h"
proof (cases "quiet cx L0 L1")
  case True
  with f quiet_trans [OF q(1)] show ?thesis by (auto simp: follows_def)
next
  case False
  then obtain ps where ps: "announces cx c ps L0 L1" "replays cx cx' M c ps L0 L1 h0" using f by (auto simp: follows_def)
  have early: "announces cy c ps r r1" if "quiet cy r r0" "announces cy c ps r0 r1" for cy r r0 r1
    using that fold_para_pbuf [of r r0 ps] by (simp add: announces_def quiet_def)
  have "replays cx cx' M c ps L L1 h"
    unfolding replays_def
  proof (intro allI impI)
    fix R rest
    assume a: "alike cx cx' M L R" "mr_args R = ps @ rest" "fits cx' R L1"
    obtain R0 where R0: "h R = h0 R0" "alike cx cx' M L0 R0" "cptr_name cx' R0 = cptr_name cx' R" "quiet cx' R R0" "mr_args R0 = mr_args R"
      using sim [OF a(1)] by blast
    have "fits cx' R0 L1" using a(3) R0(3,4) by (simp add: fits_def quiet_def same_channel_def)
    then obtain R1 where "h0 R0 = Some R1" "announces cx' c ps R0 R1" "mr_args R1 = rest" "alike cx cx' M L1 R1" "cptr_name cx' R1 = cptr_name cx' R0"
      "ch_chname (chan cx' R1) = ch_chname (chan cx' R0)"
      using ps(2) R0(2,5) a(2) by (auto simp: replays_def)
    moreover have "ch_chname (chan cx' R0) = ch_chname (chan cx' R)" using R0(4) by (simp add: quiet_def same_channel_def)
    ultimately show "\<exists>R1. h R = Some R1 \<and> announces cx' c ps R R1 \<and> mr_args R1 = rest \<and> alike cx cx' M L1 R1 \<and>
        cptr_name cx' R1 = cptr_name cx' R \<and> ch_chname (chan cx' R1) = ch_chname (chan cx' R)"
      using R0 early by auto
  qed
  moreover have "announces cx c ps L L1" using early [OF q(1) ps(1)] .
  ultimately show ?thesis using f by (auto simp: follows_def)
qed

lemma alike_invites:
  assumes "alike cx cx' M L R" and "del_invites ps (mc_chp cx) (mr_st L) = Some st1" and "ps' = ch_invites (chan cx' R)"
  shows "\<exists>st2. del_invites ps' (mc_chp cx') (mr_st R) = Some st2 \<and> alike cx cx' M (L\<lparr>mr_st := st1\<rparr>) (R\<lparr>mr_st := st2\<rparr>)"
proof -
  have v: "view cx cx' (mr_st L) (mr_st R)" and cp: "mc_chp cx' = mc_chp cx" using assms(1) by (simp_all add: alike_def view_def)
  obtain st2 where st2: "del_invites ps' (mc_chp cx) (mr_st R) = Some st2" "chans_ok st2" "links_ok st2"
    by (rule del_invites_ok [of "mr_st R" "mc_chp cx" ps']) (use v assms(3) cp in \<open>simp_all add: view_def invites_of_def chan_def\<close>)
  note k1 = del_invites_keeps [OF assms(2)] and k2 = del_invites_keeps [OF st2(1)]
  have "view cx cx' st1 st2"
    by (rule view_core [OF v]) (use k1 k2 st2 quiet_invites(2) [OF assms(2)] in auto)
  moreover have "same_channel (cs_channels st1 (mc_chp cx)) (cs_channels st2 (mc_chp cx))"
    using assms(1) k1 k2 invites_same_channel(1) same_channel_trans same_channel_sym cp unfolding alike_def chan_def by metis
  ultimately show ?thesis using assms(1) st2(1) cp by (auto simp: alike_def chan_def)
qed

lemma follows_i:
  assumes "sane cx M L" and "mode_i cx L = Some L1"
  shows "follows cx cx' M CHR ''i'' L L1 (mode_i cx')"
proof (cases "check_level (mc_level cx) 2 (sender cx L)")
  case True
  with assms quiet_simple show ?thesis by (auto simp: mode_i_def intro: quiet_follows)
next
  case lev: False
  show ?thesis
  proof (cases "mr_change L")
    case True
    have L1: "L1 = mode_flag cx CHR ''i'' L" using assms(2) lev True by (simp add: mode_i_def)
    show ?thesis
    proof (rule follows_after [OF quiet_simple(4) refl follows_flag [OF assms(1), of cx' "CHR ''i''", folded L1]])
      fix R
      assume r: "alike cx cx' M L R"
      then have "mr_change R" using True by (simp add: alike_def)
      then have "mode_i cx' R = Some (mode_flag cx' CHR ''i'' R)" using lev by (simp add: mode_i_def alike_sender(6-8) [OF r])
      with r quiet_simple(4) show "\<exists>R0. mode_i cx' R = Some (mode_flag cx' CHR ''i'' R0) \<and> alike cx cx' M L R0 \<and>
          cptr_name cx' R0 = cptr_name cx' R \<and> quiet cx' R R0 \<and> mr_args R0 = mr_args R" by blast
    qed
  next
    case False
    then obtain st1 where st1: "del_invites (ch_invites (chan cx L)) (mc_chp cx) (mr_st L) = Some st1" "L1 = mode_flag cx CHR ''i'' (L\<lparr>mr_st := st1\<rparr>)"
      using assms(2) lev by (auto simp: mode_i_def)
    note q = quiet_invites(1) [OF st1(1)]
    show ?thesis
    proof (rule follows_after [OF q _ follows_flag [OF sane_quiet [OF assms(1) q], of cx' "CHR ''i''", folded st1(2)]])
      fix R
      assume r: "alike cx cx' M L R"
      obtain st2 where st2: "del_invites (ch_invites (chan cx' R)) (mc_chp cx') (mr_st R) = Some st2" "alike cx cx' M (L\<lparr>mr_st := st1\<rparr>) (R\<lparr>mr_st := st2\<rparr>)"
        using alike_invites [OF r st1(1) refl] by blast
      have "\<not> mr_change R" using r False by (simp add: alike_def)
      then have "mode_i cx' R = Some (mode_flag cx' CHR ''i'' (R\<lparr>mr_st := st2\<rparr>))"
        using lev st2(1) by (simp add: mode_i_def alike_sender(6-8) [OF r])
      moreover have "cptr_name cx' (R\<lparr>mr_st := st2\<rparr>) = cptr_name cx' R"
        using del_invites_keeps [OF st2(1)] core_clientsD(1) by (simp add: cptr_name_def)
      ultimately show "\<exists>R0. mode_i cx' R = Some (mode_flag cx' CHR ''i'' R0) \<and> alike cx cx' M (L\<lparr>mr_st := st1\<rparr>) R0 \<and>
          cptr_name cx' R0 = cptr_name cx' R \<and> quiet cx' R R0 \<and> mr_args R0 = mr_args R"
        using st2 quiet_invites(1) [OF st2(1)] by auto
    qed simp
  qed
qed

lemma switch_simps:
  "mode_switch cx CHR ''O'' = (\<lambda>r. Some (mode_O cx r))"
  "mode_switch cx CHR ''o'' = (\<lambda>r. Some (mode_member cx 2 CHFL_CHANOP CHR ''o'' r))"
  "mode_switch cx CHR ''v'' = (\<lambda>r. Some (mode_member cx 1 CHFL_VOICE CHR ''v'' r))"
  "mode_switch cx CHR ''h'' = (\<lambda>r. Some (mode_member cx 2 CHFL_HALFOP CHR ''h'' r))"
  "mode_switch cx CHR ''j'' = (\<lambda>r. Some (mode_j cx r))"
  "mode_switch cx CHR ''l'' = (\<lambda>r. Some (mode_l cx r))"
  "mode_switch cx CHR ''k'' = (\<lambda>r. Some (mode_k cx r))"
  "mode_switch cx CHR ''r'' = (\<lambda>r. Some (mode_server cx (\<not> IsServer (sender cx r) \<and> \<not> IsULine (sender cx r)) MODE_REGISTERED CHR ''r'' r))"
  "mode_switch cx CHR ''L'' = (\<lambda>r. Some (mode_server cx (MyClient (sender cx r)) MODE_LISTED CHR ''L'' r))"
  "mode_switch cx CHR ''i'' = mode_i cx"
  by (simp_all add: mode_switch_def fun_eq_iff)

lemma switch_list: "mode_switch cx (list_letter k) = (\<lambda>r. Some (mode_list cx k r))"
  by (cases k) (simp_all add: mode_switch_def fun_eq_iff)

lemma switch_flag:
  "c \<notin> {CHR ''+'', CHR ''-'', CHR ''O'', CHR ''o'', CHR ''v'', CHR ''h'', CHR ''I'', CHR ''e'', CHR ''b'', CHR ''j'', CHR ''l'', CHR ''k'', CHR ''r'', CHR ''L'', CHR ''i''} \<Longrightarrow>
   mode_switch cx c = (\<lambda>r. Some (mode_flag cx c r))"
  by (simp add: mode_switch_def fun_eq_iff)

lemma follows_switch:
  assumes "sane cx M L" and "mode_switch cx c L = Some L1" and "c \<noteq> CHR ''+''" "c \<noteq> CHR ''-''"
  shows "follows cx cx' M c L L1 (mode_switch cx' c)"
proof -
  consider "c = CHR ''O''" | "c = CHR ''o''" | "c = CHR ''v''" | "c = CHR ''h''" | k where "c = list_letter k" | "c = CHR ''j''" | "c = CHR ''l''"
    | "c = CHR ''k''" | "c = CHR ''r''" | "c = CHR ''L''" | "c = CHR ''i''"
    | "c \<notin> {CHR ''+'', CHR ''-'', CHR ''O'', CHR ''o'', CHR ''v'', CHR ''h'', CHR ''I'', CHR ''e'', CHR ''b'', CHR ''j'', CHR ''l'', CHR ''k'', CHR ''r'', CHR ''L'', CHR ''i''}"
    using list_letter.simps assms(3,4) by (metis insertE empty_iff)
  then show ?thesis
  proof cases
    case 9
    have "follows cx cx' M c L (mode_server cx (\<not> IsServer (sender cx L) \<and> \<not> IsULine (sender cx L)) MODE_REGISTERED c L)
        (\<lambda>R. Some (mode_server cx' (\<not> IsServer (sender cx' R) \<and> \<not> IsULine (sender cx' R)) MODE_REGISTERED c R))"
      by (rule follows_server [OF assms(1)]) (use alike_sender in blast)
    with 9 assms(2) show ?thesis by (simp add: switch_simps)
  next
    case 10
    have "follows cx cx' M c L (mode_server cx (MyClient (sender cx L)) MODE_LISTED c L)
        (\<lambda>R. Some (mode_server cx' (MyClient (sender cx' R)) MODE_LISTED c R))"
      by (rule follows_server [OF assms(1)]) (use alike_sender in blast)
    with 10 assms(2) show ?thesis by (simp add: switch_simps)
  qed (use assms(2) follows_O [OF assms(1)] follows_member [OF assms(1)] follows_list [OF assms(1)] follows_j [OF assms(1)]
      follows_l [OF assms(1)] follows_k [OF assms(1)] follows_i [OF assms(1)] follows_flag [OF assms(1)] in
    \<open>auto simp: switch_simps switch_list switch_flag\<close>)
qed

subsection \<open>The whole text\<close>

text \<open>
  The text announced so far is \<open>strip_sign (mr_mbuf L)\<close>; a sign behind it waits for the next letter.
\<close>

definition is_sign :: "char \<Rightarrow> bool" where
  "is_sign c \<longleftrightarrow> c = CHR ''+'' \<or> c = CHR ''-''"

definition well_signed :: "mode_run \<Rightarrow> bool" where
  "well_signed L \<longleftrightarrow> mr_mbuf L \<noteq> [] \<and> (is_sign (last (mr_mbuf L)) \<longrightarrow> mr_change L = (last (mr_mbuf L) = CHR ''+''))"

definition waiting :: "cstr \<Rightarrow> cstr" where
  "waiting m = (if is_sign (last m) then [last m] else [])"

definition synced :: "mode_ctx \<Rightarrow> mode_ctx \<Rightarrow> mode_run \<Rightarrow> mode_run \<Rightarrow> bool" where
  "synced cx cx' L R \<longleftrightarrow>
     well_signed L \<and> mr_pbuf R = mr_pbuf L \<and> mr_nparams R \<le> mr_nparams L \<and> same_channel (chan cx L) (chan cx' R) \<and>
     view cx cx' (mr_st L) (mr_st R) \<and> (\<not> is_sign (last (mr_mbuf L)) \<longrightarrow> mr_change R = mr_change L) \<and>
     (if strip_sign (mr_mbuf L) = [] then mr_mbuf R = ''+'' \<and> mr_change R
      else length (mr_mbuf R) \<le> length (strip_sign (mr_mbuf L)) \<and> \<not> is_sign (last (mr_mbuf R)))"

lemma strip_waiting: "m \<noteq> [] \<Longrightarrow> m = strip_sign m @ waiting m"
  by (auto simp: strip_sign_def waiting_def is_sign_def)

lemma sign_step:
  assumes "well_signed L" and "is_sign c"
  shows "well_signed (mode_sign c L)" "strip_sign (mr_mbuf (mode_sign c L)) = strip_sign (mr_mbuf L)"
    "is_sign (last (mr_mbuf (mode_sign c L))) \<or> mr_change (mode_sign c L) = mr_change L \<and> last (mr_mbuf (mode_sign c L)) = last (mr_mbuf L)"
  using assms by (auto simp: mode_sign_def well_signed_def is_sign_def strip_sign_def Let_def)

lemma sign_keeps:
  "mr_st (mode_sign c L) = mr_st L" "mr_args (mode_sign c L) = mr_args L" "mr_pbuf (mode_sign c L) = mr_pbuf L"
  "mr_nparams (mode_sign c L) = mr_nparams L" "mr_nmodes (mode_sign c L) = mr_nmodes L" "mr_errors (mode_sign c L) = mr_errors L"
  by (simp_all add: mode_sign_def Let_def)

lemma more_params_keeps:
  "mr_st (more_params cx c L) = mr_st L" "mr_args (more_params cx c L) = mr_args L" "mr_pbuf (more_params cx c L) = mr_pbuf L"
  "mr_nparams (more_params cx c L) = mr_nparams L" "mr_nmodes (more_params cx c L) = mr_nmodes L" "mr_mbuf (more_params cx c L) = mr_mbuf L"
  "mr_change (more_params cx c L) = mr_change L"
  by (simp_all add: more_params_def say_def)

lemma more_params_remote: "\<not> MyClient (sender cx R) \<Longrightarrow> more_params cx c R = R"
  by (simp add: more_params_def)

lemma synced_sign:
  assumes "synced cx cx' L R" and "is_sign c"
  shows "synced cx cx' (mode_sign c L) R"
  using assms sign_step [of L c] by (auto simp: synced_def sign_keeps chan_def)

lemma synced_cong:
  assumes "synced cx cx' L R" and "mr_st L1 = mr_st L" "mr_mbuf L1 = mr_mbuf L" "mr_pbuf L1 = mr_pbuf L" "mr_change L1 = mr_change L"
    "mr_nparams L \<le> mr_nparams L1"
  shows "synced cx cx' L1 R"
  using assms by (auto simp: synced_def well_signed_def chan_def)

lemma synced_quiet:
  assumes "synced cx cx' L R" and "quiet cx L L1"
  shows "synced cx cx' L1 R"
proof -
  have v: "view cx cx' (mr_st L) (mr_st R)" using assms(1) by (simp add: synced_def)
  have "members_of (mr_st L1) (mc_chp cx) = members_of (mr_st L) (mc_chp cx)"
    using assms(2) same_channel_members [of "chan cx L" "chan cx L1"] by (simp add: quiet_def members_of_def chan_def)
  then have "view cx cx' (mr_st L1) (mr_st R)"
    using assms(2) v by (intro view_core [OF v]) (auto simp: quiet_def view_def core_clients_refl)
  moreover have "same_channel (chan cx L1) (chan cx' R)"
    using assms by (meson quiet_def synced_def same_channel_trans same_channel_sym)
  ultimately show ?thesis using assms by (auto simp: synced_def quiet_def well_signed_def)
qed

text \<open>The other server reads the waiting sign before the letter.\<close>

lemma catch_up:
  assumes "synced cx cx' L R"
  shows "\<exists>R2. mode_loop cx' (waiting (mr_mbuf L)) R = Some R2 \<and> alike cx cx' M L R2 \<and> mr_args R2 = mr_args R \<and> mr_nmodes R2 = mr_nmodes R \<and>
     cptr_name cx' R2 = cptr_name cx' R \<and> mr_pbuf R2 = mr_pbuf R \<and> chan cx' R2 = chan cx' R"
proof (cases "is_sign (last (mr_mbuf L))")
  case False
  then have "strip_sign (mr_mbuf L) = mr_mbuf L" "mr_mbuf L \<noteq> []"
    using assms by (auto simp: strip_sign_def is_sign_def synced_def well_signed_def)
  then have "alike cx cx' M L R" using assms False by (auto simp: alike_def synced_def)
  with False show ?thesis by (simp add: waiting_def)
next
  case True
  define c where "c = last (mr_mbuf L)"
  have c: "is_sign c" "mr_change L = (c = CHR ''+'')" using True assms by (simp_all add: c_def synced_def well_signed_def)
  have len: "length (mr_mbuf L) = length (strip_sign (mr_mbuf L)) + 1"
    using True assms by (auto simp: strip_sign_def is_sign_def synced_def well_signed_def)
  have s: "mode_switch cx' c R = Some (mode_sign c R)" using c(1) by (auto simp: mode_switch_def is_sign_def)
  have "\<not> MyClient (sender cx' (mode_sign c R))" using assms by (simp add: synced_def view_def sender_def sign_keeps)
  then have run: "mode_loop cx' (waiting (mr_mbuf L)) R = Some (mode_sign c R)"
    using True s by (simp add: waiting_def c_def more_params_remote)
  have "mr_change (mode_sign c R) = mr_change L" "length (mr_mbuf (mode_sign c R)) \<le> length (mr_mbuf L)"
    using assms c len by (auto simp: mode_sign_def Let_def synced_def is_sign_def split: if_splits)
  then have "alike cx cx' M L (mode_sign c R)" using assms by (simp add: alike_def synced_def sign_keeps chan_def)
  with run show ?thesis by (simp add: sign_keeps cptr_name_def chan_def)
qed

lemma mode_loop_append: "mode_loop cx (xs @ ys) r = Option.bind (mode_loop cx xs r) (mode_loop cx ys)"
  by (induction xs arbitrary: r) (auto simp: Option.bind_assoc)

lemma sane_cong: "sane cx M L \<Longrightarrow> mr_st L1 = mr_st L \<Longrightarrow> mr_args L1 = mr_args L \<Longrightarrow> sane cx M L1"
  by (simp add: sane_def chan_def sender_def)

lemma well_signed_cong: "well_signed L \<Longrightarrow> mr_mbuf L1 = mr_mbuf L \<Longrightarrow> mr_change L1 = mr_change L \<Longrightarrow> well_signed L1"
  by (simp add: well_signed_def)

lemma alike_cong:
  "alike cx cx' M L R \<Longrightarrow> mr_st L1 = mr_st L \<Longrightarrow> mr_mbuf L1 = mr_mbuf L \<Longrightarrow> mr_pbuf L1 = mr_pbuf L \<Longrightarrow> mr_change L1 = mr_change L \<Longrightarrow>
     mr_nparams L1 = mr_nparams L \<Longrightarrow> alike cx cx' M L1 R"
  by (simp add: alike_def chan_def)

text \<open>One round of the loop is silent or announces a letter.\<close>

definition silent :: "mode_ctx \<Rightarrow> mode_ctx \<Rightarrow> mode_run \<Rightarrow> mode_run \<Rightarrow> bool" where
  "silent cx cx' L L1 \<longleftrightarrow>
     strip_sign (mr_mbuf L1) = strip_sign (mr_mbuf L) \<and> mr_pbuf L1 = mr_pbuf L \<and> mr_nmodes L1 = mr_nmodes L \<and>
     (\<forall>R. synced cx cx' L R \<longrightarrow> synced cx cx' L1 R)"

lemma round:
  assumes "sane cx M L" and "well_signed L" and "mode_switch cx c L = Some L0" and L1: "L1 = more_params cx c L0"
  shows "sane cx M L1 \<and> well_signed L1 \<and>
     (silent cx cx' L L1 \<or> \<not> is_sign c \<and> (\<exists>ps. announces cx c ps L L1 \<and> replays cx cx' M c ps L L1 (mode_switch cx' c)))"
proof (cases "is_sign c")
  case True
  then have L0: "L0 = mode_sign c L" using assms(3) by (auto simp: mode_switch_def is_sign_def)
  have "sane cx M L0" using sane_cong [OF assms(1)] by (simp add: L0 sign_keeps)
  moreover have "synced cx cx' L1 R" if "synced cx cx' L R" for R
    by (rule synced_cong [OF synced_sign [OF that True]]) (simp_all add: L0 L1 more_params_keeps)
  ultimately show ?thesis
    using sign_step(1,2) [OF assms(2) True] sane_cong well_signed_cong by (auto simp: silent_def L0 L1 more_params_keeps sign_keeps)
next
  case False
  then have f: "follows cx cx' M c L L0 (mode_switch cx' c)" using follows_switch [OF assms(1,3)] by (simp add: is_sign_def)
  then have s: "sane cx M L1" using sane_cong by (auto simp: follows_def L1 more_params_keeps)
  show ?thesis
  proof (cases "quiet cx L L0")
    case True
    have "synced cx cx' L1 R" if "synced cx cx' L R" for R
      by (rule synced_cong [OF synced_quiet [OF that True]]) (simp_all add: L1 more_params_keeps)
    moreover have "well_signed L1" by (rule well_signed_cong [OF assms(2)]) (use True in \<open>simp_all add: L1 more_params_keeps quiet_def\<close>)
    ultimately show ?thesis using s True by (simp add: silent_def quiet_def L1 more_params_keeps)
  next
    case n: False
    then obtain ps where ps: "announces cx c ps L L0" "replays cx cx' M c ps L L0 (mode_switch cx' c)" using f by (auto simp: follows_def)
    have a: "announces cx c ps L L1" using ps(1) by (simp add: announces_def L1 more_params_keeps)
    have "replays cx cx' M c ps L L1 (mode_switch cx' c)"
      using ps(2) alike_cong [of cx cx' M L0 _ L1] unfolding replays_def fits_def L1 more_params_keeps by blast
    moreover have "well_signed L1" using a False by (simp add: well_signed_def announces_def)
    ultimately show ?thesis using s a False by blast
  qed
qed

definition room_for :: "mode_ctx \<Rightarrow> mode_run \<Rightarrow> mode_run \<Rightarrow> bool" where
  "room_for cx' R L' \<longleftrightarrow>
     length (cptr_name cx' R) + length (ch_chname (chan cx' R)) + 27 + length (strip_sign (mr_mbuf L')) + length (mr_pbuf L') + NICKLEN + 1 \<le> REALMODEBUFLEN"

definition caught_up :: "mode_ctx \<Rightarrow> mode_ctx \<Rightarrow> mode_run \<Rightarrow> mode_run \<Rightarrow> cstr list \<Rightarrow> cstr \<Rightarrow> mode_run \<Rightarrow> bool" where
  "caught_up cx cx' L L' ps t R \<longleftrightarrow>
     (\<forall>rest. synced cx cx' L R \<longrightarrow> room_for cx' R L' \<longrightarrow> mr_args R = ps @ rest \<longrightarrow>
        (\<exists>R'. mode_loop cx' t R = Some R' \<and> mr_args R' = rest \<and> synced cx cx' L' R' \<and>
           mr_nmodes R' - mr_nmodes R = mr_nmodes L' - mr_nmodes L))"

lemma announce_step:
  assumes a: "announces cx c ps L L1" "replays cx cx' M c ps L L1 (mode_switch cx' c)" "\<not> is_sign c" "well_signed L1"
    and r: "synced cx cx' L R" "mr_args R = ps @ rest"
    and room: "length (cptr_name cx' R) + length (ch_chname (chan cx' R)) + 27 + length (mr_mbuf L1) + length (mr_pbuf L1) + NICKLEN + 1 \<le> REALMODEBUFLEN"
  shows "\<exists>R1. mode_loop cx' (waiting (mr_mbuf L) @ [c]) R = Some R1 \<and> mr_args R1 = rest \<and> synced cx cx' L1 R1 \<and> mr_nmodes R1 = mr_nmodes R + 1 \<and>
     cptr_name cx' R1 = cptr_name cx' R \<and> ch_chname (chan cx' R1) = ch_chname (chan cx' R)"
proof -
  obtain R2 where R2: "mode_loop cx' (waiting (mr_mbuf L)) R = Some R2" "alike cx cx' M L R2" "mr_args R2 = mr_args R" "mr_nmodes R2 = mr_nmodes R"
    "cptr_name cx' R2 = cptr_name cx' R" "chan cx' R2 = chan cx' R"
    using catch_up [OF r(1)] by blast
  have "fits cx' R2 L1" using room R2(5,6) by (simp add: fits_def)
  then obtain R3 where R3: "mode_switch cx' c R2 = Some R3" "announces cx' c ps R2 R3" "mr_args R3 = rest" "alike cx cx' M L1 R3"
    "cptr_name cx' R3 = cptr_name cx' R2" "ch_chname (chan cx' R3) = ch_chname (chan cx' R2)"
    using a(2) R2(2,3) r(2) by (auto simp: replays_def)
  have "\<not> MyClient (sender cx' R3)" using alike_sender(4) [OF R3(4)] .
  then have run: "mode_loop cx' (waiting (mr_mbuf L) @ [c]) R = Some R3" using R2(1) R3(1) by (simp add: mode_loop_append more_params_remote)
  have st: "strip_sign (mr_mbuf L1) = mr_mbuf L1" "mr_mbuf L1 \<noteq> []" using a(1,3) by (auto simp: announces_def strip_sign_def is_sign_def)
  have "synced cx cx' L1 R3"
    using R3(2,4) a(3,4) st by (auto simp: synced_def alike_def announces_def)
  with run R3 R2 show ?thesis by (auto simp: announces_def)
qed

lemma replay_loop:
  assumes "sane cx M L" and "well_signed L" and "mode_loop cx cs L = Some L'"
  shows "\<exists>t ps. strip_sign (mr_mbuf L') = strip_sign (mr_mbuf L) @ t \<and> mr_pbuf L' = mr_pbuf (fold ADD_PARA ps L) \<and>
     (\<forall>p\<in>set ps. good_param p) \<and> (\<forall>R. caught_up cx cx' L L' ps t R)"
  using assms
proof (induction cs arbitrary: L)
  case Nil
  then show ?case by (intro exI [of _ "[]"]) (auto simp: caught_up_def)
next
  case (Cons c cs)
  obtain L0 where L0: "mode_switch cx c L = Some L0" "mode_loop cx cs (more_params cx c L0) = Some L'"
    using Cons.prems(3) by (auto simp: bind_eq_Some_conv)
  define L1 where "L1 = more_params cx c L0"
  note round = round [OF Cons.prems(1,2) L0(1) L1_def, of cx']
  obtain t ps where t: "strip_sign (mr_mbuf L') = strip_sign (mr_mbuf L1) @ t" "mr_pbuf L' = mr_pbuf (fold ADD_PARA ps L1)"
    "\<forall>p\<in>set ps. good_param p" "\<And>R. caught_up cx cx' L1 L' ps t R"
    using Cons.IH [of L1] round L0(2) by (auto simp: L1_def)
  show ?case
  proof (cases "silent cx cx' L L1")
    case True
    then have "caught_up cx cx' L L' ps t R" for R using t(4) [of R] by (auto simp: caught_up_def silent_def)
    with True t(1-3) fold_para_pbuf [of L1 L ps] show ?thesis by (intro exI [of _ t] exI [of _ ps]) (auto simp: silent_def)
  next
    case False
    then obtain qs where qs: "announces cx c qs L L1" "replays cx cx' M c qs L L1 (mode_switch cx' c)" "\<not> is_sign c" "well_signed L1"
      using round by blast
    have m: "strip_sign (mr_mbuf L1) = mr_mbuf L1" "mr_mbuf L1 = strip_sign (mr_mbuf L) @ waiting (mr_mbuf L) @ [c]"
      using qs(1,3) strip_waiting [of "mr_mbuf L"] Cons.prems(2) by (auto simp: announces_def strip_sign_def is_sign_def well_signed_def)
    have len: "length (mr_mbuf L1) \<le> length (strip_sign (mr_mbuf L'))" "length (mr_pbuf L1) \<le> length (mr_pbuf L')"
      using t(1,2) m(1) length_fold_para [of L1 ps] by simp_all
    have "caught_up cx cx' L L' (qs @ ps) (waiting (mr_mbuf L) @ [c] @ t) R" for R
      unfolding caught_up_def
    proof (intro allI impI)
      fix rest
      assume r: "synced cx cx' L R" "room_for cx' R L'" "mr_args R = (qs @ ps) @ rest"
      obtain R1 where R1: "mode_loop cx' (waiting (mr_mbuf L) @ [c]) R = Some R1" "mr_args R1 = ps @ rest" "synced cx cx' L1 R1"
        "mr_nmodes R1 = mr_nmodes R + 1" "cptr_name cx' R1 = cptr_name cx' R" "ch_chname (chan cx' R1) = ch_chname (chan cx' R)"
        using announce_step [OF qs r(1), of "ps @ rest"] r(2,3) len by (auto simp: room_for_def)
      obtain R' where R': "mode_loop cx' t R1 = Some R'" "mr_args R' = rest" "synced cx cx' L' R'" "mr_nmodes R' - mr_nmodes R1 = mr_nmodes L' - mr_nmodes L1"
        using t(4) [of R1] R1 r(2) by (auto simp: caught_up_def room_for_def)
      have "mode_loop cx' ((waiting (mr_mbuf L) @ [c]) @ t) R = Some R'" using R1(1) R'(1) by (simp only: mode_loop_append bind.bind_lunit)
      then show "\<exists>R'. mode_loop cx' (waiting (mr_mbuf L) @ [c] @ t) R = Some R' \<and> mr_args R' = rest \<and> synced cx cx' L' R' \<and>
          mr_nmodes R' - mr_nmodes R = mr_nmodes L' - mr_nmodes L"
        using R' R1(4) qs(1) by (auto simp: announces_def)
    qed
    moreover have "mr_pbuf L' = mr_pbuf (fold ADD_PARA (qs @ ps) L)"
      using t(2) qs(1) fold_para_pbuf [of L1 "fold ADD_PARA qs L" ps] by (simp add: announces_def)
    ultimately show ?thesis using t(1,3) m qs(1)
      by (intro exI [of _ "waiting (mr_mbuf L) @ [c] @ t"] exI [of _ "qs @ ps"]) (auto simp: announces_def)
  qed
qed

lemma fold_para_unwords:
  assumes "\<forall>p\<in>set (qs @ ps). good_param p" and "mr_pbuf L = unwords qs"
  shows "mr_pbuf (fold ADD_PARA ps L) = unwords (qs @ ps)"
  using assms
proof (induction ps arbitrary: L qs)
  case (Cons p ps)
  have "\<forall>x\<in>set qs. x \<noteq> []" using Cons.prems(1) by (auto simp: good_param_def colon_or_empty_def)
  then have "mr_pbuf (ADD_PARA p L) = unwords (qs @ [p])"
    using Cons.prems(2) by (auto simp: ADD_PARA_def unwords_empty unwords_snoc)
  with Cons.IH [of "qs @ [p]" "ADD_PARA p L"] Cons.prems(1) show ?case by simp
qed simp

subsection \<open>Properties\<close>

definition channel_masks :: "aChannel \<Rightarrow> cstr list \<Rightarrow> cstr set" where
  "channel_masks ch args = set (list_strs Invite_list ch @ list_strs Exempt_list ch @ list_strs Ban_list ch @ map mask_of args)"

lemma masks_in_channel: "masks_in (channel_masks ch args) ch args"
  by (auto simp: masks_in_def channel_masks_def all_list_kind)

lemma synced_start:
  assumes "view cx cx' st st'" and "same_channel (cs_channels st (mc_chp cx)) (cs_channels st' (mc_chp cx))"
  shows "synced cx cx' (start_run cx args st) (start_run cx' ps st')" "well_signed (start_run cx args st)"
  using assms by (simp_all add: synced_def start_run_def well_signed_def is_sign_def strip_sign_def chan_def view_def)

text \<open>
  C3: what a server announces about a MODE command makes another server do the same.  Let the two servers agree on the
  channel and on its members, let the sender not be connected to the second one, let the key of the channel be
  one that can be sent, and the announcement be short enough for the second server.  For a local sender, masks on the lists and
  in the command that are equal up to case must match each other; and cleaning the masks of the command twice must give the same as once.  Then the
  parameters announced are words that travel as single parameters, the second server accepts the announced text,
  counts the same number of changes, passes on the same parameters, and the channels agree again: modes, key, limit, join rate,
  status of the members, the three lists and the timestamp.
\<close>

theorem announced_modes_replay:
  assumes "set_mode cx (modes # args) st = Some (n, Some (mb, pb), st1, out)" and "view cx cx' st st'"
    and "same_channel (cs_channels st (mc_chp cx)) (cs_channels st' (mc_chp cx))" and "key_ok (md_key (ch_mode (cs_channels st (mc_chp cx))))"
    and "MyClient (cs_clients st (mc_sptr cx)) \<longrightarrow> plain_masks (channel_masks (cs_channels st (mc_chp cx)) args)" and "stable_masks args"
    and "length (c_name (cs_clients st' (mc_cptr cx'))) + length (ch_chname (cs_channels st (mc_chp cx))) + length mb + length pb + 27 + NICKLEN + 1
      \<le> REALMODEBUFLEN"
  shows "\<exists>ps mb' st1' out'. pb = unwords ps \<and> (\<forall>p\<in>set ps. good_param p) \<and> set_mode cx' (mb # ps) st' = Some (n, Some (mb', pb), st1', out') \<and>
    same_channel (cs_channels st1 (mc_chp cx)) (cs_channels st1' (mc_chp cx))"
proof -
  obtain L' where L': "mode_loop cx modes (start_run cx args st) = Some L'" "n = mr_nmodes L'" "mb = strip_sign (mr_mbuf L')" "pb = mr_pbuf L'" "st1 = mr_st L'"
    using assms(1) by (auto simp: set_mode_def bind_eq_Some_conv split: if_splits)
  let ?L = "start_run cx args st" and ?M = "channel_masks (cs_channels st (mc_chp cx)) args"
  have sane: "sane cx ?M ?L"
    using assms(2,4-6) masks_in_channel by (simp add: sane_def start_run_def chan_def sender_def view_def)
  obtain t ps where t: "strip_sign (mr_mbuf L') = strip_sign (mr_mbuf ?L) @ t" "mr_pbuf L' = mr_pbuf (fold ADD_PARA ps ?L)" "\<forall>p\<in>set ps. good_param p"
    "\<And>R. caught_up cx cx' ?L L' ps t R"
    using replay_loop [OF sane synced_start(2) [OF assms(2,3)] L'(1)] by blast
  have mb: "t = mb" using t(1) L'(3) by (simp add: start_run_def strip_sign_def)
  have pb: "pb = unwords ps" using fold_para_unwords [of "[]" ps ?L] t(2,3) L'(4) by (simp add: start_run_def)
  let ?R = "start_run cx' ps st'"
  have cp: "mc_chp cx' = mc_chp cx" using assms(2) by (simp add: view_def)
  have name: "ch_chname (cs_channels st' (mc_chp cx)) = ch_chname (cs_channels st (mc_chp cx))" using assms(3) by (simp add: same_channel_def)
  have "room_for cx' ?R L'"
    using assms(7) L'(3,4) name cp by (simp add: room_for_def start_run_def chan_def cptr_name_def)
  then obtain R' where R': "mode_loop cx' mb ?R = Some R'" "synced cx cx' L' R'" "mr_nmodes R' = mr_nmodes L'"
    using t(4) [of ?R] synced_start(1) [OF assms(2,3)] mb by (auto simp: caught_up_def start_run_def)
  have "length (mr_mbuf R') \<le> max 1 (length mb)" using R'(2) L'(3) by (auto simp: synced_def split: if_splits)
  moreover have "length (strip_sign (mr_mbuf R')) \<le> length (mr_mbuf R')" by (simp add: strip_sign_def)
  moreover have "mr_pbuf R' = pb" using R'(2) L'(4) by (simp add: synced_def)
  ultimately have "\<not> overrun R'" using assms(7) by (auto simp: overrun_def REALMODEBUFLEN_def NICKLEN_def max_def split: if_splits)
  then have "set_mode cx' (mb # ps) st' = Some (n, Some (strip_sign (mr_mbuf R'), pb), mr_st R', mr_out R' @ final_errors cx' R')"
    using R'(1,3) L'(2) \<open>mr_pbuf R' = pb\<close> by (simp add: set_mode_def)
  moreover have "same_channel (cs_channels st1 (mc_chp cx)) (cs_channels (mr_st R') (mc_chp cx))"
    using R'(2) L'(5) cp by (simp add: synced_def chan_def)
  ultimately show ?thesis using pb t(3) by blast
qed

text \<open>Two servers with the channel \<^verbatim>\<open>#c\<close> and its members; alice is connected to the one where she has a descriptor.\<close>

definition example_people :: "int \<Rightarrow> clients" where
  "example_people fd p =
     (if p = 1 then (example_client ''alice'')\<lparr>c_user := Some example_user, c_fd := fd\<rparr>
      else if p = 2 then (example_client ''bob'')\<lparr>c_user := Some example_user\<rparr> else example_client ''hub.net'')"

definition example_server :: "int \<Rightarrow> chan_state" where
  "example_server fd =
     add_user_to_channel 0 2 0 (add_user_to_channel 0 1 CHFL_CHANOP (new_channel 5 ''#c'' (no_channels (example_people fd))))"

definition example_table :: hash_tab where
  "example_table = add_to_client_hash_table ''bob'' 2 (add_to_client_hash_table ''alice'' 1 clear_hash_table)"

definition example_ctx :: "addr \<Rightarrow> mode_ctx" where
  "example_ctx from =
     \<lparr>mc_me = ''irc.net'', mc_me_addr = 7, mc_now = 0, mc_table = example_table, mc_whowas = initwhowas (example_people 3), mc_cptr = from, mc_sptr = 1, mc_chp = 0, mc_level = 2\<rparr>"

lemma example_server_ok: "chans_ok (example_server fd) \<and> links_ok (example_server fd)"
proof -
  let ?st = "no_channels (example_people fd)"
  let ?st1 = "new_channel 5 ''#c'' ?st"
  let ?st2 = "add_user_to_channel 0 1 CHFL_CHANOP ?st1"
  have "chan_inv {p. c_user (example_people fd p) \<noteq> None} ?st"
    by (rule no_channels_inv(1)) (simp add: example_people_def example_client_def example_user_def)
  then have ok: "chans_ok ?st" "links_ok ?st" "is_user ?st 1" "is_user ?st 2" by (simp_all add: chan_inv_def example_people_def)
  have "find_channel ?st ''#c'' = None" by (simp add: find_channel_def no_channels_def hash_find_channel_def clear_hash_table_def)
  note n = new_channel_ok [OF ok(1,2) this, of 5]
  have c: "cs_next ?st = 0" "cs_channel ?st = []" by (simp_all add: no_channels_def)
  note a = add_user_ok [OF n(1,2), of 1 0 CHFL_CHANOP, simplified n(3,5,6) c, OF ok(3), simplified]
  have m: "members_of ?st1 0 = []" using n(6) c by simp
  have "2 \<notin> set (members_of ?st2 0)" using a(5) [of 0] m by (simp add: n(6) c)
  then show ?thesis
    using add_user_ok(1,2) [of ?st2 2 0 0] a ok(4) m n(3,5) c by (simp add: example_server_def)
qed

lemma example_chan:
  "cs_channels (example_server fd) 0 = make_channel\<lparr>ch_chname := ''#c'', ch_channelts := 5, ch_users := 2,
     ch_members := [\<lparr>cm_cptr = 2, cm_flags = 0, cm_banserial = 0\<rparr>, \<lparr>cm_cptr = 1, cm_flags = CHFL_CHANOP, cm_banserial = 0\<rparr>]\<rparr>"
  by (simp add: example_server_def no_channels_def new_channel_def make_channel_def example_people_def example_client_def
    add_user_to_channel_def upd_user_def upd_chan_def)

lemma example_core: "core_clients (example_people fd) (cs_clients (example_server fd))" 
  by (simp add: core_clients_def example_server_def no_channels_def new_channel_def make_channel_def example_people_def example_client_def
    add_user_to_channel_def upd_user_def upd_chan_def)

lemma example_client_facts:
  "c_name (cs_clients (example_server fd) p) = c_name (example_people fd p)" "c_flags (cs_clients (example_server fd) p) = 0"
  "c_umode (cs_clients (example_server fd) p) = 0" "c_status (cs_clients (example_server fd) p) = STAT_CLIENT"
  "c_fd (cs_clients (example_server fd) 1) = fd"
  "hash_find_client (cs_clients (example_server fd)) t n None = hash_find_client (example_people fd) t n None"
  using core_clientsD [OF example_core, of fd] hash_find_client_core [OF example_core]
  by (simp_all add: example_people_def example_client_def STAT_CLIENT_def)

lemma example_find:
  "hash_find_client (example_people fd) example_table m None = (if mycmp m ''bob'' = 0 then Some 2 else if mycmp m ''alice'' = 0 then Some 1 else None)"
proof -
  have "hash_find_client (example_people fd) clear_hash_table x None = None" for x
    by (simp add: hash_find_client_def clear_hash_table_def)
  moreover have "hash_find_client (example_people fd) (add_to_client_hash_table (c_name (example_people fd p)) p tab) m None =
      (if mycmp m (c_name (example_people fd p)) = 0 then Some p else hash_find_client (example_people fd) tab m None)" for p tab
    using nickh.lookup_push [of _ "\<lambda>p. c_name (example_people fd p)" p "\<lambda>h. chain (tab h)"]
    by (simp add: client_table_simps nickh.chain_push)
  from this [of 1] this [of 2] have "hash_find_client (example_people fd) (add_to_client_hash_table ''alice'' 1 tab) m None =
      (if mycmp m ''alice'' = 0 then Some 1 else hash_find_client (example_people fd) tab m None)"
    "hash_find_client (example_people fd) (add_to_client_hash_table ''bob'' 2 tab) m None =
      (if mycmp m ''bob'' = 0 then Some 2 else hash_find_client (example_people fd) tab m None)" for tab
    by (simp_all add: example_people_def example_client_def)
  ultimately show ?thesis by (simp add: example_table_def)
qed

lemma example_names:
  "mycmp ''BOB'' ''bob'' = 0" "mycmp ''bob'' ''bob'' = 0" "mycmp ''alice'' ''bob'' \<noteq> 0" "mycmp ''alice'' ''alice'' = 0"
  "good_param ''bob''" "good_param ''alice''"
  by code_simp+

lemma example_run:
  "\<exists>st1 out. set_mode (example_ctx 1) [''+nv'', ''BOB''] (example_server 3) = Some (2, Some (''+nv'', ''bob''), st1, out)"
proof -
  have "hash_find_client (cs_clients (example_server 3)) example_table ''BOB'' None = Some 2"
    by (simp only: example_client_facts example_find example_names simp_thms if_True)
  then show ?thesis
    by (simp add: set_mode_def switch_simps switch_flag mode_switch_def [of _ "CHR ''+''"] mode_sign_def mode_flag_def mode_flags_def
      mode_member_def check_level_def find_chasing_def run_views more_params_def run_ops_defs blast_ts_def find_user_member_def
      example_client_facts(1-5) example_chan make_channel_def start_run_def strip_sign_def overrun_def REALMODEBUFLEN_def NICKLEN_def
      MAXMODEPARAMSUSER_def Let_def status_defs IsULine_def has_flag_def upd_chan_def set_member_def example_people_def example_ctx_def example_client_def)
qed

lemma example_view: "view (example_ctx 1) (example_ctx 9) (example_server 3) (example_server (- 1))"
proof -
  have m: "members_of (example_server 3) 0 = [2, 1]" by (simp add: members_of_def example_chan)
  have "cs_channel (example_server fd) = [0]" for fd
    by (simp add: example_server_def add_user_to_channel_def new_channel_def no_channels_def upd_user_def upd_chan_def split: option.split)
  then show ?thesis
    using example_server_ok [of "- 1"] example_names m example_client_facts(5) [of "- 1"]
    by (simp add: view_def example_ctx_def same_clients_def example_client_facts(1-4,6) example_find status_defs)
      (simp add: example_people_def example_client_def)
qed

theorem announced_modes_replay_witness:
  "\<exists>st1 out ps mb' st1' out'.
     set_mode (example_ctx 1) [''+nv'', ''BOB''] (example_server 3) = Some (2, Some (''+nv'', ''bob''), st1, out) \<and> ''bob'' = unwords ps \<and>
     set_mode (example_ctx 9) (''+nv'' # ps) (example_server (- 1)) = Some (2, Some (mb', ''bob''), st1', out') \<and>
     same_channel (cs_channels st1 0) (cs_channels st1' 0)"
proof -
  obtain st1 out where run: "set_mode (example_ctx 1) [''+nv'', ''BOB''] (example_server 3) = Some (2, Some (''+nv'', ''bob''), st1, out)"
    using example_run by blast
  have c: "cs_channels (example_server fd) (mc_chp (example_ctx f)) = cs_channels (example_server 3) 0" for fd f by (simp add: example_ctx_def example_chan)
  have k: "list_strs j (cs_channels (example_server 3) 0) = []" for j by (cases j) (simp_all add: example_chan make_channel_def)
  have m: "mask_of ''BOB'' = ''BOB!*@*''" "match ''BOB!*@*'' ''BOB!*@*'' = 0" "stable_masks [''BOB'']" by code_simp+
  have "\<exists>ps mb' st1' out'. ''bob'' = unwords ps \<and> (\<forall>p\<in>set ps. good_param p) \<and>
      set_mode (example_ctx 9) (''+nv'' # ps) (example_server (- 1)) = Some (2, Some (mb', ''bob''), st1', out') \<and>
      same_channel (cs_channels st1 (mc_chp (example_ctx 1))) (cs_channels st1' (mc_chp (example_ctx 1)))"
  proof (rule announced_modes_replay [OF run example_view])
    show "key_ok (md_key (ch_mode (cs_channels (example_server 3) (mc_chp (example_ctx 1)))))"
      by (simp add: c example_chan make_channel_def key_ok_def)
    show "MyClient (cs_clients (example_server 3) (mc_sptr (example_ctx 1))) \<longrightarrow>
        plain_masks (channel_masks (cs_channels (example_server 3) (mc_chp (example_ctx 1))) [''BOB''])"
      by (simp add: c k m plain_masks_def channel_masks_def)
    show "length (c_name (cs_clients (example_server (- 1)) (mc_cptr (example_ctx 9)))) +
        length (ch_chname (cs_channels (example_server 3) (mc_chp (example_ctx 1)))) + length ''+nv'' + length ''bob'' + 27 + NICKLEN + 1 \<le> REALMODEBUFLEN"
      by (simp add: c example_chan example_client_facts example_ctx_def example_people_def example_client_def NICKLEN_def REALMODEBUFLEN_def)
  qed (simp_all add: c same_channel_refl m(3))
  then show ?thesis using run by (auto simp: example_ctx_def)
qed

end
