(* ===== verification/Mode_Rights.thy ===== *)
theory Mode_Rights
  imports Mode_Replay
begin

section \<open>Who may change which channel mode\<close>

text \<open>
  The levels of \<open>set_mode\<close>: without status (level 0) nothing can be changed, a half operator (level 1) can
  change neither the status of operators and half operators nor the modes kept for operators, IRC operators and servers.
\<close>

definition op_status :: "chanMember \<Rightarrow> addr \<times> u32" where
  "op_status m = (cm_cptr m, cm_flags m AND (CHFL_CHANOP OR CHFL_HALFOP))"

definition GUARDED :: u32 where
  "GUARDED = MODE_INVITEONLY OR MODE_OPERONLY OR MODE_REGISTERED OR MODE_LISTED"

definition guarded :: "aChannel \<Rightarrow> (addr \<times> u32) list \<times> u32" where
  "guarded ch = (map op_status (ch_members ch), md_mode (ch_mode ch) AND GUARDED)"

text \<open>A local client that is not one of the services.\<close>

definition plain_user :: "mode_ctx \<Rightarrow> chan_state \<Rightarrow> bool" where
  "plain_user cx st \<longleftrightarrow> MyClient (cs_clients st (mc_sptr cx)) \<and> \<not> IsULine (cs_clients st (mc_sptr cx))"

lemma plain_user_sender:
  "plain_user cx (mr_st r) \<Longrightarrow> MyClient (sender cx r) \<and> \<not> IsULine (sender cx r) \<and> \<not> IsServer (sender cx r)"
  by (auto simp: plain_user_def sender_def status_defs)

subsection \<open>Level 0\<close>

lemma level0_switch:
  assumes "mode_switch cx c r = Some r1" and "plain_user cx (mr_st r)" and "mc_level cx \<le> 0"
  shows "mr_st r1 = mr_st r \<and> mr_nmodes r1 = mr_nmodes r"
proof -
  have lev: "check_level (mc_level cx) 1 (sender cx r)" "check_level (mc_level cx) 2 (sender cx r)"
    using plain_user_sender [OF assms(2)] assms(3) by (simp_all add: check_level_def)
  then show ?thesis using assms(1,3) plain_user_sender [OF assms(2)]
    by (auto simp: mode_switch_def mode_sign_def mode_O_def mode_member_def mode_list_def show_list_def mode_j_def mode_l_def mode_k_def
      mode_server_def only_servers_def mode_i_def mode_flag_def Let_def run_ops_defs split: if_splits list.splits)
qed

lemma level0_loop:
  assumes "mode_loop cx cs r = Some r1" and "plain_user cx (mr_st r)" and "mc_level cx \<le> 0"
  shows "mr_st r1 = mr_st r \<and> mr_nmodes r1 = mr_nmodes r"
  using assms
proof (induction cs arbitrary: r)
  case (Cons c cs)
  then obtain r0 where r0: "mode_switch cx c r = Some r0" "mode_loop cx cs (more_params cx c r0) = Some r1" by (auto simp: bind_eq_Some_conv)
  show ?case using Cons.IH [OF r0(2)] level0_switch [OF r0(1) Cons.prems(2,3)] Cons.prems(2,3) by (simp add: more_params_keeps)
qed simp

subsection \<open>Level 1\<close>

lemma set_flag_outside:
  assumes "m AND G = 0"
  shows "set_flag pos m x AND G = x AND (G :: u32)"
proof -
  have n: "NOT m AND G = G"
  proof -
    have "G = (NOT m AND G) OR (m AND G)" by (metis bit.conj_disj_distrib2 bit.disj_cancel_left and.left_neutral)
    then show ?thesis using assms by simp
  qed
  have "(x AND NOT m) AND G = x AND (NOT m AND G)" by (simp add: ac_simps)
  then show ?thesis using assms n by (simp add: set_flag_def bit.conj_disj_distrib2)
qed

lemma guarded_list:
  "same_but_list k ch ch1 \<Longrightarrow> guarded ch1 = guarded ch"
  by (simp add: same_but_list_def guarded_def)

lemma flag_outside: "map_of mode_flags c = Some m \<Longrightarrow> c \<noteq> CHR ''i'' \<Longrightarrow> c \<noteq> CHR ''O'' \<Longrightarrow> m AND GUARDED = 0"
  by (auto simp: mode_flags_def GUARDED_def MODE_PRIVATE_def MODE_SECRET_def MODE_MODERATED_def MODE_NOPRIVMSGS_def MODE_TOPICLIMIT_def
      MODE_REGONLY_def MODE_NOCTRL_def MODE_MODREG_def MODE_NONICK_def MODE_INVITEONLY_def MODE_OPERONLY_def MODE_REGISTERED_def MODE_LISTED_def
      split: if_splits)

lemma others_outside:
  "MODE_JOINRATE AND GUARDED = 0" "MODE_LIMIT AND GUARDED = 0" "CHFL_VOICE AND (CHFL_CHANOP OR CHFL_HALFOP) = 0"
  by (simp_all add: GUARDED_def MODE_JOINRATE_def MODE_LIMIT_def MODE_INVITEONLY_def MODE_OPERONLY_def MODE_REGISTERED_def MODE_LISTED_def
      CHFL_VOICE_def CHFL_CHANOP_def CHFL_HALFOP_def)

definition keeps :: "mode_ctx \<Rightarrow> mode_run \<Rightarrow> mode_run \<Rightarrow> bool" where
  "keeps cx r r1 \<longleftrightarrow> guarded (chan cx r1) = guarded (chan cx r) \<and> core_clients (cs_clients (mr_st r)) (cs_clients (mr_st r1))"

lemma keeps_state: "mr_st r1 = mr_st r \<Longrightarrow> keeps cx r r1"
  by (simp add: keeps_def chan_def core_clients_refl)

lemma keeps_upd:
  assumes "mr_st r1 = upd_chan (mc_chp cx) f (mr_st r)" and "guarded (f (chan cx r)) = guarded (chan cx r)"
  shows "keeps cx r r1"
  using assms by (simp add: keeps_def chan_def chan_simps core_clients_refl)

lemma run_ops_state [simp]:
  "mr_st (add_letter c r) = mr_st r" "mr_st (ADD_PARA p r) = mr_st r" "mr_st (eat_arg r) = mr_st r" "mr_st (say ms r) = mr_st r"
  "mr_st (fail e r) = mr_st r" "mr_st (see m r) = mr_st r" "mr_st (count_param r) = mr_st r"
  "mr_st (on_chan cx f r) = upd_chan (mc_chp cx) f (mr_st r)"
  by (simp_all add: run_ops_defs)

lemma guarded_flag: "m AND GUARDED = 0 \<Longrightarrow> guarded (flag_change pos m ch) = guarded ch"
  by (simp add: guarded_def flag_change_def set_flag_outside)

lemma keeps_mode_flag:
  assumes "m AND GUARDED = 0"
  shows "keeps cx r (add_letter c (on_mode cx (\<lambda>md. md\<lparr>md_mode := set_flag pos m (md_mode md)\<rparr>) (see x r)))"
  using guarded_flag [OF assms] by (intro keeps_upd [of _ cx "flag_change pos m"]) (simp_all add: on_mode_def flag_change_def [abs_def])

lemma keeps_flag: "c \<noteq> CHR ''i'' \<Longrightarrow> c \<noteq> CHR ''O'' \<Longrightarrow> keeps cx r (mode_flag cx c r)"
  using keeps_mode_flag flag_outside by (auto simp: mode_flag_def intro: keeps_state split: option.split)

lemma keeps_either:
  assumes "mr_st r1 = mr_st r \<or> (\<exists>x. mr_st r1 = upd_chan (mc_chp cx) (F x) (mr_st r))" and "\<And>x ch. guarded (F x ch) = guarded ch"
  shows "keeps cx r r1"
  using assms(1) keeps_state keeps_upd [of r1 cx "F x" r for x, OF _ assms(2)] by blast

lemma keeps_l: "keeps cx r (mode_l cx r)"
proof (rule keeps_either [where F = "\<lambda>(pos, i). limit_change pos i"])
  show "mr_st (mode_l cx r) = mr_st r \<or> (\<exists>x. mr_st (mode_l cx r) = upd_chan (mc_chp cx) (case x of (pos, i) \<Rightarrow> limit_change pos i) (mr_st r))"
    by (auto simp: mode_l_def Let_def set_limit_change split: list.split)
qed (simp add: case_prod_unfold guarded_def limit_change_def set_flag_outside others_outside)

lemma keeps_j: "keeps cx r (mode_j cx r)"
proof (rule keeps_either [where F = "\<lambda>(pos, nt). rate_change pos nt"])
  have "mr_st (mode_j cx r) = mr_st r \<or> (\<exists>pos nt. mr_st (mode_j cx r) = upd_chan (mc_chp cx) (rate_change pos nt) (mr_st r))"
    unfolding mode_j_def Let_def set_rate_change
    by (cases "mr_args r"; cases "parse_rate (hd (mr_args r))") (auto simp only: run_ops_state list.case option.case list.sel split: if_split)
  then show "mr_st (mode_j cx r) = mr_st r \<or> (\<exists>x. mr_st (mode_j cx r) = upd_chan (mc_chp cx) (case x of (pos, nt) \<Rightarrow> rate_change pos nt) (mr_st r))"
    by auto
qed (simp add: case_prod_unfold guarded_def rate_change_def set_flag_outside others_outside)

lemma keeps_k: "keeps cx r (mode_k cx r)"
proof (rule keeps_either [where F = key_change])
  show "mr_st (mode_k cx r) = mr_st r \<or> (\<exists>x. mr_st (mode_k cx r) = upd_chan (mc_chp cx) (key_change x) (mr_st r))"
    by (auto simp: mode_k_def Let_def set_key_def on_mode_def key_change_def [abs_def] split: list.split)
qed (simp add: guarded_def key_change_def)

lemma same_channel_guarded:
  assumes "same_channel a b"
  shows "guarded a = guarded b"
proof -
  have "NOT CHFL_BANNED AND (CHFL_CHANOP OR CHFL_HALFOP) = CHFL_CHANOP OR CHFL_HALFOP"
    by (simp add: CHFL_BANNED_def CHFL_CHANOP_def CHFL_HALFOP_def)
  then have "op_status m = (fst (status_of m), snd (status_of m) AND (CHFL_CHANOP OR CHFL_HALFOP))" for m
    by (simp add: op_status_def status_of_def and.assoc)
  then have "map op_status ms = map (\<lambda>s. (fst s, snd s AND (CHFL_CHANOP OR CHFL_HALFOP))) (map status_of ms)" for ms by simp
  then show ?thesis using assms by (simp only: guarded_def same_channel_def)
qed

lemma quiet_keeps: "quiet cx r r1 \<Longrightarrow> keeps cx r r1"
  using same_channel_guarded by (auto simp: quiet_def keeps_def)

lemma keeps_list: "keeps cx r (mode_list cx k r)"
proof (cases "mr_args r = [] \<or> check_level (mc_level cx) 1 (sender cx r) \<or> too_many cx (count_param r) \<or> colon_or_empty (hd (mr_args r)) \<or>
      no_room cx r (length (mask_of (hd (mr_args r))) + 1) \<or>
      mr_change r \<and> refused (MyClient (sender cx r)) (list_max k) (list_strs k (chan cx r)) (mask_of (hd (mr_args r))) 0 \<noteq> None")
  case True
  then show ?thesis by (intro quiet_keeps mode_list_quiet)
next
  case False
  then obtain a as where a: "mr_args r = a # as" by (cases "mr_args r") auto
  then obtain ch1 out where "mode_list cx k r = eat_arg (ADD_PARA (mask_of a) (add_letter (list_letter k) (say out (on_chan cx (\<lambda>_. ch1) (count_param r)))))"
    "same_but_list k (chan cx r) ch1"
    using mode_list_sends [OF a, of cx k] False by auto
  then show ?thesis using guarded_list by (intro keeps_upd [of _ cx "\<lambda>_. ch1"]) auto
qed

lemma guarded_cptrs: "guarded a = guarded b \<Longrightarrow> map cm_cptr (ch_members a) = map cm_cptr (ch_members b)"
proof -
  have "map fst (map op_status ms) = map cm_cptr ms" for ms by (simp add: op_status_def)
  then show "guarded a = guarded b \<Longrightarrow> ?thesis" by (metis guarded_def prod.inject)
qed

lemma guarded_voice:
  assumes "distinct (map cm_cptr (ch_members ch))" and "find_user_member (ch_members ch) w = Some cm"
  shows "guarded (set_member (cm\<lparr>cm_flags := set_flag pos CHFL_VOICE (cm_flags cm)\<rparr>) ch) = guarded ch"
proof -
  have cm: "cm \<in> set (ch_members ch)" using find_SomeD [OF assms(2) [unfolded find_user_member_def]] by blast
  have "x = cm" if "x \<in> set (ch_members ch)" "cm_cptr x = cm_cptr cm" for x
    using assms(1) cm that by (auto simp: distinct_map dest: inj_onD)
  then show ?thesis using set_flag_outside [OF others_outside(3)] by (auto simp: guarded_def set_member_def op_status_def)
qed

lemma keeps_voice:
  assumes "distinct (map cm_cptr (ch_members (chan cx r)))" and "\<not> IsServer (sender cx r)"
  shows "keeps cx r (mode_member cx lev CHFL_VOICE c r)"
proof (cases "check_level (mc_level cx) lev (sender cx r) \<or> mr_args r = [] \<or> too_many cx (count_param r) \<or> no_room cx r (NICKLEN + 1) \<or>
    Option.bind (fst (find_chasing cx (cs_clients (mr_st r)) (hd (mr_args r)))) (find_user_member (ch_members (chan cx r))) = None")
  case True
  then show ?thesis by (intro quiet_keeps mode_member_quiet)
next
  case ok: False
  then obtain a as where a: "mr_args r = a # as" by (cases "mr_args r") auto
  obtain w x out where w: "find_chasing cx (cs_clients (mr_st r)) a = (Some w, x, out)"
    using ok a by (cases "find_chasing cx (cs_clients (mr_st r)) a"; cases "fst (find_chasing cx (cs_clients (mr_st r)) a)") auto
  obtain cm where cm: "find_user_member (ch_members (chan cx r)) w = Some cm" using ok a w by auto
  let ?m = "new_status r CHFL_VOICE cm"
  have "mode_member cx lev CHFL_VOICE c r = eat_arg (ADD_PARA (c_name (cs_clients (mr_st r) (cm_cptr cm)))
     (add_letter c (on_chan cx (set_member ?m) (say out (count_param r)))))"
    using mode_member_sends [OF _ a _ w cm] ok assms(2) by (simp add: blast_ts_def sender_def chan_simps)
  then show ?thesis using guarded_voice [OF assms(1) cm] by (intro keeps_upd [of _ cx "set_member ?m"]) (simp_all add: new_status_def)
qed

lemma level1_switch:
  assumes "mode_switch cx c r = Some r1" and "plain_user cx (mr_st r)" and "mc_level cx \<le> 1" and "distinct (map cm_cptr (ch_members (chan cx r)))"
  shows "keeps cx r r1"
proof -
  note u = plain_user_sender [OF assms(2)]
  have lev: "check_level (mc_level cx) 2 (sender cx r)" using u assms(3) by (simp add: check_level_def)
  have "keeps cx r (mode_server cx True m c r)" for m c by (auto simp: mode_server_def Let_def only_servers_def intro: keeps_state)
  moreover have "keeps cx r (mode_O cx r)" using u assms(3) by (auto simp: mode_O_def Let_def intro: keeps_state)
  moreover have "keeps cx r (mode_member cx 2 f c r)" for f c using lev by (auto simp: mode_member_def intro: keeps_state)
  moreover have "keeps cx r (mode_sign c r)" by (rule keeps_state) (simp add: sign_keeps)
  moreover have "mode_i cx r = Some (fail SM_ERR_NOPRIVS r)" using lev by (simp add: mode_i_def)
  ultimately show ?thesis
    using assms(1) u keeps_list [of cx r] keeps_voice [OF assms(4)] keeps_flag [of c cx r] keeps_j keeps_l keeps_k keeps_state [of "fail SM_ERR_NOPRIVS r" r cx]
    by (auto simp: mode_switch_def split: if_splits)
qed

lemma level1_loop:
  assumes "mode_loop cx cs r = Some r1" and "plain_user cx (mr_st r)" and "mc_level cx \<le> 1" and "distinct (map cm_cptr (ch_members (chan cx r)))"
  shows "guarded (chan cx r1) = guarded (chan cx r)"
  using assms
proof (induction cs arbitrary: r)
  case (Cons c cs)
  then obtain r0 where r0: "mode_switch cx c r = Some r0" "mode_loop cx cs (more_params cx c r0) = Some r1" by (auto simp: bind_eq_Some_conv)
  have k: "keeps cx r r0" using level1_switch [OF r0(1) Cons.prems(2-4)] .
  have s: "chan cx (more_params cx c r0) = chan cx r0" "mr_st (more_params cx c r0) = mr_st r0" by (simp_all add: chan_def more_params_keeps)
  have "plain_user cx (mr_st r0)"
    using Cons.prems(2) k core_MyClient [of "cs_clients (mr_st r)" "cs_clients (mr_st r0)"] core_clientsD(2) [of "cs_clients (mr_st r)" "cs_clients (mr_st r0)"]
    by (simp add: plain_user_def keeps_def IsULine_def)
  moreover have "distinct (map cm_cptr (ch_members (chan cx r0)))" using guarded_cptrs [of "chan cx r0" "chan cx r"] k Cons.prems(4) by (simp add: keeps_def)
  ultimately show ?case using Cons.IH [OF r0(2)] Cons.prems(3) k s by (simp add: keeps_def)
qed simp

text \<open>
  C7: who may change what by a MODE command.  Without a status on the channel a local client changes nothing and no change is counted,
  whatever letters and parameters it sends; a half operator leaves untouched who is operator and half operator, and the modes i, O, r and L.
\<close>

theorem set_mode_privileges:
  assumes "set_mode cx parv st = Some (n, bufs, st1, out)" and "plain_user cx st" and "distinct (members_of st (mc_chp cx))"
  shows "(mc_level cx \<le> 0 \<longrightarrow> st1 = st \<and> n = 0) \<and>
    (mc_level cx \<le> 1 \<longrightarrow> guarded (cs_channels st1 (mc_chp cx)) = guarded (cs_channels st (mc_chp cx)))"
proof (cases parv)
  case Nil
  with assms(1) show ?thesis by (simp add: set_mode_def)
next
  case (Cons modes args)
  then obtain r where r: "mode_loop cx modes (start_run cx args st) = Some r" "n = mr_nmodes r" "st1 = mr_st r"
    using assms(1) by (auto simp: set_mode_def bind_eq_Some_conv split: if_splits)
  let ?r = "start_run cx args st"
  have s: "mr_st ?r = st" "mr_nmodes ?r = 0" "chan cx ?r = cs_channels st (mc_chp cx)" by (simp_all add: start_run_def chan_def)
  show ?thesis using level0_loop [OF r(1)] level1_loop [OF r(1)] assms(2,3) r(2,3) s by (auto simp: members_of_def chan_def)
qed

text \<open>A half operator asks for a voice and for the channel to be invite-only; only the voice is given.\<close>

definition example_half :: mode_ctx where
  "example_half = (example_ctx 1)\<lparr>mc_level := 1\<rparr>"

lemma example_half_run:
  "\<exists>st1 out. set_mode example_half [''+vi'', ''BOB''] (example_server 3) = Some (1, Some (''+v'', ''bob''), st1, out)"
proof -
  have "hash_find_client (cs_clients (example_server 3)) example_table ''BOB'' None = Some 2"
    by (simp only: example_client_facts example_find example_names simp_thms if_True)
  then show ?thesis
    by (simp add: set_mode_def switch_simps switch_flag mode_switch_def [of _ "CHR ''+''"] mode_sign_def mode_i_def
      mode_member_def check_level_def find_chasing_def run_views more_params_def run_ops_defs blast_ts_def find_user_member_def
      example_client_facts(1-5) example_chan make_channel_def start_run_def strip_sign_def overrun_def REALMODEBUFLEN_def NICKLEN_def
      MAXMODEPARAMSUSER_def Let_def status_defs IsULine_def has_flag_def upd_chan_def set_member_def example_people_def example_ctx_def example_client_def example_half_def)
qed

theorem set_mode_privileges_witness:
  "\<exists>st1 out. set_mode example_half [''+vi'', ''BOB''] (example_server 3) = Some (1, Some (''+v'', ''bob''), st1, out) \<and>
     guarded (cs_channels st1 0) = guarded (cs_channels (example_server 3) 0)"
proof -
  obtain st1 out where run: "set_mode example_half [''+vi'', ''BOB''] (example_server 3) = Some (1, Some (''+v'', ''bob''), st1, out)"
    using example_half_run by blast
  have "plain_user example_half (example_server 3)" "distinct (members_of (example_server 3) (mc_chp example_half))"
    by (simp_all add: plain_user_def example_half_def example_ctx_def example_client_facts status_defs IsULine_def has_flag_def members_of_def example_chan del: One_nat_def)
  from set_mode_privileges [OF run this] have "guarded (cs_channels st1 0) = guarded (cs_channels (example_server 3) 0)"
    by (simp add: example_half_def example_ctx_def)
  with run show ?thesis by blast
qed

end
