(* ===== verification/Net_Sync.thy ===== *)
theory Net_Sync
  imports Channel_Burst Mode_Rights Parse "HOL-Library.Multiset"
begin

section \<open>Two servers agree on a channel\<close>

text \<open>
  When a link comes up both servers send each other what they know about a channel.  Each merges what it
  receives by the rule of the time stamps; afterwards both have the same channel.
\<close>

subsection \<open>Merging modes\<close>

text \<open>What \<open>set_mode\<close> and \<open>m_sjoin\<close> store: numbers are not negative, a join rate is off as a whole.\<close>

definition mode_ok :: "Mode \<Rightarrow> bool" where
  "mode_ok m \<longleftrightarrow> 0 \<le> md_limit m \<and> md_limit m < 2 ^ 31 \<and> 0 \<le> md_join_num m \<and> md_join_num m < 2 ^ 31 \<and>
     0 \<le> md_join_time m \<and> md_join_time m < 2 ^ 31 \<and> (md_join_num m = 0 \<longleftrightarrow> md_join_time m = 0) \<and>
     (\<not> has_flag (md_mode m) MODE_JOINRATE \<longrightarrow> md_join_num m = 0) \<and>
     length (md_key m) \<le> KEYLEN \<and> (md_key m \<noteq> [] \<longrightarrow> param_ok (md_key m))"

lemma strcmp_total: "strcmp_greater a b \<longleftrightarrow> a \<noteq> b \<and> \<not> strcmp_greater b a"
proof (induction a b rule: strcmp_greater.induct)
  case (1 b)
  then show ?case by (cases b) auto
next
  case (3 x xs y ys)
  then show ?case using linorder_less_linear [of "of_char x :: nat" "of_char y"] by auto
qed simp

lemma mode_eqI:
  assumes "md_mode a = md_mode b" "md_limit a = md_limit b" "md_key a = md_key b" "md_join_num a = md_join_num b" "md_join_time a = md_join_time b"
  shows "(a :: Mode) = b"
  using assms by simp

text \<open>When the rate of the first modes wins over the rate of the second.\<close>

definition rate_wins :: "Mode \<Rightarrow> Mode \<Rightarrow> bool" where
  "rate_wins a b \<longleftrightarrow> has_flag (md_mode a) MODE_JOINRATE \<and> \<not> (has_flag (md_mode b) MODE_JOINRATE \<and> md_join_num b = 0) \<and>
     \<not> (md_join_num a \<noteq> 0 \<and> md_join_num b > md_join_num a) \<and> \<not> (md_join_num b = md_join_num a \<and> md_join_time b < md_join_time a)"

lemma merge_rate_fields:
  "sj_merge_rate a b = (if rate_wins a b then b\<lparr>md_join_num := md_join_num a, md_join_time := md_join_time a\<rparr> else b)"
  by (simp add: sj_merge_rate_def rate_wins_def)

lemma rate_wins_cong: "md_mode b = md_mode c \<Longrightarrow> md_join_num b = md_join_num c \<Longrightarrow> md_join_time b = md_join_time c \<Longrightarrow> rate_wins a b = rate_wins a c"
  by (simp add: rate_wins_def)

lemma merge_fields:
  "md_mode (sj_merge a b) = md_mode b OR md_mode a" "md_limit (sj_merge a b) = max (md_limit a) (md_limit b)"
  "md_key (sj_merge a b) = (if md_key a \<noteq> [] \<and> (md_key b = [] \<or> strcmp_greater (md_key b) (md_key a)) then md_key a else md_key b)"
  "md_join_num (sj_merge a b) = (if rate_wins a b then md_join_num a else md_join_num b)"
  "md_join_time (sj_merge a b) = (if rate_wins a b then md_join_time a else md_join_time b)"
  using rate_wins_cong [of "b\<lparr>md_limit := l, md_key := k\<rparr>" b a for l k] rate_wins_cong [of "b\<lparr>md_limit := l\<rparr>" b a for l]
    rate_wins_cong [of "b\<lparr>md_key := k\<rparr>" b a for k]
  by (simp_all add: sj_merge_def merge_rate_fields Let_def)

lemma rate_winner:
  assumes "mode_ok a" and "mode_ok b"
  shows "(if rate_wins a b then md_join_num a else md_join_num b) = (if rate_wins b a then md_join_num b else md_join_num a)"
    and "(if rate_wins a b then md_join_time a else md_join_time b) = (if rate_wins b a then md_join_time b else md_join_time a)"
  using assms unfolding rate_wins_def mode_ok_def by (smt (verit))+

lemma sj_merge_comm:
  assumes "mode_ok a" and "mode_ok b"
  shows "sj_merge a b = sj_merge b a"
  using rate_winner [OF assms] strcmp_total [of "md_key a" "md_key b"]
  by (intro mode_eqI) (auto simp: merge_fields or.commute max.commute)

text \<open>A message without modes (the second and later lines of a burst) changes nothing.\<close>

lemma sj_merge_none:
  assumes "mode_ok a"
  shows "sj_merge a no_modes = a"
  using assms by (intro mode_eqI) (auto simp: sj_merge_def sj_merge_rate_def Let_def mode_ok_def no_modes_def has_flag_def)

subsection \<open>Modes on the wire\<close>

text \<open>The flags that have a letter in the burst: the flag of +l (which the limit itself stands for) and +L have none.\<close>

definition WIRE :: u32 where
  "WIRE = fold (\<lambda>(f, _) x. x OR f) mode_letters MODE_JOINRATE"

definition wire :: "Mode \<Rightarrow> Mode" where
  "wire m = m\<lparr>md_mode := md_mode m AND WIRE\<rparr>"

lemma single_bit: "(x :: u32) AND f = 0 \<or> x AND f = f" if "f = push_bit n 1"
proof (cases "bit x n")
  case True
  then show ?thesis by (intro disjI2 bit_word_eqI) (auto simp: that bit_simps)
next
  case False
  then show ?thesis by (intro disjI1 bit_word_eqI) (auto simp: that bit_simps)
qed

lemma letter_table:
  "list_all (\<lambda>(f, c). map_of sjoin_flags c = Some f \<and> list_ex (\<lambda>n. f = push_bit n 1) [0..<20]) mode_letters"
  by code_simp

lemma letter_bits: "(f, c) \<in> set mode_letters \<Longrightarrow> map_of sjoin_flags c = Some f \<and> (x AND f = 0 \<or> x AND f = f)"
  using letter_table single_bit by (fastforce simp: list_all_iff list_ex_iff)

lemma fold_or: "fold (\<lambda>(f, _) y. y OR f) L z = z OR fold (\<lambda>(f, _) y. y OR f) L (0::u32)"
proof (induction L arbitrary: z)
  case (Cons a L)
  show ?case using Cons.IH [of "z OR fst a"] Cons.IH [of "fst a"] by (simp add: case_prod_unfold or.assoc)
qed simp

lemma sjoin_letters:
  assumes "set L \<subseteq> set mode_letters"
  shows "sjoin_modes (map snd (filter (\<lambda>(f, _). has_flag x f) L) @ cs) ps m =
    sjoin_modes cs ps (m\<lparr>md_mode := md_mode m OR (x AND fold (\<lambda>(f, _) y. y OR f) L 0)\<rparr>)"
  using assms
proof (induction L arbitrary: m)
  case (Cons a L)
  obtain f c where a: "a = (f, c)" by fastforce
  have b: "map_of sjoin_flags c = Some f" "x AND f = 0 \<or> x AND f = f" using letter_bits [of f c x] Cons.prems a by auto
  have f: "fold (\<lambda>(f, _) y. y OR f) (a # L) 0 = f OR fold (\<lambda>(f, _) y. y OR f) L 0" using fold_or [of L f] by (simp add: a)
  show ?case
  proof (cases "x AND f = 0")
    case True
    then show ?thesis using Cons.IH [of m] Cons.prems unfolding f by (simp add: a has_flag_def bit.conj_disj_distrib)
  next
    case False
    then have "x AND f = f" using b(2) by simp
    with False show ?thesis using Cons.IH [of "m\<lparr>md_mode := md_mode m OR f\<rparr>"] Cons.prems b(1) unfolding f
      by (simp add: a has_flag_def bit.conj_disj_distrib or.assoc)
  qed
qed simp


lemma sj_rate_text:
  assumes "mode_ok m"
  shows "sj_rate (rate_text (md_join_num m, md_join_time m)) x =
    x\<lparr>md_mode := md_mode x OR MODE_JOINRATE, md_join_num := md_join_num m, md_join_time := md_join_time m\<rparr>"
proof (cases "md_join_num m = 0")
  case True
  then have "md_join_time m = 0" using assms by (simp add: mode_ok_def)
  moreover have "atoi ''0'' = 0" by code_simp
  ultimately show ?thesis using True by (simp add: sj_rate_def rate_text_def split_first_def)
next
  case False
  have nt: "0 \<le> md_join_num m" "md_join_num m < 2 ^ 31" "0 \<le> md_join_time m" "md_join_time m < 2 ^ 31" "md_join_time m \<noteq> 0"
    using assms False by (auto simp: mode_ok_def)
  let ?n = "dec (md_join_num m)"
  have "\<forall>c\<in>set ?n. c \<noteq> CHR '':''" using dec_text [OF nt(1)] c_digit_not by blast
  then have "split_first CHR '':'' (?n @ '':'' @ dec (md_join_time m)) = (?n, Some (dec (md_join_time m)))"
    by (simp add: split_first_def takeWhile_append2 dropWhile_append2)
  then show ?thesis using False nt by (simp add: sj_rate_def rate_text_def atoi_dec)
qed

text \<open>The modes are read back as they were written, with whatever follows them.\<close>

definition mode_words :: "Mode \<Rightarrow> cstr list" where
  "mode_words m = (if md_limit m \<noteq> 0 then [dec (md_limit m)] else []) @ (if md_key m \<noteq> [] then [md_key m] else []) @
     (if has_flag (md_mode m) MODE_JOINRATE then [rate_text (md_join_num m, md_join_time m)] else [])"

lemma channel_modes_words:
  assumes "shows_params st p chp"
  shows "snd (channel_modes st p chp) = unwords (mode_words (ch_mode (cs_channels st chp)))"
proof -
  have d: "dec n \<noteq> []" for n using dec_nat_digits by (simp add: dec_def)
  show ?thesis using assms d by (simp add: channel_modes_def Let_def mode_words_def add_word_def)
qed

lemma sjoin_plus: "sjoin_modes (CHR ''+'' # cs) ps m = sjoin_modes cs ps m"
  by (simp add: sjoin_flags_def)

lemma joinrate_wire: "WIRE = MODE_JOINRATE OR fold (\<lambda>(f, _) y. y OR f) mode_letters 0"
  using fold_or [of mode_letters MODE_JOINRATE] by (simp add: WIRE_def)

lemma joinrate_bit: "x AND MODE_JOINRATE = 0 \<or> x AND MODE_JOINRATE = MODE_JOINRATE"
  by (rule single_bit [of _ 18]) (simp add: MODE_JOINRATE_def push_bit_eq_mult)

lemma sjoin_reads_modes:
  assumes "mode_ok (ch_mode (cs_channels st chp))" and "names = [] \<Longrightarrow> False"
  shows "sjoin_modes (fst (channel_modes st p chp)) (mode_words (ch_mode (cs_channels st chp)) @ names) no_modes = Sj_ok (wire (ch_mode (cs_channels st chp))) names"
proof -
  let ?m = "ch_mode (cs_channels st chp)"
  let ?f = "fold (\<lambda>(f, _) y. y OR f) mode_letters (0 :: u32)"
  let ?l = "if md_limit ?m \<noteq> 0 then ''l'' else []"
  let ?k = "if md_key ?m \<noteq> [] then ''k'' else []"
  let ?j = "if has_flag (md_mode ?m) MODE_JOINRATE then ''j'' else []"
  have l: "atoi (dec (md_limit ?m)) = md_limit ?m" and k: "strncpyzt (md_key ?m) (KEYLEN + 1) = md_key ?m"
    using assms(1) by (simp_all add: mode_ok_def atoi_dec strncpyzt_id)
  have "fst (channel_modes st p chp) = CHR ''+'' # map snd (filter (\<lambda>(f, _). has_flag (md_mode ?m) f) mode_letters) @ ?l @ ?k @ ?j"
    by (simp add: channel_modes_def Let_def)
  then have "sjoin_modes (fst (channel_modes st p chp)) (mode_words ?m @ names) no_modes =
      sjoin_modes (?l @ ?k @ ?j) (mode_words ?m @ names) (no_modes\<lparr>md_mode := md_mode ?m AND ?f\<rparr>)"
    using sjoin_letters [of mode_letters "md_mode ?m" "?l @ ?k @ ?j" "mode_words ?m @ names" no_modes]
    by (simp add: sjoin_flags_def no_modes_def)
  also have "\<dots> = Sj_ok (wire ?m) names"
    using assms l k sj_rate_text [OF assms(1)] joinrate_bit [of "md_mode ?m"]
    by (auto simp: mode_words_def sjoin_flags_def no_modes_def wire_def joinrate_wire has_flag_def bit.conj_disj_distrib or.commute mode_ok_def
      intro!: mode_eqI)
  finally show ?thesis .
qed


subsection \<open>Lines of a burst as parameters\<close>

text \<open>
  The parameters the parser hands to the handler for a line with a prefix and a command of at most
  \<open>MAXPARA\<close> parameters (see \<open>parse\<close> and \<open>parse_command\<close>).
\<close>

definition behind_word :: "cstr \<Rightarrow> cstr" where
  "behind_word s = dropWhile (\<lambda>x. x \<noteq> CHR '' '') s"

definition line_parv :: "cstr \<Rightarrow> cstr list" where
  "line_parv l = word_of (tl l) # fst (split_params MAXPARA 1 (behind_word (tl (behind_word l))))"

lemma split_params_word:
  assumes "param_ok w" and "i + 1 < pc" and "r = [] \<or> hd r = CHR '' ''"
  shows "fst (split_params pc i (CHR '' '' # w @ r)) = w # fst (split_params pc (i + 1) r)"
proof -
  obtain c cs where w: "w = c # cs" "c \<noteq> CHR '':''" "CHR '' '' \<notin> set w" using assms(1) by (cases w) (auto simp: param_ok_def)
  then have "dropWhile (\<lambda>x. x = CHR '' '') (CHR '' '' # w @ r) = c # cs @ r" by auto
  from split_params_token [OF this] have "fst (split_params pc i (CHR '' '' # w @ r)) =
      word_of (w @ r) # fst (split_params pc (i + 1) (dropWhile (\<lambda>x. x \<noteq> CHR '' '') (w @ r)))"
    using w(1,2) assms(2) by (simp add: case_prod_unfold)
  moreover have "\<forall>x\<in>set w. x \<noteq> CHR '' ''" using w(3) by auto
  moreover have "takeWhile (\<lambda>x. x \<noteq> CHR '' '') r = []" "dropWhile (\<lambda>x. x \<noteq> CHR '' '') r = r" using assms(3) by (cases r; simp)+
  ultimately show ?thesis by (simp add: word_of_def)
qed

lemma split_params_blank: "split_params pc i (CHR '' '' # CHR '' '' # r) = split_params pc i (CHR '' '' # r)"
  unfolding split_params.simps [of pc i "CHR '' '' # CHR '' '' # r"] split_params.simps [of pc i "CHR '' '' # r"] by simp

lemma split_params_last: "fst (split_params pc i (CHR '' '' # CHR '':'' # r)) = [r]"
  using split_params_token [of "CHR '' '' # CHR '':'' # r" "CHR '':''" r pc i] by simp

lemma split_params_words:
  assumes "list_all param_ok ws" and "ws \<noteq> []" and "i + length ws < pc"
  shows "fst (split_params pc i (CHR '' '' # unwords ws @ CHR '' '' # CHR '':'' # r)) = ws @ [r]"
  using assms
proof (induction ws arbitrary: i rule: unwords.induct)
  case (2 x)
  then show ?case using split_params_word [of x i pc "CHR '' '' # CHR '':'' # r"] by (simp add: split_params_last)
next
  case (3 x y ws)
  then show ?case using split_params_word [of x i pc "CHR '' '' # unwords (y # ws) @ CHR '' '' # CHR '':'' # r"] by simp
qed simp

lemma sjoin_line_parv:
  assumes "CHR '' '' \<notin> set src" and "0 \<le> ch_channelts ch" and "param_ok (ch_chname ch)" and "param_ok mb" and "list_all param_ok ws" and "length ws \<le> 10"
  shows "line_parv (sjoin_header src ch (mb @ '' '' @ unwords ws) @ names) = [src, dec (ch_channelts ch), ch_chname ch, mb] @ ws @ [names]"
    and "line_parv (sjoin_header src ch mb @ names) = [src, dec (ch_channelts ch), ch_chname ch, mb, names]"
proof -
  have ts: "param_ok (dec (ch_channelts ch))" using dec_text [OF assms(2)] c_digit_not by (fastforce simp: param_ok_def)
  have b: "\<forall>x\<in>set src. x \<noteq> CHR '' ''" using assms(1) by auto
  have "line_parv (sjoin_header src ch m @ names) = src # fst (split_params MAXPARA 1
      (CHR '' '' # dec (ch_channelts ch) @ CHR '' '' # ch_chname ch @ CHR '' '' # m @ CHR '' '' # CHR '':'' # names))" for m
    using b by (simp add: line_parv_def sjoin_header_def behind_word_def word_of_def takeWhile_append2 dropWhile_append2)
  then have l: "line_parv (sjoin_header src ch m @ names) =
      [src, dec (ch_channelts ch), ch_chname ch] @ fst (split_params MAXPARA 3 (CHR '' '' # m @ CHR '' '' # CHR '':'' # names))" for m
    using split_params_word [OF ts, of 1 MAXPARA] split_params_word [OF assms(3), of 2 MAXPARA] by (simp add: MAXPARA_def eval_nat_numeral)
  show "line_parv (sjoin_header src ch mb @ names) = [src, dec (ch_channelts ch), ch_chname ch, mb, names]"
    using split_params_word [OF assms(4), of 3 MAXPARA] by (simp add: l split_params_last MAXPARA_def)
  show "line_parv (sjoin_header src ch (mb @ '' '' @ unwords ws) @ names) = [src, dec (ch_channelts ch), ch_chname ch, mb] @ ws @ [names]"
  proof (cases "ws = []")
    case True
    then show ?thesis using split_params_word [OF assms(4), of 3 MAXPARA]
      by (simp add: l split_params_blank split_params_last MAXPARA_def)
  next
    case False
    then show ?thesis using split_params_word [OF assms(4), of 3 MAXPARA] split_params_words [OF assms(5) False, of 4 MAXPARA names] assms(6)
      by (simp add: l MAXPARA_def)
  qed
qed

subsection \<open>Names\<close>

definition nick_ok :: "cstr \<Rightarrow> bool" where
  "nick_ok n \<longleftrightarrow> n \<noteq> [] \<and> CHR '' '' \<notin> set n \<and> CHR ''@'' \<notin> set n \<and> CHR ''%'' \<notin> set n \<and> CHR ''+'' \<notin> set n"

lemma strtoken_word:
  assumes "w \<noteq> []" and "CHR '' '' \<notin> set w"
  shows "strtoken CHR '' '' (w @ '' '' @ r) = Some (w, Some r)"
proof -
  obtain c cs where w: "w = c # cs" using assms(1) by (cases w) auto
  have "\<forall>x\<in>set w. x \<noteq> CHR '' ''" using assms(2) by auto
  then show ?thesis using w by (auto simp: strtoken_def takeWhile_append2 dropWhile_append2)
qed

lemma strtokens_words:
  assumes "\<forall>w\<in>set ws. w \<noteq> [] \<and> CHR '' '' \<notin> set w"
  shows "strtokens CHR '' '' (concat (map (\<lambda>w. w @ '' '') ws)) = ws"
  using assms
proof (induction ws)
  case Nil
  then show ?case by (simp add: strtokens.simps strtoken_def)
next
  case (Cons w ws)
  then show ?case using strtoken_word [of w "concat (map (\<lambda>w. w @ '' '') ws)"] by (simp add: strtokens.simps [of _ "w @ x" for x])
qed

text \<open>A status is read back unless the member has all three: the receiver looks at two bytes only.\<close>

lemma status_read_back:
  assumes "nick_ok n" and "\<not> (has_flag fl CHFL_CHANOP \<and> has_flag fl CHFL_HALFOP \<and> has_flag fl CHFL_VOICE)"
  shows "sj_status True (status_prefix fl @ n) = fl AND STATUS" and "sj_nick (status_prefix fl @ n) = n"
proof -
  have bits: "fl AND CHFL_CHANOP = 0 \<or> fl AND CHFL_CHANOP = CHFL_CHANOP" "fl AND CHFL_HALFOP = 0 \<or> fl AND CHFL_HALFOP = CHFL_HALFOP"
    "fl AND CHFL_VOICE = 0 \<or> fl AND CHFL_VOICE = CHFL_VOICE"
    using single_bit [of CHFL_CHANOP 0 fl] single_bit [of CHFL_HALFOP 1 fl] single_bit [of CHFL_VOICE 2 fl]
    by (simp_all add: CHFL_CHANOP_def CHFL_HALFOP_def CHFL_VOICE_def push_bit_eq_mult)
  have fl: "fl AND STATUS = (if has_flag fl CHFL_CHANOP then CHFL_CHANOP else 0) OR (if has_flag fl CHFL_HALFOP then CHFL_HALFOP else 0) OR
      (if has_flag fl CHFL_VOICE then CHFL_VOICE else 0)"
    using bits by (auto simp: STATUS_def has_flag_def bit.conj_disj_distrib)
  have n: "\<not> char_at n i CHR ''@''" "\<not> char_at n i CHR ''%''" "\<not> char_at n i CHR ''+''" for i
    using assms(1) by (auto simp: nick_ok_def char_at_def dest: nth_mem)
  obtain c r where c: "n = c # r" "c \<noteq> CHR ''@''" "c \<noteq> CHR ''%''" "c \<noteq> CHR ''+''" using assms(1) by (cases n) (auto simp: nick_ok_def)
  show "sj_status True (status_prefix fl @ n) = fl AND STATUS"
    unfolding fl using assms(2) n [of 0] n [of 1] c
    by (cases "has_flag fl CHFL_CHANOP"; cases "has_flag fl CHFL_HALFOP"; cases "has_flag fl CHFL_VOICE")
      (auto simp: sj_status_def status_prefix_def char_at_def Let_def or.commute)
  show "sj_nick (status_prefix fl @ n) = n" using c by (simp add: sj_nick_def status_prefix_def)
qed


subsection \<open>Members entering\<close>

definition named :: "clients \<Rightarrow> chanMember \<Rightarrow> cstr \<times> u32" where
  "named cs m = (c_name (cs (cm_cptr m)), cm_flags m)"

text \<open>\<open>st1\<close> is \<open>st\<close> after clients with the given names and flags have entered the channel.\<close>

definition enters :: "addr \<Rightarrow> (cstr \<times> u32) list \<Rightarrow> chan_state \<Rightarrow> chan_state \<Rightarrow> bool" where
  "enters chp l st st1 \<longleftrightarrow>
     chans_ok st1 \<and> links_ok st1 \<and> core_clients (cs_clients st) (cs_clients st1) \<and> cs_channel st1 = cs_channel st \<and> is_user st1 = is_user st \<and>
     (\<forall>b. b \<noteq> chp \<longrightarrow> cs_channels st1 b = cs_channels st b) \<and>
     (\<exists>new. cs_channels st1 chp = (cs_channels st chp)\<lparr>ch_members := new @ ch_members (cs_channels st chp),
          ch_users := ch_users (cs_channels st chp) + int (length new)\<rparr> \<and> map (named (cs_clients st)) new = rev l)"

lemma named_core: "core_clients cs cs1 \<Longrightarrow> named cs1 = named cs"
  by (simp add: named_def core_clientsD(1) fun_eq_iff)

lemma enters_refl: "chans_ok st \<Longrightarrow> links_ok st \<Longrightarrow> enters chp [] st st"
  by (simp add: enters_def core_clients_refl)

lemma enters_trans:
  assumes "enters chp l a b" and "enters chp l' b c"
  shows "enters chp (l @ l') a c"
proof -
  have c: "core_clients (cs_clients a) (cs_clients b)" "core_clients (cs_clients b) (cs_clients c)" using assms by (auto simp: enters_def)
  obtain n where n: "cs_channels b chp = (cs_channels a chp)\<lparr>ch_members := n @ ch_members (cs_channels a chp),
      ch_users := ch_users (cs_channels a chp) + int (length n)\<rparr>" "map (named (cs_clients a)) n = rev l"
    using assms(1) by (auto simp: enters_def)
  obtain n' where n': "cs_channels c chp = (cs_channels b chp)\<lparr>ch_members := n' @ ch_members (cs_channels b chp),
      ch_users := ch_users (cs_channels b chp) + int (length n')\<rparr>" "map (named (cs_clients b)) n' = rev l'"
    using assms(2) by (auto simp: enters_def)
  have "cs_channels c chp = (cs_channels a chp)\<lparr>ch_members := (n' @ n) @ ch_members (cs_channels a chp),
      ch_users := ch_users (cs_channels a chp) + int (length (n' @ n))\<rparr> \<and> map (named (cs_clients a)) (n' @ n) = rev (l @ l')"
    using n n' named_core [OF c(1)] by simp
  then show ?thesis using assms core_clients_trans [OF c] unfolding enters_def by metis
qed

text \<open>The clients of the names are known as users behind the link, and are not on the channel.\<close>

definition knows :: "mode_ctx \<Rightarrow> addr \<Rightarrow> chan_state \<Rightarrow> cstr \<Rightarrow> bool" where
  "knows cx chp st n \<longleftrightarrow>
     (\<exists>q. hash_find_client (cs_clients st) (mc_table cx) n None = Some q \<and> c_name (cs_clients st q) = n \<and> c_from (cs_clients st q) = mc_cptr cx \<and>
        is_user st q \<and> q \<notin> set (members_of st chp))"

lemma core_from: "core_clients cs cs1 \<Longrightarrow> c_from (cs1 p) = c_from (cs p)"
proof -
  assume "core_clients cs cs1"
  then have "(cs1 p)\<lparr>c_user := None\<rparr> = (cs p)\<lparr>c_user := None\<rparr>" by (simp add: core_clients_def)
  from arg_cong [OF this, of c_from] show ?thesis by simp
qed

lemma knows_enters:
  assumes "knows cx chp st n" and "enters chp l st st1" and "n \<notin> fst ` set l"
  shows "knows cx chp st1 n"
proof -
  have c: "core_clients (cs_clients st) (cs_clients st1)" using assms(2) by (simp add: enters_def)
  obtain q where q: "hash_find_client (cs_clients st) (mc_table cx) n None = Some q" "c_name (cs_clients st q) = n"
    "c_from (cs_clients st q) = mc_cptr cx" "is_user st q" "q \<notin> set (members_of st chp)" using assms(1) by (auto simp: knows_def)
  obtain new where new: "ch_members (cs_channels st1 chp) = new @ ch_members (cs_channels st chp)" "map (named (cs_clients st)) new = rev l"
    using assms(2) by (auto simp: enters_def)
  have "q \<notin> cm_cptr ` set new"
  proof
    assume "q \<in> cm_cptr ` set new"
    then have "n \<in> fst ` set (map (named (cs_clients st)) new)" using q(2) by (force simp: named_def image_image)
    with new(2) assms(3) show False by simp
  qed
  then have "q \<notin> set (members_of st1 chp)" using new(1) q(5) by (auto simp: members_of_def)
  then show ?thesis using q c core_from [OF c] core_clientsD(1) [OF c] hash_find_client_core [OF c] assms(2) by (auto simp: knows_def enters_def)
qed

lemma add_user_enters:
  assumes "chans_ok st" "links_ok st" "is_user st q" "chp \<in> set (cs_channel st)" "q \<notin> set (members_of st chp)"
  shows "enters chp [(c_name (cs_clients st q), fl)] st (add_user_to_channel chp q fl st)"
proof -
  let ?st = "add_user_to_channel chp q fl st"
  have eq: "?st = upd_chan chp (\<lambda>ch. ch\<lparr>ch_members := \<lparr>cm_cptr = q, cm_flags = fl, cm_banserial = ch_banserial ch\<rparr> # ch_members ch,
      ch_users := ch_users ch + 1\<rparr>) (set_user q (\<lambda>u. u\<lparr>u_channel := chp # u_channel u, u_joined := u_joined u + 1\<rparr>) st)"
    using assms(3) by (simp add: add_user_to_channel_def upd_user_eq)
  have "core_clients (cs_clients st) (cs_clients ?st)" by (simp add: eq core_clients_def chan_simps set_user_def)
  moreover have "\<exists>new. cs_channels ?st chp = (cs_channels st chp)\<lparr>ch_members := new @ ch_members (cs_channels st chp),
      ch_users := ch_users (cs_channels st chp) + int (length new)\<rparr> \<and> map (named (cs_clients st)) new = rev [(c_name (cs_clients st q), fl)]"
    by (rule exI [of _ "[\<lparr>cm_cptr = q, cm_flags = fl, cm_banserial = ch_banserial (cs_channels st chp)\<rparr>]"]) (simp add: eq chan_simps named_def)
  moreover have "\<forall>b. b \<noteq> chp \<longrightarrow> cs_channels ?st b = cs_channels st b" by (simp add: eq chan_simps)
  ultimately show ?thesis using add_user_ok(1-4) [OF assms] by (simp add: enters_def)
qed

lemma sj_member_enters:
  assumes "chans_ok (sr_st r)" "links_ok (sr_st r)" "mc_chp cx \<in> set (cs_channel (sr_st r))" "knows cx (mc_chp cx) (sr_st r) (sj_nick w)"
  shows "enters (mc_chp cx) [(sj_nick w, sj_status k w)] (sr_st r) (sr_st (sj_member cx parv k w r)) \<and> sr_people (sj_member cx parv k w r) = sr_people r + 1"
proof -
  obtain q where q: "hash_find_client (cs_clients (sr_st r)) (mc_table cx) (sj_nick w) None = Some q" "c_name (cs_clients (sr_st r) q) = sj_nick w"
    "c_from (cs_clients (sr_st r) q) = mc_cptr cx" "is_user (sr_st r) q" "q \<notin> set (members_of (sr_st r) (mc_chp cx))"
    using assms(4) by (auto simp: knows_def)
  have "\<not> IsMember (sr_st r) q (mc_chp cx)" using IsMember_iff [OF assms(2) q(4)] q(5) by simp
  then show ?thesis using q add_user_enters [OF assms(1,2) q(4) assms(3) q(5), of "sj_status k w"]
    by (simp add: sj_member_def find_chasing_def Let_def case_prod_unfold)
qed

lemma sj_fold_enters:
  fixes parv k
  assumes "chans_ok (sr_st r)" "links_ok (sr_st r)" "mc_chp cx \<in> set (cs_channel (sr_st r))"
    and "\<forall>w\<in>set ws. knows cx (mc_chp cx) (sr_st r) (sj_nick w)" and "distinct (map sj_nick ws)"
  defines "r1 \<equiv> foldl (\<lambda>r w. sj_member cx parv k w r) r ws"
  shows "enters (mc_chp cx) (map (\<lambda>w. (sj_nick w, sj_status k w)) ws) (sr_st r) (sr_st r1) \<and> sr_people r1 = sr_people r + length ws"
  using assms(1-5) unfolding r1_def
proof (induction ws arbitrary: r)
  case Nil
  then show ?case by (simp add: enters_refl)
next
  case (Cons w ws)
  let ?r = "sj_member cx parv k w r"
  have e: "enters (mc_chp cx) [(sj_nick w, sj_status k w)] (sr_st r) (sr_st ?r)" "sr_people ?r = sr_people r + 1"
    using sj_member_enters [OF Cons.prems(1-3), of w] Cons.prems(4) by auto
  have "sj_nick v \<noteq> sj_nick w" if "v \<in> set ws" for v using Cons.prems(5) imageI [OF that, of sj_nick] by auto
  then have "\<forall>v\<in>set ws. knows cx (mc_chp cx) (sr_st ?r) (sj_nick v)"
    using Cons.prems(4) knows_enters [OF _ e(1)] by simp
  then have "enters (mc_chp cx) (map (\<lambda>w. (sj_nick w, sj_status k w)) ws) (sr_st ?r) (sr_st (foldl (\<lambda>r w. sj_member cx parv k w r) ?r ws)) \<and>
      sr_people (foldl (\<lambda>r w. sj_member cx parv k w r) ?r ws) = sr_people ?r + length ws"
    using Cons.prems(3,5) e(1) by (intro Cons.IH) (simp_all add: enters_def)
  then show ?case using enters_trans [OF e(1)] e(2) by fastforce
qed


subsection \<open>What a message does to a channel\<close>

text \<open>A channel as the protocol sees it: the time stamp, the modes and the members with their status.\<close>

type_synonym chan_view = "int \<times> Mode \<times> (cstr \<times> u32) list"

definition ch_view :: "chan_state \<Rightarrow> addr \<Rightarrow> chan_view" where
  "ch_view st chp =
     (ch_channelts (cs_channels st chp), ch_mode (cs_channels st chp),
      map (\<lambda>m. (c_name (cs_clients st (cm_cptr m)), cm_flags m AND STATUS)) (ch_members (cs_channels st chp)))"

definition take_mode :: "int \<Rightarrow> int \<Rightarrow> Mode \<Rightarrow> Mode \<Rightarrow> Mode" where
  "take_mode newts oldts new old = (if oldts < newts then old else if newts < oldts then new else sj_merge old new)"

definition receive :: "int \<Rightarrow> Mode \<Rightarrow> cstr list \<Rightarrow> chan_view \<Rightarrow> chan_view" where
  "receive newts new ws = (\<lambda>(ts, m, ms).
     (min newts ts, take_mode newts ts new m,
      rev (map (\<lambda>w. (sj_nick w, sj_status (newts \<le> ts) w AND STATUS)) ws) @ (if newts < ts then map (\<lambda>(n, _). (n, 0)) ms else ms)))"

definition ready :: "mode_ctx \<Rightarrow> addr \<Rightarrow> chan_state \<Rightarrow> bool" where
  "ready cx chp st \<longleftrightarrow> chans_ok st \<and> links_ok st \<and> chp \<in> set (cs_channel st) \<and> IsServer (cs_clients st (mc_sptr cx)) \<and>
     0 < ch_channelts (cs_channels st chp) \<and> char_at (ch_chname (cs_channels st chp)) 0 CHR ''#''"

lemma drop_status_facts: "cm_cptr (drop_status m) = cm_cptr m" "cm_flags (drop_status m) AND STATUS = 0"
proof -
  show "cm_flags (drop_status m) AND STATUS = 0"
    by (rule bit_word_eqI) (auto simp: drop_status_def STATUS_def bit_simps)
qed (simp add: drop_status_def)

lemma sj_apply_channel:
  fixes cx parv st new
  assumes "newts \<noteq> 0" and "ch_channelts (cs_channels st (mc_chp cx)) \<noteq> 0"
  defines "ch \<equiv> cs_channels st (mc_chp cx)" and "r \<equiv> sj_apply cx parv False newts new st"
  shows "fst r = upd_chan (mc_chp cx) (\<lambda>_. cs_channels (fst r) (mc_chp cx)) st" "fst (snd r) \<longleftrightarrow> newts \<le> ch_channelts ch"
    "frame_ok ch (cs_channels (fst r) (mc_chp cx))" "ch_mode (cs_channels (fst r) (mc_chp cx)) = take_mode newts (ch_channelts ch) new (ch_mode ch)"
    "ch_channelts (cs_channels (fst r) (mc_chp cx)) = min newts (ch_channelts ch)"
    "ch_members (cs_channels (fst r) (mc_chp cx)) = (if newts < ch_channelts ch then map drop_status (ch_members ch) else ch_members ch)"
  unfolding r_def ch_def using assms(1,2)
  by (cases "newts < ch_channelts (cs_channels st (mc_chp cx))"; cases "newts = ch_channelts (cs_channels st (mc_chp cx))";
      simp add: sj_apply_def Let_def kill_ban_list_def deop_all_def case_prod_unfold take_mode_def min_ts_def frame_ok_def drop_status_facts comp_def chan_simps)+

lemma ready_keeps:
  assumes "ready cx chp st" and "chans_ok st1" "links_ok st1" "cs_channel st1 = cs_channel st" "core_clients (cs_clients st) (cs_clients st1)"
    and "ch_chname (cs_channels st1 chp) = ch_chname (cs_channels st chp)" "0 < ch_channelts (cs_channels st1 chp)"
  shows "ready cx chp st1"
  using assms core_clientsD(4) [OF assms(5)] by (simp add: ready_def IsServer_def)


lemma sjoin_dispatch:
  assumes "ready cx0 chp st" and "0 \<le> ts" "ts < 2 ^ 63" and "parv = [src, dec ts, ch_chname (cs_channels st chp), mb] @ ws @ [names]"
    and "sjoin_modes mb (ws @ [names]) no_modes = Sj_ok m [names]"
  shows "m_sjoin cx0 parv st = server_sjoin (cx0\<lparr>mc_chp := chp\<rparr>) parv False False ts m names st"
proof -
  let ?n = "ch_chname (cs_channels st chp)"
  have s: "IsServer (cs_clients st (mc_sptr cx0))" "\<not> MyClient (cs_clients st (mc_sptr cx0))" "\<not> IsPerson (cs_clients st (mc_sptr cx0))"
    using assms(1) by (simp_all add: ready_def status_defs)
  have n: "?n \<noteq> []" "hd ?n = CHR ''#''" "char_at ?n 0 CHR ''#''" using assms(1) by (cases ?n; simp add: ready_def char_at_def)+
  have d: "\<not> IsDigit CHR ''#''" by code_simp
  have f: "find_channel st ?n = Some chp" using assms(1) find_channel_iff [of st ?n chp] by (simp add: ready_def mycmp_refl)
  have g: "get_channel (mc_now cx0) (mc_sptr cx0) ?n True st = Some (Some chp, False, st)"
    using n(1) f s(2) by (simp add: get_channel_def)
  have t: "atol (dec ts) = ts" using strtol_dec [OF assms(2,3), of "[]"] by (simp add: atol_def)
  show ?thesis using s n d f g t assms(5) by (simp add: m_sjoin_def assms(4) Let_def)
qed

lemma message_view:
  assumes rd: "ready cx0 chp st" and ts: "0 < ts" "ts < 2 ^ 63" and parv: "parv = [src, dec ts, ch_chname (cs_channels st chp), mb] @ ps @ [names]"
    and m: "sjoin_modes mb (ps @ [names]) no_modes = Sj_ok m [names]" and ws: "strtokens CHR '' '' names = ws" "ws \<noteq> []" "distinct (map sj_nick ws)"
    and kn: "\<forall>w\<in>set ws. knows cx0 chp st (sj_nick w)"
  obtains st1 out where "m_sjoin cx0 parv st = Some (st1, out)" "ready cx0 chp st1" "ch_view st1 chp = receive ts m ws (ch_view st chp)"
    "ch_chname (cs_channels st1 chp) = ch_chname (cs_channels st chp)"
    "\<And>n. knows cx0 chp st n \<Longrightarrow> n \<notin> sj_nick ` set ws \<Longrightarrow> knows cx0 chp st1 n"
proof -
  let ?cx = "cx0\<lparr>mc_chp := chp\<rparr>"
  let ?ch = "cs_channels st chp"
  obtain sta k out where ap: "sj_apply ?cx parv False ts m st = (sta, k, out)" by (metis prod_cases3)
  have old: "ch_channelts ?ch \<noteq> 0" "chans_ok st" "links_ok st" using rd by (simp_all add: ready_def)
  define cha where "cha = cs_channels sta chp"
  have sta: "sta = upd_chan chp (\<lambda>_. cha) st" "k \<longleftrightarrow> ts \<le> ch_channelts ?ch" "frame_ok ?ch cha" "ch_mode cha = take_mode ts (ch_channelts ?ch) m (ch_mode ?ch)"
    "ch_channelts cha = min ts (ch_channelts ?ch)" "ch_members cha = (if ts < ch_channelts ?ch then map drop_status (ch_members ?ch) else ch_members ?ch)"
    using sj_apply_channel [where cx = ?cx and parv = parv and st = st and new = m and newts = ts] ts(1) old(1) unfolding cha_def by (simp_all add: ap)
  have oka: "chans_ok sta" "links_ok sta" "members_of sta chp = members_of st chp"
    using upd_chan_links [of st chp "\<lambda>_. cha"] old sta(1,3) by simp_all
  have sa: "cs_clients sta = cs_clients st" "cs_channel sta = cs_channel st" "is_user sta = is_user st" "ch_chname cha = ch_chname ?ch"
    using sta(1,3) by (simp_all add: chan_simps frame_ok_def)
  have kna: "knows cx0 chp sta n = knows cx0 chp st n" for n by (simp add: knows_def sa oka(3))
  let ?r = "sj_names ?cx parv k names sta"
  have "enters chp (map (\<lambda>w. (sj_nick w, sj_status k w)) ws) sta (sr_st ?r) \<and> sr_people ?r = length ws"
    using sj_fold_enters [where r = "\<lparr>sr_st = sta, sr_people = 0, sr_sjbuf = [], sr_buf = plus_buf, sr_out = []\<rparr>" and cx = ?cx and ws = ws and parv = parv and k = k] oka rd sa(2) kn ws(3) kna
    by (simp add: sj_names_def ws(1) ready_def knows_def)
  then have e: "enters chp (map (\<lambda>w. (sj_nick w, sj_status k w)) ws) sta (sr_st ?r)" and p: "sr_people ?r > 0" using ws(2) by auto
  obtain new where new: "cs_channels (sr_st ?r) chp = cha\<lparr>ch_members := new @ ch_members cha, ch_users := ch_users cha + int (length new)\<rparr>"
    "map (named (cs_clients st)) new = rev (map (\<lambda>w. (sj_nick w, sj_status k w)) ws)"
    using e unfolding cha_def by (auto simp: enters_def sa)
  have core: "core_clients (cs_clients st) (cs_clients (sr_st ?r))" using e by (simp add: enters_def sa)
  obtain out1 where run: "m_sjoin cx0 parv st = Some (sr_st ?r, out1)"
    using sjoin_dispatch [OF rd _ ts(2) parv m] ts(1) p by (auto simp: server_sjoin_def ap Let_def case_prod_unfold)
  moreover have "ready cx0 chp (sr_st ?r)"
    by (rule ready_keeps [OF rd]) (use e core ts rd in \<open>simp_all add: enters_def sa new(1) sta(5) ready_def\<close>)
  moreover have "ch_view (sr_st ?r) chp = receive ts m ws (ch_view st chp)"
  proof -
    have n: "map (\<lambda>m. (c_name (cs_clients st (cm_cptr m)), cm_flags m AND STATUS)) new = rev (map (\<lambda>w. (sj_nick w, sj_status k w AND STATUS)) ws)"
      using arg_cong [OF new(2), of "map (\<lambda>(n, f). (n, f AND STATUS))"] by (simp add: named_def comp_def rev_map)
    show ?thesis
      by (simp add: ch_view_def receive_def new(1) sta(2) [symmetric] sta(4-6) core_clientsD(1) [OF core] n drop_status_facts comp_def case_prod_unfold)
  qed
  moreover have "ch_chname (cs_channels (sr_st ?r) chp) = ch_chname ?ch" by (simp add: new(1) sa)
  moreover have "knows cx0 chp (sr_st ?r) n" if "knows cx0 chp st n" "n \<notin> sj_nick ` set ws" for n
    using knows_enters [OF _ e, of cx0 n] that kna by (simp add: image_image)
  ultimately show thesis using that by blast
qed


subsection \<open>A whole burst\<close>

lemma mode_ok_merge: "mode_ok a \<Longrightarrow> mode_ok b \<Longrightarrow> mode_ok (sj_merge a b)"
proof -
  assume ok: "mode_ok a" "mode_ok b"
  have f: "has_flag (md_mode b OR md_mode a) MODE_JOINRATE \<longleftrightarrow> has_flag (md_mode b) MODE_JOINRATE \<or> has_flag (md_mode a) MODE_JOINRATE"
    using joinrate_bit [of "md_mode a"] joinrate_bit [of "md_mode b"] by (auto simp: has_flag_def bit.conj_disj_distrib2)
  show "mode_ok (sj_merge a b)" using ok
    by (cases "rate_wins a b"; cases "md_key a \<noteq> [] \<and> (md_key b = [] \<or> strcmp_greater (md_key b) (md_key a))")
      (simp_all add: mode_ok_def merge_fields f max_def)
qed

lemma wire_joinrate: "has_flag (x AND WIRE) MODE_JOINRATE = has_flag x MODE_JOINRATE"
proof -
  have "WIRE AND MODE_JOINRATE = MODE_JOINRATE" by code_simp
  then show ?thesis by (simp add: has_flag_def and.assoc)
qed

lemma mode_ok_wire: "mode_ok m \<Longrightarrow> mode_ok (wire m)"
  by (simp add: mode_ok_def wire_def wire_joinrate)

lemma mode_ok_take: "mode_ok a \<Longrightarrow> mode_ok b \<Longrightarrow> mode_ok (take_mode t t' a b)"
  by (simp add: take_mode_def mode_ok_merge)

lemma receive_append:
  assumes "mode_ok new" and "mode_ok m"
  shows "receive t no_modes us (receive t new ws (ts, m, ms)) = receive t new (ws @ us) (ts, m, ms)"
proof (cases rule: linorder_cases [of t ts])
  case less
  then show ?thesis using sj_merge_none [OF assms(1)] by (simp add: receive_def take_mode_def)
next
  case equal
  then show ?thesis using sj_merge_none [OF mode_ok_merge [OF assms(2,1)]] by (simp add: receive_def take_mode_def)
next
  case greater
  then show ?thesis by (simp add: receive_def take_mode_def)
qed

text \<open>The lines are the words in groups.\<close>

abbreviation words_text :: "cstr list \<Rightarrow> cstr" where
  "words_text ws \<equiv> concat (map (\<lambda>w. w @ '' '') ws)"

lemma put_members_groups:
  "\<exists>gs. put_members hdr xs (h0 @ words_text ys) (length ys) =
      (case gs of [] \<Rightarrow> [] | g # gs' \<Rightarrow> (h0 @ words_text g) # map (\<lambda>g. hdr @ words_text g) gs') \<and>
     concat gs = ys @ xs \<and> [] \<notin> set gs"
proof (induction xs arbitrary: h0 ys)
  case Nil
  show ?case by (rule exI [of _ "if ys = [] then [] else [ys]"]) simp
next
  case (Cons x xs)
  show ?case
  proof (cases "length ((h0 @ words_text ys) @ x @ '' '') > BUFSIZE - 80")
    case True
    obtain gs where gs: "put_members hdr xs (hdr @ words_text []) (length ([] :: cstr list)) =
        (case gs of [] \<Rightarrow> [] | g # gs' \<Rightarrow> (hdr @ words_text g) # map (\<lambda>g. hdr @ words_text g) gs')" "concat gs = xs" "[] \<notin> set gs"
      using Cons.IH [of hdr "[]"] by auto
    have "(case gs of [] \<Rightarrow> [] | g # gs' \<Rightarrow> (hdr @ words_text g) # map (\<lambda>g. hdr @ words_text g) gs') = map (\<lambda>g. hdr @ words_text g) gs"
      by (cases gs) auto
    with True gs show ?thesis by (intro exI [of _ "(ys @ [x]) # gs"]) simp
  next
    case False
    with Cons.IH [of h0 "ys @ [x]"] show ?thesis by simp
  qed
qed

fun run_sjoin :: "mode_ctx \<Rightarrow> cstr list \<Rightarrow> chan_state \<Rightarrow> chan_state option" where
  "run_sjoin cx [] st = Some st"
| "run_sjoin cx (l # ls) st = Option.bind (m_sjoin cx (line_parv l) st) (\<lambda>(st, _). run_sjoin cx ls st)"

text \<open>The lines among the messages of a burst.\<close>

fun sjoin_lines :: "out_msg list \<Rightarrow> cstr list" where
  "sjoin_lines [] = []"
| "sjoin_lines (To_one _ f [S l] # ms) = (if f = ''%s'' then l # sjoin_lines ms else sjoin_lines ms)"
| "sjoin_lines (_ # ms) = sjoin_lines ms"

lemma sjoin_lines_append: "sjoin_lines (xs @ ys) = sjoin_lines xs @ sjoin_lines ys"
  by (induction xs rule: sjoin_lines.induct) auto

lemma sjoin_lines_lines: "sjoin_lines (map (\<lambda>l. To_one p ''%s'' [S l]) ls) = ls"
  by (induction ls) auto

lemma sjoin_lines_modes: "sjoin_lines (map (\<lambda>(m, para). To_one p f [S a, S b, c, S m, S para]) ls) = []"
  by (induction ls) auto

lemma sjoin_lines_burst:
  assumes "char_at (ch_chname (cs_channels st chp)) 0 CHR ''#''"
  shows "sjoin_lines (send_channel_modes src p chp st) =
    put_members (sjoin_header src (cs_channels st chp) ''0'') (member_words (cs_clients st) (burst_order (ch_members (cs_channels st chp))))
      (sjoin_header src (cs_channels st chp) (fst (channel_modes st p chp) @ '' '' @ snd (channel_modes st p chp))) 0"
proof -
  have "ch_chname (cs_channels st chp) \<noteq> []" "hd (ch_chname (cs_channels st chp)) = CHR ''#''"
    using assms by (cases "ch_chname (cs_channels st chp)"; simp add: char_at_def)+
  then show ?thesis by (simp add: send_channel_modes_def Let_def sjoin_lines_append sjoin_lines_lines sjoin_lines_modes
    split: prod.split)
qed


lemma run_continuation:
  assumes "ready cx chp st" and "ch_chname chS = ch_chname (cs_channels st chp)" and "0 < ch_channelts chS" "ch_channelts chS < 2 ^ 63"
    and "param_ok (ch_chname chS)" and "CHR '' '' \<notin> set src" and "[] \<notin> set gs" and "\<forall>w\<in>set (concat gs). w \<noteq> [] \<and> CHR '' '' \<notin> set w"
    and "distinct (map sj_nick (concat gs))" and "\<forall>w\<in>set (concat gs). knows cx chp st (sj_nick w)"
    and "mode_ok new" "mode_ok m" and "ch_view st chp = receive (ch_channelts chS) new ws (t, m, ms)"
  shows "\<exists>st1. run_sjoin cx (map (\<lambda>g. sjoin_header src chS ''0'' @ words_text g) gs) st = Some st1 \<and> ready cx chp st1 \<and>
    ch_view st1 chp = receive (ch_channelts chS) new (ws @ concat gs) (t, m, ms)"
  using assms
proof (induction gs arbitrary: st ws)
  case Nil
  then show ?case by simp
next
  case (Cons g gs)
  let ?parv = "line_parv (sjoin_header src chS ''0'' @ words_text g)"
  have parv: "?parv = [src, dec (ch_channelts chS), ch_chname (cs_channels st chp), ''0''] @ [] @ [words_text g]"
    using sjoin_line_parv(2) [OF Cons.prems(6) _ Cons.prems(5), of "''0''" "[]"] Cons.prems(2,3) by (simp add: param_ok_def)
  have tok: "strtokens CHR '' '' (words_text g) = g" using Cons.prems(8) by (intro strtokens_words) auto
  have m0: "sjoin_modes ''0'' ([] @ [words_text g]) no_modes = Sj_ok no_modes [words_text g]" by (simp add: sjoin_flags_def)
  have g: "g \<noteq> []" "distinct (map sj_nick g)" "\<forall>w\<in>set g. knows cx chp st (sj_nick w)" using Cons.prems(7,9,10) by auto
  obtain st1 out where st1: "m_sjoin cx ?parv st = Some (st1, out)" "ready cx chp st1" "ch_view st1 chp = receive (ch_channelts chS) no_modes g (ch_view st chp)"
    "ch_chname (cs_channels st1 chp) = ch_chname (cs_channels st chp)"
    "\<And>n. knows cx chp st n \<Longrightarrow> n \<notin> sj_nick ` set g \<Longrightarrow> knows cx chp st1 n"
    using message_view [OF Cons.prems(1,3,4) parv m0 tok g] by metis
  have "\<forall>w\<in>set (concat gs). knows cx chp st1 (sj_nick w)"
  proof
    fix w assume w: "w \<in> set (concat gs)"
    then have "sj_nick w \<notin> sj_nick ` set g" using Cons.prems(9) imageI [OF w, of sj_nick] by auto
    then show "knows cx chp st1 (sj_nick w)" using st1(5) Cons.prems(10) w by simp
  qed
  moreover have "ch_view st1 chp = receive (ch_channelts chS) new (ws @ g) (t, m, ms)"
    using st1(3) Cons.prems(13) receive_append [OF Cons.prems(11,12)] by simp
  ultimately have "\<exists>st2. run_sjoin cx (map (\<lambda>g. sjoin_header src chS ''0'' @ words_text g) gs) st1 = Some st2 \<and> ready cx chp st2 \<and>
      ch_view st2 chp = receive (ch_channelts chS) new ((ws @ g) @ concat gs) (t, m, ms)"
    using Cons.prems st1(2,4) by (intro Cons.IH) auto
  then show ?case using st1(1) by simp
qed

text \<open>What the sender of a burst has: a channel with people on it, whose nicknames and modes are well formed.\<close>

definition sends :: "cstr \<Rightarrow> addr \<Rightarrow> addr \<Rightarrow> chan_state \<Rightarrow> bool" where
  "sends src p chp st \<longleftrightarrow>
     (let ch = cs_channels st chp; name = (\<lambda>m. c_name (cs_clients st (cm_cptr m))) in
      CHR '' '' \<notin> set src \<and> IsServer (cs_clients st p) \<and> char_at (ch_chname ch) 0 CHR ''#'' \<and> CHR '' '' \<notin> set (ch_chname ch) \<and>
      0 < ch_channelts ch \<and> ch_channelts ch < 2 ^ 63 \<and> mode_ok (ch_mode ch) \<and> ch_members ch \<noteq> [] \<and> distinct (map name (ch_members ch)) \<and>
      (\<forall>m\<in>set (ch_members ch). nick_ok (name m) \<and>
         \<not> (has_flag (cm_flags m) CHFL_CHANOP \<and> has_flag (cm_flags m) CHFL_HALFOP \<and> has_flag (cm_flags m) CHFL_VOICE)))"

lemma burst_order_mset: "mset (burst_order ms) = mset ms"
proof (cases "find (\<lambda>m. has_flag (cm_flags m) (CHFL_CHANOP OR CHFL_HALFOP)) ms")
  case (Some a)
  then have "a \<in> set ms" using find_SomeD [OF Some] by blast
  with Some show ?thesis by (simp add: burst_order_def)
qed (simp add: burst_order_def)

lemma mode_words_ok: "mode_ok m \<Longrightarrow> list_all param_ok (mode_words m) \<and> length (mode_words m) \<le> 3"
proof -
  assume ok: "mode_ok m"
  have d: "param_ok (dec n)" if "0 \<le> n" for n using dec_text [OF that] c_digit_not by (fastforce simp: param_ok_def)
  have "param_ok (rate_text (md_join_num m, md_join_time m))"
  proof (cases "md_join_num m = 0 \<or> md_join_time m = 0")
    case True
    then show ?thesis by (auto simp: rate_text_def param_ok_def)
  next
    case False
    have "0 \<le> md_join_num m" "0 \<le> md_join_time m" using ok by (simp_all add: mode_ok_def)
    with False d show ?thesis by (auto simp: rate_text_def param_ok_def)
  qed
  then show ?thesis using ok d [of "md_limit m"] by (auto simp: mode_words_def mode_ok_def)
qed

lemma mode_text_ok: "param_ok (fst (channel_modes st p chp))"
proof -
  have "list_all (\<lambda>(f, c). c \<noteq> CHR '' '') mode_letters" by code_simp
  then have "CHR '' '' \<notin> snd ` set (filter P mode_letters)" for P by (auto simp: list_all_iff)
  then show ?thesis by (auto simp: channel_modes_def Let_def param_ok_def)
qed

lemma burst_words:
  assumes "sends src p chp st" and "w \<in> set (member_words (cs_clients st) (burst_order (ch_members (cs_channels st chp))))"
  shows "w \<noteq> [] \<and> CHR '' '' \<notin> set w"
proof -
  obtain m where m: "m \<in> set (ch_members (cs_channels st chp))" "w = status_prefix (cm_flags m) @ c_name (cs_clients st (cm_cptr m))"
    using assms(2) mset_eq_setD [OF burst_order_mset] by (auto simp: member_words_def)
  then show ?thesis using assms(1) by (auto simp: sends_def Let_def nick_ok_def status_prefix_def)
qed

lemma burst_nicks:
  assumes "sends src p chp st"
  shows "map sj_nick (member_words (cs_clients st) (burst_order (ch_members (cs_channels st chp)))) =
      map (\<lambda>m. c_name (cs_clients st (cm_cptr m))) (burst_order (ch_members (cs_channels st chp)))"
    and "map (sj_status True) (member_words (cs_clients st) (burst_order (ch_members (cs_channels st chp)))) =
      map (\<lambda>m. cm_flags m AND STATUS) (burst_order (ch_members (cs_channels st chp)))"
  using assms status_read_back mset_eq_setD [OF burst_order_mset [of "ch_members (cs_channels st chp)"]]
  by (auto simp: member_words_def sends_def Let_def)


text \<open>The receiver knows all of them.\<close>

definition receives :: "mode_ctx \<Rightarrow> addr \<Rightarrow> chan_state \<Rightarrow> addr \<Rightarrow> chan_state \<Rightarrow> bool" where
  "receives cx chp st chpS stS \<longleftrightarrow>
     ready cx chp st \<and> ch_chname (cs_channels st chp) = ch_chname (cs_channels stS chpS) \<and> mode_ok (ch_mode (cs_channels st chp)) \<and>
     (\<forall>m\<in>set (ch_members (cs_channels stS chpS)). knows cx chp st (c_name (cs_clients stS (cm_cptr m))))"

lemma burst_received:
  assumes "sends src p chpS stS" and "receives cx chp st chpS stS"
  defines "ch \<equiv> cs_channels stS chpS"
  shows "\<exists>st1. run_sjoin cx (sjoin_lines (send_channel_modes src p chpS stS)) st = Some st1 \<and>
    ch_view st1 chp = receive (ch_channelts ch) (wire (ch_mode ch)) (member_words (cs_clients stS) (burst_order (ch_members ch))) (ch_view st chp)"
proof -
  let ?ws = "member_words (cs_clients stS) (burst_order (ch_members ch))"
  let ?mb = "fst (channel_modes stS p chpS)"
  let ?h0 = "sjoin_header src ch (?mb @ '' '' @ unwords (mode_words (ch_mode ch)))"
  let ?hdr = "sjoin_header src ch ''0''"
  have s: "CHR '' '' \<notin> set src" "IsServer (cs_clients stS p)" "char_at (ch_chname ch) 0 CHR ''#''" "CHR '' '' \<notin> set (ch_chname ch)"
    "0 < ch_channelts ch" "ch_channelts ch < 2 ^ 63" "mode_ok (ch_mode ch)" "ch_members ch \<noteq> []"
    "distinct (map (\<lambda>m. c_name (cs_clients stS (cm_cptr m))) (ch_members ch))"
    using assms(1) unfolding sends_def Let_def ch_def by blast+
  have rd: "ready cx chp st" and name: "ch_chname ch = ch_chname (cs_channels st chp)" and ok: "mode_ok (ch_mode (cs_channels st chp))"
    using assms(2) by (simp_all add: receives_def ch_def)
  have pn: "param_ok (ch_chname ch)" using s(3,4) by (cases "ch_chname ch") (auto simp: param_ok_def char_at_def)
  have nicks: "map sj_nick ?ws = map (\<lambda>m. c_name (cs_clients stS (cm_cptr m))) (burst_order (ch_members ch))"
    unfolding ch_def by (rule burst_nicks(1) [OF assms(1)])
  have ms: "mset (burst_order (ch_members ch)) = mset (ch_members ch)" by (rule burst_order_mset)
  have dist: "distinct (map sj_nick ?ws)"
    unfolding nicks using s(9) ms by (metis distinct_count_atmost_1 mset_map set_mset_mset mset_eq_imp_distinct_iff)
  have kn: "\<forall>w\<in>set ?ws. knows cx chp st (sj_nick w)"
  proof -
    have "set (map sj_nick ?ws) = (\<lambda>m. c_name (cs_clients stS (cm_cptr m))) ` set (ch_members ch)" unfolding nicks using mset_eq_setD [OF ms] by simp
    then show ?thesis using assms(2) unfolding receives_def ch_def by (metis (no_types, lifting) image_iff list.set_map)
  qed
  have wok: "\<forall>w\<in>set ?ws. w \<noteq> [] \<and> CHR '' '' \<notin> set w" using burst_words [OF assms(1)] by (simp add: ch_def)
  have "?ws \<noteq> []" using s(8) ms by (auto simp: member_words_def)
  obtain gs where gs: "put_members ?hdr ?ws (?h0 @ words_text []) (length ([] :: cstr list)) =
      (case gs of [] \<Rightarrow> [] | g # gs' \<Rightarrow> (?h0 @ words_text g) # map (\<lambda>g. ?hdr @ words_text g) gs')" "concat gs = ?ws" "[] \<notin> set gs"
    using put_members_groups [of ?hdr ?ws ?h0 "[]"] by auto
  with \<open>?ws \<noteq> []\<close> obtain g gs' where g: "gs = g # gs'" by (cases gs) auto
  have lines: "sjoin_lines (send_channel_modes src p chpS stS) = (?h0 @ words_text g) # map (\<lambda>g. ?hdr @ words_text g) gs'"
    using sjoin_lines_burst [of stS chpS src p] s(3) channel_modes_words [of stS p chpS] s(2) gs(1) g by (simp add: ch_def shows_params_def)
  have parv: "line_parv (?h0 @ words_text g) = [src, dec (ch_channelts ch), ch_chname (cs_channels st chp), ?mb] @ mode_words (ch_mode ch) @ [words_text g]"
    using sjoin_line_parv(1) [OF s(1) _ pn mode_text_ok, of "mode_words (ch_mode ch)" stS p chpS "words_text g"] mode_words_ok [OF s(7)] s(5) name by simp
  have m: "sjoin_modes ?mb (mode_words (ch_mode ch) @ [words_text g]) no_modes = Sj_ok (wire (ch_mode ch)) [words_text g]"
    using sjoin_reads_modes [of stS chpS "[words_text g]" p] s(7) by (simp add: ch_def)
  have tok: "strtokens CHR '' '' (words_text g) = g" using wok unfolding gs(2) [symmetric] g by (intro strtokens_words) auto
  have gg: "g \<noteq> []" "distinct (map sj_nick g)" "\<forall>w\<in>set g. knows cx chp st (sj_nick w)" using gs(2,3) g dist kn by (auto simp flip: gs(2))
  obtain st1 out where st1: "m_sjoin cx (line_parv (?h0 @ words_text g)) st = Some (st1, out)" "ready cx chp st1"
    "ch_view st1 chp = receive (ch_channelts ch) (wire (ch_mode ch)) g (ch_view st chp)"
    "ch_chname (cs_channels st1 chp) = ch_chname (cs_channels st chp)"
    "\<And>n. knows cx chp st n \<Longrightarrow> n \<notin> sj_nick ` set g \<Longrightarrow> knows cx chp st1 n"
    using message_view [OF rd s(5,6) parv m tok gg] by metis
  have kn1: "\<forall>w\<in>set (concat gs'). knows cx chp st1 (sj_nick w)"
  proof
    fix w assume w: "w \<in> set (concat gs')"
    then have "sj_nick w \<notin> sj_nick ` set g" using dist imageI [OF w, of sj_nick] unfolding gs(2) [symmetric] g by auto
    moreover have "knows cx chp st (sj_nick w)" using kn w unfolding gs(2) [symmetric] g by simp
    ultimately show "knows cx chp st1 (sj_nick w)" by (rule st1(5) [rotated])
  qed
  obtain t md mems where v: "ch_view st chp = (t, md, mems)" by (metis prod_cases3)
  then have "mode_ok md" using ok by (simp add: ch_view_def)
  then have "\<exists>st2. run_sjoin cx (map (\<lambda>g. ?hdr @ words_text g) gs') st1 = Some st2 \<and> ready cx chp st2 \<and>
      ch_view st2 chp = receive (ch_channelts ch) (wire (ch_mode ch)) (g @ concat gs') (t, md, mems)"
    using st1(2-4) name s(1,5,6) pn kn1 wok dist gs(3) mode_ok_wire [OF s(7)] v unfolding gs(2) [symmetric] g
    by (intro run_continuation) auto
  then show ?thesis using lines st1(1) v gs(2) g by auto
qed


subsection \<open>Both sides agree\<close>

lemma wire_merge: "wire (sj_merge a b) = sj_merge (wire a) (wire b)"
proof (rule mode_eqI)
  have "rate_wins (wire a) (wire b) = rate_wins a b" by (simp add: rate_wins_def wire_def wire_joinrate)
  then show "md_join_num (wire (sj_merge a b)) = md_join_num (sj_merge (wire a) (wire b))"
    "md_join_time (wire (sj_merge a b)) = md_join_time (sj_merge (wire a) (wire b))"
    by (simp_all add: wire_def merge_fields)
qed (simp_all add: wire_def merge_fields bit.conj_disj_distrib2)

lemma wire_wire: "wire (wire a) = wire a"
  by (simp add: wire_def and.assoc)

lemma take_mode_agree:
  assumes "mode_ok a" and "mode_ok b"
  shows "wire (take_mode ta tb (wire a) b) = wire (take_mode tb ta (wire b) a)"
  using sj_merge_comm [OF mode_ok_wire [OF assms(1)] mode_ok_wire [OF assms(2)]]
  by (simp add: take_mode_def wire_merge wire_wire)

text \<open>The members a burst adds, as seen by the receiver.\<close>

lemma burst_statuses:
  assumes "sends src p chp st"
  defines "ms \<equiv> ch_members (cs_channels st chp)"
  shows "mset (map (\<lambda>w. (sj_nick w, sj_status k w AND STATUS)) (member_words (cs_clients st) (burst_order ms))) =
    mset (map (\<lambda>m. (c_name (cs_clients st (cm_cptr m)), if k then cm_flags m AND STATUS else 0)) ms)"
proof -
  have f: "sj_status False w AND STATUS = 0" for w by (simp add: sj_status_def STATUS_def Let_def CHFL_DEOPPED_def CHFL_CHANOP_def CHFL_HALFOP_def CHFL_VOICE_def)
  have ok: "nick_ok (c_name (cs_clients st (cm_cptr m))) \<and> \<not> (has_flag (cm_flags m) CHFL_CHANOP \<and> has_flag (cm_flags m) CHFL_HALFOP \<and> has_flag (cm_flags m) CHFL_VOICE)"
    if "m \<in> set (burst_order ms)" for m
    using assms(1) that mset_eq_setD [OF burst_order_mset [of ms]] by (auto simp: sends_def Let_def ms_def)
  have "map (\<lambda>w. (sj_nick w, sj_status k w AND STATUS)) (member_words (cs_clients st) (burst_order ms)) =
      map (\<lambda>m. (c_name (cs_clients st (cm_cptr m)), if k then cm_flags m AND STATUS else 0)) (burst_order ms)"
    using f status_read_back ok by (cases k) (auto simp: member_words_def and.assoc)
  then show ?thesis using arg_cong [OF burst_order_mset [of ms], of "image_mset (\<lambda>m. (c_name (cs_clients st (cm_cptr m)), if k then cm_flags m AND STATUS else 0))"]
    by simp
qed

lemma received_members:
  assumes "sends src p chp st"
  defines "ch \<equiv> cs_channels st chp"
  shows "mset (snd (snd (receive (ch_channelts ch) m (member_words (cs_clients st) (burst_order (ch_members ch))) (t, md, mems)))) =
    mset (map (\<lambda>(n, f). (n, if ch_channelts ch \<le> t then f else 0)) (snd (snd (ch_view st chp)))) +
    mset (map (\<lambda>(n, f). (n, if t \<le> ch_channelts ch then f else 0)) mems)"
proof -
  have "(if ch_channelts ch < t then map (\<lambda>(n, _). (n, 0)) mems else mems) = map (\<lambda>(n, f). (n, if t \<le> ch_channelts ch then f else 0)) mems"
    by (cases "ch_channelts ch < t") (simp_all add: case_prod_unfold)
  moreover have "map (\<lambda>m. (c_name (cs_clients st (cm_cptr m)), if ch_channelts ch \<le> t then cm_flags m AND STATUS else 0)) (ch_members ch) =
      map (\<lambda>(n, f). (n, if ch_channelts ch \<le> t then f else 0)) (snd (snd (ch_view st chp)))"
    by (simp add: ch_view_def ch_def comp_def)
  ultimately show ?thesis using burst_statuses [OF assms(1), of "ch_channelts ch \<le> t"] unfolding receive_def ch_def by (simp del: mset_map)
qed

text \<open>
  C1: when a link comes up and both servers send each other their side of a channel, both end with the same
  channel: the same time stamp, the same modes (those that have a letter in the burst) and the same people with the same
  status.  The side with the older time stamp wins, with equal time stamps modes and people are merged.
  Each server knows the users of the other side by their nicknames, and nobody holds three statuses at once.
\<close>

theorem netjoin_converges:
  assumes "sends srcA linkA chpA stA" and "sends srcB linkB chpB stB"
    and "receives cxB chpB stB chpA stA" and "receives cxA chpA stA chpB stB"
  shows "\<exists>stA1 stB1. run_sjoin cxA (sjoin_lines (send_channel_modes srcB linkB chpB stB)) stA = Some stA1 \<and>
    run_sjoin cxB (sjoin_lines (send_channel_modes srcA linkA chpA stA)) stB = Some stB1 \<and>
    (case (ch_view stA1 chpA, ch_view stB1 chpB) of
       ((ts, m, ms), (ts', m', ms')) \<Rightarrow> ts = ts' \<and> wire m = wire m' \<and> mset ms = mset ms')"
proof -
  let ?a = "cs_channels stA chpA" and ?b = "cs_channels stB chpB"
  obtain stB1 where B: "run_sjoin cxB (sjoin_lines (send_channel_modes srcA linkA chpA stA)) stB = Some stB1"
    "ch_view stB1 chpB = receive (ch_channelts ?a) (wire (ch_mode ?a)) (member_words (cs_clients stA) (burst_order (ch_members ?a))) (ch_view stB chpB)"
    using burst_received [OF assms(1,3)] by blast
  obtain stA1 where A: "run_sjoin cxA (sjoin_lines (send_channel_modes srcB linkB chpB stB)) stA = Some stA1"
    "ch_view stA1 chpA = receive (ch_channelts ?b) (wire (ch_mode ?b)) (member_words (cs_clients stB) (burst_order (ch_members ?b))) (ch_view stA chpA)"
    using burst_received [OF assms(2,4)] by blast
  have ok: "mode_ok (ch_mode ?a)" "mode_ok (ch_mode ?b)" using assms(1,2) by (simp_all add: sends_def Let_def)
  obtain msA where vA: "ch_view stA chpA = (ch_channelts ?a, ch_mode ?a, msA)" by (simp add: ch_view_def)
  obtain msB where vB: "ch_view stB chpB = (ch_channelts ?b, ch_mode ?b, msB)" by (simp add: ch_view_def)
  have "mset (snd (snd (ch_view stA1 chpA))) = mset (snd (snd (ch_view stB1 chpB)))"
    using received_members [OF assms(1), of "wire (ch_mode ?a)" "ch_channelts ?b" "ch_mode ?b" msB]
      received_members [OF assms(2), of "wire (ch_mode ?b)" "ch_channelts ?a" "ch_mode ?a" msA]
    by (simp add: A(2) B(2) vA vB)
  moreover have "fst (ch_view stA1 chpA) = fst (ch_view stB1 chpB)" "wire (fst (snd (ch_view stA1 chpA))) = wire (fst (snd (ch_view stB1 chpB)))"
    using take_mode_agree [OF ok] by (simp_all add: A(2) B(2) vA vB receive_def min.commute)
  ultimately show ?thesis using A(1) B(1) by (auto simp: case_prod_unfold)
qed


text \<open>Two servers with one operator each on \<^verbatim>\<open>#c\<close>; client 9 is the link to the other server.\<close>

definition net_people :: "addr \<Rightarrow> clients" where
  "net_people loc p =
     (if p = 1 then (example_client ''alice'')\<lparr>c_user := Some example_user, c_from := if loc = 1 then 1 else 9\<rparr>
      else if p = 2 then (example_client ''bob'')\<lparr>c_user := Some example_user, c_from := if loc = 2 then 2 else 9\<rparr>
      else (example_client ''hub.net'')\<lparr>c_status := STAT_SERVER\<rparr>)"

definition net_server :: "addr \<Rightarrow> int \<Rightarrow> chan_state" where
  "net_server loc ts = add_user_to_channel 0 loc CHFL_CHANOP (new_channel ts ''#c'' (no_channels (net_people loc)))"

definition net_ctx :: mode_ctx where
  "net_ctx = (example_ctx 9)\<lparr>mc_sptr := 9\<rparr>"

lemma net_server_ok:
  assumes "loc = 1 \<or> loc = 2"
  shows "chans_ok (net_server loc ts) \<and> links_ok (net_server loc ts) \<and> cs_channel (net_server loc ts) = [0]"
proof -
  let ?st = "no_channels (net_people loc)"
  have "chan_inv {p. c_user (net_people loc p) \<noteq> None} ?st"
    by (rule no_channels_inv(1)) (simp add: net_people_def example_client_def example_user_def)
  then have ok: "chans_ok ?st" "links_ok ?st" by (simp_all add: chan_inv_def)
  have u: "is_user ?st loc" using assms by (auto simp: is_user_def no_channels_def net_people_def)
  have "find_channel ?st ''#c'' = None" by (simp add: find_channel_def no_channels_def hash_find_channel_def clear_hash_table_def)
  note n = new_channel_ok [OF ok this, where NOW = ts]
  have c: "cs_next ?st = 0" "cs_channel ?st = []" by (simp_all add: no_channels_def)
  show ?thesis using add_user_ok(1,2,4) [OF n(1,2), of loc 0 CHFL_CHANOP, simplified n(3,5,6) c, OF u, simplified] n(6) c by (simp add: net_server_def)
qed

lemma net_channel:
  assumes "loc = 1 \<or> loc = 2"
  shows "cs_channels (net_server loc ts) 0 = make_channel\<lparr>ch_chname := ''#c'', ch_channelts := ts, ch_users := 1,
     ch_members := [\<lparr>cm_cptr = loc, cm_flags = CHFL_CHANOP, cm_banserial = 0\<rparr>]\<rparr>"
  using assms by (auto simp: net_server_def no_channels_def new_channel_def make_channel_def net_people_def example_client_def
    add_user_to_channel_def upd_user_def upd_chan_def)

lemma net_core: "core_clients (net_people loc) (cs_clients (net_server loc ts))"
  by (auto simp: core_clients_def net_server_def no_channels_def new_channel_def add_user_to_channel_def upd_user_def upd_chan_def split: option.split)

lemma net_find: "hash_find_client (cs_clients (net_server loc ts)) example_table n None = hash_find_client (example_people 3) example_table n None"
proof -
  have "(\<lambda>p. c_name (cs_clients (net_server loc ts) p)) = (\<lambda>p. c_name (example_people 3 p))"
    using core_clientsD(1) [OF net_core] by (auto simp: net_people_def example_people_def example_client_def fun_eq_iff)
  then show ?thesis by (simp add: hash_find_client_def fun_eq_iff)
qed

lemma net_clients:
  "c_name (cs_clients (net_server loc ts) p) = c_name (net_people loc p)" "c_from (cs_clients (net_server loc ts) p) = c_from (net_people loc p)"
  "IsServer (cs_clients (net_server loc ts) 9)"
  using core_clientsD [OF net_core] core_from [OF net_core] by (simp_all add: IsServer_def net_people_def)

lemma net_sends: "loc = 1 \<or> loc = 2 \<Longrightarrow> 0 < ts \<Longrightarrow> ts < 2 ^ 63 \<Longrightarrow> sends ''irc.net'' 9 0 (net_server loc ts)"
  by (auto simp: sends_def Let_def net_channel net_clients make_channel_def char_at_def mode_ok_def net_people_def example_client_def nick_ok_def
    has_flag_def CHFL_CHANOP_def CHFL_HALFOP_def KEYLEN_def simp del: One_nat_def)

lemma net_receives:
  assumes "loc = 1 \<and> other = 2 \<or> loc = 2 \<and> other = 1" and "0 < ts"
  shows "receives net_ctx 0 (net_server loc ts) 0 (net_server other ts')"
proof -
  have o: "loc = 1 \<or> loc = 2" "other = 1 \<or> other = 2" using assms(1) by auto
  have m: "members_of (net_server loc ts) 0 = [loc]" by (simp add: members_of_def net_channel [OF o(1)])
  have "is_user (no_channels (net_people loc)) other" using o(2) by (auto simp: is_user_def no_channels_def net_people_def)
  then have u: "is_user (net_server loc ts) other"
    using o by (auto simp: net_server_def add_user_to_channel_def new_channel_def is_user_def upd_user_def upd_chan_def split: option.split)
  have "knows net_ctx 0 (net_server loc ts) (c_name (net_people other other))"
    using assms(1) u m example_names
    by (auto simp: knows_def net_ctx_def example_ctx_def net_find example_find net_clients net_people_def example_client_def simp del: One_nat_def)
  then show ?thesis using net_server_ok [OF o(1), of ts] assms(2) net_clients(3)
    by (simp add: receives_def ready_def net_channel [OF o(1)] net_channel [OF o(2)] net_clients net_ctx_def make_channel_def char_at_def mode_ok_def KEYLEN_def)
qed

theorem netjoin_converges_witness:
  "\<exists>stA1 stB1. run_sjoin net_ctx (sjoin_lines (send_channel_modes ''irc.net'' 9 0 (net_server 2 7))) (net_server 1 5) = Some stA1 \<and>
    run_sjoin net_ctx (sjoin_lines (send_channel_modes ''irc.net'' 9 0 (net_server 1 5))) (net_server 2 7) = Some stB1 \<and>
    (case (ch_view stA1 0, ch_view stB1 0) of
       ((ts, m, ms), (ts', m', ms')) \<Rightarrow> ts = ts' \<and> wire m = wire m' \<and> mset ms = mset ms')"
  by (rule netjoin_converges [OF net_sends net_sends net_receives net_receives]) simp_all


text \<open>
  C40: a status that is lost between servers: the burst writes up to three signs in front of a nickname, the receiver
  looks at two bytes.  A member that is operator, half operator and has a voice arrives without the voice.
\<close>

theorem burst_loses_voice:
  assumes "has_flag fl CHFL_CHANOP" "has_flag fl CHFL_HALFOP" "has_flag fl CHFL_VOICE" and "nick_ok n"
  shows "sj_nick (status_prefix fl @ n) = n \<and> sj_status True (status_prefix fl @ n) = CHFL_CHANOP OR CHFL_HALFOP \<and>
    \<not> has_flag (sj_status True (status_prefix fl @ n)) CHFL_VOICE"
proof -
  obtain c r where "n = c # r" "c \<noteq> CHR ''@''" "c \<noteq> CHR ''%''" "c \<noteq> CHR ''+''" using assms(4) by (cases n) (auto simp: nick_ok_def)
  then show ?thesis using assms(1-3)
    by (simp add: status_prefix_def sj_nick_def sj_status_def char_at_def Let_def has_flag_def CHFL_CHANOP_def CHFL_HALFOP_def CHFL_VOICE_def)
qed

theorem burst_loses_voice_witness:
  "status_prefix 7 @ ''alice'' = ''@%+alice'' \<and> sj_status True ''@%+alice'' = 3"
proof -
  have p: "status_prefix 7 @ ''alice'' = ''@%+alice''" by code_simp
  have "sj_status True (status_prefix 7 @ ''alice'') = CHFL_CHANOP OR CHFL_HALFOP"
    using burst_loses_voice [of 7 "''alice''"] by (simp add: has_flag_def CHFL_CHANOP_def CHFL_HALFOP_def CHFL_VOICE_def nick_ok_def)
  then show ?thesis unfolding p by (simp add: CHFL_CHANOP_def CHFL_HALFOP_def)
qed

lemma put_members_fit:
  assumes "length hdr \<le> BUFSIZE - 80" "length buf \<le> BUFSIZE - 80" "\<forall>x\<in>set xs. length x \<le> NICKLEN + 3" "l \<in> set (put_members hdr xs buf n)"
  shows "length l \<le> BUFSIZE - 80 + (NICKLEN + 4)"
  using assms
proof (induction xs arbitrary: buf n)
  case (Cons x xs)
  show ?case
  proof (cases "length (buf @ x @ '' '') > BUFSIZE - 80")
    case True
    with Cons.prems(4) have "l = buf @ x @ '' '' \<or> l \<in> set (put_members hdr xs hdr 0)" by (simp add: Let_def)
    then show ?thesis using Cons.IH [OF Cons.prems(1,1), of 0] Cons.prems(2,3) by auto
  next
    case False
    then show ?thesis using Cons.IH [OF Cons.prems(1), of "buf @ x @ '' ''" "n + 1"] Cons.prems(3,4) by (simp add: Let_def)
  qed
qed (auto split: if_splits)

lemma length_dec_long: "0 \<le> n \<Longrightarrow> n < 2 ^ 63 \<Longrightarrow> length (dec n) \<le> 19"
  using length_dec_nat [of "nat n" 19] by (simp add: dec_def nat_less_iff)

lemma mode_text_length:
  assumes "mode_ok (ch_mode (cs_channels st chp))"
  shows "length (fst (channel_modes st p chp)) \<le> 16" "length (unwords (mode_words (ch_mode (cs_channels st chp)))) \<le> 57"
proof -
  let ?m = "ch_mode (cs_channels st chp)"
  have "length (filter P mode_letters) \<le> 12" for P using length_filter_le [of P mode_letters] by (simp add: mode_letters_def)
  from this [of "\<lambda>(f, _). has_flag (md_mode ?m) f"] show "length (fst (channel_modes st p chp)) \<le> 16" by (simp add: channel_modes_def Let_def)
  have d: "length (dec (md_limit ?m)) \<le> 10" "length (dec (md_join_num ?m)) \<le> 10" "length (dec (md_join_time ?m)) \<le> 10"
    using assms by (simp_all add: mode_ok_def length_dec)
  then have "length (rate_text (md_join_num ?m, md_join_time ?m)) \<le> 21" by (simp add: rate_text_def)
  then show "length (unwords (mode_words ?m)) \<le> 57" using d(1) assms by (auto simp: mode_words_def mode_ok_def KEYLEN_def)
qed


text \<open>
  C27: the lines of a burst fit the buffer they are built in, when all names and the key respect their limits.
\<close>

theorem burst_lines_fit:
  assumes "sends src p chp st" and "length src \<le> HOSTLEN" and "length (ch_chname (cs_channels st chp)) \<le> CHANNELLEN"
    and "\<forall>m\<in>set (ch_members (cs_channels st chp)). length (c_name (cs_clients st (cm_cptr m))) \<le> NICKLEN"
    and "l \<in> set (sjoin_lines (send_channel_modes src p chp st))"
  shows "length l < BUFSIZE"
proof -
  let ?ch = "cs_channels st chp"
  have s: "IsServer (cs_clients st p)" "char_at (ch_chname ?ch) 0 CHR ''#''" "0 < ch_channelts ?ch" "ch_channelts ?ch < 2 ^ 63" "mode_ok (ch_mode ?ch)"
    using assms(1) unfolding sends_def Let_def by blast+
  have h: "length (sjoin_header src ?ch ms) \<le> 126 + length ms" for ms
    using assms(2,3) length_dec_long [of "ch_channelts ?ch"] s(3,4) by (simp add: sjoin_header_def HOSTLEN_def CHANNELLEN_def)
  have "length x \<le> NICKLEN + 3" if "x \<in> set (member_words (cs_clients st) (burst_order (ch_members ?ch)))" for x
  proof -
    have "length (status_prefix fl) \<le> 3" for fl by (simp add: status_prefix_def)
    then show ?thesis using that assms(4) mset_eq_setD [OF burst_order_mset [of "ch_members ?ch"]]
      by (fastforce simp: member_words_def intro: add_le_mono [THEN le_trans])
  qed
  then have "length l \<le> BUFSIZE - 80 + (NICKLEN + 4)"
    using assms(5) h [of "''0''"] h [of "fst (channel_modes st p chp) @ '' '' @ snd (channel_modes st p chp)"] mode_text_length(1) [OF s(5), of p] mode_text_length(2) [OF s(5)] s(1)
      channel_modes_words [of st p chp]
    by (intro put_members_fit [of _ _ _ l 0]) (auto simp: sjoin_lines_burst [OF s(2)] shows_params_def BUFSIZE_def)
  then show ?thesis by (simp add: BUFSIZE_def NICKLEN_def)
qed

theorem burst_lines_fit_witness:
  "sjoin_lines (send_channel_modes ''irc.net'' 9 0 (net_server 1 5)) \<noteq> [] \<and>
   length (hd (sjoin_lines (send_channel_modes ''irc.net'' 9 0 (net_server 1 5)))) < BUFSIZE"
proof -
  let ?ls = "sjoin_lines (send_channel_modes ''irc.net'' 9 0 (net_server 1 5))"
  have "?ls \<noteq> []" using sjoin_lines_burst [of "net_server 1 5" 0 "''irc.net''" 9] net_channel [of 1 5]
    by (simp add: char_at_def member_words_def burst_order_def has_flag_def CHFL_CHANOP_def CHFL_HALFOP_def Let_def del: One_nat_def)
  moreover from this have "hd ?ls \<in> set ?ls" by (rule hd_in_set)
  then have "length (hd ?ls) < BUFSIZE"
    by (rule burst_lines_fit [rotated 4, OF _ net_sends])
      (simp_all add: net_channel net_clients net_people_def example_client_def HOSTLEN_def CHANNELLEN_def NICKLEN_def del: One_nat_def)
  ultimately show ?thesis ..
qed

end
