(* ===== verification/Burst_Lists.thy ===== *)
theory Burst_Lists
  imports Net_Sync
begin

section \<open>Lists of masks in a burst\<close>

text \<open>
  \<open>send_channel_lists\<close> and \<open>kill_ban_list\<close> cut the three lists of a channel into MODE messages:
  every mask is in exactly one of them, in order, with its letter, and no message has too many parameters.
\<close>

text \<open>A group of masks, each with its letter, as the two buffers.\<close>

definition mask_line :: "char \<Rightarrow> (char \<times> cstr) list \<Rightarrow> cstr \<times> cstr" where
  "mask_line sign g = (sign # map fst g, unwords (map snd g))"

definition group_bufs :: "char \<Rightarrow> (char \<times> cstr) list \<Rightarrow> cstr \<times> cstr \<times> nat" where
  "group_bufs sign g = (sign # map fst g, unwords (map snd g), length g)"

definition masks_ok :: "nat \<Rightarrow> cstr list \<Rightarrow> bool" where
  "masks_ok margin xs \<longleftrightarrow> (\<forall>x\<in>set xs. x \<noteq> [] \<and> length x + margin < MODEBUFLEN)"

lemma unwords_add:
  assumes "[] \<notin> set xs" and "x \<noteq> []"
  shows "add_word x (unwords xs) = unwords (xs @ [x])"
  using assms unwords_empty [of xs] unwords_snoc [of xs x] by (cases "xs = []") (auto simp: add_word_def)

lemma put_masks_groups:
  assumes "masks_ok margin xs" and "1 < maxp" and "length g < maxp" and "[] \<notin> snd ` set g"
  shows "\<exists>gs g1. put_masks sign margin maxp l xs (group_bufs sign g) = (map (mask_line sign) gs, group_bufs sign g1) \<and>
    concat gs @ g1 = g @ map (Pair l) xs \<and> (\<forall>h\<in>set gs. h \<noteq> [] \<and> length h \<le> maxp) \<and> length g1 < maxp"
  using assms
proof (induction xs arbitrary: g)
  case Nil
  then show ?case by (intro exI [of _ "[]"] exI [of _ g]) simp
next
  case (Cons x xs)
  let ?para = "unwords (map snd g)"
  let ?g = "g @ [(l, x)]"
  have x: "x \<noteq> []" "length x + margin < MODEBUFLEN" "masks_ok margin xs" using Cons.prems(1) by (simp_all add: masks_ok_def)
  have e: "?para = [] \<longleftrightarrow> g = []" using unwords_empty [of "map snd g"] Cons.prems(4) by force
  have n: "[] \<notin> snd ` set ?g" "[] \<notin> snd ` set [(l, x)]" using Cons.prems(4) x(1) by auto
  have p: "add_word x ?para = unwords (map snd ?g)" using unwords_add [of "map snd g" x] Cons.prems(4) x(1) by simp
  show ?case
  proof (cases "length ?para + length x + margin < MODEBUFLEN")
    case fits: True
    show ?thesis
    proof (cases "length ?g = maxp")
      case True
      obtain gs g1 where "put_masks sign margin maxp l xs (group_bufs sign []) = (map (mask_line sign) gs, group_bufs sign g1)"
        "concat gs @ g1 = map (Pair l) xs" "\<forall>h\<in>set gs. h \<noteq> [] \<and> length h \<le> maxp" "length g1 < maxp"
        using Cons.IH [OF x(3) Cons.prems(2), of "[]"] Cons.prems(2) by auto
      with fits True p show ?thesis by (intro exI [of _ "?g # gs"] exI [of _ g1]) (simp add: group_bufs_def mask_line_def)
    next
      case False
      then have "length ?g < maxp" using Cons.prems(3) by simp
      from Cons.IH [OF x(3) Cons.prems(2) this n(1)] False fits p show ?thesis by (simp add: group_bufs_def)
    qed
  next
    case False
    then have g: "g \<noteq> []" using x(2) by auto
    obtain gs g1 where "put_masks sign margin maxp l xs (group_bufs sign [(l, x)]) = (map (mask_line sign) gs, group_bufs sign g1)"
      "concat gs @ g1 = (l, x) # map (Pair l) xs" "\<forall>h\<in>set gs. h \<noteq> [] \<and> length h \<le> maxp" "length g1 < maxp"
      using Cons.IH [OF x(3) Cons.prems(2) _ n(2)] Cons.prems(2) by auto
    with False g e Cons.prems(3) show ?thesis by (intro exI [of _ "g # gs"] exI [of _ g1]) (simp add: group_bufs_def mask_line_def)
  qed
qed

definition labelled :: "(char \<times> cstr list) list \<Rightarrow> (char \<times> cstr) list" where
  "labelled ls = concat (map (\<lambda>(l, xs). map (Pair l) xs) ls)"

lemma put_lists_groups:
  assumes "\<forall>(l, xs)\<in>set ls. masks_ok margin xs" and "1 < maxp" and "length g < maxp" and "[] \<notin> snd ` set g"
  shows "\<exists>gs g1. put_lists sign margin maxp ls (group_bufs sign g) = (map (mask_line sign) gs, group_bufs sign g1) \<and>
    concat gs @ g1 = g @ labelled ls \<and> (\<forall>h\<in>set gs. h \<noteq> [] \<and> length h \<le> maxp) \<and> length g1 < maxp"
  using assms
proof (induction ls arbitrary: g)
  case Nil
  then show ?case by (intro exI [of _ "[]"] exI [of _ g]) (simp add: labelled_def)
next
  case (Cons a ls)
  obtain l xs where a: "a = (l, xs)" by fastforce
  have ok: "masks_ok margin xs" "\<forall>(l, xs)\<in>set ls. masks_ok margin xs" using Cons.prems(1) by (auto simp: a)
  obtain gs g1 where 1: "put_masks sign margin maxp l xs (group_bufs sign g) = (map (mask_line sign) gs, group_bufs sign g1)"
    "concat gs @ g1 = g @ map (Pair l) xs" "\<forall>h\<in>set gs. h \<noteq> [] \<and> length h \<le> maxp" "length g1 < maxp"
    using put_masks_groups [OF ok(1) Cons.prems(2-4)] by blast
  have "[] \<notin> snd ` set (g @ map (Pair l) xs)" using Cons.prems(4) ok(1) by (auto simp: masks_ok_def)
  then have "[] \<notin> snd ` set g1" unfolding 1(2) [symmetric] by auto
  from Cons.IH [OF ok(2) Cons.prems(2) 1(4) this] obtain hs g2 where
    2: "put_lists sign margin maxp ls (group_bufs sign g1) = (map (mask_line sign) hs, group_bufs sign g2)"
    "concat hs @ g2 = g1 @ labelled ls" "\<forall>h\<in>set hs. h \<noteq> [] \<and> length h \<le> maxp" "length g2 < maxp"
    by blast
  have "concat (gs @ hs) @ g2 = g @ labelled (a # ls)" using 1(2) 2(2) by (simp add: labelled_def a)
  then show ?case using 1 2 by (intro exI [of _ "gs @ hs"] exI [of _ g2]) (auto simp: a)
qed

lemma labelled_nonempty: "\<forall>(l, xs)\<in>set ls. masks_ok margin xs \<Longrightarrow> [] \<notin> snd ` set (labelled ls)"
  by (fastforce simp: labelled_def masks_ok_def)

text \<open>All messages, with the one that is left in the buffers (the burst also looks at the letters, with the same answer).\<close>

lemma lists_in_groups:
  assumes "\<forall>(l, xs)\<in>set ls. masks_ok margin xs" and "1 < maxp"
  shows "\<exists>gs. (case put_lists sign margin maxp ls ([sign], [], 0) of
      (sent, (mb, pb, _)) \<Rightarrow> sent @ (if pb \<noteq> [] then [(mb, pb)] else [])) = map (mask_line sign) gs \<and>
    concat gs = labelled ls \<and> (\<forall>h\<in>set gs. h \<noteq> [] \<and> length h \<le> maxp) \<and>
    (case put_lists sign margin maxp ls ([sign], [], 0) of (_, (mb, pb, _)) \<Rightarrow> length mb > 1 \<longrightarrow> pb \<noteq> [])"
proof -
  obtain gs g1 where g: "put_lists sign margin maxp ls (group_bufs sign []) = (map (mask_line sign) gs, group_bufs sign g1)"
    "concat gs @ g1 = labelled ls" "\<forall>h\<in>set gs. h \<noteq> [] \<and> length h \<le> maxp" "length g1 < maxp"
    using put_lists_groups [OF assms, of "[]" sign] assms(2) by auto
  have "[] \<notin> set (map snd g1)" using labelled_nonempty [OF assms(1)] unfolding g(2) [symmetric] by auto
  then have e: "unwords (map snd g1) = [] \<longleftrightarrow> g1 = []" using unwords_empty [of "map snd g1"] by force
  show ?thesis using g e by (intro exI [of _ "gs @ (if g1 = [] then [] else [g1])"]) (auto simp: group_bufs_def mask_line_def)
qed

definition lists_ok :: "nat \<Rightarrow> aChannel \<Rightarrow> bool" where
  "lists_ok margin ch \<longleftrightarrow> (\<forall>(l, xs)\<in>set (channel_lists ch). masks_ok margin xs)"

definition mode_params :: "out_msg list \<Rightarrow> (cstr \<times> cstr) list" where
  "mode_params ms = concat (map (\<lambda>m. case m of To_one _ f [_, _, _, S mb, S pb] \<Rightarrow> [(mb, pb)] | To_channel _ _ f [_, _, S mb, S pb] \<Rightarrow> [(mb, pb)] | _ \<Rightarrow> []) ms)"

text \<open>
  C24: what a burst and the removal of all masks say about the lists of a channel: the MODE messages name every ban, exempt
  and invitation exactly once, in order, each with its letter, and every message has at most as many parameters as
  the parser accepts.
\<close>

theorem lists_announced_exactly:
  assumes "lists_ok 20 ch" and "char_at (ch_chname ch) 0 CHR ''#''" and "ch = cs_channels st chp"
  shows "(\<exists>gs. mode_params (send_channel_modes me_name p chp st) = map (mask_line CHR ''+'') gs \<and> concat gs = labelled (channel_lists ch) \<and>
      (\<forall>g\<in>set gs. g \<noteq> [] \<and> length g \<le> MAXTSMODEPARAMS)) \<and>
    (\<exists>gs. mode_params (snd (kill_ban_list q c chp ch)) = map (mask_line CHR ''-'') gs \<and> concat gs = labelled (channel_lists ch) \<and>
      (\<forall>g\<in>set gs. g \<noteq> [] \<and> length g \<le> MAXMODEPARAMS)) \<and>
    channel_lists (fst (kill_ban_list q c chp ch)) = [(CHR ''b'', []), (CHR ''e'', []), (CHR ''I'', [])]"
proof (intro conjI)
  let ?params = "\<lambda>x. case x of (sent, (mb, pb, _)) \<Rightarrow> sent @ (if pb \<noteq> [] then [(mb, pb)] else [])"
  have ok: "\<forall>(l, xs)\<in>set (channel_lists ch). masks_ok 20 xs" "\<forall>(l, xs)\<in>set (channel_lists ch). masks_ok 10 xs"
    using assms(1) by (fastforce simp: lists_ok_def masks_ok_def)+
  obtain gs where gs: "?params (put_lists CHR ''+'' 20 MAXTSMODEPARAMS (channel_lists ch) (''+'', [], 0)) = map (mask_line CHR ''+'') gs"
    "concat gs = labelled (channel_lists ch)" "\<forall>h\<in>set gs. h \<noteq> [] \<and> length h \<le> MAXTSMODEPARAMS"
    and sh: "case put_lists CHR ''+'' 20 MAXTSMODEPARAMS (channel_lists ch) (''+'', [], 0) of (_, (mb, pb, _)) \<Rightarrow> length mb > 1 \<longrightarrow> pb \<noteq> []"
    using lists_in_groups [OF ok(1), of MAXTSMODEPARAMS "CHR ''+''"] by (auto simp: MAXTSMODEPARAMS_def MAXPARA_def)
  obtain hs where hs: "?params (put_lists CHR ''-'' 10 MAXMODEPARAMS (channel_lists ch) (''-'', [], 0)) = map (mask_line CHR ''-'') hs"
    "concat hs = labelled (channel_lists ch)" "\<forall>h\<in>set hs. h \<noteq> [] \<and> length h \<le> MAXMODEPARAMS"
    using lists_in_groups [OF ok(2), of MAXMODEPARAMS "CHR ''-''"] by (auto simp: MAXMODEPARAMS_def MAXPARA_def)
  have q: "mode_params (map (\<lambda>(m, para). To_channel a b f [x, y, S m, S para]) ls) = ls"
    "mode_params (map (\<lambda>(m, para). To_one b f [x, y, z, S m, S para]) ls) = ls"
    "mode_params (map (\<lambda>l. To_one b f [S l]) xs) = []" "mode_params (us @ vs) = mode_params us @ mode_params vs" for a b f x y z ls xs us vs
    by (induction ls) (auto simp: mode_params_def)
  show "\<exists>gs. mode_params (snd (kill_ban_list q c chp ch)) = map (mask_line CHR ''-'') gs \<and> concat gs = labelled (channel_lists ch) \<and>
      (\<forall>g\<in>set gs. g \<noteq> [] \<and> length g \<le> MAXMODEPARAMS)"
    using hs by (cases "put_lists CHR ''-'' 10 MAXMODEPARAMS (channel_lists ch) (''-'', [], 0)") (auto simp: kill_ban_list_def q)
  show "channel_lists (fst (kill_ban_list q c chp ch)) = [(CHR ''b'', []), (CHR ''e'', []), (CHR ''I'', [])]"
    by (simp add: kill_ban_list_def channel_lists_def case_prod_unfold)
  obtain sent mb pb n where put: "put_lists CHR ''+'' 20 MAXTSMODEPARAMS (channel_lists ch) (''+'', [], 0) = (sent, mb, pb, n)" by (metis prod_cases4)
  have sent: "sent @ (if length mb > 1 \<or> pb \<noteq> [] then [(mb, pb)] else []) = map (mask_line CHR ''+'') gs" using gs(1) sh put by (cases "pb = []") auto
  have msgs: "send_channel_modes me_name p chp st = map (\<lambda>l. To_one p ''%s'' [S l]) (put_members (sjoin_header me_name ch ''0'')
        (member_words (cs_clients st) (burst_order (ch_members ch))) (sjoin_header me_name ch (fst (channel_modes st p chp) @ '' '' @ snd (channel_modes st p chp))) 0) @
      map (\<lambda>(m, para). To_one p '':%s MODE %s %ld %s %s'' [S me_name, S (ch_chname ch), D (ch_channelts ch), S m, S para])
        (sent @ (if length mb > 1 \<or> pb \<noteq> [] then [(mb, pb)] else []))"
    using assms(2) put by (cases "ch_chname ch") (simp_all add: send_channel_modes_def send_channel_lists_def Let_def case_prod_unfold assms(3) char_at_def)
  have "mode_params (send_channel_modes me_name p chp st) = map (mask_line CHR ''+'') gs"
    unfolding msgs q sent by (simp only: append_Nil)
  with gs(2,3) show "\<exists>gs. mode_params (send_channel_modes me_name p chp st) = map (mask_line CHR ''+'') gs \<and> concat gs = labelled (channel_lists ch) \<and>
      (\<forall>g\<in>set gs. g \<noteq> [] \<and> length g \<le> MAXTSMODEPARAMS)" by blast
qed

definition listed_channel :: aChannel where
  "listed_channel = make_channel\<lparr>ch_chname := ''#c'',
     ch_banlist := [new_entry (example_client ''alice'') 1 ''*!*@a'', new_entry (example_client ''alice'') 2 ''*!*@b''],
     ch_invite_list := [\<lparr>invstr = ''bob!*@*'', inv_who = ''alice'', inv_when = 3\<rparr>]\<rparr>"

theorem lists_announced_exactly_witness:
  "(\<exists>gs. mode_params (send_channel_modes ''irc.net'' 9 0 (upd_chan 0 (\<lambda>_. listed_channel) (net_server 1 5))) = map (mask_line CHR ''+'') gs \<and>
      concat gs = [(CHR ''b'', ''*!*@a''), (CHR ''b'', ''*!*@b''), (CHR ''I'', ''bob!*@*'')]) \<and>
    channel_lists (fst (kill_ban_list 9 (example_client ''hub'') 0 listed_channel)) = [(CHR ''b'', []), (CHR ''e'', []), (CHR ''I'', [])]"
proof -
  let ?st = "upd_chan 0 (\<lambda>_. listed_channel) (net_server 1 5)"
  have l: "labelled (channel_lists listed_channel) = [(CHR ''b'', ''*!*@a''), (CHR ''b'', ''*!*@b''), (CHR ''I'', ''bob!*@*'')]"
    by (simp add: labelled_def channel_lists_def listed_channel_def new_entry_def make_channel_def)
  have "lists_ok 20 listed_channel"
    by (simp add: lists_ok_def channel_lists_def listed_channel_def masks_ok_def MODEBUFLEN_def new_entry_def make_channel_def)
  moreover have "char_at (ch_chname listed_channel) 0 CHR ''#''" by (simp add: listed_channel_def char_at_def)
  ultimately show ?thesis
    using lists_announced_exactly [of listed_channel ?st 0 "''irc.net''" 9 9 "example_client ''hub''"] by (auto simp: chan_simps l)
qed

end
