(* ===== verification/Channel_Cmds.thy ===== *)
theory Channel_Cmds
  imports Channel_Modes Simban
begin

section \<open>Channel commands (src/src/channel.c)\<close>

text \<open>
  The handlers of JOIN, SAJOIN, PART, KICK, TOPIC, INVITE and NAMES.  \<open>cc_mode\<close> holds the arguments and
  tables that MODE uses as well, the other fields of \<open>cmd_ctx\<close> are the global settings the handlers
  read: the limits on channels per user and on joins and leaves in a row, whether the network
  was split (and \<^verbatim>\<open>FLAGS_SPLITOPOK\<close> is set), the simple bans and the last arguments of the text that asks
  for a registered nickname.  The build is the one shipped, with \<^verbatim>\<open>ANTI_SPAMBOT\<close> and
  \<^verbatim>\<open>ERROR_FREEZE_NOTICE\<close>.  The result is the new state and what was sent; \<open>None\<close> is an access
  through a null pointer or behind a field.
\<close>

definition TOPICLEN :: nat where "TOPICLEN = 307"
definition OPER_SPAM_COUNTDOWN :: int where "OPER_SPAM_COUNTDOWN = 5"
definition JOIN_LEAVE_COUNT_EXPIRE_TIME :: time_t where "JOIN_LEAVE_COUNT_EXPIRE_TIME = 120"
definition TRUNCATED_NAMES :: nat where "TRUNCATED_NAMES = 64"
definition UMODE_i :: u32 where "UMODE_i = 0x00000004"
definition UMODE_A :: u32 where "UMODE_A = 0x00000040"

definition IsInvisible :: "aClient \<Rightarrow> bool" where
  "IsInvisible x \<longleftrightarrow> has_flag (c_umode x) UMODE_i"

definition IsAdmin :: "aClient \<Rightarrow> bool" where
  "IsAdmin x \<longleftrightarrow> has_flag (c_umode x) UMODE_A"

record cmd_ctx =
  cc_mode :: mode_ctx
  cc_maxchannels :: int
  cc_spam_num :: int
  cc_spam_time :: time_t
  cc_split :: bool
  cc_splitopok :: bool
  cc_simbans :: simban_state
  cc_reg_args :: "arg list"

abbreviation cc_me :: "cmd_ctx \<Rightarrow> cstr" where "cc_me cx \<equiv> mc_me (cc_mode cx)"
abbreviation cc_now :: "cmd_ctx \<Rightarrow> time_t" where "cc_now cx \<equiv> mc_now (cc_mode cx)"
abbreviation cc_cptr :: "cmd_ctx \<Rightarrow> addr" where "cc_cptr cx \<equiv> mc_cptr (cc_mode cx)"
abbreviation cc_sptr :: "cmd_ctx \<Rightarrow> addr" where "cc_sptr cx \<equiv> mc_sptr (cc_mode cx)"

definition from_client :: "cmd_ctx \<Rightarrow> chan_state \<Rightarrow> aClient" where
  "from_client cx st = cs_clients st (cc_sptr cx)"

definition upd_client :: "addr \<Rightarrow> (aClient \<Rightarrow> aClient) \<Rightarrow> chan_state \<Rightarrow> chan_state" where
  "upd_client p f st = st\<lparr>cs_clients := (cs_clients st)(p := f (cs_clients st p))\<rparr>"

text \<open>Frozen and shunned users: the test at the start of JOIN and PART.\<close>

definition frozen :: "cmd_ctx \<Rightarrow> chan_state \<Rightarrow> bool" where
  "frozen cx st \<longleftrightarrow>
     (case c_user (cs_clients st (cc_cptr cx)) of None \<Rightarrow> False | Some u \<Rightarrow> u_special_mode u = 3) \<or> IsShunned (from_client cx st)"

definition need_more :: "cmd_ctx \<Rightarrow> cstr \<Rightarrow> cstr \<Rightarrow> out_msg" where
  "need_more cx parv0 cmd = To_one (cc_sptr cx) ''ERR_NEEDMOREPARAMS'' [S (cc_me cx), S parv0, S cmd]"

subsection \<open>Visibility and NAMES\<close>

definition PubChannel :: "aChannel \<Rightarrow> bool" where
  "PubChannel ch \<longleftrightarrow> md_mode (ch_mode ch) AND (MODE_PRIVATE OR MODE_SECRET) = 0"

definition ShowChannel :: "chan_state \<Rightarrow> addr \<Rightarrow> addr \<Rightarrow> bool" where
  "ShowChannel st p chp \<longleftrightarrow> PubChannel (cs_channels st chp) \<or> IsMember st p chp"

text \<open>
  The loop over the members: \<open>start\<close> is the head of the reply, \<open>buf\<close> the buffer, \<open>flag\<close> as in the
  code.  After a line is sent the next name is written behind the head; until then the buffer keeps its text.
\<close>

fun names_loop :: "nat \<Rightarrow> cstr \<Rightarrow> cstr list \<Rightarrow> cstr \<Rightarrow> bool \<Rightarrow> bool \<Rightarrow> cstr list" where
  "names_loop mlen start [] buf fresh flag = (if flag then [buf] else [])"
| "names_loop mlen start (x # xs) buf fresh flag =
     (let buf1 = (if fresh then start else buf) @ x @ '' '' in
      if mlen + length buf1 + NICKLEN > BUFSIZE - 3 then buf1 # names_loop mlen start xs buf1 True False
      else names_loop mlen start xs buf1 False True)"

definition names_sign :: "u32 \<Rightarrow> cstr" where
  "names_sign fl =
     (if has_flag fl CHFL_CHANOP then ''@'' else if has_flag fl CHFL_HALFOP then ''%'' else if has_flag fl CHFL_VOICE then ''+'' else [])"

definition m_names :: "cmd_ctx \<Rightarrow> cstr list \<Rightarrow> chan_state \<Rightarrow> out_msg list" where
  "m_names cx parv st =
     (let p = cc_sptr cx; s = from_client cx st; parv0 = hd parv in
      if length parv < 2 \<or> \<not> MyConnect s then [To_one p ''RPL_ENDOFNAMES'' [S (cc_me cx), S parv0, S ''*'']]
      else
        (let para = parv ! 1; (ok, out) = check_channelname (cc_me cx) p s para;
             ending = To_one p ''RPL_ENDOFNAMES'' [S (cc_me cx), S parv0, S para] in
         if CHR '','' \<in> set para
         then [To_realops ''names abuser %s %s'' [Client_name p 0, S (take TRUNCATED_NAMES para)],
               To_one p ''ERR_TOOMANYTARGETS'' [S (cc_me cx), S (c_name s), S ''NAMES'']]
         else if \<not> ok then out
         else
           (case find_channel st para of
              None \<Rightarrow> [ending]
            | Some chp \<Rightarrow>
                if \<not> ShowChannel st p chp then [ending]
                else
                  (let ch = cs_channels st chp; member = IsMember st p chp;
                       sign = (if PubChannel ch then CHR ''='' else if has_mode ch MODE_SECRET then CHR ''@'' else CHR ''*'');
                       start = [sign] @ '' '' @ ch_chname ch @ '' :'';
                       shown = filter (\<lambda>m. \<not> (IsInvisible (cs_clients st (cm_cptr m)) \<and> \<not> member)) (ch_members ch);
                       words = map (\<lambda>m. names_sign (cm_flags m) @ c_name (cs_clients st (cm_cptr m))) shown in
                   map (\<lambda>b. To_one p ''RPL_NAMREPLY'' [S (cc_me cx), S parv0, S b])
                     (names_loop (length (cc_me cx) + NICKLEN + 7) start words start False True) @ [ending]))))"

subsection \<open>Joins and leaves in a row\<close>

text \<open>The block that PART and JOIN 0 share: count a leave, or tell the operators of a spambot.\<close>

definition count_leave :: "cmd_ctx \<Rightarrow> chan_state \<Rightarrow> (chan_state \<times> out_msg list) option" where
  "count_leave cx st =
     (let p = cc_sptr cx; c = from_client cx st; NOW = cc_now cx in
      if MyConnect c \<and> \<not> IsAnOper c
      then
        if c_join_leave_count c \<ge> cc_spam_num cx
        then map_option (\<lambda>u.
               (upd_client p (\<lambda>c. c\<lparr>c_oper_warn_count_down := OPER_SPAM_COUNTDOWN\<rparr>) st,
                [To_realops ''User %s (%s@%s) is a possible spambot'' [S (c_name c), S (u_username u), S (u_host u)]])) (c_user c)
        else
          (let t_delta = NOW - c_last_leave_time c;
               count = (if t_delta > JOIN_LEAVE_COUNT_EXPIRE_TIME
                        then (let decr = t_delta div JOIN_LEAVE_COUNT_EXPIRE_TIME in
                              if decr > c_join_leave_count c then 0 else c_join_leave_count c - decr)
                        else if NOW - c_last_join_time c < cc_spam_time cx then c_join_leave_count c + 1
                        else c_join_leave_count c) in
           Some (upd_client p (\<lambda>c. c\<lparr>c_join_leave_count := count, c_last_leave_time := NOW\<rparr>) st, []))
      else Some (st, []))"

text \<open>A known spambot that tries to join; the operators are told every few times.\<close>

definition warn_spambot :: "cmd_ctx \<Rightarrow> cstr \<Rightarrow> anUser \<Rightarrow> chan_state \<Rightarrow> chan_state \<times> out_msg list" where
  "warn_spambot cx name u st =
     (let c = from_client cx st; n = (if c_oper_warn_count_down c > 0 then c_oper_warn_count_down c - 1 else 0) in
      if n = 0
      then (upd_client (cc_sptr cx) (\<lambda>c. c\<lparr>c_oper_warn_count_down := OPER_SPAM_COUNTDOWN\<rparr>) st,
            [To_realops ''User %s (%s@%s) trying to join %s is a possible spambot'' [S (c_name c), S (u_username u), S (u_host u), S name]])
      else (upd_client (cc_sptr cx) (\<lambda>c. c\<lparr>c_oper_warn_count_down := n\<rparr>) st, []))"

definition set_join_time :: "cmd_ctx \<Rightarrow> chan_state \<Rightarrow> chan_state" where
  "set_join_time cx = upd_client (cc_sptr cx) (\<lambda>c. c\<lparr>c_last_join_time := cc_now cx\<rparr>)"

subsection \<open>PART\<close>

text \<open>The name as \<open>get_channel\<close> leaves it: for local clients it is cut in place.\<close>

definition cut_name :: "aClient \<Rightarrow> cstr \<Rightarrow> cstr" where
  "cut_name c name = (if MyClient c \<and> length name > CHANNELLEN then take CHANNELLEN name else name)"

definition part_one :: "cmd_ctx \<Rightarrow> cstr \<Rightarrow> cstr option \<Rightarrow> cstr \<Rightarrow> chan_state \<Rightarrow> (chan_state \<times> out_msg list) option" where
  "part_one cx parv0 reason name0 st =
     (let p = cc_sptr cx; c = from_client cx st; name = cut_name c name0 in
      Option.bind (get_channel (cc_now cx) p name0 False st) (\<lambda>(chp, _, st).
        case chp of
          None \<Rightarrow> Some (st, [To_one p ''ERR_NOSUCHCHANNEL'' [S (cc_me cx), S parv0, S name]])
        | Some chp \<Rightarrow>
            if \<not> IsMember st p chp then Some (st, [To_one p ''ERR_NOTONCHANNEL'' [S (cc_me cx), S parv0, S name]])
            else
              (case reason of
                 None \<Rightarrow>
                   map_option (\<lambda>st. (st, [To_servers (Some (cc_cptr cx)) '':%s PART %s'' [S parv0, S name],
                                          To_members chp p '':%s PART %s'' [S parv0, S name]])) (remove_user_from_channel p chp st)
               | Some r \<Rightarrow>
                   (let (e1, ch1) = can_send p c (cs_channels st chp) reason; (e2, ch2) = can_send p c ch1 reason;
                        st = upd_chan chp (\<lambda>_. ch2) st in
                    map_option (\<lambda>st. (st,
                      [if e1 \<noteq> 0 then To_servers (Some (cc_cptr cx)) '':%s PART %s'' [S parv0, S name]
                       else To_servers (Some (cc_cptr cx)) '':%s PART %s :%s'' [S parv0, S name, S r],
                       if e2 \<noteq> 0 then To_members chp p '':%s PART %s'' [S parv0, S name]
                       else To_members chp p '':%s PART %s :%s'' [S parv0, S name, S r]])) (remove_user_from_channel p chp st)))))"

text \<open>A handler for one name, over a list of names.\<close>

fun each_name :: "('a \<Rightarrow> chan_state \<Rightarrow> (chan_state \<times> out_msg list) option) \<Rightarrow> 'a list \<Rightarrow> chan_state \<Rightarrow> (chan_state \<times> out_msg list) option" where
  "each_name f [] st = Some (st, [])"
| "each_name f (x # xs) st = Option.bind (f x st) (\<lambda>(st1, out). map_option (\<lambda>(st2, out2). (st2, out @ out2)) (each_name f xs st1))"

definition m_part :: "cmd_ctx \<Rightarrow> cstr list \<Rightarrow> chan_state \<Rightarrow> (chan_state \<times> out_msg list) option" where
  "m_part cx parv st =
     (let parv0 = hd parv; reason = (if length parv > 2 then Some (parv ! 2) else None) in
      if length parv < 2 \<or> parv ! 1 = [] then Some (st, [need_more cx parv0 ''PART''])
      else if frozen cx st then Some (st, [need_more cx parv0 ''PART''])
      else
        (let names = strtokens CHR '','' (parv ! 1) in
         Option.bind (if names = [] then Some (st, []) else count_leave cx st) (\<lambda>(st, out).
           map_option (\<lambda>(st, out1). (st, out @ out1)) (each_name (part_one cx parv0 reason) names st))))"

subsection \<open>KICK\<close>

definition may_kick :: "addr \<Rightarrow> aClient \<Rightarrow> aChannel \<Rightarrow> bool" where
  "may_kick p c ch \<longleftrightarrow>
     IsServer c \<or> is_chan_op p (Some ch) \<noteq> 0 \<or> is_halfop p (Some ch) \<noteq> 0 \<or> IsULine c \<or> (\<not> MyConnect c \<and> ch_channelts ch \<noteq> 0)"

definition kick_user :: "cmd_ctx \<Rightarrow> cstr \<Rightarrow> cstr \<Rightarrow> addr \<Rightarrow> cstr \<Rightarrow> cstr \<Rightarrow> chan_state \<Rightarrow> (chan_state \<times> out_msg list) option" where
  "kick_user cx parv0 comment chp name user st =
     (let p = cc_sptr cx in
      case find_chasing (cc_mode cx) (cs_clients st) user of
        (None, _, out) \<Rightarrow> Some (st, out)
      | (Some who, _, out) \<Rightarrow>
          if IsMember st who chp
          then
            (let ch = Some (cs_channels st chp); wname = c_name (cs_clients st who) in
             if is_only_halfop p ch \<noteq> 0 \<and> (is_chan_op who ch \<noteq> 0 \<or> is_halfop who ch \<noteq> 0)
             then Some (st, out @
               [To_one who '':%s NOTICE %s :*** Notice -- %s attempted to kick you, however you are a channel operator''
                  [S (cc_me cx), S wname, S (c_name (from_client cx st))],
                To_one p '':%s NOTICE %s :*** Notice -- You cant kick %s, due to insufficient privileges'' [S (cc_me cx), S parv0, S wname]])
             else
               map_option (\<lambda>st. (st, out @
                 [To_members chp p '':%s KICK %s %s :%s'' [S parv0, S name, S wname, S comment],
                  To_servers (Some (cc_cptr cx)) '':%s KICK %s %s :%s'' [S parv0, S name, S wname, S comment]]))
                 (remove_user_from_channel who chp st))
          else Some (st, out @ [To_one p ''ERR_USERNOTINCHANNEL'' [S (cc_me cx), S parv0, S user, S name]]))"

text \<open>
  The loop over the channels: \<open>users\<close> is the list of nicknames.  \<open>strtoken\<close> cuts \<^verbatim>\<open>parv[2]\<close> behind its
  first word, so only that one is left for the channels that follow.
\<close>

fun kick_channels :: "cmd_ctx \<Rightarrow> cstr \<Rightarrow> cstr \<Rightarrow> cstr list \<Rightarrow> cstr list \<Rightarrow> chan_state \<Rightarrow> (chan_state \<times> out_msg list) option" where
  "kick_channels cx parv0 comment users [] st = Some (st, [])"
| "kick_channels cx parv0 comment users (name0 # names) st =
     (let p = cc_sptr cx; c = from_client cx st; name = cut_name c name0 in
      Option.bind (get_channel (cc_now cx) p name0 False st) (\<lambda>(chp, _, st).
        let (r, users1) =
          (case chp of
             None \<Rightarrow> (Some (st, [To_one p ''ERR_NOSUCHCHANNEL'' [S (cc_me cx), S parv0, S name]]), users)
           | Some chp \<Rightarrow>
               if \<not> may_kick p c (cs_channels st chp)
               then (Some (st, [To_one p ''ERR_CHANOPRIVSNEEDED'' [S (cc_me cx), S parv0, S (ch_chname (cs_channels st chp))]]), users)
               else (each_name (kick_user cx parv0 comment chp name) (take 4 users) st, take 1 users)) in
        Option.bind r (\<lambda>(st, out). map_option (\<lambda>(st, out1). (st, out @ out1)) (kick_channels cx parv0 comment users1 names st))))"

definition m_kick :: "cmd_ctx \<Rightarrow> cstr list \<Rightarrow> chan_state \<Rightarrow> (chan_state \<times> out_msg list) option" where
  "m_kick cx parv st =
     (let parv0 = hd parv; c = from_client cx st in
      if length parv < 3 \<or> parv ! 1 = [] then Some (st, [need_more cx parv0 ''KICK''])
      else
        (let comment = take TOPICLEN (if length parv < 4 \<or> parv ! 3 = [] then parv0 else parv ! 3);
             out = (if IsServer c \<and> \<not> IsULine c then [To_ops ''KICK from %s for %s %s'' [S parv0, S (parv ! 1), S (parv ! 2)]] else []) in
         map_option (\<lambda>(st, out1). (st, out @ out1))
           (kick_channels cx parv0 comment (strtokens CHR '','' (parv ! 2)) (strtokens CHR '','' (parv ! 1)) st)))"

subsection \<open>TOPIC and INVITE\<close>

definition topic_replies :: "cmd_ctx \<Rightarrow> cstr \<Rightarrow> cstr \<Rightarrow> aChannel \<Rightarrow> out_msg list" where
  "topic_replies cx parv0 name ch =
     [To_one (cc_sptr cx) ''RPL_TOPIC'' [S (cc_me cx), S parv0, S name, S (ch_topic ch)],
      To_one (cc_sptr cx) ''RPL_TOPICWHOTIME'' [S (cc_me cx), S parv0, S name, S (ch_topic_nick ch), D (ch_topic_time ch)]]"

text \<open>\<^verbatim>\<open>topic_nick\<close> is a field of \<open>NICKLEN + 1\<close> bytes that is filled with \<^verbatim>\<open>strcpy\<close>.\<close>

definition m_topic :: "cmd_ctx \<Rightarrow> cstr list \<Rightarrow> chan_state \<Rightarrow> (chan_state \<times> out_msg list) option" where
  "m_topic cx parv st =
     (let p = cc_sptr cx; s = from_client cx st; parv0 = hd parv in
      if length parv < 2 then Some (st, [need_more cx parv0 ''TOPIC''])
      else
        (let name = parv ! 1 in
         case find_channel st name of
           None \<Rightarrow> Some (st, [To_one p ''ERR_NOSUCHCHANNEL'' [S (cc_me cx), S parv0, S name]])
         | Some chp \<Rightarrow>
             (let ch = cs_channels st chp; member = IsMember st p chp; hidden = (\<not> member \<and> \<not> ShowChannel st p chp);
                  not_on = To_one p ''ERR_NOTONCHANNEL'' [S (cc_me cx), S parv0, S name] in
              if length parv = 2
              then
                if hidden \<and> \<not> IsAdmin s then Some (st, [not_on])
                else (let namep = (if hidden then CHR ''%'' # ch_chname ch else ch_chname ch) in
                      Some (st, if ch_topic ch = [] then [To_one p ''RPL_NOTOPIC'' [S (cc_me cx), S parv0, S namep]]
                                else topic_replies cx parv0 namep ch))
              else if MyClient s \<and> \<not> member then Some (st, [not_on])
              else if MyClient s \<and> has_mode ch MODE_TOPICLIMIT \<and> is_chan_op p (Some ch) = 0
              then Some (st, [To_one p ''ERR_CHANOPRIVSNEEDED'' [S (cc_me cx), S parv0, S (ch_chname ch)]])
              else
                (let extended = (\<not> MyClient s \<and> length parv > 3);
                     topic = (if extended then if length parv > 4 then parv ! 4 else [] else parv ! 2);
                     tnick = (if extended then parv ! 2 else c_name s);
                     ts = (if extended then atoi (parv ! 3) else cc_now cx) in
                 if \<not> MyClient s \<and> \<not> IsULine s \<and> ch_topic ch \<noteq> [] \<and> ch_topic_time ch \<ge> ts then Some (st, [])
                 else if length tnick > NICKLEN then None
                 else
                   (let topic = strncpyzt topic (TOPICLEN + 1) in
                    Some (upd_chan chp (\<lambda>ch. ch\<lparr>ch_topic := topic, ch_topic_nick := tnick, ch_topic_time := ts\<rparr>) st,
                      [To_servers (Some (cc_cptr cx)) '':%s TOPIC %s %s %lu :%s'' [S parv0, S (ch_chname ch), S tnick, D ts, S topic],
                       To_channel chp p '':%s TOPIC %s :%s'' [S parv0, S (ch_chname ch), S topic]]))))))"

definition find_person :: "clients \<Rightarrow> hash_tab \<Rightarrow> cstr \<Rightarrow> addr option" where
  "find_person cs tab name = (case hash_find_client cs tab name None of Some a \<Rightarrow> if IsClient (cs a) then Some a else None | None \<Rightarrow> None)"

definition m_invite :: "cmd_ctx \<Rightarrow> cstr list \<Rightarrow> chan_state \<Rightarrow> (chan_state \<times> out_msg list) option" where
  "m_invite cx parv st =
     (let p = cc_sptr cx; s = from_client cx st; parv0 = hd parv; err = (\<lambda>e args. Some (st, [To_one p e ([S (cc_me cx), S parv0] @ args)])) in
      if length parv < 3 \<or> parv ! 1 = [] then Some (st, [need_more cx parv0 ''INVITE''])
      else
        (case find_person (cs_clients st) (mc_table (cc_mode cx)) (parv ! 1) of
           None \<Rightarrow> err ''ERR_NOSUCHNICK'' [S (parv ! 1)]
         | Some a \<Rightarrow>
             (let ac = cs_clients st a; chp = find_channel st (parv ! 2);
                  invite = (\<lambda>chp. map_option (\<lambda>st1. (st1,
                    [To_prefix_one a p '':%s INVITE %s :%s'' [S parv0, S (c_name ac), S (ch_chname (cs_channels st chp))],
                     To_chanflags chp (mc_me_addr (cc_mode cx)) CHFL_CHANOP '':%s NOTICE @%s :%s invited %s into channel %s''
                       [S (cc_me cx), S (ch_chname (cs_channels st chp)), S parv0, S (c_name ac), S (ch_chname (cs_channels st chp))]]))
                    (add_invite (cc_maxchannels cx) a chp st));
                  forward = To_one a '':%s INVITE %s :%s'' [S parv0, S (parv ! 1), S (parv ! 2)] in
              if MyClient s
              then
                (case chp of
                   None \<Rightarrow> err ''ERR_NOSUCHCHANNEL'' [S (parv ! 2)]
                 | Some chp \<Rightarrow>
                     if \<not> IsMember st p chp then err ''ERR_NOTONCHANNEL'' [S (parv ! 2)]
                     else if IsMember st a chp then err ''ERR_USERONCHANNEL'' [S (parv ! 1), S (ch_chname (cs_channels st chp))]
                     else if is_chan_op p (Some (cs_channels st chp)) = 0 then err ''ERR_CHANOPRIVSNEEDED'' [S (ch_chname (cs_channels st chp))]
                     else
                       Option.bind (c_user ac) (\<lambda>u.
                         (let out = To_one p ''RPL_INVITING'' [S (cc_me cx), S parv0, S (c_name ac), S (ch_chname (cs_channels st chp))] #
                              (case u_away u of None \<Rightarrow> [] | Some m \<Rightarrow> [To_one p ''RPL_AWAY'' [S (cc_me cx), S parv0, S (c_name ac), S m]]) in
                          if MyClient ac then map_option (\<lambda>(st, o1). (st, out @ o1)) (invite chp)
                          else Some (st, out @ [forward]))))
              else if MyClient ac
              then (case chp of None \<Rightarrow> Some (st, []) | Some chp \<Rightarrow> if IsMember st a chp then Some (st, []) else invite chp)
              else Some (st, [forward]))))"

subsection \<open>SAJOIN\<close>

definition m_sajoin :: "cmd_ctx \<Rightarrow> cstr list \<Rightarrow> chan_state \<Rightarrow> (chan_state \<times> out_msg list) option" where
  "m_sajoin cx parv st =
     (let p = cc_sptr cx; s = from_client cx st; parv0 = hd parv in
      if \<not> MyClient s then Some (st, [])
      else if \<not> IsSAdmin s then Some (st, [To_one p ''ERR_NOPRIVILEGES'' [S (cc_me cx), S parv0]])
      else if length parv < 2 \<or> parv ! 1 = [] then Some (st, [need_more cx parv0 ''SAJOIN''])
      else
        (let name = parv ! 1 in
         case find_channel st name of
           None \<Rightarrow> Some (st, [To_one p ''ERR_NOSUCHCHANNEL'' [S (cc_me cx), S parv0, S name]])
         | Some chp \<Rightarrow>
             if IsMember st p chp then Some (st, [])
             else
               Option.bind (c_user s) (\<lambda>u.
                 (case can_join_whynot (cc_now cx) s u chp (cs_channels st chp) None of
                    (why, ch, out) \<Rightarrow>
                      (let used = [S (cc_me cx), S (c_name s), S (ch_chname ch), S why];
                           st1 = add_user_to_channel chp p 0 (upd_chan chp (\<lambda>_. ch) st) in
                       Some (st1, out @
                         (if why \<noteq> []
                          then [To_globops ''from %s: %s used SAJOIN (%s +%s)'' used, To_servers None '':%s GLOBOPS :%s used SAJOIN (%s +%s)'' used]
                          else [To_one p '':%s NOTICE %s :You didn't need to use /SAJOIN for %s'' [S (cc_me cx), S parv0, S (ch_chname ch)]]) @
                         [To_servers (Some (cc_cptr cx)) '':%s SJOIN %ld %s'' [S parv0, D (ch_channelts ch), S name],
                          To_members chp p '':%s JOIN :%s'' [S parv0, S name]] @
                         (if ch_topic ch \<noteq> [] then topic_replies cx parv0 name ch else []) @ m_names cx [parv0, name] st1))))))"

subsection \<open>JOIN\<close>

text \<open>\<open>canonize\<close> (\<^verbatim>\<open>src/s_user.c\<close>): the list without names that were there before.\<close>

fun first_names :: "cstr list \<Rightarrow> cstr list \<Rightarrow> cstr list" where
  "first_names seen [] = seen"
| "first_names seen (x # xs) = first_names (if list_ex (\<lambda>t. mycmp x t = 0) seen then seen else seen @ [x]) xs"

fun commas :: "cstr list \<Rightarrow> cstr" where
  "commas [] = []"
| "commas [x] = x"
| "commas (x # y # xs) = x @ '','' @ commas (y # xs)"

definition canonize :: "cstr \<Rightarrow> cstr" where
  "canonize buffer = commas (first_names [] (strtokens CHR '','' buffer))"

definition is_zero :: "cstr \<Rightarrow> bool" where
  "is_zero name \<longleftrightarrow> char_at name 0 CHR ''0'' \<and> atoi name = 0"

text \<open>
  The first loop collects the acceptable names in \<^verbatim>\<open>jbuf\<close>, a buffer of \<open>BUFSIZE\<close> bytes: \<open>i\<close> counts what was
  put there, also by names that a later JOIN 0 has dropped.
\<close>

fun collect_names :: "cmd_ctx \<Rightarrow> cstr \<Rightarrow> aClient \<Rightarrow> cstr list \<Rightarrow> cstr \<Rightarrow> nat \<Rightarrow> (cstr \<times> out_msg list) option" where
  "collect_names cx parv0 c [] jbuf i = Some (jbuf, [])"
| "collect_names cx parv0 c (name0 # names) jbuf i =
     (let (ok, out) = check_channelname (cc_me cx) (cc_sptr cx) c name0; name = take CHANNELLEN name0;
          more = (\<lambda>out jbuf i. map_option (\<lambda>(j, o1). (j, out @ o1)) (collect_names cx parv0 c names jbuf i)) in
      if \<not> ok then more out jbuf i
      else if \<not> is_zero name \<and> \<not> char_at name 0 CHR ''#''
      then more (if MyClient c then [To_one (cc_sptr cx) ''ERR_NOSUCHCHANNEL'' [S (cc_me cx), S parv0, S name]] else []) jbuf i
      else
        (let jbuf = (if is_zero name then [] else jbuf);
             name1 = (if i < BUFSIZE then take (BUFSIZE - i - 1) name else name);
             jbuf = (if jbuf \<noteq> [] then jbuf @ '','' else []) @ name1 in
         if length jbuf < BUFSIZE then more [] jbuf (i + length name + 1) else None))"

text \<open>JOIN 0: out of all channels, the first of the list first.\<close>

fun part_all :: "cmd_ctx \<Rightarrow> cstr \<Rightarrow> addr list \<Rightarrow> chan_state \<Rightarrow> (chan_state \<times> out_msg list) option" where
  "part_all cx parv0 [] st = Some (st, [])"
| "part_all cx parv0 (chp # chps) st =
     Option.bind (remove_user_from_channel (cc_sptr cx) chp st) (\<lambda>st1.
       map_option (\<lambda>(st2, out). (st2, To_members chp (cc_sptr cx) '':%s PART %s'' [S parv0, S (ch_chname (cs_channels st chp))] # out))
         (part_all cx parv0 chps st1))"

definition join_zero :: "cmd_ctx \<Rightarrow> cstr \<Rightarrow> anUser \<Rightarrow> chan_state \<Rightarrow> (chan_state \<times> out_msg list) option" where
  "join_zero cx parv0 u st =
     (if u_channel u = [] then Some (st, [])
      else
        Option.bind (part_all cx parv0 (u_channel u) st) (\<lambda>(st, out).
          map_option (\<lambda>(st, out1). (st, out @ out1 @ [To_servers (Some (cc_cptr cx)) '':%s JOIN 0'' [S parv0]])) (count_leave cx st)))"

text \<open>The variables of the second loop; \<open>jr_stop\<close> is a \<^verbatim>\<open>return\<close> out of it.\<close>

record join_run =
  jr_st :: chan_state
  jr_flags :: u32
  jr_allow_op :: bool
  jr_count :: nat
  jr_stop :: bool
  jr_out :: "out_msg list"

definition jr_put :: "chan_state \<Rightarrow> out_msg list \<Rightarrow> join_run \<Rightarrow> join_run" where
  "jr_put st out r = r\<lparr>jr_st := st, jr_out := jr_out r @ out\<rparr>"

text \<open>What is tested for a local client before the channel is looked up; \<open>Inl\<close> ends the round.\<close>

definition local_tests :: "cmd_ctx \<Rightarrow> cstr \<Rightarrow> cstr \<Rightarrow> anUser \<Rightarrow> join_run \<Rightarrow> join_run + join_run" where
  "local_tests cx parv0 name u r =
     (let p = cc_sptr cx; st = jr_st r; c = from_client cx st in
      case (if IsOper c then None else Option.bind (check_mask_simbanned (cc_now cx) name SBAN_CHAN (cc_simbans cx)) (\<lambda>x. x)) of
        Some ban \<Rightarrow>
          Inl (jr_put st [To_one p ''ERR_CHANBANREASON'' [S (cc_me cx), S parv0, S name,
                            S (case sb_reason (sb_store (cc_simbans cx) ban) of None \<Rightarrow> ''Reserved channel'' | Some r \<Rightarrow> if r = [] then ''Reserved channel'' else r)],
                          To_realops ''Forbidding restricted channel %s from %s.'' [S name, Client_name (cc_cptr cx) 1]] r)
      | None \<Rightarrow>
          (let flags = (if find_channel st name \<noteq> None then 0 else CHFL_CHANOP);
               r = r\<lparr>jr_flags := flags, jr_allow_op := jr_allow_op r \<and> \<not> (\<not> IsAnOper c \<and> cc_split cx \<and> \<not> cc_splitopok cx)\<rparr> in
           if u_joined u \<ge> cc_maxchannels cx \<and> (\<not> IsAnOper c \<or> u_joined u \<ge> cc_maxchannels cx * 3)
           then Inl (jr_put (if jr_count r > 0 then set_join_time cx st else st)
                       [To_one p ''ERR_TOOMANYCHANNELS'' [S (cc_me cx), S parv0, S name]] (r\<lparr>jr_stop := True\<rparr>))
           else
             (let r = (if flags = 0 then r\<lparr>jr_count := jr_count r + 1\<rparr> else r) in
              if c_join_leave_count c \<ge> cc_spam_num cx
              then (case warn_spambot cx name u st of (st, out) \<Rightarrow> Inl (jr_put st out (r\<lparr>jr_stop := True\<rparr>)))
              else Inr r)))"

text \<open>The client enters the channel: the state, what is sent to others and to itself.\<close>

definition creates :: "cmd_ctx \<Rightarrow> join_run \<Rightarrow> bool" where
  "creates cx r \<longleftrightarrow> MyClient (from_client cx (jr_st r)) \<and> jr_flags r = CHFL_CHANOP"

definition enter_state :: "cmd_ctx \<Rightarrow> addr \<Rightarrow> join_run \<Rightarrow> chan_state" where
  "enter_state cx chp r =
     upd_chan chp (\<lambda>ch. ch\<lparr>ch_join_count := ch_join_count ch + 1, ch_channelts := if creates cx r then cc_now cx else ch_channelts ch\<rparr>)
       (add_user_to_channel chp (cc_sptr cx) (if jr_allow_op r then jr_flags r else 0) (jr_st r))"

definition enter_out :: "cmd_ctx \<Rightarrow> cstr \<Rightarrow> cstr \<Rightarrow> addr \<Rightarrow> join_run \<Rightarrow> out_msg list" where
  "enter_out cx parv0 name chp r =
     (let p = cc_sptr cx; ts = ch_channelts (cs_channels (enter_state cx chp r) chp) in
      (if jr_flags r \<noteq> 0 \<and> \<not> jr_allow_op r
       then [To_one p '':%s NOTICE %s :*** Notice -- Due to a network split, you can not obtain channel operator status in a new channel at this time.''
               [S (cc_me cx), S (c_name (from_client cx (jr_st r)))]] else []) @
      [if creates cx r then To_servers (Some (cc_cptr cx)) (if jr_allow_op r then '':%s SJOIN %ld %s + :@%s'' else '':%s SJOIN %ld %s + :%s'')
                              [S (cc_me cx), D ts, S name, S parv0]
       else if MyClient (from_client cx (jr_st r)) then To_servers (Some (cc_cptr cx)) '':%s SJOIN %ld %s'' [S parv0, D ts, S name]
       else To_servers (Some (cc_cptr cx)) '':%s JOIN :%s'' [S parv0, S name],
       To_members chp p '':%s JOIN :%s'' [S parv0, S name]])"

definition enter_channel :: "cmd_ctx \<Rightarrow> cstr \<Rightarrow> cstr \<Rightarrow> addr \<Rightarrow> join_run \<Rightarrow> join_run option" where
  "enter_channel cx parv0 name chp r =
     (let st = enter_state cx chp r; ch = cs_channels st chp; out = enter_out cx parv0 name chp r in
      if MyClient (from_client cx (jr_st r))
      then map_option (\<lambda>st. jr_put st (out @ (if ch_topic ch \<noteq> [] then topic_replies cx parv0 name ch else []) @ m_names cx [parv0, name] st) r)
             (del_invite (cc_sptr cx) chp st)
      else Some (jr_put st out r))"

definition join_channel :: "cmd_ctx \<Rightarrow> cstr \<Rightarrow> cstr \<Rightarrow> cstr option \<Rightarrow> join_run \<Rightarrow> join_run option" where
  "join_channel cx parv0 name key r =
     (let p = cc_sptr cx in
      Option.bind (get_channel (cc_now cx) p name True (jr_st r)) (\<lambda>(chp, _, st).
        let r = r\<lparr>jr_st := st\<rparr>; c = from_client cx st; less = (\<lambda>r. r\<lparr>jr_count := jr_count r - 1\<rparr>) in
        case chp of
          None \<Rightarrow> Some (less r)
        | Some chp \<Rightarrow>
            if IsMember st p chp then Some r
            else if \<not> MyConnect c then enter_channel cx parv0 name chp r
            else
              Option.bind (c_user c) (\<lambda>u.
                case can_join (cc_me cx) (cc_reg_args cx) (cc_now cx) p c u chp (cs_channels st chp) key of
                  (ok, ch, out) \<Rightarrow>
                    (let r = jr_put (upd_chan chp (\<lambda>_. ch) st) out r in
                     if ok = 0 then Some (less r) else enter_channel cx parv0 name chp r))))"

definition join_one :: "cmd_ctx \<Rightarrow> cstr \<Rightarrow> cstr \<Rightarrow> cstr option \<Rightarrow> join_run \<Rightarrow> join_run option" where
  "join_one cx parv0 name key r =
     (let st = jr_st r; c = from_client cx st in
      Option.bind (c_user c) (\<lambda>u.
        if is_zero name then map_option (\<lambda>(st, out). jr_put st out r) (join_zero cx parv0 u st)
        else if MyConnect c
        then (case local_tests cx parv0 name u r of Inl r \<Rightarrow> Some r | Inr r \<Rightarrow> join_channel cx parv0 name key r)
        else
          join_channel cx parv0 name key
            (if find_channel st name = None then jr_put st [To_ts_warn ''User on %s remotely JOINing new channel'' [S (u_server u)]] r else r)))"

fun join_loop :: "cmd_ctx \<Rightarrow> cstr \<Rightarrow> cstr list \<Rightarrow> cstr list \<Rightarrow> join_run \<Rightarrow> join_run option" where
  "join_loop cx parv0 [] keys r = Some r"
| "join_loop cx parv0 (name # names) keys r =
     Option.bind (join_one cx parv0 name (case keys of [] \<Rightarrow> None | k # _ \<Rightarrow> Some k) r) (\<lambda>r.
       if jr_stop r then Some r else join_loop cx parv0 names (tl keys) r)"

definition m_join :: "cmd_ctx \<Rightarrow> cstr list \<Rightarrow> chan_state \<Rightarrow> (chan_state \<times> out_msg list) option" where
  "m_join cx parv st =
     (let c = from_client cx st; parv0 = hd parv in
      if frozen cx st then Some (st, [need_more cx parv0 ''JOIN''])
      else if c_user c = None then Some (st, [])
      else if length parv < 2 \<or> parv ! 1 = [] then Some (st, [need_more cx parv0 ''JOIN''])
      else
        (let names = strtokens CHR '','' (if MyClient c then canonize (parv ! 1) else parv ! 1);
             keys = (if length parv > 2 then strtokens CHR '','' (parv ! 2) else []) in
         Option.bind (collect_names cx parv0 c names [] 0) (\<lambda>(jbuf, out).
         map_option (\<lambda>r. (if MyConnect (from_client cx (jr_st r)) \<and> jr_count r > 0 \<and> \<not> jr_stop r then set_join_time cx (jr_st r) else jr_st r, jr_out r))
           (join_loop cx parv0 (strtokens CHR '','' jbuf) keys
              \<lparr>jr_st = st, jr_flags = 0, jr_allow_op = True, jr_count = 0, jr_stop = False, jr_out = out\<rparr>))))"

end
