(* ===== verification/Cmd_Frames.thy ===== *)
theory Cmd_Frames
  imports Channel_Cmds
begin

section \<open>What the parts of the channel commands do to a consistent state\<close>

text \<open>
  A state is \<open>settled\<close> when the channels, the members and the invitations agree on both sides, no channel is empty,
  every client that is registered has a user struct, and nicknames have at most \<open>NICKLEN\<close> characters.
  \<open>stat\<close> is the status (operator, half operator, voice) of a client in a channel that exists.
  The lemmas say of each part that it ends without a fault, in which state, and what becomes of \<open>stat\<close>.
\<close>

definition STATUS_BITS :: u32 where "STATUS_BITS = CHFL_CHANOP OR CHFL_HALFOP OR CHFL_VOICE"

definition stat :: "chan_state \<Rightarrow> addr \<Rightarrow> addr \<Rightarrow> u32 option" where
  "stat st q a =
     (if a \<in> set (cs_channel st)
      then map_option (\<lambda>m. cm_flags m AND STATUS_BITS) (find_user_member (ch_members (cs_channels st a)) q) else None)"

text \<open>A client without what the commands change in it.\<close>

definition still :: "aClient \<Rightarrow> aClient" where
  "still c = c\<lparr>c_user := None, c_last_join_time := 0, c_last_leave_time := 0, c_join_leave_count := 0, c_oper_warn_count_down := 0\<rparr>"

definition same_clients :: "chan_state \<Rightarrow> chan_state \<Rightarrow> bool" where
  "same_clients st st1 \<longleftrightarrow> (\<forall>q. still (cs_clients st1 q) = still (cs_clients st q))"

definition settled :: "addr set \<Rightarrow> chan_state \<Rightarrow> bool" where
  "settled U st \<longleftrightarrow>
     chan_inv U st \<and> (\<forall>q. IsClient (cs_clients st q) \<longrightarrow> q \<in> U) \<and> (\<forall>q\<in>U. length (c_name (cs_clients st q)) \<le> NICKLEN)"

text \<open>The state after a step is settled again, with the same clients; addresses of channels are not used twice.\<close>

definition moved :: "addr set \<Rightarrow> chan_state \<Rightarrow> chan_state \<Rightarrow> bool" where
  "moved U st st1 \<longleftrightarrow> settled U st1 \<and> same_clients st st1 \<and> cs_next st \<le> cs_next st1"

lemma still_fields:
  assumes "still c = still d"
  shows "c_name c = c_name d" "c_umode c = c_umode d" "c_flags c = c_flags d" "c_fd c = c_fd d" "c_status c = c_status d"
  using assms by (auto simp: still_def dest: arg_cong [where f = c_name] arg_cong [where f = c_umode]
    arg_cong [where f = c_flags] arg_cong [where f = c_fd] arg_cong [where f = c_status])

lemma same_clients_iff:
  assumes "same_clients st st1"
  shows "c_name (cs_clients st1 q) = c_name (cs_clients st q)" "IsClient (cs_clients st1 q) = IsClient (cs_clients st q)"
    "IsServer (cs_clients st1 q) = IsServer (cs_clients st q)" "MyConnect (cs_clients st1 q) = MyConnect (cs_clients st q)"
    "MyClient (cs_clients st1 q) = MyClient (cs_clients st q)" "IsULine (cs_clients st1 q) = IsULine (cs_clients st q)"
    "IsAnOper (cs_clients st1 q) = IsAnOper (cs_clients st q)" "IsOper (cs_clients st1 q) = IsOper (cs_clients st q)"
  using still_fields [of "cs_clients st1 q" "cs_clients st q"] assms
  by (simp_all add: same_clients_def IsClient_def IsServer_def MyConnect_def MyClient_def IsULine_def IsAnOper_def IsOper_def)

lemma same_clients_refl [simp]: "same_clients st st"
  by (simp add: same_clients_def)

lemma moved_trans: "moved U st st1 \<Longrightarrow> moved U st1 st2 \<Longrightarrow> moved U st st2"
  by (auto simp: moved_def same_clients_def)

lemma moved_refl: "settled U st \<Longrightarrow> moved U st st"
  by (simp add: moved_def)

lemma moved_settled: "moved U st st1 \<Longrightarrow> settled U st1"
  by (simp add: moved_def)

lemma settledD:
  assumes "settled U st"
  shows "chan_inv U st" "chans_ok st" "links_ok st" "is_user st q \<longleftrightarrow> q \<in> U" "IsClient (cs_clients st q) \<Longrightarrow> q \<in> U"
    "q \<in> U \<Longrightarrow> length (c_name (cs_clients st q)) \<le> NICKLEN" "a \<in> set (cs_channel st) \<Longrightarrow> members_of st a \<noteq> []"
  using assms by (auto simp: settled_def chan_inv_def)

lemma movedI:
  assumes "settled U st" and "chan_inv U st1" and "same_clients st st1" and "cs_next st \<le> cs_next st1"
  shows "moved U st st1"
  using assms(1,2) assms(3,4) same_clients_iff(1,2) [OF assms(3)] by (simp add: moved_def settled_def)

lemma not_in_channel: "settled U st \<Longrightarrow> q \<notin> U \<Longrightarrow> stat st q a = None"
  by (auto simp: settled_def chan_inv_def links_ok_def chan_links_ok_iff members_of_def stat_def find_user_member_def find_None_iff)

lemma find_member_None: "find_user_member ms q = None \<longleftrightarrow> q \<notin> set (map cm_cptr ms)"
  by (auto simp: find_user_member_def find_None_iff)

lemma stat_None: "stat st q a = None \<longleftrightarrow> a \<notin> set (cs_channel st) \<or> q \<notin> set (members_of st a)"
  by (simp add: stat_def find_member_None members_of_def)

lemma IsMember_stat: "settled U st \<Longrightarrow> IsMember st q a \<longleftrightarrow> stat st q a \<noteq> None"
  using IsMember_iff [of st q a] settledD(3) [of U st] settledD(4) [of U st q] not_in_channel [of U st q a]
  by (cases "q \<in> U") (auto simp: stat_None IsMember_def is_user_def)

subsection \<open>Changes that do not concern membership\<close>

lemma moved_upd_client:
  assumes ok: "settled U st" and f: "\<And>c. c_user (f c) = c_user c" "\<And>c. still (f c) = still c"
  shows "moved U st (upd_client p f st)" "stat (upd_client p f st) = stat st"
proof -
  let ?st = "upd_client p f st"
  have s: "cs_channels ?st = cs_channels st" "cs_channel ?st = cs_channel st" "cs_table ?st = cs_table st" "cs_count ?st = cs_count st"
    "cs_next ?st = cs_next st" "c_user (cs_clients ?st q) = c_user (cs_clients st q)" for q
    by (simp_all add: upd_client_def f(1))
  have "chan_inv U ?st = chan_inv U st"
    by (simp add: chan_inv_def chans_ok_def links_ok_def chan_links_ok_def user_links_ok_def is_user_def user_at_def members_of_def invites_of_def s)
  moreover have "same_clients st ?st" by (simp add: same_clients_def upd_client_def f(2))
  ultimately show "moved U st ?st" using settledD(1) [OF ok] s(5) by (intro movedI [OF ok]) simp_all
  show "stat ?st = stat st" by (simp add: stat_def fun_eq_iff s)
qed

definition quiet_chan :: "aChannel \<Rightarrow> aChannel \<Rightarrow> bool" where
  "quiet_chan ch ch1 \<longleftrightarrow>
     ch_chname ch1 = ch_chname ch \<and> ch_users ch1 = ch_users ch \<and> ch_invites ch1 = ch_invites ch \<and>
     map (\<lambda>m. (cm_cptr m, cm_flags m AND STATUS_BITS)) (ch_members ch1) = map (\<lambda>m. (cm_cptr m, cm_flags m AND STATUS_BITS)) (ch_members ch)"

lemma quiet_chan_refl [simp]: "quiet_chan ch ch"
  by (simp add: quiet_chan_def)

lemma quiet_chan_trans: "quiet_chan a b \<Longrightarrow> quiet_chan b c \<Longrightarrow> quiet_chan a c"
  by (simp add: quiet_chan_def)

lemma quiet_chan_cptrs: "quiet_chan a b \<Longrightarrow> map cm_cptr (ch_members b) = map cm_cptr (ch_members a)"
  unfolding quiet_chan_def by (auto dest: arg_cong [where f = "map fst"] simp: comp_def)

lemma find_member_map:
  "map_option (\<lambda>m. cm_flags m AND STATUS_BITS) (find_user_member ms q) = map_of (map (\<lambda>m. (cm_cptr m, cm_flags m AND STATUS_BITS)) ms) q"
  by (induction ms) (simp_all add: find_user_member_def)

lemma quiet_upd_chan:
  assumes ok: "chans_ok st" "links_ok st" and q: "quiet_chan (cs_channels st a) (f (cs_channels st a))"
  shows "chans_ok (upd_chan a f st)" "links_ok (upd_chan a f st)" "members_of (upd_chan a f st) = members_of st" "stat (upd_chan a f st) = stat st"
proof -
  let ?st = "upd_chan a f st"
  have s: "ch_chname (cs_channels ?st b) = ch_chname (cs_channels st b)" "ch_users (cs_channels ?st b) = ch_users (cs_channels st b)"
    "invites_of ?st b = invites_of st b" "members_of ?st b = members_of st b" for b
    using q quiet_chan_cptrs [OF q] by (simp_all add: chan_simps quiet_chan_def invites_of_def members_of_def)
  have u: "is_user ?st = is_user st" "user_at ?st = user_at st" "cs_channel ?st = cs_channel st" by (simp_all add: chan_simps)
  show "chans_ok ?st" by (rule chans_ok_cong [OF ok(1)]) (use s(1) in \<open>simp_all add: upd_chan_simps(2-5)\<close>)
  show "links_ok ?st" using ok(2) by (simp add: links_ok_def chan_links_ok_iff user_links_ok_def s u)
  show "members_of ?st = members_of st" by (simp add: fun_eq_iff s)
  have "map_option (\<lambda>m. cm_flags m AND STATUS_BITS) (find_user_member (ch_members (cs_channels ?st b)) x) =
      map_option (\<lambda>m. cm_flags m AND STATUS_BITS) (find_user_member (ch_members (cs_channels st b)) x)" for b x
    using q by (simp add: find_member_map quiet_chan_def chan_simps)
  then show "stat ?st = stat st" by (simp add: stat_def fun_eq_iff u)
qed

lemma moved_upd_chan:
  assumes ok: "settled U st" and q: "quiet_chan (cs_channels st a) (f (cs_channels st a))"
  shows "moved U st (upd_chan a f st)" "stat (upd_chan a f st) = stat st"
proof -
  note Q = quiet_upd_chan [where a = a and f = f, OF settledD(2,3) [OF ok] q]
  have "chan_inv U (upd_chan a f st)" using settledD(1) [OF ok] Q(1,2) by (simp add: chan_inv_def Q(3) chan_simps)
  then show "moved U st (upd_chan a f st)" by (intro movedI [OF ok]) (simp_all add: same_clients_def chan_simps)
  show "stat (upd_chan a f st) = stat st" by (rule Q(4))
qed

subsection \<open>Invitations\<close>

text \<open>What \<open>del_invite\<close> and \<open>add_invite\<close> leave as it is.\<close>

definition invites_only :: "chan_state \<Rightarrow> chan_state \<Rightarrow> bool" where
  "invites_only st st1 \<longleftrightarrow>
     cs_channel st1 = cs_channel st \<and> cs_next st1 = cs_next st \<and> same_clients st st1 \<and>
     (\<forall>a. (cs_channels st1 a)\<lparr>ch_invites := []\<rparr> = (cs_channels st a)\<lparr>ch_invites := []\<rparr>)"

lemma invites_only_trans: "invites_only a b \<Longrightarrow> invites_only b c \<Longrightarrow> invites_only a c"
  by (simp add: invites_only_def same_clients_def)

lemma invites_only_user:
  "upd_user p f (upd_chan a (\<lambda>ch. ch\<lparr>ch_invites := g ch\<rparr>) st) = Some st1 \<Longrightarrow> invites_only st st1"
  by (auto simp: upd_user_def upd_chan_def invites_only_def same_clients_def still_def split: option.splits)

lemma del_invite_only: "del_invite p a st = Some st1 \<Longrightarrow> invites_only st st1"
  unfolding del_invite_def by (rule invites_only_user)

lemma del_invites_only: "del_invites ps a st = Some st1 \<Longrightarrow> invites_only st st1"
proof (induction ps arbitrary: st)
  case Nil
  then show ?case by (simp add: invites_only_def)
next
  case (Cons p ps)
  then show ?case by (auto split: bind_splits dest: del_invite_only intro: invites_only_trans)
qed

lemma add_invite_only: "add_invite m p a st = Some st1 \<Longrightarrow> invites_only st st1"
  by (auto simp: add_invite_def split: bind_splits if_splits list.splits dest!: del_invite_only invites_only_user intro: invites_only_trans)

lemma invites_only_members: "invites_only st st1 \<Longrightarrow> ch_members (cs_channels st1 a) = ch_members (cs_channels st a)"
  unfolding invites_only_def by (drule conjunct2, drule conjunct2, drule conjunct2, drule spec [of _ a], drule arg_cong [where f = ch_members]) simp

lemma invites_only_stat: "invites_only st st1 \<Longrightarrow> stat st1 = stat st"
  using invites_only_members [of st st1] by (simp add: stat_def fun_eq_iff invites_only_def)

lemma moved_del_invite:
  assumes ok: "settled U st" and p: "p \<in> U" and a: "a \<in> set (cs_channel st)"
  obtains st1 where "del_invite p a st = Some st1" "moved U st st1" "stat st1 = stat st" "cs_channel st1 = cs_channel st"
proof -
  have u: "is_user st p" using settledD(4) [OF ok] p by simp
  obtain st1 where st1: "del_invite p a st = Some st1" "chans_ok st1" "links_ok st1" "same_but_invites st st1"
    using del_invite_ok [OF settledD(2,3) [OF ok] u a] by metis
  note only = del_invite_only [OF st1(1)]
  have "chan_inv U st1" using settledD(1) [OF ok] st1(2,3,4) by (simp add: chan_inv_def same_but_invites_def members_of_def)
  then show thesis using that [OF st1(1)] movedI [OF ok] invites_only_stat [OF only] only by (simp add: invites_only_def)
qed

lemma moved_add_invite:
  assumes ok: "settled U st" and p: "p \<in> U" and a: "a \<in> set (cs_channel st)" and m: "m \<ge> 1"
  obtains st1 where "add_invite m p a st = Some st1" "moved U st st1" "stat st1 = stat st"
proof -
  have u: "is_user st p" using settledD(4) [OF ok] p by simp
  obtain st1 where st1: "add_invite m p a st = Some st1" "chans_ok st1" "links_ok st1" "same_but_invites st st1"
    using add_invite_ok [OF settledD(2,3) [OF ok] u a m] by metis
  note only = add_invite_only [OF st1(1)]
  have "chan_inv U st1" using settledD(1) [OF ok] st1(2,3,4) by (simp add: chan_inv_def same_but_invites_def members_of_def)
  then show thesis using that [OF st1(1)] movedI [OF ok] invites_only_stat [OF only] only by (simp add: invites_only_def)
qed

subsection \<open>Members leave and enter\<close>

lemma find_del_member:
  "distinct (map cm_cptr ms) \<Longrightarrow> find_user_member (del_member p ms) q = (if q = p then None else find_user_member ms q)"
  by (induction ms) (auto simp: find_user_member_def find_None_iff image_iff)

lemma remove_user_members:
  assumes "remove_user_from_channel p a st = Some st1"
  shows "ch_members (cs_channels st1 b) = (if b = a then del_member p (ch_members (cs_channels st a)) else ch_members (cs_channels st b))"
    and "same_clients st st1" and "cs_next st1 = cs_next st"
proof -
  obtain s0 where s0: "upd_user p (\<lambda>u. u\<lparr>u_channel := remove1 a (u_channel u), u_joined := u_joined u - 1\<rparr>)
      (upd_chan a (\<lambda>ch. ch\<lparr>ch_members := del_member p (ch_members ch)\<rparr>) st) = Some s0" "sub1_from_channel a s0 = Some st1"
    using assms by (auto simp: remove_user_from_channel_def split: bind_splits)
  let ?s1 = "upd_chan a (\<lambda>ch. ch\<lparr>ch_users := ch_users ch - 1\<rparr>) s0"
  have m: "ch_members (cs_channels ?s1 b) = (if b = a then del_member p (ch_members (cs_channels st a)) else ch_members (cs_channels st b))" for b
    using s0(1) by (auto simp: upd_user_def upd_chan_def split: option.splits)
  have c: "same_clients st ?s1" "cs_next ?s1 = cs_next st"
    using s0(1) by (auto simp: upd_user_def upd_chan_def same_clients_def still_def split: option.splits)
  obtain s2 where s2: "invites_only ?s1 s2 \<or> s2 = ?s1" "cs_channels st1 = cs_channels s2" "cs_clients st1 = cs_clients s2" "cs_next st1 = cs_next s2"
    using s0(2) by (auto simp: sub1_from_channel_def Let_def split: if_splits) (use del_invites_only in blast)
  show "ch_members (cs_channels st1 b) = (if b = a then del_member p (ch_members (cs_channels st a)) else ch_members (cs_channels st b))"
    using s2(1) unfolding s2(2) m [of b, symmetric] by (auto simp: invites_only_members)
  show "same_clients st st1" "cs_next st1 = cs_next st" using s2 c by (auto simp: invites_only_def same_clients_def)
qed

lemma moved_remove:
  assumes ok: "settled U st" and mem: "IsMember st p a"
  obtains st1 where "remove_user_from_channel p a st = Some st1" "moved U st st1" "stat st1 = (stat st)(p := (stat st p)(a := None))"
    "set (cs_channel st1) \<subseteq> set (cs_channel st)"
proof -
  have u: "is_user st p" using mem by (auto simp: IsMember_def is_user_def split: option.splits)
  have a: "a \<in> set (cs_channel st)" "p \<in> set (members_of st a)" using IsMember_iff [OF settledD(3) [OF ok] u] mem by simp_all
  obtain st1 where r: "remove_user_from_channel p a st = Some st1" "chans_ok st1" "links_ok st1" "is_user st1 = is_user st"
    "set (cs_channel st1) = (if members_of st a = [p] then set (cs_channel st) - {a} else set (cs_channel st))"
    "\<And>b. members_of st1 b = (if b = a then remove1 p (members_of st a) else members_of st b)"
    using remove_user_ok [OF settledD(2,3) [OF ok] u a] by metis
  note R = remove_user_members [OF r(1)]
  have "members_of st1 b \<noteq> []" if "b \<in> set (cs_channel st1)" for b
    using that settledD(7) [OF ok, of b] a(2) by (cases "members_of st a") (auto simp: r(5,6) split: if_splits)
  then have "chan_inv U st1" using settledD(1) [OF ok] r(2,3,4) by (simp add: chan_inv_def)
  moreover have "stat st1 q b = ((stat st)(p := (stat st p)(a := None))) q b" for q b
  proof -
    have "distinct (map cm_cptr (ch_members (cs_channels st a)))"
      using settledD(3) [OF ok] a(1) by (simp add: links_ok_def chan_links_ok_def members_of_def)
    moreover have "stat st q a = None" if "members_of st a = [p]" "q \<noteq> p" using that by (auto simp: stat_None)
    ultimately show ?thesis by (auto simp: stat_def R(1) find_del_member r(5) split: if_splits)
  qed
  ultimately show thesis using that [OF r(1)] movedI [OF ok _ R(2)] R(3) r(5) by (auto simp: fun_eq_iff)
qed

lemma moved_add_user:
  assumes ok: "settled U st" and p: "p \<in> U" and a: "a \<in> set (cs_channel st)" and new: "\<not> IsMember st p a"
  shows "moved U st (add_user_to_channel a p f st)"
    "stat (add_user_to_channel a p f st) = (stat st)(p := (stat st p)(a := Some (f AND STATUS_BITS)))"
    "cs_channel (add_user_to_channel a p f st) = cs_channel st"
proof -
  let ?st = "add_user_to_channel a p f st"
  have u: "is_user st p" using settledD(4) [OF ok] p by simp
  have np: "p \<notin> set (members_of st a)" using IsMember_iff [OF settledD(3) [OF ok] u, of a] a new by simp
  note A = add_user_ok [OF settledD(2,3) [OF ok] u a np, of f]
  have m: "ch_members (cs_channels ?st b) = (if b = a then \<lparr>cm_cptr = p, cm_flags = f, cm_banserial = ch_banserial (cs_channels st a)\<rparr> # ch_members (cs_channels st a)
      else ch_members (cs_channels st b))" for b
    using u by (auto simp: add_user_to_channel_def upd_user_eq chan_simps)
  have "same_clients st ?st" using u by (simp add: add_user_to_channel_def upd_user_eq same_clients_def chan_simps) (simp add: set_user_def still_def)
  moreover have "chan_inv U ?st" using settledD(1) [OF ok] A(1-5) by (simp add: chan_inv_def)
  moreover have "cs_next ?st = cs_next st" using u by (simp add: add_user_to_channel_def upd_user_eq chan_simps)
  ultimately show "moved U st ?st" by (intro movedI [OF ok]) simp_all
  show "cs_channel ?st = cs_channel st" by (rule A(4))
  then show "stat ?st = (stat st)(p := (stat st p)(a := Some (f AND STATUS_BITS)))"
    using a by (auto simp: stat_def fun_eq_iff m find_user_member_def)
qed

text \<open>A new channel and its first member; the state between the two has an empty channel.\<close>

lemma moved_new_channel:
  fixes f :: u32 and NOW :: time_t
  assumes ok: "settled U st" and p: "p \<in> U" and new: "find_channel st n = None"
    and q: "quiet_chan (cs_channels (new_channel NOW n st) (cs_next st)) ch"
  defines "st1 \<equiv> add_user_to_channel (cs_next st) p f (upd_chan (cs_next st) (\<lambda>_. ch) (new_channel NOW n st))"
  shows "moved U st st1" "stat st1 = (stat st)(p := (stat st p)(cs_next st := Some (f AND STATUS_BITS)))"
    "cs_channel st1 = cs_next st # cs_channel st" "cs_next st \<notin> set (cs_channel st)"
proof -
  let ?a = "cs_next st" and ?s1 = "new_channel NOW n st"
  let ?s2 = "upd_chan ?a (\<lambda>_. ch) ?s1"
  note C = new_channel_ok [OF settledD(2,3) [OF ok] new, where NOW = NOW]
  note Q = quiet_upd_chan [where a = ?a and f = "\<lambda>_. ch", OF C(1,2) q]
  show fresh: "?a \<notin> set (cs_channel st)" using settledD(2) [OF ok] by (auto simp: chans_ok_def)
  have a: "?a \<in> set (cs_channel ?s2)" "p \<notin> set (members_of ?s2 ?a)" "is_user ?s2 p"
    using settledD(4) [OF ok, of p] p by (simp_all add: Q(3) chan_simps C(3,5,6))
  note A = add_user_ok [OF Q(1,2) a(3,1,2), of f, folded st1_def]
  show l: "cs_channel st1 = ?a # cs_channel st" by (simp add: A(4) chan_simps C(5))
  have "members_of st1 b \<noteq> []" if "b \<in> set (cs_channel st1)" for b
    using that settledD(7) [OF ok, of b] C(8) [of b] by (auto simp: l A(5) Q(3) C(6)) (auto simp: members_of_def)
  then have "chan_inv U st1" using settledD(1) [OF ok] A(1,2) by (simp add: chan_inv_def A(3) chan_simps C(3))
  moreover have "same_clients st st1" using a(3)
    by (simp add: st1_def add_user_to_channel_def upd_user_eq same_clients_def chan_simps) (simp add: set_user_def still_def new_channel_def chan_simps)
  moreover have "cs_next st1 = cs_next st + 1" using a(3)
    by (simp add: st1_def add_user_to_channel_def upd_user_eq chan_simps) (simp add: new_channel_def)
  ultimately show "moved U st st1" by (intro movedI [OF ok]) simp_all
  have m: "ch_members (cs_channels st1 b) =
      (if b = ?a then [\<lparr>cm_cptr = p, cm_flags = f, cm_banserial = ch_banserial ch\<rparr>] else ch_members (cs_channels st b))" if "b \<in> set (cs_channel st1)" for b
  proof -
    have b: "b = ?a \<or> b \<in> set (cs_channel st)" using that l by auto
    have "ch_members ch = []" using quiet_chan_cptrs [OF q] C(6) by (simp add: members_of_def)
    then show ?thesis using a(3) b C(8) [of b] fresh by (auto simp: st1_def add_user_to_channel_def upd_user_eq chan_simps)
  qed
  show "stat st1 = (stat st)(p := (stat st p)(?a := Some (f AND STATUS_BITS)))"
    using fresh by (auto simp: stat_def fun_eq_iff m find_user_member_def l)
qed

end
