(* ===== verification/Cmd_Safety.thy ===== *)
theory Cmd_Safety
  imports Cmd_Frames
begin

section \<open>The channel commands are safe (src/src/channel.c)\<close>

text \<open>
  JOIN, SAJOIN, PART, KICK, TOPIC and INVITE keep a settled state settled and end without a fault; what
  each of them may do to the status of the members is stated with \<open>stat\<close>.
  \<open>yields r Q\<close> says that a handler has a result and that \<open>Q\<close> holds of the state in it.
\<close>

definition yields :: "(chan_state \<times> out_msg list) option \<Rightarrow> (chan_state \<Rightarrow> bool) \<Rightarrow> bool" where
  "yields r Q \<longleftrightarrow> (\<exists>st out. r = Some (st, out) \<and> Q st)"

named_theorems yield_rules

lemma yields_Some [yield_rules]: "Q st \<Longrightarrow> yields (Some (st, out)) Q"
  by (simp add: yields_def)

lemma yields_map [yield_rules]: "yields r Q \<Longrightarrow> yields (map_option (\<lambda>(st, out). (st, g st out)) r) Q"
  by (auto simp: yields_def)

lemma yields_if: "(b \<Longrightarrow> yields x Q) \<Longrightarrow> (\<not> b \<Longrightarrow> yields y Q) \<Longrightarrow> yields (if b then x else y) Q"
  by simp

lemma yields_bind: "yields r Q \<Longrightarrow> (\<And>st out. Q st \<Longrightarrow> yields (f (st, out)) R) \<Longrightarrow> yields (Option.bind r f) R"
  by (auto simp: yields_def)

lemma yields_mono: "yields r Q \<Longrightarrow> (\<And>st. Q st \<Longrightarrow> R st) \<Longrightarrow> yields r R"
  by (auto simp: yields_def)

lemma yields_each:
  assumes "Q st" and "\<And>x st. x \<in> set xs \<Longrightarrow> Q st \<Longrightarrow> yields (f x st) Q"
  shows "yields (each_name f xs st) Q"
  using assms
proof (induction xs arbitrary: st)
  case (Cons x xs)
  then show ?case by (auto intro!: yields_bind [where Q = Q] yield_rules)
qed (simp add: yields_def)

subsection \<open>Lists of names\<close>

definition plain_word :: "cstr \<Rightarrow> bool" where
  "plain_word w \<longleftrightarrow> w \<noteq> [] \<and> CHR '','' \<notin> set w"

lemma strtokens_nil [simp]: "strtokens fs [] = []"
  by (simp add: strtokens.simps strtoken_def)

lemma strtoken_drop:
  "strtoken fs s =
     (if dropWhile (\<lambda>c. c = fs) s = [] then None
      else Some (takeWhile (\<lambda>c. c \<noteq> fs) (dropWhile (\<lambda>c. c = fs) s),
        case dropWhile (\<lambda>c. c \<noteq> fs) (dropWhile (\<lambda>c. c = fs) s) of [] \<Rightarrow> None | _ # r \<Rightarrow> Some r))"
  unfolding strtoken_def by (cases "dropWhile (\<lambda>c. c = fs) s") (simp_all del: dropWhile_eq_Nil_conv)

lemma strtoken_SomeD:
  assumes "strtoken fs s = Some (t, r)"
  shows "t \<noteq> [] \<and> fs \<notin> set t \<and> (\<exists>lead. s = lead @ t @ (case r of None \<Rightarrow> [] | Some u \<Rightarrow> fs # u))"
proof -
  let ?d = "dropWhile (\<lambda>c. c = fs) s"
  have d: "?d \<noteq> []" "t = takeWhile (\<lambda>c. c \<noteq> fs) ?d" "r = (case dropWhile (\<lambda>c. c \<noteq> fs) ?d of [] \<Rightarrow> None | _ # u \<Rightarrow> Some u)"
    using assms unfolding strtoken_drop by (simp_all split: if_splits)
  have "hd ?d \<noteq> fs" using hd_dropWhile [OF d(1)] .
  then have "t \<noteq> []" using d(1) by (cases ?d) (simp_all add: d(2))
  moreover have "fs \<notin> set t" by (auto simp: d(2) dest: set_takeWhileD)
  moreover have "?d = t @ (case r of None \<Rightarrow> [] | Some u \<Rightarrow> fs # u)"
  proof (cases "dropWhile (\<lambda>c. c \<noteq> fs) ?d")
    case Nil
    then have "?d = t" "r = None" using takeWhile_dropWhile_id [of "\<lambda>c. c \<noteq> fs" ?d] by (simp_all only: d(2,3) list.case append_Nil2)
    then show ?thesis by simp
  next
    case (Cons x u)
    then have "x = fs" using hd_dropWhile [of "\<lambda>c. c \<noteq> fs" ?d] by simp
    then have "?d = t @ fs # u" "r = Some u" using Cons takeWhile_dropWhile_id [of "\<lambda>c. c \<noteq> fs" ?d] by (simp_all only: d(2,3) list.case)
    then show ?thesis by simp
  qed
  moreover from this have "s = takeWhile (\<lambda>c. c = fs) s @ t @ (case r of None \<Rightarrow> [] | Some u \<Rightarrow> fs # u)"
    using takeWhile_dropWhile_id [of "\<lambda>c. c = fs" s] by argo
  ultimately show ?thesis by blast
qed

lemma comma_words: "t \<in> set (strtokens CHR '','' s) \<Longrightarrow> plain_word t"
proof (induction "CHR '',''" s rule: strtokens.induct)
  case (1 s)
  show ?case
  proof (cases "strtoken CHR '','' s")
    case None
    then show ?thesis using 1(2) by (simp add: strtokens.simps)
  next
    case (Some x)
    obtain w r where x: "x = (w, r)" by (cases x)
    have w: "plain_word w" using strtoken_SomeD [of "CHR '',''" s w r] Some x by (simp add: plain_word_def)
    show ?thesis
    proof (cases r)
      case None
      then show ?thesis using 1(2) Some x w by (simp add: strtokens.simps [of _ s])
    next
      case (Some u)
      then show ?thesis using 1(1) [of x w r u] 1(2) \<open>strtoken CHR '','' s = Some x\<close> x w by (auto simp: strtokens.simps [of _ s])
    qed
  qed
qed

lemma drop_lead: "w \<noteq> [] \<Longrightarrow> fs \<notin> set w \<Longrightarrow> dropWhile (\<lambda>c. c = fs) (w @ r) = w @ r"
  by (cases w) auto

lemma strtokens_word: "w \<noteq> [] \<Longrightarrow> fs \<notin> set w \<Longrightarrow> strtokens fs w = [w]"
proof -
  assume w: "w \<noteq> []" "fs \<notin> set w"
  then have "takeWhile (\<lambda>c. c \<noteq> fs) w = w" "dropWhile (\<lambda>c. c \<noteq> fs) w = []" by (auto simp: takeWhile_eq_all_conv)
  then have "strtoken fs w = Some (w, None)" using drop_lead [OF w, of "[]"] w(1) by (simp add: strtoken_drop del: dropWhile_eq_Nil_conv)
  then show ?thesis by (simp add: strtokens.simps [of fs w])
qed

lemma strtokens_append: "w \<noteq> [] \<Longrightarrow> fs \<notin> set w \<Longrightarrow> strtokens fs (w @ fs # r) = w # strtokens fs r"
proof -
  assume w: "w \<noteq> []" "fs \<notin> set w"
  then have t: "takeWhile (\<lambda>c. c \<noteq> fs) w = w" "dropWhile (\<lambda>c. c \<noteq> fs) w = []" by (auto simp: takeWhile_eq_all_conv)
  have "takeWhile (\<lambda>c. c \<noteq> fs) (w @ fs # r) = w" "dropWhile (\<lambda>c. c \<noteq> fs) (w @ fs # r) = fs # r"
    using w(2) by (simp_all add: takeWhile_append t dropWhile_append)
  then have "strtoken fs (w @ fs # r) = Some (w, Some r)" using drop_lead [OF w, of "fs # r"] w(1) by (simp add: strtoken_drop del: dropWhile_eq_Nil_conv)
  then show ?thesis by (simp add: strtokens.simps [of fs "w @ fs # r"])
qed

lemma strtokens_commas: "list_all plain_word ws \<Longrightarrow> strtokens CHR '','' (commas ws) = ws"
  by (induction ws rule: commas.induct) (auto simp: plain_word_def strtokens_word strtokens_append)

lemma commas_snoc: "commas (ws @ [w]) = (if ws = [] then w else commas ws @ '','' @ w)"
  by (induction ws rule: commas.induct) auto

definition words_room :: "cstr list \<Rightarrow> nat" where
  "words_room ws = sum_list (map (\<lambda>w. length w + 1) ws)"

lemma tokens_room: "words_room (strtokens fs s) \<le> length s + 1"
proof (induction fs s rule: strtokens.induct)
  case (1 fs s)
  have t: "length t + (case r of None \<Rightarrow> 0 | Some r \<Rightarrow> length r + 1) \<le> length s" if "strtoken fs s = Some (t, r)" for t r
    using strtoken_SomeD [OF that] by (cases r) auto
  show ?case
  proof (cases "strtoken fs s")
    case (Some x)
    obtain w r where x: "x = (w, r)" by (cases x)
    then show ?thesis using Some t [of w r] 1 [of x w r "the r"]
      by (cases r) (simp_all add: strtokens.simps [of fs s] words_room_def)
  qed (simp add: strtokens.simps words_room_def)
qed

lemma first_names_words: "list_all plain_word seen \<Longrightarrow> list_all plain_word ws \<Longrightarrow> list_all plain_word (first_names seen ws)"
  by (induction ws arbitrary: seen) auto

lemma first_names_room: "words_room (first_names seen ws) \<le> words_room seen + words_room ws"
proof (induction ws arbitrary: seen)
  case (Cons w ws)
  have "words_room (first_names seen (w # ws)) \<le> words_room (seen @ [w]) + words_room ws"
    using Cons [of seen] Cons [of "seen @ [w]"] by (auto simp: words_room_def)
  then show ?case by (simp add: words_room_def)
qed simp

lemma canonize_names: "strtokens CHR '','' (canonize s) = first_names [] (strtokens CHR '','' s)"
  unfolding canonize_def by (intro strtokens_commas first_names_words) (auto simp: list_all_iff intro: comma_words)

lemma collect_names_ok:
  assumes "i + words_room names \<le> BUFSIZE" and "jbuf = commas ws" and "ws = [] \<or> length jbuf < i"
    and "\<forall>w\<in>set ws. plain_word w \<and> length w \<le> CHANNELLEN" and "\<forall>w\<in>set names. plain_word w"
  shows "\<exists>ws1 out. collect_names cx parv0 c names jbuf i = Some (commas ws1, out) \<and> (\<forall>w\<in>set ws1. plain_word w \<and> length w \<le> CHANNELLEN)"
  using assms
proof (induction names arbitrary: jbuf i ws)
  case Nil
  then show ?case by auto
next
  case (Cons name0 names)
  let ?name = "take CHANNELLEN name0"
  have skip: ?case if "collect_names cx parv0 c (name0 # names) jbuf i = map_option (\<lambda>(j, o1). (j, out @ o1)) (collect_names cx parv0 c names jbuf i)" for out
    using Cons.IH [of i jbuf ws] Cons.prems that by (fastforce simp: words_room_def)
  have n: "plain_word ?name" "length ?name \<le> CHANNELLEN" "i + length ?name + 1 \<le> BUFSIZE"
    "i + length ?name + 1 + words_room names \<le> BUFSIZE"
    using Cons.prems(1,5) by (auto simp: plain_word_def words_room_def CHANNELLEN_def dest: in_set_takeD)
  have put: ?case if ws1: "ws1 = (if is_zero ?name then [] else ws)"
    and e: "collect_names cx parv0 c (name0 # names) jbuf i =
      (if length (commas (ws1 @ [?name])) < BUFSIZE then map_option (\<lambda>(j, o1). (j, [] @ o1)) (collect_names cx parv0 c names (commas (ws1 @ [?name])) (i + length ?name + 1)) else None)" for ws1
  proof -
    have l: "length (commas (ws1 @ [?name])) < i + length ?name + 1"
      using Cons.prems(2,3) by (auto simp: ws1 commas_snoc)
    moreover have "\<forall>w\<in>set (ws1 @ [?name]). plain_word w \<and> length w \<le> CHANNELLEN" using Cons.prems(4) n(1,2) by (auto simp: ws1)
    ultimately show ?thesis using Cons.IH [of "i + length ?name + 1" "commas (ws1 @ [?name])" "ws1 @ [?name]"] n(3,4) Cons.prems(5) e by auto
  qed
  obtain ok out where k: "check_channelname (cc_me cx) (cc_sptr cx) c name0 = (ok, out)" by fastforce
  have full: "take (BUFSIZE - i - 1) ?name = ?name" using n(3) by (intro take_all) simp
  have ne: "commas ws \<noteq> [] \<longleftrightarrow> ws \<noteq> []" using Cons.prems(4) by (induction ws rule: commas.induct) (auto simp: plain_word_def)
  consider "\<not> ok" | "ok" "\<not> is_zero ?name" "\<not> char_at ?name 0 CHR ''#''" | "ok" "is_zero ?name \<or> char_at ?name 0 CHR ''#''" by blast
  then show ?case
  proof cases
    case 1
    then show ?thesis using k by (intro skip [of out]) simp
  next
    case 2
    then show ?thesis using k by (intro skip) simp
  next
    case 3
    then show ?thesis using k n(3) full ne Cons.prems(2) by (intro put [OF refl]) (auto simp: Let_def commas_snoc)
  qed
qed

subsection \<open>Questions to a channel change nothing that matters\<close>

lemma banned_status:
  "((f AND NOT CHFL_BANNED) OR CHFL_BANNED) AND STATUS_BITS = f AND STATUS_BITS" "(f AND NOT CHFL_BANNED) AND STATUS_BITS = f AND STATUS_BITS"
proof -
  have "CHFL_BANNED AND STATUS_BITS = 0" by (simp add: STATUS_BITS_def CHFL_BANNED_def CHFL_CHANOP_def CHFL_HALFOP_def CHFL_VOICE_def)
  then have "\<not> (bit CHFL_BANNED n \<and> bit STATUS_BITS n)" for n by (metis bit_0_eq bit_and_iff bot_apply bot_bool_def)
  then show "((f AND NOT CHFL_BANNED) OR CHFL_BANNED) AND STATUS_BITS = f AND STATUS_BITS" "(f AND NOT CHFL_BANNED) AND STATUS_BITS = f AND STATUS_BITS"
    by (auto intro!: bit_word_eqI simp: bit_simps)
qed

lemma find_member_unique:
  "distinct (map cm_cptr ms) \<Longrightarrow> find_user_member ms p = Some m \<Longrightarrow> x \<in> set ms \<Longrightarrow> cm_cptr x = p \<Longrightarrow> x = m"
  by (induction ms) (auto simp: find_user_member_def image_iff split: if_splits)

lemma find_member_cptr: "find_user_member ms p = Some m \<Longrightarrow> m \<in> set ms \<and> cm_cptr m = p"
  by (induction ms) (auto simp: find_user_member_def split: if_splits)

lemma set_member_quiet:
  assumes "distinct (map cm_cptr (ch_members ch))" and "find_user_member (ch_members ch) p = Some m"
    and "cm_cptr m1 = cm_cptr m" and "cm_flags m1 AND STATUS_BITS = cm_flags m AND STATUS_BITS"
  shows "quiet_chan ch (set_member m1 ch)"
  using assms find_member_unique [OF assms(1,2)] find_member_cptr [OF assms(2)] by (auto simp: quiet_chan_def set_member_def)

lemma can_send_quiet:
  assumes "distinct (map cm_cptr (ch_members ch))" and "can_send p c ch msg = (e, ch1)"
  shows "quiet_chan ch ch1"
proof -
  have b: "m1 = m \<or> cm_cptr m1 = cm_cptr m \<and> cm_flags m1 AND STATUS_BITS = cm_flags m AND STATUS_BITS"
    if "snd (is_banned c ch (Some m)) = Some m1" for m m1
    using that banned_status by (auto simp: is_banned_def Let_def split: option.splits if_splits)
  show ?thesis
  proof (cases "find_user_member (ch_members ch) p")
    case None
    then show ?thesis using assms(2) by (simp add: can_send_def Let_def split: if_splits)
  next
    case (Some m)
    then have "ch1 = ch \<or> ch1 = (case snd (is_banned c ch (Some m)) of None \<Rightarrow> ch | Some m1 \<Rightarrow> set_member m1 ch)"
      using assms(2) by (simp add: can_send_def Let_def split: if_splits)
    then show ?thesis using set_member_quiet [OF assms(1) Some] b [of m] by (auto split: option.splits)
  qed
qed

lemma joinrate_quiet: "check_joinrate NOW ts loc c u ch = (r, ch1, out) \<Longrightarrow> quiet_chan ch ch1"
  by (auto simp: check_joinrate_def default_rate_def quiet_chan_def Let_def split: if_splits)

lemma can_join_quiet: "can_join me_name ra NOW p c u a ch key = (e, ch1, out) \<Longrightarrow> quiet_chan ch ch1"
  by (auto simp: can_join_def Let_def split: if_splits prod.splits dest: joinrate_quiet)

lemma whynot_quiet: "can_join_whynot NOW c u a ch key = (e, ch1, out) \<Longrightarrow> quiet_chan ch ch1"
  by (auto simp: can_join_whynot_def Let_def split: if_splits prod.splits dest: joinrate_quiet)

lemma settled_distinct: "settled U st \<Longrightarrow> a \<in> set (cs_channel st) \<Longrightarrow> distinct (map cm_cptr (ch_members (cs_channels st a)))"
  using settledD(3) [of U st] by (simp add: links_ok_def chan_links_ok_def members_of_def)

lemma member_live: "settled U st \<Longrightarrow> IsMember st p a \<Longrightarrow> a \<in> set (cs_channel st)"
  using IsMember_stat [of U st p a] by (auto simp: stat_def split: if_splits)

lemma find_live: "settled U st \<Longrightarrow> find_channel st n = Some a \<Longrightarrow> a \<in> set (cs_channel st)"
  using find_channel_iff [OF settledD(2)] by blast

lemma get_channel_False: "get_channel NOW p n False st = Some (r, d, st1) \<Longrightarrow> st1 = st \<and> (\<forall>a. r = Some a \<longrightarrow> find_channel st (cut_name (cs_clients st p) n) = Some a)"
  by (auto simp: get_channel_def cut_name_def Let_def split: if_splits option.splits)

lemma get_channel_False_ends: "\<exists>r. get_channel NOW p n False st = Some (r, False, st)"
  by (auto simp: get_channel_def Let_def split: option.split)

subsection \<open>PART\<close>

lemma moved_count_leave:
  assumes ok: "settled U st" and p: "cc_sptr cx \<in> U"
  shows "yields (count_leave cx st) (\<lambda>st1. moved U st st1 \<and> stat st1 = stat st)"
proof -
  have "c_user (from_client cx st) \<noteq> None" using settledD(4) [OF ok, of "cc_sptr cx"] p by (simp add: is_user_def from_client_def)
  then show ?thesis using moved_upd_client [OF ok] moved_refl [OF ok]
    by (auto simp: count_leave_def Let_def yields_def still_def)
qed

text \<open>Nobody but the client itself is concerned, and it can only leave.\<close>

definition leaves :: "addr \<Rightarrow> chan_state \<Rightarrow> chan_state \<Rightarrow> bool" where
  "leaves p st st1 \<longleftrightarrow> (\<forall>q a. stat st1 q a = stat st q a \<or> q = p \<and> stat st1 q a = None)"

lemma leaves_refl [simp]: "leaves p st st"
  by (simp add: leaves_def)

lemma leaves_same: "stat st2 = stat st1 \<Longrightarrow> leaves p st st1 \<Longrightarrow> leaves p st st2"
  by (simp add: leaves_def)

lemma leaves_trans: "leaves p a b \<Longrightarrow> leaves p b c \<Longrightarrow> leaves p a c"
  unfolding leaves_def by metis

lemma yields_remove:
  assumes ok: "settled U st" and mem: "IsMember st p a"
    and Q: "\<And>st1. moved U st st1 \<Longrightarrow> stat st1 = (stat st)(p := (stat st p)(a := None)) \<Longrightarrow> Q st1"
  shows "yields (map_option (\<lambda>st. (st, out)) (remove_user_from_channel p a st)) Q"
  using moved_remove [OF ok mem] Q by (fastforce simp: yields_def)

lemma moved_part_one:
  assumes ok: "settled U st"
  shows "yields (part_one cx parv0 reason n st) (\<lambda>st1. moved U st st1 \<and> leaves (cc_sptr cx) st st1)"
proof -
  obtain r where g: "get_channel (cc_now cx) (cc_sptr cx) n False st = Some (r, False, st)" using get_channel_False_ends by blast
  have post: "moved U st st0 \<Longrightarrow> stat st0 = stat st \<Longrightarrow> moved U st0 st1 \<Longrightarrow>
      stat st1 = (stat st0)(cc_sptr cx := (stat st0 (cc_sptr cx))(a := None)) \<Longrightarrow> moved U st st1 \<and> leaves (cc_sptr cx) st st1" for a st0 st1
    by (auto simp: leaves_def intro: moved_trans)
  show ?thesis
  proof (cases "\<exists>a. r = Some a \<and> IsMember st (cc_sptr cx) a")
    case False
    then show ?thesis using g moved_refl [OF ok] by (cases r) (auto simp: part_one_def Let_def yields_def)
  next
    case True
    then obtain a where a: "r = Some a" "IsMember st (cc_sptr cx) a" by blast
    show ?thesis
    proof (cases reason)
      case None
      show ?thesis using g a None
        by (auto simp: part_one_def Let_def intro!: yields_remove [OF ok a(2)] post [OF moved_refl [OF ok] refl])
    next
      case (Some s)
      obtain e1 ch1 where c1: "can_send (cc_sptr cx) (from_client cx st) (cs_channels st a) reason = (e1, ch1)" by fastforce
      obtain e2 ch2 where c2: "can_send (cc_sptr cx) (from_client cx st) ch1 reason = (e2, ch2)" by fastforce
      have d: "distinct (map cm_cptr (ch_members (cs_channels st a)))" by (rule settled_distinct [OF ok member_live [OF ok a(2)]])
      have q: "quiet_chan (cs_channels st a) ch2"
        using can_send_quiet [OF d c1] can_send_quiet [OF _ c2] quiet_chan_cptrs d quiet_chan_trans by metis
      note M = moved_upd_chan [where f = "\<lambda>_. ch2", OF ok q]
      have "IsMember (upd_chan a (\<lambda>_. ch2) st) (cc_sptr cx) a" using a(2) by (simp add: IsMember_def chan_simps)
      from yields_remove [OF moved_settled [OF M(1)] this post [OF M]] show ?thesis using g a Some c1 c2
        by (simp add: part_one_def Let_def)
    qed
  qed
qed

lemma moved_m_part:
  assumes ok: "settled U st" and p: "cc_sptr cx \<in> U"
  shows "yields (m_part cx parv st) (\<lambda>st1. moved U st st1 \<and> leaves (cc_sptr cx) st st1)"
proof -
  let ?Q = "\<lambda>st1. moved U st st1 \<and> leaves (cc_sptr cx) st st1"
  have one: "yields (part_one cx parv0 reason n st1) ?Q" if "?Q st1" for parv0 reason n st1
    using moved_part_one [OF moved_settled, of U st st1 cx parv0 reason n] that
    by (auto elim!: yields_mono intro: moved_trans leaves_trans)
  have q: "?Q st" using moved_refl [OF ok] by simp
  have "yields (if ns = [] then Some (st, []) else count_leave cx st) ?Q" for ns :: "cstr list"
    using q moved_count_leave [OF ok p] by (auto simp: leaves_def elim!: yields_mono intro: yields_Some)
  then have "yields (Option.bind (if ns = [] then Some (st, []) else count_leave cx st) (\<lambda>(st, out).
      map_option (\<lambda>(st, out1). (st, out @ out1)) (each_name (part_one cx parv0 reason) ns st))) ?Q" for ns parv0 reason
    by (rule yields_bind) (auto intro!: yield_rules yields_each one)
  then show ?thesis using q by (simp add: m_part_def Let_def yields_Some)
qed

subsection \<open>KICK\<close>

text \<open>
  Who may throw out whom: an operator anybody, a half operator only those that are neither
  operator nor half operator; servers, services and clients of other servers are believed.
\<close>

definition trusted :: "aClient \<Rightarrow> bool" where
  "trusted c \<longleftrightarrow> IsServer c \<or> IsULine c \<or> \<not> MyConnect c"

definition may_remove :: "(addr \<Rightarrow> addr \<Rightarrow> u32 option) \<Rightarrow> addr \<Rightarrow> addr \<Rightarrow> addr \<Rightarrow> bool" where
  "may_remove V p q a \<longleftrightarrow>
     (case (V p a, V q a) of
        (Some f, Some g) \<Rightarrow>
          has_flag f CHFL_CHANOP \<or> has_flag f CHFL_HALFOP \<and> \<not> has_flag g CHFL_CHANOP \<and> \<not> has_flag g CHFL_HALFOP
      | _ \<Rightarrow> False)"

definition kicked :: "bool \<Rightarrow> addr \<Rightarrow> chan_state \<Rightarrow> chan_state \<Rightarrow> bool" where
  "kicked t p st st1 \<longleftrightarrow>
     (\<forall>q a. stat st1 q a = stat st q a \<or> stat st1 q a = None \<and> (t \<or> may_remove (stat st) p q a))"

lemma kicked_refl [simp]: "kicked t p st st"
  by (simp add: kicked_def)

lemma kicked_trans:
  assumes a: "kicked t p st st1" and b: "kicked t p st1 st2"
  shows "kicked t p st st2"
  unfolding kicked_def
proof (intro allI)
  fix q a
  show "stat st2 q a = stat st q a \<or> stat st2 q a = None \<and> (t \<or> may_remove (stat st) p q a)"
  proof (cases "stat st1 q a = stat st q a")
    case False
    then show ?thesis using assms unfolding kicked_def by metis
  next
    case True
    have "may_remove (stat st) p q a" if "may_remove (stat st1) p q a"
    proof -
      have "stat st1 p a \<noteq> None" using that by (auto simp: may_remove_def split: option.splits)
      then have "stat st1 p a = stat st p a" using a unfolding kicked_def by metis
      then show ?thesis using that True by (simp add: may_remove_def)
    qed
    then show ?thesis using b True unfolding kicked_def by metis
  qed
qed

lemma status_bits: "(f AND STATUS_BITS) AND CHFL_CHANOP = f AND CHFL_CHANOP" "(f AND STATUS_BITS) AND CHFL_HALFOP = f AND CHFL_HALFOP"
proof -
  have "STATUS_BITS AND CHFL_CHANOP = CHFL_CHANOP" "STATUS_BITS AND CHFL_HALFOP = CHFL_HALFOP"
    by (simp_all add: STATUS_BITS_def CHFL_CHANOP_def CHFL_HALFOP_def CHFL_VOICE_def)
  then show "(f AND STATUS_BITS) AND CHFL_CHANOP = f AND CHFL_CHANOP" "(f AND STATUS_BITS) AND CHFL_HALFOP = f AND CHFL_HALFOP"
    by (simp_all add: and.assoc)
qed

lemma op_stat:
  assumes "a \<in> set (cs_channel st)"
  shows "is_chan_op p (Some (cs_channels st a)) \<noteq> 0 \<longleftrightarrow> (\<exists>f. stat st p a = Some f \<and> has_flag f CHFL_CHANOP)"
    "is_halfop p (Some (cs_channels st a)) \<noteq> 0 \<longleftrightarrow> (\<exists>f. stat st p a = Some f \<and> has_flag f CHFL_HALFOP)"
  using assms by (auto simp: is_chan_op_def is_halfop_def member_flag_def stat_def has_flag_def status_bits split: option.split)

text \<open>
  One nickname of the list.  \<open>st0\<close> is the state in which the right to kick was tested; in the meantime the kicker may have
  thrown out itself, which only an operator can.
\<close>

lemma moved_kick_user:
  assumes st: "moved U st0 st" "kicked t p st0 st" and p: "p = cc_sptr cx" and a: "a \<in> set (cs_channel st0)"
    and right: "t \<or> (\<exists>f. stat st0 p a = Some f \<and> (has_flag f CHFL_CHANOP \<or> has_flag f CHFL_HALFOP))"
  shows "yields (kick_user cx parv0 comment a name user st) (\<lambda>st1. moved U st0 st1 \<and> kicked t p st0 st1)"
proof -
  note ok = moved_settled [OF st(1)]
  obtain w b out where f: "find_chasing (cc_mode cx) (cs_clients st) user = (w, b, out)" by (cases "find_chasing (cc_mode cx) (cs_clients st) user")
  show ?thesis
  proof (cases "\<exists>who. w = Some who \<and> IsMember st who a \<and>
      \<not> (is_only_halfop p (Some (cs_channels st a)) \<noteq> 0 \<and>
         (is_chan_op who (Some (cs_channels st a)) \<noteq> 0 \<or> is_halfop who (Some (cs_channels st a)) \<noteq> 0))")
    case False
    then show ?thesis using f st by (cases w) (auto simp: kick_user_def Let_def yields_def p)
  next
    case True
    then obtain who where w: "w = Some who" "IsMember st who a" and g: "\<not> (is_only_halfop p (Some (cs_channels st a)) \<noteq> 0 \<and>
         (is_chan_op who (Some (cs_channels st a)) \<noteq> 0 \<or> is_halfop who (Some (cs_channels st a)) \<noteq> 0))" by blast
    note live = member_live [OF ok w(2)]
    have S: "stat st who a = stat st0 who a" "stat st who a \<noteq> None"
      using st(2) IsMember_stat [OF ok] w(2) unfolding kicked_def by metis+
    have may: "t \<or> may_remove (stat st0) p who a"
    proof (cases "t")
      case False
      then obtain f where f: "stat st0 p a = Some f" "has_flag f CHFL_CHANOP \<or> has_flag f CHFL_HALFOP" using right by blast
      consider "stat st p a = stat st0 p a" | "stat st p a = None" "may_remove (stat st0) p p a"
        using st(2) False unfolding kicked_def by metis
      then show ?thesis
      proof cases
        case 1
        then show ?thesis using g f S op_stat [OF live, of p] op_stat [OF live, of who] by (auto simp: may_remove_def is_only_halfop_def split: option.splits)
      next
        case 2
        then show ?thesis using f S by (auto simp: may_remove_def split: option.splits)
      qed
    qed simp
    have "kicked t p st0 st1" if "stat st1 = (stat st)(who := (stat st who)(a := None))" for st1
      using st(2) may unfolding kicked_def that by (simp add: S(1))
    then have "yields (map_option (\<lambda>st. (st, o1)) (remove_user_from_channel who a st)) (\<lambda>st1. moved U st0 st1 \<and> kicked t p st0 st1)" for o1
      using moved_trans [OF st(1)] by (intro yields_remove [OF ok w(2)]) blast
    then show ?thesis using f w g by (auto simp: kick_user_def Let_def p)
  qed
qed

lemma moved_kick_channels:
  assumes "moved U st0 st" "kicked t p st0 st" and p: "p = cc_sptr cx" and t: "trusted (cs_clients st0 p) \<Longrightarrow> t"
  shows "yields (kick_channels cx parv0 comment users names st) (\<lambda>st1. moved U st0 st1 \<and> kicked t p st0 st1)"
  using assms(1,2)
proof (induction names arbitrary: users st)
  case Nil
  then show ?case by (simp add: yields_def)
next
  case (Cons n names)
  note ok = moved_settled [OF Cons.prems(1)]
  obtain r where g: "get_channel (cc_now cx) (cc_sptr cx) n False st = Some (r, False, st)" using get_channel_False_ends by blast
  have nxt: "yields (Option.bind x (\<lambda>(st, out). map_option (\<lambda>(st, out1). (st, out @ out1)) (kick_channels cx parv0 comment us names st)))
      (\<lambda>st1. moved U st0 st1 \<and> kicked t p st0 st1)" if "yields x (\<lambda>st1. moved U st0 st1 \<and> kicked t p st0 st1)" for x us
    using that by (rule yields_bind) (auto intro!: yield_rules Cons.IH)
  show ?case
  proof (cases "\<exists>a. r = Some a \<and> may_kick p (from_client cx st) (cs_channels st a)")
    case False
    then show ?thesis using g Cons.IH [OF Cons.prems, unfolded p] by (cases r) (auto simp: Let_def p intro!: yields_map)
  next
    case True
    then obtain a where a: "r = Some a" "may_kick p (from_client cx st) (cs_channels st a)" by blast
    have live: "a \<in> set (cs_channel st)" using get_channel_False [OF g] a(1) find_live [OF ok] by blast
    have "same_clients st0 st" using Cons.prems(1) by (simp add: moved_def)
    then have "trusted (from_client cx st) \<Longrightarrow> t" using t by (simp add: trusted_def from_client_def same_clients_iff p)
    then have right: "t \<or> (\<exists>f. stat st p a = Some f \<and> (has_flag f CHFL_CHANOP \<or> has_flag f CHFL_HALFOP))"
      using a(2) op_stat [OF live, of p] unfolding may_kick_def trusted_def by blast
    let ?Q = "\<lambda>st1. moved U st st1 \<and> kicked t p st st1"
    have "yields (each_name (kick_user cx parv0 comment a (cut_name (from_client cx st) n)) (take 4 users) st) ?Q"
      using moved_refl [OF ok] by (intro yields_each) (auto intro!: moved_kick_user [OF _ _ p live right])
    then have "yields (each_name (kick_user cx parv0 comment a (cut_name (from_client cx st) n)) (take 4 users) st)
        (\<lambda>st1. moved U st0 st1 \<and> kicked t p st0 st1)"
      using Cons.prems by (auto elim!: yields_mono intro: moved_trans kicked_trans)
    from nxt [OF this, of "take 1 users"] show ?thesis using g a by (simp add: Let_def p)
  qed
qed

lemma moved_m_kick:
  assumes ok: "settled U st"
  shows "yields (m_kick cx parv st) (\<lambda>st1. moved U st st1 \<and> kicked (trusted (cs_clients st (cc_sptr cx))) (cc_sptr cx) st st1)"
  using moved_refl [OF ok] moved_kick_channels [OF moved_refl [OF ok] kicked_refl refl, of cx "trusted (cs_clients st (cc_sptr cx))"]
  by (auto simp: m_kick_def Let_def option.map_id intro!: yield_rules)

subsection \<open>TOPIC and INVITE\<close>

lemma moved_m_topic:
  assumes ok: "settled U st" and p: "cc_sptr cx \<in> U" and n: "length parv > 3 \<Longrightarrow> length (parv ! 2) \<le> NICKLEN"
  shows "yields (m_topic cx parv st) (\<lambda>st1. moved U st st1 \<and> stat st1 = stat st)"
proof -
  let ?Q = "\<lambda>st1. moved U st st1 \<and> stat st1 = stat st"
  have q: "yields (Some (st, out)) ?Q" for out using moved_refl [OF ok] by (simp add: yields_def)
  have set: "yields (Some (upd_chan a (\<lambda>ch. ch\<lparr>ch_topic := t, ch_topic_nick := k, ch_topic_time := ts\<rparr>) st, out)) ?Q" for a t k ts out
    using moved_upd_chan [OF ok, of a "\<lambda>ch. ch\<lparr>ch_topic := t, ch_topic_nick := k, ch_topic_time := ts\<rparr>"] by (simp add: yields_def quiet_chan_def)
  have "length (c_name (from_client cx st)) \<le> NICKLEN" using settledD(6) [OF ok p] by (simp add: from_client_def)
  then have k: "\<not> length (if \<not> MyClient (from_client cx st) \<and> length parv > 3 then parv ! 2 else c_name (from_client cx st)) > NICKLEN"
    using n by auto
  then show ?thesis unfolding m_topic_def Let_def
    by (cases "find_channel st (parv ! 1)") (simp_all only: option.case, (intro yields_if q set | blast)+)
qed

lemma find_person_user: "settled U st \<Longrightarrow> find_person (cs_clients st) tab n = Some w \<Longrightarrow> w \<in> U"
  using settledD(5) by (auto simp: find_person_def split: option.splits if_splits)

lemma moved_m_invite:
  assumes ok: "settled U st" and m: "cc_maxchannels cx \<ge> 1"
  shows "yields (m_invite cx parv st) (\<lambda>st1. moved U st st1 \<and> stat st1 = stat st)"
proof -
  let ?Q = "\<lambda>st1. moved U st st1 \<and> stat st1 = stat st"
  have q: "yields (Some (st, out)) ?Q" for out using moved_refl [OF ok] by (simp add: yields_def)
  show ?thesis
  proof (cases "find_person (cs_clients st) (mc_table (cc_mode cx)) (parv ! 1)")
    case None
    then show ?thesis using q by (simp add: m_invite_def Let_def)
  next
    case (Some w)
    have w: "w \<in> U" by (rule find_person_user [OF ok Some])
    then obtain u where u: "c_user (cs_clients st w) = Some u" using settledD(4) [OF ok, of w] by (auto simp: is_user_def)
    have inv: "yields (map_option (\<lambda>st1. (st1, out st1)) (add_invite (cc_maxchannels cx) w a st)) ?Q" if "find_channel st n = Some a" for out a n
      using moved_add_invite [OF ok w find_live [OF ok that] m] by (fastforce simp: yields_def)
    show ?thesis
    proof (cases "find_channel st (parv ! 2)")
      case None
      then show ?thesis using Some q by (simp add: m_invite_def Let_def u)
    next
      case (Some a)
      then show ?thesis using \<open>find_person _ _ _ = Some w\<close> q inv [OF Some]
        by (simp add: m_invite_def Let_def u yields_map)
    qed
  qed
qed

subsection \<open>JOIN and SAJOIN\<close>

text \<open>
  Nobody but the client is concerned.  In the channels that were there it keeps its status, or is in without
  status, or out.
\<close>

definition joined :: "addr \<Rightarrow> chan_state \<Rightarrow> chan_state \<Rightarrow> bool" where
  "joined p st st1 \<longleftrightarrow>
     (\<forall>q a. q \<noteq> p \<longrightarrow> stat st1 q a = stat st q a) \<and>
     (\<forall>a\<in>set (cs_channel st). stat st1 p a \<in> {None, Some 0, stat st p a})"

lemma joined_same: "stat st2 = stat st1 \<Longrightarrow> joined p st st1 \<Longrightarrow> joined p st st2"
  by (simp add: joined_def)

lemma joined_set:
  "joined p st st1 \<Longrightarrow> stat st2 = (stat st1)(p := (stat st1 p)(a := x)) \<Longrightarrow> a \<notin> set (cs_channel st) \<or> x \<in> {None, Some 0} \<Longrightarrow> joined p st st2"
  by (auto simp: joined_def)

lemma joined_refl [simp]: "joined p st st"
  by (simp add: joined_def)

lemma moved_m_sajoin:
  assumes ok: "settled U st" and p: "cc_sptr cx \<in> U"
  shows "yields (m_sajoin cx parv st) (\<lambda>st1. moved U st st1 \<and> joined (cc_sptr cx) st st1)"
proof -
  let ?p = "cc_sptr cx" and ?Q = "\<lambda>st1. moved U st st1 \<and> joined (cc_sptr cx) st st1"
  have q: "yields (Some (st, out)) ?Q" for out using moved_refl [OF ok] by (simp add: yields_def)
  obtain u where u: "c_user (from_client cx st) = Some u" using settledD(4) [OF ok, of ?p] p by (auto simp: is_user_def from_client_def)
  show ?thesis
  proof (cases "\<exists>a. find_channel st (parv ! 1) = Some a \<and> \<not> IsMember st ?p a")
    case False
    then show ?thesis using q by (cases "find_channel st (parv ! 1)") (simp_all add: m_sajoin_def Let_def)
  next
    case True
    then obtain a where a: "find_channel st (parv ! 1) = Some a" "\<not> IsMember st ?p a" by blast
    obtain why ch out where w: "can_join_whynot (cc_now cx) (from_client cx st) u a (cs_channels st a) None = (why, ch, out)"
      by (cases "can_join_whynot (cc_now cx) (from_client cx st) u a (cs_channels st a) None")
    note M = moved_upd_chan [where f = "\<lambda>_. ch", OF ok whynot_quiet [OF w]]
    have a1: "a \<in> set (cs_channel (upd_chan a (\<lambda>_. ch) st))" "\<not> IsMember (upd_chan a (\<lambda>_. ch) st) ?p a"
      using find_live [OF ok a(1)] a(2) by (simp_all add: chan_simps IsMember_def)
    note A = moved_add_user [OF moved_settled [OF M(1)] p a1, of 0]
    have "?Q (add_user_to_channel a ?p 0 (upd_chan a (\<lambda>_. ch) st))"
      using moved_trans [OF M(1) A(1)] A(2) by (auto intro!: joined_set [OF joined_refl] simp: M(2))
    then have "yields (Some (add_user_to_channel a ?p 0 (upd_chan a (\<lambda>_. ch) st), o1)) ?Q" for o1 by (simp add: yields_def)
    then show ?thesis using q a u w by (simp add: m_sajoin_def Let_def)
  qed
qed

definition run_ok :: "addr set \<Rightarrow> addr \<Rightarrow> chan_state \<Rightarrow> join_run \<Rightarrow> bool" where
  "run_ok U p st r \<longleftrightarrow> moved U st (jr_st r) \<and> joined p st (jr_st r) \<and> (\<not> MyConnect (cs_clients st p) \<longrightarrow> jr_flags r = 0)"

lemma run_ok_put:
  "run_ok U p st r \<Longrightarrow> moved U (jr_st r) st1 \<Longrightarrow> joined p st st1 \<Longrightarrow> run_ok U p st (jr_put st1 out r)"
  by (auto simp: run_ok_def jr_put_def intro: moved_trans)

lemma run_ok_same:
  "run_ok U p st r \<Longrightarrow> moved U (jr_st r) st1 \<Longrightarrow> stat st1 = stat (jr_st r) \<Longrightarrow> run_ok U p st (jr_put st1 out r)"
  by (rule run_ok_put) (auto simp: run_ok_def intro: joined_same)

text \<open>JOIN 0\<close>

lemma moved_part_all:
  assumes "settled U st" and "distinct chps" and "\<forall>a\<in>set chps. IsMember st (cc_sptr cx) a"
  shows "yields (part_all cx parv0 chps st) (\<lambda>st1. moved U st st1 \<and> leaves (cc_sptr cx) st st1)"
  using assms
proof (induction chps arbitrary: st)
  case Nil
  then show ?case using moved_refl by (simp add: yields_def)
next
  case (Cons a chps)
  let ?p = "cc_sptr cx"
  obtain s1 where s1: "remove_user_from_channel ?p a st = Some s1" "moved U st s1" "stat s1 = (stat st)(?p := (stat st ?p)(a := None))"
    using moved_remove [OF Cons.prems(1)] Cons.prems(3) by (metis list.set_intros(1))
  note ok1 = moved_settled [OF s1(2)]
  have "\<forall>b\<in>set chps. IsMember s1 ?p b"
    using Cons.prems(2,3) by (auto simp: IsMember_stat [OF ok1] IsMember_stat [OF Cons.prems(1)] s1(3))
  then have "yields (part_all cx parv0 chps s1) (\<lambda>st1. moved U s1 st1 \<and> leaves ?p s1 st1)" using Cons.IH [OF ok1] Cons.prems(2) by simp
  moreover have "leaves ?p st s1" by (auto simp: leaves_def s1(3))
  ultimately have "yields (part_all cx parv0 chps s1) (\<lambda>st1. moved U st st1 \<and> leaves ?p st st1)"
    using s1(2) by (auto elim!: yields_mono intro: moved_trans leaves_trans)
  then show ?case using s1(1) by (auto intro: yields_map)
qed

lemma leaves_joined: "joined p st st1 \<Longrightarrow> leaves p st1 st2 \<Longrightarrow> joined p st st2"
  unfolding joined_def leaves_def by (metis insertCI)

lemma moved_join_zero:
  assumes ok: "settled U st" and u: "c_user (from_client cx st) = Some u"
  shows "yields (join_zero cx parv0 u st) (\<lambda>st1. moved U st st1 \<and> leaves (cc_sptr cx) st st1)"
proof -
  let ?p = "cc_sptr cx" and ?Q = "\<lambda>st1. moved U st st1 \<and> leaves (cc_sptr cx) st st1"
  have pu: "is_user st ?p" "user_at st ?p = u" using u by (simp_all add: is_user_def user_at_def from_client_def)
  then have p: "?p \<in> U" using settledD(4) [OF ok] by blast
  have l: "user_links_ok st ?p u" using settledD(3) [OF ok] pu by (auto simp: links_ok_def)
  then have d: "distinct (u_channel u)" "\<forall>a\<in>set (u_channel u). IsMember st ?p a"
    using u by (simp_all add: user_links_ok_def IsMember_def from_client_def)
  have c: "yields (map_option (\<lambda>(st, out1). (st, g st out1)) (count_leave cx st1)) ?Q" if "?Q st1" for st1 g
    using moved_count_leave [OF moved_settled p, of st st1] that
    by (auto intro!: yields_map elim!: yields_mono intro: moved_trans leaves_same)
  have "yields (Option.bind (part_all cx parv0 (u_channel u) st) (\<lambda>(st, out).
      map_option (\<lambda>(st, out1). (st, out @ out1 @ [To_servers (Some (cc_cptr cx)) '':%s JOIN 0'' [S parv0]])) (count_leave cx st))) ?Q"
    by (rule yields_bind [OF moved_part_all [OF ok d]]) (simp add: c)
  then show ?thesis using moved_refl [OF ok] by (simp add: join_zero_def yields_Some)
qed

text \<open>A channel that was just made refuses nobody.\<close>

lemma new_channel_open:
  assumes "ch = make_channel\<lparr>ch_chname := n, ch_channelts := ts\<rparr>"
  shows "fst (can_join me_name ra NOW p c u a ch key) = 1"
proof -
  obtain rate ch1 out where j: "check_joinrate NOW NOW True c u ch = (rate, ch1, out)" by (cases "check_joinrate NOW NOW True c u ch")
  have r: "rate" "ch_mode ch1 = ch_mode ch" "ch_users ch1 = 0" "ch_banlist ch1 = []" "ch_banexempt_list ch1 = []"
    using j by (auto simp: assms make_channel_def check_joinrate_def default_rate_def has_mode_def has_flag_def DEFAULT_JOIN_NUM_def Let_def split: if_splits)
  have "join_error rate c ch1 key = (0, None)"
    using r by (simp add: join_error_def has_mode_def has_flag_def over_limit_def wrong_key_def assms make_channel_def)
  moreover have "\<not> banned_bool (is_banned c ch1 None)"
    using r(4,5) by (simp add: banned_bool_def is_banned_def ban_answer_def split: option.split)
  ultimately show ?thesis by (simp add: can_join_def j Let_def)
qed

lemma entered:
  assumes s1: "moved U st s1" "joined p st s1" "a \<in> set (cs_channel s1)" and p: "p = cc_sptr cx" "p \<in> U"
    and e: "s1 = add_user_to_channel a p (if jr_allow_op r then jr_flags r else 0) (jr_st r)"
    and fl: "\<not> MyConnect (cs_clients st p) \<longrightarrow> jr_flags r = 0"
  shows "\<exists>r1. enter_channel cx parv0 n a r = Some r1 \<and> run_ok U p st r1 \<and> stat (jr_st r1) = stat s1"
proof -
  let ?f = "\<lambda>ch. ch\<lparr>ch_join_count := ch_join_count ch + 1, ch_channelts := if creates cx r then cc_now cx else ch_channelts ch\<rparr>"
  have "quiet_chan (cs_channels s1 a) (?f (cs_channels s1 a))" by (simp add: quiet_chan_def)
  note M = moved_upd_chan [where f = ?f, OF moved_settled [OF s1(1)] this]
  let ?st = "upd_chan a ?f s1"
  have st: "moved U st ?st" "joined p st ?st" "a \<in> set (cs_channel ?st)"
    using moved_trans [OF s1(1) M(1)] joined_same [OF M(2) s1(2)] s1(3) by (simp_all add: chan_simps)
  obtain s2 where s2: "del_invite p a ?st = Some s2" "moved U ?st s2" "stat s2 = stat ?st" "cs_channel s2 = cs_channel ?st"
    by (rule moved_del_invite [OF moved_settled [OF st(1)] p(2) st(3)])
  have "moved U st s2" "joined p st s2" using moved_trans [OF st(1) s2(2)] joined_same [OF s2(3) st(2)] by simp_all
  moreover have "enter_state cx a r = ?st" by (simp add: enter_state_def e p(1))
  ultimately show ?thesis using st(1,2) s2(1,3) M(2) fl p(1) by (simp add: enter_channel_def Let_def run_ok_def jr_put_def)
qed

lemma fresh_addr: "settled U st \<Longrightarrow> moved U st st1 \<Longrightarrow> cs_next st1 \<notin> set (cs_channel st)"
  using settledD(2) [of U st] by (auto simp: moved_def chans_ok_def)

lemma settled_fresh: "settled U st \<Longrightarrow> cs_next st \<notin> set (cs_channel st)"
  using fresh_addr [of U st st] by (simp add: moved_refl)

lemma no_member_fresh:
  assumes "settled U st"
  shows "\<not> IsMember (new_channel NOW n st) p (cs_next st)"
proof -
  have "\<not> IsMember st p (cs_next st)" using member_live [OF assms] settled_fresh [OF assms] by blast
  then show ?thesis by (simp add: IsMember_def new_channel_def)
qed

lemma upd_chan_self: "upd_chan a (\<lambda>_. cs_channels st a) st = st"
  by (simp add: upd_chan_def)

text \<open>The channel exists: the flags are 0.\<close>

lemma enter_old:
  assumes st: "settled U st" and r: "run_ok U p st r" and p: "p = cc_sptr cx" "p \<in> U"
    and a: "a \<in> set (cs_channel (jr_st r))" "\<not> IsMember (jr_st r) p a" and f: "jr_flags r = 0"
    and q: "quiet_chan (cs_channels (jr_st r) a) ch"
  shows "\<exists>r1. enter_channel cx parv0 n a (jr_put (upd_chan a (\<lambda>_. ch) (jr_st r)) out r) = Some r1 \<and> run_ok U p st r1 \<and>
    stat (jr_st r1) = (stat (jr_st r))(p := (stat (jr_st r) p)(a := Some 0))"
proof -
  have m: "moved U st (jr_st r)" "joined p st (jr_st r)" using r by (simp_all add: run_ok_def)
  note M = moved_upd_chan [where f = "\<lambda>_. ch", OF moved_settled [OF m(1)] q]
  let ?s = "upd_chan a (\<lambda>_. ch) (jr_st r)"
  have a1: "a \<in> set (cs_channel ?s)" "\<not> IsMember ?s p a" using a by (simp_all add: chan_simps IsMember_def)
  note A = moved_add_user [OF moved_settled [OF M(1)] p(2) a1, of 0]
  let ?t = "add_user_to_channel a p 0 ?s"
  have "\<exists>r1. enter_channel cx parv0 n a (jr_put ?s out r) = Some r1 \<and> run_ok U p st r1 \<and> stat (jr_st r1) = stat ?t"
  proof (rule entered [OF _ _ _ p])
    show "moved U st ?t" using m(1) M(1) A(1) moved_trans by blast
    show "joined p st ?t" using joined_set [OF m(2)] A(2) by (simp add: M(2))
    show "a \<in> set (cs_channel ?t)" using A(3) a1(1) by simp
  qed (use f in \<open>simp_all add: jr_put_def\<close>)
  then show ?thesis by (simp add: A(2) M(2))
qed

text \<open>The channel is made.\<close>

lemma enter_new:
  assumes st: "settled U st" and r: "run_ok U p st r" and p: "p = cc_sptr cx" "p \<in> U"
    and n: "find_channel (jr_st r) name = None" and q: "quiet_chan (cs_channels (new_channel NOW name (jr_st r)) (cs_next (jr_st r))) ch"
  shows "\<exists>r1. enter_channel cx parv0 n (cs_next (jr_st r)) (jr_put (upd_chan (cs_next (jr_st r)) (\<lambda>_. ch) (new_channel NOW name (jr_st r))) out r) = Some r1 \<and>
    run_ok U p st r1"
proof -
  have m: "moved U st (jr_st r)" "joined p st (jr_st r)" using r by (simp_all add: run_ok_def)
  let ?a = "cs_next (jr_st r)" and ?s = "upd_chan (cs_next (jr_st r)) (\<lambda>_. ch) (new_channel NOW name (jr_st r))"
  let ?f = "if jr_allow_op r then jr_flags r else 0"
  note A = moved_new_channel(1-3) [OF moved_settled [OF m(1)] p(2) n q, where f = ?f]
  let ?t = "add_user_to_channel ?a p ?f ?s"
  have "\<exists>r1. enter_channel cx parv0 n ?a (jr_put ?s out r) = Some r1 \<and> run_ok U p st r1 \<and> stat (jr_st r1) = stat ?t"
  proof (rule entered [OF _ _ _ p])
    show "moved U st ?t" using m(1) A(1) moved_trans by blast
    show "joined p st ?t" using joined_set [OF m(2) A(2)] fresh_addr [OF st m(1)] by blast
    show "?a \<in> set (cs_channel ?t)" by (simp add: A(3))
  qed (use r in \<open>simp_all add: jr_put_def run_ok_def\<close>)
  then show ?thesis by blast
qed

lemma jr_put_nothing: "jr_put (jr_st r) [] r = r"
  by (simp add: jr_put_def)

lemma moved_join_channel:
  assumes st: "settled U st" and r: "run_ok U p st r" and p: "p = cc_sptr cx" "p \<in> U"
    and n: "name \<noteq> []" "length name \<le> CHANNELLEN" and f: "find_channel (jr_st r) name \<noteq> None \<Longrightarrow> jr_flags r = 0"
  shows "\<exists>r1. join_channel cx parv0 name key r = Some r1 \<and> run_ok U p st r1"
proof -
  have m: "moved U st (jr_st r)" "joined p st (jr_st r)" using r by (simp_all add: run_ok_def)
  note ok = moved_settled [OF m(1)]
  obtain u where u: "c_user (from_client cx (jr_st r)) = Some u" using settledD(4) [OF ok, of p] p by (auto simp: is_user_def from_client_def)
  let ?cj = "\<lambda>a ch. can_join (cc_me cx) (cc_reg_args cx) (cc_now cx) p (from_client cx (jr_st r)) u a ch key"
  show ?thesis
  proof (cases "find_channel (jr_st r) name")
    case (Some a)
    have g: "get_channel (cc_now cx) p name True (jr_st r) = Some (Some a, False, jr_st r)" using n Some by (simp add: get_channel_def)
    have a: "a \<in> set (cs_channel (jr_st r))" by (rule find_live [OF ok Some])
    have fl: "jr_flags r = 0" using f Some by simp
    obtain e ch out where c: "?cj a (cs_channels (jr_st r) a) = (e, ch, out)" by (cases "?cj a (cs_channels (jr_st r) a)")
    note q = can_join_quiet [OF c]
    note M = moved_upd_chan [where f = "\<lambda>_. ch", OF ok q]
    have less: "run_ok U p st ((jr_put (upd_chan a (\<lambda>_. ch) (jr_st r)) out r)\<lparr>jr_count := k\<rparr>)" for k
      using run_ok_same [OF r M, of out] by (simp add: run_ok_def)
    show ?thesis
    proof (cases "IsMember (jr_st r) p a")
      case True
      then show ?thesis using g r p(1) by (simp add: join_channel_def Let_def)
    next
      case False
      note E = enter_old [OF st r p a False fl]
      show ?thesis using g False c u less E [OF q, of parv0 name out] E [OF quiet_chan_refl, of parv0 name "[]"] p(1)
        by (auto simp: join_channel_def Let_def upd_chan_self jr_put_nothing)
    qed
  next
    case None
    let ?a = "cs_next (jr_st r)" and ?s = "new_channel (cc_now cx) name (jr_st r)"
    have g: "get_channel (cc_now cx) p name True (jr_st r) = Some (Some ?a, True, ?s)" using n None by (simp add: get_channel_def Let_def new_channel_def)
    have nm: "\<not> IsMember ?s p ?a" by (rule no_member_fresh [OF ok])
    have fc: "from_client cx ?s = from_client cx (jr_st r)" by (simp add: from_client_def new_channel_def)
    obtain e ch out where c: "?cj ?a (cs_channels ?s ?a) = (e, ch, out)" by (cases "?cj ?a (cs_channels ?s ?a)")
    have "cs_channels ?s ?a = make_channel\<lparr>ch_chname := name, ch_channelts := cc_now cx\<rparr>" by (simp add: new_channel_def)
    from new_channel_open [OF this] have e: "e = 1" using c by (metis fst_conv)
    note E = enter_new [OF st r p None]
    obtain r1 where r1: "enter_channel cx parv0 name ?a (jr_put (upd_chan ?a (\<lambda>_. ch) ?s) out r) = Some r1" "run_ok U p st r1"
      using E [OF can_join_quiet [OF c]] by blast
    obtain r2 where r2: "enter_channel cx parv0 name ?a (jr_put (upd_chan ?a (\<lambda>_. cs_channels ?s ?a) ?s) [] r) = Some r2" "run_ok U p st r2"
      using E [OF quiet_chan_refl] by blast
    have j: "jr_put ?s [] r = r\<lparr>jr_st := ?s\<rparr>" "jr_put s out (r\<lparr>jr_st := ?s\<rparr>) = jr_put s out r" for s
      by (simp_all add: jr_put_def)
    show ?thesis using g nm c u e fc r1 r2 p(1) by (simp add: join_channel_def Let_def upd_chan_self j)
  qed
qed

lemma moved_join_time:
  assumes "settled U st"
  shows "moved U st (set_join_time cx st)" "stat (set_join_time cx st) = stat st"
  unfolding set_join_time_def by (rule moved_upd_client [OF assms]; simp add: still_def)+

lemma moved_warn:
  assumes "settled U st" and "warn_spambot cx name u st = (st1, out)"
  shows "moved U st st1" "stat st1 = stat st"
proof -
  have "\<exists>k. st1 = upd_client (cc_sptr cx) (\<lambda>c. c\<lparr>c_oper_warn_count_down := k\<rparr>) st"
    using assms(2) by (auto simp: warn_spambot_def Let_def split: if_splits)
  then obtain k where "st1 = upd_client (cc_sptr cx) (\<lambda>c. c\<lparr>c_oper_warn_count_down := k\<rparr>) st" by blast
  then show "moved U st st1" "stat st1 = stat st"
    using moved_upd_client [OF assms(1), of "\<lambda>c. c\<lparr>c_oper_warn_count_down := k\<rparr>" "cc_sptr cx"] by (simp_all add: still_def)
qed

lemma run_ok_fields:
  assumes "run_ok U p st r" and "MyConnect (cs_clients st p)" and "jr_st r1 = jr_st r"
  shows "run_ok U p st r1"
  using assms by (simp add: run_ok_def)

lemma local_tests_ok:
  assumes r: "run_ok U p st r" and mine: "MyConnect (cs_clients st p)"
  shows "local_tests cx parv0 name u r = Inl r1 \<Longrightarrow> run_ok U p st r1"
    and "local_tests cx parv0 name u r = Inr r1 \<Longrightarrow> run_ok U p st r1 \<and> jr_st r1 = jr_st r \<and> (find_channel (jr_st r) name \<noteq> None \<longrightarrow> jr_flags r1 = 0)"
proof -
  have ok: "settled U (jr_st r)" using r moved_settled by (auto simp: run_ok_def)
  have put: "run_ok U p st (jr_put st1 out r2)" if "moved U (jr_st r) st1" "stat st1 = stat (jr_st r)" "jr_st r2 = jr_st r" for st1 out r2
    using run_ok_same [OF run_ok_fields [OF r mine that(3)]] that by simp
  obtain st1 out where w: "warn_spambot cx name u (jr_st r) = (st1, out)" by fastforce
  note W = moved_warn [OF ok w] and J = moved_join_time [OF ok, of cx] and R = moved_refl [OF ok]
  show "local_tests cx parv0 name u r = Inl r1 \<Longrightarrow> run_ok U p st r1"
    by (auto simp: local_tests_def Let_def w split: option.splits if_splits intro!: put W J R)
  show "local_tests cx parv0 name u r = Inr r1 \<Longrightarrow> run_ok U p st r1 \<and> jr_st r1 = jr_st r \<and> (find_channel (jr_st r) name \<noteq> None \<longrightarrow> jr_flags r1 = 0)"
    by (auto simp: local_tests_def Let_def w split: option.splits if_splits intro!: run_ok_fields [OF r mine])
qed

lemma moved_join_one:
  assumes st: "settled U st" and r: "run_ok U p st r" and p: "p = cc_sptr cx" "p \<in> U" and n: "name \<noteq> []" "length name \<le> CHANNELLEN"
  shows "\<exists>r1. join_one cx parv0 name key r = Some r1 \<and> run_ok U p st r1"
proof -
  have m: "moved U st (jr_st r)" "joined p st (jr_st r)" using r by (simp_all add: run_ok_def)
  note ok = moved_settled [OF m(1)]
  obtain u where u: "c_user (from_client cx (jr_st r)) = Some u" using settledD(4) [OF ok, of p] p by (auto simp: is_user_def from_client_def)
  have mine: "MyConnect (from_client cx (jr_st r)) = MyConnect (cs_clients st p)"
    using same_clients_iff(4) [of st "jr_st r" p] m(1) p(1) by (simp add: from_client_def moved_def)
  consider "is_zero name" | "\<not> is_zero name" "MyConnect (cs_clients st p)" | "\<not> is_zero name" "\<not> MyConnect (cs_clients st p)" by blast
  then show ?thesis
  proof cases
    case 1
    have "yields (join_zero cx parv0 u (jr_st r)) (\<lambda>st1. moved U (jr_st r) st1 \<and> leaves p (jr_st r) st1)"
      using moved_join_zero [OF ok u] p(1) by simp
    then obtain st1 out where z: "join_zero cx parv0 u (jr_st r) = Some (st1, out)" "moved U (jr_st r) st1" "leaves p (jr_st r) st1"
      by (auto simp: yields_def)
    have "run_ok U p st (jr_put st1 out r)" by (rule run_ok_put [OF r z(2) leaves_joined [OF m(2) z(3)]])
    then show ?thesis using 1 u z(1) by (simp add: join_one_def Let_def)
  next
    case 2
    show ?thesis
    proof (cases "local_tests cx parv0 name u r")
      case (Inl r1)
      then show ?thesis using local_tests_ok(1) [OF r 2(2) Inl] 2 u mine by (simp add: join_one_def Let_def)
    next
      case (Inr r1)
      note L = local_tests_ok(2) [OF r 2(2) Inr]
      have "\<exists>r2. join_channel cx parv0 name key r1 = Some r2 \<and> run_ok U p st r2"
        using L by (intro moved_join_channel [OF st _ p n]) auto
      then show ?thesis using Inr 2 u mine by (simp add: join_one_def Let_def)
    qed
  next
    case 3
    let ?r = "if find_channel (jr_st r) name = None then jr_put (jr_st r) [To_ts_warn ''User on %s remotely JOINing new channel'' [S (u_server u)]] r else r"
    have "run_ok U p st ?r" using r by (simp add: run_ok_def jr_put_def)
    moreover have "jr_flags ?r = 0" using r 3 by (simp add: run_ok_def jr_put_def)
    ultimately have "\<exists>r2. join_channel cx parv0 name key ?r = Some r2 \<and> run_ok U p st r2" by (intro moved_join_channel [OF st _ p n]) auto
    then show ?thesis using 3 u mine by (simp add: join_one_def Let_def)
  qed
qed

lemma moved_join_loop:
  assumes "settled U st" and "run_ok U p st r" and "p = cc_sptr cx" "p \<in> U" and "\<forall>n\<in>set names. n \<noteq> [] \<and> length n \<le> CHANNELLEN"
  shows "\<exists>r1. join_loop cx parv0 names keys r = Some r1 \<and> run_ok U p st r1"
  using assms(2,5)
proof (induction names arbitrary: keys r)
  case (Cons n names)
  have "\<exists>r1. join_one cx parv0 n (case keys of [] \<Rightarrow> None | k # _ \<Rightarrow> Some k) r = Some r1 \<and> run_ok U p st r1"
    using Cons.prems(2) by (intro moved_join_one [OF assms(1) Cons.prems(1) assms(3,4)]) simp_all
  then obtain r1 where r1: "join_one cx parv0 n (case keys of [] \<Rightarrow> None | k # _ \<Rightarrow> Some k) r = Some r1" "run_ok U p st r1" by blast
  then show ?case using Cons.IH [OF r1(2), of "tl keys"] Cons.prems(2) by simp
qed simp

lemma moved_m_join:
  assumes ok: "settled U st" and p: "cc_sptr cx \<in> U" and room: "length parv \<ge> 2 \<Longrightarrow> length (parv ! 1) < BUFSIZE"
  shows "yields (m_join cx parv st) (\<lambda>st1. moved U st st1 \<and> joined (cc_sptr cx) st st1)"
proof (cases "frozen cx st \<or> length parv < 2 \<or> parv ! 1 = []")
  case True
  then show ?thesis using moved_refl [OF ok] by (auto simp: m_join_def Let_def yields_def)
next
  case False
  let ?c = "from_client cx st" and ?keys = "if length parv > 2 then strtokens CHR '','' (parv ! 2) else []"
  let ?names = "strtokens CHR '','' (if MyClient ?c then canonize (parv ! 1) else parv ! 1)"
  obtain u where u: "c_user ?c = Some u" using settledD(4) [OF ok, of "cc_sptr cx"] p by (auto simp: is_user_def from_client_def)
  have "words_room ?names \<le> length (parv ! 1) + 1"
    using tokens_room [of "CHR '',''" "parv ! 1"] first_names_room [of "[]" "strtokens CHR '','' (parv ! 1)"] by (simp add: canonize_names words_room_def)
  then have "0 + words_room ?names \<le> BUFSIZE" using room False by simp
  from collect_names_ok [OF this, of "[]" "[]" cx "hd parv" ?c]
  obtain ws out where c: "collect_names cx (hd parv) ?c ?names [] 0 = Some (commas ws, out)" "\<forall>w\<in>set ws. plain_word w \<and> length w \<le> CHANNELLEN"
    using comma_words by auto
  have t: "strtokens CHR '','' (commas ws) = ws" using c(2) by (intro strtokens_commas) (auto simp: list_all_iff)
  let ?r = "\<lparr>jr_st = st, jr_flags = 0, jr_allow_op = True, jr_count = 0, jr_stop = False, jr_out = out\<rparr>"
  have "run_ok U (cc_sptr cx) st ?r" using moved_refl [OF ok] by (simp add: run_ok_def)
  then obtain r1 where r1: "join_loop cx (hd parv) ws ?keys ?r = Some r1" "run_ok U (cc_sptr cx) st r1"
    using moved_join_loop [OF ok _ refl p, of ?r ws "hd parv" ?keys] c(2) by (auto simp: plain_word_def)
  have m: "moved U st (jr_st r1)" "joined (cc_sptr cx) st (jr_st r1)" using r1(2) by (simp_all add: run_ok_def)
  note J = moved_join_time [OF moved_settled [OF m(1)], of cx]
  have "moved U st (set_join_time cx (jr_st r1)) \<and> joined (cc_sptr cx) st (set_join_time cx (jr_st r1))"
    using moved_trans [OF m(1) J(1)] joined_same [OF J(2) m(2)] by simp
  then show ?thesis using False u c(1) t r1(1) m by (simp add: m_join_def Let_def yields_def)
qed

end
