(* ===== verification/Exit_Client.thy ===== *)
theory Exit_Client
  imports Cmd_Safety
begin

section \<open>Clients and servers leave (src/src/s_misc.c, src/src/list.c)\<close>

text \<open>
  \<open>exit_client\<close> with what it calls: a user leaves its channels and gives up its invitations, and it vanishes from the
  table of names and the list of clients; a server takes everybody behind it along.  The state is the one of the channels with the
  global list of clients, the table of names, the lists of operators and of linked servers, and the counters.
  Calls into parts with a state of their own (history, clone counters, WATCH lists, sockets) are
  values of type \<open>exit_act\<close> in the result, in their order.  A struct that is freed is overwritten
  by \<open>freed_client\<close>.  \<open>None\<close> is an access through a null pointer.  The build is the one shipped, with \<^verbatim>\<open>NOQUIT\<close>,
  \<^verbatim>\<open>DCCALLOW\<close>, \<^verbatim>\<open>FLUD\<close> and \<^verbatim>\<open>RWHO_PROBABILITY\<close>, without \<^verbatim>\<open>FNAME_USERLOG\<close> and
  \<^verbatim>\<open>HIDE_SPLIT_SERVERS\<close>.
\<close>

datatype exit_act =
    Msg out_msg
  | To_non_noquit addr cstr "arg list"
  | To_common addr cstr "arg list"
  | Part_common addr cstr
  | Quit_common addr cstr
  | Signoff_hooks addr
  | Mark_recvq addr
  | Del_watch_list addr
  | Del_listopts addr
  | Close_connection addr
  | Clones_remove addr
  | Probability_remove addr
  | Del_silences addr
  | Clear_alias addr
  | Remove_dcc addr
  | Check_watch addr cstr
  | Add_history addr int
  | Off_history addr
  | Free_fluders addr
  | Free_fludees addr
  | Free_client addr

record counters =
  cn_unknown :: int
  cn_local :: int
  cn_myserver :: int
  cn_myulined :: int
  cn_server :: int
  cn_total :: int
  cn_oper :: int
  cn_invisi :: int

record net_state =
  n_st :: chan_state
  n_list :: "addr list"
  n_tab :: hash_tab
  n_opers :: "addr list"
  n_servers :: "addr list"
  n_was_split :: bool
  n_count :: counters

definition freed_client :: aClient where
  "freed_client = (example_client [])\<lparr>c_user := None, c_status := STAT_UNKNOWN\<rparr>"

abbreviation cl :: "net_state \<Rightarrow> addr \<Rightarrow> aClient" where "cl net p \<equiv> cs_clients (n_st net) p"

subsection \<open>A user gives up its links\<close>

text \<open>
  \<open>while ((lp = cptr->user->channel)) remove_user_from_channel(cptr, lp->value.chptr)\<close> and the loop over the invitations: each
  round takes the head of the list as it is then.
\<close>

partial_function (option) leave_all :: "addr \<Rightarrow> chan_state \<Rightarrow> chan_state option" where
  "leave_all p st =
     Option.bind (c_user (cs_clients st p)) (\<lambda>u.
       case u_channel u of [] \<Rightarrow> Some st | a # as \<Rightarrow> Option.bind (remove_user_from_channel p a st) (\<lambda>st. leave_all p st))"

partial_function (option) uninvite_all :: "addr \<Rightarrow> chan_state \<Rightarrow> chan_state option" where
  "uninvite_all p st =
     Option.bind (c_user (cs_clients st p)) (\<lambda>u.
       case u_invited u of [] \<Rightarrow> Some st | a # as \<Rightarrow> Option.bind (del_invite p a st) (\<lambda>st. uninvite_all p st))"

definition drop_links :: "addr \<Rightarrow> chan_state \<Rightarrow> chan_state option" where
  "drop_links p st = Option.bind (leave_all p st) (uninvite_all p)"

subsection \<open>The list of clients\<close>

definition unhash :: "addr \<Rightarrow> net_state \<Rightarrow> net_state" where
  "unhash p net = net\<lparr>n_tab := snd (del_from_client_hash_table (c_name (cl net p)) p (n_tab net))\<rparr>"

definition uncount :: "aClient \<Rightarrow> counters \<Rightarrow> counters" where
  "uncount c n =
     (if IsServer c then n\<lparr>cn_server := cn_server n - 1\<rparr>
      else if IsClient c
      then n\<lparr>cn_total := cn_total n - 1, cn_oper := cn_oper n - (if IsAnOper c then 1 else 0),
             cn_invisi := cn_invisi n - (if IsInvisible c then 1 else 0)\<rparr>
      else n)"

definition remove_client_from_list :: "addr \<Rightarrow> net_state \<Rightarrow> (net_state \<times> exit_act list) option" where
  "remove_client_from_list p net =
     (let c = cl net p in
      if n_list net = [p] then None
      else
        Some (net\<lparr>n_st := (n_st net)\<lparr>cs_clients := (cs_clients (n_st net))(p := freed_client)\<rparr>,
                  n_list := remove1 p (n_list net), n_count := uncount c (n_count net)\<rparr>,
              (if IsPerson c then [Add_history p 0, Off_history p] else []) @
              (if 0 \<le> c_fd c \<or> c_fd c = - 2 then [Free_fluders p] else []) @ [Free_fludees p, Free_client p]))"

subsection \<open>A split\<close>

record split_ctx =
  sx_capab :: "addr \<Rightarrow> u32"
  sx_dead :: addr
  sx_from :: addr
  sx_lcptr :: "addr option"
  sx_spinfo :: cstr
  sx_comment :: cstr

definition CAPAB_NOQUIT :: u32 where "CAPAB_NOQUIT = 0x0040"

definition exit_one_client_in_split :: "split_ctx \<Rightarrow> addr \<Rightarrow> net_state \<Rightarrow> (net_state \<times> exit_act list) option" where
  "exit_one_client_in_split sx p net =
     Option.bind (drop_links p (n_st net)) (\<lambda>st.
       (let c = cl net p in
        map_option (\<lambda>(net, out). (net,
          [To_non_noquit (sx_dead sx) '':%s QUIT :%s'' [S (c_name c), S (sx_spinfo sx)], To_common p '':%s QUIT :%s'' [S (c_name c), S (sx_spinfo sx)],
           Del_silences p, Clear_alias p] @ (if c_ip c \<noteq> 0 then [Clones_remove p] else []) @
          [Probability_remove p, Remove_dcc p, Check_watch p ''RPL_LOGOFF''] @ out))
          (remove_client_from_list p (unhash p (net\<lparr>n_st := st\<rparr>)))))"

text \<open>The first loop: the next client is read before the struct is freed.\<close>

fun split_persons :: "split_ctx \<Rightarrow> addr \<Rightarrow> addr list \<Rightarrow> net_state \<Rightarrow> (net_state \<times> exit_act list) option" where
  "split_persons sx s [] net = Some (net, [])"
| "split_persons sx s (a # as) net =
     (if c_uplink (cl net a) \<noteq> s \<or> \<not> IsPerson (cl net a) then split_persons sx s as net
      else Option.bind (exit_one_client_in_split sx a net) (\<lambda>(net, out).
        map_option (\<lambda>(net, out1). (net, out @ out1)) (split_persons sx s as net)))"

definition squits :: "split_ctx \<Rightarrow> addr \<Rightarrow> net_state \<Rightarrow> exit_act list" where
  "squits sx s net =
     map (\<lambda>a. Msg (if c_from (cl net s) = a
                   then To_one a '':%s SQUIT %s :%s'' [S (c_name (cl net (sx_from sx))), S (c_name (cl net s)), S (sx_comment sx)]
                   else To_one a ''SQUIT %s :%s'' [S (c_name (cl net s)), S (sx_comment sx)]))
       (filter (\<lambda>a. \<not> (a = s \<or> IsMe (cl net a) \<or> a = sx_dead sx \<or> Some a = sx_lcptr sx) \<and>
                    \<not> (has_flag (sx_capab sx a) CAPAB_NOQUIT \<and> s \<noteq> sx_dead sx)) (n_servers net))"

text \<open>
  \<open>exit_one_server\<close>: with \<open>whole\<close> the routine, without it its second loop, which starts anew after
  each server.
\<close>

partial_function (option) exit_one_server :: "split_ctx \<Rightarrow> bool \<Rightarrow> addr \<Rightarrow> net_state \<Rightarrow> (net_state \<times> exit_act list) option" where
  "exit_one_server sx whole s net =
     (if whole
      then Option.bind (split_persons sx s (n_list net) net) (\<lambda>(net, out).
           Option.bind (exit_one_server sx False s net) (\<lambda>(net, out1).
             map_option (\<lambda>(net1, out2). (net1, out @ out1 @ squits sx s net @ [Check_watch s ''RPL_LOGOFF''] @ out2))
               (remove_client_from_list s (unhash s net))))
      else
        (case find (\<lambda>a. c_uplink (cl net a) = s \<and> IsServer (cl net a)) (n_list net) of
           None \<Rightarrow> Some (net, [])
         | Some a \<Rightarrow>
             Option.bind (exit_one_server sx True a net) (\<lambda>(net, out).
             Option.bind (exit_one_server sx False s net) (\<lambda>(net, out1). Some (net, out @ out1)))))"

definition exit_server :: "(addr \<Rightarrow> u32) \<Rightarrow> addr option \<Rightarrow> addr \<Rightarrow> addr \<Rightarrow> cstr \<Rightarrow> net_state \<Rightarrow> (net_state \<times> exit_act list) option" where
  "exit_server capab lcptr cptr from comment net =
     exit_one_server \<lparr>sx_capab = capab, sx_dead = cptr, sx_from = from, sx_lcptr = lcptr,
         sx_spinfo = c_name (cl net (c_uplink (cl net cptr))) @ '' '' @ c_name (cl net cptr), sx_comment = comment\<rparr> True cptr net"

subsection \<open>One client\<close>

definition person_parts :: "addr option \<Rightarrow> addr \<Rightarrow> cstr \<Rightarrow> net_state \<Rightarrow> (net_state \<times> exit_act list) option" where
  "person_parts cptr p comment net =
     (let c = cl net p in
      if IsPerson c \<and> c_name c \<noteq> []
      then map_option (\<lambda>st. (net\<lparr>n_st := st\<rparr>,
             (if has_flag (c_flags c) FLAGS_KILLED then [] else [Msg (To_servers cptr '':%s QUIT :%s'' [S (c_name c), S comment])]) @
             [Part_common p comment, Quit_common p comment] @ (if c_ip c \<noteq> 0 then [Clones_remove p] else []) @
             [Probability_remove p, Del_silences p, Remove_dcc p])) (drop_links p (n_st net))
      else Some (net, []))"

definition exit_one_client ::
  "(addr \<Rightarrow> u32) \<Rightarrow> addr option \<Rightarrow> addr \<Rightarrow> addr \<Rightarrow> cstr \<Rightarrow> net_state \<Rightarrow> (net_state \<times> exit_act list) option" where
  "exit_one_client capab cptr sptr from comment net =
     (if IsMe (cl net sptr) then Some (net, [Msg (To_ops ''ERROR: tried to exit me! : %s'' [S comment])])
      else if IsServer (cl net sptr) then exit_server capab cptr sptr from comment net
      else
        Option.bind (person_parts cptr sptr comment net) (\<lambda>(net, out).
          map_option (\<lambda>(net1, out1). (net1, out @ (if IsRegistered (cl net sptr) then [Check_watch sptr ''RPL_LOGOFF''] else []) @ out1))
            (remove_client_from_list sptr (unhash sptr net))))"

text \<open>What \<open>exit_client\<close> does for a client of this server before; \<^verbatim>\<open>close_connection\<close> leaves the descriptor at -2
  and clears \<open>from\<close>, with 0 for the null pointer. The seconds and bytes in the notice about a server, and its copy in the
  log of the system, are left out.\<close>

definition FLAGS_CLOSING :: u32 where "FLAGS_CLOSING = 0x000010"
definition FLAGS_NORMALEX :: u32 where "FLAGS_NORMALEX = 0x004000"

definition STAT_MASTER :: int where "STAT_MASTER = - 5"

definition IsUnknown :: "aClient \<Rightarrow> bool" where
  "IsUnknown x \<longleftrightarrow> c_status x = STAT_UNKNOWN \<or> c_status x = STAT_MASTER"

definition local_counts :: "aClient \<Rightarrow> counters \<Rightarrow> counters" where
  "local_counts c n =
     n\<lparr>cn_unknown := cn_unknown n - (if IsUnknown c then 1 else 0), cn_local := cn_local n - (if IsClient c then 1 else 0),
       cn_myserver := cn_myserver n - (if IsServer c then 1 else 0), cn_myulined := cn_myulined n - (if IsServer c \<and> IsULine c then 1 else 0)\<rparr>"

definition close_local :: "cstr \<Rightarrow> addr option \<Rightarrow> addr \<Rightarrow> cstr \<Rightarrow> net_state \<Rightarrow> net_state \<times> exit_act list" where
  "close_local me_name cptr p comment net =
     (let c = cl net p; servers = (if IsServer c then remove1 p (n_servers net) else n_servers net);
          host = (if IsPerson c then c_sockhost c else ''0.0.0.0'') in
      (net\<lparr>n_st := upd_client p (\<lambda>c. c\<lparr>c_flags := c_flags c OR FLAGS_CLOSING OR FLAGS_DEADSOCKET, c_sockerr := 0, c_fd := - 2, c_from := 0\<rparr>) (n_st net),
           n_opers := (if IsAnOper c then remove1 p (n_opers net) else n_opers net), n_servers := servers,
           n_was_split := n_was_split net \<or> (IsServer c \<and> servers = []), n_count := local_counts c (n_count net)\<rparr>,
       [Signoff_hooks p] @ (if has_flag (c_flags c) FLAGS_HAVERECVQ then [Mark_recvq p] else []) @
       (if IsNegoServer c then [Msg (To_realops ''Lost server %s during negotiation: %s'' [S (c_name c), S comment])] else []) @
       (case c_user c of
          Some u \<Rightarrow>
            (if IsClient c
             then (let reason = (if has_flag (c_flags c) FLAGS_NORMALEX then ''Client Quit'' else comment);
                       args = [S (c_name c), S (u_username u), S (u_host u), S reason, S (c_hostip c)] in
                   [Del_watch_list p, Del_listopts p, Msg (To_realops ''Client exiting: %s (%s@%s) [%s] [%s]'' args),
                    Msg (To_servers None '':%s CONOPS :Client exiting: %s (%s@%s) [%s] [%s]'' (S me_name # args))]) else [])
        | None \<Rightarrow> []) @
       [Msg (if cptr \<noteq> None \<and> cptr \<noteq> Some p then To_one p ''ERROR :Closing Link: %s %s (%s)'' [S host, S (c_name c), S comment]
             else To_one p ''ERROR :Closing Link: %s (%s)'' [S host, S comment])] @
       (if IsServer c then [Msg (To_ops ''%s was connected for %lu seconds.  %lu/%lu sendK/recvK.'' [S (c_name c)])] else []) @
       [Close_connection p]))"

definition exit_client ::
  "(addr \<Rightarrow> u32) \<Rightarrow> cstr \<Rightarrow> addr option \<Rightarrow> addr \<Rightarrow> addr \<Rightarrow> cstr \<Rightarrow> net_state \<Rightarrow> (net_state \<times> exit_act list \<times> bool) option" where
  "exit_client capab me_name cptr sptr from comment net =
     (let (net, out) = (if MyConnect (cl net sptr) then close_local me_name cptr sptr comment net else (net, [])) in
      map_option (\<lambda>(net, out1). (net, out @ out1, cptr = Some sptr)) (exit_one_client capab cptr sptr from comment net))"

end
