(* ===== verification/Channel_Laws.thy ===== *)
theory Channel_Laws
  imports Cmd_Safety
begin

section \<open>Laws of the channel commands (src/src/channel.c)\<close>





lemma request_ok_room: "list_all (\<lambda>s. length s < BUFSIZE) parv \<Longrightarrow> length parv \<ge> 2 \<Longrightarrow> length (parv ! 1) < BUFSIZE"
  by (simp add: list_all_length)


subsection \<open>An example\<close>

text \<open>Three users of this server; an operator, a half operator and a member with a voice in one channel.\<close>

definition example_locals :: clients where
  "example_locals p =
     (if p < 3 then (example_client ''nick'')\<lparr>c_user := Some example_user, c_status := STAT_CLIENT, c_fd := 4\<rparr>
      else (example_client [])\<lparr>c_status := STAT_ME\<rparr>)"

definition example_lobby :: chan_state where
  "example_lobby = no_channels example_locals"

definition example_hall :: chan_state where
  "example_hall = add_user_to_channel 0 0 CHFL_CHANOP (new_channel 100 ''#a'' example_lobby)"

definition example_room :: chan_state where
  "example_room = add_user_to_channel 0 2 CHFL_VOICE (add_user_to_channel 0 1 CHFL_HALFOP example_hall)"

definition example_cx :: "addr \<Rightarrow> cmd_ctx" where
  "example_cx p =
     \<lparr>cc_mode = \<lparr>mc_me = ''irc.net'', mc_me_addr = 7, mc_now = 100, mc_table = clear_hash_table, mc_whowas = initwhowas (\<lambda>_. example_client []),
        mc_cptr = p, mc_sptr = p, mc_chp = 0, mc_level = 0\<rparr>,
      cc_maxchannels = 10, cc_spam_num = 20, cc_spam_time = 60, cc_split = False, cc_splitopok = False,
      cc_simbans = init_simban (sb_store example_simbans), cc_reg_args = []\<rparr>"

lemma example_lobby_ok: "settled {0, 1, 2} example_lobby" "cs_next example_lobby = 0" "stat example_lobby = (\<lambda>_ _. None)" "find_channel example_lobby ''#a'' = None"
proof -
  have u: "{p. c_user (example_locals p) \<noteq> None} = {0, 1, 2}" by (auto simp: example_locals_def example_client_def)
  have "chan_inv {0, 1, 2} example_lobby"
    using no_channels_inv(1) [of example_locals] unfolding u by (auto simp: example_lobby_def example_locals_def example_user_def example_client_def)
  then show ok: "settled {0, 1, 2} example_lobby"
    by (auto simp: settled_def example_lobby_def no_channels_def example_locals_def IsClient_def STAT_CLIENT_def STAT_ME_def example_client_def NICKLEN_def)
  show "cs_next example_lobby = 0" "stat example_lobby = (\<lambda>_ _. None)"
    by (simp_all add: example_lobby_def no_channels_def stat_def fun_eq_iff)
  show "find_channel example_lobby ''#a'' = None" using find_channel_None [OF settledD(2) [OF ok]] by (simp add: example_lobby_def no_channels_def)
qed

lemma example_hall_ok:
  "moved {0, 1, 2} example_lobby example_hall" "cs_channel example_hall = [0]"
  "stat example_hall = (\<lambda>q a. if q = 0 \<and> a = 0 then Some CHFL_CHANOP else None)"
proof -
  note L = example_lobby_ok
  have "upd_chan 0 (\<lambda>_. cs_channels (new_channel 100 ''#a'' example_lobby) 0) (new_channel 100 ''#a'' example_lobby) = new_channel 100 ''#a'' example_lobby"
    by (rule upd_chan_self)
  then have A: "moved {0, 1, 2} example_lobby example_hall"
    "stat example_hall = (stat example_lobby)(0 := (stat example_lobby 0)(0 := Some (CHFL_CHANOP AND STATUS_BITS)))" "cs_channel example_hall = 0 # cs_channel example_lobby"
    using moved_new_channel(1-3) [OF L(1) _ L(4) quiet_chan_refl, where p = 0 and NOW = 100 and f = CHFL_CHANOP] by (simp_all add: L(2) example_hall_def)
  show "moved {0, 1, 2} example_lobby example_hall" by (rule A(1))
  show "cs_channel example_hall = [0]" by (simp add: A(3)) (simp add: example_lobby_def no_channels_def)
  show "stat example_hall = (\<lambda>q a. if q = 0 \<and> a = 0 then Some CHFL_CHANOP else None)"
    by (simp add: A(2) L(3) fun_eq_iff STATUS_BITS_def CHFL_CHANOP_def CHFL_HALFOP_def CHFL_VOICE_def)
qed

lemma example_room_ok:
  "settled {0, 1, 2} example_room" "same_clients example_lobby example_room" "cs_channel example_room = [0]"
  "stat example_room 0 0 = Some CHFL_CHANOP" "stat example_room 1 0 = Some CHFL_HALFOP" "stat example_room 2 0 = Some CHFL_VOICE"
proof -
  let ?s0 = example_hall
  note A0 = example_hall_ok(1,3,2)
  let ?s1 = "add_user_to_channel 0 1 CHFL_HALFOP ?s0"
  have m1: "(1::addr) \<in> {0, 1, 2}" "0 \<in> set (cs_channel ?s0)" "\<not> IsMember ?s0 1 0"
    using IsMember_stat [OF moved_settled [OF A0(1)]] by (simp_all add: A0(2,3))
  note A1 = moved_add_user [OF moved_settled [OF A0(1)] m1, where f = CHFL_HALFOP]
  have m2: "(2::addr) \<in> {0, 1, 2}" "0 \<in> set (cs_channel ?s1)" "\<not> IsMember ?s1 2 0"
    using IsMember_stat [OF moved_settled [OF A1(1)]] by (simp_all add: A1(2,3) A0(2,3) del: One_nat_def)
  note A2 = moved_add_user [OF moved_settled [OF A1(1)] m2, where f = CHFL_VOICE]
  show "settled {0, 1, 2} example_room" "same_clients example_lobby example_room" "cs_channel example_room = [0]"
    using A0(1) A1(1) A2(1) unfolding example_room_def by (simp_all add: moved_def same_clients_def A2(3) A1(3) A0(3) del: One_nat_def)
  have "CHFL_CHANOP AND STATUS_BITS = CHFL_CHANOP" "CHFL_HALFOP AND STATUS_BITS = CHFL_HALFOP" "CHFL_VOICE AND STATUS_BITS = CHFL_VOICE"
    by (simp_all add: STATUS_BITS_def CHFL_CHANOP_def CHFL_HALFOP_def CHFL_VOICE_def)
  then show "stat example_room 0 0 = Some CHFL_CHANOP" "stat example_room 1 0 = Some CHFL_HALFOP" "stat example_room 2 0 = Some CHFL_VOICE"
    unfolding example_room_def by (simp_all add: A2(2) A1(2) A0(2) del: One_nat_def)
qed



lemma example_cx_fields:
  "cc_sptr (example_cx p) = p" "cc_cptr (example_cx p) = p" "cc_now (example_cx p) = 100" "cc_maxchannels (example_cx p) = 10" "cc_spam_num (example_cx p) = 20"
  "cc_simbans (example_cx p) = init_simban (sb_store example_simbans)"
  by (simp_all add: example_cx_def)



text \<open>
  C12: KICK by a client of this server that is no service: whoever is out of a channel afterwards was thrown out of a channel where
  the client had the right to: as operator, or as half operator against a member that is neither operator nor
  half operator. Everybody else keeps status and membership, and nobody gets in.
\<close>

theorem kick_needs_rights:
  assumes "settled U st" and "MyConnect (cs_clients st (cc_sptr cx))" and "\<not> IsServer (cs_clients st (cc_sptr cx))"
    and "\<not> IsULine (cs_clients st (cc_sptr cx))"
  shows "\<exists>st' out. m_kick cx parv st = Some (st', out) \<and>
    (\<forall>q a. stat st' q a = stat st q a \<or> stat st' q a = None \<and> may_remove (stat st) (cc_sptr cx) q a)"
  using moved_m_kick [OF assms(1), of cx parv] assms(2-4) by (auto simp: yields_def kicked_def trusted_def)

lemma example_room_client:
  "p < 3 \<Longrightarrow> MyClient (cs_clients example_room p) \<and> MyConnect (cs_clients example_room p) \<and> \<not> IsServer (cs_clients example_room p) \<and> \<not> IsULine (cs_clients example_room p)"
  using same_clients_iff(3-6) [OF example_room_ok(2), of p]
  by (simp add: example_lobby_def no_channels_def example_locals_def example_client_def MyConnect_def MyClient_def IsClient_def IsServer_def IsULine_def has_flag_def STAT_CLIENT_def STAT_SERVER_def)

theorem kick_needs_rights_witness:
  "settled {0, 1, 2} example_room \<and> MyConnect (cs_clients example_room 1) \<and>
   may_remove (stat example_room) 1 2 0 \<and> \<not> may_remove (stat example_room) 1 0 0 \<and> \<not> may_remove (stat example_room) 2 1 0 \<and>
   (\<exists>st' out. m_kick (example_cx 1) [''nick'', ''#a'', ''x,y''] example_room = Some (st', out) \<and>
      (\<forall>q a. stat st' q a = stat example_room q a \<or> stat st' q a = None \<and> may_remove (stat example_room) 1 q a))"
proof -
  have c: "MyConnect (cs_clients example_room (cc_sptr (example_cx 1)))" "\<not> IsServer (cs_clients example_room (cc_sptr (example_cx 1)))"
    "\<not> IsULine (cs_clients example_room (cc_sptr (example_cx 1)))" using example_room_client [of 1] by (simp_all add: example_cx_fields del: One_nat_def)
  from kick_needs_rights [OF example_room_ok(1) c, of "[''nick'', ''#a'', ''x,y'']"] show ?thesis
    using example_room_ok example_room_client [of 1]
    by (simp add: example_cx_fields may_remove_def has_flag_def CHFL_CHANOP_def CHFL_HALFOP_def CHFL_VOICE_def del: One_nat_def)
qed

text \<open>
  C13: JOIN concerns nobody but the client: all others keep their membership and status in all channels. And
  in a channel that was there before, the client does not get a status: it keeps what it had, or is in
  the channel without status, or out.
\<close>

theorem join_gives_no_status:
  assumes "settled U st" and "cc_sptr cx \<in> U" and "list_all (\<lambda>s. length s < BUFSIZE) parv"
  shows "\<exists>st' out. m_join cx parv st = Some (st', out) \<and>
    (\<forall>q a. q \<noteq> cc_sptr cx \<longrightarrow> stat st' q a = stat st q a) \<and>
    (\<forall>a\<in>set (cs_channel st). stat st' (cc_sptr cx) a \<in> {None, Some 0, stat st (cc_sptr cx) a})"
  using moved_m_join [OF assms(1,2) request_ok_room [OF assms(3)]] by (auto simp: yields_def joined_def)

theorem join_gives_no_status_witness:
  "settled {0, 1, 2} example_room \<and> stat example_room 0 0 = Some CHFL_CHANOP \<and>
   (\<exists>st' out. m_join (example_cx 0) [''nick'', ''0,#a''] example_room = Some (st', out) \<and>
      stat st' 1 0 = Some CHFL_HALFOP \<and> stat st' 0 0 \<in> {None, Some 0, Some CHFL_CHANOP})"
proof -
  have "cc_sptr (example_cx 0) \<in> {0, 1, 2}" "list_all (\<lambda>s. length s < BUFSIZE) [''nick'', ''0,#a'']" by (simp_all add: example_cx_fields BUFSIZE_def)
  from join_gives_no_status [OF example_room_ok(1) this] obtain st' out where j: "m_join (example_cx 0) [''nick'', ''0,#a''] example_room = Some (st', out)"
    "\<And>q a. q \<noteq> 0 \<Longrightarrow> stat st' q a = stat example_room q a" "stat st' 0 0 \<in> {None, Some 0, stat example_room 0 0}"
    by (auto simp: example_cx_fields example_room_ok(3))
  show ?thesis using j(1,3) j(2) [of 1 0] example_room_ok(1,4,5) by (auto simp del: One_nat_def)
qed

subsection \<open>Admission\<close>

lemma clean_name:
  assumes "char_at n 0 CHR ''#''" and "list_all (\<lambda>c. \<not> bad_channel_char c) n" and "length n \<le> CHANNELLEN"
  shows "plain_word n" "\<not> is_zero n" "length n < BUFSIZE" "strtokens CHR '','' n = [n]" "canonize n = n"
    "check_channelname me_name p c n = (True, [])"
proof -
  show w: "plain_word n" using assms(1,2) by (auto simp: plain_word_def char_at_def list_all_iff bad_channel_char_def)
  show "\<not> is_zero n" using assms(1) by (simp add: is_zero_def char_at_def)
  show "length n < BUFSIZE" using assms(3) by (simp add: CHANNELLEN_def BUFSIZE_def)
  show t: "strtokens CHR '','' n = [n]" using w strtokens_word by (simp add: plain_word_def)
  show "canonize n = n" by (simp add: canonize_def t)
  have "dropWhile (\<lambda>x. \<not> bad_channel_char x) n = []" using assms(2) by (simp add: list_all_iff)
  then show "check_channelname me_name p c n = (True, [])" by (simp add: check_channelname_def del: dropWhile_eq_Nil_conv)
qed

text \<open>The conditions on a local client that wants to enter a channel that exists.\<close>

definition admitted :: "cmd_ctx \<Rightarrow> chan_state \<Rightarrow> anUser \<Rightarrow> cstr \<Rightarrow> addr \<Rightarrow> cstr option \<Rightarrow> bool" where
  "admitted cx st u name a key \<longleftrightarrow>
     (let c = from_client cx st; m = cc_maxchannels cx in
      (IsOper c \<or> check_mask_simbanned (cc_now cx) name SBAN_CHAN (cc_simbans cx) \<in> {None, Some None}) \<and>
      (u_joined u < m \<or> IsAnOper c \<and> u_joined u < m * 3) \<and> c_join_leave_count c < cc_spam_num cx \<and>
      fst (can_join (cc_me cx) (cc_reg_args cx) (cc_now cx) (cc_sptr cx) c u a (cs_channels st a) key) = 1)"

lemma can_join_yes_no: "can_join me_name ra NOW p c u a ch key = (e, ch1, out) \<Longrightarrow> e = 0 \<or> e = 1"
  by (auto simp: can_join_def Let_def split: if_splits prod.splits)

lemma local_tests_cases:
  fixes cx :: cmd_ctx and r :: join_run
  assumes "find_channel (jr_st r) name = Some a"
  defines "c \<equiv> from_client cx (jr_st r)" and "m \<equiv> cc_maxchannels cx"
  shows "(\<exists>r1. local_tests cx parv0 name u r = Inr r1) \<longleftrightarrow>
    (IsOper c \<or> check_mask_simbanned (cc_now cx) name SBAN_CHAN (cc_simbans cx) \<in> {None, Some None}) \<and>
    (u_joined u < m \<or> IsAnOper c \<and> u_joined u < m * 3) \<and> c_join_leave_count c < cc_spam_num cx"
  using assms(1)
  by (cases "IsOper c"; cases "check_mask_simbanned (cc_now cx) name SBAN_CHAN (cc_simbans cx)")
    (auto simp: local_tests_def Let_def c_def m_def not_less split: option.split prod.split)

lemma local_tests_stat:
  assumes "settled U (jr_st r)" and "local_tests cx parv0 name u r = Inl r1"
  shows "stat (jr_st r1) = stat (jr_st r)"
proof -
  obtain st1 out where w: "warn_spambot cx name u (jr_st r) = (st1, out)" by fastforce
  show ?thesis using assms(2) moved_warn(2) [OF assms(1) w] moved_join_time(2) [OF assms(1)]
    by (auto simp: local_tests_def Let_def w jr_put_def split: option.splits if_splits)
qed

lemma join_one_admission:
  assumes st: "settled U (jr_st r)" and p: "p = cc_sptr cx" "p \<in> U" and mine: "MyConnect (from_client cx (jr_st r))"
    and u: "c_user (from_client cx (jr_st r)) = Some u" and n: "name \<noteq> []" "length name \<le> CHANNELLEN" "\<not> is_zero name"
    and a: "find_channel (jr_st r) name = Some a" "\<not> IsMember (jr_st r) p a"
  shows "\<exists>r1. join_one cx parv0 name key r = Some r1 \<and> settled U (jr_st r1) \<and>
    stat (jr_st r1) p a = (if admitted cx (jr_st r) u name a key then Some 0 else None)"
proof -
  let ?st = "jr_st r"
  have none: "stat ?st p a = None" using a(2) IsMember_stat [OF st] by blast
  have ok: "run_ok U p ?st r" using moved_refl [OF st] mine p(1) by (simp add: run_ok_def from_client_def)
  have mine': "MyConnect (cs_clients ?st p)" using mine p(1) by (simp add: from_client_def)
  show ?thesis
  proof (cases "local_tests cx parv0 name u r")
    case (Inl r1)
    have "\<not> (\<exists>r1. local_tests cx parv0 name u r = Inr r1)" using Inl by simp
    then have "\<not> admitted cx ?st u name a key" unfolding local_tests_cases [OF a(1)] admitted_def Let_def by blast
    moreover have "stat (jr_st r1) = stat ?st" by (rule local_tests_stat [OF st Inl])
    moreover have "settled U (jr_st r1)" using local_tests_ok(1) [OF ok mine' Inl] by (simp add: run_ok_def moved_def)
    ultimately show ?thesis using Inl none u mine n(3) by (simp add: join_one_def Let_def)
  next
    case (Inr r1)
    have r1: "run_ok U p ?st r1" "jr_st r1 = ?st" "jr_flags r1 = 0" using local_tests_ok(2) [OF ok mine' Inr] a(1) by simp_all
    have g: "get_channel (cc_now cx) p name True ?st = Some (Some a, False, ?st)" using n a(1) by (simp add: get_channel_def)
    let ?cj = "can_join (cc_me cx) (cc_reg_args cx) (cc_now cx) p (from_client cx ?st) u a (cs_channels ?st a) key"
    obtain e ch out where c: "?cj = (e, ch, out)" by (cases ?cj)
    note q = can_join_quiet [OF c]
    note M = moved_upd_chan [where f = "\<lambda>_. ch", OF st q]
    have "fst ?cj = e" using c by simp
    moreover have "\<exists>r1. local_tests cx parv0 name u r = Inr r1" using Inr by blast
    ultimately have ad: "admitted cx ?st u name a key \<longleftrightarrow> e = 1"
      unfolding local_tests_cases [OF a(1)] admitted_def Let_def p(1) [symmetric] by argo
    have live: "a \<in> set (cs_channel (jr_st r1))" "\<not> IsMember (jr_st r1) p a" using find_live [OF st a(1)] a(2) r1(2) by simp_all
    have "quiet_chan (cs_channels (jr_st r1) a) ch" using q r1(2) by simp
    from enter_old [OF st r1(1) p live r1(3) this]
    have "\<exists>r2. enter_channel cx parv0 name a (jr_put (upd_chan a (\<lambda>_. ch) ?st) out r1) = Some r2 \<and> run_ok U p ?st r2 \<and>
      stat (jr_st r2) = (stat ?st)(p := (stat ?st p)(a := Some 0))" unfolding r1(2) .
    then obtain r2 where r2: "enter_channel cx parv0 name a (jr_put (upd_chan a (\<lambda>_. ch) ?st) out r1) = Some r2" "run_ok U p ?st r2"
      "stat (jr_st r2) = (stat ?st)(p := (stat ?st p)(a := Some 0))" by blast
    have j: "join_one cx parv0 name key r = (if e = 0 then Some ((jr_put (upd_chan a (\<lambda>_. ch) ?st) out r1)\<lparr>jr_count := jr_count r1 - 1\<rparr>) else Some r2)"
      using Inr u mine n(3) g a(2) c r1(2) r2(1) p(1) by (simp add: join_one_def join_channel_def Let_def jr_put_def)
    show ?thesis
    proof (cases "e = 0")
      case True
      then show ?thesis using j ad moved_settled [OF M(1)] M(2) none by (simp add: jr_put_def)
    next
      case False
      then have "e = 1" using can_join_yes_no [OF c] by simp
      then show ?thesis using j ad r2(2,3) by (simp add: run_ok_def moved_def)
    qed
  qed
qed

text \<open>
  C14: a client of this server that is not in a channel and asks for this one channel, which exists, with or without a key, is in
  the channel afterwards exactly when it is neither frozen nor shunned, no ban on the channel name stops it (or it is
  an operator), it is not in too many channels, it is not taken for a spambot, and \<open>can_join\<close> lets it
  in; and then it has no status there.
\<close>

theorem join_admission_exact:
  assumes ok: "settled U st" and p: "cc_sptr cx \<in> U" and mine: "MyClient (from_client cx st)" and u: "c_user (from_client cx st) = Some u"
    and n: "char_at name 0 CHR ''#''" "list_all (\<lambda>c. \<not> bad_channel_char c) name" "length name \<le> CHANNELLEN"
    and k: "parv = (case key of None \<Rightarrow> [parv0, name] | Some k \<Rightarrow> [parv0, name, k])" "\<forall>k. key = Some k \<longrightarrow> plain_word k"
    and a: "find_channel st name = Some a" "\<not> IsMember st (cc_sptr cx) a"
  shows "\<exists>st' out. m_join cx parv st = Some (st', out) \<and>
    stat st' (cc_sptr cx) a = (if \<not> frozen cx st \<and> admitted cx st u name a key then Some 0 else None)"
proof (cases "frozen cx st")
  case True
  then have "m_join cx parv st = Some (st, [need_more cx (hd parv) ''JOIN''])" by (simp add: m_join_def Let_def)
  moreover have "stat st (cc_sptr cx) a = None" using a(2) IsMember_stat [OF ok] by blast
  ultimately show ?thesis using True by simp
next
  case f: False
  note N = clean_name [OF n]
  have w: "name \<noteq> []" using N(1) by (simp add: plain_word_def)
  have t: "take CHANNELLEN name = name" "take (BUFSIZE - 1) name = name" using n(3) N(3) by simp_all
  have c: "collect_names cx parv0 (from_client cx st) [name] [] 0 = Some (name, [])"
    using N n(1) t by (simp add: Let_def BUFSIZE_def)
  have keys: "(case (if length parv > 2 then strtokens CHR '','' (parv ! 2) else []) of [] \<Rightarrow> None | x # _ \<Rightarrow> Some x) = key"
    using k by (cases key) (auto simp: strtokens_word plain_word_def)
  let ?r = "\<lparr>jr_st = st, jr_flags = 0, jr_allow_op = True, jr_count = 0, jr_stop = False, jr_out = []\<rparr>"
  have "\<exists>r1. join_one cx parv0 name key ?r = Some r1 \<and> settled U (jr_st r1) \<and>
    stat (jr_st r1) (cc_sptr cx) a = (if admitted cx (jr_st ?r) u name a key then Some 0 else None)"
    by (rule join_one_admission [OF _ refl p _ _ w n(3) N(2)]) (use ok mine u a in \<open>simp_all add: MyClient_def\<close>)
  then obtain r1 where r1: "join_one cx parv0 name key ?r = Some r1" "settled U (jr_st r1)"
    "stat (jr_st r1) (cc_sptr cx) a = (if admitted cx st u name a key then Some 0 else None)" by auto
  have v: "hd parv = parv0" "parv ! 1 = name" "length parv \<ge> 2" using k(1) by (cases key; simp)+
  show ?thesis using f u w mine N(4,5) c keys r1(1,3) v moved_join_time(2) [OF r1(2)]
    by (auto simp: m_join_def Let_def)
qed

lemma example_hall_state:
  "cs_clients example_hall 1 = example_locals 1" "cs_channels example_hall 0 = make_channel\<lparr>ch_chname := ''#a'', ch_channelts := 100,
     ch_members := [\<lparr>cm_cptr = 0, cm_flags = CHFL_CHANOP, cm_banserial = 0\<rparr>], ch_users := 1\<rparr>"
  by (simp_all add: example_hall_def example_lobby_def no_channels_def new_channel_def add_user_to_channel_def upd_user_def upd_chan_def
    example_locals_def example_client_def make_channel_def)

lemma example_hall_admits: "admitted (example_cx 1) example_hall example_user ''#a'' 0 None"
proof -
  have c: "from_client (example_cx 1) example_hall = example_locals 1" by (simp add: from_client_def example_cx_fields example_hall_state(1) del: One_nat_def)
  have "fst (can_join me_name ra 100 1 (example_locals 1) example_user 0 (cs_channels example_hall 0) None) = 1" for me_name ra
    unfolding example_hall_state(2)
    by (simp add: can_join_def check_joinrate_def default_rate_def join_error_def make_channel_def has_mode_def has_flag_def over_limit_def wrong_key_def
      is_banned_def ban_answer_def banned_bool_def Let_def example_locals_def example_client_def example_user_def IsULine_def
      DEFAULT_JOIN_TIME_def DEFAULT_JOIN_NUM_def del: One_nat_def)
  moreover have "check_mask_simbanned 100 ''#a'' SBAN_CHAN (init_simban x) \<in> {None, Some None}" for x
    by (simp add: check_mask_simbanned_def init_simban_def opt_or_def split: option.split)
  ultimately show ?thesis
    by (simp add: admitted_def Let_def c example_cx_fields example_user_def example_locals_def example_client_def del: One_nat_def)
qed

theorem join_admission_exact_witness:
  "stat example_hall 1 0 = None \<and> \<not> frozen (example_cx 1) example_hall \<and> admitted (example_cx 1) example_hall example_user ''#a'' 0 None \<and>
   (\<exists>st' out. m_join (example_cx 1) [''nick'', ''#a''] example_hall = Some (st', out) \<and> stat st' 1 0 = Some 0)"
proof -
  note H = moved_settled [OF example_hall_ok(1)]
  have c: "from_client (example_cx 1) example_hall = example_locals 1" by (simp add: from_client_def example_cx_fields example_hall_state(1) del: One_nat_def)
  have f: "find_channel example_hall ''#a'' = Some 0"
    using find_channel_iff [OF settledD(2) [OF H], of "''#a''" 0] by (simp add: example_hall_ok(2) example_hall_state(2) mycmp_zero_iff)
  have z: "\<not> frozen (example_cx 1) example_hall"
    using example_hall_state(1) by (simp add: frozen_def c IsShunned_def has_flag_def example_cx_fields example_locals_def example_client_def example_user_def del: One_nat_def)
  have "\<exists>st' out. m_join (example_cx 1) [''nick'', ''#a''] example_hall = Some (st', out) \<and>
    stat st' (cc_sptr (example_cx 1)) 0 = (if \<not> frozen (example_cx 1) example_hall \<and> admitted (example_cx 1) example_hall example_user ''#a'' 0 None then Some 0 else None)"
  proof (rule join_admission_exact [OF H])
    show "\<not> IsMember example_hall (cc_sptr (example_cx 1)) 0" using IsMember_stat [OF H] by (simp add: example_cx_fields example_hall_ok(3))
    show "find_channel example_hall ''#a'' = Some 0" by (rule f)
    show "char_at ''#a'' 0 CHR ''#''" "list_all (\<lambda>c. \<not> bad_channel_char c) ''#a''" "length ''#a'' \<le> CHANNELLEN"
      by (simp_all add: char_at_def bad_channel_char_def CHANNELLEN_def)
  qed (simp_all add: c example_cx_fields example_locals_def example_client_def MyClient_def MyConnect_def IsClient_def del: One_nat_def)
  then show ?thesis using example_hall_admits z by (simp add: example_cx_fields example_hall_ok(3) del: One_nat_def)
qed

end
