(* ===== verification/Exit_Laws.thy ===== *)
theory Exit_Laws
  imports Exit_Client Channel_Laws
begin

section \<open>Who leaves is gone (src/src/s_misc.c, src/src/list.c)\<close>

text \<open>
  The exit of a user and the split of a server, on a consistent network: the list of clients, the table of names, the
  channels and the invitations forget exactly those that leave.
\<close>

subsection \<open>The links of a user\<close>

lemma user_at_Some: "is_user st p \<Longrightarrow> c_user (cs_clients st p) = Some (user_at st p)"
  by (auto simp: is_user_def user_at_def)

lemma leave_all_ok:
  assumes "settled U st" and "p \<in> U"
  shows "\<exists>st1. leave_all p st = Some st1 \<and> moved U st st1 \<and> stat st1 = (stat st)(p := \<lambda>_. None)"
  using assms
proof (induction "card (set (u_channel (user_at st p)))" arbitrary: st rule: less_induct)
  case less
  have u: "is_user st p" using settledD(4) [OF less.prems(1)] less.prems(2) by simp
  note cu = user_at_Some [OF u]
  have l: "user_links_ok st p (user_at st p)" using settledD(3) [OF less.prems(1)] u by (simp add: links_ok_def)
  have joined: "a \<in> set (u_channel (user_at st p)) \<longleftrightarrow> stat st p a \<noteq> None" for a
    using l by (auto simp: stat_None user_links_ok_def)
  show ?case
  proof (cases "u_channel (user_at st p)")
    case Nil
    then have "stat st p a = None" for a using joined [of a] by simp
    then show ?thesis using Nil cu less.prems(1) moved_refl by (subst leave_all.simps) (auto simp: fun_eq_iff)
  next
    case (Cons a as)
    then have "IsMember st p a" using cu by (simp add: IsMember_def)
    then obtain s1 where s1: "remove_user_from_channel p a st = Some s1" "moved U st s1" "stat s1 = (stat st)(p := (stat st p)(a := None))"
      by (rule moved_remove [OF less.prems(1)])
    note ok1 = moved_settled [OF s1(2)]
    have u1: "is_user s1 p" using settledD(4) [OF ok1] less.prems(2) by simp
    then have "user_links_ok s1 p (user_at s1 p)" using settledD(3) [OF ok1] by (simp add: links_ok_def)
    then have "b \<in> set (u_channel (user_at s1 p)) \<longleftrightarrow> stat s1 p b \<noteq> None" for b by (auto simp: stat_None user_links_ok_def)
    then have "set (u_channel (user_at s1 p)) = set (u_channel (user_at st p)) - {a}" by (auto simp: joined s1(3) split: if_splits)
    then have "card (set (u_channel (user_at s1 p))) < card (set (u_channel (user_at st p)))"
      using Cons by (auto intro!: psubset_card_mono)
    from less.hyps [OF this ok1 less.prems(2)] show ?thesis
      using s1 Cons cu moved_trans [OF s1(2)] by (subst leave_all.simps) (auto simp: fun_eq_iff)
  qed
qed

lemma uninvite_all_ok:
  assumes "settled U st" and "p \<in> U"
  shows "\<exists>st1. uninvite_all p st = Some st1 \<and> moved U st st1 \<and> stat st1 = stat st \<and> u_invited (user_at st1 p) = []"
  using assms
proof (induction "u_invited (user_at st p)" arbitrary: st)
  case Nil
  have "is_user st p" using settledD(4) [OF Nil.prems(1)] Nil.prems(2) by simp
  then show ?case using user_at_Some [of st p] Nil moved_refl by (subst uninvite_all.simps) (auto simp: Nil(1) [symmetric])
next
  case (Cons a as)
  have u: "is_user st p" using settledD(4) [OF Cons.prems(1)] Cons.prems(2) by simp
  have a: "a \<in> set (cs_channel st)" using invited_live [OF settledD(3) [OF Cons.prems(1)] u] Cons.hyps(2) [symmetric] by auto
  obtain s1 where s1: "del_invite p a st = Some s1" "moved U st s1" "stat s1 = stat st" "cs_channel s1 = cs_channel st"
    by (rule moved_del_invite [OF Cons.prems(1,2) a])
  have "as = u_invited (user_at s1 p)"
    using s1(1) u Cons.hyps(2) [symmetric] by (auto simp: del_invite_def upd_user_eq chan_simps)
  from Cons.hyps(1) [OF this moved_settled [OF s1(2)] Cons.prems(2)] show ?case
    using s1 user_at_Some [OF u] Cons.hyps(2) [symmetric] moved_trans [OF s1(2)] by (subst uninvite_all.simps) auto
qed

lemma drop_links_ok:
  assumes ok: "settled U st" and p: "p \<in> U"
  shows "\<exists>st1. drop_links p st = Some st1 \<and> moved U st st1 \<and> stat st1 = (stat st)(p := \<lambda>_. None) \<and> u_invited (user_at st1 p) = []"
proof -
  obtain s1 where s1: "leave_all p st = Some s1" "moved U st s1" "stat s1 = (stat st)(p := \<lambda>_. None)"
    using leave_all_ok [OF ok p] by blast
  then show ?thesis using uninvite_all_ok [OF moved_settled [OF s1(2)] p] moved_trans [OF s1(2)] by (auto simp: drop_links_def)
qed

subsection \<open>A struct is freed\<close>

definition forget :: "addr \<Rightarrow> chan_state \<Rightarrow> chan_state" where
  "forget p st = st\<lparr>cs_clients := (cs_clients st)(p := freed_client)\<rparr>"

lemma forget_ok:
  assumes ok: "settled U st" and s: "\<And>a. stat st p a = None" and i: "p \<in> U \<Longrightarrow> u_invited (user_at st p) = []"
  shows "settled (U - {p}) (forget p st)" "stat (forget p st) = stat st"
proof -
  let ?st = "forget p st"
  have f: "cs_channels ?st = cs_channels st" "cs_channel ?st = cs_channel st" "cs_table ?st = cs_table st" "cs_count ?st = cs_count st" "cs_next ?st = cs_next st"
    "members_of ?st = members_of st" "invites_of ?st = invites_of st"
    by (simp_all add: forget_def members_of_def invites_of_def fun_eq_iff)
  have u: "is_user ?st q \<longleftrightarrow> q \<noteq> p \<and> is_user st q" "q \<noteq> p \<Longrightarrow> user_at ?st q = user_at st q" for q
    by (auto simp: forget_def is_user_def user_at_def freed_client_def)
  show "stat ?st = stat st" by (simp add: stat_def fun_eq_iff f)
  have m: "p \<notin> set (members_of st a)" if "a \<in> set (cs_channel st)" for a using s [of a] that by (simp add: stat_None)
  have n: "p \<notin> set (invites_of st a)" if a: "a \<in> set (cs_channel st)" for a
  proof (cases "p \<in> U")
    case True
    then have "user_links_ok st p (user_at st p)" using settledD(3,4) [OF ok] by (simp add: links_ok_def)
    then show ?thesis using i [OF True] a by (simp add: user_links_ok_def)
  next
    case False
    then show ?thesis using settledD(3,4) [OF ok] a by (auto simp: links_ok_def chan_links_ok_iff)
  qed
  have "chans_ok ?st" using settledD(2) [OF ok] by (simp add: chans_ok_def f)
  moreover have "links_ok ?st"
  proof -
    have "chan_links_ok ?st a" if "a \<in> set (cs_channel st)" for a
      using that settledD(3) [OF ok] m n by (fastforce simp: links_ok_def chan_links_ok_iff f u)
    moreover have "user_links_ok ?st q (user_at ?st q)" if "is_user ?st q" for q
      using that settledD(3) [OF ok] by (simp add: links_ok_def user_links_ok_def f u)
    ultimately show ?thesis by (simp add: links_ok_def f)
  qed
  moreover have "is_user ?st q \<longleftrightarrow> q \<in> U - {p}" for q using settledD(4) [OF ok, of q] by (auto simp: u)
  moreover have "members_of ?st a \<noteq> []" if "a \<in> set (cs_channel ?st)" for a using settledD(7) [OF ok] that by (simp add: f)
  moreover have "\<not> IsClient freed_client" by (simp add: freed_client_def IsClient_def STAT_UNKNOWN_def STAT_CLIENT_def)
  ultimately show "settled (U - {p}) ?st"
    using settledD(5,6) [OF ok] by (auto simp: settled_def chan_inv_def forget_def)
qed

subsection \<open>A consistent network\<close>

text \<open>
  The users are those of the channels and stand in the list of clients, each client once; the table of names holds
  clients of the list; this server is there.
\<close>

definition net_ok :: "addr set \<Rightarrow> net_state \<Rightarrow> bool" where
  "net_ok U net \<longleftrightarrow>
     settled U (n_st net) \<and> distinct (n_list net) \<and> U \<subseteq> set (n_list net) \<and> (\<forall>p\<in>U. IsClient (cl net p)) \<and>
     client_table_ok (cs_clients (n_st net)) (n_tab net) \<and> entries (\<lambda>h. chain (n_tab net h)) \<subseteq> set (n_list net) \<and>
     (\<exists>m\<in>set (n_list net). IsMe (cl net m))"

text \<open>Exactly the clients of \<open>P\<close> are gone: from the list, from the table of names and from the channels.\<close>

abbreviation named :: "net_state \<Rightarrow> addr set" where "named net \<equiv> entries (\<lambda>h. chain (n_tab net h))"

definition dropped :: "addr set \<Rightarrow> net_state \<Rightarrow> net_state \<Rightarrow> bool" where
  "dropped P net net1 \<longleftrightarrow>
     n_list net1 = filter (\<lambda>q. q \<notin> P) (n_list net) \<and> (\<forall>q. q \<notin> P \<longrightarrow> still (cl net1 q) = still (cl net q)) \<and>
     named net1 = named net - P \<and> stat (n_st net1) = (\<lambda>q a. if q \<in> P then None else stat (n_st net) q a)"

lemma dropped_trans: "dropped P a b \<Longrightarrow> dropped Q b c \<Longrightarrow> dropped (P \<union> Q) a c"
  by (auto simp: dropped_def fun_eq_iff intro: filter_cong)

lemma dropped_none: "dropped {} net net"
  by (simp add: dropped_def)

lemma still_more:
  assumes "still c = still d"
  shows "c_uplink c = c_uplink d" "c_from c = c_from d"
  using assms by (auto simp: still_def dest: arg_cong [where f = c_uplink] arg_cong [where f = c_from])

lemma table_forget:
  assumes t: "client_table_ok cs tab" and e: "entries (\<lambda>h. chain (tab h)) \<subseteq> L"
    and c: "\<And>q. q \<noteq> p \<Longrightarrow> c_name (cs1 q) = c_name (cs q)"
  defines "tab1 \<equiv> snd (del_from_client_hash_table (c_name (cs p)) p tab)"
  shows "client_table_ok cs1 tab1" "entries (\<lambda>h. chain (tab1 h)) = entries (\<lambda>h. chain (tab h)) - {p}" "entries (\<lambda>h. chain (tab1 h)) \<subseteq> L - {p}"
proof -
  let ?key = "\<lambda>q. c_name (cs q)" and ?tab = "\<lambda>h. chain (tab h)"
  have t0: "nickh.table_ok ?key tab" using t by (simp add: client_table_ok_iff)
  have t1: "nickh.table_ok ?key tab1"
    using nickh.table_ok_unlink [OF t0, of "hash_nick_name (?key p)" p] by (simp add: tab1_def del_from_client_hash_table_def)
  show "entries (\<lambda>h. chain (tab1 h)) = entries ?tab - {p}"
    using nickh.entries_remove1 [of ?key ?tab p] t0
    by (simp add: tab1_def del_from_client_hash_table_def nickh.chain_unlink nickh.table_ok_def)
  then show E: "entries (\<lambda>h. chain (tab1 h)) \<subseteq> L - {p}" using e by auto
  have "nickh.table_ok (\<lambda>q. c_name (cs1 q)) tab1 = nickh.table_ok ?key tab1"
    by (rule nickh.table_ok_key_cong) (use E c in auto)
  then show "client_table_ok cs1 tab1" using t1 by (simp add: client_table_ok_iff)
qed

lemma remove1_filter: "distinct xs \<Longrightarrow> remove1 p xs = filter (\<lambda>q. q \<notin> {p}) xs"
  by (simp add: distinct_remove1_removeAll) (induction xs, auto)

text \<open>The end of all exits: the name goes, the client leaves the list.\<close>

lemma finish_ok:
  assumes net: "net_ok U net" and st: "moved U (n_st net) st" "stat st = (stat (n_st net))(p := \<lambda>_. None)"
    and i: "p \<in> U \<Longrightarrow> u_invited (user_at st p) = []" and me: "\<not> IsMe (cl net p)"
  shows "\<exists>net1 out. remove_client_from_list p (unhash p (net\<lparr>n_st := st\<rparr>)) = Some (net1, out) \<and> net_ok (U - {p}) net1 \<and> dropped {p} net net1"
proof -
  have same: "still (cs_clients st q) = still (cl net q)" for q using st(1) by (simp add: moved_def same_clients_def)
  note name = still_fields(1) [OF same]
  have stat0: "stat st p a = None" for a by (simp add: st(2))
  note F = forget_ok [OF moved_settled [OF st(1)] stat0 i]
  have n: "settled U (n_st net)" "distinct (n_list net)" "U \<subseteq> set (n_list net)" "client_table_ok (cs_clients (n_st net)) (n_tab net)"
    "entries (\<lambda>h. chain (n_tab net h)) \<subseteq> set (n_list net)" "\<And>q. q \<in> U \<Longrightarrow> IsClient (cl net q)"
    using net by (auto simp: net_ok_def)
  obtain m where m: "m \<in> set (n_list net)" "IsMe (cl net m)" using net by (auto simp: net_ok_def)
  have mp: "m \<noteq> p" using m(2) me by auto
  let ?net1 = "net\<lparr>n_st := forget p st, n_list := remove1 p (n_list net), n_tab := snd (del_from_client_hash_table (c_name (cl net p)) p (n_tab net)),
      n_count := uncount (cs_clients st p) (n_count net)\<rparr>"
  have "n_list net \<noteq> [p]" using m(1) mp by auto
  then have "\<exists>out. remove_client_from_list p (unhash p (net\<lparr>n_st := st\<rparr>)) = Some (?net1, out)"
    by (simp add: remove_client_from_list_def unhash_def Let_def forget_def name)
  moreover have q: "still (cl ?net1 q) = still (cl net q)" if "q \<noteq> p" for q using that same by (simp add: forget_def)
  have T: "client_table_ok (cs_clients (forget p st)) (n_tab ?net1)" "named ?net1 = named net - {p}" "named ?net1 \<subseteq> set (n_list net) - {p}"
    using table_forget [OF n(4,5), of p "cs_clients (forget p st)"] name by (auto simp: forget_def)
  have "dropped {p} net ?net1"
    using q n(2) T(2) by (simp add: dropped_def remove1_filter F(2) st(2) fun_eq_iff)
  moreover have "net_ok (U - {p}) ?net1"
  proof -
    have "IsMe (cl ?net1 m)" using m(2) still_fields(5) [OF q [OF mp]] by (simp add: IsMe_def)
    moreover have "IsClient (cl ?net1 r)" if "r \<in> U - {p}" for r using n(6) [of r] still_fields(5) [OF q [of r]] that by (simp add: IsClient_def)
    ultimately show ?thesis using n(2,3) F(1) T m(1) mp by (auto simp: net_ok_def)
  qed
  ultimately show ?thesis by blast
qed

subsection \<open>A user exits\<close>

lemma net_okD:
  assumes "net_ok U net"
  shows "settled U (n_st net)" "distinct (n_list net)" "U \<subseteq> set (n_list net)" "\<And>q. q \<in> U \<longleftrightarrow> IsPerson (cl net q)"
    "\<And>q. q \<in> U \<longleftrightarrow> IsClient (cl net q)"
proof -
  show s: "settled U (n_st net)" "distinct (n_list net)" "U \<subseteq> set (n_list net)" using assms by (simp_all add: net_ok_def)
  show c: "q \<in> U \<longleftrightarrow> IsClient (cl net q)" for q using assms settledD(5) [OF s(1)] by (auto simp: net_ok_def)
  show "q \<in> U \<longleftrightarrow> IsPerson (cl net q)" for q using settledD(4) [OF s(1), of q] c [of q] by (auto simp: IsPerson_def is_user_def)
qed

lemma status_apart: "IsClient c \<Longrightarrow> \<not> IsServer c \<and> \<not> IsMe c" "IsServer c \<Longrightarrow> \<not> IsMe c"
  by (simp_all add: IsClient_def IsServer_def IsMe_def STAT_CLIENT_def STAT_SERVER_def STAT_ME_def)

lemma exit_in_split_ok:
  assumes net: "net_ok U net" and p: "p \<in> U"
  shows "\<exists>net1 out. exit_one_client_in_split sx p net = Some (net1, out) \<and> net_ok (U - {p}) net1 \<and> dropped {p} net net1"
proof -
  obtain st where st: "drop_links p (n_st net) = Some st" "moved U (n_st net) st" "stat st = (stat (n_st net))(p := \<lambda>_. None)" "u_invited (user_at st p) = []"
    using drop_links_ok [OF net_okD(1) [OF net] p] by blast
  then show ?thesis using finish_ok [OF net st(2,3)] p net_okD(5) [OF net, of p] status_apart(1)
    by (auto simp: exit_one_client_in_split_def Let_def)
qed

lemma exit_one_user_ok:
  assumes net: "net_ok U net" and p: "p \<in> U" "c_name (cl net p) \<noteq> []"
  shows "\<exists>net1 out. exit_one_client capab cptr p from comment net = Some (net1, out) \<and> net_ok (U - {p}) net1 \<and> dropped {p} net net1"
proof -
  obtain st where st: "drop_links p (n_st net) = Some st" "moved U (n_st net) st" "stat st = (stat (n_st net))(p := \<lambda>_. None)" "u_invited (user_at st p) = []"
    using drop_links_ok [OF net_okD(1) [OF net] p(1)] by blast
  note c = status_apart(1) [of "cl net p"]
  show ?thesis using finish_ok [OF net st(2,3)] st(1,4) p c net_okD(4,5) [OF net, of p]
    by (auto simp: exit_one_client_def person_parts_def Let_def)
qed

text \<open>Closing the connection changes only the struct of the client.\<close>

lemma settled_upd_client:
  assumes ok: "settled U st" and f: "\<And>c. c_user (f c) = c_user c" "\<And>c. c_name (f c) = c_name c" "\<And>c. c_status (f c) = c_status c"
  shows "settled U (upd_client p f st)" "stat (upd_client p f st) = stat st"
proof -
  let ?st = "upd_client p f st"
  have e: "cs_channels ?st = cs_channels st" "cs_channel ?st = cs_channel st" "cs_table ?st = cs_table st" "cs_count ?st = cs_count st" "cs_next ?st = cs_next st"
    "members_of ?st = members_of st" "invites_of ?st = invites_of st" "is_user ?st = is_user st" "user_at ?st = user_at st"
    by (simp_all add: upd_client_def members_of_def invites_of_def is_user_def user_at_def f fun_eq_iff)
  show "stat ?st = stat st" by (simp add: stat_def fun_eq_iff e)
  have c: "IsClient (cs_clients ?st q) = IsClient (cs_clients st q)" "c_name (cs_clients ?st q) = c_name (cs_clients st q)" for q
    by (simp_all add: upd_client_def f IsClient_def)
  show "settled U ?st" using ok
    by (auto simp: settled_def chan_inv_def chans_ok_def links_ok_def chan_links_ok_iff user_links_ok_def e c)
qed

lemma close_local_ok:
  assumes net: "net_ok U net" and c: "close_local me_name cptr p comment net = (net1, out)"
  shows "net_ok U net1" "n_list net1 = n_list net" "stat (n_st net1) = stat (n_st net)" "\<And>q. q \<noteq> p \<Longrightarrow> cl net1 q = cl net q"
    "\<And>q. c_uplink (cl net1 q) = c_uplink (cl net q)" "\<And>q. c_status (cl net1 q) = c_status (cl net q)"
    "\<And>q. c_name (cl net1 q) = c_name (cl net q)" "n_tab net1 = n_tab net"
proof -
  let ?f = "\<lambda>c. c\<lparr>c_flags := c_flags c OR FLAGS_CLOSING OR FLAGS_DEADSOCKET, c_sockerr := 0, c_fd := - 2, c_from := 0\<rparr>"
  have st: "n_st net1 = upd_client p ?f (n_st net)" "n_tab net1 = n_tab net" and l: "n_list net1 = n_list net"
    using c by (auto simp: close_local_def Let_def)
  have s: "settled U (n_st net1)" and e: "stat (n_st net1) = stat (n_st net)"
    using settled_upd_client [OF net_okD(1) [OF net], of ?f p] by (simp_all add: st)
  show "n_list net1 = n_list net" "stat (n_st net1) = stat (n_st net)" "n_tab net1 = n_tab net" by (fact l, fact e, fact st(2))
  show fields: "c_uplink (cl net1 q) = c_uplink (cl net q)" "c_status (cl net1 q) = c_status (cl net q)" "c_name (cl net1 q) = c_name (cl net q)" for q
    by (simp_all add: st upd_client_def)
  show "q \<noteq> p \<Longrightarrow> cl net1 q = cl net q" for q by (simp add: st upd_client_def)
  have "client_table_ok (cs_clients (n_st net1)) (n_tab net1) = client_table_ok (cs_clients (n_st net)) (n_tab net)"
    using fields(3) by (simp add: client_table_ok_iff st(2))
  then show "net_ok U net1" using net s l by (simp add: net_ok_def st(2) IsClient_def IsMe_def fields)
qed

lemma exit_user_ok:
  assumes net: "net_ok U net" and p: "p \<in> U" "c_name (cl net p) \<noteq> []"
  shows "\<exists>net1 out. exit_client capab me_name cptr p from comment net = Some (net1, out, cptr = Some p) \<and> net_ok (U - {p}) net1 \<and> dropped {p} net net1"
proof (cases "MyConnect (cl net p)")
  case False
  then show ?thesis using exit_one_user_ok [OF net p] by (auto simp: exit_client_def)
next
  case True
  obtain net0 out0 where c: "close_local me_name cptr p comment net = (net0, out0)" by fastforce
  note C = close_local_ok [OF net c]
  have n: "c_name (cl net0 p) \<noteq> []" using C(7) p(2) by simp
  obtain net1 out where r: "exit_one_client capab cptr p from comment net0 = Some (net1, out)" "net_ok (U - {p}) net1" "dropped {p} net0 net1"
    using exit_one_user_ok [OF C(1) p(1) n] by blast
  then have "dropped {p} net net1" using C(2-4,8) by (simp add: dropped_def fun_eq_iff)
  then show ?thesis using True c r by (auto simp: exit_client_def)
qed

text \<open>What follows for whoever asks for a name, a channel or an invitation afterwards.\<close>

lemma dropped_find:
  assumes net: "net_ok U net" "net_ok V net1" and d: "dropped P net net1"
  shows "hash_find_client (cs_clients (n_st net1)) (n_tab net1) name None =
    (case hash_find_client (cs_clients (n_st net)) (n_tab net) name None of Some q \<Rightarrow> if q \<in> P then None else Some q | None \<Rightarrow> None)"
proof -
  have t: "client_table_ok (cs_clients (n_st net)) (n_tab net)" "client_table_ok (cs_clients (n_st net1)) (n_tab net1)"
    using net by (simp_all add: net_ok_def)
  have "named net1 = named net - P" "\<And>q. q \<notin> P \<Longrightarrow> c_name (cl net1 q) = c_name (cl net q)"
    using d by (auto simp: dropped_def dest: still_fields(1))
  then have f: "hash_find_client (cs_clients (n_st net1)) (n_tab net1) name None = Some q \<longleftrightarrow>
      q \<notin> P \<and> hash_find_client (cs_clients (n_st net)) (n_tab net) name None = Some q" for q
    using hash_find_client_exact [OF t(1), of name q] hash_find_client_exact [OF t(2), of name q] by auto
  show ?thesis
  proof (cases "hash_find_client (cs_clients (n_st net)) (n_tab net) name None")
    case None
    then have "hash_find_client (cs_clients (n_st net1)) (n_tab net1) name None \<noteq> Some q" for q by (simp add: f)
    then show ?thesis using None by (cases "hash_find_client (cs_clients (n_st net1)) (n_tab net1) name None") auto
  next
    case (Some q)
    then have "hash_find_client (cs_clients (n_st net1)) (n_tab net1) name None = Some r \<longleftrightarrow> q \<notin> P \<and> r = q" for r by (auto simp: f)
    then show ?thesis using Some by (cases "hash_find_client (cs_clients (n_st net1)) (n_tab net1) name None") auto
  qed
qed

lemma users_only:
  assumes "net_ok U net" and "p \<notin> U" and "a \<in> set (cs_channel (n_st net))"
  shows "p \<notin> set (members_of (n_st net) a)" "p \<notin> set (invites_of (n_st net) a)"
  using settledD(3,4) [OF net_okD(1) [OF assms(1)]] assms(2,3) by (auto simp: links_ok_def chan_links_ok_iff)

text \<open>
  C17: \<open>exit_client\<close> of a user, local or remote, returns and leaves a consistent network in which exactly this user is missing:
  it is off the list of clients, its name is free, it is in no channel and on no list of invitations, and for everybody else the lookup of
  names and the status in every channel are what they were.
\<close>

theorem exit_client_forgets:
  assumes net: "net_ok U net" and p: "p \<in> U" "c_name (cl net p) \<noteq> []"
  shows "\<exists>net1 out. exit_client capab me_name cptr p from comment net = Some (net1, out, cptr = Some p) \<and> net_ok (U - {p}) net1 \<and>
    n_list net1 = filter (\<lambda>q. q \<noteq> p) (n_list net) \<and>
    (\<forall>name. hash_find_client (cs_clients (n_st net1)) (n_tab net1) name None =
       (case hash_find_client (cs_clients (n_st net)) (n_tab net) name None of Some q \<Rightarrow> if q = p then None else Some q | None \<Rightarrow> None)) \<and>
    (\<forall>a\<in>set (cs_channel (n_st net1)). p \<notin> set (members_of (n_st net1) a) \<union> set (invites_of (n_st net1) a)) \<and>
    stat (n_st net1) = (stat (n_st net))(p := \<lambda>_. None)"
proof -
  obtain net1 out where r: "exit_client capab me_name cptr p from comment net = Some (net1, out, cptr = Some p)" "net_ok (U - {p}) net1" "dropped {p} net net1"
    using exit_user_ok [OF net p] by blast
  have "n_list net1 = filter (\<lambda>q. q \<noteq> p) (n_list net)" "stat (n_st net1) = (stat (n_st net))(p := \<lambda>_. None)"
    using r(3) by (auto simp: dropped_def fun_eq_iff)
  moreover have "p \<notin> set (members_of (n_st net1) a) \<union> set (invites_of (n_st net1) a)" if "a \<in> set (cs_channel (n_st net1))" for a
    using users_only [OF r(2) _ that, of p] by simp
  ultimately show ?thesis using r(1,2) dropped_find [OF net r(2,3), unfolded singleton_iff] by auto
qed

text \<open>This server 10 with the server 20, behind it the server 30 with the user 40, and the user 50 here; both users are in a channel.\<close>

definition example_clients :: clients where
  "example_clients p =
     (if p = 10 then (example_client ''me.net'')\<lparr>c_status := STAT_ME\<rparr>
      else if p = 20 then (example_client ''a.net'')\<lparr>c_status := STAT_SERVER, c_uplink := 10, c_fd := 5\<rparr>
      else if p = 30 then (example_client ''far.net'')\<lparr>c_status := STAT_SERVER, c_uplink := 20, c_fd := - 1\<rparr>
      else if p = 40 then (example_client ''bob'')\<lparr>c_user := Some example_user, c_uplink := 30, c_fd := - 1\<rparr>
      else if p = 50 then (example_client ''near'')\<lparr>c_user := Some example_user, c_uplink := 10, c_fd := 6\<rparr>
      else freed_client)"

definition example_net :: net_state where
  "example_net =
     \<lparr>n_st = add_user_to_channel 0 50 CHFL_VOICE (add_user_to_channel 0 40 CHFL_CHANOP (new_channel 100 ''#a'' (no_channels example_clients))),
      n_list = [50, 40, 30, 20, 10],
      n_tab = foldr (\<lambda>p. add_to_client_hash_table (c_name (example_clients p)) p) [50, 40, 30, 20, 10] clear_hash_table,
      n_opers = [], n_servers = [20], n_was_split = False,
      n_count = \<lparr>cn_unknown = 0, cn_local = 1, cn_myserver = 1, cn_myulined = 0, cn_server = 2, cn_total = 2, cn_oper = 0, cn_invisi = 0\<rparr>\<rparr>"

lemma example_clients_user: "c_user (example_clients p) = Some u \<Longrightarrow> u_channel u = [] \<and> u_invited u = [] \<and> u_joined u = 0"
  by (auto simp: example_clients_def example_client_def freed_client_def example_user_def split: if_splits)

lemma example_net_channels:
  "settled {40, 50} (n_st example_net)" "same_clients (no_channels example_clients) (n_st example_net)"
  "stat (n_st example_net) 40 0 = Some CHFL_CHANOP" "stat (n_st example_net) 50 0 = Some CHFL_VOICE"
proof -
  let ?s = "no_channels example_clients" and ?U = "{40, 50} :: addr set"
  have u: "{p. c_user (example_clients p) \<noteq> None} = ?U" by (auto simp: example_clients_def example_client_def freed_client_def)
  have "chan_inv ?U ?s"
    using no_channels_inv(1) [of example_clients] example_clients_user unfolding u by blast
  then have ok: "settled ?U ?s"
    by (auto simp: settled_def no_channels_def example_clients_def freed_client_def IsClient_def STAT_CLIENT_def STAT_ME_def STAT_SERVER_def STAT_UNKNOWN_def
        example_client_def NICKLEN_def split: if_splits)
  have e: "cs_next ?s = 0" "cs_channel ?s = []" "stat ?s = (\<lambda>_ _. None)" by (simp_all add: no_channels_def stat_def fun_eq_iff)
  have f: "find_channel ?s ''#a'' = None" using find_channel_None [OF settledD(2) [OF ok]] by (simp add: e)
  let ?s1 = "add_user_to_channel 0 40 CHFL_CHANOP (new_channel 100 ''#a'' ?s)"
  have "upd_chan 0 (\<lambda>_. cs_channels (new_channel 100 ''#a'' ?s) 0) (new_channel 100 ''#a'' ?s) = new_channel 100 ''#a'' ?s" by (rule upd_chan_self)
  then have A: "moved ?U ?s ?s1" "stat ?s1 = (\<lambda>q a. if q = 40 \<and> a = 0 then Some (CHFL_CHANOP AND STATUS_BITS) else None)" "cs_channel ?s1 = [0]"
    using moved_new_channel(1-3) [OF ok _ f quiet_chan_refl, where p = 40 and NOW = 100 and f = CHFL_CHANOP] by (auto simp: e fun_eq_iff)
  note ok1 = moved_settled [OF A(1)]
  have m: "(50::addr) \<in> ?U" "0 \<in> set (cs_channel ?s1)" "\<not> IsMember ?s1 50 0" using IsMember_stat [OF ok1] by (simp_all add: A(2,3))
  note A2 = moved_add_user [OF ok1 m, where f = CHFL_VOICE]
  have n: "n_st example_net = add_user_to_channel 0 50 CHFL_VOICE ?s1" by (simp add: example_net_def)
  show "settled ?U (n_st example_net)" "same_clients ?s (n_st example_net)" using A(1) A2(1) by (simp_all add: n moved_def same_clients_def)
  have "CHFL_CHANOP AND STATUS_BITS = CHFL_CHANOP" "CHFL_VOICE AND STATUS_BITS = CHFL_VOICE"
    by (simp_all add: STATUS_BITS_def CHFL_CHANOP_def CHFL_HALFOP_def CHFL_VOICE_def)
  then show "stat (n_st example_net) 40 0 = Some CHFL_CHANOP" "stat (n_st example_net) 50 0 = Some CHFL_VOICE" by (simp_all add: n A2(2) A(2))
qed

lemma example_net_clients:
  "c_name (cl example_net q) = c_name (example_clients q)" "c_status (cl example_net q) = c_status (example_clients q)"
  "c_uplink (cl example_net q) = c_uplink (example_clients q)"
proof -
  have "still (cl example_net q) = still (example_clients q)"
    using example_net_channels(2) by (simp add: same_clients_def no_channels_def)
  then show "c_name (cl example_net q) = c_name (example_clients q)" "c_status (cl example_net q) = c_status (example_clients q)"
    "c_uplink (cl example_net q) = c_uplink (example_clients q)" using still_fields(1,5) still_more(1) by blast+
qed

lemma add_names:
  assumes "client_table_ok cs tab" and "distinct ps" and "\<forall>p\<in>set ps. hash_find_client cs tab (c_name (cs p)) None = None"
    and "\<forall>p\<in>set ps. \<forall>q\<in>set ps. p \<noteq> q \<longrightarrow> mycmp (c_name (cs p)) (c_name (cs q)) \<noteq> 0"
  shows "client_table_ok cs (foldr (\<lambda>p. add_to_client_hash_table (c_name (cs p)) p) ps tab) \<and>
    (\<forall>n. hash_find_client cs (foldr (\<lambda>p. add_to_client_hash_table (c_name (cs p)) p) ps tab) n None =
       (case find (\<lambda>p. mycmp n (c_name (cs p)) = 0) ps of Some p \<Rightarrow> Some p | None \<Rightarrow> hash_find_client cs tab n None))"
  using assms
proof (induction ps)
  case (Cons p ps)
  let ?tab = "foldr (\<lambda>p. add_to_client_hash_table (c_name (cs p)) p) ps tab"
  have IH: "client_table_ok cs ?tab"
    "\<And>n. hash_find_client cs ?tab n None = (case find (\<lambda>p. mycmp n (c_name (cs p)) = 0) ps of Some p \<Rightarrow> Some p | None \<Rightarrow> hash_find_client cs tab n None)"
    using Cons by auto
  have "find (\<lambda>q. mycmp (c_name (cs p)) (c_name (cs q)) = 0) ps = None" using Cons.prems(2,4) by (auto simp: find_None_iff)
  then have "hash_find_client cs ?tab (c_name (cs p)) None = None" using IH(2) Cons.prems(3) by simp
  from client_add_find [OF IH(1) this] show ?case using IH(2) by simp
qed simp

lemma names_listed:
  assumes t: "client_table_ok cs tab" and f: "\<And>n. hash_find_client cs tab n None = (case find (Q n) ps of Some p \<Rightarrow> Some p | None \<Rightarrow> None)"
  shows "entries (\<lambda>h. chain (tab h)) \<subseteq> set ps"
proof
  fix p assume "p \<in> entries (\<lambda>h. chain (tab h))"
  then have "find (Q (c_name (cs p))) ps = Some p" using hash_find_client_exact [OF t, of "c_name (cs p)" p] f by (simp split: option.splits)
  then show "p \<in> set ps" by (auto simp: find_Some_iff)
qed

lemma example_net_ok: "net_ok {40, 50} example_net"
proof -
  let ?ps = "[50, 40, 30, 20, 10] :: addr list" and ?cs = "cs_clients (n_st example_net)"
  have c: "c_name (?cs p) = c_name (example_clients p)" for p by (rule example_net_clients(1))
  have tab: "n_tab example_net = foldr (\<lambda>p. add_to_client_hash_table (c_name (?cs p)) p) ?ps clear_hash_table" by (simp only: c) (simp add: example_net_def)
  have apart: "mycmp x y \<noteq> 0" if "length x \<noteq> length y" for x y using that by (auto simp: mycmp_zero_iff dest: map_eq_imp_length_eq)
  have lens: "inj_on (\<lambda>p. length (c_name (?cs p))) (set ?ps)" unfolding c by (simp add: example_clients_def example_client_def)
  have d: "\<forall>p\<in>set ?ps. \<forall>q\<in>set ?ps. p \<noteq> q \<longrightarrow> mycmp (c_name (?cs p)) (c_name (?cs q)) \<noteq> 0"
    using lens apart unfolding inj_on_def by blast
  have e: "hash_find_client ?cs clear_hash_table n None = None" for n by (simp add: hash_find_client_def clear_hash_table_def)
  have T: "client_table_ok ?cs (n_tab example_net)"
    "\<And>n. hash_find_client ?cs (n_tab example_net) n None = (case find (\<lambda>p. mycmp n (c_name (?cs p)) = 0) ?ps of Some p \<Rightarrow> Some p | None \<Rightarrow> None)"
    using add_names [OF client_table_clear _ _ d] unfolding tab e by simp_all
  have "named example_net \<subseteq> set ?ps" by (rule names_listed [OF T(1)]) (simp only: T(2))
  then show ?thesis using T(1) example_net_channels(1)
    by (simp add: net_ok_def example_net_clients(2) IsClient_def IsMe_def example_clients_def example_client_def STAT_ME_def STAT_CLIENT_def) (simp add: example_net_def)
qed

theorem exit_client_forgets_witness:
  "net_ok {40, 50} example_net \<and>
   (\<exists>net1 out. exit_client (\<lambda>_. 0) ''me.net'' (Some 50) 50 50 ''bye'' example_net = Some (net1, out, True) \<and> n_list net1 = [40, 30, 20, 10] \<and>
      stat (n_st net1) 50 0 = None \<and> stat (n_st net1) 40 0 = Some CHFL_CHANOP)"
proof -
  have "c_name (cl example_net 50) \<noteq> []" by (simp add: example_net_clients(1) example_clients_def example_client_def)
  from exit_client_forgets [OF example_net_ok _ this, of "\<lambda>_. 0" "''me.net''" "Some 50" 50 "''bye''"] show ?thesis
    using example_net_ok example_net_channels(3) by (auto simp: example_net_def)
qed

subsection \<open>Behind a server\<close>

text \<open>Who reaches this server only through \<open>s\<close>, as the links \<open>uplink\<close> say.\<close>

inductive behind :: "net_state \<Rightarrow> addr \<Rightarrow> addr \<Rightarrow> bool" for net s where
  next_to: "q \<in> set (n_list net) \<Longrightarrow> IsPerson (cl net q) \<or> IsServer (cl net q) \<Longrightarrow> c_uplink (cl net q) = s \<Longrightarrow> behind net s q"
| further: "behind net s t \<Longrightarrow> IsServer (cl net t) \<Longrightarrow> q \<in> set (n_list net) \<Longrightarrow> IsPerson (cl net q) \<or> IsServer (cl net q) \<Longrightarrow>
    c_uplink (cl net q) = t \<Longrightarrow> behind net s q"

text \<open>The links make a tree: there is a depth that grows with each link.\<close>

definition tree_of :: "(addr \<Rightarrow> nat) \<Rightarrow> net_state \<Rightarrow> bool" where
  "tree_of h net \<longleftrightarrow> (\<forall>q\<in>set (n_list net). IsServer (cl net q) \<longrightarrow> h (c_uplink (cl net q)) < h q)"

lemma behind_listed: "behind net s q \<Longrightarrow> q \<in> set (n_list net) \<and> (IsPerson (cl net q) \<or> IsServer (cl net q))"
  by (erule behind.cases) auto

lemma behind_deeper: "behind net s q \<Longrightarrow> tree_of h net \<Longrightarrow> IsServer (cl net q) \<Longrightarrow> h s < h q"
  by (induction rule: behind.induct) (auto simp: tree_of_def dest: less_trans)

lemma behind_trans: "behind net t q \<Longrightarrow> behind net s t \<Longrightarrow> IsServer (cl net t) \<Longrightarrow> behind net s q"
  by (induction rule: behind.induct) (auto intro: behind.further)

text \<open>When a part leaves that takes along all that is behind it, the rest stays behind what it was behind.\<close>

lemma dropped_kept:
  assumes net: "net_ok U net" "net_ok V net1" and d: "dropped P net net1" and q: "q \<notin> P"
  shows "q \<in> set (n_list net1) \<longleftrightarrow> q \<in> set (n_list net)" "IsPerson (cl net1 q) = IsPerson (cl net q)" "IsServer (cl net1 q) = IsServer (cl net q)"
    "c_uplink (cl net1 q) = c_uplink (cl net q)" "IsClient (cl net1 q) = IsClient (cl net q)"
proof -
  have s: "still (cl net1 q) = still (cl net q)" using d q by (simp add: dropped_def)
  show "IsClient (cl net1 q) = IsClient (cl net q)" "IsServer (cl net1 q) = IsServer (cl net q)"
    using still_fields(5) [OF s] by (simp_all add: IsClient_def IsServer_def)
  then show "IsPerson (cl net1 q) = IsPerson (cl net q)" using net_okD(4,5) [OF net(1), of q] net_okD(4,5) [OF net(2), of q] by simp
  show "c_uplink (cl net1 q) = c_uplink (cl net q)" by (rule still_more [OF s])
  show "q \<in> set (n_list net1) \<longleftrightarrow> q \<in> set (n_list net)" using d q by (simp add: dropped_def)
qed

lemma behind_rest:
  assumes net: "net_ok U net" "net_ok V net1" and d: "dropped P net net1"
    and closed: "\<And>q. q \<in> set (n_list net) \<Longrightarrow> IsPerson (cl net q) \<or> IsServer (cl net q) \<Longrightarrow> c_uplink (cl net q) \<in> P \<Longrightarrow>
      IsServer (cl net (c_uplink (cl net q))) \<Longrightarrow> q \<in> P"
  shows "behind net1 s q \<longleftrightarrow> behind net s q \<and> q \<notin> P"
proof
  note K = dropped_kept [OF net d]
  have gone: "q \<in> set (n_list net1) \<Longrightarrow> q \<notin> P" for q using d by (auto simp: dropped_def)
  show "behind net s q \<and> q \<notin> P" if "behind net1 s q"
    using that
  proof (induction rule: behind.induct)
    case (next_to q)
    then show ?case using K [OF gone [OF next_to(1)]] gone by (auto intro: behind.next_to)
  next
    case (further t q)
    then show ?case using K [OF gone [OF further(3)]] K(3) [of t] gone by (auto intro: behind.further)
  qed
  have "behind net s q \<Longrightarrow> q \<notin> P \<longrightarrow> behind net1 s q"
  proof (induction rule: behind.induct)
    case (next_to q)
    then show ?case using K [of q] by (auto intro: behind.next_to)
  next
    case (further t q)
    show ?case
    proof
      assume q: "q \<notin> P"
      then have t: "t \<notin> P" using closed [OF further.hyps(3,4)] further.hyps(2,5) by auto
      then show "behind net1 s q" using further K [OF q] K(3) [OF t] by (auto intro: behind.further)
    qed
  qed
  then show "behind net s q \<and> q \<notin> P \<Longrightarrow> behind net1 s q" by simp
qed

lemma tree_rest:
  assumes net: "net_ok U net" "net_ok V net1" and d: "dropped P net net1" and t: "tree_of h net"
  shows "tree_of h net1"
proof -
  have "q \<in> set (n_list net1) \<Longrightarrow> q \<notin> P" for q using d by (auto simp: dropped_def)
  then show ?thesis using t dropped_kept [OF net d] by (auto simp: tree_of_def)
qed

subsection \<open>A server exits\<close>

abbreviation persons_of :: "addr \<Rightarrow> net_state \<Rightarrow> addr list \<Rightarrow> addr set" where
  "persons_of s net as \<equiv> {q \<in> set as. c_uplink (cl net q) = s \<and> IsPerson (cl net q)}"

lemma split_persons_ok:
  assumes "net_ok U net" and "distinct as" and "set as \<subseteq> set (n_list net)"
  shows "\<exists>net1 out. split_persons sx s as net = Some (net1, out) \<and> net_ok (U - persons_of s net as) net1 \<and> dropped (persons_of s net as) net net1"
  using assms
proof (induction as arbitrary: U net)
  case Nil
  then show ?case using dropped_none by simp
next
  case (Cons a as)
  let ?P = "persons_of s"
  show ?case
  proof (cases "c_uplink (cl net a) = s \<and> IsPerson (cl net a)")
    case False
    then have "?P net (a # as) = ?P net as" by auto
    then show ?thesis using Cons.IH [of U net] Cons.prems False by auto
  next
    case True
    then have a: "a \<in> U" using net_okD(4) [OF Cons.prems(1)] by simp
    obtain net1 out where r: "exit_one_client_in_split sx a net = Some (net1, out)" "net_ok (U - {a}) net1" "dropped {a} net net1"
      using exit_in_split_ok [OF Cons.prems(1) a] by blast
    have l: "set as \<subseteq> set (n_list net1)" using Cons.prems(2,3) r(3) by (auto simp: dropped_def)
    have "IsPerson (cl net1 q) = IsPerson (cl net q)" "c_uplink (cl net1 q) = c_uplink (cl net q)" if "q \<in> set as" for q
      using dropped_kept(2,4) [OF Cons.prems(1) r(2,3), of q] Cons.prems(2) that by auto
    then have "?P net1 as = ?P net as" by (simp cong: conj_cong)
    then have P: "?P net (a # as) = {a} \<union> ?P net1 as" "U - ?P net (a # as) = U - {a} - ?P net1 as" using True by auto
    obtain net2 out2 where r2: "split_persons sx s as net1 = Some (net2, out2)" "net_ok (U - {a} - ?P net1 as) net2" "dropped (?P net1 as) net1 net2"
      using Cons.IH [OF r(2) _ l] Cons.prems(2) by auto
    have "dropped (?P net (a # as)) net net2" using dropped_trans [OF r(3) r2(3)] by (simp only: P(1))
    then show ?thesis using True r(1) r2(1,2) unfolding P(2) by auto
  qed
qed

text \<open>A server itself has no place in a channel.\<close>

lemma finish_server:
  assumes net: "net_ok U net" and s: "IsServer (cl net s)"
  shows "\<exists>net1 out. remove_client_from_list s (unhash s net) = Some (net1, out) \<and> net_ok (U - {s}) net1 \<and> dropped {s} net net1"
proof -
  have u: "s \<notin> U" using s net_okD(5) [OF net, of s] status_apart(1) by auto
  have "stat (n_st net) s a = None" for a using users_only(1) [OF net u] by (auto simp: stat_None)
  then have "stat (n_st net) = (stat (n_st net))(s := \<lambda>_. None)" by (simp add: fun_eq_iff)
  from finish_ok [OF net moved_refl [OF net_okD(1) [OF net]] this] show ?thesis using u status_apart(2) [OF s] by simp
qed

text \<open>The servers behind \<open>s\<close> measure the work that is left.\<close>

definition servers_behind :: "net_state \<Rightarrow> addr \<Rightarrow> addr set" where
  "servers_behind net s = {q. behind net s q \<and> IsServer (cl net q)}"

lemma servers_behind_less: "A \<subset> servers_behind net s \<Longrightarrow> card A < card (servers_behind net s)"
  by (rule psubset_card_mono [OF finite_subset [of _ "set (n_list net)"]]) (auto simp: servers_behind_def dest: behind_listed)

lemma step_down:
  assumes t: "tree_of h net" and a: "a \<in> set (n_list net)" "IsServer (cl net a)" "c_uplink (cl net a) = s"
  shows "card (servers_behind net a) < card (servers_behind net s)" "insert a {q. behind net a q} \<subseteq> {q. behind net s q}"
    "IsServer (cl net s) \<Longrightarrow> s \<notin> insert a {q. behind net a q}"
proof -
  have b: "behind net s a" using a by (auto intro: behind.next_to)
  have na: "\<not> behind net a a" using behind_deeper [OF _ t a(2)] by blast
  show sub: "insert a {q. behind net a q} \<subseteq> {q. behind net s q}" using behind_trans [OF _ b a(2)] b by auto
  have "servers_behind net a \<subset> servers_behind net s" using sub na a(2) b by (auto simp: servers_behind_def)
  then show "card (servers_behind net a) < card (servers_behind net s)" by (rule servers_behind_less)
  have "h s < h a" using t a by (auto simp: tree_of_def)
  then show "IsServer (cl net s) \<Longrightarrow> s \<notin> insert a {q. behind net a q}" using behind_deeper [OF _ t] by fastforce
qed

lemma branch_closed:
  assumes "q \<in> set (n_list net)" and "IsPerson (cl net q) \<or> IsServer (cl net q)" and "c_uplink (cl net q) \<in> insert a {q. behind net a q}"
    and "IsServer (cl net (c_uplink (cl net q)))"
  shows "q \<in> insert a {q. behind net a q}"
  using assms by (auto intro: behind.intros)

abbreviation left_by :: "bool \<Rightarrow> net_state \<Rightarrow> addr \<Rightarrow> addr set" where
  "left_by whole net s \<equiv> (if whole then insert s {q. behind net s q} else {q. behind net s q})"

text \<open>One round of the second loop, given what the exit of the server \<open>a\<close> and the rest of the loop do.\<close>

lemma split_round:
  assumes net: "net_ok U net" "tree_of h net" and s: "s \<in> set (n_list net)" "IsServer (cl net s)" and np: "persons_of s net (n_list net) = {}"
    and a: "a \<in> set (n_list net)" "IsServer (cl net a)" "c_uplink (cl net a) = s"
    and r: "net_ok (U - insert a {q. behind net a q}) net1" "dropped (insert a {q. behind net a q}) net net1"
  shows "tree_of h net1" "s \<in> set (n_list net1)" "IsServer (cl net1 s)" "persons_of s net1 (n_list net1) = {}"
    "card (servers_behind net1 s) < card (servers_behind net s)" "{q. behind net s q} = insert a {q. behind net a q} \<union> {q. behind net1 s q}"
proof -
  let ?B = "insert a {q. behind net a q}"
  note S = step_down [OF net(2) a] and K = dropped_kept [OF net(1) r]
  have out: "s \<notin> ?B" by (rule S(3) [OF s(2)])
  show "tree_of h net1" by (rule tree_rest [OF net(1) r net(2)])
  show "s \<in> set (n_list net1)" "IsServer (cl net1 s)" using K(1,3) [OF out] s by simp_all
  have rest: "behind net1 s q \<longleftrightarrow> behind net s q \<and> q \<notin> ?B" for q by (rule behind_rest [OF net(1) r branch_closed])
  show "{q. behind net s q} = ?B \<union> {q. behind net1 s q}" using S(2) by (auto simp: rest)
  have in1: "q \<in> set (n_list net1) \<Longrightarrow> q \<notin> ?B" for q using r(2) by (auto simp: dropped_def)
  have "q \<in> persons_of s net (n_list net)" if q: "q \<in> persons_of s net1 (n_list net1)" for q
  proof -
    have "q \<notin> ?B" using q in1 by simp
    from K(1,2,4) [OF this] q show ?thesis by simp
  qed
  then show "persons_of s net1 (n_list net1) = {}" using np by blast
  have "servers_behind net1 s = servers_behind net s - ?B"
    using rest K(3) by (auto simp: servers_behind_def)
  moreover have "a \<in> servers_behind net s" using S(2) a(2) by (auto simp: servers_behind_def)
  ultimately have "servers_behind net1 s \<subset> servers_behind net s" by auto
  then show "card (servers_behind net1 s) < card (servers_behind net s)" by (rule servers_behind_less)
qed

text \<open>After the first loop no user is linked to \<open>s\<close> itself.\<close>

lemma split_users:
  assumes net: "net_ok U net" "tree_of h net" and s: "s \<in> set (n_list net)" "IsServer (cl net s)"
  defines "P \<equiv> persons_of s net (n_list net)"
  assumes r: "net_ok (U - P) net1" "dropped P net net1"
  shows "tree_of h net1" "s \<in> set (n_list net1)" "IsServer (cl net1 s)" "persons_of s net1 (n_list net1) = {}"
    "servers_behind net1 s = servers_behind net s" "{q. behind net s q} = P \<union> {q. behind net1 s q}"
proof -
  note K = dropped_kept [OF net(1) r]
  have no: "\<not> IsServer (cl net q)" if "q \<in> P" for q using that status_apart(1) by (auto simp: P_def IsPerson_def)
  have out: "s \<notin> P" using no s(2) by auto
  show "tree_of h net1" by (rule tree_rest [OF net(1) r net(2)])
  show "s \<in> set (n_list net1)" "IsServer (cl net1 s)" using K(1,3) [OF out] s by simp_all
  have rest: "behind net1 s q \<longleftrightarrow> behind net s q \<and> q \<notin> P" for q by (rule behind_rest [OF net(1) r]) (use no in blast)
  have "P \<subseteq> {q. behind net s q}" by (auto simp: P_def intro: behind.next_to)
  then show "{q. behind net s q} = P \<union> {q. behind net1 s q}" by (auto simp: rest)
  have in1: "q \<in> set (n_list net1) \<Longrightarrow> q \<notin> P" for q using r(2) by (auto simp: dropped_def)
  have "q \<in> P" if q: "q \<in> persons_of s net1 (n_list net1)" for q
  proof -
    have "q \<notin> P" using q in1 by simp
    from K(1,2,4) [OF this] q show ?thesis by (simp add: P_def)
  qed
  then show "persons_of s net1 (n_list net1) = {}" using in1 by blast
  have "q \<in> servers_behind net1 s \<longleftrightarrow> q \<in> servers_behind net s" for q
    using rest [of q] K(3) [of q] no [of q] by (auto simp: servers_behind_def)
  then show "servers_behind net1 s = servers_behind net s" by auto
qed

lemma exit_one_server_ok:
  assumes "net_ok U net" and "tree_of h net" and "s \<in> set (n_list net)" and "IsServer (cl net s)" and "whole \<or> persons_of s net (n_list net) = {}"
  shows "\<exists>net1 out. exit_one_server sx whole s net = Some (net1, out) \<and> net_ok (U - left_by whole net s) net1 \<and> dropped (left_by whole net s) net net1"
  using assms
proof (induction "2 * card (servers_behind net s) + (if whole then 1 else 0)" arbitrary: U net s whole rule: less_induct)
  case less
  note net = less.prems(1) and t = less.prems(2) and s = less.prems(3,4)
  show ?case
  proof (cases whole)
    case False
    then have np: "persons_of s net (n_list net) = {}" using less.prems(5) by simp
    show ?thesis
    proof (cases "find (\<lambda>a. c_uplink (cl net a) = s \<and> IsServer (cl net a)) (n_list net)")
      case None
      have "\<not> behind net s q" for q
      proof
        assume "behind net s q"
        then show False by (induction rule: behind.induct) (use None np in \<open>auto simp: find_None_iff\<close>)
      qed
      then have L: "left_by whole net s = {}" using False by auto
      show ?thesis unfolding L using False None net dropped_none by (subst exit_one_server.simps) simp
    next
      case (Some a)
      then have a: "a \<in> set (n_list net)" "IsServer (cl net a)" "c_uplink (cl net a) = s" by (auto simp: find_Some_iff)
      have m: "2 * card (servers_behind net a) + (if True then 1 else 0) < 2 * card (servers_behind net s) + (if whole then 1 else 0)"
        using step_down(1) [OF t a] by simp
      obtain net1 out1 where r1: "exit_one_server sx True a net = Some (net1, out1)" "net_ok (U - left_by True net a) net1"
        "dropped (left_by True net a) net net1" using less.hyps [OF m net t a(1,2)] by blast
      note R = split_round [OF net t s np a r1(2,3) [unfolded if_True]]
      have "2 * card (servers_behind net1 s) + (if False then 1 else 0) < 2 * card (servers_behind net s) + (if whole then 1 else 0)"
        using R(5) by simp
      from less.hyps [OF this r1(2) R(1-3)] R(4)
      obtain net2 out2 where r2: "exit_one_server sx False s net1 = Some (net2, out2)" "net_ok (U - left_by True net a - left_by False net1 s) net2"
        "dropped (left_by False net1 s) net1 net2" by blast
      have L: "left_by whole net s = left_by True net a \<union> left_by False net1 s" using False R(6) by simp
      then have "U - left_by whole net s = U - left_by True net a - left_by False net1 s" by blast
      then show ?thesis using False Some r1(1) r2(1,2) dropped_trans [OF r1(3) r2(3)] L by (subst exit_one_server.simps) simp
    qed
  next
    case True
    let ?P = "persons_of s net (n_list net)"
    obtain net1 out1 where r1: "split_persons sx s (n_list net) net = Some (net1, out1)" "net_ok (U - ?P) net1" "dropped ?P net net1"
      using split_persons_ok [OF net net_okD(2) [OF net] order_refl] by blast
    note R = split_users [OF net t s r1(2,3)]
    have "2 * card (servers_behind net1 s) + (if False then 1 else 0) < 2 * card (servers_behind net s) + (if whole then 1 else 0)"
      using R(5) True by simp
    from less.hyps [OF this r1(2) R(1-3)] R(4)
    obtain net2 out2 where r2: "exit_one_server sx False s net1 = Some (net2, out2)" "net_ok (U - ?P - left_by False net1 s) net2"
      "dropped (left_by False net1 s) net1 net2" by blast
    have "s \<notin> left_by False net1 s" using behind_deeper [OF _ R(1,3)] by auto
    then have "IsServer (cl net2 s)" using dropped_kept(3) [OF r1(2) r2(2,3)] R(3) by blast
    from finish_server [OF r2(2) this]
    obtain net3 out3 where r3: "remove_client_from_list s (unhash s net2) = Some (net3, out3)" "net_ok (U - ?P - left_by False net1 s - {s}) net3"
      "dropped {s} net2 net3" by blast
    have L: "left_by whole net s = ?P \<union> left_by False net1 s \<union> {s}" using True R(6) by auto
    then have "U - left_by whole net s = U - ?P - left_by False net1 s - {s}" by blast
    then have "net_ok (U - left_by whole net s) net3" "dropped (left_by whole net s) net net3"
      using r3(2) dropped_trans [OF dropped_trans [OF r1(3) r2(3)] r3(3)] L by simp_all
    then show ?thesis using True r1(1) r2(1) r3(1) by (subst exit_one_server.simps) simp
  qed
qed

lemma behind_cong:
  assumes "n_list net1 = n_list net" and "\<And>q. c_uplink (cl net1 q) = c_uplink (cl net q)" and "\<And>q. IsServer (cl net1 q) = IsServer (cl net q)"
    and "\<And>q. IsPerson (cl net1 q) = IsPerson (cl net q)"
  shows "behind net1 s q \<longleftrightarrow> behind net s q"
proof
  show "behind net s q" if "behind net1 s q" using that by (induction rule: behind.induct) (use assms in \<open>auto intro: behind.intros\<close>)
  show "behind net1 s q" if "behind net s q" using that by (induction rule: behind.induct) (use assms in \<open>auto intro: behind.intros\<close>)
qed

lemma exit_server_ok:
  assumes net: "net_ok U net" and tree: "tree_of h net" and s: "s \<in> set (n_list net)" "IsServer (cl net s)"
  defines "B \<equiv> insert s {q. behind net s q}"
  shows "\<exists>net1 out. exit_client capab me_name cptr s from comment net = Some (net1, out, cptr = Some s) \<and> net_ok (U - B) net1 \<and> dropped B net net1"
proof -
  have me: "\<not> IsMe (cl net s)" using status_apart(2) [OF s(2)] .
  show ?thesis
  proof (cases "MyConnect (cl net s)")
    case False
    then show ?thesis using exit_one_server_ok [OF net tree s, of True] me s(2)
      by (auto simp: exit_client_def exit_one_client_def exit_server_def B_def)
  next
    case True
    obtain net0 out0 where c: "close_local me_name cptr s comment net = (net0, out0)" by fastforce
    note C = close_local_ok [OF net c]
    have status: "IsServer (cl net0 q) = IsServer (cl net q)" "IsMe (cl net0 q) = IsMe (cl net q)" "IsPerson (cl net0 q) = IsPerson (cl net q)" for q
      using C(6) [of q] net_okD(4,5) [OF net, of q] net_okD(4,5) [OF C(1), of q] by (simp_all add: IsServer_def IsMe_def IsClient_def)
    have B: "left_by True net0 s = B" using behind_cong [OF C(2,5) status(1,3)] by (auto simp: B_def)
    have s0: "tree_of h net0" "s \<in> set (n_list net0)" "IsServer (cl net0 s)" using tree s C(2,5) status by (simp_all add: tree_of_def)
    obtain net1 out where r: "exit_one_client capab cptr s from comment net0 = Some (net1, out)" "net_ok (U - B) net1" "dropped B net0 net1"
      using exit_one_server_ok [OF C(1) s0, of True] me s(2) unfolding B exit_one_client_def exit_server_def status
      by (simp del: append.simps) blast
    moreover have "still (cl net0 q) = still (cl net q)" if "q \<notin> B" for q using that C(4) [of q] by (auto simp: B_def)
    ultimately have "dropped B net net1" by (auto simp: dropped_def C(2,3,8) cong: if_cong)
    then show ?thesis using True c r by (auto simp: exit_client_def)
  qed
qed

text \<open>
  C10: When a server exits, the whole branch behind it goes and nothing else: \<open>exit_client\<close> returns (the recursion over the servers behind it and the
  loop that starts anew after each of them end, on links that make a tree), the network is consistent, and the server with exactly those
  who are linked through it, users and servers at any distance, are off the list of clients, the table of names, the channels and the
  lists of invitations; everybody else keeps name and status.
\<close>

theorem netsplit_exact:
  assumes net: "net_ok U net" and tree: "tree_of h net" and s: "s \<in> set (n_list net)" "IsServer (cl net s)"
  defines "B \<equiv> insert s {q. behind net s q}"
  shows "\<exists>net1 out. exit_client capab me_name cptr s from comment net = Some (net1, out, cptr = Some s) \<and> net_ok (U - B) net1 \<and>
    n_list net1 = filter (\<lambda>q. q \<notin> B) (n_list net) \<and>
    (\<forall>name. hash_find_client (cs_clients (n_st net1)) (n_tab net1) name None =
       (case hash_find_client (cs_clients (n_st net)) (n_tab net) name None of Some q \<Rightarrow> if q \<in> B then None else Some q | None \<Rightarrow> None)) \<and>
    (\<forall>a\<in>set (cs_channel (n_st net1)). B \<inter> (set (members_of (n_st net1) a) \<union> set (invites_of (n_st net1) a)) = {}) \<and>
    stat (n_st net1) = (\<lambda>q a. if q \<in> B then None else stat (n_st net) q a)"
proof -
  obtain net1 out where r: "exit_client capab me_name cptr s from comment net = Some (net1, out, cptr = Some s)" "net_ok (U - B) net1" "dropped B net net1"
    using exit_server_ok [OF net tree s] unfolding B_def by blast
  have "n_list net1 = filter (\<lambda>q. q \<notin> B) (n_list net)" "stat (n_st net1) = (\<lambda>q a. if q \<in> B then None else stat (n_st net) q a)"
    using r(3) by (auto simp: dropped_def)
  moreover have "B \<inter> (set (members_of (n_st net1) a) \<union> set (invites_of (n_st net1) a)) = {}" if "a \<in> set (cs_channel (n_st net1))" for a
    using users_only [OF r(2) _ that] by auto
  ultimately show ?thesis using r(1,2) dropped_find [OF net r(2,3)] by auto
qed

lemma example_net_split:
  "tree_of id example_net" "20 \<in> set (n_list example_net)" "IsServer (cl example_net 20)" "behind example_net 20 30" "behind example_net 20 40"
  "\<not> behind example_net 20 50" "\<not> behind example_net 20 10"
proof -
  have l: "n_list example_net = [50, 40, 30, 20, 10]" by (simp add: example_net_def)
  note simps = l IsServer_def IsClient_def IsPerson_def example_net_clients(2,3) example_clients_def example_client_def STAT_SERVER_def STAT_ME_def STAT_CLIENT_def
  show "tree_of id example_net" by (simp add: tree_of_def simps)
  show "20 \<in> set (n_list example_net)" "IsServer (cl example_net 20)" by (simp_all add: simps)
  show b: "behind example_net 20 30" by (rule behind.next_to) (simp_all add: simps)
  have "IsPerson (cl example_net 40)" using net_okD(4) [OF example_net_ok, of 40] by simp
  then show "behind example_net 20 40" by (intro behind.further [OF b]) (simp_all add: simps)
  have "False" if "behind example_net 20 q" "q = 50 \<or> q = 10" for q
    using that by (induction rule: behind.induct) (auto simp: simps)
  then show "\<not> behind example_net 20 50" "\<not> behind example_net 20 10" by blast+
qed

theorem netsplit_exact_witness:
  "net_ok {40, 50} example_net \<and> behind example_net 20 40 \<and>
   (\<exists>net1 out. exit_client (\<lambda>_. 0) ''me.net'' (Some 20) 20 20 ''gone'' example_net = Some (net1, out, True) \<and> n_list net1 = [50, 10] \<and>
      stat (n_st net1) 40 0 = None \<and> stat (n_st net1) 50 0 = Some CHFL_VOICE)"
proof -
  note E = example_net_split
  have l: "n_list example_net = [50, 40, 30, 20, 10]" by (simp add: example_net_def)
  from netsplit_exact [OF example_net_ok E(1-3), of "\<lambda>_. 0" "''me.net''" "Some 20" 20 "''gone''"] show ?thesis
    using example_net_ok example_net_channels(4) E(4-7) by (auto simp: l)
qed

end
