(* ===== verification/Spec2Isabelle.thy ===== *)
theory Spec2Isabelle
  imports Match Client_Hash Watch Whowas Generic_Hash Throttle Clones Inet Userban Simban
    Sbuf Msg_Tree Parse Packet Burst_Lists Exit_Laws
begin

text \<open>
  Verification development for solid-ircd, an IRC daemon in C.

  \<^bold>\<open>The program.\<close>  The daemon keeps global tables of clients, channels, watched nicknames,
  past nicknames, throttled addresses, clone counters and bans.  Commands and timers read and change
  these tables; nearly all decisions about who may connect, speak or use a name are taken by
  looking something up in one of them, with the string comparisons and the wildcard matcher of
  \<^verbatim>\<open>match.c\<close>.  The development models these tables with all their operations.

  \<^bold>\<open>Theories and sources.\<close>
  \<^item> \<open>Ircd_Prelude\<close>: byte strings, the signed and unsigned integers of the platform, flag
    tests, and the lemma collections shared by all theories.
  \<^item> \<open>Match\<close> (\<^verbatim>\<open>src/match.c\<close>, \<^verbatim>\<open>include/common.h\<close>): case tables,
    \<open>mycmp\<close>, \<open>myncmp\<close>, \<open>collapse\<close> and the matcher.  The static call counter is
    threaded through \<open>match_rec\<close>; \<open>glob\<close> is the reference meaning.  A positive answer
    is always right; the answer is exact as long as the counter (\<open>MAX_CALLS\<close> = 512) is not
    used up and the \<^verbatim>\<open>*!\<close> and \<^verbatim>\<open>*@\<close> shortcuts do not apply.
  \<^item> \<open>Chain_Table\<close>: the locale of a table of chains in which each element stands in the
    bucket its key names; interpreted for the client, channel and WATCH tables.
  \<^item> \<open>Client_Types\<close> (\<^verbatim>\<open>include/struct.h\<close>): the fields of clients and users that
    the modelled code reads, and the status macros.
  \<^item> \<open>Client_Hash\<close>, \<open>Watch\<close> (\<^verbatim>\<open>src/hash.c\<close>): the name hashes, the client
    and channel tables, and the WATCH lists, which refine a relation between clients and names.
  \<^item> \<open>Whowas\<close> (\<^verbatim>\<open>src/whowas.c\<close>): the ring of past nicknames with its hash chains
    and per-client chains.
  \<^item> \<open>Generic_Hash\<close>, \<open>Throttle\<close> (\<^verbatim>\<open>src/throttle.c\<close>): the generic hash table,
    and connection throttling as a per-address state machine.
  \<^item> \<open>Clones\<close> (\<^verbatim>\<open>src/clones.c\<close>): counters and limits of clients per address and
    per site.
  \<^item> \<open>Inet\<close> (\<^verbatim>\<open>src/inet_addr.c\<close>, \<^verbatim>\<open>src/support.c\<close>,
    \<^verbatim>\<open>src/userban.c\<close>): IPv4 text and netmasks at 32 bits.
  \<^item> \<open>Userban\<close>, \<open>Simban\<close> (\<^verbatim>\<open>src/userban.c\<close>): bans on users by host, address
    and network, and on nicknames, channels and real names: parsing, filing, searching, expiry,
    removal, reports and journal dumps.
  \<^item> \<open>Run_Ops\<close>: the locale of a set of operations that refine a specification step by step, and
    what follows for sequences of them.
  \<^item> \<open>Sbuf\<close> (\<^verbatim>\<open>src/sbuf.c\<close>): byte queues over pools of shared buffers, which refine
    plain lists of bytes as long as the callers keep three rules (\<open>sbuf_allowed\<close>).
  \<^item> \<open>Messages\<close>: the type of the messages the modelled code sends.
  \<^item> \<open>Msg_Tree\<close>, \<open>Parse\<close> (\<^verbatim>\<open>src/parse.c\<close>, \<^verbatim>\<open>include/msg.h\<close>): the
    command table with its prefix tree, and the parser of a message up to the call of the handler.
  \<^item> \<open>Packet\<close> (\<^verbatim>\<open>src/packet.c\<close>, \<^verbatim>\<open>src/s_bsd.c\<close>): cutting the input of
    servers and clients into lines, and serving the queue of a client to an end with the modelled
    parser.  The handlers of the commands are a parameter there; what is asked of them is
    \<open>handlers_ok\<close>.
  \<^item> \<open>Channel_Types\<close>, \<open>Channel_Bans\<close>, \<open>Channel_Access\<close>,
    \<open>Channel_Members\<close> (\<^verbatim>\<open>src/channel.c\<close>): channels with their masks, ban, exempt and
    invitation lists, the decisions who may join and speak, and membership, which refines a relation
    between clients and channel names.
  \<^item> \<open>C_Text\<close>: numbers as texts, read and written as the C library does.
  \<^item> \<open>Channel_Modes\<close> (\<^verbatim>\<open>src/channel.c\<close>): the commands MODE and SAMODE with the
    parser of mode changes, one definition per group of letters.  \<open>Mode_Replay\<close>: the changes a server
    announces, executed by another server with the same channel, give the same channel.
    \<open>Mode_Rights\<close>: who may change what.
  \<^item> \<open>Channel_Burst\<close> (\<^verbatim>\<open>src/channel.c\<close>): what a server sends about its channels when a link is
    made, and SJOIN, which merges it on the other side by the time stamps.  \<open>Net_Sync\<close>: two servers that
    exchange their bursts end with the same channel; the lines fit their buffers.  \<open>Burst_Lists\<close>: the
    messages about the lists of masks name every mask once.
  \<^item> \<open>Channel_Cmds\<close> (\<^verbatim>\<open>src/channel.c\<close>): the commands JOIN, SAJOIN, PART, KICK, TOPIC,
    INVITE and NAMES.  \<open>Cmd_Frames\<close>: what the routines they are built from do to a consistent
    state and to the status of the members.  \<open>Cmd_Safety\<close>: the same for each command, with total
    correctness rules over the option type.  \<open>Channel_Laws\<close>: sequences of commands keep the
    state consistent, who may kick whom, what a join can give, and who is let in.
  \<^item> \<open>Exit_Client\<close> (\<^verbatim>\<open>src/s_misc.c\<close>, \<^verbatim>\<open>src/list.c\<close>): \<open>exit_client\<close>, for
    users and for servers, with the list of clients and the table of names.  \<open>Exit_Laws\<close>: a user
    that exits is forgotten everywhere; a server takes exactly the branch behind it along.

  \<^bold>\<open>How the code is modelled.\<close>  A struct is a record, a heap object is an address of type
  \<open>addr\<close> with a store from addresses to records, a linked list is the list of its addresses in
  order.  Every operation maps the state to the new state and the C result.  Allocation takes a new
  address and never fails (\<^verbatim>\<open>MyMalloc\<close> ends the program otherwise).  \<open>None\<close> is a
  call of \<^verbatim>\<open>abort\<close>, or an access through a null or dangling pointer; theorems say that it
  does not occur.  Integers are words of their width where they wrap (hash values, flags, IPv4
  addresses) and \<open>int\<close> where the values are times and counters far from the limits.  The host is
  little-endian with 32-bit \<^verbatim>\<open>int\<close> and 64-bit \<^verbatim>\<open>long\<close>, and \<^verbatim>\<open>char\<close> is signed.
  The clock is the argument \<open>NOW\<close>.  Messages to clients are the lists of the arguments of
  the formatted texts.  Loops are structural recursions or have a termination
  proof; \<open>do_client_queue\<close>, \<open>exit_one_server\<close> and the loops over the links of a user are partial
  functions that are proved to return.  No fuel is used.

  \<^bold>\<open>What the lemmas show.\<close>  For each table: a consistency invariant kept by every operation;
  that searches find exactly what is filed (bans, clients, channels, watched names, history,
  throttles); that removal and expiry remove exactly what they should; bounds of the hash functions;
  round trips of add and delete, set and get, print and parse; and at the edges of the code, where
  its behaviour differs from its comments, what it does instead.

  \<^bold>\<open>What is not modelled.\<close>  Socket engines, the resolver, authentication, configuration
  files, cryptography, compression, regular expressions (vendored), memory statistics and the command
  handlers other than those of channels (where LIST and the burst of topics are missing).  Effects of modelled operations on these parts (a client dumped by a ban sweep, a
  notice sent) appear as values in the result.

  \<^bold>\<open>Plan.\<close>  Next are LIST (\<^verbatim>\<open>src/channel.c\<close>), nickname
  changes (\<^verbatim>\<open>src/m_nick.c\<close>) and the journals (\<^verbatim>\<open>src/klines.c\<close>,
  \<^verbatim>\<open>src/glines.c\<close>).
\<close>

end
